(* ===== verification/Lhat_Prelude.thy ===== *)
theory Lhat_Prelude
  imports Main "HOL-Library.Word"
begin

text \<open>
  Types, character names and generic lemmas that the components share.

  A C \<open>char\<close> of a text is a \<open>byte\<close> (the code casts to \<open>unsigned char\<close> wherever the sign
  could matter), \<open>uint32_t\<close> is \<open>u32\<close> and \<open>uint64_t\<close> is \<open>u64\<close>; a \<open>size_t\<close> that counts bytes or
  objects in memory is a \<open>nat\<close>.  The character names stand for the character literals of the
  source.
\<close>

unbundle bit_operations_syntax

type_synonym byte = "8 word"
type_synonym u8 = "8 word"
type_synonym u32 = "32 word"
type_synonym u64 = "64 word"

named_theorems lexer_frame
  \<open>which fields of the lexer an operation leaves alone\<close>
named_theorems lexer_mono
  \<open>an operation of the lexer only moves forward\<close>
named_theorems gc_frame
  \<open>which fields of the machine an operation of the collector leaves alone\<close>

subsection \<open>Character literals\<close>

abbreviation c_nul :: byte where "c_nul \<equiv> 0x00"
abbreviation c_tab :: byte where "c_tab \<equiv> 0x09"
abbreviation c_newline :: byte where "c_newline \<equiv> 0x0A"
abbreviation c_vtab :: byte where "c_vtab \<equiv> 0x0B"
abbreviation c_formfeed :: byte where "c_formfeed \<equiv> 0x0C"
abbreviation c_return :: byte where "c_return \<equiv> 0x0D"
abbreviation c_space :: byte where "c_space \<equiv> 0x20"
abbreviation c_bang :: byte where "c_bang \<equiv> 0x21"
abbreviation c_dquote :: byte where "c_dquote \<equiv> 0x22"
abbreviation c_hash :: byte where "c_hash \<equiv> 0x23"
abbreviation c_dollar :: byte where "c_dollar \<equiv> 0x24"
abbreviation c_quote :: byte where "c_quote \<equiv> 0x27"
abbreviation c_lparen :: byte where "c_lparen \<equiv> 0x28"
abbreviation c_rparen :: byte where "c_rparen \<equiv> 0x29"
abbreviation c_star :: byte where "c_star \<equiv> 0x2A"
abbreviation c_plus :: byte where "c_plus \<equiv> 0x2B"
abbreviation c_comma :: byte where "c_comma \<equiv> 0x2C"
abbreviation c_minus :: byte where "c_minus \<equiv> 0x2D"
abbreviation c_dot :: byte where "c_dot \<equiv> 0x2E"
abbreviation c_0 :: byte where "c_0 \<equiv> 0x30"
abbreviation c_1 :: byte where "c_1 \<equiv> 0x31"
abbreviation c_7 :: byte where "c_7 \<equiv> 0x37"
abbreviation c_9 :: byte where "c_9 \<equiv> 0x39"
abbreviation c_colon :: byte where "c_colon \<equiv> 0x3A"
abbreviation c_qmark :: byte where "c_qmark \<equiv> 0x3F"
abbreviation c_at :: byte where "c_at \<equiv> 0x40"
abbreviation c_A :: byte where "c_A \<equiv> 0x41"
abbreviation c_B :: byte where "c_B \<equiv> 0x42"
abbreviation c_D :: byte where "c_D \<equiv> 0x44"
abbreviation c_E :: byte where "c_E \<equiv> 0x45"
abbreviation c_F :: byte where "c_F \<equiv> 0x46"
abbreviation c_O :: byte where "c_O \<equiv> 0x4F"
abbreviation c_S :: byte where "c_S \<equiv> 0x53"
abbreviation c_W :: byte where "c_W \<equiv> 0x57"
abbreviation c_X :: byte where "c_X \<equiv> 0x58"
abbreviation c_Z :: byte where "c_Z \<equiv> 0x5A"
abbreviation c_lbracket :: byte where "c_lbracket \<equiv> 0x5B"
abbreviation c_backslash :: byte where "c_backslash \<equiv> 0x5C"
abbreviation c_rbracket :: byte where "c_rbracket \<equiv> 0x5D"
abbreviation c_hat :: byte where "c_hat \<equiv> 0x5E"
abbreviation c_underscore :: byte where "c_underscore \<equiv> 0x5F"
abbreviation c_backtick :: byte where "c_backtick \<equiv> 0x60"
abbreviation c_a :: byte where "c_a \<equiv> 0x61"
abbreviation c_b :: byte where "c_b \<equiv> 0x62"
abbreviation c_d :: byte where "c_d \<equiv> 0x64"
abbreviation c_e :: byte where "c_e \<equiv> 0x65"
abbreviation c_f :: byte where "c_f \<equiv> 0x66"
abbreviation c_n :: byte where "c_n \<equiv> 0x6E"
abbreviation c_o :: byte where "c_o \<equiv> 0x6F"
abbreviation c_r :: byte where "c_r \<equiv> 0x72"
abbreviation c_s :: byte where "c_s \<equiv> 0x73"
abbreviation c_t :: byte where "c_t \<equiv> 0x74"
abbreviation c_u :: byte where "c_u \<equiv> 0x75"
abbreviation c_v :: byte where "c_v \<equiv> 0x76"
abbreviation c_w :: byte where "c_w \<equiv> 0x77"
abbreviation c_x :: byte where "c_x \<equiv> 0x78"
abbreviation c_z :: byte where "c_z \<equiv> 0x7A"
abbreviation c_lbrace :: byte where "c_lbrace \<equiv> 0x7B"
abbreviation c_bar :: byte where "c_bar \<equiv> 0x7C"
abbreviation c_rbrace :: byte where "c_rbrace \<equiv> 0x7D"

text \<open>The bytes of a string literal of the source, for texts and tables.\<close>

definition bytes_of :: "string \<Rightarrow> byte list" where
  "bytes_of s = map (\<lambda>c. word_of_nat (of_char c)) s"

lemma bytes_of_simps [simp]:
  "bytes_of [] = []"
  "bytes_of (c # cs) = word_of_nat (of_char c) # bytes_of cs"
  by (simp_all add: bytes_of_def)

end
