(* ===== verification/Lhat_Source.thy ===== *)
theory Lhat_Source
  imports Lhat_Prelude
begin

text \<open>
  Source text loading (\<open>src/source.c\<close>): the normalisation of line endings and the byte order
  mark that every offset of the lexer refers to.  Reading a file's bytes is the host's; an
  allocation is taken to succeed.
\<close>

record LhatSource =
  src_name :: "byte list"
  src_text :: "byte list"

text \<open>The loop over \<open>text[i]\<close>, \<open>i\<close> being where the list starts.\<close>

fun normalise_loop :: "byte list \<Rightarrow> byte list" where
  "normalise_loop [] = []"
| "normalise_loop (c # cs) =
     (if c = c_return then
        (case cs of
           d # ds \<Rightarrow> if d = c_newline then c_newline # normalise_loop ds
                     else c_newline # normalise_loop cs
         | [] \<Rightarrow> [c_newline])
      else c # normalise_loop cs)"

definition normalise :: "byte list \<Rightarrow> byte list" where
  "normalise text =
     (if 3 \<le> length text \<and> text ! 0 = 0xEF \<and> text ! 1 = 0xBB \<and> text ! 2 = 0xBF
      then normalise_loop (drop 3 text) else normalise_loop text)"

definition lhat_source_init_from_string :: "byte list option \<Rightarrow> byte list \<Rightarrow> LhatSource" where
  "lhat_source_init_from_string name text =
     \<lparr>src_name = (case name of Some n \<Rightarrow> n | None \<Rightarrow> bytes_of ''<memory>''),
      src_text = normalise text\<rparr>"

subsection \<open>What normalisation leaves\<close>

lemma normalise_loop_no_return: "c_return \<notin> set (normalise_loop xs)"
  by (induction xs rule: normalise_loop.induct) (auto split: list.splits)

lemma normalise_loop_id: "c_return \<notin> set xs \<Longrightarrow> normalise_loop xs = xs"
  by (induction xs) auto

lemma normalise_loop_length: "length (normalise_loop xs) \<le> length xs"
  by (induction xs rule: normalise_loop.induct) (auto split: list.splits)

lemma normalise_loop_line:
  "c_return \<notin> set l \<Longrightarrow> normalise_loop (l @ rest) = l @ normalise_loop rest"
  by (induction l) auto

text \<open>A text of lines, each but the last ended by \<open>eol\<close>.\<close>

fun join_lines :: "byte list \<Rightarrow> byte list list \<Rightarrow> byte list" where
  "join_lines eol [] = []"
| "join_lines eol [l] = l"
| "join_lines eol (l # m # ls) = l @ eol @ join_lines eol (m # ls)"

definition plain_line :: "byte list \<Rightarrow> bool" where
  "plain_line l \<longleftrightarrow> c_return \<notin> set l \<and> c_newline \<notin> set l"

lemma join_lines_no_newline_first:
  "\<forall>l \<in> set (m # ls). plain_line l \<Longrightarrow> hd (join_lines [c_return] (m # ls) @ [c_nul]) \<noteq> c_newline"
  by (cases ls; cases m) (auto simp: plain_line_def)

lemma normalise_loop_return:
  "hd (rest @ [c_nul]) \<noteq> c_newline \<Longrightarrow> normalise_loop (c_return # rest) = c_newline # normalise_loop rest"
  by (cases rest) auto

lemma normalise_loop_newline:
  "normalise_loop (c_newline # rest) = c_newline # normalise_loop rest"
  "normalise_loop (c_return # c_newline # rest) = c_newline # normalise_loop rest"
  by simp_all

lemma normalise_loop_join:
  assumes "\<forall>l \<in> set ls. plain_line l"
    and "eol \<in> {[c_newline], [c_return], [c_return, c_newline]}"
  shows "normalise_loop (join_lines eol ls) = join_lines [c_newline] ls"
  using assms
proof (induction eol ls rule: join_lines.induct)
  case (2 eol l)
  then show ?case by (simp add: plain_line_def normalise_loop_id)
next
  case (3 eol l m ls)
  then have "c_return \<notin> set l" by (simp add: plain_line_def)
  with 3 join_lines_no_newline_first [of m ls] show ?case
    by (auto simp: normalise_loop_line normalise_loop_return normalise_loop_newline
        simp del: normalise_loop.simps(2))
qed simp

end
