(* ===== verification/Lhat_Utf8.thy ===== *)
theory Lhat_Utf8
  imports Lhat_Prelude
begin

text \<open>
  UTF-8 as \<open>src/lexer.c\<close> reads and writes it, and its character classes.

  \<open>decode_utf8\<close> gets the bytes from the position on (\<open>p\<close> with \<open>available\<close> bytes in C) and
  answers the code point with its width; an ill-formed sequence is \<open>LHAT_CP_INVALID\<close> of
  width 1.  \<open>encode_utf8\<close> is what the escape \<open>\u{...}\<close> writes into a string.
\<close>

definition LHAT_CP_INVALID :: u32 where
  "LHAT_CP_INVALID = 0xFFFFFFFF"

subsection \<open>Decoding\<close>

text \<open>The loop over the continuation bytes \<open>p[i], ..., p[n - 1]\<close>; None where one is not one.\<close>

fun decode_continuation :: "byte list \<Rightarrow> nat \<Rightarrow> u32 \<Rightarrow> u32 option" where
  "decode_continuation p 0 cp = Some cp"
| "decode_continuation [] (Suc k) cp = None"
| "decode_continuation (ci # p) (Suc k) cp =
     (if ci AND 0xC0 \<noteq> 0x80 then None
      else decode_continuation p k (push_bit 6 cp OR ucast (ci AND 0x3F)))"

definition utf8_lead :: "byte \<Rightarrow> (nat \<times> u32) option" where
  "utf8_lead c0 =
     (if c0 AND 0xE0 = 0xC0 then Some (2, ucast (c0 AND 0x1F))
      else if c0 AND 0xF0 = 0xE0 then Some (3, ucast (c0 AND 0x0F))
      else if c0 AND 0xF8 = 0xF0 then Some (4, ucast (c0 AND 0x07))
      else None)"

definition utf8_overlong :: "nat \<Rightarrow> u32 \<Rightarrow> bool" where
  "utf8_overlong n cp \<longleftrightarrow>
     (n = 2 \<and> cp < 0x80) \<or> (n = 3 \<and> cp < 0x800) \<or> (n = 4 \<and> cp < 0x10000)"

definition utf8_surrogate :: "u32 \<Rightarrow> bool" where
  "utf8_surrogate cp \<longleftrightarrow> 0xD800 \<le> cp \<and> cp \<le> 0xDFFF"

definition decode_utf8 :: "byte list \<Rightarrow> u32 \<times> nat" where
  "decode_utf8 p =
     (let c0 = hd p in
      if c0 < 0x80 then (ucast c0, 1)
      else case utf8_lead c0 of
        None \<Rightarrow> (LHAT_CP_INVALID, 1)
      | Some (n, cp0) \<Rightarrow>
          if length p < n then (LHAT_CP_INVALID, 1)
          else (case decode_continuation (tl p) (n - 1) cp0 of
            None \<Rightarrow> (LHAT_CP_INVALID, 1)
          | Some cp \<Rightarrow>
              if utf8_overlong n cp \<or> utf8_surrogate cp \<or> cp > 0x10FFFF
              then (LHAT_CP_INVALID, 1)
              else (cp, n)))"

definition encode_utf8 :: "u32 \<Rightarrow> byte list" where
  "encode_utf8 cp =
     (if cp < 0x80 then [ucast cp]
      else if cp < 0x800 then
        [ucast (0xC0 OR drop_bit 6 cp), ucast (0x80 OR (cp AND 0x3F))]
      else if cp < 0x10000 then
        [ucast (0xE0 OR drop_bit 12 cp), ucast (0x80 OR (drop_bit 6 cp AND 0x3F)),
         ucast (0x80 OR (cp AND 0x3F))]
      else
        [ucast (0xF0 OR drop_bit 18 cp), ucast (0x80 OR (drop_bit 12 cp AND 0x3F)),
         ucast (0x80 OR (drop_bit 6 cp AND 0x3F)), ucast (0x80 OR (cp AND 0x3F))])"

subsection \<open>Character classes\<close>

definition is_unicode_space :: "u32 \<Rightarrow> bool" where
  "is_unicode_space cp \<longleftrightarrow>
     cp = 0x00A0 \<or> cp = 0x1680 \<or> (0x2000 \<le> cp \<and> cp \<le> 0x200A) \<or>
     cp = 0x2028 \<or> cp = 0x2029 \<or> cp = 0x202F \<or>
     cp = 0x205F \<or> cp = 0x3000 \<or> cp = 0xFEFF"

definition is_reserved_symbol :: "u32 \<Rightarrow> bool" where
  "is_reserved_symbol cp \<longleftrightarrow>
     cp = 0x2260 \<or> cp = 0x2264 \<or> cp = 0x2265 \<or> cp = 0x2266 \<or> cp = 0x2267 \<or>
     cp = 0x00D7 \<or> cp = 0x22C5"

definition is_ident_start :: "u32 \<Rightarrow> bool" where
  "is_ident_start cp =
     (if cp = LHAT_CP_INVALID then False
      else if cp < 0x80 then
        (0x41 \<le> cp \<and> cp \<le> 0x5A) \<or> (0x61 \<le> cp \<and> cp \<le> 0x7A) \<or> cp = 0x5F
      else \<not> is_unicode_space cp \<and> \<not> is_reserved_symbol cp)"

definition is_ident_continue :: "u32 \<Rightarrow> bool" where
  "is_ident_continue cp =
     (if cp < 0x80 then
        (0x41 \<le> cp \<and> cp \<le> 0x5A) \<or> (0x61 \<le> cp \<and> cp \<le> 0x7A) \<or>
        (0x30 \<le> cp \<and> cp \<le> 0x39) \<or> cp = 0x5F
      else is_ident_start cp)"

subsection \<open>Bits of bytes and code points\<close>

lemma bit_less: "bit (w :: 'a::len word) n \<Longrightarrow> w < 2 ^ k \<Longrightarrow> n < k"
  by (metis less_mask_eq bit_and_iff bit_mask_iff)

lemma less_bits: "(\<And>n. bit (w :: 'a::len word) n \<Longrightarrow> n < k) \<Longrightarrow> k < LENGTH('a) \<Longrightarrow> w < 2 ^ k"
proof -
  assume b: "\<And>n. bit w n \<Longrightarrow> n < k" and k: "k < LENGTH('a)"
  have "w AND mask k = w"
    by (rule bit_word_eqI) (auto simp: bit_simps dest: b)
  then show "w < 2 ^ k"
    using and_mask_less' [OF k, of w] by simp
qed

lemma less_8_cases:
  "n < 8 \<longleftrightarrow> n = 0 \<or> n = 1 \<or> n = 2 \<or> n = 3 \<or> n = 4 \<or> n = 5 \<or> n = 6 \<or> n = (7::nat)"
  by auto

lemma byte_eq_iff: "(a::byte) = b \<longleftrightarrow> (\<forall>n<8. bit a n = bit b n)"
  by (auto intro: bit_word_eqI)

lemma ucast_byte_eqI:
  "(\<And>n. n < 8 \<Longrightarrow> bit (v::u32) n \<longleftrightarrow> bit (w::byte) n) \<Longrightarrow> (\<And>n. 8 \<le> n \<Longrightarrow> \<not> bit v n) \<Longrightarrow> ucast w = v"
  apply (rule bit_word_eqI)
  subgoal for n using bit_imp_le_length [of w n] by (cases "n < 8") (auto simp: bit_simps)
  done

lemmas bits_below =
  bit_less [where k = 7, simplified] bit_less [where k = 11, simplified]
  bit_less [where k = 16, simplified] bit_less [where k = 21, simplified]

lemmas byte_bits = byte_eq_iff bit_simps less_8_cases all_conj_distrib

lemma ascii_bits: "(b::byte) < 0x80 \<longleftrightarrow> \<not> bit b 7"
proof
  assume "b < 0x80" then show "\<not> bit b 7" using bits_below(1) [of b 7] by auto
next
  assume "\<not> bit b 7"
  then have "b = b AND 0x7F" by (auto simp: byte_bits)
  also have "\<dots> \<le> 0x7F" by (rule word_and_le1)
  finally show "b < 0x80" by (simp add: word_le_nat_alt word_less_nat_alt)
qed

lemma lead_bits:
  "(b::byte) AND 0xE0 = 0xC0 \<longleftrightarrow> bit b 7 \<and> bit b 6 \<and> \<not> bit b 5"
  "(b::byte) AND 0xF0 = 0xE0 \<longleftrightarrow> bit b 7 \<and> bit b 6 \<and> bit b 5 \<and> \<not> bit b 4"
  "(b::byte) AND 0xF8 = 0xF0 \<longleftrightarrow> bit b 7 \<and> bit b 6 \<and> bit b 5 \<and> bit b 4 \<and> \<not> bit b 3"
  "(b::byte) AND 0xC0 = 0x80 \<longleftrightarrow> bit b 7 \<and> \<not> bit b 6"
  by (auto simp: byte_bits)

text \<open>What the masks of the decoder read back from the bytes of the encoder.\<close>

lemma payload_bits:
  "ucast ((ucast (0x80 OR (y AND 0x3F)) :: byte) AND 0x3F) = (take_bit 6 y :: u32)"
  "ucast ((ucast (0xC0 OR y) :: byte) AND 0x1F) = (take_bit 5 y :: u32)"
  "ucast ((ucast (0xE0 OR y) :: byte) AND 0x0F) = (take_bit 4 y :: u32)"
  "ucast ((ucast (0xF0 OR y) :: byte) AND 0x07) = (take_bit 3 y :: u32)"
  by (rule ucast_byte_eqI; auto simp: bit_simps less_8_cases)+

lemma encoded_tail: "(ucast (0x80 OR ((y::u32) AND 0x3F)) :: byte) AND 0xC0 = 0x80"
  by (simp add: lead_bits bit_simps)

lemma encoded_lead:
  "(cp::u32) < 0x800 \<Longrightarrow> utf8_lead (ucast (0xC0 OR drop_bit 6 cp)) = Some (2, take_bit 5 (drop_bit 6 cp))"
  "(cp::u32) < 0x10000 \<Longrightarrow> utf8_lead (ucast (0xE0 OR drop_bit 12 cp)) = Some (3, take_bit 4 (drop_bit 12 cp))"
  "(cp::u32) < 0x200000 \<Longrightarrow> utf8_lead (ucast (0xF0 OR drop_bit 18 cp)) = Some (4, take_bit 3 (drop_bit 18 cp))"
  by (auto simp: utf8_lead_def lead_bits payload_bits bit_simps dest: bits_below)

lemma joined_bits:
  "(cp::u32) < 0x80 \<Longrightarrow> ucast (ucast cp :: byte) = cp"
  "(cp::u32) < 0x800 \<Longrightarrow> push_bit 6 (take_bit 5 (drop_bit 6 cp)) OR take_bit 6 cp = cp"
  by (rule ucast_byte_eqI bit_word_eqI; auto simp: bit_simps dest: bits_below)+

lemma joined_bits3:
  "(cp::u32) < 0x10000 \<Longrightarrow>
     push_bit 6 (push_bit 6 (take_bit 4 (drop_bit 12 cp)) OR take_bit 6 (drop_bit 6 cp)) OR
     take_bit 6 cp = cp"
  apply (rule bit_word_eqI)
  subgoal for n by (cases "12 \<le> n"; cases "6 \<le> n") (auto simp: bit_simps dest: bits_below)
  done

lemma joined_bits4:
  "(cp::u32) < 0x200000 \<Longrightarrow>
     push_bit 6 (push_bit 6 (push_bit 6 (take_bit 3 (drop_bit 18 cp)) OR take_bit 6 (drop_bit 12 cp)) OR
       take_bit 6 (drop_bit 6 cp)) OR take_bit 6 cp = cp"
  apply (rule bit_word_eqI)
  subgoal for n
    by (cases "18 \<le> n"; cases "12 \<le> n"; cases "6 \<le> n") (auto simp: bit_simps dest: bits_below)
  done

text \<open>The other way round: what the encoder writes for what the decoder read.\<close>

lemma split_bits2:
  "bit b0 7 \<Longrightarrow> bit b0 6 \<Longrightarrow> \<not> bit b0 5 \<Longrightarrow> bit b1 7 \<Longrightarrow> \<not> bit b1 6 \<Longrightarrow>
   cp = push_bit 6 (ucast (b0 AND 0x1F)) OR ucast (b1 AND 0x3F) \<Longrightarrow>
   ucast (0xC0 OR drop_bit 6 (cp::u32)) = (b0::byte) \<and> ucast (0x80 OR (cp AND 0x3F)) = (b1::byte)"
  by (auto simp: byte_bits)

lemma split_bits3:
  "bit b0 7 \<Longrightarrow> bit b0 6 \<Longrightarrow> bit b0 5 \<Longrightarrow> \<not> bit b0 4 \<Longrightarrow> bit b1 7 \<Longrightarrow> \<not> bit b1 6 \<Longrightarrow>
   bit b2 7 \<Longrightarrow> \<not> bit b2 6 \<Longrightarrow>
   cp = push_bit 6 (push_bit 6 (ucast (b0 AND 0x0F)) OR ucast (b1 AND 0x3F)) OR ucast (b2 AND 0x3F) \<Longrightarrow>
   ucast (0xE0 OR drop_bit 12 (cp::u32)) = (b0::byte) \<and>
   ucast (0x80 OR (drop_bit 6 cp AND 0x3F)) = (b1::byte) \<and> ucast (0x80 OR (cp AND 0x3F)) = (b2::byte)"
  by (auto simp: byte_bits)

lemma split_bits4:
  "bit b0 7 \<Longrightarrow> bit b0 6 \<Longrightarrow> bit b0 5 \<Longrightarrow> bit b0 4 \<Longrightarrow> \<not> bit b0 3 \<Longrightarrow> bit b1 7 \<Longrightarrow> \<not> bit b1 6 \<Longrightarrow>
   bit b2 7 \<Longrightarrow> \<not> bit b2 6 \<Longrightarrow> bit b3 7 \<Longrightarrow> \<not> bit b3 6 \<Longrightarrow>
   cp = push_bit 6 (push_bit 6 (push_bit 6 (ucast (b0 AND 0x07)) OR ucast (b1 AND 0x3F)) OR
          ucast (b2 AND 0x3F)) OR ucast (b3 AND 0x3F) \<Longrightarrow>
   ucast (0xF0 OR drop_bit 18 (cp::u32)) = (b0::byte) \<and>
   ucast (0x80 OR (drop_bit 12 cp AND 0x3F)) = (b1::byte) \<and>
   ucast (0x80 OR (drop_bit 6 cp AND 0x3F)) = (b2::byte) \<and> ucast (0x80 OR (cp AND 0x3F)) = (b3::byte)"
  by (auto simp: byte_bits)

subsection \<open>Decoding and encoding are inverse\<close>


definition unicode_scalar :: "u32 \<Rightarrow> bool" where
  "unicode_scalar cp \<longleftrightarrow> cp \<le> 0x10FFFF \<and> \<not> utf8_surrogate cp"

lemma decode_continuation_numeral [simp]:
  "decode_continuation (ci # p) (numeral k) cp =
     (if ci AND 0xC0 \<noteq> 0x80 then None
      else decode_continuation p (pred_numeral k) (push_bit 6 cp OR ucast (ci AND 0x3F)))"
  "decode_continuation [] (numeral k) cp = None"
  by (simp_all add: numeral_eq_Suc)

lemma decode_continuation_list:
  "decode_continuation p (Suc k) cp = Some r \<longleftrightarrow>
     (\<exists>ci q. p = ci # q \<and> ci AND 0xC0 = 0x80 \<and> decode_continuation q k (push_bit 6 cp OR ucast (ci AND 0x3F)) = Some r)"
  by (cases p) auto

lemma decode_encode:
  assumes "unicode_scalar cp"
  shows "decode_utf8 (encode_utf8 cp @ rest) = (cp, length (encode_utf8 cp))"
proof -
  have small: "cp < 0x200000" using assms by (auto simp: unicode_scalar_def word_le_nat_alt word_less_nat_alt)
  have top: "\<not> 0x10FFFF < cp" using assms by (auto simp: unicode_scalar_def)
  have c4: "\<not> (ucast (0xF0 OR drop_bit 18 cp) :: byte) < 0x80" "\<not> (ucast (0xE0 OR drop_bit 12 cp) :: byte) < 0x80"
   "\<not> (ucast (0xC0 OR drop_bit 6 cp) :: byte) < 0x80"
    by (simp_all add: ascii_bits bit_simps)
  consider "cp < 0x80" | "\<not> cp < 0x80" "cp < 0x800" | "\<not> cp < 0x80" "\<not> cp < 0x800" "cp < 0x10000" | "\<not> cp < 0x80" "\<not> cp < 0x800" "\<not> cp < 0x10000"
    by auto
  then show ?thesis
  proof cases
    case 1
    have "(ucast cp :: byte) < 0x80" using 1 by (auto simp: ascii_bits bit_simps dest: bits_below)
    then show ?thesis using 1 by (simp add: decode_utf8_def encode_utf8_def joined_bits)
  next
    case 2
    then show ?thesis using assms
      by (simp add: decode_utf8_def encode_utf8_def encoded_lead c4 payload_bits encoded_tail joined_bits utf8_overlong_def unicode_scalar_def top)
  next
    case 3
    then show ?thesis using assms joined_bits3 [of cp]
      by (simp add: decode_utf8_def encode_utf8_def encoded_lead c4 payload_bits encoded_tail utf8_overlong_def unicode_scalar_def top decode_continuation_numeral)
  next
    case 4
    then show ?thesis using assms small joined_bits4 [of cp]
      by (simp add: decode_utf8_def encode_utf8_def encoded_lead c4 payload_bits encoded_tail utf8_overlong_def unicode_scalar_def top decode_continuation_numeral)
  qed
qed

lemma decode_utf8_width:
  "p \<noteq> [] \<Longrightarrow> decode_utf8 p = (cp, n) \<Longrightarrow> 0 < n \<and> n \<le> length p"
  by (cases p) (auto simp: decode_utf8_def utf8_lead_def Let_def Suc_le_eq split: if_splits option.splits)

lemma decode_continuation_Some:
  "decode_continuation p k cp = Some r \<Longrightarrow> k \<le> length p"
  by (induction p k cp rule: decode_continuation.induct) (auto split: if_splits)

lemma decode_2:
  assumes "decode_continuation p (Suc 0) (ucast (b0 AND 0x1F)) = Some cp" "b0 AND 0xE0 = 0xC0" "\<not> cp < 0x80"
  shows "take 2 (b0 # p) = encode_utf8 cp"
proof -
  from assms(1) obtain b1 q where p: "p = b1 # q" and b1: "b1 AND 0xC0 = 0x80"
    and cp: "cp = push_bit 6 (ucast (b0 AND 0x1F)) OR ucast (b1 AND 0x3F)"
    by (auto simp: decode_continuation_list)
  have "cp < 2 ^ 11"
    by (rule less_bits) (auto simp: cp bit_simps less_8_cases dest!: bit_imp_le_length)
  with assms b1 split_bits2 [OF _ _ _ _ _ cp] show ?thesis
    by (simp add: p lead_bits encode_utf8_def)
qed

lemma decode_3:
  assumes "decode_continuation p 2 (ucast (b0 AND 0x0F)) = Some cp" "b0 AND 0xF0 = 0xE0" "\<not> cp < 0x800"
  shows "take 3 (b0 # p) = encode_utf8 cp"
proof -
  from assms(1) obtain b1 b2 q where p: "p = b1 # b2 # q" and b: "b1 AND 0xC0 = 0x80" "b2 AND 0xC0 = 0x80"
    and cp: "cp = push_bit 6 (push_bit 6 (ucast (b0 AND 0x0F)) OR ucast (b1 AND 0x3F)) OR ucast (b2 AND 0x3F)"
    by (auto simp: numeral_2_eq_2 decode_continuation_list)
  have "cp < 2 ^ 16"
    by (rule less_bits) (auto simp: cp bit_simps less_8_cases dest!: bit_imp_le_length)
  moreover have "\<not> cp < 0x80" using assms(3) by (auto simp: word_less_nat_alt)
  ultimately show ?thesis using assms b split_bits3 [OF _ _ _ _ _ _ _ _ cp]
    by (simp add: p lead_bits encode_utf8_def)
qed

lemma decode_4:
  assumes "decode_continuation p 3 (ucast (b0 AND 0x07)) = Some cp" "b0 AND 0xF8 = 0xF0" "\<not> cp < 0x10000"
  shows "take 4 (b0 # p) = encode_utf8 cp"
proof -
  from assms(1) obtain b1 b2 b3 q where p: "p = b1 # b2 # b3 # q" and b: "b1 AND 0xC0 = 0x80" "b2 AND 0xC0 = 0x80" "b3 AND 0xC0 = 0x80"
    and cp: "cp = push_bit 6 (push_bit 6 (push_bit 6 (ucast (b0 AND 0x07)) OR ucast (b1 AND 0x3F)) OR ucast (b2 AND 0x3F)) OR ucast (b3 AND 0x3F)"
    by (auto simp: numeral_3_eq_3 decode_continuation_list)
  moreover have "\<not> cp < 0x80" "\<not> cp < 0x800" using assms(3) by (auto simp: word_less_nat_alt)
  ultimately show ?thesis using assms b split_bits4 [OF _ _ _ _ _ _ _ _ _ _ _ cp]
    by (simp add: p lead_bits encode_utf8_def)
qed

lemma encode_decode:
  assumes p: "p \<noteq> []" and d: "decode_utf8 p = (cp, n)" and v: "cp \<noteq> LHAT_CP_INVALID"
  shows "take n p = encode_utf8 cp \<and> unicode_scalar cp"
proof -
  obtain b0 q where pq: "p = b0 # q" using p by (cases p) auto
  show ?thesis
  proof (cases "b0 < 0x80")
    case True
    then have "cp = ucast b0" "n = 1" using d by (auto simp: pq decode_utf8_def)
    moreover have "ucast b0 < (0x80::u32)"
      using less_bits [of "ucast b0 :: u32" 7] True
      by (auto simp: bit_simps dest: bits_below)
    moreover have "ucast (ucast b0 :: u32) = b0" by (auto simp: byte_bits)
    ultimately show ?thesis 
      by (auto simp: pq encode_utf8_def unicode_scalar_def utf8_surrogate_def word_less_nat_alt word_le_nat_alt)
  next
    case False
    then show ?thesis using d v
      by (auto simp: pq decode_utf8_def utf8_lead_def utf8_overlong_def unicode_scalar_def linorder_not_less
        dest: decode_2 decode_3 decode_4 split: if_splits option.splits)
  qed
qed

end
