(* ===== verification/Lhat_Number.thy ===== *)
theory Lhat_Number
  imports Lhat_Prelude
begin

text \<open>
  The numeric literal grammar (\<open>src/number.c\<close>), which the lexer and \<open>tonumber\<close> share.

  A \<open>LhatReal\<close> is a C \<open>double\<close>: here the 64 bits of its IEEE 754 representation.  \<open>strtoull\<close>
  and \<open>strtod\<close> are modelled for the texts the grammar hands them, which are runs of digits
  with at most one point and one exponent: the first reads the digits in their base and
  reports ERANGE past 64 bits, the second answers the double nearest to the decimal value, ties
  to even, and an infinity past the range.
\<close>

type_synonym LhatReal = u64
type_synonym LhatInteger = u64 \<comment> \<open>two's complement, read with \<open>sint\<close>\<close>

datatype LhatNumberKind = LHAT_NUMBER_INTEGER | LHAT_NUMBER_REAL

datatype LhatNumberStatus =
    LHAT_NUMBER_OK
  | LHAT_NUMBER_MALFORMED
  | LHAT_NUMBER_BAD_EXPONENT
  | LHAT_NUMBER_OVERFLOW
  | LHAT_NUMBER_TOO_LONG

record LhatNumberLiteral =
  num_kind :: LhatNumberKind
  num_status :: LhatNumberStatus
  num_length :: nat
  num_integer :: u64
  num_base :: nat
  num_real :: LhatReal

definition LHAT_NUMBER_BUFFER :: nat where
  "LHAT_NUMBER_BUFFER = 256"

subsection \<open>Digits\<close>

definition is_decimal_digit :: "byte \<Rightarrow> bool" where
  "is_decimal_digit c \<longleftrightarrow> c_0 \<le> c \<and> c \<le> c_9"

definition is_digit_of_base :: "byte \<Rightarrow> nat \<Rightarrow> bool" where
  "is_digit_of_base c base =
     (if base = 2 then c = c_0 \<or> c = c_1
      else if base = 8 then c_0 \<le> c \<and> c \<le> c_7
      else if base = 10 then c_0 \<le> c \<and> c \<le> c_9
      else if base = 16 then
        (c_0 \<le> c \<and> c \<le> c_9) \<or> (c_a \<le> c \<and> c \<le> c_f) \<or> (c_A \<le> c \<and> c \<le> c_F)
      else False)"

text \<open>\<open>byte_at\<close> of the reader at position \<open>at\<close>: past the end it answers NUL.\<close>

definition reader_byte :: "byte list \<Rightarrow> nat \<Rightarrow> byte" where
  "reader_byte txt i = (if length txt \<le> i then c_nul else txt ! i)"

text \<open>
  \<open>scan_digit_run\<close> from position \<open>at\<close>: where the run ends, how many digits it has and whether a
  separator is misplaced.  \<open>prev\<close> is \<open>previous_was_digit\<close>.
\<close>

function scan_digits ::
    "byte list \<Rightarrow> nat \<Rightarrow> nat \<Rightarrow> bool \<Rightarrow> nat \<Rightarrow> bool \<Rightarrow> nat \<times> nat \<times> bool" where
  "scan_digits txt base at prev digits malformed =
     (let c = reader_byte txt at in
      if c = c_underscore then
        scan_digits txt base (at + 1) False digits
          (if \<not> prev \<or> \<not> is_digit_of_base (reader_byte txt (at + 1)) base then True else malformed)
      else if \<not> is_digit_of_base c base then (at, digits, malformed)
      else scan_digits txt base (at + 1) True (digits + 1) malformed)"
  by pat_completeness auto
termination
  by (relation "measure (\<lambda>(txt, base, at, prev, digits, malformed). length txt - at)")
     (auto simp: reader_byte_def is_digit_of_base_def split: if_splits)

declare scan_digits.simps [simp del]

definition scan_digit_run :: "byte list \<Rightarrow> nat \<Rightarrow> nat \<Rightarrow> nat \<times> nat \<times> bool" where
  "scan_digit_run txt base at = scan_digits txt base at False 0 False"

subsection \<open>The C library's conversions\<close>

definition digit_value :: "byte \<Rightarrow> nat" where
  "digit_value c =
     (if c_0 \<le> c \<and> c \<le> c_9 then unat (c - c_0)
      else if c_a \<le> c \<and> c \<le> c_f then unat (c - c_a) + 10
      else unat (c - c_A) + 10)"

definition digits_value :: "nat \<Rightarrow> byte list \<Rightarrow> nat" where
  "digits_value base ds = foldl (\<lambda>v c. v * base + digit_value c) 0 ds"

text \<open>The value and whether \<open>errno\<close> is ERANGE.\<close>

definition strtoull :: "byte list \<Rightarrow> nat \<Rightarrow> u64 \<times> bool" where
  "strtoull buffer base =
     (let v = digits_value base buffer
      in if 2 ^ 64 \<le> v then (0xFFFFFFFFFFFFFFFF, True) else (word_of_nat v, False))"

fun bit_count :: "nat \<Rightarrow> nat" where
  "bit_count n = (if n = 0 then 0 else Suc (bit_count (n div 2)))"

declare bit_count.simps [simp del]

text \<open>\<open>num / den >= 2 ^ k\<close>, and the quotient of \<open>num / den\<close> by \<open>2 ^ k\<close> rounded half to even.\<close>

definition at_least_pow2 :: "nat \<Rightarrow> nat \<Rightarrow> int \<Rightarrow> bool" where
  "at_least_pow2 num den k =
     (if 0 \<le> k then den * 2 ^ nat k \<le> num else den \<le> num * 2 ^ nat (- k))"

definition round_half_even :: "nat \<Rightarrow> nat \<Rightarrow> nat" where
  "round_half_even a b =
     (let q = a div b; r = a mod b
      in if 2 * r < b \<or> (2 * r = b \<and> even q) then q else q + 1)"

definition quotient_pow2 :: "nat \<Rightarrow> nat \<Rightarrow> int \<Rightarrow> nat" where
  "quotient_pow2 num den k =
     (if 0 \<le> k then round_half_even num (den * 2 ^ nat k)
      else round_half_even (num * 2 ^ nat (- k)) den)"

text \<open>The bits of the double nearest to \<open>num / den\<close>; a mantissa that rounds up carries over.\<close>

definition nearest_double :: "nat \<Rightarrow> nat \<Rightarrow> LhatReal" where
  "nearest_double num den =
     (if num = 0 then 0 else
      let k = int (bit_count num) - int (bit_count den);
          e = (if at_least_pow2 num den k then k else k - 1);
          q = max (e - 52) (- 1074)
      in word_of_nat (min (nat (q + 1074) * 2 ^ 52 + quotient_pow2 num den q) (0x7FF * 2 ^ 52)))"

definition strtod :: "byte list \<Rightarrow> LhatReal" where
  "strtod buffer =
     (let whole = takeWhile is_decimal_digit buffer;
          r = dropWhile is_decimal_digit buffer;
          frac = (if r \<noteq> [] \<and> hd r = c_dot then takeWhile is_decimal_digit (tl r) else []);
          r' = (if r \<noteq> [] \<and> hd r = c_dot then dropWhile is_decimal_digit (tl r) else r);
          ex = (if r' \<noteq> [] \<and> (hd r' = c_e \<or> hd r' = c_E) then tl r' else []);
          minus = (ex \<noteq> [] \<and> hd ex = c_minus);
          ex' = (if ex \<noteq> [] \<and> (hd ex = c_minus \<or> hd ex = c_plus) then tl ex else ex);
          m = digits_value 10 (whole @ frac);
          x = digits_value 10 ex'
      in if minus then nearest_double m (10 ^ (length frac + x))
         else nearest_double (m * 10 ^ x) (10 ^ length frac))"

subsection \<open>The literal\<close>

text \<open>From the test of \<open>digits == 0\<close> on: the checks and the conversion of \<open>txt[0..at)\<close>.\<close>

definition number_value :: "byte list \<Rightarrow> nat \<Rightarrow> bool \<Rightarrow> nat \<Rightarrow> nat \<Rightarrow> bool \<Rightarrow> LhatNumberLiteral" where
  "number_value txt base is_float at digits bad =
     (let malformed = (bad \<or> digits = 0);
          kind = (if is_float then LHAT_NUMBER_REAL else LHAT_NUMBER_INTEGER);
          out = \<lparr>num_kind = kind, num_status = LHAT_NUMBER_OK, num_length = at, num_integer = 0,
                 num_base = base, num_real = 0\<rparr>
      in if malformed then out\<lparr>num_status := LHAT_NUMBER_MALFORMED\<rparr>
         else if LHAT_NUMBER_BUFFER \<le> at then out\<lparr>num_status := LHAT_NUMBER_TOO_LONG\<rparr>
         else
           let from = (if base \<noteq> 10 then 2 else 0);
               buffer = filter (\<lambda>c. c \<noteq> c_underscore) (drop from (take at txt))
           in if is_float then out\<lparr>num_real := strtod buffer\<rparr>
              else (case strtoull buffer base of (value, erange) \<Rightarrow>
                if erange then out\<lparr>num_status := LHAT_NUMBER_OVERFLOW\<rparr>
                else out\<lparr>num_integer := value\<rparr>))"

definition number_marker :: "byte list \<Rightarrow> nat" where
  "number_marker txt =
     (if reader_byte txt 0 = c_0 then
        let marker = reader_byte txt 1 in
        if marker = c_x \<or> marker = c_X then 16
        else if marker = c_b \<or> marker = c_B then 2
        else if marker = c_o \<or> marker = c_O then 8
        else 10
      else 10)"

text \<open>The fraction, taken only when a digit follows the point: position, \<open>is_float\<close>, \<open>bad\<close>.\<close>

definition number_fraction :: "byte list \<Rightarrow> nat \<Rightarrow> bool \<Rightarrow> nat \<times> bool \<times> bool" where
  "number_fraction txt at bad =
     (if reader_byte txt at = c_dot \<and> is_decimal_digit (reader_byte txt (at + 1)) then
        (case scan_digit_run txt 10 (at + 1) of (at', fraction_digits, bad') \<Rightarrow>
          (at', True, bad \<or> bad'))
      else (at, False, bad))"

definition lhat_number_literal :: "byte list \<Rightarrow> bool \<Rightarrow> LhatNumberLiteral" where
  "lhat_number_literal txt after_dot =
     (if after_dot then
        (case scan_digit_run txt 10 0 of (at, digits, bad) \<Rightarrow>
          number_value txt 10 False at digits bad)
      else
        let base = number_marker txt in
        case scan_digit_run txt base (if base \<noteq> 10 then 2 else 0) of (at1, digits, bad1) \<Rightarrow>
          if base \<noteq> 10 then number_value txt base False at1 digits bad1
          else
            case number_fraction txt at1 bad1 of (at2, is_float, bad2) \<Rightarrow>
              let exponent = reader_byte txt at2 in
              if exponent = c_e \<or> exponent = c_E then
                let sign = (if reader_byte txt (at2 + 1) = c_plus \<or>
                               reader_byte txt (at2 + 1) = c_minus then 1 else 0)
                in if \<not> is_decimal_digit (reader_byte txt (at2 + 1 + sign)) then
                     \<lparr>num_kind = LHAT_NUMBER_INTEGER, num_status = LHAT_NUMBER_BAD_EXPONENT,
                      num_length = at2 + 1, num_integer = 0, num_base = 10, num_real = 0\<rparr>
                   else
                     (case scan_digit_run txt 10 (at2 + 1 + sign) of (at3, exponent_digits, bad3) \<Rightarrow>
                       number_value txt 10 True at3 digits (bad2 \<or> bad3))
              else number_value txt 10 is_float at2 digits bad2)"

subsection \<open>A whole text as one number\<close>

datatype LhatNumberRead = NUMBER_WHOLE LhatInteger | NUMBER_REAL LhatReal

definition is_ascii_space :: "byte \<Rightarrow> bool" where
  "is_ascii_space c \<longleftrightarrow>
     c = c_space \<or> c = c_tab \<or> c = c_newline \<or> c = c_return \<or> c = c_vtab \<or> c = c_formfeed"

definition real_negate :: "LhatReal \<Rightarrow> LhatReal" where
  "real_negate r = r XOR 0x8000000000000000"

definition lhat_number_read :: "byte list \<Rightarrow> LhatNumberRead option" where
  "lhat_number_read txt =
     (let t = dropWhile is_ascii_space txt;
          t' = rev (dropWhile is_ascii_space (rev t));
          signed = (t' \<noteq> [] \<and> (hd t' = c_minus \<or> hd t' = c_plus));
          negative = (signed \<and> hd t' = c_minus);
          body = (if signed then tl t' else t')
      in if body = [] then None
         else
           let read = lhat_number_literal body False in
           if num_status read \<noteq> LHAT_NUMBER_OK \<or> num_length read \<noteq> length body then None
           else if num_kind read = LHAT_NUMBER_REAL then
             Some (NUMBER_REAL (if negative then real_negate (num_real read) else num_real read))
           else
             let limit = (if negative then 0x7FFFFFFFFFFFFFFF + 1 else 0x7FFFFFFFFFFFFFFF :: u64)
             in if num_integer read > limit then None
                else if \<not> negative then Some (NUMBER_WHOLE (num_integer read))
                else if num_integer read = 0x7FFFFFFFFFFFFFFF + 1 then
                  Some (NUMBER_WHOLE 0x8000000000000000)
                else Some (NUMBER_WHOLE (- num_integer read)))"

subsection \<open>A run of digits\<close>


lemma reader_byte_append:
  "reader_byte (xs @ ys) (length xs) = reader_byte ys 0"
  "reader_byte (xs @ ys) (Suc (length xs)) = reader_byte ys 1"
  by (auto simp: reader_byte_def nth_append)

lemma reader_byte_Cons [simp]:
  "reader_byte (c # cs) 0 = c" "reader_byte (c # cs) (Suc i) = reader_byte cs i" "reader_byte [] i = c_nul"
  by (auto simp: reader_byte_def)

subsection \<open>Which texts are integer literals, and what they say\<close>

text \<open>
  A run of digits with \<open>_\<close> only between two digits: \<open>separated base False ds\<close>.
\<close>

fun separated :: "nat \<Rightarrow> bool \<Rightarrow> byte list \<Rightarrow> bool" where
  "separated base prev [] = True"
| "separated base prev (c # cs) =
     (if c = c_underscore then
        prev \<and> is_digit_of_base (reader_byte cs 0) base \<and> separated base False cs
      else is_digit_of_base c base \<and> separated base True cs)"

definition run_stops :: "nat \<Rightarrow> byte list \<Rightarrow> bool" where
  "run_stops base rest \<longleftrightarrow>
     \<not> is_digit_of_base (reader_byte rest 0) base \<and> reader_byte rest 0 \<noteq> c_underscore"

definition unseparated :: "byte list \<Rightarrow> byte list" where
  "unseparated ds = filter (\<lambda>c. c \<noteq> c_underscore) ds"

lemma not_digit_nul [simp]: "\<not> is_digit_of_base c_nul base" "\<not> is_digit_of_base c_underscore base"
  by (auto simp: is_digit_of_base_def)

lemma scan_digits_run:
  assumes "separated base prev ds" "run_stops base rest"
  shows "scan_digits (pre @ ds @ rest) base (length pre) prev d bad =
     (length pre + length ds, d + length (unseparated ds), bad)"
  using assms(1)
proof (induction ds arbitrary: pre prev d)
  case Nil
  then show ?case using assms(2)
    by (subst scan_digits.simps) (simp add: reader_byte_append run_stops_def unseparated_def)
next
  case (Cons c cs)
  have step: "scan_digits ((pre @ [c]) @ cs @ rest) base (length (pre @ [c])) prev' d' bad =
     (length (pre @ [c]) + length cs, d' + length (unseparated cs), bad)"
    if "separated base prev' cs" for prev' d'
    using Cons.IH [of prev' "pre @ [c]" d'] that by simp
  have nxt: "is_digit_of_base (reader_byte cs 0) base \<Longrightarrow> reader_byte (cs @ rest) 0 = reader_byte cs 0"
    by (cases cs) auto
  show ?case
  proof (cases "c = c_underscore")
    case True
    then show ?thesis using Cons.prems step [of False d]
      by (subst scan_digits.simps) (simp add: reader_byte_append nxt unseparated_def)
  next
    case False
    then show ?thesis using Cons.prems step [of True "Suc d"]
      by (subst scan_digits.simps) (simp add: reader_byte_append unseparated_def)
  qed
qed

lemma scan_digit_run_eq:
  "separated base False ds \<Longrightarrow> run_stops base rest \<Longrightarrow>
   scan_digit_run (pre @ ds @ rest) base (length pre) =
     (length pre + length ds, length (unseparated ds), False)"
  by (simp add: scan_digit_run_def scan_digits_run)

lemma separated_first: "separated base False ds \<Longrightarrow> ds \<noteq> [] \<Longrightarrow> is_digit_of_base (reader_byte ds 0) base"
  by (cases ds) (auto split: if_splits)

lemma unseparated_nonempty: "separated base False ds \<Longrightarrow> ds \<noteq> [] \<Longrightarrow> unseparated ds \<noteq> []"
  by (cases ds) (auto simp: unseparated_def)

definition literal_prefix :: "nat \<Rightarrow> byte list" where
  "literal_prefix base =
     (if base = 16 then [c_0, c_x] else if base = 2 then [c_0, c_b]
      else if base = 8 then [c_0, c_o] else [])"

definition integer_literal :: "nat \<Rightarrow> byte list \<Rightarrow> LhatNumberLiteral" where
  "integer_literal base ds =
     (let v = digits_value base (unseparated ds)
      in \<lparr>num_kind = LHAT_NUMBER_INTEGER,
          num_status = (if v < 2 ^ 64 then LHAT_NUMBER_OK else LHAT_NUMBER_OVERFLOW),
          num_length = length (literal_prefix base @ ds),
          num_integer = (if v < 2 ^ 64 then word_of_nat v else 0),
          num_base = base, num_real = 0\<rparr>)"

text \<open>What may stand after an integer literal for it to stop there.\<close>

definition integer_stops :: "nat \<Rightarrow> byte list \<Rightarrow> byte list \<Rightarrow> bool" where
  "integer_stops base ds rest \<longleftrightarrow> run_stops base rest \<and>
     (base = 10 \<longrightarrow>
       \<not> (reader_byte rest 0 = c_dot \<and> is_decimal_digit (reader_byte rest 1)) \<and>
       reader_byte rest 0 \<notin> {c_e, c_E} \<and>
       (ds = [c_0] \<longrightarrow> reader_byte rest 0 \<notin> {c_x, c_X, c_b, c_B, c_o, c_O}))"

lemma number_value_integer:
  assumes "ds \<noteq> []" "separated base False ds" "length (literal_prefix base @ ds) < LHAT_NUMBER_BUFFER"
    "base \<in> {2, 8, 10, 16}"
  shows "number_value (literal_prefix base @ ds @ rest) base False
      (length (literal_prefix base @ ds)) (length (unseparated ds)) False = integer_literal base ds"
proof -
  have from_eq: "(if base \<noteq> 10 then 2 else 0) = length (literal_prefix base)"
    using assms(4) by (auto simp: literal_prefix_def)
  have buffer: "filter (\<lambda>c. c \<noteq> c_underscore) (drop (length (literal_prefix base))
      (take (length (literal_prefix base @ ds)) (literal_prefix base @ ds @ rest))) = unseparated ds"
    by (simp add: unseparated_def)
  have "\<not> (length (unseparated ds) = 0)" "\<not> LHAT_NUMBER_BUFFER \<le> length (literal_prefix base @ ds)"
    using unseparated_nonempty [OF assms(2,1)] assms(3) by simp_all
  then show ?thesis
    unfolding number_value_def from_eq Let_def buffer integer_literal_def strtoull_def linorder_not_less [symmetric]
    by (cases "digits_value base (unseparated ds) < 2 ^ 64") (simp_all only: simp_thms if_True if_False split LhatNumberLiteral.simps)
qed

lemma decimal_marker:
  assumes "ds \<noteq> []" "separated 10 False ds" "integer_stops 10 ds rest"
  shows "number_marker (ds @ rest) = 10"
proof -
  obtain c cs where ds: "ds = c # cs" using assms(1) by (cases ds) auto
  show ?thesis
  proof (cases cs)
    case Nil
    then show ?thesis using assms by (auto simp: ds number_marker_def integer_stops_def Let_def)
  next
    case (Cons d es)
    then have "is_digit_of_base d 10 \<or> d = c_underscore" using assms(2) by (auto simp: ds split: if_splits)
    then show ?thesis by (auto simp: ds Cons number_marker_def Let_def is_digit_of_base_def)
  qed
qed

lemma literal_integer:
  assumes "base \<in> {2, 8, 10, 16}" "ds \<noteq> []" "separated base False ds" "integer_stops base ds rest"
    "length (literal_prefix base @ ds) < LHAT_NUMBER_BUFFER"
  shows "lhat_number_literal (literal_prefix base @ ds @ rest) False = integer_literal base ds"
proof (cases "base = 10")
  case True
  have "run_stops 10 rest" using assms(4) True by (simp add: integer_stops_def)
  with assms True scan_digit_run_eq [of 10 ds rest "[]"] decimal_marker [of ds rest]
     number_value_integer [of ds 10 rest] show ?thesis
    by (auto simp add: lhat_number_literal_def literal_prefix_def number_fraction_def reader_byte_append integer_stops_def Let_def)
next
  case False
  have m: "number_marker (literal_prefix base @ ds @ rest) = base" "length (literal_prefix base) = 2"
    using assms(1) False by (auto simp: number_marker_def literal_prefix_def)
  have "run_stops base rest" using assms(4) by (simp add: integer_stops_def)
  with assms m False scan_digit_run_eq [of base ds rest "literal_prefix base"]
     number_value_integer [of ds base rest] show ?thesis
    by (simp add: lhat_number_literal_def Let_def)
qed

subsection \<open>Writing an integer and reading it back\<close>

fun decimal_digits :: "nat \<Rightarrow> byte list" where
  "decimal_digits n =
     (if n < 10 then [word_of_nat (0x30 + n)]
      else decimal_digits (n div 10) @ [word_of_nat (0x30 + n mod 10)])"

declare decimal_digits.simps [simp del]

definition decimal_integer :: "int \<Rightarrow> byte list" where
  "decimal_integer i = (if i < 0 then c_minus # decimal_digits (nat (- i)) else decimal_digits (nat i))"

lemma digit_byte:
  assumes "d < 10"
  shows "is_digit_of_base (word_of_nat (0x30 + d)) 10" "digit_value (word_of_nat (0x30 + d)) = d"
    "word_of_nat (0x30 + d) \<noteq> c_underscore" "\<not> is_ascii_space (word_of_nat (0x30 + d))"
    "word_of_nat (0x30 + d) \<noteq> c_minus" "word_of_nat (0x30 + d) \<noteq> c_plus"
proof -
  have "d = 0 \<or> d = 1 \<or> d = 2 \<or> d = 3 \<or> d = 4 \<or> d = 5 \<or> d = 6 \<or> d = 7 \<or> d = 8 \<or> d = 9"
    using assms by auto
  then show "is_digit_of_base (word_of_nat (0x30 + d)) 10" "digit_value (word_of_nat (0x30 + d)) = d"
    "word_of_nat (0x30 + d) \<noteq> c_underscore" "\<not> is_ascii_space (word_of_nat (0x30 + d))"
    "word_of_nat (0x30 + d) \<noteq> c_minus" "word_of_nat (0x30 + d) \<noteq> c_plus"
    by (auto simp: is_digit_of_base_def digit_value_def is_ascii_space_def)
qed

lemma decimal_digits_props:
  "decimal_digits n \<noteq> [] \<and> digits_value 10 (decimal_digits n) = n \<and>
   (\<forall>c \<in> set (decimal_digits n). is_digit_of_base c 10 \<and> c \<noteq> c_underscore \<and> \<not> is_ascii_space c \<and>
      c \<noteq> c_minus \<and> c \<noteq> c_plus)"
proof (induction n rule: decimal_digits.induct)
  case (1 n)
  show ?case
  proof (cases "n < 10")
    case True
    then show ?thesis using digit_byte [of n]
      by (simp add: decimal_digits.simps [of n] digits_value_def)
  next
    case False
    then show ?thesis using 1 digit_byte [of "n mod 10"]
      by (auto simp: decimal_digits.simps [of n] digits_value_def)
  qed
qed

lemma separated_digits:
  "\<forall>c \<in> set ds. is_digit_of_base c base \<and> c \<noteq> c_underscore \<Longrightarrow> separated base prev ds \<and> unseparated ds = ds"
  by (induction ds arbitrary: prev) (auto simp: unseparated_def)

lemma decimal_digits_length: "n < 10 ^ k \<Longrightarrow> 0 < k \<Longrightarrow> length (decimal_digits n) \<le> k"
proof (induction n arbitrary: k rule: decimal_digits.induct)
  case (1 n)
  show ?case
  proof (cases "n < 10")
    case True
    then show ?thesis using "1.prems" by (simp add: decimal_digits.simps [of n])
  next
    case False
    then obtain k' where k: "k = Suc k'" "0 < k'" using "1.prems"
      by (cases k; cases "k - 1") auto
    then have "n div 10 < 10 ^ k'" using "1.prems" by auto
    with "1.IH" [of k'] False k show ?thesis by (simp add: decimal_digits.simps [of n])
  qed
qed

lemma literal_decimal:
  assumes "n < 2 ^ 64"
  shows "lhat_number_literal (decimal_digits n) False =
    \<lparr>num_kind = LHAT_NUMBER_INTEGER, num_status = LHAT_NUMBER_OK, num_length = length (decimal_digits n),
     num_integer = word_of_nat n, num_base = 10, num_real = 0\<rparr>"
proof -
  have "length (decimal_digits n) \<le> 20" by (rule decimal_digits_length) (use assms in auto)
  then show ?thesis
  using literal_integer [of 10 "decimal_digits n" "[]"] decimal_digits_props [of n]
    separated_digits [of "decimal_digits n" 10 False] assms
  by (simp add: integer_stops_def run_stops_def integer_literal_def literal_prefix_def LHAT_NUMBER_BUFFER_def)
qed

lemma dropWhile_no_space: "\<forall>c \<in> set xs. \<not> P c \<Longrightarrow> dropWhile P xs = xs"
  by (cases xs) auto

lemma decimal_integer_trim:
  "\<forall>c \<in> set (decimal_integer i). \<not> is_ascii_space c"
  using decimal_digits_props [of "nat i"] decimal_digits_props [of "nat (- i)"]
  by (simp add: decimal_integer_def is_ascii_space_def [of c_minus])

lemma read_signed:
  assumes "\<forall>c \<in> set (sg @ ds). \<not> is_ascii_space c" "sg = [] \<or> sg = [c_minus]" "ds \<noteq> []"
    "hd ds \<noteq> c_minus" "hd ds \<noteq> c_plus"
    "lhat_number_literal ds False = \<lparr>num_kind = LHAT_NUMBER_INTEGER, num_status = LHAT_NUMBER_OK, num_length = length ds,
     num_integer = w, num_base = 10, num_real = 0\<rparr>"
  shows "lhat_number_read (sg @ ds) =
     (if sg = [] then (if w > 0x7FFFFFFFFFFFFFFF then None else Some (NUMBER_WHOLE w))
      else if w > 0x8000000000000000 then None
      else if w = 0x8000000000000000 then Some (NUMBER_WHOLE 0x8000000000000000)
      else Some (NUMBER_WHOLE (- w)))"
proof -
  have a: "dropWhile is_ascii_space (sg @ ds) = sg @ ds"
    by (rule dropWhile_no_space [OF assms(1)])
  have b: "dropWhile is_ascii_space (rev (sg @ ds)) = rev (sg @ ds)"
    by (rule dropWhile_no_space) (use assms(1) in auto)
  show ?thesis
    using assms(2)
  proof
    assume "sg = []"
    with assms(3-6) show ?thesis
      unfolding lhat_number_read_def Let_def a b rev_rev_ident by (cases "0x7FFFFFFFFFFFFFFF < w") simp_all
  next
    assume "sg = [c_minus]"
    with assms(3-6) show ?thesis
      unfolding lhat_number_read_def Let_def a b rev_rev_ident by (cases "0x8000000000000000 < w"; cases "w = 0x8000000000000000") simp_all
  qed
qed
lemma read_decimal_integer:
  assumes "- (2 ^ 63) \<le> i" "i < 2 ^ 63"
  shows "lhat_number_read (decimal_integer i) = Some (NUMBER_WHOLE (word_of_int i))"
proof -
  let ?n = "nat \<bar>i\<bar>"
  let ?sg = "if i < 0 then [c_minus] else []"
  have n: "?n < 2 ^ 64" "?n \<le> 2 ^ 63" "0 \<le> i \<Longrightarrow> ?n < 2 ^ 63" using assms by auto
  have u: "unat (word_of_nat ?n :: u64) = ?n"
    by (rule of_nat_inverse [OF refl]) (use n(1) in simp)
  have w: "(word_of_nat ?n :: u64) = (if i < 0 then - word_of_int i else word_of_int i)"
    by (metis abs_of_neg abs_of_nonneg linorder_not_less nat_0_le of_int_minus of_int_of_nat_eq abs_ge_zero)
  have d: "decimal_integer i = ?sg @ decimal_digits ?n"
    by (simp add: decimal_integer_def)
  have "hd (decimal_digits ?n) \<in> set (decimal_digits ?n)" using decimal_digits_props [of ?n] by simp
  then have h: "hd (decimal_digits ?n) \<noteq> c_minus" "hd (decimal_digits ?n) \<noteq> c_plus"
    using decimal_digits_props [of ?n] by blast+
  have big: "\<not> (word_of_nat ?n :: u64) > 0x8000000000000000"
    "0 \<le> i \<Longrightarrow> \<not> (word_of_nat ?n :: u64) > 0x7FFFFFFFFFFFFFFF"
    using n unfolding word_less_nat_alt u by auto
  have m: "(v :: u64) = 0x8000000000000000" if "- v = 0x8000000000000000" for v
    using arg_cong [OF that, of uminus] by simp
  then show ?thesis
    unfolding d using decimal_digits_props [of ?n] decimal_integer_trim [of i, unfolded d]
    by (subst read_signed [OF _ _ _ h literal_decimal [OF n(1)]])
       (use big w m in \<open>auto split: if_splits\<close>)
qed

end
