(* ===== verification/Lhat_Token.thy ===== *)
theory Lhat_Token
  imports Lhat_Number
begin

text \<open>
  Tokens (\<open>include/lhat/token.h\<close>), the diagnostics of the lexer
  (\<open>include/lhat/lexer.h\<close>) and the name tables (\<open>src/token.c\<close>).

  The union \<open>v\<close> of a token is a datatype with a constructor per member; \<open>V_NONE\<close> is the zeroed
  union of a token that carries nothing.
\<close>

datatype LhatTokenKind =
    LHAT_TOKEN_EOF | LHAT_TOKEN_IDENT | LHAT_TOKEN_HAT_IDENT | LHAT_TOKEN_ANNOTATION
  | LHAT_TOKEN_INT | LHAT_TOKEN_FLOAT | LHAT_TOKEN_STRING | LHAT_TOKEN_SCOPE | LHAT_TOKEN_OP
  | LHAT_TOKEN_INTERP_BEGIN | LHAT_TOKEN_INTERP_TEXT | LHAT_TOKEN_INTERP_EXPR_BEGIN
  | LHAT_TOKEN_INTERP_FORMAT | LHAT_TOKEN_INTERP_EXPR_END | LHAT_TOKEN_INTERP_END
  | LHAT_TOKEN_ERROR

datatype LhatOpKind =
    LHAT_OP_LPAREN | LHAT_OP_RPAREN | LHAT_OP_LBRACKET | LHAT_OP_RBRACKET | LHAT_OP_LBRACE
  | LHAT_OP_RBRACE | LHAT_OP_COMMA | LHAT_OP_SEMICOLON | LHAT_OP_COLON | LHAT_OP_REASSIGN
  | LHAT_OP_ARROW | LHAT_OP_ADD_ASSIGN | LHAT_OP_SUB_ASSIGN | LHAT_OP_MUL_ASSIGN
  | LHAT_OP_DIV_ASSIGN | LHAT_OP_FLOORDIV_ASSIGN | LHAT_OP_MOD_ASSIGN | LHAT_OP_POW_ASSIGN
  | LHAT_OP_CONCAT_ASSIGN | LHAT_OP_NIL_REASSIGN | LHAT_OP_NIL_ADD_ASSIGN
  | LHAT_OP_NIL_SUB_ASSIGN | LHAT_OP_NIL_MUL_ASSIGN | LHAT_OP_NIL_DIV_ASSIGN
  | LHAT_OP_NIL_FLOORDIV_ASSIGN | LHAT_OP_NIL_MOD_ASSIGN | LHAT_OP_NIL_POW_ASSIGN
  | LHAT_OP_NIL_CONCAT_ASSIGN | LHAT_OP_LSHIFT | LHAT_OP_RSHIFT | LHAT_OP_EQ | LHAT_OP_NE
  | LHAT_OP_LE | LHAT_OP_GE | LHAT_OP_LT | LHAT_OP_GT | LHAT_OP_SPACESHIP | LHAT_OP_ADD
  | LHAT_OP_SUB | LHAT_OP_MUL | LHAT_OP_CROSS | LHAT_OP_DOT_PRODUCT | LHAT_OP_DIV
  | LHAT_OP_FLOORDIV | LHAT_OP_MOD | LHAT_OP_POW | LHAT_OP_NOT | LHAT_OP_AND | LHAT_OP_OR
  | LHAT_OP_IS | LHAT_OP_FITS | LHAT_OP_CATCH | LHAT_OP_BITAND | LHAT_OP_BITOR | LHAT_OP_BITXOR
  | LHAT_OP_BITSHIFT | LHAT_OP_BITNOT | LHAT_OP_UNION | LHAT_OP_INTERSECT | LHAT_OP_DOT
  | LHAT_OP_CONCAT | LHAT_OP_ELLIPSIS | LHAT_OP_NIL_DOT | LHAT_OP_NIL_CALL | LHAT_OP_NIL_INDEX
  | LHAT_OP_NIL_ELSE | LHAT_OP_PRESENT

datatype LhatStringKind = LHAT_STRING_ESCAPED | LHAT_STRING_RAW | LHAT_STRING_LINE

datatype LhatScopeKind = LHAT_SCOPE_FILE | LHAT_SCOPE_RELATIVE

datatype LhatTokenValue =
    V_NONE
  | V_OP LhatOpKind
  | V_HATS u32
  | V_INTEGER u64 nat \<comment> \<open>value, base\<close>
  | V_REAL LhatReal
  | V_STRING LhatStringKind u32 u32 \<comment> \<open>kind, offset and length in the string storage\<close>
  | V_SCOPE LhatScopeKind u32

record LhatToken =
  tok_kind :: LhatTokenKind
  tok_offset :: u32
  tok_length :: u32
  tok_line :: u32
  tok_column :: u32
  tok_may_start_stmt :: bool
  tok_v :: LhatTokenValue

record LhatComment =
  com_offset :: u32
  com_end :: u32
  com_line :: u32
  com_column :: u32
  com_block :: bool

datatype LhatErrorCode =
    LHAT_ERR_NONE | LHAT_ERR_UNEXPECTED_CHARACTER | LHAT_ERR_INVALID_UTF8 | LHAT_ERR_BARE_HAT
  | LHAT_ERR_BARE_AT | LHAT_ERR_IDENT_AFTER_NUMBER | LHAT_ERR_MALFORMED_NUMBER
  | LHAT_ERR_MALFORMED_EXPONENT | LHAT_ERR_INTEGER_OVERFLOW | LHAT_ERR_UNTERMINATED_STRING
  | LHAT_ERR_UNTERMINATED_NAME_LITERAL | LHAT_ERR_EMPTY_NAME_LITERAL | LHAT_ERR_UNKNOWN_ESCAPE
  | LHAT_ERR_MALFORMED_ESCAPE | LHAT_ERR_UNTERMINATED_BLOCK_COMMENT | LHAT_ERR_SCOPE_WITHOUT_NAME
  | LHAT_ERR_INTERPOLATION_NEEDS_QUOTES | LHAT_ERR_INTERPOLATION_TOO_DEEP

record LhatDiagnostic =
  diag_code :: LhatErrorCode
  diag_offset :: u32
  diag_line :: u32
  diag_column :: u32

subsection \<open>Names\<close>

fun lhat_token_kind_name :: "LhatTokenKind \<Rightarrow> string" where
  "lhat_token_kind_name LHAT_TOKEN_EOF = ''eof''"
| "lhat_token_kind_name LHAT_TOKEN_IDENT = ''ident''"
| "lhat_token_kind_name LHAT_TOKEN_HAT_IDENT = ''hat-ident''"
| "lhat_token_kind_name LHAT_TOKEN_ANNOTATION = ''annotation''"
| "lhat_token_kind_name LHAT_TOKEN_INT = ''int''"
| "lhat_token_kind_name LHAT_TOKEN_FLOAT = ''float''"
| "lhat_token_kind_name LHAT_TOKEN_STRING = ''string''"
| "lhat_token_kind_name LHAT_TOKEN_SCOPE = ''scope''"
| "lhat_token_kind_name LHAT_TOKEN_OP = ''op''"
| "lhat_token_kind_name LHAT_TOKEN_INTERP_BEGIN = ''interp-begin''"
| "lhat_token_kind_name LHAT_TOKEN_INTERP_TEXT = ''interp-text''"
| "lhat_token_kind_name LHAT_TOKEN_INTERP_EXPR_BEGIN = ''interp-expr-begin''"
| "lhat_token_kind_name LHAT_TOKEN_INTERP_FORMAT = ''interp-format''"
| "lhat_token_kind_name LHAT_TOKEN_INTERP_EXPR_END = ''interp-expr-end''"
| "lhat_token_kind_name LHAT_TOKEN_INTERP_END = ''interp-end''"
| "lhat_token_kind_name LHAT_TOKEN_ERROR = ''error''"

fun lhat_op_name :: "LhatOpKind \<Rightarrow> string" where
  "lhat_op_name LHAT_OP_LPAREN = ''(''"
| "lhat_op_name LHAT_OP_RPAREN = '')''"
| "lhat_op_name LHAT_OP_LBRACKET = ''[''"
| "lhat_op_name LHAT_OP_RBRACKET = '']''"
| "lhat_op_name LHAT_OP_LBRACE = ''{''"
| "lhat_op_name LHAT_OP_RBRACE = ''}''"
| "lhat_op_name LHAT_OP_COMMA = '',''"
| "lhat_op_name LHAT_OP_SEMICOLON = '';''"
| "lhat_op_name LHAT_OP_COLON = '':''"
| "lhat_op_name LHAT_OP_REASSIGN = '':=''"
| "lhat_op_name LHAT_OP_LSHIFT = ''<<''"
| "lhat_op_name LHAT_OP_RSHIFT = ''>>''"
| "lhat_op_name LHAT_OP_ARROW = ''->''"
| "lhat_op_name LHAT_OP_ADD_ASSIGN = ''+=''"
| "lhat_op_name LHAT_OP_SUB_ASSIGN = ''-=''"
| "lhat_op_name LHAT_OP_MUL_ASSIGN = ''*=''"
| "lhat_op_name LHAT_OP_DIV_ASSIGN = ''/=''"
| "lhat_op_name LHAT_OP_FLOORDIV_ASSIGN = ''//=''"
| "lhat_op_name LHAT_OP_MOD_ASSIGN = ''%=''"
| "lhat_op_name LHAT_OP_POW_ASSIGN = ''**=''"
| "lhat_op_name LHAT_OP_CONCAT_ASSIGN = ''..=''"
| "lhat_op_name LHAT_OP_NIL_REASSIGN = ''?:=''"
| "lhat_op_name LHAT_OP_NIL_ADD_ASSIGN = ''?+=''"
| "lhat_op_name LHAT_OP_NIL_SUB_ASSIGN = ''?-=''"
| "lhat_op_name LHAT_OP_NIL_MUL_ASSIGN = ''?*=''"
| "lhat_op_name LHAT_OP_NIL_DIV_ASSIGN = ''?/=''"
| "lhat_op_name LHAT_OP_NIL_FLOORDIV_ASSIGN = ''?//=''"
| "lhat_op_name LHAT_OP_NIL_MOD_ASSIGN = ''?%=''"
| "lhat_op_name LHAT_OP_NIL_POW_ASSIGN = ''?**=''"
| "lhat_op_name LHAT_OP_NIL_CONCAT_ASSIGN = ''?..=''"
| "lhat_op_name LHAT_OP_EQ = ''=''"
| "lhat_op_name LHAT_OP_NE = ''!=''"
| "lhat_op_name LHAT_OP_LE = ''<=''"
| "lhat_op_name LHAT_OP_GE = ''>=''"
| "lhat_op_name LHAT_OP_SPACESHIP = ''<=>''"
| "lhat_op_name LHAT_OP_LT = ''<''"
| "lhat_op_name LHAT_OP_GT = ''>''"
| "lhat_op_name LHAT_OP_ADD = ''+''"
| "lhat_op_name LHAT_OP_SUB = ''-''"
| "lhat_op_name LHAT_OP_MUL = ''*''"
| "lhat_op_name LHAT_OP_CROSS = ''cross^''"
| "lhat_op_name LHAT_OP_DOT_PRODUCT = ''dot^''"
| "lhat_op_name LHAT_OP_DIV = ''/''"
| "lhat_op_name LHAT_OP_FLOORDIV = ''//''"
| "lhat_op_name LHAT_OP_MOD = ''%''"
| "lhat_op_name LHAT_OP_POW = ''**''"
| "lhat_op_name LHAT_OP_NOT = ''!''"
| "lhat_op_name LHAT_OP_AND = ''and^''"
| "lhat_op_name LHAT_OP_OR = ''or^''"
| "lhat_op_name LHAT_OP_IS = ''is^''"
| "lhat_op_name LHAT_OP_FITS = ''fits^''"
| "lhat_op_name LHAT_OP_CATCH = ''catch^''"
| "lhat_op_name LHAT_OP_BITAND = ''bitand^''"
| "lhat_op_name LHAT_OP_BITOR = ''bitor^''"
| "lhat_op_name LHAT_OP_BITXOR = ''bitxor^''"
| "lhat_op_name LHAT_OP_BITSHIFT = ''bitshift^''"
| "lhat_op_name LHAT_OP_BITNOT = ''bitnot^''"
| "lhat_op_name LHAT_OP_UNION = ''|''"
| "lhat_op_name LHAT_OP_INTERSECT = ''&''"
| "lhat_op_name LHAT_OP_DOT = ''.''"
| "lhat_op_name LHAT_OP_CONCAT = ''..''"
| "lhat_op_name LHAT_OP_ELLIPSIS = ''...''"
| "lhat_op_name LHAT_OP_NIL_DOT = ''?.''"
| "lhat_op_name LHAT_OP_NIL_CALL = ''?(''"
| "lhat_op_name LHAT_OP_NIL_INDEX = ''?[''"
| "lhat_op_name LHAT_OP_PRESENT = ''?''"
| "lhat_op_name LHAT_OP_NIL_ELSE = ''??''"

fun lhat_string_kind_name :: "LhatStringKind \<Rightarrow> string" where
  "lhat_string_kind_name LHAT_STRING_ESCAPED = ''escaped''"
| "lhat_string_kind_name LHAT_STRING_RAW = ''raw''"
| "lhat_string_kind_name LHAT_STRING_LINE = ''line''"

fun lhat_scope_kind_name :: "LhatScopeKind \<Rightarrow> string" where
  "lhat_scope_kind_name LHAT_SCOPE_FILE = ''file''"
| "lhat_scope_kind_name LHAT_SCOPE_RELATIVE = ''relative''"

end
