(* ===== verification/Lhat_Lexer.thy ===== *)
theory Lhat_Lexer
  imports Lhat_Utf8 Lhat_Token
begin

text \<open>
  The lexical analyser (\<open>src/lexer.c\<close>), function by function.

  The state is the struct \<open>LhatLexer\<close>: the text of the source, the cursor, the two flags, the
  stack of interpolation frames, and the three stores that only grow.  The stack
  \<open>interp[0..interp_depth)\<close> is a list with the innermost frame first, so \<open>interp_depth\<close> is its
  length.  A function that scans a token answers the token and the state after it.  Growing a
  store is taken to succeed.
\<close>

record InterpFrame =
  in_hole :: bool
  brace_depth :: u32

record LhatLexer =
  lx_source :: "byte list"
  lx_pos :: nat
  lx_line :: u32
  lx_column :: u32
  lx_pending_stmt_start :: bool
  lx_after_dot :: bool
  lx_interp :: "InterpFrame list"
  lx_strings :: "byte list"
  lx_diagnostics :: "LhatDiagnostic list"
  lx_comments :: "LhatComment list"

definition LHAT_INTERP_MAX_DEPTH :: nat where
  "LHAT_INTERP_MAX_DEPTH = 32"

subsection \<open>Cursor\<close>

definition at_end :: "LhatLexer \<Rightarrow> bool" where
  "at_end lx \<longleftrightarrow> length (lx_source lx) \<le> lx_pos lx"

definition current_byte :: "LhatLexer \<Rightarrow> byte" where
  "current_byte lx = (if at_end lx then c_nul else lx_source lx ! lx_pos lx)"

definition byte_at :: "LhatLexer \<Rightarrow> nat \<Rightarrow> byte" where
  "byte_at lx ahead =
     (let index = lx_pos lx + ahead
      in if length (lx_source lx) \<le> index then c_nul else lx_source lx ! index)"

definition current_cp :: "LhatLexer \<Rightarrow> u32 \<times> nat" where
  "current_cp lx = (if at_end lx then (0, 0) else decode_utf8 (drop (lx_pos lx) (lx_source lx)))"

definition advance :: "LhatLexer \<Rightarrow> LhatLexer" where
  "advance lx =
     (if at_end lx then lx
      else
        let c = lx_source lx ! lx_pos lx;
            lx1 = lx\<lparr>lx_pos := lx_pos lx + 1\<rparr>
        in if c = c_newline then lx1\<lparr>lx_line := lx_line lx + 1, lx_column := 1\<rparr>
           else if c AND 0xC0 \<noteq> 0x80 then lx1\<lparr>lx_column := lx_column lx + 1\<rparr>
           else lx1)"

fun advance_n :: "LhatLexer \<Rightarrow> nat \<Rightarrow> LhatLexer" where
  "advance_n lx 0 = lx"
| "advance_n lx (Suc n) = advance_n (advance lx) n"

subsection \<open>Diagnostics and string storage\<close>

definition report_at :: "LhatLexer \<Rightarrow> LhatErrorCode \<Rightarrow> u32 \<Rightarrow> u32 \<Rightarrow> u32 \<Rightarrow> LhatLexer" where
  "report_at lx code offset line column =
     lx\<lparr>lx_diagnostics := lx_diagnostics lx @
          [\<lparr>diag_code = code, diag_offset = offset, diag_line = line, diag_column = column\<rparr>]\<rparr>"

definition report :: "LhatLexer \<Rightarrow> LhatErrorCode \<Rightarrow> LhatLexer" where
  "report lx code = report_at lx code (word_of_nat (lx_pos lx)) (lx_line lx) (lx_column lx)"

definition string_push :: "LhatLexer \<Rightarrow> byte list \<Rightarrow> LhatLexer" where
  "string_push lx bytes = lx\<lparr>lx_strings := lx_strings lx @ bytes\<rparr>"

definition string_push_byte :: "LhatLexer \<Rightarrow> byte \<Rightarrow> LhatLexer" where
  "string_push_byte lx b = string_push lx [b]"

subsection \<open>How far an operation moves the cursor\<close>

lemma at_end_frame [simp]:
  "at_end (lx\<lparr>lx_pending_stmt_start := b\<rparr>) = at_end lx"
  "at_end (report_at lx code off line col) = at_end lx"
  "at_end (report lx code) = at_end lx"
  "at_end (string_push lx bs) = at_end lx"
  "at_end (string_push_byte lx c) = at_end lx"
  by (simp_all add: at_end_def report_def report_at_def string_push_byte_def string_push_def)

lemma advance_source [simp]: "lx_source (advance lx) = lx_source lx"
  by (simp add: advance_def Let_def)

lemma advance_pos: "lx_pos (advance lx) = (if at_end lx then lx_pos lx else lx_pos lx + 1)"
  by (simp add: advance_def Let_def)

lemma advance_n_source [simp]: "lx_source (advance_n lx n) = lx_source lx"
  by (induction lx n rule: advance_n.induct) auto

lemma advance_n_pos:
  "lx_pos (advance_n lx n) = max (lx_pos lx) (min (length (lx_source lx)) (lx_pos lx + n))"
  by (induction lx n rule: advance_n.induct) (auto simp: advance_pos at_end_def)

lemma store_pos [simp]:
  "lx_pos (report_at lx code off line col) = lx_pos lx"
  "lx_pos (report lx code) = lx_pos lx"
  "lx_pos (string_push lx bs) = lx_pos lx"
  "lx_pos (string_push_byte lx c) = lx_pos lx"
  "lx_source (report_at lx code off line col) = lx_source lx"
  "lx_source (report lx code) = lx_source lx"
  "lx_source (string_push lx bs) = lx_source lx"
  "lx_source (string_push_byte lx c) = lx_source lx"
  by (simp_all add: report_def report_at_def string_push_byte_def string_push_def)

text \<open>What is left to read: the measure of every loop of the lexer.\<close>

definition remaining :: "LhatLexer \<Rightarrow> nat" where
  "remaining lx = length (lx_source lx) - lx_pos lx"

lemma remaining_store [simp]:
  "remaining (report_at lx code off line col) = remaining lx"
  "remaining (report lx code) = remaining lx"
  "remaining (string_push lx bs) = remaining lx"
  "remaining (string_push_byte lx c) = remaining lx"
  "remaining (lx\<lparr>lx_pending_stmt_start := b\<rparr>) = remaining lx"
  by (simp_all add: remaining_def)

lemma remaining_advance: "remaining (advance lx) = remaining lx - 1"
  by (auto simp: remaining_def advance_pos at_end_def)

lemma remaining_advance_n: "remaining (advance_n lx n) = remaining lx - n"
  by (induction lx n rule: advance_n.induct) (auto simp: remaining_advance)

lemma at_end_remaining: "at_end lx \<longleftrightarrow> remaining lx = 0"
  by (auto simp: at_end_def remaining_def)

lemma current_byte_end: "current_byte lx \<noteq> c_nul \<Longrightarrow> 0 < remaining lx"
  by (auto simp: current_byte_def at_end_remaining split: if_splits)

lemma current_cp_width:
  "current_cp lx = (cp, w) \<Longrightarrow> w \<noteq> 0 \<Longrightarrow> 0 < remaining lx \<and> w \<le> remaining lx"
  using decode_utf8_width [of "drop (lx_pos lx) (lx_source lx)" cp w]
  by (auto simp: current_cp_def at_end_def remaining_def split: if_splits)

subsection \<open>Trivia: whitespace, newlines and comments\<close>

definition record_comment :: "LhatLexer \<Rightarrow> u32 \<Rightarrow> u32 \<Rightarrow> u32 \<Rightarrow> bool \<Rightarrow> LhatLexer" where
  "record_comment lx offset line column block =
     lx\<lparr>lx_comments := lx_comments lx @
          [\<lparr>com_offset = offset, com_end = word_of_nat (lx_pos lx), com_line = line,
            com_column = column, com_block = block\<rparr>]\<rparr>"

lemma record_comment_frame [simp]:
  "lx_pos (record_comment lx off line col b) = lx_pos lx"
  "lx_source (record_comment lx off line col b) = lx_source lx"
  "at_end (record_comment lx off line col b) = at_end lx"
  "remaining (record_comment lx off line col b) = remaining lx"
  by (simp_all add: record_comment_def at_end_def remaining_def)

text \<open>The loop of \<open>skip_block_comment\<close>, and whether it found the end of the comment.\<close>

function block_comment_loop :: "LhatLexer \<Rightarrow> nat \<Rightarrow> LhatLexer \<times> bool" where
  "block_comment_loop lx depth =
     (if at_end lx then (lx, False)
      else
        let c = current_byte lx in
        if c = c_hash \<and> byte_at lx 1 = c_lbracket then
          block_comment_loop (advance_n lx 2) (depth + 1)
        else if c = c_rbracket \<and> byte_at lx 1 = c_hash then
          (if depth - 1 = 0 then (advance_n lx 2, True)
           else block_comment_loop (advance_n lx 2) (depth - 1))
        else
          block_comment_loop
            (advance (if c = c_newline then lx\<lparr>lx_pending_stmt_start := True\<rparr> else lx)) depth)"
  by pat_completeness auto
termination
  by (relation "measure (\<lambda>(lx, depth). remaining lx)")
     (auto simp: remaining_advance remaining_advance_n at_end_remaining)

declare block_comment_loop.simps [simp del]

definition skip_block_comment :: "LhatLexer \<Rightarrow> LhatLexer" where
  "skip_block_comment lx =
     (let start_offset = word_of_nat (lx_pos lx);
          start_line = lx_line lx;
          start_column = lx_column lx
      in case block_comment_loop (advance_n lx 2) 1 of (lx1, closed) \<Rightarrow>
        let lx2 = record_comment lx1 start_offset start_line start_column True
        in if closed then lx2
           else report_at lx2 LHAT_ERR_UNTERMINATED_BLOCK_COMMENT start_offset start_line
                  start_column)"

text \<open>The loop over the rest of a line, shared by the line comment and the line string.\<close>

function skip_line :: "LhatLexer \<Rightarrow> LhatLexer" where
  "skip_line lx =
     (if \<not> at_end lx \<and> current_byte lx \<noteq> c_newline then skip_line (advance lx) else lx)"
  by pat_completeness auto
termination
  by (relation "measure remaining") (auto simp: remaining_advance at_end_remaining)

declare skip_line.simps [simp del]

definition skip_line_comment :: "LhatLexer \<Rightarrow> LhatLexer" where
  "skip_line_comment lx =
     record_comment (skip_line lx) (word_of_nat (lx_pos lx)) (lx_line lx) (lx_column lx) False"

lemma block_comment_loop_remaining:
  "remaining (fst (block_comment_loop lx depth)) \<le> remaining lx"
proof (induction lx depth rule: block_comment_loop.induct)
  case (1 lx depth)
  show ?case
    by (subst block_comment_loop.simps)
       (use 1 in \<open>fastforce simp: Let_def remaining_advance remaining_advance_n\<close>)
qed

lemma skip_line_remaining: "remaining (skip_line lx) \<le> remaining lx"
  by (induction lx rule: skip_line.induct) (subst skip_line.simps, force simp: remaining_advance)

lemma skip_line_comment_remaining:
  "current_byte lx = c_hash \<Longrightarrow> remaining (skip_line_comment lx) < remaining lx"
  using skip_line_remaining [of "advance lx"] current_byte_end [of lx]
  by (auto simp: skip_line_comment_def skip_line.simps [of lx] remaining_advance at_end_remaining)

lemma skip_block_comment_remaining:
  "current_byte lx = c_hash \<Longrightarrow> remaining (skip_block_comment lx) < remaining lx"
  using block_comment_loop_remaining [of "advance_n lx 2" 1] current_byte_end [of lx]
  by (auto simp: skip_block_comment_def Let_def remaining_advance_n split: prod.splits)

lemma remaining_advance_byte:
  "current_byte lx = c \<Longrightarrow> c \<noteq> c_nul \<Longrightarrow> remaining lx - Suc 0 < remaining lx"
  using current_byte_end [of lx] by auto

function skip_trivia :: "LhatLexer \<Rightarrow> LhatLexer" where
  "skip_trivia lx =
     (let c = current_byte lx in
      if c = c_space \<or> c = c_tab \<or> c = c_vtab \<or> c = c_formfeed then skip_trivia (advance lx)
      else if c = c_newline then skip_trivia (advance (lx\<lparr>lx_pending_stmt_start := True\<rparr>))
      else if c = c_hash then
        skip_trivia (if byte_at lx 1 = c_lbracket then skip_block_comment lx
                     else skip_line_comment lx)
      else lx)"
  by pat_completeness auto
termination
  by (relation "measure remaining")
     (auto simp: remaining_advance skip_line_comment_remaining skip_block_comment_remaining
       intro: remaining_advance_byte)

declare skip_trivia.simps [simp del]

lemma skip_trivia_remaining: "remaining (skip_trivia lx) \<le> remaining lx"
proof (induction lx rule: skip_trivia.induct)
  case (1 lx)
  show ?case
    by (subst skip_trivia.simps)
       (use 1 skip_line_comment_remaining [of lx] skip_block_comment_remaining [of lx]
        in \<open>force simp: Let_def remaining_advance\<close>)
qed

end
