(* ===== verification/Lhat_Scan.thy ===== *)
theory Lhat_Scan
  imports Lhat_Source Lhat_Lexer
begin

text \<open>
  The scanners of \<open>src/lexer.c\<close> that make a token each, and \<open>lhat_lexer_next\<close>, which chooses
  among them.  Every loop over the text is a recursion on what is left of it.
\<close>

subsection \<open>Token construction\<close>

record Mark =
  mk_offset :: nat
  mk_line :: u32
  mk_column :: u32

definition mark :: "LhatLexer \<Rightarrow> Mark" where
  "mark lx = \<lparr>mk_offset = lx_pos lx, mk_line = lx_line lx, mk_column = lx_column lx\<rparr>"

definition finish :: "LhatLexer \<Rightarrow> Mark \<Rightarrow> LhatTokenKind \<Rightarrow> LhatToken" where
  "finish lx start kind =
     \<lparr>tok_kind = kind,
      tok_offset = word_of_nat (mk_offset start),
      tok_length = word_of_nat (lx_pos lx - mk_offset start),
      tok_line = mk_line start,
      tok_column = mk_column start,
      tok_may_start_stmt = lx_pending_stmt_start lx,
      tok_v = V_NONE\<rparr>"

text \<open>\<open>report_at\<close> with the position of a mark, as the scanners call it.\<close>

definition report_mark :: "LhatLexer \<Rightarrow> LhatErrorCode \<Rightarrow> Mark \<Rightarrow> LhatLexer" where
  "report_mark lx code start =
     report_at lx code (word_of_nat (mk_offset start)) (mk_line start) (mk_column start)"

text \<open>A token whose \<open>v.string\<close> is what was pushed since \<open>value_offset\<close>.\<close>

definition with_string :: "LhatToken \<Rightarrow> LhatLexer \<Rightarrow> LhatStringKind \<Rightarrow> nat \<Rightarrow> LhatToken" where
  "with_string token lx kind value_offset =
     token\<lparr>tok_v := V_STRING kind (word_of_nat value_offset)
                     (word_of_nat (length (lx_strings lx) - value_offset))\<rparr>"

lemma report_mark_frame [simp]:
  "lx_pos (report_mark lx code m) = lx_pos lx"
  "lx_source (report_mark lx code m) = lx_source lx"
  "at_end (report_mark lx code m) = at_end lx"
  "remaining (report_mark lx code m) = remaining lx"
  by (simp_all add: report_mark_def)

subsection \<open>Identifiers\<close>

function ident_loop :: "LhatLexer \<Rightarrow> LhatLexer" where
  "ident_loop lx =
     (case current_cp lx of (cp, width) \<Rightarrow>
        if width = 0 \<or> \<not> is_ident_continue cp then lx else ident_loop (advance_n lx width))"
  by pat_completeness auto
termination
  by (relation "measure remaining") (auto simp: remaining_advance_n dest!: current_cp_width [OF sym])

declare ident_loop.simps [simp del]

definition scan_annotation :: "LhatLexer \<Rightarrow> Mark \<Rightarrow> LhatToken \<times> LhatLexer" where
  "scan_annotation lx start =
     (let lx1 = advance lx in
      case current_cp lx1 of (cp, width) \<Rightarrow>
        if width = 0 \<or> \<not> is_ident_start cp then
          (let lx2 = report lx1 LHAT_ERR_BARE_AT in (finish lx2 start LHAT_TOKEN_ERROR, lx2))
        else
          let name = mark lx1;
              lx2 = ident_loop lx1
          in ((finish lx2 start LHAT_TOKEN_ANNOTATION)
                \<lparr>tok_offset := word_of_nat (mk_offset name),
                 tok_length := word_of_nat (lx_pos lx2 - mk_offset name)\<rparr>, lx2))"

text \<open>The run of a byte that \<open>scan_identifier\<close> and \<open>scan_dollar\<close> count.  The byte is never NUL,
  which is what \<open>current_byte\<close> answers at the end, so the test for the end changes nothing.\<close>

function count_run :: "LhatLexer \<Rightarrow> byte \<Rightarrow> u32 \<Rightarrow> u32 \<times> LhatLexer" where
  "count_run lx c n =
     (if \<not> at_end lx \<and> current_byte lx = c then count_run (advance lx) c (n + 1) else (n, lx))"
  by pat_completeness auto
termination
  by (relation "measure (\<lambda>(lx, c, n). remaining lx)")
     (auto simp: remaining_advance at_end_remaining)

declare count_run.simps [simp del]

definition scan_identifier :: "LhatLexer \<Rightarrow> Mark \<Rightarrow> LhatToken \<times> LhatLexer" where
  "scan_identifier lx start =
     (case count_run (ident_loop lx) c_hat 0 of (hats, lx1) \<Rightarrow>
        if 0 < hats then ((finish lx1 start LHAT_TOKEN_HAT_IDENT)\<lparr>tok_v := V_HATS hats\<rparr>, lx1)
        else (finish lx1 start LHAT_TOKEN_IDENT, lx1))"

text \<open>The loop of \<open>scan_name_literal\<close>, and whether it found the closing delimiter.\<close>

function name_literal_loop :: "LhatLexer \<Rightarrow> LhatLexer \<times> bool" where
  "name_literal_loop lx =
     (if at_end lx \<or> current_byte lx = c_newline then (lx, False)
      else
        let c = current_byte lx in
        if c = c_backtick then
          (if byte_at lx 1 = c_backtick
           then name_literal_loop (advance_n (string_push_byte lx c_backtick) 2)
           else (advance lx, True))
        else name_literal_loop (advance (string_push_byte lx c)))"
  by pat_completeness auto
termination
  by (relation "measure remaining")
     (auto simp: remaining_advance remaining_advance_n at_end_remaining)

declare name_literal_loop.simps [simp del]

definition scan_name_literal :: "LhatLexer \<Rightarrow> Mark \<Rightarrow> LhatToken \<times> LhatLexer" where
  "scan_name_literal lx start =
     (let lx1 = advance lx;
          value_offset = length (lx_strings lx1)
      in case name_literal_loop lx1 of (lx2, closed) \<Rightarrow>
        if \<not> closed then
          (let lx3 = report_mark lx2 LHAT_ERR_UNTERMINATED_NAME_LITERAL start
           in (finish lx3 start LHAT_TOKEN_ERROR, lx3))
        else
          let token = with_string (finish lx2 start LHAT_TOKEN_IDENT) lx2 LHAT_STRING_RAW
                        value_offset
          in if (word_of_nat (length (lx_strings lx2) - value_offset) :: u32) = 0 then
               (token\<lparr>tok_kind := LHAT_TOKEN_ERROR\<rparr>,
                report_mark lx2 LHAT_ERR_EMPTY_NAME_LITERAL start)
             else (token, lx2))"

subsection \<open>Numbers\<close>

definition scan_number :: "LhatLexer \<Rightarrow> Mark \<Rightarrow> LhatToken \<times> LhatLexer" where
  "scan_number lx start =
     (let read = lhat_number_literal (drop (mk_offset start) (lx_source lx)) (lx_after_dot lx);
          lx1 = advance_n lx (num_length read)
      in if num_status read = LHAT_NUMBER_BAD_EXPONENT then
           (let lx2 = report_mark lx1 LHAT_ERR_MALFORMED_EXPONENT start
            in (finish lx2 start LHAT_TOKEN_ERROR, lx2))
         else case current_cp lx1 of (next, width) \<Rightarrow>
           if 0 < width \<and> is_ident_start next then
             (let lx2 = ident_loop (report lx1 LHAT_ERR_IDENT_AFTER_NUMBER)
              in (finish lx2 start LHAT_TOKEN_ERROR, lx2))
           else if num_status read = LHAT_NUMBER_MALFORMED \<or>
                   num_status read = LHAT_NUMBER_TOO_LONG then
             (let lx2 = report_mark lx1 LHAT_ERR_MALFORMED_NUMBER start
              in (finish lx2 start LHAT_TOKEN_ERROR, lx2))
           else
             let token = finish lx1 start
                   (if num_kind read = LHAT_NUMBER_REAL then LHAT_TOKEN_FLOAT else LHAT_TOKEN_INT)
             in if num_status read = LHAT_NUMBER_OVERFLOW then
                  (token\<lparr>tok_kind := LHAT_TOKEN_ERROR\<rparr>,
                   report_mark lx1 LHAT_ERR_INTEGER_OVERFLOW start)
                else if num_kind read = LHAT_NUMBER_REAL then
                  (token\<lparr>tok_v := V_REAL (num_real read)\<rparr>, lx1)
                else (token\<lparr>tok_v := V_INTEGER (num_integer read) (num_base read)\<rparr>, lx1))"

subsection \<open>Strings\<close>

text \<open>The digits that \<open>\u{\<close> collects: at most seven, \<open>digits\<close> having room for eight bytes.\<close>

definition escape_digits :: "LhatLexer \<Rightarrow> byte list" where
  "escape_digits lx = takeWhile (\<lambda>c. is_digit_of_base c 16) (map (byte_at lx) [2..<9])"

definition scan_escape :: "LhatLexer \<Rightarrow> LhatLexer" where
  "scan_escape lx0 =
     (let lx = advance lx0;
          c = current_byte lx
      in if c = c_n then advance (string_push_byte lx c_newline)
         else if c = c_r then advance (string_push_byte lx c_return)
         else if c = c_t then advance (string_push_byte lx c_tab)
         else if c = c_0 then advance (string_push_byte lx c_nul)
         else if c = c_backslash then advance (string_push_byte lx c_backslash)
         else if c = c_dquote then advance (string_push_byte lx c_dquote)
         else if c = c_newline then advance lx
         else if c = c_x then
           (let hi = byte_at lx 1; lo = byte_at lx 2
            in if is_digit_of_base hi 16 \<and> is_digit_of_base lo 16
               then advance_n (string_push_byte lx (word_of_nat (digits_value 16 [hi, lo]))) 3
               else advance (report lx LHAT_ERR_MALFORMED_ESCAPE))
         else if c = c_u \<and> byte_at lx 1 = c_lbrace then
           (let digits = escape_digits lx;
                count = length digits;
                cp = word_of_nat (digits_value 16 digits) :: u32
            in if 0 < count \<and> count \<le> 6 \<and> byte_at lx (2 + count) = c_rbrace \<and>
                  cp \<le> 0x10FFFF \<and> \<not> (0xD800 \<le> cp \<and> cp \<le> 0xDFFF)
               then advance_n (string_push lx (encode_utf8 cp)) (2 + count + 1)
               else advance (report lx LHAT_ERR_MALFORMED_ESCAPE))
         else
           let lx1 = report lx LHAT_ERR_UNKNOWN_ESCAPE
           in if \<not> at_end lx1 then advance lx1 else lx1)"

lemma scan_escape_remaining: "0 < remaining lx \<Longrightarrow> remaining (scan_escape lx) < remaining lx"
  unfolding scan_escape_def Let_def
  by (auto simp: remaining_advance remaining_advance_n)

function escaped_string_loop :: "LhatLexer \<Rightarrow> LhatLexer \<times> bool" where
  "escaped_string_loop lx =
     (if at_end lx then (lx, False)
      else
        let c = current_byte lx in
        if c = c_dquote then (advance lx, True)
        else if c = c_backslash then escaped_string_loop (scan_escape lx)
        else escaped_string_loop (advance (string_push_byte lx c)))"
  by pat_completeness auto
termination
  by (relation "measure remaining")
     (auto simp: remaining_advance at_end_remaining intro!: scan_escape_remaining)

declare escaped_string_loop.simps [simp del]

definition scan_escaped_string :: "LhatLexer \<Rightarrow> Mark \<Rightarrow> LhatToken \<times> LhatLexer" where
  "scan_escaped_string lx start =
     (let lx1 = advance lx;
          value_offset = length (lx_strings lx1)
      in case escaped_string_loop lx1 of (lx2, closed) \<Rightarrow>
        if \<not> closed then
          (let lx3 = report_mark lx2 LHAT_ERR_UNTERMINATED_STRING start
           in (finish lx3 start LHAT_TOKEN_ERROR, lx3))
        else
          (with_string (finish lx2 start LHAT_TOKEN_STRING) lx2 LHAT_STRING_ESCAPED value_offset,
           lx2))"

function raw_string_loop :: "LhatLexer \<Rightarrow> LhatLexer \<times> bool" where
  "raw_string_loop lx =
     (if at_end lx then (lx, False)
      else
        let c = current_byte lx in
        if c = c_quote then
          (if byte_at lx 1 = c_quote
           then raw_string_loop (advance_n (string_push_byte lx c_quote) 2)
           else (advance lx, True))
        else raw_string_loop (advance (string_push_byte lx c)))"
  by pat_completeness auto
termination
  by (relation "measure remaining")
     (auto simp: remaining_advance remaining_advance_n at_end_remaining)

declare raw_string_loop.simps [simp del]

definition scan_raw_string :: "LhatLexer \<Rightarrow> Mark \<Rightarrow> LhatToken \<times> LhatLexer" where
  "scan_raw_string lx start =
     (let lx1 = advance lx;
          value_offset = length (lx_strings lx1)
      in case raw_string_loop lx1 of (lx2, closed) \<Rightarrow>
        if \<not> closed then
          (let lx3 = report_mark lx2 LHAT_ERR_UNTERMINATED_STRING start
           in (finish lx3 start LHAT_TOKEN_ERROR, lx3))
        else
          (with_string (finish lx2 start LHAT_TOKEN_STRING) lx2 LHAT_STRING_RAW value_offset,
           lx2))"

text \<open>The bytes up to a closing byte, pushed as they are: a line string up to the newline, a
  format up to the brace.\<close>

function push_until :: "LhatLexer \<Rightarrow> byte \<Rightarrow> LhatLexer" where
  "push_until lx stop =
     (if \<not> at_end lx \<and> current_byte lx \<noteq> stop
      then push_until (advance (string_push_byte lx (current_byte lx))) stop else lx)"
  by pat_completeness auto
termination
  by (relation "measure (\<lambda>(lx, stop). remaining lx)")
     (auto simp: remaining_advance at_end_remaining)

declare push_until.simps [simp del]

definition scan_line_string :: "LhatLexer \<Rightarrow> Mark \<Rightarrow> LhatToken \<times> LhatLexer" where
  "scan_line_string lx start =
     (let lx1 = advance_n lx 3;
          value_offset = length (lx_strings lx1);
          lx2 = push_until lx1 c_newline
      in (with_string (finish lx2 start LHAT_TOKEN_STRING) lx2 LHAT_STRING_LINE value_offset, lx2))"

subsection \<open>Interpolation and scope specifiers\<close>

text \<open>The loop over the literal run between two holes.\<close>

function segment_loop :: "LhatLexer \<Rightarrow> LhatLexer" where
  "segment_loop lx =
     (if at_end lx then lx
      else
        let c = current_byte lx in
        if c = c_lbrace then
          (if byte_at lx 1 \<noteq> c_lbrace then lx
           else segment_loop (advance_n (string_push_byte lx c_lbrace) 2))
        else if c = c_rbrace then
          segment_loop (advance_n (string_push_byte lx c_rbrace)
            (if byte_at lx 1 = c_rbrace then 2 else 1))
        else if c = c_dquote then lx
        else if c = c_backslash then segment_loop (scan_escape lx)
        else segment_loop (advance (string_push_byte lx c)))"
  by pat_completeness auto
termination
  by (relation "measure remaining")
     (auto simp: remaining_advance remaining_advance_n at_end_remaining
       intro!: scan_escape_remaining)

declare segment_loop.simps [simp del]

definition scan_interpolation_segment :: "LhatLexer \<Rightarrow> LhatToken \<times> LhatLexer" where
  "scan_interpolation_segment lx =
     (let start = mark lx in
      if current_byte lx = c_lbrace \<and> byte_at lx 1 \<noteq> c_lbrace then
        (let lx1 = advance lx in
         if LHAT_INTERP_MAX_DEPTH \<le> length (lx_interp lx1) then
           (let lx2 = report lx1 LHAT_ERR_INTERPOLATION_TOO_DEEP
            in (finish lx2 start LHAT_TOKEN_ERROR, lx2))
         else
           let lx2 = lx1\<lparr>lx_interp := \<lparr>in_hole = True, brace_depth = 0\<rparr> # lx_interp lx1\<rparr>
           in (finish lx2 start LHAT_TOKEN_INTERP_EXPR_BEGIN, lx2))
      else if current_byte lx = c_dquote then
        (let lx1 = advance lx;
             lx2 = lx1\<lparr>lx_interp := tl (lx_interp lx1)\<rparr>
         in (finish lx2 start LHAT_TOKEN_INTERP_END, lx2))
      else
        let value_offset = length (lx_strings lx);
            lx1 = segment_loop lx
        in if at_end lx1 then
             (let lx2 = report_mark lx1 LHAT_ERR_UNTERMINATED_STRING start;
                  lx3 = lx2\<lparr>lx_interp := tl (lx_interp lx2)\<rparr>
              in (finish lx3 start LHAT_TOKEN_ERROR, lx3))
           else
             (with_string (finish lx1 start LHAT_TOKEN_INTERP_TEXT) lx1 LHAT_STRING_ESCAPED
                value_offset, lx1))"

definition scan_interpolation_format :: "LhatLexer \<Rightarrow> LhatToken \<times> LhatLexer" where
  "scan_interpolation_format lx =
     (let start = mark lx;
          lx1 = advance lx;
          value_offset = length (lx_strings lx1);
          lx2 = push_until lx1 c_rbrace
      in (with_string (finish lx2 start LHAT_TOKEN_INTERP_FORMAT) lx2 LHAT_STRING_RAW value_offset,
          lx2))"

definition scan_dollar :: "LhatLexer \<Rightarrow> Mark \<Rightarrow> LhatToken \<times> LhatLexer" where
  "scan_dollar lx start =
     (let next = byte_at lx 1 in
      if next = c_dquote then
        (let lx1 = advance_n lx 2 in
         if LHAT_INTERP_MAX_DEPTH \<le> length (lx_interp lx1) then
           (let lx2 = report lx1 LHAT_ERR_INTERPOLATION_TOO_DEEP
            in (finish lx2 start LHAT_TOKEN_ERROR, lx2))
         else
           let lx2 = lx1\<lparr>lx_interp := \<lparr>in_hole = False, brace_depth = 0\<rparr> # lx_interp lx1\<rparr>
           in (finish lx2 start LHAT_TOKEN_INTERP_BEGIN, lx2))
      else if next = c_quote then
        (let lx1 = advance (report lx LHAT_ERR_INTERPOLATION_NEEDS_QUOTES)
         in (finish lx1 start LHAT_TOKEN_ERROR, lx1))
      else
        case count_run (advance lx) c_dollar 0 of (depth1, lx1) \<Rightarrow>
          case (if depth1 = 0 \<and> current_byte lx1 = c_hat
                then (LHAT_SCOPE_RELATIVE, count_run lx1 c_hat depth1)
                else (LHAT_SCOPE_FILE, depth1, lx1)) of (kind, depth, lx2) \<Rightarrow>
            case current_cp lx2 of (cp, width) \<Rightarrow>
              if width = 0 \<or> \<not> is_ident_start cp then
                (let lx3 = report_mark lx2 LHAT_ERR_SCOPE_WITHOUT_NAME start
                 in (finish lx3 start LHAT_TOKEN_ERROR, lx3))
              else ((finish lx2 start LHAT_TOKEN_SCOPE)\<lparr>tok_v := V_SCOPE kind depth\<rparr>, lx2))"

subsection \<open>Operators\<close>

text \<open>An entry is its text and its operator; \<open>length\<close> is the length of the text.  The seven
  entries that are not ASCII are written as their bytes.\<close>

definition operator_table :: "(byte list \<times> LhatOpKind) list" where
  "operator_table =
    [(bytes_of ''?//='', LHAT_OP_NIL_FLOORDIV_ASSIGN),
     (bytes_of ''?**='', LHAT_OP_NIL_POW_ASSIGN),
     (bytes_of ''?..='', LHAT_OP_NIL_CONCAT_ASSIGN),
     (bytes_of ''...'', LHAT_OP_ELLIPSIS),
     (bytes_of ''?:='', LHAT_OP_NIL_REASSIGN),
     (bytes_of ''?+='', LHAT_OP_NIL_ADD_ASSIGN),
     (bytes_of ''?-='', LHAT_OP_NIL_SUB_ASSIGN),
     (bytes_of ''?*='', LHAT_OP_NIL_MUL_ASSIGN),
     (bytes_of ''?/='', LHAT_OP_NIL_DIV_ASSIGN),
     (bytes_of ''?%='', LHAT_OP_NIL_MOD_ASSIGN),
     (bytes_of ''//='', LHAT_OP_FLOORDIV_ASSIGN),
     (bytes_of ''**='', LHAT_OP_POW_ASSIGN),
     (bytes_of ''..='', LHAT_OP_CONCAT_ASSIGN),
     (bytes_of ''<=>'', LHAT_OP_SPACESHIP),
     ([0xE2, 0x89, 0xA0], LHAT_OP_NE),
     ([0xE2, 0x89, 0xA4], LHAT_OP_LE),
     ([0xE2, 0x89, 0xA5], LHAT_OP_GE),
     ([0xE2, 0x89, 0xA6], LHAT_OP_LE),
     ([0xE2, 0x89, 0xA7], LHAT_OP_GE),
     ([0xC3, 0x97], LHAT_OP_CROSS),
     ([0xE2, 0x8B, 0x85], LHAT_OP_DOT_PRODUCT),
     (bytes_of '':='', LHAT_OP_REASSIGN),
     (bytes_of ''<<'', LHAT_OP_LSHIFT),
     (bytes_of ''>>'', LHAT_OP_RSHIFT),
     (bytes_of ''->'', LHAT_OP_ARROW),
     (bytes_of ''!='', LHAT_OP_NE),
     (bytes_of ''=/'', LHAT_OP_NE),
     (bytes_of ''<='', LHAT_OP_LE),
     (bytes_of ''>='', LHAT_OP_GE),
     (bytes_of ''**'', LHAT_OP_POW),
     (bytes_of ''//'', LHAT_OP_FLOORDIV),
     (bytes_of ''..'', LHAT_OP_CONCAT),
     (bytes_of ''::'', LHAT_OP_CONCAT),
     (bytes_of ''+='', LHAT_OP_ADD_ASSIGN),
     (bytes_of ''-='', LHAT_OP_SUB_ASSIGN),
     (bytes_of ''*='', LHAT_OP_MUL_ASSIGN),
     (bytes_of ''/='', LHAT_OP_DIV_ASSIGN),
     (bytes_of ''%='', LHAT_OP_MOD_ASSIGN),
     (bytes_of ''?.'', LHAT_OP_NIL_DOT),
     (bytes_of ''?('', LHAT_OP_NIL_CALL),
     (bytes_of ''?['', LHAT_OP_NIL_INDEX),
     (bytes_of ''??'', LHAT_OP_NIL_ELSE),
     (bytes_of ''('', LHAT_OP_LPAREN),
     (bytes_of '')'', LHAT_OP_RPAREN),
     (bytes_of ''['', LHAT_OP_LBRACKET),
     (bytes_of '']'', LHAT_OP_RBRACKET),
     (bytes_of ''{'', LHAT_OP_LBRACE),
     (bytes_of ''}'', LHAT_OP_RBRACE),
     (bytes_of '','', LHAT_OP_COMMA),
     (bytes_of '';'', LHAT_OP_SEMICOLON),
     (bytes_of '':'', LHAT_OP_COLON),
     (bytes_of ''='', LHAT_OP_EQ),
     (bytes_of ''<'', LHAT_OP_LT),
     (bytes_of ''>'', LHAT_OP_GT),
     (bytes_of ''+'', LHAT_OP_ADD),
     (bytes_of ''-'', LHAT_OP_SUB),
     (bytes_of ''*'', LHAT_OP_MUL),
     (bytes_of ''/'', LHAT_OP_DIV),
     (bytes_of ''%'', LHAT_OP_MOD),
     (bytes_of ''!'', LHAT_OP_NOT),
     (bytes_of ''|'', LHAT_OP_UNION),
     (bytes_of ''&'', LHAT_OP_INTERSECT),
     (bytes_of ''.'', LHAT_OP_DOT),
     (bytes_of ''?'', LHAT_OP_PRESENT)]"

text \<open>The first entry whose text is a prefix of what is left, \<open>memcmp\<close> within the bounds.\<close>

definition entry_matches :: "byte list \<Rightarrow> byte list \<Rightarrow> bool" where
  "entry_matches at_pos entry_text \<longleftrightarrow>
     length entry_text \<le> length at_pos \<and> take (length entry_text) at_pos = entry_text"

definition match_operator :: "LhatLexer \<Rightarrow> (byte list \<times> LhatOpKind) option" where
  "match_operator lx =
     List.find (\<lambda>entry. entry_matches (drop (lx_pos lx) (lx_source lx)) (fst entry)) operator_table"

subsection \<open>Public interface\<close>

definition lhat_lexer_init :: "LhatSource \<Rightarrow> LhatLexer" where
  "lhat_lexer_init source =
     \<lparr>lx_source = src_text source, lx_pos = 0, lx_line = 1, lx_column = 1,
      lx_pending_stmt_start = True, lx_after_dot = False, lx_interp = [], lx_strings = [],
      lx_diagnostics = [], lx_comments = []\<rparr>"

definition inside_interpolated_text :: "LhatLexer \<Rightarrow> bool" where
  "inside_interpolated_text lx =
     (case lx_interp lx of [] \<Rightarrow> False | frame # _ \<Rightarrow> \<not> in_hole frame)"

definition inside_interpolation_hole :: "LhatLexer \<Rightarrow> bool" where
  "inside_interpolation_hole lx =
     (case lx_interp lx of [] \<Rightarrow> False | frame # _ \<Rightarrow> in_hole frame)"

text \<open>The assignments \<open>pending_stmt_start = false; after_dot = false\<close> of the early returns.\<close>

definition clear_flags :: "LhatLexer \<Rightarrow> LhatLexer" where
  "clear_flags lx = lx\<lparr>lx_pending_stmt_start := False, lx_after_dot := False\<rparr>"

text \<open>The chain that scans one token at a code point, before the flags are set.\<close>

definition scan_token :: "LhatLexer \<Rightarrow> LhatToken \<times> LhatLexer" where
  "scan_token lx =
     (let start = mark lx;
          c = current_byte lx
      in case current_cp lx of (cp, width) \<Rightarrow>
        if cp = LHAT_CP_INVALID then
          (let lx1 = advance (report lx LHAT_ERR_INVALID_UTF8)
           in (finish lx1 start LHAT_TOKEN_ERROR, lx1))
        else if c = c_dquote then
          (if byte_at lx 1 = c_dquote \<and> byte_at lx 2 = c_dquote
           then scan_line_string lx start else scan_escaped_string lx start)
        else if c = c_quote then scan_raw_string lx start
        else if c = c_backtick then scan_name_literal lx start
        else if c = c_at then scan_annotation lx start
        else if c = c_dollar then scan_dollar lx start
        else if is_decimal_digit c then scan_number lx start
        else if is_ident_start cp then scan_identifier lx start
        else if c = c_hat then
          (let lx1 = advance (report lx LHAT_ERR_BARE_HAT)
           in (finish lx1 start LHAT_TOKEN_ERROR, lx1))
        else case match_operator lx of
          Some (entry_text, op) \<Rightarrow>
            (let lx1 = advance_n lx (length entry_text)
             in ((finish lx1 start LHAT_TOKEN_OP)\<lparr>tok_v := V_OP op\<rparr>, lx1))
        | None \<Rightarrow>
            (let lx1 = advance_n (report lx LHAT_ERR_UNEXPECTED_CHARACTER) width
             in (finish lx1 start LHAT_TOKEN_ERROR, lx1)))"

text \<open>The braces counted inside a hole.\<close>

definition token_is_op :: "LhatToken \<Rightarrow> LhatOpKind \<Rightarrow> bool" where
  "token_is_op token op \<longleftrightarrow> tok_kind token = LHAT_TOKEN_OP \<and> tok_v token = V_OP op"

definition track_braces :: "LhatToken \<Rightarrow> LhatLexer \<Rightarrow> LhatLexer" where
  "track_braces token lx =
     (if inside_interpolation_hole lx \<and> tok_kind token = LHAT_TOKEN_OP then
        (case lx_interp lx of
           [] \<Rightarrow> lx
         | frame # frames \<Rightarrow>
             if token_is_op token LHAT_OP_LBRACE then
               lx\<lparr>lx_interp := frame\<lparr>brace_depth := brace_depth frame + 1\<rparr> # frames\<rparr>
             else if token_is_op token LHAT_OP_RBRACE \<and> 0 < brace_depth frame then
               lx\<lparr>lx_interp := frame\<lparr>brace_depth := brace_depth frame - 1\<rparr> # frames\<rparr>
             else lx)
      else lx)"

definition set_flags :: "LhatToken \<Rightarrow> LhatLexer \<Rightarrow> LhatLexer" where
  "set_flags token lx =
     lx\<lparr>lx_pending_stmt_start := token_is_op token LHAT_OP_SEMICOLON,
        lx_after_dot := token_is_op token LHAT_OP_DOT \<or> token_is_op token LHAT_OP_NIL_DOT\<rparr>"

text \<open>What \<open>lhat_lexer_next\<close> does of its own at the end of a hole; None where the normal path
  takes over.\<close>

definition scan_hole_end :: "LhatLexer \<Rightarrow> (LhatToken \<times> LhatLexer) option" where
  "scan_hole_end lx =
     (if inside_interpolation_hole lx \<and> brace_depth (hd (lx_interp lx)) = 0 then
        if current_byte lx = c_rbrace then
          (let hole = mark lx;
               lx1 = advance lx;
               lx2 = clear_flags (lx1\<lparr>lx_interp := tl (lx_interp lx1)\<rparr>)
           in Some (finish lx2 hole LHAT_TOKEN_INTERP_EXPR_END, lx2))
        else if current_byte lx = c_colon \<and> byte_at lx 1 \<noteq> c_colon then
          (case scan_interpolation_format lx of (token, lx1) \<Rightarrow> Some (token, clear_flags lx1))
        else None
      else None)"

definition lhat_lexer_next :: "LhatLexer \<Rightarrow> LhatToken \<times> LhatLexer" where
  "lhat_lexer_next lx0 =
     (if inside_interpolated_text lx0 then
        (case scan_interpolation_segment lx0 of (token, lx1) \<Rightarrow> (token, clear_flags lx1))
      else
        let lx = skip_trivia lx0 in
        case scan_hole_end lx of
          Some result \<Rightarrow> result
        | None \<Rightarrow>
            if at_end lx then (finish lx (mark lx) LHAT_TOKEN_EOF, clear_flags lx)
            else case scan_token lx of (token, lx1) \<Rightarrow>
              (token, set_flags token (track_braces token lx1)))"

text \<open>The bytes of a token in the string storage; a plain identifier's union is zeroed.\<close>

definition lhat_lexer_string :: "LhatLexer \<Rightarrow> LhatToken \<Rightarrow> byte list option" where
  "lhat_lexer_string lx token =
     (if tok_kind token \<noteq> LHAT_TOKEN_STRING \<and> tok_kind token \<noteq> LHAT_TOKEN_IDENT \<and>
         tok_kind token \<noteq> LHAT_TOKEN_INTERP_TEXT \<and> tok_kind token \<noteq> LHAT_TOKEN_INTERP_FORMAT
      then None
      else case tok_v token of
        V_STRING kind offset len \<Rightarrow>
          if len = 0 then None else Some (take (unat len) (drop (unat offset) (lx_strings lx)))
      | _ \<Rightarrow> None)"

end
