(* ===== verification/Lhat_LexerInv.thy ===== *)
theory Lhat_LexerInv
  imports Lhat_Scan
begin

text \<open>
  The invariant of the lexer and how its operations keep it: the position is that of the text
  before the cursor, every diagnostic and every comment lies in that text, and the stores only
  grow.  \<open>extends\<close> is the preorder that each function of the lexer moves along; its rules
  have the shape \<open>extends lx0 lx \<Longrightarrow> extends lx0 (operation lx)\<close> so that they chain.
\<close>

subsection \<open>Positions of a text\<close>

definition text_line :: "byte list \<Rightarrow> u32" where
  "text_line before = word_of_nat (1 + count_list before c_newline)"

definition text_column :: "byte list \<Rightarrow> u32" where
  "text_column before =
     word_of_nat (1 + length (filter (\<lambda>b. b AND 0xC0 \<noteq> 0x80)
                                (takeWhile (\<lambda>b. b \<noteq> c_newline) (rev before))))"

lemma text_position_start [simp]: "text_line [] = 1" "text_column [] = 1"
  by (simp_all add: text_line_def text_column_def)

lemma text_position_snoc:
  "text_line (bs @ [b]) = (if b = c_newline then text_line bs + 1 else text_line bs)"
  "text_column (bs @ [b]) =
     (if b = c_newline then 1
      else if b AND 0xC0 \<noteq> 0x80 then text_column bs + 1 else text_column bs)"
  by (auto simp: text_line_def text_column_def)

definition lexer_placed :: "LhatLexer \<Rightarrow> bool" where
  "lexer_placed lx \<longleftrightarrow>
     lx_pos lx \<le> length (lx_source lx) \<and>
     lx_line lx = text_line (take (lx_pos lx) (lx_source lx)) \<and>
     lx_column lx = text_column (take (lx_pos lx) (lx_source lx))"

definition diagnostic_placed :: "byte list \<Rightarrow> nat \<Rightarrow> LhatDiagnostic \<Rightarrow> bool" where
  "diagnostic_placed src n d \<longleftrightarrow>
     (\<exists>p\<le>n. diag_offset d = word_of_nat p \<and>
        diag_line d = text_line (take p src) \<and> diag_column d = text_column (take p src))"

definition comment_placed :: "byte list \<Rightarrow> nat \<Rightarrow> LhatComment \<Rightarrow> bool" where
  "comment_placed src n c \<longleftrightarrow>
     (\<exists>p q. p < q \<and> q \<le> n \<and> src ! p = c_hash \<and>
        com_offset c = word_of_nat p \<and> com_end c = word_of_nat q \<and>
        com_line c = text_line (take p src) \<and> com_column c = text_column (take p src))"

definition lexer_ok :: "LhatLexer \<Rightarrow> bool" where
  "lexer_ok lx \<longleftrightarrow>
     lexer_placed lx \<and>
     (\<forall>d \<in> set (lx_diagnostics lx). diagnostic_placed (lx_source lx) (lx_pos lx) d) \<and>
     (\<forall>c \<in> set (lx_comments lx). comment_placed (lx_source lx) (lx_pos lx) c)"

lemma placed_mono:
  "diagnostic_placed src n d \<Longrightarrow> n \<le> m \<Longrightarrow> diagnostic_placed src m d"
  "comment_placed src n c \<Longrightarrow> n \<le> m \<Longrightarrow> comment_placed src m c"
  unfolding diagnostic_placed_def comment_placed_def by (meson order_trans)+

subsection \<open>Moving forward\<close>

definition extends :: "LhatLexer \<Rightarrow> LhatLexer \<Rightarrow> bool" where
  "extends lx lx' \<longleftrightarrow>
     lx_source lx' = lx_source lx \<and> lx_pos lx \<le> lx_pos lx' \<and>
     (\<exists>s. lx_strings lx' = lx_strings lx @ s) \<and>
     (\<exists>d. lx_diagnostics lx' = lx_diagnostics lx @ d) \<and>
     (\<exists>c. lx_comments lx' = lx_comments lx @ c) \<and>
     (lexer_ok lx \<longrightarrow> lexer_ok lx')"

lemma extends_refl [lexer_mono]: "extends lx lx"
  by (simp add: extends_def)

lemma extends_trans: "extends lx lx1 \<Longrightarrow> extends lx1 lx2 \<Longrightarrow> extends lx lx2"
  by (auto simp: extends_def)

lemma extends_pos: "extends lx lx' \<Longrightarrow> lx_pos lx \<le> lx_pos lx'"
  and extends_source: "extends lx lx' \<Longrightarrow> lx_source lx' = lx_source lx"
  and extends_ok: "extends lx lx' \<Longrightarrow> lexer_ok lx \<Longrightarrow> lexer_ok lx'"
  by (auto simp: extends_def)

lemma advance_placed: "lexer_placed lx \<Longrightarrow> lexer_placed (advance lx)"
  by (auto simp: lexer_placed_def advance_def Let_def at_end_def take_Suc_conv_app_nth
      text_position_snoc)

lemma advance_stores [simp]:
  "lx_strings (advance lx) = lx_strings lx"
  "lx_diagnostics (advance lx) = lx_diagnostics lx"
  "lx_comments (advance lx) = lx_comments lx"
  "lx_pending_stmt_start (advance lx) = lx_pending_stmt_start lx"
  "lx_after_dot (advance lx) = lx_after_dot lx"
  "lx_interp (advance lx) = lx_interp lx"
  by (simp_all add: advance_def Let_def)

lemma extends_advance [lexer_mono]: "extends lx0 lx \<Longrightarrow> extends lx0 (advance lx)"
  by (rule extends_trans, assumption)
     (auto simp: extends_def lexer_ok_def advance_placed advance_pos intro: placed_mono)

lemma extends_advance_n [lexer_mono]: "extends lx0 lx \<Longrightarrow> extends lx0 (advance_n lx n)"
  by (induction lx n rule: advance_n.induct) (auto intro: extends_advance)

lemma extends_report_at:
  "extends lx0 lx \<Longrightarrow>
   lexer_ok lx0 \<longrightarrow> diagnostic_placed (lx_source lx) (lx_pos lx)
     \<lparr>diag_code = code, diag_offset = off, diag_line = line, diag_column = col\<rparr> \<Longrightarrow>
   extends lx0 (report_at lx code off line col)"
  by (auto simp: extends_def lexer_ok_def lexer_placed_def report_at_def)

lemma extends_report [lexer_mono]: "extends lx0 lx \<Longrightarrow> extends lx0 (report lx code)"
  unfolding report_def
  by (rule extends_report_at)
     (auto simp: extends_def lexer_ok_def lexer_placed_def diagnostic_placed_def)

lemma extends_report_start:
  "extends lx0 lx \<Longrightarrow>
   extends lx0 (report_at lx code (word_of_nat (lx_pos lx0)) (lx_line lx0) (lx_column lx0))"
  by (rule extends_report_at)
     (auto simp: extends_def lexer_ok_def lexer_placed_def diagnostic_placed_def)

lemma extends_report_mark [lexer_mono]:
  "extends lx0 lx \<Longrightarrow> extends lx0 (report_mark lx code (mark lx0))"
  by (simp add: report_mark_def mark_def extends_report_start)

lemma extends_string_push [lexer_mono]:
  "extends lx0 lx \<Longrightarrow> extends lx0 (string_push lx bs)"
  "extends lx0 lx \<Longrightarrow> extends lx0 (string_push_byte lx b)"
  by (auto simp: extends_def lexer_ok_def lexer_placed_def string_push_def string_push_byte_def)

lemma extends_fields [lexer_mono]:
  "extends lx0 lx \<Longrightarrow> extends lx0 (lx\<lparr>lx_pending_stmt_start := b\<rparr>)"
  "extends lx0 lx \<Longrightarrow> extends lx0 (lx\<lparr>lx_after_dot := b\<rparr>)"
  "extends lx0 lx \<Longrightarrow> extends lx0 (lx\<lparr>lx_interp := fs\<rparr>)"
  "extends lx0 lx \<Longrightarrow> extends lx0 (clear_flags lx)"
  "extends lx0 lx \<Longrightarrow> extends lx0 (set_flags token lx)"
  by (auto simp: extends_def lexer_ok_def lexer_placed_def clear_flags_def set_flags_def)

lemma extends_record_comment:
  assumes "extends lx0 lx" "lx_pos lx0 < lx_pos lx" "current_byte lx0 = c_hash"
  shows "extends lx0
     (record_comment lx (word_of_nat (lx_pos lx0)) (lx_line lx0) (lx_column lx0) b)"
proof -
  have c: "lx_source lx0 ! lx_pos lx0 = c_hash"
    using assms(3) by (auto simp: current_byte_def split: if_splits)
  have "comment_placed (lx_source lx) (lx_pos lx)
     \<lparr>com_offset = word_of_nat (lx_pos lx0), com_end = word_of_nat (lx_pos lx),
      com_line = lx_line lx0, com_column = lx_column lx0, com_block = b\<rparr>" if "lexer_ok lx0"
    using assms that c unfolding comment_placed_def
    by (intro exI [of _ "lx_pos lx0"] exI [of _ "lx_pos lx"])
       (auto simp: extends_def lexer_ok_def lexer_placed_def)
  then show ?thesis
    using assms(1) by (auto simp: extends_def lexer_ok_def lexer_placed_def record_comment_def)
qed

subsection \<open>Trivia\<close>

lemma extends_block_comment_loop:
  "extends lx0 lx \<Longrightarrow> extends lx0 (fst (block_comment_loop lx depth))"
proof (induction lx depth rule: block_comment_loop.induct)
  case (1 lx depth)
  show ?case
    by (subst block_comment_loop.simps)
       (use 1 in \<open>auto simp: Let_def lexer_mono\<close>)
qed

lemma extends_skip_line: "extends lx0 lx \<Longrightarrow> extends lx0 (skip_line lx)"
proof (induction lx rule: skip_line.induct)
  case (1 lx)
  show ?case by (subst skip_line.simps) (use 1 in \<open>auto simp: lexer_mono\<close>)
qed

lemma extends_skip_line_comment:
  assumes "current_byte lx = c_hash"
  shows "extends lx (skip_line_comment lx)"
proof -
  have e: "extends lx (skip_line lx)" by (intro extends_skip_line extends_refl)
  have "lx_pos lx < lx_pos (skip_line lx)"
  proof -
    have "\<not> at_end lx" using assms by (auto simp: current_byte_def)
    then have "skip_line lx = skip_line (advance lx)" "lx_pos (advance lx) = lx_pos lx + 1"
      using assms by (simp_all add: skip_line.simps [of lx] advance_pos)
    then show ?thesis
      using extends_pos [OF extends_skip_line [OF extends_refl [of "advance lx"]]] by simp
  qed
  with e show ?thesis
    unfolding skip_line_comment_def using assms by (rule extends_record_comment)
qed

lemma extends_skip_block_comment:
  assumes "current_byte lx = c_hash"
  shows "extends lx (skip_block_comment lx)"
proof -
  obtain lx1 closed where l: "block_comment_loop (advance_n lx 2) 1 = (lx1, closed)"
    by fastforce
  have "extends (advance_n lx 2) lx1"
    using extends_block_comment_loop [OF extends_refl [of "advance_n lx 2"], of 1] l by simp
  moreover have "lx_pos lx < lx_pos (advance_n lx 2)"
    using assms by (auto simp: current_byte_def at_end_def advance_n_pos split: if_splits)
  ultimately have p: "lx_pos lx < lx_pos lx1" by (auto dest: extends_pos)
  have e: "extends lx lx1"
    using extends_block_comment_loop [OF extends_advance_n [OF extends_refl], of lx 2 1] l by simp
  from extends_record_comment [OF e p assms] show ?thesis
    by (auto simp: skip_block_comment_def l [simplified] Let_def intro: extends_report_start)
qed

lemma extends_skip_trivia [lexer_mono]: "extends lx0 lx \<Longrightarrow> extends lx0 (skip_trivia lx)"
proof (induction lx rule: skip_trivia.induct)
  case (1 lx)
  have "extends lx0 (skip_line_comment lx)" "extends lx0 (skip_block_comment lx)"
    if "current_byte lx = c_hash"
    using extends_skip_line_comment [OF that] extends_skip_block_comment [OF that] 1(4)
    by (auto intro: extends_trans)
  with 1 show ?case
    by (subst skip_trivia.simps) (auto simp: Let_def lexer_mono)
qed

subsection \<open>The loops of the scanners\<close>

lemma extends_ident_loop [lexer_mono]: "extends lx0 lx \<Longrightarrow> extends lx0 (ident_loop lx)"
proof (induction lx rule: ident_loop.induct)
  case (1 lx)
  show ?case
    by (subst ident_loop.simps) (use 1 in \<open>auto simp: lexer_mono split: prod.splits\<close>)
qed

lemma extends_count_run [lexer_mono]:
  "extends lx0 lx \<Longrightarrow> extends lx0 (snd (count_run lx c n))"
proof (induction lx c n rule: count_run.induct)
  case (1 lx c n)
  show ?case by (subst count_run.simps) (use 1 in \<open>auto simp: lexer_mono\<close>)
qed

lemma extends_name_literal_loop [lexer_mono]:
  "extends lx0 lx \<Longrightarrow> extends lx0 (fst (name_literal_loop lx))"
proof (induction lx rule: name_literal_loop.induct)
  case (1 lx)
  show ?case
    by (subst name_literal_loop.simps) (use 1 in \<open>auto simp: Let_def lexer_mono\<close>)
qed

lemma extends_scan_escape [lexer_mono]: "extends lx0 lx \<Longrightarrow> extends lx0 (scan_escape lx)"
  unfolding scan_escape_def Let_def by (auto simp: lexer_mono)

lemma extends_escaped_string_loop [lexer_mono]:
  "extends lx0 lx \<Longrightarrow> extends lx0 (fst (escaped_string_loop lx))"
proof (induction lx rule: escaped_string_loop.induct)
  case (1 lx)
  show ?case
    by (subst escaped_string_loop.simps) (use 1 in \<open>auto simp: Let_def lexer_mono\<close>)
qed

lemma extends_raw_string_loop [lexer_mono]:
  "extends lx0 lx \<Longrightarrow> extends lx0 (fst (raw_string_loop lx))"
proof (induction lx rule: raw_string_loop.induct)
  case (1 lx)
  show ?case
    by (subst raw_string_loop.simps) (use 1 in \<open>auto simp: Let_def lexer_mono\<close>)
qed

lemma extends_push_until [lexer_mono]: "extends lx0 lx \<Longrightarrow> extends lx0 (push_until lx stop)"
proof (induction lx stop rule: push_until.induct)
  case (1 lx stop)
  show ?case by (subst push_until.simps) (use 1 in \<open>auto simp: lexer_mono\<close>)
qed

lemma extends_segment_loop [lexer_mono]: "extends lx0 lx \<Longrightarrow> extends lx0 (segment_loop lx)"
proof (induction lx rule: segment_loop.induct)
  case (1 lx)
  show ?case
    by (subst segment_loop.simps) (use 1 in \<open>auto simp: Let_def lexer_mono split: if_splits\<close>)
qed

subsection \<open>The scanners leave the mode alone\<close>

text \<open>The mode is what no scanner of a token may touch: the flags and the interpolation stack.\<close>

definition mode :: "LhatLexer \<Rightarrow> bool \<times> bool \<times> InterpFrame list" where
  "mode lx = (lx_pending_stmt_start lx, lx_after_dot lx, lx_interp lx)"

lemma mode_primitive [simp]:
  "mode (advance lx) = mode lx"
  "mode (report_at lx code off line col) = mode lx"
  "mode (report lx code) = mode lx"
  "mode (report_mark lx code m) = mode lx"
  "mode (string_push lx bs) = mode lx"
  "mode (string_push_byte lx b) = mode lx"
  "mode (record_comment lx off line col block) = mode lx"
  by (simp_all add: mode_def report_at_def report_def report_mark_def string_push_def
      string_push_byte_def record_comment_def)

lemma mode_advance_n [simp]: "mode (advance_n lx n) = mode lx"
  by (induction lx n rule: advance_n.induct) auto

lemma mode_ident_loop [simp]: "mode (ident_loop lx) = mode lx"
proof (induction lx rule: ident_loop.induct)
  case (1 lx)
  show ?case by (subst ident_loop.simps) (use 1 in \<open>auto split: prod.splits\<close>)
qed

lemma mode_count_run [simp]: "mode (snd (count_run lx c n)) = mode lx"
proof (induction lx c n rule: count_run.induct)
  case (1 lx c n)
  show ?case by (subst count_run.simps) (use 1 in auto)
qed

lemma mode_name_literal_loop [simp]: "mode (fst (name_literal_loop lx)) = mode lx"
proof (induction lx rule: name_literal_loop.induct)
  case (1 lx)
  show ?case by (subst name_literal_loop.simps) (use 1 in \<open>auto simp: Let_def\<close>)
qed

lemma mode_scan_escape [simp]: "mode (scan_escape lx) = mode lx"
  unfolding scan_escape_def Let_def by auto

lemma mode_escaped_string_loop [simp]: "mode (fst (escaped_string_loop lx)) = mode lx"
proof (induction lx rule: escaped_string_loop.induct)
  case (1 lx)
  show ?case by (subst escaped_string_loop.simps) (use 1 in \<open>auto simp: Let_def\<close>)
qed

lemma mode_raw_string_loop [simp]: "mode (fst (raw_string_loop lx)) = mode lx"
proof (induction lx rule: raw_string_loop.induct)
  case (1 lx)
  show ?case by (subst raw_string_loop.simps) (use 1 in \<open>auto simp: Let_def\<close>)
qed

lemma mode_push_until [simp]: "mode (push_until lx stop) = mode lx"
proof (induction lx stop rule: push_until.induct)
  case (1 lx stop)
  show ?case by (subst push_until.simps) (use 1 in auto)
qed

lemma mode_segment_loop [simp]: "mode (segment_loop lx) = mode lx"
proof (induction lx rule: segment_loop.induct)
  case (1 lx)
  show ?case by (subst segment_loop.simps) (use 1 in \<open>auto simp: Let_def\<close>)
qed

lemma mode_block_comment_loop: "lx_interp (fst (block_comment_loop lx depth)) = lx_interp lx"
proof (induction lx depth rule: block_comment_loop.induct)
  case (1 lx depth)
  have "lx_interp (advance_n lx 2) = lx_interp lx"
    using mode_advance_n [of lx 2] by (simp add: mode_def)
  with 1 show ?case by (subst block_comment_loop.simps) (auto simp: Let_def)
qed

lemma mode_skip_line [simp]: "mode (skip_line lx) = mode lx"
proof (induction lx rule: skip_line.induct)
  case (1 lx)
  show ?case by (subst skip_line.simps) (use 1 in auto)
qed

lemma interp_skip_trivia [simp]: "lx_interp (skip_trivia lx) = lx_interp lx"
proof (induction lx rule: skip_trivia.induct)
  case (1 lx)
  have "lx_interp (skip_line_comment lx) = lx_interp lx"
    using mode_skip_line [of lx] by (simp add: skip_line_comment_def record_comment_def mode_def)
  moreover have "lx_interp (skip_block_comment lx) = lx_interp lx"
    using mode_block_comment_loop [of "advance_n lx 2" 1] mode_advance_n [of lx 2]
    by (auto simp: skip_block_comment_def record_comment_def report_at_def Let_def mode_def
        split: prod.splits)
  ultimately show ?case using 1
    by (subst skip_trivia.simps) (auto simp: Let_def)
qed

subsection \<open>What a scanned token is\<close>

definition token_placed :: "LhatLexer \<Rightarrow> LhatLexer \<Rightarrow> LhatToken \<Rightarrow> bool" where
  "token_placed lx lx' t \<longleftrightarrow>
     (let p = (if tok_kind t = LHAT_TOKEN_ANNOTATION then lx_pos lx + 1 else lx_pos lx)
      in p \<le> lx_pos lx' \<and> tok_offset t = word_of_nat p \<and>
         tok_length t = word_of_nat (lx_pos lx' - p) \<and>
         tok_line t = lx_line lx \<and> tok_column t = lx_column lx)"

definition scanned :: "LhatLexer \<Rightarrow> LhatLexer \<Rightarrow> LhatToken \<Rightarrow> bool" where
  "scanned lx lx' t \<longleftrightarrow>
     extends lx lx' \<and> token_placed lx lx' t \<and> tok_kind t \<noteq> LHAT_TOKEN_EOF \<and>
     tok_may_start_stmt t = lx_pending_stmt_start lx \<and>
     (tok_kind t = LHAT_TOKEN_ERROR \<longrightarrow>
        length (lx_diagnostics lx) < length (lx_diagnostics lx'))"

lemma extends_diagnostics:
  "extends lx lx' \<Longrightarrow> length (lx_diagnostics lx) \<le> length (lx_diagnostics lx')"
  by (auto simp: extends_def)

lemma report_diagnostics [simp]:
  "length (lx_diagnostics (report_at lx code off line col)) = Suc (length (lx_diagnostics lx))"
  "length (lx_diagnostics (report lx code)) = Suc (length (lx_diagnostics lx))"
  "length (lx_diagnostics (report_mark lx code m)) = Suc (length (lx_diagnostics lx))"
  by (simp_all add: report_at_def report_def report_mark_def)

lemma mode_pending: "mode lx' = mode lx \<Longrightarrow> lx_pending_stmt_start lx' = lx_pending_stmt_start lx"
  and mode_interp: "mode lx' = mode lx \<Longrightarrow> lx_interp lx' = lx_interp lx"
  by (auto simp: mode_def)

lemma report_pending [simp]:
  "lx_pending_stmt_start (report_mark lx code m) = lx_pending_stmt_start lx"
  "lx_pending_stmt_start (report lx code) = lx_pending_stmt_start lx"
  by (simp_all add: report_at_def report_def report_mark_def)

lemma advance_n_diagnostics [simp]: "lx_diagnostics (advance_n lx n) = lx_diagnostics lx"
  by (induction lx n rule: advance_n.induct) auto

lemma ident_loop_diagnostics [simp]: "lx_diagnostics (ident_loop lx) = lx_diagnostics lx"
proof (induction lx rule: ident_loop.induct)
  case (1 lx)
  show ?case by (subst ident_loop.simps) (use 1 in \<open>auto split: prod.splits\<close>)
qed

lemma loop_mode:
  "count_run lx c n = (k, lx') \<Longrightarrow> mode lx' = mode lx"
  "name_literal_loop lx = (lx', b) \<Longrightarrow> mode lx' = mode lx"
  "escaped_string_loop lx = (lx', b) \<Longrightarrow> mode lx' = mode lx"
  "raw_string_loop lx = (lx', b) \<Longrightarrow> mode lx' = mode lx"
  by (metis fst_conv snd_conv mode_count_run mode_name_literal_loop mode_escaped_string_loop
      mode_raw_string_loop)+

text \<open>A token finished at the cursor, and the same with a report after it.\<close>

lemma scanned_finish:
  assumes "extends lx lx'" "mode lx' = mode lx" "kind \<noteq> LHAT_TOKEN_EOF"
    "kind \<noteq> LHAT_TOKEN_ANNOTATION" "kind \<noteq> LHAT_TOKEN_ERROR"
  shows "scanned lx lx' ((finish lx' (mark lx) kind)\<lparr>tok_v := v\<rparr>)"
  using assms by (simp add: scanned_def token_placed_def finish_def mark_def mode_def extends_pos)

lemma scanned_plain:
  assumes "extends lx lx'" "mode lx' = mode lx" "kind \<noteq> LHAT_TOKEN_EOF"
    "kind \<noteq> LHAT_TOKEN_ANNOTATION" "kind \<noteq> LHAT_TOKEN_ERROR"
  shows "scanned lx lx' (finish lx' (mark lx) kind)"
  using assms by (simp add: scanned_def token_placed_def finish_def mark_def mode_def extends_pos)

lemma scanned_error:
  assumes "extends lx lx'" "mode lx' = mode lx"
    "length (lx_diagnostics lx) < length (lx_diagnostics lx')" "lx_pos lx'' = lx_pos lx'"
    "lx_pending_stmt_start lx'' = lx_pending_stmt_start lx'"
  shows "scanned lx lx' ((finish lx'' (mark lx) LHAT_TOKEN_ERROR)\<lparr>tok_v := v\<rparr>)"
    "scanned lx lx' (finish lx'' (mark lx) LHAT_TOKEN_ERROR)"
  using assms by (simp_all add: scanned_def token_placed_def finish_def mark_def mode_def extends_pos)

lemma finish_kind: "(finish lx m k)\<lparr>tok_v := v, tok_kind := k'\<rparr> = (finish lx m k')\<lparr>tok_v := v\<rparr>"
  "(finish lx m k)\<lparr>tok_kind := k'\<rparr> = finish lx m k'"
  by (simp_all add: finish_def)

lemma scanned_annotation: "scan_annotation lx (mark lx) = (t, lx') \<Longrightarrow> scanned lx lx' t"
proof -
  assume s: "scan_annotation lx (mark lx) = (t, lx')"
  obtain cp width where c: "current_cp (advance lx) = (cp, width)" by fastforce
  show "scanned lx lx' t"
  proof (cases "width = 0 \<or> \<not> is_ident_start cp")
    case True
    then have "t = finish (report (advance lx) LHAT_ERR_BARE_AT) (mark lx) LHAT_TOKEN_ERROR"
      "lx' = report (advance lx) LHAT_ERR_BARE_AT"
      using s by (auto simp: scan_annotation_def c Let_def)
    then show ?thesis by (auto simp: intro!: scanned_error lexer_mono)
  next
    case False
    then have t: "t = (finish lx' (mark lx) LHAT_TOKEN_ANNOTATION)
        \<lparr>tok_offset := word_of_nat (lx_pos (advance lx)),
         tok_length := word_of_nat (lx_pos lx' - lx_pos (advance lx))\<rparr>"
      and lx': "lx' = ident_loop (advance lx)"
      using s by (auto simp: scan_annotation_def c Let_def mark_def)
    have "\<not> at_end lx"
    proof
      assume "at_end lx"
      then have "advance lx = lx" by (simp add: advance_def)
      with \<open>at_end lx\<close> c False show False by (simp add: current_cp_def)
    qed
    then have "lx_pos (advance lx) = lx_pos lx + 1" by (simp add: advance_pos)
    moreover have "lx_pos (advance lx) \<le> lx_pos lx'"
      unfolding lx' by (intro extends_pos extends_ident_loop extends_refl)
    moreover have "extends lx lx'" "mode lx' = mode lx"
      unfolding lx' by (auto intro: lexer_mono)
    ultimately show ?thesis
      by (simp add: t scanned_def token_placed_def finish_def mark_def mode_def)
  qed
qed

lemma scanned_identifier: "scan_identifier lx (mark lx) = (t, lx') \<Longrightarrow> scanned lx lx' t"
  using extends_count_run [OF extends_ident_loop [OF extends_refl], of lx c_hat 0]
  by (auto simp: scan_identifier_def dest: loop_mode intro!: scanned_finish scanned_plain
      split: prod.splits if_splits)

lemma scanned_name_literal: "scan_name_literal lx (mark lx) = (t, lx') \<Longrightarrow> scanned lx lx' t"
  using extends_name_literal_loop [OF extends_advance [OF extends_refl], of lx]
  by (auto simp: scan_name_literal_def Let_def with_string_def finish_kind less_Suc_eq_le
      dest: loop_mode extends_diagnostics
      intro!: scanned_finish scanned_error extends_report_mark split: prod.splits if_splits)

lemma scanned_number: "scan_number lx (mark lx) = (t, lx') \<Longrightarrow> scanned lx lx' t"
  unfolding scan_number_def Let_def
  by (auto simp: finish_kind
      intro!: scanned_finish scanned_error(2) lexer_mono
      split: prod.splits if_splits)

lemma scanned_escaped_string: "scan_escaped_string lx (mark lx) = (t, lx') \<Longrightarrow> scanned lx lx' t"
  using extends_escaped_string_loop [OF extends_advance [OF extends_refl], of lx]
  by (auto simp: scan_escaped_string_def Let_def with_string_def less_Suc_eq_le
      dest: loop_mode extends_diagnostics
      intro!: scanned_finish scanned_error extends_report_mark split: prod.splits if_splits)

lemma scanned_raw_string: "scan_raw_string lx (mark lx) = (t, lx') \<Longrightarrow> scanned lx lx' t"
  using extends_raw_string_loop [OF extends_advance [OF extends_refl], of lx]
  by (auto simp: scan_raw_string_def Let_def with_string_def less_Suc_eq_le
      dest: loop_mode extends_diagnostics
      intro!: scanned_finish scanned_error extends_report_mark split: prod.splits if_splits)

lemma scanned_line_string: "scan_line_string lx (mark lx) = (t, lx') \<Longrightarrow> scanned lx lx' t"
  by (auto simp: scan_line_string_def Let_def with_string_def intro!: scanned_finish lexer_mono)

lemma scanned_format: "scan_interpolation_format lx = (t, lx') \<Longrightarrow> scanned lx lx' t"
  by (auto simp: scan_interpolation_format_def Let_def with_string_def
      intro!: scanned_finish lexer_mono)

subsection \<open>The interpolation stack\<close>

text \<open>
  The frames alternate, a string outermost, and only a hole counts braces.  The stack is kept
  innermost first, so the frame above \<open>n\<close> others is a hole exactly if \<open>n\<close> is odd.
\<close>

fun interp_alternates :: "InterpFrame list \<Rightarrow> bool" where
  "interp_alternates [] \<longleftrightarrow> True"
| "interp_alternates (f # fs) \<longleftrightarrow>
     in_hole f = odd (length fs) \<and> (in_hole f \<or> brace_depth f = 0) \<and> interp_alternates fs"

definition interp_ok :: "LhatLexer \<Rightarrow> bool" where
  "interp_ok lx \<longleftrightarrow>
     interp_alternates (lx_interp lx) \<and> length (lx_interp lx) \<le> LHAT_INTERP_MAX_DEPTH"

lemma interp_ok_tl: "interp_ok lx \<Longrightarrow> lx_interp lx' = tl (lx_interp lx) \<Longrightarrow> interp_ok lx'"
  unfolding interp_ok_def by (cases "lx_interp lx") auto

lemma interp_ok_mode: "interp_ok lx \<Longrightarrow> lx_interp lx' = lx_interp lx \<Longrightarrow> interp_ok lx'"
  by (simp add: interp_ok_def)

subsection \<open>The segment of an interpolated string\<close>

text \<open>In a string segment the stack is never full, its depth being odd and the bound even: the
  report of a hole nested too deeply cannot be reached there.\<close>

lemma segment_room:
  "interp_ok lx \<Longrightarrow> inside_interpolated_text lx \<Longrightarrow> length (lx_interp lx) < LHAT_INTERP_MAX_DEPTH"
  by (cases "lx_interp lx")
     (auto simp: interp_ok_def inside_interpolated_text_def LHAT_INTERP_MAX_DEPTH_def
       le_eq_less_or_eq)

lemma scanned_interp:
  assumes "scanned lx lx1 t"
  shows "scanned lx (lx1\<lparr>lx_interp := fs\<rparr>) t" "scanned lx (clear_flags lx1) t"
    "scanned lx (set_flags u lx1) t"
  using assms by (auto simp: scanned_def token_placed_def clear_flags_def set_flags_def
      extends_def lexer_ok_def lexer_placed_def)

lemma remaining_interp [simp]: "remaining (lx\<lparr>lx_interp := fs\<rparr>) = remaining lx"
  by (simp add: remaining_def)

lemma finish_interp [simp]:
  "finish (lx\<lparr>lx_interp := fs\<rparr>) m k = finish lx m k"
  by (simp add: finish_def)

lemma scanned_segment:
  assumes "scan_interpolation_segment lx = (t, lx')"
  shows "scanned lx lx' t"
  using assms unfolding scan_interpolation_segment_def Let_def
  by (auto simp: with_string_def less_Suc_eq_le
      intro!: scanned_interp(1) scanned_finish scanned_plain scanned_error(2) extends_segment_loop
        extends_advance extends_report extends_report_mark extends_refl extends_diagnostics
      split: if_splits)

lemma extends_remaining: "extends lx lx' \<Longrightarrow> remaining lx' \<le> remaining lx"
  by (auto simp: extends_def remaining_def)

lemma segment_loop_progress:
  assumes "\<not> at_end lx" "\<not> (current_byte lx = c_lbrace \<and> byte_at lx 1 \<noteq> c_lbrace)"
    "current_byte lx \<noteq> c_dquote"
  shows "remaining (segment_loop lx) < remaining lx"
proof -
  have step: "remaining lx1 < remaining lx \<Longrightarrow> remaining (segment_loop lx1) < remaining lx" for lx1
    using extends_remaining [OF extends_segment_loop [OF extends_refl [of lx1]]] by simp
  show ?thesis
    using assms
    by (subst segment_loop.simps)
       (auto simp: Let_def remaining_advance remaining_advance_n at_end_remaining
         intro!: step scan_escape_remaining)
qed

lemma segment_interp:
  assumes "scan_interpolation_segment lx = (t, lx')" "interp_ok lx" "inside_interpolated_text lx"
  obtains (hole) "tok_kind t = LHAT_TOKEN_INTERP_EXPR_BEGIN"
      "lx_interp lx' = \<lparr>in_hole = True, brace_depth = 0\<rparr> # lx_interp lx"
      "remaining lx' < remaining lx"
  | (close) "tok_kind t = LHAT_TOKEN_INTERP_END \<or> tok_kind t = LHAT_TOKEN_ERROR"
      "lx_interp lx' = tl (lx_interp lx)"
  | (string) "tok_kind t = LHAT_TOKEN_INTERP_TEXT" "lx_interp lx' = lx_interp lx"
      "remaining lx' < remaining lx"
proof -
  have room: "\<not> LHAT_INTERP_MAX_DEPTH \<le> length (lx_interp lx)"
    using segment_room [OF assms(2,3)] by simp
  have keep: "lx_interp (segment_loop lx) = lx_interp lx"
    "lx_interp (report_mark lx2 code m) = lx_interp lx2" for lx2 code m
    by (rule mode_interp, simp)+
  consider (a) "current_byte lx = c_lbrace \<and> byte_at lx 1 \<noteq> c_lbrace"
    | (b) "\<not> (current_byte lx = c_lbrace \<and> byte_at lx 1 \<noteq> c_lbrace)" "current_byte lx = c_dquote"
    | (c) "\<not> (current_byte lx = c_lbrace \<and> byte_at lx 1 \<noteq> c_lbrace)" "current_byte lx \<noteq> c_dquote"
        "at_end (segment_loop lx)"
    | (d) "\<not> (current_byte lx = c_lbrace \<and> byte_at lx 1 \<noteq> c_lbrace)" "current_byte lx \<noteq> c_dquote"
        "\<not> at_end (segment_loop lx)"
    by fast
  then show thesis
  proof cases
    case a
    then have "remaining (advance lx) < remaining lx"
      using current_byte_end [of lx] by (simp add: remaining_advance)
    with a show ?thesis using assms(1) room
      by (intro hole) (auto simp: scan_interpolation_segment_def Let_def finish_def remaining_def)
  next
    case b
    then show ?thesis using assms(1)
      by (intro close) (auto simp: scan_interpolation_segment_def Let_def finish_def)
  next
    case c
    then show ?thesis using assms(1) keep
      by (intro close) (auto simp: scan_interpolation_segment_def Let_def finish_def)
  next
    case d
    have "\<not> at_end lx" using d(3) extends_remaining [OF extends_segment_loop [OF extends_refl, of lx]]
      by (auto simp: at_end_remaining)
    with d show ?thesis using assms(1) keep segment_loop_progress [of lx]
      by (intro string)
         (auto simp: scan_interpolation_segment_def Let_def finish_def with_string_def)
  qed
qed

lemma segment_ok:
  assumes "scan_interpolation_segment lx = (t, lx')" "interp_ok lx" "inside_interpolated_text lx"
  shows "interp_ok lx'"
  using assms
proof (cases rule: segment_interp)
  case hole
  then show ?thesis
    using assms segment_room [OF assms(2,3)]
    by (cases "lx_interp lx") (auto simp: interp_ok_def inside_interpolated_text_def)
qed (use assms in \<open>auto intro: interp_ok_tl interp_ok_mode\<close>)

subsection \<open>Progress\<close>

text \<open>What is left to do: two for every byte, since a byte may open a frame, and one for every
  frame to close.\<close>

definition lexer_work :: "LhatLexer \<Rightarrow> nat" where
  "lexer_work lx = 2 * remaining lx + length (lx_interp lx)"

lemma inside_not_empty: "inside_interpolated_text lx \<Longrightarrow> lx_interp lx \<noteq> []"
  "inside_interpolation_hole lx \<Longrightarrow> lx_interp lx \<noteq> []"
  by (auto simp: inside_interpolated_text_def inside_interpolation_hole_def)

lemma segment_work:
  assumes "scan_interpolation_segment lx = (t, lx')" "interp_ok lx" "inside_interpolated_text lx"
  shows "lexer_work lx' < lexer_work lx"
proof -
  have le: "remaining lx' \<le> remaining lx"
    using scanned_segment [OF assms(1)] by (auto simp: scanned_def intro: extends_remaining)
  from assms show ?thesis
  proof (cases rule: segment_interp)
    case hole
    then show ?thesis by (simp add: lexer_work_def)
  next
    case close
    then show ?thesis using le inside_not_empty(1) [OF assms(3)]
      by (cases "lx_interp lx") (auto simp: lexer_work_def)
  next
    case string
    then show ?thesis by (simp add: lexer_work_def)
  qed
qed

lemma count_run_remaining: "count_run lx c n = (k, lx') \<Longrightarrow> remaining lx' \<le> remaining lx"
  using extends_remaining [OF extends_count_run [OF extends_refl], of lx c n] by simp

text \<open>What \<open>scan_dollar\<close> does to the stack: only an opening of a string pushes a frame, after
  two bytes.\<close>

lemma scan_dollar_cases:
  assumes "scan_dollar lx (mark lx) = (t, lx')"
  obtains (string) "lx_interp lx' = \<lparr>in_hole = False, brace_depth = 0\<rparr> # lx_interp lx"
      "length (lx_interp lx) < LHAT_INTERP_MAX_DEPTH" "byte_at lx 1 = c_dquote"
      "lx' = advance_n lx 2\<lparr>lx_interp := lx_interp lx'\<rparr>"
      "t = finish (advance_n lx 2) (mark lx) LHAT_TOKEN_INTERP_BEGIN"
  | (deep) "lx' = report (advance_n lx 2) LHAT_ERR_INTERPOLATION_TOO_DEEP"
      "t = finish lx' (mark lx) LHAT_TOKEN_ERROR"
  | (quotes) "lx' = advance (report lx LHAT_ERR_INTERPOLATION_NEEDS_QUOTES)"
      "t = finish lx' (mark lx) LHAT_TOKEN_ERROR"
  | (nameless) lx2 where "extends lx lx2" "mode lx2 = mode lx"
      "remaining lx2 \<le> remaining (advance lx)"
      "lx' = report_mark lx2 LHAT_ERR_SCOPE_WITHOUT_NAME (mark lx)"
      "t = finish lx' (mark lx) LHAT_TOKEN_ERROR"
  | (scope) kind depth where "extends lx lx'" "mode lx' = mode lx"
      "remaining lx' \<le> remaining (advance lx)"
      "t = (finish lx' (mark lx) LHAT_TOKEN_SCOPE)\<lparr>tok_v := V_SCOPE kind depth\<rparr>"
proof -
  obtain d1 lx1 where l1: "count_run (advance lx) c_dollar 0 = (d1, lx1)" by fastforce
  have e1: "extends lx lx1" "mode lx1 = mode lx" "remaining lx1 \<le> remaining (advance lx)"
    using extends_count_run [OF extends_advance [OF extends_refl], of lx c_dollar 0]
      loop_mode(1) [OF l1] count_run_remaining [OF l1] l1 by simp_all
  obtain K D L where k: "(if d1 = 0 \<and> current_byte lx1 = c_hat
      then (LHAT_SCOPE_RELATIVE, count_run lx1 c_hat d1) else (LHAT_SCOPE_FILE, d1, lx1)) = (K, D, L)"
    by (metis prod_cases3)
  have e2: "extends lx L" "mode L = mode lx" "remaining L \<le> remaining (advance lx)"
    using k e1 extends_count_run [OF e1(1), of c_hat d1] loop_mode(1) [of lx1 c_hat d1 D L]
      count_run_remaining [of lx1 c_hat d1 D L] by (auto split: if_splits)
  obtain cp width where c: "current_cp L = (cp, width)" by fastforce
  have r: "scan_dollar lx (mark lx) =
     (if byte_at lx 1 = c_dquote then
        (if LHAT_INTERP_MAX_DEPTH \<le> length (lx_interp lx) then
           (finish (report (advance_n lx 2) LHAT_ERR_INTERPOLATION_TOO_DEEP) (mark lx) LHAT_TOKEN_ERROR,
            report (advance_n lx 2) LHAT_ERR_INTERPOLATION_TOO_DEEP)
         else (finish (advance_n lx 2) (mark lx) LHAT_TOKEN_INTERP_BEGIN,
           advance_n lx 2\<lparr>lx_interp := \<lparr>in_hole = False, brace_depth = 0\<rparr> # lx_interp lx\<rparr>))
      else if byte_at lx 1 = c_quote then
        (finish (advance (report lx LHAT_ERR_INTERPOLATION_NEEDS_QUOTES)) (mark lx) LHAT_TOKEN_ERROR,
         advance (report lx LHAT_ERR_INTERPOLATION_NEEDS_QUOTES))
      else if width = 0 \<or> \<not> is_ident_start cp then
        (finish (report_mark L LHAT_ERR_SCOPE_WITHOUT_NAME (mark lx)) (mark lx) LHAT_TOKEN_ERROR,
         report_mark L LHAT_ERR_SCOPE_WITHOUT_NAME (mark lx))
      else ((finish L (mark lx) LHAT_TOKEN_SCOPE)\<lparr>tok_v := V_SCOPE K D\<rparr>, L))"
    unfolding scan_dollar_def Let_def l1 prod.case k c
    by (simp add: mode_interp [OF mode_advance_n])
  consider (a) "byte_at lx 1 = c_dquote" "LHAT_INTERP_MAX_DEPTH \<le> length (lx_interp lx)"
    | (b) "byte_at lx 1 = c_dquote" "\<not> LHAT_INTERP_MAX_DEPTH \<le> length (lx_interp lx)"
    | (c) "byte_at lx 1 \<noteq> c_dquote" "byte_at lx 1 = c_quote"
    | (d) "byte_at lx 1 \<noteq> c_dquote" "byte_at lx 1 \<noteq> c_quote" "width = 0 \<or> \<not> is_ident_start cp"
    | (e) "byte_at lx 1 \<noteq> c_dquote" "byte_at lx 1 \<noteq> c_quote" "\<not> (width = 0 \<or> \<not> is_ident_start cp)"
    by fast
  then show thesis
  proof cases
    case a then show ?thesis using assms r by (intro deep) auto
  next
    case b then show ?thesis using assms r by (intro string) auto
  next
    case c then show ?thesis using assms r by (intro quotes) auto
  next
    case d then show ?thesis using assms r e2 by (intro nameless [of L]) auto
  next
    case e then show ?thesis using assms r e2 by (intro scope [of K D]) auto
  qed
qed

lemma scanned_dollar:
  assumes "scan_dollar lx (mark lx) = (t, lx')"
  shows "scanned lx lx' t"
  using assms
proof (cases rule: scan_dollar_cases)
  case string
  have "scanned lx (advance_n lx 2\<lparr>lx_interp := lx_interp lx'\<rparr>) t"
    unfolding string(5) by (intro scanned_interp(1) scanned_plain lexer_mono) auto
  with string(4) show ?thesis by simp
next
  case nameless
  then show ?thesis
    by (auto simp: less_Suc_eq_le intro!: scanned_error(2) extends_report_mark extends_diagnostics)
qed (auto intro!: scanned_error(2) scanned_finish lexer_mono)

lemma dollar_interp:
  assumes "scan_dollar lx (mark lx) = (t, lx')" "interp_ok lx" "\<not> inside_interpolated_text lx"
  shows "interp_ok lx'"
  using assms(1)
proof (cases rule: scan_dollar_cases)
  case string
  then show ?thesis using assms(2,3)
    by (cases "lx_interp lx") (auto simp: interp_ok_def inside_interpolated_text_def)
qed (use assms(2) in \<open>auto intro!: interp_ok_mode [of lx] mode_interp\<close>)

lemma dollar_work:
  assumes "scan_dollar lx (mark lx) = (t, lx')" "current_byte lx = c_dollar"
  shows "lexer_work lx' < lexer_work lx"
proof -
  have r: "0 < remaining lx" using assms(2) current_byte_end [of lx] by simp
  have m: "mode l = mode lx \<Longrightarrow> remaining l \<le> remaining lx - 1 \<Longrightarrow> lexer_work l < lexer_work lx" for l
    using r by (simp add: lexer_work_def mode_def)
  from assms(1) show ?thesis
  proof (cases rule: scan_dollar_cases)
    case string
    then have "1 < remaining lx"
      by (auto simp: byte_at_def remaining_def Let_def split: if_splits)
    moreover have "remaining lx' = remaining lx - 2"
      using string(4) remaining_advance_n [of lx 2] by (metis remaining_interp)
    ultimately show ?thesis using string(1) by (simp add: lexer_work_def)
  qed (auto intro!: m simp: remaining_advance remaining_advance_n)
qed

end
