(* ===== verification/Lhat_LexerNext.thy ===== *)
theory Lhat_LexerNext
  imports Lhat_LexerInv
begin

text \<open>
  What one call of \<open>lhat_lexer_next\<close> does: it keeps the invariants of the position, of the
  stores and of the interpolation stack, its token lies where it says, and unless the token is
  the end of the file some work is done.
\<close>

subsection \<open>Every scanner moves\<close>

lemma moved_advance: "extends (advance lx) lx' \<Longrightarrow> \<not> at_end lx \<Longrightarrow> remaining lx' < remaining lx"
  using extends_remaining [of "advance lx" lx'] by (auto simp: remaining_advance at_end_remaining)

lemma annotation_moves:
  "scan_annotation lx start = (t, lx') \<Longrightarrow> \<not> at_end lx \<Longrightarrow>
   remaining lx' < remaining lx \<and> mode lx' = mode lx"
  by (auto simp: scan_annotation_def Let_def intro!: moved_advance lexer_mono
      split: prod.splits if_splits)

lemma ident_start_continue: "is_ident_start cp \<Longrightarrow> is_ident_continue cp"
  by (auto simp: is_ident_start_def is_ident_continue_def split: if_splits)

lemma identifier_moves:
  assumes "scan_identifier lx start = (t, lx')" "current_cp lx = (cp, width)" "is_ident_start cp"
    "\<not> at_end lx"
  shows "remaining lx' < remaining lx \<and> mode lx' = mode lx"
proof -
  have w: "0 < width"
    using assms(2,4) decode_utf8_width [of "drop (lx_pos lx) (lx_source lx)" cp width]
    by (auto simp: current_cp_def at_end_def)
  then have i: "ident_loop lx = ident_loop (advance_n lx width)"
    using assms(2,3) ident_start_continue by (subst ident_loop.simps) auto
  have "remaining (ident_loop lx) < remaining lx"
    using extends_remaining [OF extends_ident_loop [OF extends_refl], of "advance_n lx width"] w assms(4)
    by (simp add: i remaining_advance_n at_end_remaining)
  moreover obtain k where "count_run (ident_loop lx) c_hat 0 = (k, lx')"
    using assms(1) by (auto simp: scan_identifier_def split: prod.splits if_splits)
  ultimately show ?thesis
    using count_run_remaining [of "ident_loop lx" c_hat 0 k lx'] loop_mode(1) [of "ident_loop lx" c_hat 0 k lx']
    by auto
qed

lemma string_loops_move:
  "name_literal_loop (advance lx) = (lx', b) \<Longrightarrow> \<not> at_end lx \<Longrightarrow> remaining lx' < remaining lx"
  "escaped_string_loop (advance lx) = (lx', b) \<Longrightarrow> \<not> at_end lx \<Longrightarrow> remaining lx' < remaining lx"
  "raw_string_loop (advance lx) = (lx', b) \<Longrightarrow> \<not> at_end lx \<Longrightarrow> remaining lx' < remaining lx"
  by (metis extends_name_literal_loop extends_escaped_string_loop extends_raw_string_loop
      extends_refl fst_conv moved_advance)+

lemma strings_move:
  "scan_name_literal lx start = (t, lx') \<Longrightarrow> \<not> at_end lx \<Longrightarrow>
   remaining lx' < remaining lx \<and> mode lx' = mode lx"
  "scan_escaped_string lx start = (t, lx') \<Longrightarrow> \<not> at_end lx \<Longrightarrow>
   remaining lx' < remaining lx \<and> mode lx' = mode lx"
  "scan_raw_string lx start = (t, lx') \<Longrightarrow> \<not> at_end lx \<Longrightarrow>
   remaining lx' < remaining lx \<and> mode lx' = mode lx"
  by (auto simp: scan_name_literal_def scan_escaped_string_def scan_raw_string_def Let_def
      dest: loop_mode string_loops_move split: prod.splits if_splits)

lemma line_string_moves:
  "scan_line_string lx start = (t, lx') \<Longrightarrow> \<not> at_end lx \<Longrightarrow>
   remaining lx' < remaining lx \<and> mode lx' = mode lx"
  using extends_remaining [OF extends_push_until [OF extends_refl], of "advance_n lx 3" c_newline]
  by (auto simp: scan_line_string_def Let_def remaining_advance_n at_end_remaining)

text \<open>A number begins with a digit, so what \<open>number.c\<close> reads of it is not empty.\<close>

lemma scan_digits_forward: "fst (scan_digits s base p prev digits malformed) \<ge> p"
proof (induction s base p prev digits malformed rule: scan_digits.induct)
  case (1 s base p prev digits malformed)
  show ?case by (subst scan_digits.simps) (use 1 in \<open>auto simp: Let_def\<close>)
qed

lemma scan_digit_run_forward: "scan_digit_run s base p = (p', d, m) \<Longrightarrow> p \<le> p'"
  using scan_digits_forward [of p s base False 0 False] by (simp add: scan_digit_run_def)

lemma scan_digit_run_first:
  assumes "scan_digit_run s base p = (p', d, m)" "is_digit_of_base (reader_byte s p) base"
  shows "p < p'"
proof -
  have "reader_byte s p \<noteq> c_underscore" using assms(2) by auto
  then have "scan_digits s base p False 0 False = scan_digits s base (p + 1) True 1 False"
    using assms(2) by (subst scan_digits.simps) (simp add: Let_def)
  then show ?thesis
    using assms(1) scan_digits_forward [of "p + 1" s base True 1 False]
    by (simp add: scan_digit_run_def)
qed

lemma number_value_length [simp]: "num_length (number_value s base f p d b) = p"
  by (auto simp: number_value_def Let_def split: prod.splits)

lemma number_fraction_forward: "number_fraction s p bad = (p', f, b) \<Longrightarrow> p \<le> p'"
  by (auto simp: number_fraction_def dest: scan_digit_run_forward split: if_splits prod.splits)

lemma number_literal_length:
  assumes "is_decimal_digit (reader_byte s 0)"
  shows "0 < num_length (lhat_number_literal s after_dot)"
proof (cases after_dot)
  case True
  then show ?thesis
    using assms by (auto simp: lhat_number_literal_def is_decimal_digit_def is_digit_of_base_def
        dest: scan_digit_run_first split: prod.splits)
next
  case False
  show ?thesis
  proof (cases "number_marker s = 10")
    case True
    obtain a d m where r: "scan_digit_run s 10 0 = (a, d, m)" by (metis prod_cases3)
    have "0 < a"
      using scan_digit_run_first [OF r] assms by (simp add: is_decimal_digit_def is_digit_of_base_def)
    with False True r show ?thesis
      by (auto simp: lhat_number_literal_def Let_def dest!: number_fraction_forward scan_digit_run_forward
          split: prod.splits)
  next
    case mk: False
    obtain a d m where r: "scan_digit_run s (number_marker s) 2 = (a, d, m)" by (metis prod_cases3)
    have "2 \<le> a" using scan_digit_run_forward [OF r] .
    with False mk r show ?thesis by (simp add: lhat_number_literal_def Let_def)
  qed
qed

lemma number_moves:
  assumes "scan_number lx (mark lx) = (t, lx')" "is_decimal_digit (current_byte lx)" "\<not> at_end lx"
  shows "remaining lx' < remaining lx \<and> mode lx' = mode lx"
proof -
  define n where "n = num_length (lhat_number_literal (drop (lx_pos lx) (lx_source lx)) (lx_after_dot lx))"
  have "is_decimal_digit (reader_byte (drop (lx_pos lx) (lx_source lx)) 0)"
    using assms(2,3) by (simp add: reader_byte_def current_byte_def at_end_def)
  then have "0 < n" unfolding n_def by (rule number_literal_length)
  then have a: "remaining (advance_n lx n) < remaining lx"
    using assms(3) by (auto simp: remaining_advance_n at_end_remaining)
  have "remaining (ident_loop (report (advance_n lx n) code)) \<le> remaining (advance_n lx n)" for code
    using extends_remaining [OF extends_ident_loop [OF extends_report [OF extends_refl]]] .
  then have "remaining (ident_loop (report (advance_n lx n) code)) < remaining lx" for code
    using a le_less_trans by blast
  with a show ?thesis
    using assms(1) unfolding scan_number_def Let_def mark_def Mark.select_convs n_def [symmetric]
    by (auto split: prod.splits if_splits)
qed

subsection \<open>One token\<close>

lemma current_cp_some:
  "\<not> at_end lx \<Longrightarrow> current_cp lx = (cp, width) \<Longrightarrow> 0 < width"
  using decode_utf8_width [of "drop (lx_pos lx) (lx_source lx)" cp width]
  by (auto simp: current_cp_def at_end_def)

lemma operator_nonempty: "(e, op) \<in> set operator_table \<Longrightarrow> e \<noteq> []"
  by (auto simp: operator_table_def)

lemma find_in: "List.find P xs = Some x \<Longrightarrow> x \<in> set xs \<and> P x"
  by (auto simp: find_Some_iff in_set_conv_nth)

lemma match_operator_nonempty: "match_operator lx = Some (e, op) \<Longrightarrow> 0 < length e"
  using operator_nonempty find_in by (fastforce simp: match_operator_def)

text \<open>Which way the token was made: by \<open>scan_dollar\<close>, by one of the scanners and reports that
  leave the mode alone, or as an operator.\<close>

lemma scan_token_cases:
  assumes "scan_token lx = (t, lx')" "\<not> at_end lx"
  obtains
    (dollar) "current_byte lx = c_dollar" "scan_dollar lx (mark lx) = (t, lx')"
  | (scanner) "remaining lx' < remaining lx" "mode lx' = mode lx" "scanned lx lx' t"
proof -
  obtain cp width where c: "current_cp lx = (cp, width)" by fastforce
  have w: "0 < width" using current_cp_some [OF assms(2) c] .
  have made: thesis if "remaining lx' < remaining lx \<and> mode lx' = mode lx" "scanned lx lx' t"
    using that by (intro scanner) auto
  have r: "0 < remaining lx" using assms(2) by (simp add: at_end_remaining)
  have failed: thesis if "(t, lx') = (finish lx1 (mark lx) LHAT_TOKEN_ERROR, lx1)"
    "lx1 = advance_n (report lx code) n" "0 < n" for lx1 n code
    using that r by (intro made) (auto simp: remaining_advance_n intro!: scanned_error lexer_mono)
  have failed1: thesis if "(t, lx') = (finish lx1 (mark lx) LHAT_TOKEN_ERROR, lx1)"
    "lx1 = advance (report lx code)" for lx1 code
    by (rule failed [of lx1 code 1]) (use that in simp_all)
  note eq = assms(1) [unfolded scan_token_def Let_def c prod.case]
  show thesis
  proof (cases "cp = LHAT_CP_INVALID")
    case True with eq show thesis by (intro failed1) auto
  next
    case False note eq = eq [unfolded if_not_P [OF this]]
    show thesis
    proof (cases "current_byte lx = c_dquote")
      case True then show thesis
        using eq assms(2) by (intro made)
          (auto dest: line_string_moves strings_move(2) scanned_line_string scanned_escaped_string
            split: if_splits)
    next
      case False note eq = eq [unfolded if_not_P [OF this]]
      consider "current_byte lx = c_quote" "scan_raw_string lx (mark lx) = (t, lx')"
        | "current_byte lx = c_backtick" "scan_name_literal lx (mark lx) = (t, lx')"
        | "current_byte lx = c_at" "scan_annotation lx (mark lx) = (t, lx')"
        | "current_byte lx = c_dollar" "scan_dollar lx (mark lx) = (t, lx')"
        | "is_decimal_digit (current_byte lx)" "scan_number lx (mark lx) = (t, lx')"
        | "is_ident_start cp" "scan_identifier lx (mark lx) = (t, lx')"
        | "current_byte lx = c_hat" "\<not> is_ident_start cp"
        | "current_byte lx \<noteq> c_hat" "\<not> is_ident_start cp" "current_byte lx \<noteq> c_quote"
          "current_byte lx \<noteq> c_backtick" "current_byte lx \<noteq> c_at" "current_byte lx \<noteq> c_dollar"
          "\<not> is_decimal_digit (current_byte lx)"
        using eq by (auto split: if_splits)
      then show thesis
      proof cases
        case 1 then show thesis using assms(2) by (intro made strings_move(3) scanned_raw_string)
      next
        case 2 then show thesis using assms(2) by (intro made strings_move(1) scanned_name_literal)
      next
        case 3 then show thesis using assms(2) by (intro made annotation_moves scanned_annotation)
      next
        case 4 then show thesis by (rule dollar)
      next
        case 5 then show thesis using assms(2) by (intro made number_moves scanned_number)
      next
        case 6 then show thesis
          using assms(2) c by (intro made) (auto dest: identifier_moves scanned_identifier)
      next
        case 7 then show thesis using eq by (intro failed1) (auto simp: is_decimal_digit_def)
      next
        case 8 note eq = eq [unfolded if_not_P [OF 8(3)] if_not_P [OF 8(4)] if_not_P [OF 8(5)]
            if_not_P [OF 8(6)] if_not_P [OF 8(7)] if_not_P [OF 8(2)] if_not_P [OF 8(1)]]
        show thesis
        proof (cases "match_operator lx")
          case None with eq w show thesis by (intro failed) auto
        next
          case (Some found)
          obtain e op where found: "found = (e, op)" by fastforce
          with Some have "0 < length e" using match_operator_nonempty by blast
          then show thesis using eq r unfolding Some found option.case prod.case
            by (intro made) (auto simp: remaining_advance_n intro!: scanned_finish lexer_mono)
        qed
      qed
    qed
  qed
qed

lemma scan_token_scanned: "scan_token lx = (t, lx') \<Longrightarrow> \<not> at_end lx \<Longrightarrow> scanned lx lx' t"
  by (erule scan_token_cases) (auto intro: scanned_dollar)

lemma scan_token_work:
  "scan_token lx = (t, lx') \<Longrightarrow> \<not> at_end lx \<Longrightarrow> lexer_work lx' < lexer_work lx"
  by (erule scan_token_cases) (auto simp: lexer_work_def mode_def dest: dollar_work)

lemma scan_token_interp:
  "scan_token lx = (t, lx') \<Longrightarrow> \<not> at_end lx \<Longrightarrow> interp_ok lx \<Longrightarrow>
   \<not> inside_interpolated_text lx \<Longrightarrow> interp_ok lx'"
  by (erule scan_token_cases) (auto intro: dollar_interp interp_ok_mode mode_interp)

subsection \<open>The braces of a hole and the flags\<close>

lemma track_braces_frame [simp]:
  "remaining (track_braces t lx) = remaining lx"
  "length (lx_interp (track_braces t lx)) = length (lx_interp lx)"
  "lx_pos (track_braces t lx) = lx_pos lx"
  by (auto simp: track_braces_def remaining_def split: list.splits)

lemma track_braces_ok: "interp_ok lx \<Longrightarrow> interp_ok (track_braces t lx)"
  by (auto simp: track_braces_def interp_ok_def inside_interpolation_hole_def split: list.splits)

lemma scanned_track_braces: "scanned lx lx' t \<Longrightarrow> scanned lx (track_braces u lx') t"
  by (auto simp: track_braces_def intro: scanned_interp split: list.splits)

lemma flags_frame [simp]:
  "remaining (set_flags t lx) = remaining lx" "remaining (clear_flags lx) = remaining lx"
  "lx_interp (set_flags t lx) = lx_interp lx" "lx_interp (clear_flags lx) = lx_interp lx"
  "lx_pos (set_flags t lx) = lx_pos lx" "lx_pos (clear_flags lx) = lx_pos lx"
  "lx_source (set_flags t lx) = lx_source lx" "lx_source (clear_flags lx) = lx_source lx"
  "lexer_work (set_flags t lx) = lexer_work lx" "lexer_work (clear_flags lx) = lexer_work lx"
  "interp_ok (set_flags t lx) = interp_ok lx" "interp_ok (clear_flags lx) = interp_ok lx"
  by (simp_all add: set_flags_def clear_flags_def remaining_def lexer_work_def interp_ok_def)

subsection \<open>The end of a hole\<close>

lemma scan_hole_end_cases:
  assumes "scan_hole_end lx = Some (t, lx')"
  obtains (close) "inside_interpolation_hole lx" "current_byte lx = c_rbrace"
      "lx' = clear_flags (advance lx\<lparr>lx_interp := tl (lx_interp lx)\<rparr>)"
      "t = finish lx' (mark lx) LHAT_TOKEN_INTERP_EXPR_END"
  | (format) lx1 where "inside_interpolation_hole lx" "current_byte lx = c_colon"
      "scan_interpolation_format lx = (t, lx1)" "lx' = clear_flags lx1"
  using assms by (auto simp: scan_hole_end_def Let_def split: if_splits prod.splits)

lemma format_facts:
  assumes "scan_interpolation_format lx = (t, lx1)" "current_byte lx = c_colon"
  shows "remaining lx1 < remaining lx" "mode lx1 = mode lx" "scanned lx lx1 t"
    "tok_kind t = LHAT_TOKEN_INTERP_FORMAT"
proof -
  have lx1: "lx1 = push_until (advance lx) c_rbrace"
    and t: "tok_kind t = LHAT_TOKEN_INTERP_FORMAT"
    using assms(1) by (auto simp: scan_interpolation_format_def Let_def with_string_def finish_def)
  have "\<not> at_end lx" using assms(2) by (auto simp: current_byte_def)
  then show "remaining lx1 < remaining lx" "mode lx1 = mode lx"
    unfolding lx1 by (auto intro!: moved_advance lexer_mono)
  show "scanned lx lx1 t" using assms(1) by (rule scanned_format)
  show "tok_kind t = LHAT_TOKEN_INTERP_FORMAT" by (rule t)
qed

subsection \<open>One call\<close>

text \<open>Where the token of a call begins: inside a string nothing is skipped.\<close>

definition token_start :: "LhatLexer \<Rightarrow> LhatLexer" where
  "token_start lx = (if inside_interpolated_text lx then lx else skip_trivia lx)"

lemma token_start_extends: "extends lx (token_start lx)"
  by (auto simp: token_start_def intro: lexer_mono)

lemma token_start_interp [simp]: "lx_interp (token_start lx) = lx_interp lx"
  by (simp add: token_start_def)

lemma token_start_inside [simp]:
  "inside_interpolated_text (token_start lx) = inside_interpolated_text lx"
  "interp_ok (token_start lx) = interp_ok lx"
  by (simp_all add: inside_interpolated_text_def interp_ok_def)

lemma lexer_next_cases:
  assumes "lhat_lexer_next lx = (t, lx')"
  obtains
    (segment) lx1 where "inside_interpolated_text lx"
      "scan_interpolation_segment lx = (t, lx1)" "lx' = clear_flags lx1"
  | (hole_end) "\<not> inside_interpolated_text lx" "scan_hole_end (token_start lx) = Some (t, lx')"
  | (eof) "\<not> inside_interpolated_text lx" "scan_hole_end (token_start lx) = None"
      "at_end (token_start lx)"
      "t = finish (token_start lx) (mark (token_start lx)) LHAT_TOKEN_EOF"
      "lx' = clear_flags (token_start lx)"
  | (token) lx1 where "\<not> inside_interpolated_text lx" "scan_hole_end (token_start lx) = None"
      "\<not> at_end (token_start lx)" "scan_token (token_start lx) = (t, lx1)"
      "lx' = set_flags t (track_braces t lx1)"
  using assms unfolding lhat_lexer_next_def token_start_def Let_def
  by (auto split: if_splits option.splits prod.splits)

lemma finish_kinds [simp]: "tok_kind (finish lx m k) = k"
  by (simp add: finish_def)

lemma next_interp_ok:
  assumes "lhat_lexer_next lx = (t, lx')" "interp_ok lx"
  shows "interp_ok lx'"
  using assms(1)
proof (cases rule: lexer_next_cases)
  case segment then show ?thesis using assms(2) by (auto dest: segment_ok)
next
  case hole_end
  from hole_end(2) show ?thesis
  proof (cases rule: scan_hole_end_cases)
    case close
    then show ?thesis using assms(2) by (auto intro!: interp_ok_tl [of lx])
  next
    case (format lx1)
    then show ?thesis
      using assms(2) format_facts(2) [OF format(3,2)]
      by (auto intro!: interp_ok_mode [of lx] dest: mode_interp)
  qed
next
  case eof then show ?thesis using assms(2) by simp
next
  case token
  then show ?thesis using assms(2) scan_token_interp
    by (auto intro!: track_braces_ok)
qed

lemma next_work:
  assumes "lhat_lexer_next lx = (t, lx')" "interp_ok lx" "tok_kind t \<noteq> LHAT_TOKEN_EOF"
  shows "lexer_work lx' < lexer_work lx"
proof -
  have le: "lexer_work (token_start lx) \<le> lexer_work lx"
    using extends_remaining [OF token_start_extends, of lx] by (simp add: lexer_work_def)
  from assms(1) show ?thesis
  proof (cases rule: lexer_next_cases)
    case segment then show ?thesis using assms(2) by (auto dest: segment_work)
  next
    case hole_end
    from hole_end(2) have "lexer_work lx' < lexer_work (token_start lx)"
    proof (cases rule: scan_hole_end_cases)
      case close
      then show ?thesis
        using current_byte_end [of "token_start lx"]
        by (auto simp: lexer_work_def remaining_advance)
    next
      case (format lx1)
      then show ?thesis using format_facts [OF format(3,2)]
        by (simp add: lexer_work_def mode_def)
    qed
    with le show ?thesis by simp
  next
    case eof then show ?thesis using assms(3) by simp
  next
    case token
    then have "lexer_work lx' < lexer_work (token_start lx)"
      using scan_token_work by (fastforce simp: lexer_work_def)
    with le show ?thesis by simp
  qed
qed

text \<open>The token of a call lies between its start and the new cursor.\<close>

lemma next_placed:
  assumes "lhat_lexer_next lx = (t, lx')"
  shows "extends lx lx'" "extends (token_start lx) lx'" "token_placed (token_start lx) lx' t"
    "tok_kind t = LHAT_TOKEN_ERROR \<Longrightarrow> length (lx_diagnostics lx) < length (lx_diagnostics lx')"
    "tok_kind t = LHAT_TOKEN_EOF \<Longrightarrow> at_end lx' \<and> lx' = clear_flags (token_start lx)"
proof -
  have e0: "extends lx (token_start lx)" by (rule token_start_extends)
  have "extends (token_start lx) lx' \<and> token_placed (token_start lx) lx' t \<and>
     (tok_kind t = LHAT_TOKEN_ERROR \<longrightarrow>
        length (lx_diagnostics (token_start lx)) < length (lx_diagnostics lx')) \<and>
     (tok_kind t = LHAT_TOKEN_EOF \<longrightarrow> at_end lx' \<and> lx' = clear_flags (token_start lx))"
    using assms
  proof (cases rule: lexer_next_cases)
    case segment
    then show ?thesis
      using scanned_interp(2) [OF scanned_segment [OF segment(2)]]
      by (simp add: token_start_def scanned_def)
  next
    case hole_end
    from hole_end(2) show ?thesis
    proof (cases rule: scan_hole_end_cases)
      case close
      have "extends (token_start lx) (clear_flags (advance (token_start lx)\<lparr>lx_interp := fs\<rparr>))" for fs
        by (intro lexer_mono)
      with close show ?thesis
        by (simp add: token_placed_def finish_def mark_def advance_pos)
    next
      case (format lx1)
      then show ?thesis
        using scanned_interp(2) [OF format_facts(3) [OF format(3,2)]] by (simp add: scanned_def)
    qed
  next
    case eof
    then show ?thesis
      by (auto simp: token_placed_def finish_def mark_def at_end_def intro: lexer_mono)
  next
    case (token lx1)
    then show ?thesis
      using scanned_interp(3) [OF scanned_track_braces [OF scan_token_scanned [OF token(4,3)]]]
      by (simp add: scanned_def)
  qed
  with e0 show "extends lx lx'" "extends (token_start lx) lx'" "token_placed (token_start lx) lx' t"
    "tok_kind t = LHAT_TOKEN_ERROR \<Longrightarrow> length (lx_diagnostics lx) < length (lx_diagnostics lx')"
    "tok_kind t = LHAT_TOKEN_EOF \<Longrightarrow> at_end lx' \<and> lx' = clear_flags (token_start lx)"
    using extends_diagnostics [OF e0] by (auto intro: extends_trans)
qed

subsection \<open>The end of the file is reported for ever\<close>

lemma skip_trivia_at_end: "at_end lx \<Longrightarrow> skip_trivia lx = lx"
  by (subst skip_trivia.simps) (simp add: current_byte_def)

lemma next_at_end:
  assumes "at_end lx" "\<not> inside_interpolated_text lx" "\<not> lx_pending_stmt_start lx" "\<not> lx_after_dot lx"
  shows "lhat_lexer_next lx = (finish lx (mark lx) LHAT_TOKEN_EOF, lx)"
proof -
  have "scan_hole_end lx = None" using assms(1) by (simp add: scan_hole_end_def current_byte_def)
  moreover have "clear_flags lx = lx" using assms(3,4) by (cases lx) (simp add: clear_flags_def)
  ultimately show ?thesis
    using assms(1,2) by (simp add: lhat_lexer_next_def skip_trivia_at_end Let_def)
qed

lemma next_eof_not_inside:
  assumes "lhat_lexer_next lx = (t, lx')" "tok_kind t = LHAT_TOKEN_EOF"
  shows "\<not> inside_interpolated_text lx"
  using assms(1)
proof (cases rule: lexer_next_cases)
  case segment
  then show ?thesis using scanned_segment [OF segment(2)] assms(2) by (simp add: scanned_def)
qed auto

lemma next_eof_stable:
  assumes "lhat_lexer_next lx = (t, lx')" "tok_kind t = LHAT_TOKEN_EOF"
  shows "lhat_lexer_next lx' = (finish lx' (mark lx') LHAT_TOKEN_EOF, lx')"
proof (rule next_at_end)
  have l: "lx' = clear_flags (token_start lx)" and e: "at_end lx'"
    using next_placed(5) [OF assms] by auto
  show "at_end lx'" by (rule e)
  show "\<not> lx_pending_stmt_start lx'" "\<not> lx_after_dot lx'" by (simp_all add: l clear_flags_def)
  show "\<not> inside_interpolated_text lx'"
    using next_eof_not_inside [OF assms] by (simp add: l inside_interpolated_text_def)
qed

end
