(* ===== verification/Lhat_TokenStream.thy ===== *)
theory Lhat_TokenStream
  imports Lhat_LexerNext
begin

text \<open>
  The token stream and its reader: the contract that a client of the lexer relies on (every
  token but the last does some work), and the loop of \<open>reading_init\<close> (\<open>src/format.c\<close>), which
  keeps asking for tokens until the end of the file.
\<close>

subsection \<open>The loop of a client\<close>

text \<open>The loop may not end, as far as its code tells: None is a run for ever.\<close>

partial_function (option) read_until_end ::
    "('s \<Rightarrow> 't \<times> 's) \<Rightarrow> ('t \<Rightarrow> bool) \<Rightarrow> 's \<Rightarrow> ('t list \<times> 's) option" where
  "read_until_end nxt is_end s =
     (case nxt s of (t, s') \<Rightarrow>
        if is_end t then Some ([], s')
        else Option.bind (read_until_end nxt is_end s') (\<lambda>(ts, s''). Some (t # ts, s'')))"

definition is_eof :: "LhatToken \<Rightarrow> bool" where
  "is_eof t \<longleftrightarrow> tok_kind t = LHAT_TOKEN_EOF"

text \<open>The tokens of \<open>reading_init\<close>, up to and excluding the end of the file.\<close>

definition reading_tokens :: "LhatLexer \<Rightarrow> (LhatToken list \<times> LhatLexer) option" where
  "reading_tokens lx = read_until_end lhat_lexer_next is_eof lx"

text \<open>The states that calls lead through.\<close>

inductive reads :: "('s \<Rightarrow> 't \<times> 's) \<Rightarrow> 's \<Rightarrow> 't list \<Rightarrow> 's \<Rightarrow> bool" for nxt where
  reads_none: "reads nxt s [] s"
| reads_one: "nxt s = (t, s1) \<Longrightarrow> reads nxt s1 ts s2 \<Longrightarrow> reads nxt s (t # ts) s2"

inductive_cases reads_NilE: "reads nxt s [] s'"
inductive_cases reads_ConsE: "reads nxt s (t # ts) s'"

subsection \<open>The contract of a token source\<close>

text \<open>What the source promises: a state stays good, and a token that is not the last leaves less
  to do.\<close>

locale token_source =
  fixes nxt :: "'s \<Rightarrow> 't \<times> 's"
    and is_end :: "'t \<Rightarrow> bool"
    and good :: "'s \<Rightarrow> bool"
    and work :: "'s \<Rightarrow> nat"
  assumes good_next: "good s \<Longrightarrow> nxt s = (t, s') \<Longrightarrow> good s'"
    and work_next: "good s \<Longrightarrow> nxt s = (t, s') \<Longrightarrow> \<not> is_end t \<Longrightarrow> work s' < work s"
begin

lemma reads_good: "reads nxt s ts s' \<Longrightarrow> good s \<Longrightarrow> good s'"
  by (induction rule: reads.induct) (auto intro: good_next)

lemma reads_work:
  "reads nxt s ts s' \<Longrightarrow> good s \<Longrightarrow> \<forall>t \<in> set ts. \<not> is_end t \<Longrightarrow> work s' + length ts \<le> work s"
  by (induction rule: reads.induct) (fastforce dest: good_next work_next)+

lemma read_returns:
  assumes "good s"
  shows "\<exists>ts s1 t s2. read_until_end nxt is_end s = Some (ts, s2) \<and> reads nxt s ts s1 \<and>
     (\<forall>t \<in> set ts. \<not> is_end t) \<and> nxt s1 = (t, s2) \<and> is_end t"
  using assms
proof (induction "work s" arbitrary: s rule: less_induct)
  case less
  obtain t s' where n: "nxt s = (t, s')" by fastforce
  show ?case
  proof (cases "is_end t")
    case True
    then show ?thesis
      using n by (subst read_until_end.simps) (auto intro!: exI [of _ "[]"] exI [of _ s] reads_none)
  next
    case False
    from less(1) [OF work_next [OF less(2) n False] good_next [OF less(2) n]]
    obtain ts s1 u s2 where r: "read_until_end nxt is_end s' = Some (ts, s2)"
      "reads nxt s' ts s1" "\<forall>t \<in> set ts. \<not> is_end t" "nxt s1 = (u, s2)" "is_end u"
      by blast
    have "read_until_end nxt is_end s = Some (t # ts, s2)"
      using n False r(1) by (subst read_until_end.simps) simp
    moreover have "reads nxt s (t # ts) s1" using n r(2) by (rule reads_one)
    ultimately show ?thesis using r(3-5) False by (metis set_ConsD)
  qed
qed

lemma read_bounded:
  assumes "good s" "read_until_end nxt is_end s = Some (ts, s2)"
  shows "length ts \<le> work s"
proof -
  obtain s1 where "reads nxt s ts s1" "\<forall>t \<in> set ts. \<not> is_end t"
    using read_returns [OF assms(1)] assms(2) by auto
  then show ?thesis using reads_work assms(1) by fastforce
qed

end

subsection \<open>The lexer keeps the contract\<close>

interpretation lexer: token_source lhat_lexer_next is_eof interp_ok lexer_work
  by unfold_locales (auto simp: is_eof_def intro: next_interp_ok next_work)

lemma init_interp_ok [simp]: "interp_ok (lhat_lexer_init src)"
  by (simp add: interp_ok_def lhat_lexer_init_def)

lemma init_work [simp]: "lexer_work (lhat_lexer_init src) = 2 * length (src_text src)"
  by (simp add: lexer_work_def lhat_lexer_init_def remaining_def)

lemma init_ok [simp]: "lexer_ok (lhat_lexer_init src)"
  by (simp add: lexer_ok_def lexer_placed_def lhat_lexer_init_def)

text \<open>Along any sequence of calls.\<close>

lemma reads_extends: "reads lhat_lexer_next lx ts lx' \<Longrightarrow> extends lx lx'"
  by (induction rule: reads.induct) (auto intro: extends_refl extends_trans next_placed(1))

lemma reads_extends_init:
  assumes "reads lhat_lexer_next (lhat_lexer_init src) ts lx"
  shows "lexer_ok lx" "interp_ok lx" "lx_source lx = src_text src"
  using reads_extends [OF assms] lexer.reads_good [OF assms]
  by (auto simp: extends_def) (simp add: lhat_lexer_init_def)

lemma reads_append:
  "reads nxt s (ts @ us) s2 \<longleftrightarrow> (\<exists>s1. reads nxt s ts s1 \<and> reads nxt s1 us s2)"
proof (induction ts arbitrary: s)
  case Nil
  then show ?case by (auto intro: reads_none elim: reads_NilE)
next
  case (Cons t ts)
  then show ?case by (fastforce intro: reads_one elim: reads_ConsE)
qed

subsection \<open>Newlines and \<open>may_start_stmt\<close>\<close>

text \<open>The bytes between two states of the lexer.\<close>

definition between :: "LhatLexer \<Rightarrow> LhatLexer \<Rightarrow> byte list" where
  "between lx lx' = drop (lx_pos lx) (take (lx_pos lx') (lx_source lx))"

text \<open>\<open>pending_stmt_start\<close> records a newline crossed since \<open>lx0\<close>.\<close>

definition pending_tracks :: "LhatLexer \<Rightarrow> LhatLexer \<Rightarrow> bool" where
  "pending_tracks lx0 lx \<longleftrightarrow>
     lx_source lx = lx_source lx0 \<and> lx_pos lx0 \<le> lx_pos lx \<and>
     lx_pending_stmt_start lx = (lx_pending_stmt_start lx0 \<or> c_newline \<in> set (between lx0 lx))"

lemma pending_tracks_refl: "pending_tracks lx lx"
  by (simp add: pending_tracks_def between_def)

lemma between_advance:
  "lx_source lx = lx_source lx0 \<Longrightarrow> lx_pos lx0 \<le> lx_pos lx \<Longrightarrow>
   between lx0 (advance lx) = between lx0 lx @ (if at_end lx then [] else [current_byte lx])"
  by (auto simp: between_def advance_pos current_byte_def at_end_def take_Suc_conv_app_nth)

lemma pending_tracks_advance:
  "pending_tracks lx0 lx \<Longrightarrow> current_byte lx \<noteq> c_newline \<Longrightarrow> pending_tracks lx0 (advance lx)"
  "pending_tracks lx0 lx \<Longrightarrow> current_byte lx = c_newline \<Longrightarrow>
   pending_tracks lx0 (advance (lx\<lparr>lx_pending_stmt_start := True\<rparr>))"
proof -
  have e: "current_byte lx = c_newline \<Longrightarrow> \<not> at_end lx" by (auto simp: current_byte_def)
  have b: "between lx0 (advance (lx\<lparr>lx_pending_stmt_start := x\<rparr>)) = between lx0 (advance lx)" for x
    by (simp add: between_def advance_pos)
  have p: "lx_pos lx \<le> lx_pos (advance lx)" "lx_pos (advance (lx\<lparr>lx_pending_stmt_start := x\<rparr>)) = lx_pos (advance lx)" for x
    by (simp_all add: advance_pos)
  show "pending_tracks lx0 lx \<Longrightarrow> current_byte lx \<noteq> c_newline \<Longrightarrow> pending_tracks lx0 (advance lx)"
    using p(1) by (auto simp: pending_tracks_def between_advance)
  show "pending_tracks lx0 lx \<Longrightarrow> current_byte lx = c_newline \<Longrightarrow>
     pending_tracks lx0 (advance (lx\<lparr>lx_pending_stmt_start := True\<rparr>))"
    using p e unfolding pending_tracks_def b by (auto simp: between_advance)
qed

lemma pending_tracks_frame:
  "pending_tracks lx0 lx \<Longrightarrow> pending_tracks lx0 (record_comment lx off line col b)"
  "pending_tracks lx0 lx \<Longrightarrow> pending_tracks lx0 (report_at lx code off line col)"
  by (auto simp: pending_tracks_def between_def record_comment_def report_at_def)

lemma pending_tracks_two:
  assumes "pending_tracks lx0 lx" "current_byte lx \<noteq> c_newline" "byte_at lx 1 \<noteq> c_newline"
  shows "pending_tracks lx0 (advance_n lx 2)"
proof -
  have "current_byte (advance lx) \<noteq> c_newline"
    using assms(2,3) by (auto simp: current_byte_def byte_at_def advance_pos at_end_def split: if_splits)
  then show ?thesis
    using assms(1,2) by (simp add: numeral_2_eq_2 pending_tracks_advance)
qed

lemma pending_tracks_block_loop:
  "pending_tracks lx0 lx \<Longrightarrow> pending_tracks lx0 (fst (block_comment_loop lx depth))"
proof (induction lx depth rule: block_comment_loop.induct)
  case (1 lx depth)
  have two: "pending_tracks lx0 (advance_n lx 2)"
    if "current_byte lx = c_hash \<and> byte_at lx 1 = c_lbracket \<or>
        current_byte lx = c_rbracket \<and> byte_at lx 1 = c_hash"
    using that by (intro pending_tracks_two 1) auto
  note step = pending_tracks_advance [OF \<open>pending_tracks lx0 lx\<close>]
  from 1 two step show ?case
    by (subst block_comment_loop.simps) (auto simp: Let_def)
qed

lemma pending_tracks_skip_line:
  "pending_tracks lx0 lx \<Longrightarrow> pending_tracks lx0 (skip_line lx)"
proof (induction lx rule: skip_line.induct)
  case (1 lx)
  then show ?case by (subst skip_line.simps) (auto intro: pending_tracks_advance)
qed

lemma pending_tracks_skip_trivia:
  "pending_tracks lx0 lx \<Longrightarrow> pending_tracks lx0 (skip_trivia lx)"
proof (induction lx rule: skip_trivia.induct)
  case (1 lx)
  have line: "pending_tracks lx0 (skip_line_comment lx)"
    unfolding skip_line_comment_def by (intro pending_tracks_frame pending_tracks_skip_line 1)
  have block: "pending_tracks lx0 (skip_block_comment lx)"
    if "current_byte lx = c_hash" "byte_at lx 1 = c_lbracket"
    using pending_tracks_block_loop [OF pending_tracks_two [OF 1(4)], of 1] that
    by (auto simp: skip_block_comment_def Let_def intro!: pending_tracks_frame split: prod.splits)
  note step = pending_tracks_advance [OF 1(4)]
  from 1 line block step show ?case
    by (subst skip_trivia.simps) (auto simp: Let_def)
qed

lemma token_start_pending:
  "\<not> inside_interpolated_text lx \<Longrightarrow>
   lx_pending_stmt_start (token_start lx) =
     (lx_pending_stmt_start lx \<or> c_newline \<in> set (between lx (token_start lx)))"
  using pending_tracks_skip_trivia [OF pending_tracks_refl, of lx]
  by (simp add: token_start_def pending_tracks_def)

text \<open>What a call leaves in the flags, and the flag of its token.\<close>

lemma segment_not_op:
  "scan_interpolation_segment lx = (t, lx') \<Longrightarrow> tok_kind t \<noteq> LHAT_TOKEN_OP"
  by (auto simp: scan_interpolation_segment_def with_string_def Let_def split: if_splits)

lemma next_flags:
  assumes "lhat_lexer_next lx = (t, lx')"
  shows "lx_pending_stmt_start lx' = token_is_op t LHAT_OP_SEMICOLON"
    "lx_after_dot lx' = (token_is_op t LHAT_OP_DOT \<or> token_is_op t LHAT_OP_NIL_DOT)"
    "tok_kind t \<noteq> LHAT_TOKEN_INTERP_EXPR_END \<Longrightarrow>
       tok_may_start_stmt t = lx_pending_stmt_start (token_start lx)"
proof -
  have "lx_pending_stmt_start lx' = token_is_op t LHAT_OP_SEMICOLON \<and>
     lx_after_dot lx' = (token_is_op t LHAT_OP_DOT \<or> token_is_op t LHAT_OP_NIL_DOT) \<and>
     (tok_kind t \<noteq> LHAT_TOKEN_INTERP_EXPR_END \<longrightarrow>
       tok_may_start_stmt t = lx_pending_stmt_start (token_start lx))"
    using assms
  proof (cases rule: lexer_next_cases)
    case (segment lx1)
    then show ?thesis
      using segment_not_op [OF segment(2)] scanned_segment [OF segment(2)]
      by (simp add: clear_flags_def token_is_op_def scanned_def token_start_def)
  next
    case hole_end
    from hole_end(2) show ?thesis
    proof (cases rule: scan_hole_end_cases)
      case close
      then show ?thesis by (simp add: clear_flags_def token_is_op_def)
    next
      case (format lx1)
      then show ?thesis using format_facts(3,4) [OF format(3,2)]
        by (simp add: clear_flags_def token_is_op_def scanned_def)
    qed
  next
    case eof
    then show ?thesis by (simp add: clear_flags_def token_is_op_def finish_def)
  next
    case (token lx1)
    then show ?thesis using scan_token_scanned [OF token(4,3)]
      by (simp add: set_flags_def scanned_def)
  qed
  then show "lx_pending_stmt_start lx' = token_is_op t LHAT_OP_SEMICOLON"
    "lx_after_dot lx' = (token_is_op t LHAT_OP_DOT \<or> token_is_op t LHAT_OP_NIL_DOT)"
    "tok_kind t \<noteq> LHAT_TOKEN_INTERP_EXPR_END \<Longrightarrow>
       tok_may_start_stmt t = lx_pending_stmt_start (token_start lx)"
    by auto
qed

end
