(* ===== verification/Lhat_LexerTrips.thy ===== *)
theory Lhat_LexerTrips
  imports Lhat_TokenStream
begin

text \<open>
  What the lexer reads back of what a writer put down: raw strings, name literals, escaped
  strings, identifiers, integers and operators.  The facts are about \<open>rest_of\<close>, the text from
  the cursor on, so that they hold wherever in a file a token stands.
\<close>

subsection \<open>The text from the cursor on\<close>

definition rest_of :: "LhatLexer \<Rightarrow> byte list" where
  "rest_of lx = drop (lx_pos lx) (lx_source lx)"

lemma rest_of_end: "at_end lx \<longleftrightarrow> rest_of lx = []"
  by (simp add: rest_of_def at_end_def)

lemma rest_of_byte: "current_byte lx = reader_byte (rest_of lx) 0"
  "byte_at lx n = reader_byte (rest_of lx) n"
  by (auto simp: rest_of_def current_byte_def byte_at_def reader_byte_def at_end_def Let_def)

lemma rest_of_cp: "current_cp lx = (if rest_of lx = [] then (0, 0) else decode_utf8 (rest_of lx))"
  by (auto simp: current_cp_def at_end_def rest_of_def)

lemma rest_of_advance [simp]: "rest_of (advance lx) = tl (rest_of lx)"
  by (auto simp: rest_of_def advance_pos at_end_def tl_drop drop_Suc)

lemma rest_of_advance_n [simp]: "rest_of (advance_n lx n) = drop n (rest_of lx)"
  by (induction lx n rule: advance_n.induct) (auto simp: drop_Suc tl_drop)

lemma rest_of_frame [simp]:
  "rest_of (report_at lx code off line col) = rest_of lx"
  "rest_of (report lx code) = rest_of lx"
  "rest_of (report_mark lx code m) = rest_of lx"
  "rest_of (string_push lx bs) = rest_of lx"
  "rest_of (string_push_byte lx c) = rest_of lx"
  "rest_of (lx\<lparr>lx_interp := fs\<rparr>) = rest_of lx"
  "rest_of (clear_flags lx) = rest_of lx"
  "rest_of (set_flags t lx) = rest_of lx"
  by (simp_all add: rest_of_def clear_flags_def set_flags_def)

lemma rest_of_track_braces [simp]: "rest_of (track_braces t lx) = rest_of lx"
  by (auto simp: track_braces_def split: list.splits)

lemma strings_frame [simp]:
  "lx_strings (string_push lx bs) = lx_strings lx @ bs"
  "lx_strings (string_push_byte lx c) = lx_strings lx @ [c]"
  "lx_strings (report_mark lx code m) = lx_strings lx"
  "lx_strings (lx\<lparr>lx_interp := fs\<rparr>) = lx_strings lx"
  "lx_strings (clear_flags lx) = lx_strings lx"
  "lx_strings (set_flags t lx) = lx_strings lx"
  by (simp_all add: string_push_def string_push_byte_def report_mark_def report_at_def
      clear_flags_def set_flags_def)

lemma strings_advance_n [simp]: "lx_strings (advance_n lx n) = lx_strings lx"
  by (induction lx n rule: advance_n.induct) auto

lemma strings_track_braces [simp]: "lx_strings (track_braces t lx) = lx_strings lx"
  by (auto simp: track_braces_def split: list.splits)

text \<open>A call at a byte that is neither trivia nor the end of a hole goes to the scanners.\<close>

definition starts_token :: "byte \<Rightarrow> bool" where
  "starts_token c \<longleftrightarrow>
     c \<notin> {c_nul, c_space, c_tab, c_vtab, c_formfeed, c_newline, c_hash, c_rbrace, c_colon}"

lemma next_at_token:
  assumes "rest_of lx = c # r" "starts_token c" "\<not> inside_interpolated_text lx"
    "scan_token lx = (t, lx1)"
  shows "lhat_lexer_next lx = (t, set_flags t (track_braces t lx1))"
proof -
  have c: "current_byte lx = c" "\<not> at_end lx" using assms(1) by (simp_all add: rest_of_byte rest_of_end)
  then have "skip_trivia lx = lx"
    using assms(2) by (subst skip_trivia.simps) (auto simp: Let_def starts_token_def)
  moreover have "scan_hole_end lx = None" using c assms(2) by (auto simp: scan_hole_end_def starts_token_def)
  ultimately show ?thesis using assms(3,4) c by (simp add: lhat_lexer_next_def Let_def)
qed

text \<open>The bytes of a token that points at what was pushed, while nothing wraps around.\<close>

lemma string_of_pushed:
  assumes "lx_strings lx = before @ s @ extra" "length before + length s < 2 ^ 32"
    "tok_kind t \<in> {LHAT_TOKEN_STRING, LHAT_TOKEN_IDENT, LHAT_TOKEN_INTERP_TEXT, LHAT_TOKEN_INTERP_FORMAT}"
    "tok_v t = V_STRING k (word_of_nat (length before)) (word_of_nat (length s))"
  shows "lhat_lexer_string lx t = (if s = [] then None else Some s)"
proof -
  have u: "unat (word_of_nat (length before) :: u32) = length before"
    "unat (word_of_nat (length s) :: u32) = length s"
    using assms(2) by (simp_all add: unat_of_nat)
  have "(word_of_nat (length s) :: u32) = 0 \<longleftrightarrow> s = []"
    using u(2) by (metis length_0_conv unat_0 unat_eq_zero)
  with u show ?thesis using assms by (auto simp: lhat_lexer_string_def)
qed

subsection \<open>Raw strings and name literals\<close>

definition doubled :: "byte \<Rightarrow> byte list \<Rightarrow> byte list" where
  "doubled q s = concat (map (\<lambda>c. if c = q then [q, q] else [c]) s)"

lemma doubled_simps [simp]:
  "doubled q [] = []"
  "doubled q (c # s) = (if c = q then q # q # doubled q s else c # doubled q s)"
  by (simp_all add: doubled_def)

lemma raw_string_loop_reads:
  assumes "rest_of lx = doubled c_quote s @ c_quote # r" "reader_byte r 0 \<noteq> c_quote"
  shows "\<exists>lx'. raw_string_loop lx = (lx', True) \<and> rest_of lx' = r \<and>
     lx_strings lx' = lx_strings lx @ s"
  using assms(1)
proof (induction s arbitrary: lx)
  case Nil
  then show ?case using assms(2)
    by (subst raw_string_loop.simps) (simp add: rest_of_end rest_of_byte reader_byte_Cons)
next
  case (Cons c s)
  show ?case
  proof (cases "c = c_quote")
    case True
    with Cons.IH [of "advance_n (string_push_byte lx c_quote) 2"] Cons.prems show ?thesis
      by (subst raw_string_loop.simps) (simp add: rest_of_end rest_of_byte)
  next
    case False
    with Cons.IH [of "advance (string_push_byte lx c)"] Cons.prems show ?thesis
      by (subst raw_string_loop.simps) (simp add: rest_of_end rest_of_byte Let_def)
  qed
qed

lemma raw_string_scans:
  assumes "rest_of lx = c_quote # doubled c_quote s @ c_quote # r" "reader_byte r 0 \<noteq> c_quote"
    "length (lx_strings lx) + length s < 2 ^ 32" "\<not> inside_interpolated_text lx"
  shows "\<exists>t lx'. lhat_lexer_next lx = (t, lx') \<and> tok_kind t = LHAT_TOKEN_STRING \<and>
     rest_of lx' = r \<and> (\<forall>lx2. extends lx' lx2 \<longrightarrow>
       lhat_lexer_string lx2 t = (if s = [] then None else Some s))"
proof -
  obtain lx1 where l: "raw_string_loop (advance lx) = (lx1, True)" "rest_of lx1 = r"
    "lx_strings lx1 = lx_strings lx @ s"
    using raw_string_loop_reads [of "advance lx" s r] assms(1,2) by auto
  let ?t = "with_string (finish lx1 (mark lx) LHAT_TOKEN_STRING) lx1 LHAT_STRING_RAW (length (lx_strings lx))"
  have "scan_token lx = (?t, lx1)"
    using assms(1) l(1)
    by (simp add: scan_token_def rest_of_byte rest_of_cp decode_utf8_def scan_raw_string_def LHAT_CP_INVALID_def)
  with next_at_token [of lx, OF assms(1) _ assms(4)]
  have n: "lhat_lexer_next lx = (?t, set_flags ?t (track_braces ?t lx1))"
    by (simp add: starts_token_def)
  have "lhat_lexer_string lx2 ?t = (if s = [] then None else Some s)"
    if x: "extends (set_flags ?t (track_braces ?t lx1)) lx2" for lx2
  proof -
    obtain extra where "lx_strings lx2 = (lx_strings lx @ s) @ extra"
      using x l(3) by (auto simp: extends_def)
    then show ?thesis
      by (intro string_of_pushed [of _ "lx_strings lx" s extra _ LHAT_STRING_RAW] assms(3))
         (simp_all add: with_string_def l(3))
  qed
  with n l(2) show ?thesis by (auto simp: with_string_def)
qed

lemma name_literal_loop_reads:
  assumes "rest_of lx = doubled c_backtick s @ c_backtick # r" "reader_byte r 0 \<noteq> c_backtick"
    "c_newline \<notin> set s"
  shows "\<exists>lx'. name_literal_loop lx = (lx', True) \<and> rest_of lx' = r \<and>
     lx_strings lx' = lx_strings lx @ s"
  using assms(1,3)
proof (induction s arbitrary: lx)
  case Nil
  then show ?case using assms(2)
    by (subst name_literal_loop.simps) (simp add: rest_of_end rest_of_byte)
next
  case (Cons c s)
  show ?case
  proof (cases "c = c_backtick")
    case True
    with Cons.IH [of "advance_n (string_push_byte lx c_backtick) 2"] Cons.prems show ?thesis
      by (subst name_literal_loop.simps) (simp add: rest_of_end rest_of_byte)
  next
    case False
    with Cons.IH [of "advance (string_push_byte lx c)"] Cons.prems show ?thesis
      by (subst name_literal_loop.simps) (simp add: rest_of_end rest_of_byte Let_def)
  qed
qed

text \<open>A token whose string is \<open>s\<close>, after the scanner pushed \<open>s\<close>.\<close>

lemma pushed_token:
  assumes "lx_strings lx1 = lx_strings lx @ s" "length (lx_strings lx) + length s < 2 ^ 32"
    "k \<in> {LHAT_TOKEN_STRING, LHAT_TOKEN_IDENT, LHAT_TOKEN_INTERP_TEXT, LHAT_TOKEN_INTERP_FORMAT}"
    "t = with_string (finish lx1 m k) lx1 kind (length (lx_strings lx))"
    "extends (set_flags t (track_braces t lx1)) lx2"
  shows "lhat_lexer_string lx2 t = (if s = [] then None else Some s)"
proof -
  obtain extra where "lx_strings lx2 = (lx_strings lx @ s) @ extra"
    using assms(5) assms(1) by (auto simp: extends_def)
  then show ?thesis
    using assms by (intro string_of_pushed [of _ "lx_strings lx" s extra _ kind]) (simp_all add: with_string_def)
qed

lemma name_literal_scans:
  assumes "rest_of lx = c_backtick # doubled c_backtick s @ c_backtick # r"
    "reader_byte r 0 \<noteq> c_backtick" "c_newline \<notin> set s" "s \<noteq> []"
    "length (lx_strings lx) + length s < 2 ^ 32" "\<not> inside_interpolated_text lx"
  shows "\<exists>t lx'. lhat_lexer_next lx = (t, lx') \<and> tok_kind t = LHAT_TOKEN_IDENT \<and>
     rest_of lx' = r \<and> (\<forall>lx2. extends lx' lx2 \<longrightarrow> lhat_lexer_string lx2 t = Some s)"
proof -
  obtain lx1 where l: "name_literal_loop (advance lx) = (lx1, True)" "rest_of lx1 = r"
    "lx_strings lx1 = lx_strings lx @ s"
    using name_literal_loop_reads [of "advance lx" s r] assms(1-3) by auto
  let ?t = "with_string (finish lx1 (mark lx) LHAT_TOKEN_IDENT) lx1 LHAT_STRING_RAW (length (lx_strings lx))"
  have u: "unat (word_of_nat (length s) :: u32) = length s" using assms(5) by (simp add: unat_of_nat)
  have nz: "(word_of_nat (length s) :: u32) \<noteq> 0"
    using u assms(4) by (metis length_0_conv unat_0)
  have "scan_token lx = (?t, lx1)"
    using assms(1) l(1,3) nz
    by (simp add: scan_token_def rest_of_byte rest_of_cp decode_utf8_def scan_name_literal_def
        LHAT_CP_INVALID_def)
  with next_at_token [of lx, OF assms(1) _ assms(6)]
  have "lhat_lexer_next lx = (?t, set_flags ?t (track_braces ?t lx1))"
    by (simp add: starts_token_def)
  with l(2) assms(4) pushed_token [OF l(3) assms(5), of LHAT_TOKEN_IDENT ?t] show ?thesis
    by (auto simp: with_string_def)
qed

subsection \<open>Identifiers\<close>

text \<open>A code point that an identifier may hold, with what follows it.\<close>

lemma ident_loop_reads:
  assumes "rest_of lx = concat (map encode_utf8 cps) @ r"
    "\<forall>cp \<in> set cps. unicode_scalar cp \<and> is_ident_continue cp"
    "r = [] \<or> \<not> is_ident_continue (fst (decode_utf8 r))"
  shows "rest_of (ident_loop lx) = r"
  using assms(1,2)
proof (induction cps arbitrary: lx)
  case Nil
  then show ?case using assms(3)
    by (subst ident_loop.simps) (auto simp: rest_of_cp split: prod.splits)
next
  case (Cons cp cps)
  define w where "w = length (encode_utf8 cp)"
  have d: "decode_utf8 (encode_utf8 cp @ concat (map encode_utf8 cps) @ r) = (cp, w)"
    using Cons.prems(2) by (simp add: decode_encode w_def)
  have "encode_utf8 cp \<noteq> []" by (auto simp: encode_utf8_def)
  then have "current_cp lx = (cp, w)" "w \<noteq> 0"
    using Cons.prems(1) d by (simp_all add: rest_of_cp w_def)
  then have "ident_loop lx = ident_loop (advance_n lx w)"
    using Cons.prems(2) by (subst ident_loop.simps) simp
  with Cons.IH [of "advance_n lx w"] Cons.prems show ?case by (simp add: w_def)
qed

lemma count_run_none: "current_byte lx \<noteq> c \<Longrightarrow> count_run lx c n = (n, lx)"
  by (subst count_run.simps) simp

lemma unat_ucast_byte: "unat (ucast (b :: byte) :: u32) = unat b"
  by transfer (simp add: take_bit_nat_eq_self)

lemma ident_start_not_digit: "is_ident_start (ucast (b :: byte)) \<Longrightarrow> \<not> is_decimal_digit b"
  by (auto simp: is_ident_start_def is_decimal_digit_def LHAT_CP_INVALID_def word_le_nat_alt
      word_less_nat_alt word_unat_eq_iff unat_ucast_byte split: if_splits)

lemma ident_start_byte:
  assumes "unicode_scalar cp" "is_ident_start cp"
  shows "\<exists>b bs. encode_utf8 cp = b # bs \<and> starts_token b \<and> b \<notin> {c_dquote, c_quote, c_backtick, c_at, c_dollar} \<and>
     \<not> is_decimal_digit b"
proof (cases "cp < 0x80")
  case True
  then have e: "encode_utf8 cp = [ucast cp]" by (simp add: encode_utf8_def)
  have c: "cp = ucast (ucast cp :: byte)" using joined_bits(1) [OF True] by simp
  define b where "b = (ucast cp :: byte)"
  have n: "\<not> is_ident_start (ucast x)" if "x \<in> {c_nul, c_space, c_tab, c_vtab, c_formfeed, c_newline, c_hash, c_rbrace,
      c_colon, c_dquote, c_quote, c_backtick, c_at, c_dollar}" for x :: byte
    using that by (auto simp: is_ident_start_def LHAT_CP_INVALID_def)
  have i: "is_ident_start (ucast b)" using assms(2) c b_def by simp
  have "\<not> is_decimal_digit b" using i by (rule ident_start_not_digit)
  with i n e show ?thesis
    unfolding starts_token_def b_def by (metis (no_types, lifting) insertCI insertE)
next
  case False
  then obtain b bs where e: "encode_utf8 cp = b # bs" by (cases "encode_utf8 cp") (auto simp: encode_utf8_def split: if_splits)
  have "\<not> b < 0x80"
    using e False by (auto simp: encode_utf8_def ascii_bits bit_simps split: if_splits)
  then show ?thesis using e by (auto simp: starts_token_def is_decimal_digit_def word_le_nat_alt word_less_nat_alt)
qed

lemma identifier_scans:
  assumes "rest_of lx = concat (map encode_utf8 (cp # cps)) @ r"
    "\<forall>c \<in> set (cp # cps). unicode_scalar c" "is_ident_start cp" "\<forall>c \<in> set cps. is_ident_continue c"
    "r = [] \<or> \<not> is_ident_continue (fst (decode_utf8 r))" "reader_byte r 0 \<noteq> c_hat"
    "\<not> inside_interpolated_text lx"
  shows "\<exists>t lx'. lhat_lexer_next lx = (t, lx') \<and> tok_kind t = LHAT_TOKEN_IDENT \<and>
     tok_v t = V_NONE \<and> rest_of lx' = r"
proof -
  obtain b bs where b: "encode_utf8 cp = b # bs" "starts_token b" "\<not> is_decimal_digit b"
    "b \<notin> {c_dquote, c_quote, c_backtick, c_at, c_dollar}"
    using ident_start_byte [of cp] assms(2,3) by auto
  have d: "decode_utf8 (b # bs @ concat (map encode_utf8 cps) @ r) = (cp, length (encode_utf8 cp))"
    using decode_encode [of cp "concat (map encode_utf8 cps) @ r"] assms(2) by (simp add: b(1))
  have rest: "rest_of lx = b # bs @ concat (map encode_utf8 cps) @ r"
    using assms(1) by (simp add: b(1))
  have i: "rest_of (ident_loop lx) = r"
    using assms(2-5) by (intro ident_loop_reads [OF assms(1)]) (auto simp: ident_start_continue)
  then have c: "count_run (ident_loop lx) c_hat 0 = (0, ident_loop lx)"
    using assms(6) by (intro count_run_none) (simp add: rest_of_byte)
  have "cp \<noteq> LHAT_CP_INVALID" using assms(3) by (auto simp: is_ident_start_def)
  then have "scan_token lx = (finish (ident_loop lx) (mark lx) LHAT_TOKEN_IDENT, ident_loop lx)"
    using assms(3) b(3,4) d by (simp add: scan_token_def rest_of_byte rest_of_cp rest scan_identifier_def c)
  from next_at_token [OF rest b(2) assms(7) this] i show ?thesis
    by (auto simp: finish_def)
qed

subsection \<open>Escaped strings\<close>

text \<open>A writer for the escapes that \<open>scan_escape\<close> names.\<close>

definition escape_byte :: "byte \<Rightarrow> byte list" where
  "escape_byte c =
     (if c = c_newline then [c_backslash, c_n] else if c = c_return then [c_backslash, c_r]
      else if c = c_tab then [c_backslash, c_t] else if c = c_nul then [c_backslash, c_0]
      else if c = c_backslash then [c_backslash, c_backslash]
      else if c = c_dquote then [c_backslash, c_dquote] else [c])"

definition escaped :: "byte list \<Rightarrow> byte list" where
  "escaped s = concat (map escape_byte s)"

lemma scan_escape_named:
  assumes "rest_of lx = c_backslash # e # r"
    "(e, c) \<in> {(c_n, c_newline), (c_r, c_return), (c_t, c_tab), (c_0, c_nul),
       (c_backslash, c_backslash), (c_dquote, c_dquote)}"
  shows "scan_escape lx = advance (string_push_byte (advance lx) c)"
proof -
  have cb: "current_byte (advance lx) = e" by (simp add: rest_of_byte assms(1))
  from assms(2) consider "e = c_n" "c = c_newline" | "e = c_r" "c = c_return" | "e = c_t" "c = c_tab"
    | "e = c_0" "c = c_nul" | "e = c_backslash" "c = c_backslash" | "e = c_dquote" "c = c_dquote"
    by blast
  then show ?thesis
    by cases (simp_all only: scan_escape_def Let_def cb, simp_all)
qed

lemma scan_escape_reads:
  assumes "rest_of lx = escape_byte c @ r" "escape_byte c \<noteq> [c]"
  shows "rest_of (scan_escape lx) = r \<and> lx_strings (scan_escape lx) = lx_strings lx @ [c]"
proof -
  have "c \<in> {c_newline, c_return, c_tab, c_nul, c_backslash, c_dquote}"
    using assms(2) by (simp add: escape_byte_def split: if_splits)
  then consider "c = c_newline" | "c = c_return" | "c = c_tab" | "c = c_nul" | "c = c_backslash"
    | "c = c_dquote" by blast
  then obtain e where e: "rest_of lx = c_backslash # e # r" and
    ec: "(e, c) \<in> {(c_n, c_newline), (c_r, c_return), (c_t, c_tab), (c_0, c_nul),
       (c_backslash, c_backslash), (c_dquote, c_dquote)}"
    using assms(1) by cases (simp_all add: escape_byte_def)
  from scan_escape_named [OF e ec] show ?thesis by (simp add: e)
qed

lemma escaped_string_loop_reads:
  assumes "rest_of lx = escaped s @ c_dquote # r"
  shows "\<exists>lx'. escaped_string_loop lx = (lx', True) \<and> rest_of lx' = r \<and>
     lx_strings lx' = lx_strings lx @ s"
  using assms
proof (induction s arbitrary: lx)
  case Nil
  then show ?case
    by (subst escaped_string_loop.simps) (simp add: rest_of_end rest_of_byte escaped_def)
next
  case (Cons c s)
  have rest: "rest_of lx = escape_byte c @ escaped s @ c_dquote # r"
    using Cons.prems by (simp add: escaped_def)
  show ?case
  proof (cases "escape_byte c = [c]")
    case True
    then have "c \<noteq> c_dquote" "c \<noteq> c_backslash" by (auto simp: escape_byte_def)
    with True rest Cons.IH [of "advance (string_push_byte lx c)"] show ?thesis
      by (subst escaped_string_loop.simps) (simp add: rest_of_end rest_of_byte Let_def)
  next
    case False
    then have "\<exists>e. escape_byte c = [c_backslash, e]" by (auto simp: escape_byte_def split: if_splits)
    with rest scan_escape_reads [OF rest False] Cons.IH [of "scan_escape lx"] show ?thesis
      by (subst escaped_string_loop.simps) (auto simp: rest_of_end rest_of_byte Let_def)
  qed
qed

lemma escaped_string_scans:
  assumes "rest_of lx = c_dquote # escaped s @ c_dquote # r"
    "s \<noteq> [] \<or> reader_byte r 0 \<noteq> c_dquote"
    "length (lx_strings lx) + length s < 2 ^ 32" "\<not> inside_interpolated_text lx"
  shows "\<exists>t lx'. lhat_lexer_next lx = (t, lx') \<and> tok_kind t = LHAT_TOKEN_STRING \<and>
     rest_of lx' = r \<and> (\<forall>lx2. extends lx' lx2 \<longrightarrow>
       lhat_lexer_string lx2 t = (if s = [] then None else Some s))"
proof -
  obtain lx1 where l: "escaped_string_loop (advance lx) = (lx1, True)" "rest_of lx1 = r"
    "lx_strings lx1 = lx_strings lx @ s"
    using escaped_string_loop_reads [of "advance lx" s r] assms(1) by auto
  let ?t = "with_string (finish lx1 (mark lx) LHAT_TOKEN_STRING) lx1 LHAT_STRING_ESCAPED (length (lx_strings lx))"
  have "\<not> (byte_at lx 1 = c_dquote \<and> byte_at lx 2 = c_dquote)"
  proof (cases s)
    case Nil
    then show ?thesis using assms(1,2) by (cases r) (simp_all add: rest_of_byte escaped_def reader_byte_def)
  next
    case (Cons c cs)
    then show ?thesis using assms(1)
      by (auto simp: rest_of_byte escaped_def escape_byte_def)
  qed
  moreover have "current_byte lx = c_dquote" "current_cp lx = (0x22, 1)"
    using assms(1) by (simp_all add: rest_of_byte(1) rest_of_cp decode_utf8_def)
  ultimately have "scan_token lx = (?t, lx1)"
    using l(1) by (auto simp: scan_token_def Let_def scan_escaped_string_def LHAT_CP_INVALID_def)
  with next_at_token [of lx, OF assms(1) _ assms(4)]
  have "lhat_lexer_next lx = (?t, set_flags ?t (track_braces ?t lx1))"
    by (simp add: starts_token_def)
  with l(2) pushed_token [OF l(3) assms(3), of LHAT_TOKEN_STRING ?t] show ?thesis
    by (auto simp: with_string_def)
qed

subsection \<open>Operators\<close>

text \<open>No entry of the table hides a longer one that comes after it.\<close>

fun longest_first :: "(byte list \<times> 'a) list \<Rightarrow> bool" where
  "longest_first [] \<longleftrightarrow> True"
| "longest_first (e # es) \<longleftrightarrow>
     (\<forall>x \<in> set es. length (fst x) \<le> length (fst e) \<or> take (length (fst e)) (fst x) \<noteq> fst e) \<and>
     longest_first es"

lemma operator_table_longest_first: "longest_first operator_table"
  by (simp add: operator_table_def)

lemma find_longest:
  assumes "longest_first es" "List.find (\<lambda>e. entry_matches r (fst e)) es = Some x"
    "y \<in> set es" "entry_matches r (fst y)"
  shows "length (fst y) \<le> length (fst x)"
  using assms
proof (induction es)
  case (Cons e es)
  show ?case
  proof (cases "entry_matches r (fst e)")
    case True
    then have "x = e" using Cons.prems(2) by simp
    show ?thesis
    proof (cases "y = e")
      case False
      then have "y \<in> set es" using Cons.prems(3) by simp
      moreover have "take (length (fst e)) (fst y) = fst e" if "length (fst e) < length (fst y)"
        using True Cons.prems(4) that
        by (metis entry_matches_def min.strict_order_iff take_take)
      ultimately show ?thesis using Cons.prems(1) \<open>x = e\<close> by (metis longest_first.simps(2) not_le)
    qed (simp add: \<open>x = e\<close>)
  next
    case False
    with Cons show ?thesis by auto
  qed
qed simp

lemma match_operator_longest:
  assumes "match_operator lx = Some (e, op)"
  shows "entry_matches (rest_of lx) e" "(e, op) \<in> set operator_table"
    "\<And>e' op'. (e', op') \<in> set operator_table \<Longrightarrow> entry_matches (rest_of lx) e' \<Longrightarrow> length e' \<le> length e"
proof -
  have f: "List.find (\<lambda>x. entry_matches (rest_of lx) (fst x)) operator_table = Some (e, op)"
    using assms by (simp add: match_operator_def rest_of_def)
  show "entry_matches (rest_of lx) e" "(e, op) \<in> set operator_table"
    using find_in [OF f] by auto
  show "\<And>e' op'. (e', op') \<in> set operator_table \<Longrightarrow> entry_matches (rest_of lx) e' \<Longrightarrow> length e' \<le> length e"
    using find_longest [OF operator_table_longest_first f] by fastforce
qed

text \<open>The operators written as words, which the lexer makes hat identifiers of.\<close>

definition word_operator :: "LhatOpKind \<Rightarrow> bool" where
  "word_operator op \<longleftrightarrow> op \<in> {LHAT_OP_CROSS, LHAT_OP_DOT_PRODUCT, LHAT_OP_AND, LHAT_OP_OR, LHAT_OP_IS,
     LHAT_OP_FITS, LHAT_OP_CATCH, LHAT_OP_BITAND, LHAT_OP_BITOR, LHAT_OP_BITXOR, LHAT_OP_BITSHIFT,
     LHAT_OP_BITNOT}"

lemma match_operator_name:
  "\<not> word_operator op \<Longrightarrow> rest_of lx = bytes_of (lhat_op_name op) \<Longrightarrow>
   match_operator lx = Some (bytes_of (lhat_op_name op), op)"
  unfolding match_operator_def rest_of_def [symmetric]
  by (cases op) (simp_all add: word_operator_def operator_table_def entry_matches_def)

end
