(* ===== verification/Lhat_LexerProps.thy ===== *)
theory Lhat_LexerProps
  imports Lhat_LexerTrips
begin

text \<open>
  The properties of the reading side: source text, UTF-8, numbers, and the lexer from its
  initial state through any sequence of calls.  Each is proved from the lemmas of the component
  theories, and each with a hypothesis is followed by an instance of it.
\<close>

subsection \<open>Text and bytes\<close>

definition utf8_bom :: "byte list" where
  "utf8_bom = [0xEF, 0xBB, 0xBF]"

lemma normalise_bom: "normalise (utf8_bom @ s) = normalise_loop s"
  by (simp add: normalise_def utf8_bom_def)

lemma normalise_no_bom: "take 3 s \<noteq> utf8_bom \<Longrightarrow> normalise s = normalise_loop s"
  by (cases s; cases "tl s"; cases "tl (tl s)") (auto simp: normalise_def utf8_bom_def numeral_3_eq_3)

text \<open>Whatever line ending a file uses, and with or without a byte order mark, the text is the
  same: its lines joined by newlines.\<close>

theorem source_line_endings:
  assumes "\<forall>l \<in> set ls. plain_line l" "eol \<in> {[c_newline], [c_return], [c_return, c_newline]}"
    "take 3 (join_lines eol ls) \<noteq> utf8_bom"
  shows "src_text (lhat_source_init_from_string name (join_lines eol ls)) = join_lines [c_newline] ls \<and>
     src_text (lhat_source_init_from_string name (utf8_bom @ join_lines eol ls)) =
       join_lines [c_newline] ls"
  using assms
  by (simp add: lhat_source_init_from_string_def normalise_bom normalise_no_bom normalise_loop_join)

lemma source_line_endings_witness:
  "src_text (lhat_source_init_from_string None (utf8_bom @ join_lines [c_return] [[c_a], [], [c_b]])) =
     join_lines [c_newline] [[c_a], [], [c_b]]"
  using source_line_endings [of "[[c_a], [], [c_b]]" "[c_return]" None]
  by (simp add: plain_line_def utf8_bom_def)

text \<open>What the escape writes for a code point is read back as that code point, whatever bytes
  follow it.\<close>

theorem utf8_decode_encode:
  assumes "unicode_scalar cp"
  shows "decode_utf8 (encode_utf8 cp @ rest) = (cp, length (encode_utf8 cp))"
  using assms by (rule decode_encode)

lemma utf8_decode_encode_witness: "decode_utf8 (encode_utf8 0x1F600 @ [c_a]) = (0x1F600, 4)"
proof -
  have "length (encode_utf8 0x1F600) = 4" by (simp add: encode_utf8_def)
  then show ?thesis
    using utf8_decode_encode [of "0x1F600" "[c_a]"] by (simp add: unicode_scalar_def utf8_surrogate_def)
qed

text \<open>C38: a byte sequence that the decoder accepts is the encoding of the code point it answers: no
  overlong form, no surrogate, nothing past U+10FFFF.\<close>

theorem utf8_encode_decode:
  assumes "p \<noteq> []" "decode_utf8 p = (cp, n)" "cp \<noteq> LHAT_CP_INVALID"
  shows "take n p = encode_utf8 cp \<and> unicode_scalar cp"
  using assms by (rule encode_decode)

lemma utf8_encode_decode_witness: "take 2 [0xC3, 0xA9, c_a] = encode_utf8 0xE9 \<and> unicode_scalar 0xE9"
  by (rule utf8_encode_decode [of "[0xC3, 0xA9, c_a]" "0xE9" 2])
     (simp_all add: decode_utf8_def utf8_lead_def utf8_overlong_def utf8_surrogate_def
       LHAT_CP_INVALID_def)

subsection \<open>Numbers\<close>

text \<open>C39: an integer literal in base 2, 8, 10 or 16, with its separators, is read to its end and
  has the value of its digits; a value of 64 bits or more is reported as an overflow.\<close>

theorem integer_literal_value:
  assumes "base \<in> {2, 8, 10, 16}" "ds \<noteq> []" "separated base False ds" "integer_stops base ds rest"
    "length (literal_prefix base @ ds) < LHAT_NUMBER_BUFFER"
  shows "lhat_number_literal (literal_prefix base @ ds @ rest) False = integer_literal base ds"
  using assms by (rule literal_integer)

lemma integer_literal_value_witness:
  "lhat_number_literal (literal_prefix 16 @ bytes_of ''f_F'' @ [c_space]) False =
     integer_literal 16 (bytes_of ''f_F'')"
  by (rule integer_literal_value)
     (simp_all add: integer_stops_def run_stops_def literal_prefix_def is_digit_of_base_def
       LHAT_NUMBER_BUFFER_def)

text \<open>the decimal spelling of every 64 bit integer is read back as that integer, the smallest
  one included.\<close>

theorem read_decimal_round_trip:
  assumes "- (2 ^ 63) \<le> i" "i < 2 ^ 63"
  shows "lhat_number_read (decimal_integer i) = Some (NUMBER_WHOLE (word_of_int i))"
  using assms by (rule read_decimal_integer)

lemma read_decimal_round_trip_witness:
  "lhat_number_read (decimal_integer (- 9223372036854775808)) = Some (NUMBER_WHOLE 0x8000000000000000)"
  using read_decimal_round_trip [of "- 9223372036854775808"] by simp

subsection \<open>The lexer\<close>

text \<open>C35: on every source the loop that asks for tokens until the end of the file returns; it
  reads the whole text, at most two tokens for every byte of it.\<close>

theorem lexing_terminates:
  "\<exists>ts lx. reading_tokens (lhat_lexer_init src) = Some (ts, lx) \<and>
     list_all (\<lambda>t. tok_kind t \<noteq> LHAT_TOKEN_EOF) ts \<and> length ts \<le> 2 * length (src_text src) \<and>
     lx_source lx = src_text src \<and> lx_pos lx = length (src_text src)"
proof -
  obtain ts lx1 t lx where r: "read_until_end lhat_lexer_next is_eof (lhat_lexer_init src) = Some (ts, lx)"
    "reads lhat_lexer_next (lhat_lexer_init src) ts lx1" "\<forall>t \<in> set ts. \<not> is_eof t"
    "lhat_lexer_next lx1 = (t, lx)" "is_eof t"
    using lexer.read_returns [OF init_interp_ok, of src] by metis
  have "length ts \<le> lexer_work (lhat_lexer_init src)"
    using lexer.read_bounded [OF init_interp_ok r(1)] .
  moreover have e: "extends lx1 lx" "at_end lx"
    using next_placed(1,5) [OF r(4)] r(5) by (auto simp: is_eof_def)
  moreover have "lexer_ok lx" "lx_source lx = src_text src"
    using reads_extends_init [OF r(2)] extends_ok [OF e(1)] extends_source [OF e(1)] by auto
  ultimately show ?thesis
    using r(1,3) by (auto simp: reading_tokens_def list_all_iff is_eof_def at_end_def lexer_ok_def
        lexer_placed_def)
qed

text \<open>C36: after any calls the line and the column are those of the text before the cursor, and every
  diagnostic and every comment recorded lies in that text, at the line and column it says.\<close>

theorem lexer_positions:
  assumes "reads lhat_lexer_next (lhat_lexer_init src) ts lx"
  shows "lx_pos lx \<le> length (src_text src) \<and>
     lx_line lx = text_line (take (lx_pos lx) (src_text src)) \<and>
     lx_column lx = text_column (take (lx_pos lx) (src_text src)) \<and>
     list_all (diagnostic_placed (src_text src) (lx_pos lx)) (lx_diagnostics lx) \<and>
     list_all (comment_placed (src_text src) (lx_pos lx)) (lx_comments lx)"
  using reads_extends_init [OF assms] by (auto simp: lexer_ok_def lexer_placed_def list_all_iff)

definition sample_source :: LhatSource where
  "sample_source = lhat_source_init_from_string None (bytes_of ''a #b'' @ [c_newline] @ bytes_of ''^'')"

lemma sample_read:
  "reads lhat_lexer_next lx [fst (lhat_lexer_next lx)] (snd (lhat_lexer_next lx))"
  by (rule reads_one [OF surjective_pairing reads_none])

lemma lexer_positions_witness:
  "lx_line (snd (lhat_lexer_next (lhat_lexer_init sample_source))) =
     text_line (take (lx_pos (snd (lhat_lexer_next (lhat_lexer_init sample_source))))
       (src_text sample_source))"
  using lexer_positions [OF sample_read [of "lhat_lexer_init sample_source"]] by blast

text \<open>C37: the token of a call lies between the old cursor and the new one, begins at the line and
  column it says, and ends where the cursor stands; an annotation's span leaves out its mark.\<close>

theorem token_span:
  assumes "reads lhat_lexer_next (lhat_lexer_init src) ts lx" "lhat_lexer_next lx = (t, lx')"
  shows "\<exists>p q. lx_pos lx \<le> p \<and> p \<le> q \<and> q \<le> lx_pos lx' \<and> lx_pos lx' \<le> length (src_text src) \<and>
     (if tok_kind t = LHAT_TOKEN_ANNOTATION then q = p + 1 else q = p) \<and>
     tok_line t = text_line (take p (src_text src)) \<and>
     tok_column t = text_column (take p (src_text src)) \<and>
     tok_offset t = word_of_nat q \<and> tok_length t = word_of_nat (lx_pos lx' - q)"
proof -
  have i: "lexer_ok lx" "lx_source lx = src_text src" using reads_extends_init [OF assms(1)] by auto
  then have s: "lexer_ok (token_start lx)" "lx_source (token_start lx) = src_text src"
    and l: "lx_pos lx \<le> lx_pos (token_start lx)"
    using extends_ok [OF token_start_extends, of lx] extends_source [OF token_start_extends, of lx]
      extends_pos [OF token_start_extends, of lx] by auto
  have "lexer_ok lx'" "lx_source lx' = src_text src"
    using extends_ok [OF next_placed(1) [OF assms(2)]] extends_source [OF next_placed(1) [OF assms(2)]] i
    by auto
  then have e: "lx_pos lx' \<le> length (src_text src)" by (simp add: lexer_ok_def lexer_placed_def)
  from s l e next_placed(3) [OF assms(2)] show ?thesis
    by (intro exI [of _ "lx_pos (token_start lx)"] exI [of _ "if tok_kind t = LHAT_TOKEN_ANNOTATION
          then lx_pos (token_start lx) + 1 else lx_pos (token_start lx)"])
       (auto simp: token_placed_def lexer_ok_def lexer_placed_def Let_def split: if_splits)
qed

lemma token_span_witness:
  "\<exists>p. tok_line (fst (lhat_lexer_next (lhat_lexer_init sample_source))) =
     text_line (take p (src_text sample_source))"
  using token_span [OF reads_none surjective_pairing, of sample_source] by blast

text \<open>the interpolation stack is never deeper than its bound, its frames alternate between a
  string and a hole with a string outermost, and only a hole counts braces; in a string there is
  always room for one hole more, so the report of a hole nested too deeply is never made there.\<close>

theorem interpolation_stack:
  assumes "reads lhat_lexer_next (lhat_lexer_init src) ts lx"
  shows "interp_alternates (lx_interp lx) \<and> length (lx_interp lx) \<le> LHAT_INTERP_MAX_DEPTH \<and>
     (inside_interpolated_text lx \<longrightarrow> length (lx_interp lx) < LHAT_INTERP_MAX_DEPTH)"
  using reads_extends_init(2) [OF assms] segment_room by (auto simp: interp_ok_def)

lemma interpolation_stack_witness:
  "interp_alternates (lx_interp (snd (lhat_lexer_next (lhat_lexer_init sample_source))))"
  using interpolation_stack [OF sample_read [of "lhat_lexer_init sample_source"]] by blast

text \<open>a lexical error is never silent: a call that answers an error token has recorded a
  diagnostic, and what was recorded before is kept.\<close>

theorem error_token_diagnosed:
  assumes "lhat_lexer_next lx = (t, lx')" "tok_kind t = LHAT_TOKEN_ERROR"
  shows "\<exists>d ds. lx_diagnostics lx' = lx_diagnostics lx @ d # ds"
proof -
  obtain new where "lx_diagnostics lx' = lx_diagnostics lx @ new"
    using next_placed(1) [OF assms(1)] by (auto simp: extends_def)
  moreover have "length (lx_diagnostics lx) < length (lx_diagnostics lx')"
    using next_placed(4) [OF assms(1)] assms(2) by blast
  ultimately show ?thesis by (cases new) auto
qed

definition bare_hat :: LhatLexer where
  "bare_hat = lhat_lexer_init \<lparr>src_name = [], src_text = [c_hat, c_newline]\<rparr>"

lemma bare_hat_next:
  "lhat_lexer_next bare_hat =
     (finish (advance (report bare_hat LHAT_ERR_BARE_HAT)) (mark bare_hat) LHAT_TOKEN_ERROR,
      set_flags (finish (advance (report bare_hat LHAT_ERR_BARE_HAT)) (mark bare_hat) LHAT_TOKEN_ERROR)
        (track_braces (finish (advance (report bare_hat LHAT_ERR_BARE_HAT)) (mark bare_hat) LHAT_TOKEN_ERROR)
          (advance (report bare_hat LHAT_ERR_BARE_HAT))))"
proof (rule next_at_token)
  show r: "rest_of bare_hat = c_hat # [c_newline]" by (simp add: rest_of_def bare_hat_def lhat_lexer_init_def)
  show "starts_token c_hat" by (simp add: starts_token_def)
  show "\<not> inside_interpolated_text bare_hat"
    by (simp add: inside_interpolated_text_def bare_hat_def lhat_lexer_init_def)
  show "scan_token bare_hat = (finish (advance (report bare_hat LHAT_ERR_BARE_HAT)) (mark bare_hat)
      LHAT_TOKEN_ERROR, advance (report bare_hat LHAT_ERR_BARE_HAT))"
    by (simp add: scan_token_def rest_of_byte rest_of_cp r decode_utf8_def LHAT_CP_INVALID_def
        is_decimal_digit_def is_ident_start_def Let_def)
qed

lemma error_token_diagnosed_witness:
  "\<exists>d ds. lx_diagnostics (snd (lhat_lexer_next bare_hat)) = lx_diagnostics bare_hat @ d # ds"
  by (rule error_token_diagnosed [OF surjective_pairing]) (simp add: bare_hat_next)

text \<open>once a call has answered the end of the file every further call answers it again and
  changes nothing.\<close>

theorem end_of_file_stays:
  assumes "lhat_lexer_next lx = (t, lx')" "tok_kind t = LHAT_TOKEN_EOF"
  shows "lhat_lexer_next lx' = (finish lx' (mark lx') LHAT_TOKEN_EOF, lx')"
  using assms by (rule next_eof_stable)

definition empty_source :: LhatLexer where
  "empty_source = (lhat_lexer_init \<lparr>src_name = [], src_text = []\<rparr>)\<lparr>lx_pending_stmt_start := False\<rparr>"

lemma end_of_file_stays_witness:
  "lhat_lexer_next empty_source = (finish empty_source (mark empty_source) LHAT_TOKEN_EOF, empty_source)"
proof (rule end_of_file_stays [of empty_source])
  show "lhat_lexer_next empty_source =
      (finish empty_source (mark empty_source) LHAT_TOKEN_EOF, empty_source)"
    by (rule next_at_end) (simp_all add: empty_source_def lhat_lexer_init_def at_end_def
        inside_interpolated_text_def)
qed simp

text \<open>a token that follows another may start a statement exactly if that other is a semicolon or
  a newline lies between the two, in a comment or outside one.\<close>

theorem statement_start:
  assumes "lhat_lexer_next lx0 = (u, lx)" "lhat_lexer_next lx = (t, lx')"
    "\<not> inside_interpolated_text lx" "tok_kind t \<noteq> LHAT_TOKEN_INTERP_EXPR_END"
  shows "tok_may_start_stmt t \<longleftrightarrow>
     token_is_op u LHAT_OP_SEMICOLON \<or>
     c_newline \<in> set (drop (lx_pos lx) (take (lx_pos (token_start lx)) (lx_source lx)))"
  using next_flags(1) [OF assms(1)] next_flags(3) [OF assms(2,4)] token_start_pending [OF assms(3)]
  by (simp add: between_def)

lemma statement_start_witness:
  "tok_may_start_stmt (fst (lhat_lexer_next (snd (lhat_lexer_next bare_hat))))"
proof -
  let ?lx = "snd (lhat_lexer_next bare_hat)"
  have h: "\<not> inside_interpolated_text ?lx"
    "tok_kind (fst (lhat_lexer_next ?lx)) \<noteq> LHAT_TOKEN_INTERP_EXPR_END"
    "c_newline \<in> set (drop (lx_pos ?lx) (take (lx_pos (token_start ?lx)) (lx_source ?lx)))"
    by code_simp+
  show ?thesis
    using statement_start [OF surjective_pairing surjective_pairing h(1,2)] h(3) by blast
qed

text \<open>a raw string reads back as the bytes it was written from, quotes doubled, and goes on
  doing so however much is read after it.\<close>

theorem raw_string_round_trip:
  assumes "rest_of lx = c_quote # doubled c_quote s @ c_quote # r" "reader_byte r 0 \<noteq> c_quote"
    "length (lx_strings lx) + length s < 2 ^ 32" "\<not> inside_interpolated_text lx"
  shows "\<exists>t lx'. lhat_lexer_next lx = (t, lx') \<and> tok_kind t = LHAT_TOKEN_STRING \<and>
     rest_of lx' = r \<and> (\<forall>lx2. extends lx' lx2 \<longrightarrow>
       lhat_lexer_string lx2 t = (if s = [] then None else Some s))"
  using assms by (rule raw_string_scans)

definition at_text :: "byte list \<Rightarrow> LhatLexer" where
  "at_text bytes = lhat_lexer_init \<lparr>src_name = [], src_text = bytes\<rparr>"

lemma at_text_simps [simp]:
  "rest_of (at_text bytes) = bytes" "lx_strings (at_text bytes) = []"
  "\<not> inside_interpolated_text (at_text bytes)"
  by (simp_all add: at_text_def lhat_lexer_init_def rest_of_def inside_interpolated_text_def)

lemma raw_string_round_trip_witness:
  "\<exists>t lx'. lhat_lexer_next (at_text (bytes_of [CHR 0x27, CHR ''a'', CHR 0x27, CHR 0x27, CHR 0x27])) = (t, lx') \<and>
     lhat_lexer_string lx' t = Some [c_a, c_quote]"
  using raw_string_round_trip [of "at_text (bytes_of [CHR 0x27, CHR ''a'', CHR 0x27, CHR 0x27, CHR 0x27])"
      "[c_a, c_quote]" "[]"]
  by (auto intro: extends_refl)

text \<open>A name literal reads back as the name it was written from, backticks doubled.\<close>

theorem name_literal_round_trip:
  assumes "rest_of lx = c_backtick # doubled c_backtick s @ c_backtick # r"
    "reader_byte r 0 \<noteq> c_backtick" "c_newline \<notin> set s" "s \<noteq> []"
    "length (lx_strings lx) + length s < 2 ^ 32" "\<not> inside_interpolated_text lx"
  shows "\<exists>t lx'. lhat_lexer_next lx = (t, lx') \<and> tok_kind t = LHAT_TOKEN_IDENT \<and>
     rest_of lx' = r \<and> (\<forall>lx2. extends lx' lx2 \<longrightarrow> lhat_lexer_string lx2 t = Some s)"
  using assms by (rule name_literal_scans)

lemma name_literal_round_trip_witness:
  "\<exists>t lx'. lhat_lexer_next (at_text (bytes_of ''`a b`'')) = (t, lx') \<and>
     lhat_lexer_string lx' t = Some (bytes_of ''a b'')"
  using name_literal_round_trip [of "at_text (bytes_of ''`a b`'')" "bytes_of ''a b''" "[]"]
  by (auto intro: extends_refl)

text \<open>C40: an escaped string reads back as the bytes it was written from.\<close>

theorem escaped_string_round_trip:
  assumes "rest_of lx = c_dquote # escaped s @ c_dquote # r"
    "s \<noteq> [] \<or> reader_byte r 0 \<noteq> c_dquote"
    "length (lx_strings lx) + length s < 2 ^ 32" "\<not> inside_interpolated_text lx"
  shows "\<exists>t lx'. lhat_lexer_next lx = (t, lx') \<and> tok_kind t = LHAT_TOKEN_STRING \<and>
     rest_of lx' = r \<and> (\<forall>lx2. extends lx' lx2 \<longrightarrow>
       lhat_lexer_string lx2 t = (if s = [] then None else Some s))"
  using assms by (rule escaped_string_scans)

lemma escaped_string_round_trip_witness:
  "\<exists>t lx'. lhat_lexer_next (at_text (c_dquote # escaped [c_a, c_newline] @ [c_dquote])) = (t, lx') \<and>
     lhat_lexer_string lx' t = Some [c_a, c_newline]"
  using escaped_string_round_trip [of "at_text (c_dquote # escaped [c_a, c_newline] @ [c_dquote])"
      "[c_a, c_newline]" "[]"]
  by (auto intro: extends_refl)

text \<open>a word of identifier characters, in UTF-8, is one identifier token to its last byte,
  unless it is glued to a hat or to more of the same.\<close>

theorem identifier_round_trip:
  assumes "rest_of lx = concat (map encode_utf8 (cp # cps)) @ r"
    "\<forall>c \<in> set (cp # cps). unicode_scalar c" "is_ident_start cp" "\<forall>c \<in> set cps. is_ident_continue c"
    "r = [] \<or> \<not> is_ident_continue (fst (decode_utf8 r))" "reader_byte r 0 \<noteq> c_hat"
    "\<not> inside_interpolated_text lx"
  shows "\<exists>t lx'. lhat_lexer_next lx = (t, lx') \<and> tok_kind t = LHAT_TOKEN_IDENT \<and>
     tok_v t = V_NONE \<and> rest_of lx' = r"
  using assms by (rule identifier_scans)

lemma identifier_round_trip_witness:
  "\<exists>t lx'. lhat_lexer_next (at_text (concat (map encode_utf8 [0xE9, 0x31]) @ [c_space])) = (t, lx') \<and>
     tok_kind t = LHAT_TOKEN_IDENT \<and> rest_of lx' = [c_space]"
  using identifier_round_trip [of "at_text (concat (map encode_utf8 [0xE9, 0x31]) @ [c_space])" "0xE9"
      "[0x31]" "[c_space]"]
  by (auto simp: unicode_scalar_def utf8_surrogate_def is_ident_start_def is_ident_continue_def
      is_unicode_space_def is_reserved_symbol_def LHAT_CP_INVALID_def decode_utf8_def)

text \<open>of the operators that the text begins with the longest is taken.\<close>

theorem operator_maximal_munch:
  assumes "match_operator lx = Some (e, op)" "(e', op') \<in> set operator_table"
    "entry_matches (rest_of lx) e'"
  shows "entry_matches (rest_of lx) e \<and> (e, op) \<in> set operator_table \<and> length e' \<le> length e"
  using match_operator_longest [OF assms(1)] assms(2,3) by blast

lemma operator_maximal_munch_witness:
  "length (bytes_of ''?.'') \<le> length (bytes_of ''?..='')"
proof -
  have m: "match_operator (at_text (bytes_of ''?..=1'')) = Some (bytes_of ''?..='', LHAT_OP_NIL_CONCAT_ASSIGN)"
    by (simp add: match_operator_def rest_of_def [symmetric] operator_table_def entry_matches_def)
  have i: "(bytes_of ''?.'', LHAT_OP_NIL_DOT) \<in> set operator_table" by (simp add: operator_table_def)
  show ?thesis using operator_maximal_munch [OF m i] by (simp add: entry_matches_def)
qed

text \<open>The name of an operator that is not a word is its spelling: read back, it is matched to
  its end as that operator.\<close>

theorem operator_name_round_trip:
  assumes "\<not> word_operator op" "rest_of lx = bytes_of (lhat_op_name op)"
  shows "match_operator lx = Some (bytes_of (lhat_op_name op), op)"
  using assms by (rule match_operator_name)

lemma operator_name_round_trip_witness:
  "match_operator (at_text (bytes_of ''..='')) = Some (bytes_of ''..='', LHAT_OP_CONCAT_ASSIGN)"
  using operator_name_round_trip [of LHAT_OP_CONCAT_ASSIGN "at_text (bytes_of ''..='')"]
  by (simp add: word_operator_def)

end
