(* ===== verification/Lhat_Heap.thy ===== *)
theory Lhat_Heap
  imports Lhat_Number
begin

text \<open>
  The heap of a machine as the collector sees it: values (\<open>include/lhat/value.h\<close>), the objects
  and what each refers to (\<open>lhat_gc_children\<close> of \<open>src/gc.c\<close>), the fields of the machine that the
  collector reads and writes (\<open>src/machine.h\<close>) and the roots (\<open>mark_roots\<close>).

  An address is an index into \<open>m_memory\<close>, which holds every object ever made, those of a chunk
  included; a freed object is \<open>None\<close> and its address is not used again, so that a reference to
  freed memory shows.  A pointer is an \<open>addr option\<close>, \<open>None\<close> being NULL.  The lists that the code
  threads through the objects (\<open>next\<close>, \<open>gclist\<close>, \<open>next_open\<close>, \<open>next_pending\<close>) are lists of addresses
  of the machine.  Of an object only what the collector can follow is kept, and what decides
  whether a coroutine is held back.
\<close>

type_synonym addr = nat
type_synonym pointer = "addr option"

datatype LhatValue =
    VALUE_NIL
  | VALUE_BOOL bool
  | VALUE_INTEGER LhatInteger
  | VALUE_REAL LhatReal
  | VALUE_OBJECT pointer
  | VALUE_HOSTVALUE
  | VALUE_CONT u64
  | VALUE_RUN nat \<comment> \<open>how many positions follow\<close>

text \<open>Where an upvalue's \<open>location\<close> aims: at a slot of the stack, at a saved register of a
  suspended coroutine, or at its own closed cell.\<close>

datatype LhatPlace =
    PLACE_NONE
  | PLACE_SLOT nat
  | PLACE_SAVED addr nat
  | PLACE_CELL

datatype LhatCoroutineSource = LHAT_COROUTINE_BODY | LHAT_COROUTINE_TABLE | LHAT_COROUTINE_HOST
datatype LhatCoroutineState =
  LHAT_COROUTINE_FRESH | LHAT_COROUTINE_SUSPENDED | LHAT_COROUTINE_RUNNING | LHAT_COROUTINE_DONE

record LhatCoroutineFrame =
  cf_registers :: "LhatValue list"
  cf_closure :: pointer
  cf_state :: LhatCoroutineState
  cf_sent_into :: nat \<comment> \<open>the register a resume's value arrives in\<close>
  cf_cleanup_count :: nat

record LhatCostateEntry =
  ce_coroutine :: pointer
  ce_frame :: LhatCoroutineFrame
  ce_captures :: "pointer list"

record LhatRuntimeType =
  rt_parts :: "pointer list"
  rt_members :: "(pointer \<times> pointer) list" \<comment> \<open>name and type\<close>
  rt_result :: pointer
  rt_receive :: pointer
  rt_produce :: pointer
  rt_variadic :: pointer
  rt_index_key :: pointer
  rt_index_value :: pointer
  rt_instance :: pointer
  rt_error_kind :: pointer
  rt_enum_name :: pointer
  rt_enum_owner_name :: pointer
  rt_enum_module :: pointer
  rt_enum_require :: pointer
  rt_enum_qualifier :: pointer

text \<open>One constructor for each \<open>LhatObjectKind\<close>, with the references in the order the struct is
  walked.\<close>

datatype LhatBody =
    OBJECT_STRING
  | OBJECT_HOSTVALUE_BOX
  | OBJECT_TABLE "LhatValue list" "(LhatValue \<times> LhatValue) list" pointer LhatValue
      \<comment> \<open>array, entries, definition, delegate_key\<close>
  | OBJECT_ERROR pointer pointer \<comment> \<open>kind, fields\<close>
  | OBJECT_ENUM pointer pointer pointer \<comment> \<open>name, members, decl\<close>
  | OBJECT_ENUMERATOR pointer pointer LhatValue \<comment> \<open>owner, name, value\<close>
  | OBJECT_ERROR_KIND pointer pointer \<comment> \<open>group, name\<close>
  | OBJECT_SUBROUTINE "pointer list" "nat option" pointer
      \<comment> \<open>upvalues, the registers of the proto's chunk (None: no proto), the proto's owner\<close>
  | OBJECT_SCRIPT "addr list" \<comment> \<open>the objects of its chunks, in the order they are given away in\<close>
  | OBJECT_UPVALUE LhatPlace LhatValue pointer \<comment> \<open>location, closed cell, suspended_in\<close>
  | OBJECT_COROUTINE LhatCoroutineSource LhatCoroutineFrame pointer LhatValue "addr list"
      \<comment> \<open>source, frame, cursor.walking, held, open\<close>
  | OBJECT_COSTATE "LhatCostateEntry list"
  | OBJECT_NATIVE LhatValue \<comment> \<open>bound\<close>
  | OBJECT_HOST pointer LhatValue "pointer list" \<comment> \<open>signature, bound, parameter_types\<close>
  | OBJECT_HOSTDATA pointer \<comment> \<open>members\<close>
  | OBJECT_TYPE LhatRuntimeType
  | OBJECT_OVERLOAD "LhatValue list" \<comment> \<open>candidates\<close>

subsection \<open>Colours\<close>

type_synonym GcColor = u8

definition LHAT_GC_WHITE0 :: GcColor where "LHAT_GC_WHITE0 = 0"
definition LHAT_GC_WHITE1 :: GcColor where "LHAT_GC_WHITE1 = 1"
definition LHAT_GC_GRAY :: GcColor where "LHAT_GC_GRAY = 2"
definition LHAT_GC_BLACK :: GcColor where "LHAT_GC_BLACK = 3"

lemmas gc_colors = LHAT_GC_WHITE0_def LHAT_GC_WHITE1_def LHAT_GC_GRAY_def LHAT_GC_BLACK_def

definition is_white :: "GcColor \<Rightarrow> bool" where
  "is_white c \<longleftrightarrow> c \<le> LHAT_GC_WHITE1"

definition lhat_gc_other_white :: "GcColor \<Rightarrow> GcColor" where
  "lhat_gc_other_white w = LHAT_GC_WHITE1 - w"

record LhatObject =
  ob_color :: GcColor
  ob_body :: LhatBody

subsection \<open>The machine\<close>

datatype GcState = LHAT_GC_PAUSE | LHAT_GC_PROPAGATE | LHAT_GC_SWEEP

record Frame =
  fr_closure :: addr
  fr_coroutine :: pointer
  fr_base :: nat
  fr_answer :: LhatValue
  fr_answer_run :: "LhatValue list" \<comment> \<open>\<open>answer_run\<close> with \<open>answer_tags\<close>, from position 1 on\<close>

text \<open>A free slot of the weak cache has no key, a removed one keeps the mark \<open>WEAK_GONE\<close>.\<close>

datatype WeakKey = WEAK_FREE | WEAK_GONE | WEAK_KEY u64

record LhatMemberCache =
  mc_answered :: pointer
  mc_receiver :: pointer
  mc_lender :: pointer

record Machine =
  m_memory :: "LhatObject option list"
  m_objects :: "addr list" \<comment> \<open>\<open>objects.objects\<close>, newest first\<close>
  m_count :: nat
  m_white :: GcColor
  m_gray :: "addr list"
  m_gcstate :: GcState
  m_sweep :: nat \<comment> \<open>how many objects stand before the link \<open>sweep\<close>; read in a sweep only\<close>
  m_collected :: nat
  m_released :: "addr list" \<comment> \<open>what went to the host's release functions, last first\<close>
  m_threshold :: nat
  m_gc_growth :: u32
  m_gc_stepmul :: u32
  m_gc_stepsize :: u32
  m_gc_paused :: bool
  m_gc_cycles :: nat
  m_slots :: "LhatValue list"
  m_frames :: "Frame list"
  m_open :: "addr list"
  m_pending_dispose :: "addr list"
  m_cleanup_carriers :: u64
  m_traps :: bool
  m_hook_live :: bool
  m_environment :: pointer
  m_self_key :: pointer
  m_modules :: pointer
  m_host_root :: pointer
  m_hostvalue_members :: "pointer list"
  m_spare_coroutines :: "pointer list"
  m_fault_value :: LhatValue
  m_native_hold :: "LhatValue list"
  m_tuple_scratch :: "LhatValue list"
  m_weak :: "(WeakKey \<times> LhatValue) list"
  m_weak_count :: nat
  m_unbound_natives :: "pointer list"
  m_member_caches :: "LhatMemberCache list"

definition deref :: "Machine \<Rightarrow> addr \<Rightarrow> LhatObject option" where
  "deref m a = (if a < length (m_memory m) then m_memory m ! a else None)"

definition body_of :: "Machine \<Rightarrow> addr \<Rightarrow> LhatBody" where
  "body_of m a = (case deref m a of Some ob \<Rightarrow> ob_body ob | None \<Rightarrow> OBJECT_STRING)"

definition has_color :: "Machine \<Rightarrow> addr \<Rightarrow> GcColor \<Rightarrow> bool" where
  "has_color m a c = (case deref m a of Some ob \<Rightarrow> ob_color ob = c | None \<Rightarrow> False)"

definition white_at :: "Machine \<Rightarrow> addr \<Rightarrow> bool" where
  "white_at m a = (case deref m a of Some ob \<Rightarrow> is_white (ob_color ob) | None \<Rightarrow> False)"

definition put :: "Machine \<Rightarrow> addr \<Rightarrow> LhatObject option \<Rightarrow> Machine" where
  "put m a ob = m\<lparr>m_memory := (m_memory m)[a := ob]\<rparr>"

definition set_color :: "Machine \<Rightarrow> addr \<Rightarrow> GcColor \<Rightarrow> Machine" where
  "set_color m a c = put m a (map_option (\<lambda>ob. ob\<lparr>ob_color := c\<rparr>) (deref m a))"

definition set_body :: "Machine \<Rightarrow> addr \<Rightarrow> LhatBody \<Rightarrow> Machine" where
  "set_body m a b = put m a (map_option (\<lambda>ob. ob\<lparr>ob_body := b\<rparr>) (deref m a))"

subsection \<open>What an object refers to\<close>

definition value_ref :: "LhatValue \<Rightarrow> pointer" where
  "value_ref v = (case v of VALUE_OBJECT p \<Rightarrow> p | _ \<Rightarrow> None)"

definition slots_get :: "LhatValue list \<Rightarrow> nat \<Rightarrow> LhatValue" where
  "slots_get slots i = (if i < length slots then slots ! i else VALUE_NIL)"

text \<open>\<open>lhat_ref_get\<close> of an upvalue's location.\<close>

definition ref_get :: "Machine \<Rightarrow> LhatPlace \<Rightarrow> LhatValue \<Rightarrow> LhatValue" where
  "ref_get m location cell =
     (case location of
        PLACE_NONE \<Rightarrow> VALUE_NIL
      | PLACE_SLOT i \<Rightarrow> slots_get (m_slots m) i
      | PLACE_SAVED co i \<Rightarrow>
          (case body_of m co of
             OBJECT_COROUTINE source frame walking held captures \<Rightarrow> slots_get (cf_registers frame) i
           | _ \<Rightarrow> VALUE_NIL)
      | PLACE_CELL \<Rightarrow> cell)"

definition type_refs :: "LhatRuntimeType \<Rightarrow> pointer list" where
  "type_refs t =
     rt_parts t @ concat (map (\<lambda>(name, typ). [name, typ]) (rt_members t)) @
     [rt_result t, rt_receive t, rt_produce t, rt_variadic t, rt_index_key t, rt_index_value t,
      rt_instance t, rt_error_kind t, rt_enum_name t, rt_enum_owner_name t, rt_enum_module t,
      rt_enum_require t, rt_enum_qualifier t]"

text \<open>What \<open>lhat_gc_children\<close> reaches, in its order.\<close>

definition object_refs :: "Machine \<Rightarrow> LhatBody \<Rightarrow> pointer list" where
  "object_refs m body =
     (case body of
        OBJECT_STRING \<Rightarrow> []
      | OBJECT_HOSTVALUE_BOX \<Rightarrow> []
      | OBJECT_TABLE array entries definition delegate_key \<Rightarrow>
          map value_ref array @
          concat (map (\<lambda>(key, value). [value_ref key, value_ref value]) entries) @
          [definition, value_ref delegate_key]
      | OBJECT_ERROR kind members \<Rightarrow> [kind, members]
      | OBJECT_ENUM name members decl \<Rightarrow> [name, members, decl]
      | OBJECT_ENUMERATOR owner name value \<Rightarrow> [owner, name, value_ref value]
      | OBJECT_ERROR_KIND decl name \<Rightarrow> [decl, name]
      | OBJECT_SUBROUTINE upvalues registers owner \<Rightarrow> upvalues @ [owner]
      | OBJECT_SCRIPT given \<Rightarrow> []
      | OBJECT_UPVALUE location cell suspended_in \<Rightarrow>
          [value_ref (ref_get m location cell), suspended_in]
      | OBJECT_COROUTINE source frame walking held captures \<Rightarrow>
          map value_ref (cf_registers frame) @ [cf_closure frame, walking, value_ref held]
      | OBJECT_COSTATE entries \<Rightarrow>
          concat (map (\<lambda>e. [ce_coroutine e, cf_closure (ce_frame e)] @
            map value_ref (cf_registers (ce_frame e)) @ ce_captures e) entries)
      | OBJECT_NATIVE bound \<Rightarrow> [value_ref bound]
      | OBJECT_HOST signature bound parameter_types \<Rightarrow>
          [signature, value_ref bound] @ parameter_types
      | OBJECT_HOSTDATA members \<Rightarrow> [members]
      | OBJECT_TYPE t \<Rightarrow> type_refs t
      | OBJECT_OVERLOAD candidates \<Rightarrow> map value_ref candidates)"

subsection \<open>The roots\<close>

text \<open>The registers of a frame's proto; none where the closure has no proto.\<close>

definition frame_width :: "Machine \<Rightarrow> Frame \<Rightarrow> nat" where
  "frame_width m frame =
     (case body_of m (fr_closure frame) of
        OBJECT_SUBROUTINE upvalues (Some registers) owner \<Rightarrow> registers
      | _ \<Rightarrow> 0)"

definition frame_roots :: "Machine \<Rightarrow> Frame \<Rightarrow> pointer list" where
  "frame_roots m frame =
     [Some (fr_closure frame), fr_coroutine frame, value_ref (fr_answer frame)] @
     (case fr_answer frame of
        VALUE_RUN positions \<Rightarrow> map value_ref (take positions (fr_answer_run frame))
      | _ \<Rightarrow> []) @
     map (\<lambda>r. value_ref (slots_get (m_slots m) (fr_base frame + r))) [0..<frame_width m frame]"

text \<open>What \<open>mark_roots\<close> reaches, in its order.\<close>

definition root_refs :: "Machine \<Rightarrow> pointer list" where
  "root_refs m =
     [m_environment m, m_self_key m, m_modules m, m_host_root m] @
     m_hostvalue_members m @ m_spare_coroutines m @
     concat (map (frame_roots m) (m_frames m)) @
     [value_ref (m_fault_value m)] @ map value_ref (m_native_hold m) @
     map value_ref (m_tuple_scratch m) @ map Some (m_open m) @ map Some (m_pending_dispose m)"

subsection \<open>Making an object\<close>

text \<open>\<open>lhat_object_alloc\<close> and the writes of the instruction that made it.  The object goes to the
  head of the list, so the link of a sweep that has passed something stays behind it.\<close>

definition object_alloc :: "Machine \<Rightarrow> LhatBody \<Rightarrow> addr \<times> Machine" where
  "object_alloc m body =
     (let a = length (m_memory m)
      in (a, m\<lparr>m_memory := m_memory m @ [Some \<lparr>ob_color = m_white m, ob_body = body\<rparr>],
             m_objects := a # m_objects m,
             m_count := m_count m + 1,
             m_sweep := (if m_sweep m = 0 then 0 else m_sweep m + 1)\<rparr>))"

end
