(* ===== verification/Lhat_Gc.thy ===== *)
theory Lhat_Gc
  imports Lhat_Heap
begin

text \<open>
  The collector of \<open>src/gc.c\<close>, function by function: marking one object at a time, the atomic
  step, the sweep, the pacing and the two barriers.  The paranoid build's checks are not
  modelled; what they ask is proved.
\<close>

definition SIZE_MAX :: nat where
  "SIZE_MAX = 2 ^ 64 - 1"

definition LHAT_GC_MIN_THRESHOLD :: nat where
  "LHAT_GC_MIN_THRESHOLD = 64"

subsection \<open>Marking\<close>

definition reach :: "Machine \<Rightarrow> pointer \<Rightarrow> Machine" where
  "reach m object =
     (case object of
        None \<Rightarrow> m
      | Some a \<Rightarrow>
          if \<not> white_at m a then m
          else (set_color m a LHAT_GC_GRAY)\<lparr>m_gray := a # m_gray m\<rparr>)"

definition lhat_gc_reach :: "Machine \<Rightarrow> LhatValue \<Rightarrow> Machine" where
  "lhat_gc_reach m value = reach m (value_ref value)"

text \<open>A run of calls of \<open>reach\<close>.  None of them changes what the next ones are called with.\<close>

definition reach_all :: "Machine \<Rightarrow> pointer list \<Rightarrow> Machine" where
  "reach_all m refs = foldl reach m refs"

definition lhat_gc_children :: "Machine \<Rightarrow> addr \<Rightarrow> Machine" where
  "lhat_gc_children m a = reach_all m (object_refs m (body_of m a))"

definition mark_roots :: "Machine \<Rightarrow> Machine" where
  "mark_roots m = reach_all m (root_refs m)"

definition propagate_one :: "Machine \<Rightarrow> Machine" where
  "propagate_one m =
     (let a = hd (m_gray m);
          m1 = set_color (m\<lparr>m_gray := tl (m_gray m)\<rparr>) a LHAT_GC_BLACK
      in lhat_gc_children m1 a)"

text \<open>How many objects are white: what the marking can still put on the list.\<close>

definition whites :: "Machine \<Rightarrow> nat" where
  "whites m = length (filter (\<lambda>ob. case ob of Some b \<Rightarrow> is_white (ob_color b) | None \<Rightarrow> False)
                        (m_memory m))"

lemma put_frame [simp]:
  "m_gray (put m a ob) = m_gray m" "m_objects (put m a ob) = m_objects m"
  "m_white (put m a ob) = m_white m" "m_gcstate (put m a ob) = m_gcstate m"
  "length (m_memory (put m a ob)) = length (m_memory m)"
  by (simp_all add: put_def)

lemma whites_put:
  assumes "a < length (m_memory m)" "m_memory m ! a = Some b" "is_white (ob_color b)"
    "\<not> is_white (ob_color c)"
  shows "Suc (whites (put m a (Some c))) = whites m"
proof -
  define P :: "LhatObject option \<Rightarrow> bool"
    where "P = (\<lambda>ob. case ob of Some b \<Rightarrow> is_white (ob_color b) | None \<Rightarrow> False)"
  have "length (filter P (xs[a := Some c])) + 1 = length (filter P xs)"
    if "a < length xs" "P (xs ! a)" for xs
    using that by (induction xs arbitrary: a) (auto simp: P_def assms(4) nth_Cons split: nat.splits)
  then have "length (filter P ((m_memory m)[a := Some c])) + 1 = length (filter P (m_memory m))"
    using assms by (simp add: P_def)
  then show ?thesis by (simp add: whites_def P_def put_def)
qed

lemma whites_put_same:
  assumes "a < length (m_memory m)" "m_memory m ! a = Some b"
    "is_white (ob_color b) = is_white (ob_color c)"
  shows "whites (put m a (Some c)) = whites m"
proof -
  define P :: "LhatObject option \<Rightarrow> bool"
    where "P = (\<lambda>ob. case ob of Some b \<Rightarrow> is_white (ob_color b) | None \<Rightarrow> False)"
  have "length (filter P (xs[a := Some c])) = length (filter P xs)"
    if "a < length xs" "xs ! a = Some b" for xs
    using that assms(3) by (induction xs arbitrary: a) (auto simp: P_def nth_Cons split: nat.splits)
  then show ?thesis using assms(1,2) by (simp add: whites_def P_def put_def)
qed

lemma whites_gray [simp]: "whites (m\<lparr>m_gray := gs\<rparr>) = whites m"
  by (simp add: whites_def)

lemma deref_some: "deref m a = Some b \<longleftrightarrow> a < length (m_memory m) \<and> m_memory m ! a = Some b"
  by (auto simp: deref_def)

lemma gray_not_white [simp]: "\<not> is_white LHAT_GC_GRAY" "\<not> is_white LHAT_GC_BLACK"
  by (simp_all add: is_white_def gc_colors word_le_nat_alt)

lemma reach_step:
  "reach m object = m \<or>
   (\<exists>a. object = Some a \<and> white_at m a \<and>
      reach m object = (set_color m a LHAT_GC_GRAY)\<lparr>m_gray := a # m_gray m\<rparr> \<and>
      Suc (whites (reach m object)) = whites m)"
proof (cases object)
  case (Some a)
  show ?thesis
  proof (cases "white_at m a")
    case True
    then obtain b where b: "deref m a = Some b" "is_white (ob_color b)"
      by (auto simp: white_at_def split: option.splits)
    have "Suc (whites (put m a (Some (b\<lparr>ob_color := LHAT_GC_GRAY\<rparr>)))) = whites m"
      using b by (intro whites_put [of a m b]) (simp_all add: deref_some)
    with Some True b show ?thesis by (auto simp: reach_def set_color_def)
  qed (simp add: reach_def Some)
qed (simp add: reach_def)

lemma reach_all_whites:
  "whites (reach_all m refs) + length (m_gray (reach_all m refs)) = whites m + length (m_gray m)"
  unfolding reach_all_def
proof (induction refs arbitrary: m)
  case (Cons r refs)
  have "whites (reach m r) + length (m_gray (reach m r)) = whites m + length (m_gray m)"
    using reach_step [of m r] by auto
  with Cons show ?case by simp
qed simp

lemma whites_set_black: "whites (set_color m a LHAT_GC_BLACK) \<le> whites m"
proof (cases "deref m a")
  case None
  then have "(m_memory m)[a := None] = m_memory m"
    by (metis deref_def list_update_beyond list_update_id not_le)
  with None show ?thesis by (simp add: set_color_def put_def whites_def)
next
  case (Some b)
  show ?thesis
  proof (cases "is_white (ob_color b)")
    case True
    have "Suc (whites (put m a (Some (b\<lparr>ob_color := LHAT_GC_BLACK\<rparr>)))) = whites m"
      by (rule whites_put) (use Some True in \<open>auto simp: deref_some\<close>)
    then show ?thesis by (simp add: set_color_def Some)
  next
    case False
    have "whites (put m a (Some (b\<lparr>ob_color := LHAT_GC_BLACK\<rparr>))) = whites m"
      by (rule whites_put_same) (use Some False in \<open>auto simp: deref_some\<close>)
    then show ?thesis by (simp add: set_color_def Some)
  qed
qed

lemma propagate_measure:
  "m_gray m \<noteq> [] \<Longrightarrow>
   whites (propagate_one m) + length (m_gray (propagate_one m)) < whites m + length (m_gray m)"
  using whites_set_black [of "m\<lparr>m_gray := tl (m_gray m)\<rparr>" "hd (m_gray m)"]
  by (cases "m_gray m") (auto simp: propagate_one_def Let_def lhat_gc_children_def
      reach_all_whites set_color_def)

function follow_gray :: "Machine \<Rightarrow> Machine" where
  "follow_gray m = (if m_gray m \<noteq> [] then follow_gray (propagate_one m) else m)"
  by pat_completeness auto
termination
  by (relation "measure (\<lambda>m. whites m + length (m_gray m))") (auto dest: propagate_measure)

declare follow_gray.simps [simp del]

subsection \<open>Coroutines held back\<close>

definition machine_set_pending_dispose :: "Machine \<Rightarrow> addr list \<Rightarrow> Machine" where
  "machine_set_pending_dispose m pending =
     m\<lparr>m_pending_dispose := pending, m_traps := (pending \<noteq> [] \<or> m_hook_live m)\<rparr>"

definition owes_cleanups :: "LhatBody \<Rightarrow> bool" where
  "owes_cleanups body =
     (case body of
        OBJECT_COROUTINE source frame walking held captures \<Rightarrow>
          \<not> (source \<noteq> LHAT_COROUTINE_BODY \<or> cf_state frame \<noteq> LHAT_COROUTINE_SUSPENDED \<or>
             cf_cleanup_count frame = 0)
      | _ \<Rightarrow> False)"

definition hold_one :: "Machine \<Rightarrow> addr \<Rightarrow> Machine" where
  "hold_one m a =
     (if white_at m a \<and> owes_cleanups (body_of m a) then
        machine_set_pending_dispose (reach m (Some a)) (a # m_pending_dispose m)
      else m)"

definition hold_pending_disposals :: "Machine \<Rightarrow> Machine" where
  "hold_pending_disposals m = foldl hold_one m (m_objects m)"

subsection \<open>The atomic step\<close>

definition value_white :: "Machine \<Rightarrow> LhatValue \<Rightarrow> bool" where
  "value_white m v = (case v of VALUE_OBJECT (Some a) \<Rightarrow> white_at m a | _ \<Rightarrow> False)"

definition pointer_white :: "Machine \<Rightarrow> pointer \<Rightarrow> bool" where
  "pointer_white m p = (case p of Some a \<Rightarrow> white_at m a | None \<Rightarrow> False)"

definition weak_dead :: "Machine \<Rightarrow> WeakKey \<times> LhatValue \<Rightarrow> bool" where
  "weak_dead m entry = (case entry of (key, value) \<Rightarrow>
     \<not> (key = WEAK_FREE \<or> key = WEAK_GONE \<or> \<not> value_white m value))"

definition clear_weak :: "Machine \<Rightarrow> Machine" where
  "clear_weak m =
     m\<lparr>m_weak := map (\<lambda>e. if weak_dead m e then (WEAK_GONE, VALUE_NIL) else e) (m_weak m),
       m_weak_count := m_weak_count m - length (filter (weak_dead m) (m_weak m))\<rparr>"

definition clear_natives :: "Machine \<Rightarrow> Machine" where
  "clear_natives m =
     m\<lparr>m_unbound_natives := map (\<lambda>p. if pointer_white m p then None else p) (m_unbound_natives m)\<rparr>"

definition clear_caches :: "Machine \<Rightarrow> Machine" where
  "clear_caches m =
     m\<lparr>m_member_caches :=
         map (\<lambda>c. if mc_answered c \<noteq> None \<and>
                    (pointer_white m (mc_answered c) \<or> pointer_white m (mc_receiver c) \<or>
                     pointer_white m (mc_lender c))
                  then c\<lparr>mc_answered := None\<rparr> else c) (m_member_caches m)\<rparr>"

definition begin_sweep :: "Machine \<Rightarrow> Machine" where
  "begin_sweep m =
     m\<lparr>m_white := lhat_gc_other_white (m_white m), m_sweep := 0, m_gcstate := LHAT_GC_SWEEP\<rparr>"

definition atomic :: "Machine \<Rightarrow> Machine" where
  "atomic m =
     (let m1 = follow_gray (mark_roots m);
          m2 = follow_gray (hold_pending_disposals m1)
      in begin_sweep (clear_caches (clear_natives (clear_weak m2))))"

subsection \<open>The sweep\<close>

text \<open>The bodies of a script go with its last closure, and its objects become the machine's: at
  the head of the list, wearing the colour of the living.\<close>

definition give_script_objects :: "Machine \<Rightarrow> LhatBody \<Rightarrow> Machine" where
  "give_script_objects m body =
     (case body of
        OBJECT_SCRIPT given \<Rightarrow>
          (foldl (\<lambda>m a. set_color m a (m_white m)) m given)
            \<lparr>m_objects := given @ m_objects m,
             m_count := m_count m + length given,
             m_sweep := (if m_sweep m = 0 then 0 else m_sweep m + length given)\<rparr>
      | _ \<Rightarrow> m)"

text \<open>The object at the link is unlinked, released and freed.\<close>

definition sweep_free :: "Machine \<Rightarrow> addr \<Rightarrow> Machine" where
  "sweep_free m a =
     (let m1 = m\<lparr>m_objects := take (m_sweep m) (m_objects m) @ drop (Suc (m_sweep m)) (m_objects m),
                 m_released := a # m_released m\<rparr>;
          m2 = give_script_objects m1 (body_of m1 a)
      in (put m2 a None)\<lparr>m_count := m_count m2 - 1, m_collected := m_collected m2 + 1\<rparr>)"

definition sweep_one :: "Machine \<Rightarrow> Machine" where
  "sweep_one m =
     (let dead = lhat_gc_other_white (m_white m);
          a = m_objects m ! m_sweep m
      in if has_color m a dead then sweep_free m a
         else (set_color m a (m_white m))\<lparr>m_sweep := m_sweep m + 1\<rparr>)"

definition sweep_done :: "Machine \<Rightarrow> bool" where
  "sweep_done m \<longleftrightarrow> length (m_objects m) \<le> m_sweep m"

text \<open>The loop, with how many objects it has looked at.\<close>

function sweep_loop :: "Machine \<Rightarrow> nat \<Rightarrow> nat \<Rightarrow> Machine \<times> nat" where
  "sweep_loop m budget looked =
     (if looked < budget \<and> \<not> sweep_done m then sweep_loop (sweep_one m) budget (looked + 1)
      else (m, looked))"
  by pat_completeness auto
termination by (relation "measure (\<lambda>(m, budget, looked). budget - looked)") auto

declare sweep_loop.simps [simp del]

definition sweep_some :: "Machine \<Rightarrow> nat \<Rightarrow> Machine \<times> nat" where
  "sweep_some m budget =
     (case sweep_loop m budget 0 of (m1, looked) \<Rightarrow>
        (if sweep_done m1
         then m1\<lparr>m_sweep := 0, m_gcstate := LHAT_GC_PAUSE, m_gc_cycles := m_gc_cycles m1 + 1\<rparr>
         else m1, looked))"

subsection \<open>A step of the cycle\<close>

definition start_cycle :: "Machine \<Rightarrow> Machine" where
  "start_cycle m = (mark_roots m)\<lparr>m_gcstate := LHAT_GC_PROPAGATE\<rparr>"

definition single_step :: "Machine \<Rightarrow> nat \<Rightarrow> Machine \<times> nat" where
  "single_step m budget =
     (case m_gcstate m of
        LHAT_GC_PAUSE \<Rightarrow> (start_cycle m, 1)
      | LHAT_GC_PROPAGATE \<Rightarrow>
          if m_gray m \<noteq> [] then (propagate_one m, 1) else (atomic m, budget)
      | LHAT_GC_SWEEP \<Rightarrow> sweep_some m budget)"

definition lhat_gc_rearm :: "Machine \<Rightarrow> Machine" where
  "lhat_gc_rearm m =
     (if m_gc_paused m then m\<lparr>m_threshold := SIZE_MAX\<rparr>
      else if m_gcstate m = LHAT_GC_PAUSE then
        m\<lparr>m_threshold := m_count m * unat (m_gc_growth m) div 100 + LHAT_GC_MIN_THRESHOLD\<rparr>
      else m\<lparr>m_threshold := m_count m + unat (m_gc_stepsize m)\<rparr>)"

subsection \<open>The loops of the pacing\<close>

text \<open>What is left of a sweep: the objects still wearing the dead white, and the list behind the
  link.\<close>

definition colored :: "GcColor \<Rightarrow> LhatObject option list \<Rightarrow> nat" where
  "colored c mem = length (filter (\<lambda>ob. case ob of Some b \<Rightarrow> ob_color b = c | None \<Rightarrow> False) mem)"

definition deads :: "Machine \<Rightarrow> nat" where
  "deads m = colored (lhat_gc_other_white (m_white m)) (m_memory m)"

lemma other_white_neq [simp]: "w \<noteq> lhat_gc_other_white w" "lhat_gc_other_white w \<noteq> w"
proof -
  show "w \<noteq> lhat_gc_other_white w"
  proof
    assume "w = lhat_gc_other_white w"
    then have "w + w = 1" by (simp add: lhat_gc_other_white_def gc_colors algebra_simps)
    then have "odd (w + w)" by simp
    then show False by simp
  qed
  then show "lhat_gc_other_white w \<noteq> w" by metis
qed

lemma colored_update_le:
  "(case ob of Some b \<Rightarrow> ob_color b \<noteq> c | None \<Rightarrow> True) \<Longrightarrow> colored c (xs[a := ob]) \<le> colored c xs"
  unfolding colored_def
  by (induction xs arbitrary: a) (auto simp: nth_Cons split: nat.splits option.splits)

lemma colored_update_less:
  "a < length xs \<Longrightarrow> xs ! a = Some b \<Longrightarrow> ob_color b = c \<Longrightarrow>
   (case ob of Some b \<Rightarrow> ob_color b \<noteq> c | None \<Rightarrow> True) \<Longrightarrow> colored c (xs[a := ob]) < colored c xs"
proof (induction xs arbitrary: a)
  case (Cons x xs)
  show ?case
  proof (cases a)
    case 0
    with Cons.prems show ?thesis by (auto simp: colored_def split: option.splits)
  next
    case (Suc k)
    then have "colored c (xs[k := ob]) < colored c xs" using Cons by simp
    with Suc show ?thesis by (simp add: colored_def split: option.splits)
  qed
qed simp

lemma set_color_memory:
  "m_memory (set_color m a c) = (m_memory m)[a := map_option (\<lambda>ob. ob\<lparr>ob_color := c\<rparr>) (deref m a)]"
  by (simp add: set_color_def put_def)

lemma set_color_frame [simp]:
  "m_white (set_color m a c) = m_white m" "m_objects (set_color m a c) = m_objects m"
  "m_sweep (set_color m a c) = m_sweep m" "m_gcstate (set_color m a c) = m_gcstate m"
  by (simp_all add: set_color_def put_def)

lemma color_fold_frame:
  "m_white (foldl (\<lambda>m a. set_color m a (m_white m)) m given) = m_white m \<and>
   m_gcstate (foldl (\<lambda>m a. set_color m a (m_white m)) m given) = m_gcstate m"
  by (induction given arbitrary: m) auto

lemma color_fold:
  "colored (lhat_gc_other_white (m_white m)) (m_memory (foldl (\<lambda>m a. set_color m a (m_white m)) m given))
     \<le> colored (lhat_gc_other_white (m_white m)) (m_memory m)"
proof (induction given arbitrary: m)
  case (Cons g given)
  have "colored (lhat_gc_other_white (m_white m)) (m_memory (set_color m g (m_white m)))
      \<le> colored (lhat_gc_other_white (m_white m)) (m_memory m)"
    unfolding set_color_memory by (rule colored_update_le) (auto split: option.splits)
  with Cons.IH [of "set_color m g (m_white m)"] show ?case by simp
qed simp

lemma give_frame [simp]:
  "m_white (give_script_objects m body) = m_white m"
  "m_gcstate (give_script_objects m body) = m_gcstate m"
  "colored (lhat_gc_other_white (m_white m)) (m_memory (give_script_objects m body))
     \<le> colored (lhat_gc_other_white (m_white m)) (m_memory m)"
  by (auto simp: give_script_objects_def color_fold color_fold_frame split: LhatBody.splits)

lemma color_fold_hole:
  "colored (lhat_gc_other_white (m_white m))
     ((m_memory (foldl (\<lambda>m a. set_color m a (m_white m)) m given))[a := None])
   \<le> colored (lhat_gc_other_white (m_white m)) ((m_memory m)[a := None])"
proof (induction given arbitrary: m)
  case (Cons g given)
  have "colored (lhat_gc_other_white (m_white m)) ((m_memory (set_color m g (m_white m)))[a := None])
      \<le> colored (lhat_gc_other_white (m_white m)) ((m_memory m)[a := None])"
  proof (cases "g = a")
    case True
    then show ?thesis by (simp add: set_color_memory)
  next
    case False
    then show ?thesis unfolding set_color_memory
      by (subst list_update_swap) (auto intro: colored_update_le split: option.splits)
  qed
  with Cons.IH [of "set_color m g (m_white m)"] show ?case by simp
qed simp

lemma give_hole:
  "colored (lhat_gc_other_white (m_white m)) ((m_memory (give_script_objects m body))[a := None])
   \<le> colored (lhat_gc_other_white (m_white m)) ((m_memory m)[a := None])"
  by (auto simp: give_script_objects_def color_fold_hole split: LhatBody.splits)

definition sweep_left :: "Machine \<Rightarrow> nat" where
  "sweep_left m = length (m_objects m) - m_sweep m"

definition sweep_less :: "Machine \<Rightarrow> Machine \<Rightarrow> bool" where
  "sweep_less m' m \<longleftrightarrow> deads m' < deads m \<or> deads m' = deads m \<and> sweep_left m' < sweep_left m"

lemma sweep_less_trans: "sweep_less m2 m1 \<Longrightarrow> sweep_less m1 m \<Longrightarrow> sweep_less m2 m"
  by (auto simp: sweep_less_def)

lemma sweep_one_white [simp]: "m_white (sweep_one m) = m_white m" "m_gcstate (sweep_one m) = m_gcstate m"
  by (auto simp: sweep_one_def Let_def sweep_free_def)

lemma sweep_one_less:
  assumes "\<not> sweep_done m"
  shows "sweep_less (sweep_one m) m"
proof (cases "has_color m (m_objects m ! m_sweep m) (lhat_gc_other_white (m_white m))")
  case True
  let ?a = "m_objects m ! m_sweep m" and ?d = "lhat_gc_other_white (m_white m)"
  let ?m1 = "m\<lparr>m_objects := take (m_sweep m) (m_objects m) @ drop (Suc (m_sweep m)) (m_objects m),
     m_released := ?a # m_released m\<rparr>"
  obtain b where b: "deref m ?a = Some b" "ob_color b = ?d"
    using True by (auto simp: has_color_def split: option.splits)
  have "colored ?d ((m_memory (give_script_objects ?m1 (body_of ?m1 ?a)))[?a := None])
      \<le> colored ?d ((m_memory m)[?a := None])"
    using give_hole [of ?m1] by simp
  also have "\<dots> < colored ?d (m_memory m)"
    using b by (intro colored_update_less [of _ _ b]) (auto simp: deref_some)
  finally have "deads (sweep_one m) < deads m"
    using True by (simp add: deads_def sweep_one_def sweep_free_def Let_def put_def)
  then show ?thesis by (simp add: sweep_less_def)
next
  case False
  have "deads (set_color m (m_objects m ! m_sweep m) (m_white m)) \<le> deads m"
    unfolding deads_def set_color_frame set_color_memory
    by (rule colored_update_le) (auto split: option.splits)
  with False assms show ?thesis
    by (auto simp: sweep_less_def sweep_one_def Let_def deads_def sweep_left_def sweep_done_def)
qed

lemma sweep_loop_white [simp]:
  "m_white (fst (sweep_loop m budget looked)) = m_white m"
  "m_gcstate (fst (sweep_loop m budget looked)) = m_gcstate m"
  by (induction m budget looked rule: sweep_loop.induct) (subst sweep_loop.simps, simp)+

lemma sweep_loop_less:
  "looked < budget \<Longrightarrow> \<not> sweep_done m \<Longrightarrow> sweep_less (fst (sweep_loop m budget looked)) m"
proof (induction m budget looked rule: sweep_loop.induct)
  case (1 m budget looked)
  have o: "sweep_less (sweep_one m) m" using 1(3) by (rule sweep_one_less)
  have l: "sweep_loop m budget looked = sweep_loop (sweep_one m) budget (looked + 1)"
    using 1(2,3) by (subst sweep_loop.simps) simp
  show ?case
  proof (cases "looked + 1 < budget \<and> \<not> sweep_done (sweep_one m)")
    case True
    then show ?thesis using 1 o unfolding l by (auto intro: sweep_less_trans)
  next
    case False
    then have "sweep_loop (sweep_one m) budget (looked + 1) = (sweep_one m, looked + 1)"
      by (subst sweep_loop.simps) (rule if_not_P)
    with o show ?thesis by (simp add: l)
  qed
qed

lemma sweep_loop_looked: "looked \<le> snd (sweep_loop m budget looked)"
proof (induction m budget looked rule: sweep_loop.induct)
  case (1 m budget looked)
  then show ?case by (subst sweep_loop.simps) auto
qed

lemma sweep_loop_budget:
  "looked \<le> budget \<Longrightarrow> snd (sweep_loop m budget looked) \<le> budget"
proof (induction m budget looked rule: sweep_loop.induct)
  case (1 m budget looked)
  then show ?case by (subst sweep_loop.simps) auto
qed

text \<open>A step looks at something, or ends the cycle.\<close>

lemma sweep_some_looks:
  assumes "sweep_some m budget = (m', looked)" "0 < budget"
  shows "0 < looked \<or> m_gcstate m' = LHAT_GC_PAUSE"
proof (cases "sweep_done m")
  case True
  then have "sweep_loop m budget 0 = (m, 0)" by (subst sweep_loop.simps) simp
  with assms(1) True show ?thesis by (auto simp: sweep_some_def)
next
  case False
  then have "sweep_loop m budget 0 = sweep_loop (sweep_one m) budget 1"
    using assms(2) by (subst sweep_loop.simps) simp
  then show ?thesis
    using assms(1) sweep_loop_looked [of 1 "sweep_one m" budget]
    by (auto simp: sweep_some_def split: prod.splits)
qed

lemma single_step_looks:
  assumes "single_step m budget = (m', k)" "0 < budget"
  shows "0 < k \<or> m_gcstate m \<noteq> LHAT_GC_PAUSE \<and> m_gcstate m' = LHAT_GC_PAUSE"
  using assms sweep_some_looks [of m budget m' k]
  by (auto simp: single_step_def split: GcState.splits if_splits)

lemma single_step_within:
  "single_step m budget = (m', k) \<Longrightarrow> 0 < budget \<Longrightarrow> k \<le> budget"
  using sweep_loop_budget [of 0 budget m]
  by (auto simp: single_step_def sweep_some_def split: GcState.splits if_splits prod.splits)

function advance_loop :: "Machine \<Rightarrow> nat \<Rightarrow> nat \<Rightarrow> Machine \<times> bool" where
  "advance_loop m budget looked =
     (if looked < budget then
        (case single_step m (budget - looked) of (m1, n) \<Rightarrow>
          if m_gcstate m \<noteq> LHAT_GC_PAUSE \<and> m_gcstate m1 = LHAT_GC_PAUSE then (m1, True)
          else advance_loop m1 budget (looked + n))
      else (m, False))"
  by pat_completeness auto
termination
  by (relation "measure (\<lambda>(m, budget, looked). budget - looked)")
     (auto dest: single_step_looks [OF sym])

declare advance_loop.simps [simp del]

definition lhat_gc_advance :: "Machine \<Rightarrow> nat \<Rightarrow> Machine \<times> bool" where
  "lhat_gc_advance m budget =
     (case advance_loop m budget 0 of (m1, finished) \<Rightarrow> (lhat_gc_rearm m1, finished))"

text \<open>The rest of the loop of \<open>lhat_gc_step\<close>, after its first round.\<close>

function step_loop :: "Machine \<Rightarrow> nat \<Rightarrow> nat \<Rightarrow> Machine" where
  "step_loop m budget looked =
     (if looked < budget \<and> m_gcstate m \<noteq> LHAT_GC_PAUSE then
        (case single_step m (budget - looked) of (m1, n) \<Rightarrow> step_loop m1 budget (looked + n))
      else m)"
  by pat_completeness auto
termination
  by (relation "measures [\<lambda>(m, budget, looked). budget - looked,
        \<lambda>(m, budget, looked). if m_gcstate m = LHAT_GC_PAUSE then 0 else 1]")
     (auto dest: single_step_looks [OF sym])

declare step_loop.simps [simp del]

definition lhat_gc_step :: "Machine \<Rightarrow> Machine" where
  "lhat_gc_step m =
     (let budget = unat (m_gc_stepsize m) * unat (m_gc_stepmul m) div 100
      in case single_step m budget of (m1, n) \<Rightarrow> lhat_gc_rearm (step_loop m1 budget n))"

subsection \<open>A whole cycle\<close>

definition cycle_rank :: "Machine \<Rightarrow> nat" where
  "cycle_rank m = (case m_gcstate m of LHAT_GC_PAUSE \<Rightarrow> 0 | LHAT_GC_SWEEP \<Rightarrow> 1 | LHAT_GC_PROPAGATE \<Rightarrow> 2)"

definition cycle_measure :: "Machine \<Rightarrow> nat" where
  "cycle_measure m =
     (if m_gcstate m = LHAT_GC_PROPAGATE then whites m + length (m_gray m) else deads m)"

lemma reach_all_gcstate [simp]: "m_gcstate (reach_all m refs) = m_gcstate m"
  unfolding reach_all_def
  by (induction refs arbitrary: m) (auto simp: reach_def set_color_def split: option.splits)

lemma propagate_gcstate [simp]: "m_gcstate (propagate_one m) = m_gcstate m"
  by (simp add: propagate_one_def Let_def lhat_gc_children_def)

lemma single_step_measure:
  assumes "m_gcstate m \<noteq> LHAT_GC_PAUSE" "single_step m budget = (m', n)" "0 < budget"
  shows "cycle_rank m' < cycle_rank m \<or> cycle_rank m' = cycle_rank m \<and>
     (cycle_measure m' < cycle_measure m \<or>
      cycle_measure m' = cycle_measure m \<and> sweep_left m' < sweep_left m)"
proof (cases "m_gcstate m")
  case LHAT_GC_PAUSE
  with assms show ?thesis by simp
next
  case LHAT_GC_PROPAGATE
  with assms(2) propagate_measure [of m] show ?thesis
    by (auto simp: single_step_def cycle_rank_def cycle_measure_def atomic_def Let_def begin_sweep_def
        split: if_splits)
next
  case LHAT_GC_SWEEP
  obtain m1 k where l: "sweep_loop m budget 0 = (m1, k)" by fastforce
  have s: "m_gcstate m1 = LHAT_GC_SWEEP"
    using LHAT_GC_SWEEP sweep_loop_white(2) [of m budget 0] l by simp
  show ?thesis
  proof (cases "sweep_done m1")
    case True
    with assms(2) l LHAT_GC_SWEEP show ?thesis
      by (auto simp: single_step_def sweep_some_def cycle_rank_def)
  next
    case False
    then have "m' = m1" using assms(2) l LHAT_GC_SWEEP
      by (simp add: single_step_def sweep_some_def)
    moreover have "\<not> sweep_done m"
    proof
      assume "sweep_done m"
      then have "sweep_loop m budget 0 = (m, 0)" by (subst sweep_loop.simps) simp
      with l False \<open>sweep_done m\<close> show False by simp
    qed
    ultimately show ?thesis
      using sweep_loop_less [of 0 budget m] l LHAT_GC_SWEEP s assms(3)
      by (auto simp: sweep_less_def cycle_rank_def cycle_measure_def)
  qed
qed

lemma size_max_pos: "0 < SIZE_MAX"
  by (simp add: SIZE_MAX_def)

function run_to_pause :: "Machine \<Rightarrow> Machine" where
  "run_to_pause m =
     (if m_gcstate m \<noteq> LHAT_GC_PAUSE then run_to_pause (fst (single_step m SIZE_MAX)) else m)"
  by pat_completeness auto
termination
  by (relation "measures [cycle_rank, cycle_measure, sweep_left]")
     (auto dest!: single_step_measure [OF _ surjective_pairing size_max_pos])

declare run_to_pause.simps [simp del]

definition lhat_gc_collect :: "Machine \<Rightarrow> Machine" where
  "lhat_gc_collect m = lhat_gc_rearm (run_to_pause (start_cycle (run_to_pause m)))"

subsection \<open>The barriers\<close>

definition lhat_gc_barrier :: "Machine \<Rightarrow> addr \<Rightarrow> LhatValue \<Rightarrow> Machine" where
  "lhat_gc_barrier m parent value =
     (if m_gcstate m \<noteq> LHAT_GC_PROPAGATE \<or> \<not> has_color m parent LHAT_GC_BLACK then m
      else lhat_gc_reach m value)"

definition lhat_gc_barrier_back :: "Machine \<Rightarrow> addr \<Rightarrow> LhatValue \<Rightarrow> Machine" where
  "lhat_gc_barrier_back m parent value =
     (if m_gcstate m \<noteq> LHAT_GC_PROPAGATE \<or> \<not> has_color m parent LHAT_GC_BLACK \<or>
         \<not> value_white m value then m
      else (set_color m parent LHAT_GC_GRAY)\<lparr>m_gray := parent # m_gray m\<rparr>)"

definition lhat_gc_take_pending :: "Machine \<Rightarrow> pointer \<times> Machine" where
  "lhat_gc_take_pending m =
     (case m_pending_dispose m of
        [] \<Rightarrow> (None, m)
      | co # rest \<Rightarrow> (Some co, machine_set_pending_dispose m rest))"

end
