(* ===== verification/Lhat_GcMark.thy ===== *)
theory Lhat_GcMark
  imports Lhat_Gc
begin

text \<open>
  Marking: what \<open>reach\<close>, \<open>propagate_one\<close> and \<open>follow_gray\<close> change (colours and the gray list, and
  nothing else), and the tricolour invariant they keep.
\<close>

subsection \<open>Colours of a machine\<close>

lemma deref_put: "deref (put m a ob) b = (if a = b \<and> a < length (m_memory m) then ob else deref m b)"
  by (auto simp: deref_def put_def)

lemma deref_set_color:
  "deref (set_color m a c) b =
     (if a = b then map_option (\<lambda>ob. ob\<lparr>ob_color := c\<rparr>) (deref m b) else deref m b)"
  by (auto simp: set_color_def deref_put) (simp add: deref_def)

lemma deref_gray [simp]: "deref (m\<lparr>m_gray := g\<rparr>) a = deref m a"
  by (simp add: deref_def)

lemma white_set_color:
  "white_at (set_color m a c) b = (if a = b then deref m a \<noteq> None \<and> is_white c else white_at m b)"
  by (auto simp: white_at_def deref_set_color split: option.splits)

lemma has_color_set_color:
  "has_color (set_color m a c) b d = (if a = b then deref m a \<noteq> None \<and> c = d else has_color m b d)"
  by (auto simp: has_color_def deref_set_color split: option.splits)

lemma color_gray [simp]:
  "white_at (m\<lparr>m_gray := g\<rparr>) a = white_at m a" "has_color (m\<lparr>m_gray := g\<rparr>) a c = has_color m a c"
  by (simp_all add: white_at_def has_color_def)

lemma white_exists: "white_at m a \<Longrightarrow> deref m a \<noteq> None"
  by (auto simp: white_at_def split: option.splits)

lemma color_exists: "has_color m a c \<Longrightarrow> deref m a \<noteq> None"
  by (auto simp: has_color_def split: option.splits)

lemma white_not_color: "white_at m a \<Longrightarrow> \<not> is_white c \<Longrightarrow> \<not> has_color m a c"
  by (auto simp: white_at_def has_color_def split: option.splits)

subsection \<open>The same machine but for the colours\<close>

definition bodies :: "Machine \<Rightarrow> LhatBody option list" where
  "bodies m = map (map_option ob_body) (m_memory m)"

definition recolored :: "Machine \<Rightarrow> Machine \<Rightarrow> bool" where
  "recolored m m' \<longleftrightarrow>
     bodies m' = bodies m \<and> m' = m\<lparr>m_memory := m_memory m', m_gray := m_gray m'\<rparr>"

lemma recolored_refl [simp]: "recolored m m"
  by (simp add: recolored_def)

lemma recolored_trans:
  assumes "recolored m m1" "recolored m1 m2"
  shows "recolored m m2"
proof -
  have b: "bodies m2 = bodies m" using assms by (simp add: recolored_def)
  have "m2 = m1\<lparr>m_memory := m_memory m2, m_gray := m_gray m2\<rparr>"
    and "m1 = m\<lparr>m_memory := m_memory m1, m_gray := m_gray m1\<rparr>"
    using assms by (simp_all add: recolored_def)
  then have "m2 = m\<lparr>m_memory := m_memory m2, m_gray := m_gray m2\<rparr>"
    by (metis (no_types, lifting) Machine.surjective Machine.update_convs(1,5))
  with b show ?thesis by (simp add: recolored_def)
qed

lemma recolored_fields:
  assumes "recolored m m'"
  shows "m_objects m' = m_objects m" "m_count m' = m_count m" "m_white m' = m_white m"
    "m_gcstate m' = m_gcstate m" "m_sweep m' = m_sweep m" "m_slots m' = m_slots m"
    "m_frames m' = m_frames m" "m_open m' = m_open m" "m_pending_dispose m' = m_pending_dispose m"
    "m_weak m' = m_weak m" "m_unbound_natives m' = m_unbound_natives m"
    "m_member_caches m' = m_member_caches m"
proof -
  have e: "m' = m\<lparr>m_memory := m_memory m', m_gray := m_gray m'\<rparr>"
    using assms by (simp add: recolored_def)
  show "m_objects m' = m_objects m" "m_count m' = m_count m" "m_white m' = m_white m"
    "m_gcstate m' = m_gcstate m" "m_sweep m' = m_sweep m" "m_slots m' = m_slots m"
    "m_frames m' = m_frames m" "m_open m' = m_open m" "m_pending_dispose m' = m_pending_dispose m"
    "m_weak m' = m_weak m" "m_unbound_natives m' = m_unbound_natives m"
    "m_member_caches m' = m_member_caches m"
    by (subst e, simp)+
qed

lemma recolored_deref:
  assumes "recolored m m'"
  shows "map_option ob_body (deref m' a) = map_option ob_body (deref m a)"
proof -
  have b: "bodies m' = bodies m" using assms by (simp add: recolored_def)
  then have l: "length (m_memory m') = length (m_memory m)"
    by (metis bodies_def length_map)
  show ?thesis
  proof (cases "a < length (m_memory m)")
    case True
    then have "bodies m' ! a = bodies m ! a" using b by simp
    with True l show ?thesis by (simp add: deref_def bodies_def)
  qed (simp add: deref_def l)
qed

lemma recolored_body: "recolored m m' \<Longrightarrow> body_of m' a = body_of m a"
  using recolored_deref [of m m' a] by (auto simp: body_of_def split: option.splits)

lemma recolored_exists: "recolored m m' \<Longrightarrow> deref m' a = None \<longleftrightarrow> deref m a = None"
  using recolored_deref [of m m' a] by (cases "deref m a"; cases "deref m' a") auto

lemma recolored_refs:
  assumes "recolored m m'"
  shows "object_refs m' body = object_refs m body" "root_refs m' = root_refs m"
proof -
  have r: "ref_get m' l v = ref_get m l v" for l v
    using recolored_body [OF assms] recolored_fields(6) [OF assms]
    by (simp add: ref_get_def split: LhatPlace.splits)
  show "object_refs m' body = object_refs m body"
    by (simp add: object_refs_def r split: LhatBody.splits)
  have e: "m' = m\<lparr>m_memory := m_memory m', m_gray := m_gray m'\<rparr>"
    using assms by (simp add: recolored_def)
  have f: "frame_roots m' = frame_roots m"
    by (rule ext) (simp add: frame_roots_def frame_width_def recolored_body [OF assms]
      recolored_fields(6) [OF assms])
  show "root_refs m' = root_refs m"
    unfolding root_refs_def f by (subst e, simp)+
qed

lemma set_color_gray [simp]: "m_gray (set_color m a c) = m_gray m"
  by (simp add: set_color_def)

lemma recolored_gray: "recolored m (m\<lparr>m_gray := g\<rparr>)"
  by (simp add: recolored_def bodies_def)

lemma recolored_set_color: "recolored m (set_color m a c)"
proof -
  have "bodies (set_color m a c) = bodies m"
  proof (rule nth_equalityI)
    fix i assume "i < length (bodies (set_color m a c))"
    then show "bodies (set_color m a c) ! i = bodies m ! i"
      by (cases "i = a")
         (auto simp: bodies_def set_color_memory deref_def nth_list_update option.map_comp o_def)
  qed (simp add: bodies_def set_color_memory)
  then show ?thesis by (simp add: recolored_def set_color_def put_def)
qed

lemma recolored_reach: "recolored m (reach m p)"
  by (auto simp: reach_def intro: recolored_trans [OF recolored_set_color recolored_gray]
      split: option.splits)

lemma recolored_reach_all: "recolored m (reach_all m ps)"
  unfolding reach_all_def
  by (induction ps arbitrary: m) (auto intro: recolored_trans [OF recolored_reach])

lemma recolored_propagate: "recolored m (propagate_one m)"
  unfolding propagate_one_def Let_def lhat_gc_children_def
  by (intro recolored_trans [OF recolored_trans [OF recolored_gray recolored_set_color]
        recolored_reach_all])

lemma recolored_follow: "recolored m (follow_gray m)"
proof (induction m rule: follow_gray.induct)
  case (1 m)
  then show ?case
    by (subst follow_gray.simps) (auto intro: recolored_trans [OF recolored_propagate])
qed

subsection \<open>What reaching marks\<close>

definition gray_ok :: "Machine \<Rightarrow> bool" where
  "gray_ok m \<longleftrightarrow> distinct (m_gray m) \<and> (\<forall>a. a \<in> set (m_gray m) \<longleftrightarrow> has_color m a LHAT_GC_GRAY)"

lemma reach_color:
  "white_at (reach m p) c \<longleftrightarrow> white_at m c \<and> p \<noteq> Some c"
  "has_color (reach m p) c LHAT_GC_BLACK \<longleftrightarrow> has_color m c LHAT_GC_BLACK"
  by (cases p; auto simp: reach_def white_set_color has_color_set_color gc_colors is_white_def
        word_le_nat_alt dest: white_exists white_not_color [where c = 3])+

lemma reach_all_color:
  "white_at (reach_all m ps) c \<longleftrightarrow> white_at m c \<and> Some c \<notin> set ps"
  "has_color (reach_all m ps) c LHAT_GC_BLACK \<longleftrightarrow> has_color m c LHAT_GC_BLACK"
  unfolding reach_all_def
  by (induction ps arbitrary: m) (auto simp: reach_color)

lemma gray_ok_reach: "gray_ok m \<Longrightarrow> gray_ok (reach m p)"
  by (cases p) (auto simp: reach_def gray_ok_def has_color_set_color
      dest: white_exists white_not_color [where c = LHAT_GC_GRAY])

lemma gray_ok_reach_all: "gray_ok m \<Longrightarrow> gray_ok (reach_all m ps)"
  unfolding reach_all_def by (induction ps arbitrary: m) (auto intro: gray_ok_reach)

lemma propagate_color:
  assumes "m_gray m = a # gs" "gray_ok m"
  shows "white_at (propagate_one m) c \<longleftrightarrow> white_at m c \<and> Some c \<notin> set (object_refs m (body_of m a))"
    "has_color (propagate_one m) c LHAT_GC_BLACK \<longleftrightarrow> has_color m c LHAT_GC_BLACK \<or> c = a"
    "gray_ok (propagate_one m)"
proof -
  have g: "has_color m a LHAT_GC_GRAY" using assms by (auto simp: gray_ok_def)
  define m1 where "m1 = set_color (m\<lparr>m_gray := gs\<rparr>) a LHAT_GC_BLACK"
  have r: "recolored m m1"
    unfolding m1_def by (rule recolored_trans [OF recolored_gray recolored_set_color])
  have p: "propagate_one m = reach_all m1 (object_refs m (body_of m a))"
    unfolding propagate_one_def lhat_gc_children_def Let_def assms(1) list.sel m1_def [symmetric]
    by (simp add: recolored_refs [OF r] recolored_body [OF r])
  have w: "white_at m1 c \<longleftrightarrow> white_at m c" for c
    using white_not_color [of m c LHAT_GC_GRAY] g by (auto simp: m1_def white_set_color)
  have b: "has_color m1 c LHAT_GC_BLACK \<longleftrightarrow> has_color m c LHAT_GC_BLACK \<or> c = a" for c
    using color_exists [OF g] by (auto simp: m1_def has_color_set_color)
  show "white_at (propagate_one m) c \<longleftrightarrow> white_at m c \<and> Some c \<notin> set (object_refs m (body_of m a))"
    "has_color (propagate_one m) c LHAT_GC_BLACK \<longleftrightarrow> has_color m c LHAT_GC_BLACK \<or> c = a"
    by (simp_all add: p reach_all_color w b)
  have "gray_ok m1"
    using assms by (auto simp: m1_def gray_ok_def has_color_set_color gc_colors set_color_gray)
  then show "gray_ok (propagate_one m)" unfolding p by (rule gray_ok_reach_all)
qed

subsection \<open>The tricolour invariant\<close>

text \<open>
  What an object refers to through itself alone.  An upvalue that is not closed reads a place of
  another: a slot of the stack, which is a root, or a saved register of the coroutine that it
  also refers to.
\<close>

definition own_refs :: "Machine \<Rightarrow> LhatBody \<Rightarrow> pointer list" where
  "own_refs m body =
     (case body of
        OBJECT_UPVALUE (PLACE_SLOT i) cell suspended_in \<Rightarrow> [suspended_in]
      | OBJECT_UPVALUE (PLACE_SAVED co i) cell suspended_in \<Rightarrow> [suspended_in]
      | _ \<Rightarrow> object_refs m body)"

definition tricolor :: "Machine \<Rightarrow> bool" where
  "tricolor m \<longleftrightarrow>
     (\<forall>a c. has_color m a LHAT_GC_BLACK \<longrightarrow> Some c \<in> set (own_refs m (body_of m a)) \<longrightarrow>
        \<not> white_at m c)"

definition roots_marked :: "Machine \<Rightarrow> bool" where
  "roots_marked m \<longleftrightarrow> (\<forall>c. Some c \<in> set (root_refs m) \<longrightarrow> \<not> white_at m c)"

lemma own_refs_subset: "set (own_refs m body) \<subseteq> set (object_refs m body)"
  by (auto simp: own_refs_def object_refs_def split: LhatBody.splits LhatPlace.splits)

lemma recolored_own: "recolored m m' \<Longrightarrow> own_refs m' body = own_refs m body"
  by (auto simp: own_refs_def recolored_refs split: LhatBody.splits LhatPlace.splits)

lemma tricolor_reach_all: "tricolor m \<Longrightarrow> tricolor (reach_all m ps)"
  using recolored_reach_all [of m ps]
  by (auto simp: tricolor_def reach_all_color recolored_own recolored_body)

lemma roots_marked_recolored:
  "roots_marked m \<Longrightarrow> recolored m m' \<Longrightarrow> (\<And>c. white_at m' c \<Longrightarrow> white_at m c) \<Longrightarrow> roots_marked m'"
  by (auto simp: roots_marked_def recolored_refs)

lemma roots_marked_mark_roots: "roots_marked (mark_roots m)"
  using recolored_reach_all [of m "root_refs m"]
  by (simp add: roots_marked_def mark_roots_def reach_all_color recolored_refs)

lemma tricolor_propagate:
  assumes "tricolor m" "gray_ok m" "m_gray m \<noteq> []"
  shows "tricolor (propagate_one m)"
proof -
  obtain a gs where g: "m_gray m = a # gs" using assms(3) by (cases "m_gray m") auto
  note c = propagate_color [OF g assms(2)]
  show ?thesis
    unfolding tricolor_def c(1,2) recolored_own [OF recolored_propagate] recolored_body [OF recolored_propagate]
    using assms(1) own_refs_subset by (fastforce simp: tricolor_def)
qed

lemma propagate_white:
  assumes "gray_ok m" "m_gray m \<noteq> []"
  shows "white_at (propagate_one m) c \<Longrightarrow> white_at m c" "gray_ok (propagate_one m)"
    "has_color m c LHAT_GC_BLACK \<Longrightarrow> has_color (propagate_one m) c LHAT_GC_BLACK"
proof -
  obtain a gs where g: "m_gray m = a # gs" using assms(2) by (cases "m_gray m") auto
  show "white_at (propagate_one m) c \<Longrightarrow> white_at m c" "gray_ok (propagate_one m)"
    "has_color m c LHAT_GC_BLACK \<Longrightarrow> has_color (propagate_one m) c LHAT_GC_BLACK"
    using propagate_color [OF g assms(1)] by auto
qed

lemma follow_gray_marks:
  assumes "tricolor m" "gray_ok m"
  shows "tricolor (follow_gray m)" "gray_ok (follow_gray m)" "m_gray (follow_gray m) = []"
    "\<And>c. white_at (follow_gray m) c \<Longrightarrow> white_at m c"
proof -
  have "tricolor (follow_gray m) \<and> gray_ok (follow_gray m) \<and> m_gray (follow_gray m) = [] \<and>
      (\<forall>c. white_at (follow_gray m) c \<longrightarrow> white_at m c)"
    using assms
  proof (induction m rule: follow_gray.induct)
    case (1 m)
    show ?case
    proof (cases "m_gray m = []")
      case True
      with 1 show ?thesis by (simp add: follow_gray.simps [of m])
    next
      case False
      then have "follow_gray m = follow_gray (propagate_one m)" by (simp add: follow_gray.simps [of m])
      with 1 False tricolor_propagate [of m] propagate_white [of m] show ?thesis by auto
    qed
  qed
  then show "tricolor (follow_gray m)" "gray_ok (follow_gray m)" "m_gray (follow_gray m) = []"
    "\<And>c. white_at (follow_gray m) c \<Longrightarrow> white_at m c" by auto
qed

subsection \<open>Reachability\<close>

definition roots :: "Machine \<Rightarrow> addr set" where
  "roots m = {a. Some a \<in> set (root_refs m)}"

definition refs :: "Machine \<Rightarrow> addr \<Rightarrow> addr set" where
  "refs m a = {c. Some c \<in> set (object_refs m (body_of m a))}"

inductive_set reachable :: "Machine \<Rightarrow> addr set" for m where
  reachable_root: "a \<in> roots m \<Longrightarrow> a \<in> reachable m"
| reachable_ref: "a \<in> reachable m \<Longrightarrow> c \<in> refs m a \<Longrightarrow> c \<in> reachable m"

lemma reachable_mono:
  assumes "roots m' \<subseteq> reachable m" "\<And>a. a \<in> reachable m \<Longrightarrow> refs m' a \<subseteq> reachable m"
  shows "reachable m' \<subseteq> reachable m"
proof
  fix a assume "a \<in> reachable m'"
  then show "a \<in> reachable m"
    by (induction rule: reachable.induct) (use assms in auto)
qed

lemma reachable_cong:
  assumes "roots m' = roots m" "\<And>a. a \<in> reachable m \<Longrightarrow> refs m' a = refs m a"
  shows "reachable m' = reachable m"
proof
  show s: "reachable m' \<subseteq> reachable m"
    by (rule reachable_mono) (auto simp: assms intro: reachable.intros)
  show "reachable m \<subseteq> reachable m'"
  proof
    fix a assume "a \<in> reachable m"
    then show "a \<in> reachable m'"
    proof (induction rule: reachable.induct)
      case (reachable_root a)
      then show ?case using assms(1) by (auto intro: reachable.intros)
    next
      case (reachable_ref a c)
      then show ?case using assms(2) by (auto intro: reachable.intros)
    qed
  qed
qed

lemma recolored_reachable:
  "recolored m m' \<Longrightarrow> reachable m' = reachable m"
  by (rule reachable_cong) (simp_all add: roots_def refs_def recolored_refs recolored_body)

text \<open>Marking reaches only what is reachable: nothing that is not white is unreachable, among the
  objects of a set that the cycle started white with.\<close>

definition only_reachable :: "addr set \<Rightarrow> Machine \<Rightarrow> bool" where
  "only_reachable G m \<longleftrightarrow> (\<forall>a \<in> G. deref m a \<noteq> None \<longrightarrow> \<not> white_at m a \<longrightarrow> a \<in> reachable m)"

lemma only_reachable_reach_all:
  assumes "only_reachable G m" "\<And>c. Some c \<in> set ps \<Longrightarrow> c \<in> G \<Longrightarrow> c \<in> reachable m"
  shows "only_reachable G (reach_all m ps)"
  using assms recolored_reach_all [of m ps]
  by (auto simp: only_reachable_def reach_all_color recolored_exists recolored_reachable)

lemma only_reachable_mark_roots: "only_reachable G m \<Longrightarrow> only_reachable G (mark_roots m)"
  unfolding mark_roots_def
  by (erule only_reachable_reach_all) (auto intro: reachable_root simp: roots_def)

lemma only_reachable_propagate:
  assumes "only_reachable G m" "gray_ok m" "m_gray m \<noteq> []" "set (m_gray m) \<subseteq> G"
  shows "only_reachable G (propagate_one m)"
proof -
  obtain a gs where g: "m_gray m = a # gs" using assms(3) by (cases "m_gray m") auto
  have "has_color m a LHAT_GC_GRAY" using assms(2) g by (auto simp: gray_ok_def)
  then have "deref m a \<noteq> None" "\<not> white_at m a"
    using white_not_color [of m a LHAT_GC_GRAY] color_exists [of m a] by auto
  then have a: "a \<in> reachable m" using assms(1,4) g by (auto simp: only_reachable_def)
  show ?thesis
    using assms(1) a recolored_propagate [of m]
    unfolding only_reachable_def propagate_color(1) [OF g assms(2)]
    by (auto simp: recolored_exists recolored_reachable refs_def intro: reachable_ref)
qed

end
