(* ===== verification/Lhat_GcInv.thy ===== *)
theory Lhat_GcInv
  imports Lhat_GcMark
begin

text \<open>
  The invariant of the collector and that every step of it keeps it.  An object is live unless it
  wears the dead white; what is kept in every phase is that the roots, the weak tables and every
  live object refer to live objects only.
\<close>

subsection \<open>The invariant\<close>

definition live :: "Machine \<Rightarrow> addr \<Rightarrow> bool" where
  "live m a \<longleftrightarrow> (\<exists>b. deref m a = Some b \<and> ob_color b \<noteq> lhat_gc_other_white (m_white m))"

definition weak_refs :: "Machine \<Rightarrow> addr set" where
  "weak_refs m =
     {a. \<exists>k. (WEAK_KEY k, VALUE_OBJECT (Some a)) \<in> set (m_weak m)} \<union>
     {a. Some a \<in> set (m_unbound_natives m)} \<union>
     {a. \<exists>c \<in> set (m_member_caches m). mc_answered c \<noteq> None \<and>
        (mc_answered c = Some a \<or> mc_receiver c = Some a \<or> mc_lender c = Some a)}"

definition heap_closed :: "Machine \<Rightarrow> bool" where
  "heap_closed m \<longleftrightarrow>
     (\<forall>a \<in> roots m. live m a) \<and> (\<forall>a \<in> weak_refs m. live m a) \<and>
     (\<forall>a c. live m a \<longrightarrow> c \<in> refs m a \<longrightarrow> live m c)"

text \<open>An object of a chunk: it exists and is not on the machine's list.\<close>

definition chunk_object :: "Machine \<Rightarrow> addr \<Rightarrow> bool" where
  "chunk_object m a \<longleftrightarrow> deref m a \<noteq> None \<and> a \<notin> set (m_objects m)"

definition slot_rooted :: "Machine \<Rightarrow> nat \<Rightarrow> bool" where
  "slot_rooted m i \<longleftrightarrow>
     (\<exists>f \<in> set (m_frames m). fr_base f \<le> i \<and> i < fr_base f + frame_width m f)"

definition chunks_ok :: "Machine \<Rightarrow> bool" where
  "chunks_ok m \<longleftrightarrow>
     (\<forall>a. chunk_object m a \<longrightarrow> has_color m a LHAT_GC_BLACK \<and> (\<forall>c \<in> refs m a. chunk_object m c))"

text \<open>What a script gives away: objects of its own chunks, which refer to one another and are
  referred to by no other chunk's.\<close>

definition script_ok :: "Machine \<Rightarrow> addr list \<Rightarrow> bool" where
  "script_ok m given \<longleftrightarrow> distinct given \<and> (\<forall>g \<in> set given. chunk_object m g) \<and>
     (\<forall>a c. chunk_object m a \<longrightarrow> c \<in> refs m a \<longrightarrow> (c \<in> set given \<longleftrightarrow> a \<in> set given))"

definition scripts_ok :: "Machine \<Rightarrow> bool" where
  "scripts_ok m \<longleftrightarrow>
     (\<forall>a given. deref m a \<noteq> None \<longrightarrow> body_of m a = OBJECT_SCRIPT given \<longrightarrow>
        a \<in> set (m_objects m) \<and> script_ok m given \<and>
        (\<forall>b given'. deref m b \<noteq> None \<longrightarrow> body_of m b = OBJECT_SCRIPT given' \<longrightarrow> b \<noteq> a \<longrightarrow>
           set given \<inter> set given' = {}))"

definition upvalues_ok :: "Machine \<Rightarrow> bool" where
  "upvalues_ok m \<longleftrightarrow>
     (\<forall>a place cell suspended_in. deref m a \<noteq> None \<longrightarrow>
        body_of m a = OBJECT_UPVALUE place cell suspended_in \<longrightarrow>
        a \<in> set (m_objects m) \<and>
        (case place of PLACE_SLOT i \<Rightarrow> slot_rooted m i
         | PLACE_SAVED co i \<Rightarrow> suspended_in = Some co | _ \<Rightarrow> True))"

definition heap_wf :: "Machine \<Rightarrow> bool" where
  "heap_wf m \<longleftrightarrow>
     distinct (m_objects m) \<and> (\<forall>a \<in> set (m_objects m). deref m a \<noteq> None) \<and>
     is_white (m_white m) \<and> chunks_ok m \<and> scripts_ok m \<and> upvalues_ok m"

definition marking_colors :: "Machine \<Rightarrow> bool" where
  "marking_colors m \<longleftrightarrow>
     (\<forall>a \<in> set (m_objects m). has_color m a (m_white m) \<or> has_color m a LHAT_GC_GRAY \<or>
        has_color m a LHAT_GC_BLACK)"

definition sweep_colors :: "Machine \<Rightarrow> bool" where
  "sweep_colors m \<longleftrightarrow>
     m_sweep m \<le> length (m_objects m) \<and>
     (\<forall>a \<in> set (take (m_sweep m) (m_objects m)). has_color m a (m_white m)) \<and>
     (\<forall>a \<in> set (drop (m_sweep m) (m_objects m)). has_color m a (m_white m) \<or>
        has_color m a LHAT_GC_BLACK \<or> has_color m a (lhat_gc_other_white (m_white m)))"

definition phase_ok :: "Machine \<Rightarrow> bool" where
  "phase_ok m \<longleftrightarrow>
     (case m_gcstate m of
        LHAT_GC_PAUSE \<Rightarrow> m_gray m = [] \<and> (\<forall>a \<in> set (m_objects m). has_color m a (m_white m))
      | LHAT_GC_PROPAGATE \<Rightarrow> gray_ok m \<and> tricolor m \<and> marking_colors m
      | LHAT_GC_SWEEP \<Rightarrow> m_gray m = [] \<and> sweep_colors m)"

definition gc_ok :: "Machine \<Rightarrow> bool" where
  "gc_ok m \<longleftrightarrow> heap_wf m \<and> heap_closed m \<and> phase_ok m"

subsection \<open>Reachable objects are live\<close>

lemma reachable_live: "a \<in> reachable m \<Longrightarrow> heap_closed m \<Longrightarrow> live m a"
  by (induction rule: reachable.induct) (auto simp: heap_closed_def)

lemma live_exists: "live m a \<Longrightarrow> deref m a \<noteq> None"
  by (auto simp: live_def)

subsection \<open>Fields the invariant does not read\<close>

definition same_heap :: "Machine \<Rightarrow> Machine \<Rightarrow> bool" where
  "same_heap m m' \<longleftrightarrow>
     m_memory m' = m_memory m \<and> m_objects m' = m_objects m \<and> m_white m' = m_white m \<and>
     m_slots m' = m_slots m \<and> m_frames m' = m_frames m"

lemma same_heap_refs:
  assumes "same_heap m m'"
  shows "deref m' = deref m" "body_of m' = body_of m" "object_refs m' = object_refs m"
    "own_refs m' = own_refs m" "refs m' = refs m" "white_at m' = white_at m"
    "has_color m' = has_color m" "frame_width m' = frame_width m" "frame_roots m' = frame_roots m"
proof -
  show d: "deref m' = deref m" using assms by (auto simp: deref_def same_heap_def)
  show b: "body_of m' = body_of m" by (auto simp: body_of_def d)
  have r: "ref_get m' = ref_get m"
    using assms by (intro ext) (simp add: ref_get_def b same_heap_def split: LhatPlace.splits)
  show o: "object_refs m' = object_refs m"
    by (intro ext) (simp add: object_refs_def r split: LhatBody.splits)
  show "own_refs m' = own_refs m" by (intro ext) (simp add: own_refs_def o split: LhatBody.splits LhatPlace.splits)
  show "refs m' = refs m" by (intro ext) (simp add: refs_def o b)
  show "white_at m' = white_at m" by (intro ext) (simp add: white_at_def d)
  show "has_color m' = has_color m" by (intro ext) (simp add: has_color_def d)
  show w: "frame_width m' = frame_width m" by (intro ext) (simp add: frame_width_def b)
  show "frame_roots m' = frame_roots m"
    using assms by (intro ext) (simp add: frame_roots_def w same_heap_def)
qed

lemma same_heap_wf:
  assumes "same_heap m m'"
  shows "heap_wf m' = heap_wf m"
proof -
  note f = same_heap_refs [OF assms]
  have o: "m_objects m' = m_objects m" "m_white m' = m_white m" "m_frames m' = m_frames m"
    using assms by (simp_all add: same_heap_def)
  have c: "chunk_object m' = chunk_object m" by (intro ext) (simp add: chunk_object_def f o)
  have s: "slot_rooted m' = slot_rooted m" by (intro ext) (simp add: slot_rooted_def f o)
  show ?thesis
    by (simp only: heap_wf_def chunks_ok_def scripts_ok_def script_ok_def upvalues_ok_def c s f o)
qed

lemma same_heap_live: "same_heap m m' \<Longrightarrow> live m' = live m"
  by (intro ext) (simp add: live_def same_heap_refs, simp add: same_heap_def)

lemma same_heap_pending [simp]: "same_heap m (machine_set_pending_dispose m p)"
  by (simp add: same_heap_def machine_set_pending_dispose_def)

subsection \<open>Marking keeps the invariant\<close>

lemma recolored_wf:
  assumes "recolored m m'" "heap_wf m"
    "\<And>a. chunk_object m a \<Longrightarrow> has_color m' a LHAT_GC_BLACK"
  shows "heap_wf m'"
proof -
  have c: "chunk_object m' = chunk_object m"
    by (intro ext) (simp add: chunk_object_def recolored_fields(1) [OF assms(1)] recolored_exists [OF assms(1)])
  have r: "refs m' = refs m"
    by (intro ext) (simp add: refs_def recolored_refs [OF assms(1)] recolored_body [OF assms(1)])
  have w: "frame_width m' = frame_width m"
    by (intro ext) (simp add: frame_width_def recolored_body [OF assms(1)])
  have s: "slot_rooted m' = slot_rooted m"
    by (intro ext) (simp add: slot_rooted_def w recolored_fields(7) [OF assms(1)])
  note f = recolored_fields(1,3) [OF assms(1)] recolored_exists [OF assms(1)] recolored_body [OF assms(1)]
  have "scripts_ok m' = scripts_ok m" by (simp only: scripts_ok_def script_ok_def c r f)
  moreover have "upvalues_ok m' = upvalues_ok m" by (simp only: upvalues_ok_def s f)
  moreover have "chunks_ok m'" using assms(2,3) by (simp add: heap_wf_def chunks_ok_def c r)
  ultimately show ?thesis using assms(2) by (simp add: heap_wf_def f)
qed

text \<open>While nothing wears the dead white, live is the same as being there.\<close>

definition none_dead :: "Machine \<Rightarrow> bool" where
  "none_dead m \<longleftrightarrow> (\<forall>a. deref m a \<noteq> None \<longrightarrow> live m a)"

lemma other_white_white: "is_white w \<Longrightarrow> is_white (lhat_gc_other_white w)"
proof -
  assume "is_white w"
  then have "w = 0 \<or> w = 1" unfolding is_white_def gc_colors
    by (simp add: word_le_nat_alt) (metis One_nat_def le_0_eq le_Suc_eq unat_eq_zero unat_1 word_unat_eq_iff)
  then show ?thesis by (auto simp: lhat_gc_other_white_def is_white_def gc_colors)
qed

lemma live_has_color:
  "live m a \<longleftrightarrow> (\<exists>c. has_color m a c \<and> c \<noteq> lhat_gc_other_white (m_white m))"
  by (auto simp: live_def has_color_def split: option.splits)

lemma live_color:
  "has_color m a (m_white m) \<Longrightarrow> live m a"
  "is_white (m_white m) \<Longrightarrow> has_color m a LHAT_GC_GRAY \<Longrightarrow> live m a"
  "is_white (m_white m) \<Longrightarrow> has_color m a LHAT_GC_BLACK \<Longrightarrow> live m a"
proof -
  show "has_color m a (m_white m) \<Longrightarrow> live m a"
    unfolding live_has_color by (intro exI conjI, assumption, rule other_white_neq(1))
  have n: "c \<noteq> lhat_gc_other_white (m_white m)" if "is_white (m_white m)" "\<not> is_white c" for c
    using other_white_white [OF that(1)] that(2) by metis
  show "live m a" if "is_white (m_white m)" "has_color m a LHAT_GC_GRAY"
    unfolding live_has_color by (intro exI conjI, rule that(2), rule n [OF that(1) gray_not_white(1)])
  show "live m a" if "is_white (m_white m)" "has_color m a LHAT_GC_BLACK"
    unfolding live_has_color by (intro exI conjI, rule that(2), rule n [OF that(1) gray_not_white(2)])
qed

lemma marking_none_dead:
  assumes "heap_wf m" "marking_colors m"
  shows "none_dead m"
  unfolding none_dead_def
proof (intro allI impI)
  fix a assume e: "deref m a \<noteq> None"
  have w: "is_white (m_white m)" using assms(1) by (simp add: heap_wf_def)
  show "live m a"
  proof (cases "a \<in> set (m_objects m)")
    case True
    then show ?thesis using assms(2) live_color w unfolding marking_colors_def by blast
  next
    case False
    then have "has_color m a LHAT_GC_BLACK"
      using assms(1) e unfolding heap_wf_def chunks_ok_def chunk_object_def by blast
    then show ?thesis using live_color(3) w by blast
  qed
qed

lemma closed_none_dead:
  assumes "none_dead m" "none_dead m'" "recolored m m'" "heap_closed m"
  shows "heap_closed m'"
proof -
  have l: "live m' = live m"
    using assms(1,2) live_exists recolored_exists [OF assms(3)] unfolding none_dead_def by blast
  have "roots m' = roots m"
    by (simp add: roots_def recolored_refs [OF assms(3)])
  moreover have "refs m' = refs m"
    by (intro ext) (simp add: refs_def recolored_refs [OF assms(3)] recolored_body [OF assms(3)])
  moreover have "weak_refs m' = weak_refs m"
    by (simp add: weak_refs_def recolored_fields [OF assms(3)])
  ultimately show ?thesis using assms(4) by (simp add: heap_closed_def l)
qed

definition marking_ok :: "Machine \<Rightarrow> bool" where
  "marking_ok m \<longleftrightarrow> heap_wf m \<and> heap_closed m \<and> gray_ok m \<and> tricolor m \<and> marking_colors m"

lemma marking_recolored:
  assumes "marking_ok m" "recolored m m'" "gray_ok m'" "tricolor m'" "marking_colors m'"
    "\<And>a. has_color m a LHAT_GC_BLACK \<Longrightarrow> has_color m' a LHAT_GC_BLACK"
  shows "marking_ok m'"
proof -
  have m: "heap_wf m" "heap_closed m" "marking_colors m"
    using assms(1) by (simp_all add: marking_ok_def)
  have w: "heap_wf m'"
    by (rule recolored_wf [OF assms(2) m(1)], rule assms(6))
       (use m(1) in \<open>simp add: heap_wf_def chunks_ok_def\<close>)
  have "heap_closed m'"
    by (rule closed_none_dead [OF marking_none_dead [OF m(1,3)] marking_none_dead [OF w assms(5)]
          assms(2) m(2)])
  with w assms(3-5) show ?thesis by (simp add: marking_ok_def)
qed

lemma reach_has_color:
  "has_color (reach m p) a c \<longleftrightarrow>
     (if p = Some a \<and> white_at m a then c = LHAT_GC_GRAY else has_color m a c)"
  by (auto simp: reach_def has_color_set_color dest: white_exists split: option.splits)

lemma marking_colors_reach: "marking_colors m \<Longrightarrow> marking_colors (reach m p)"
  using recolored_fields(1,3) [OF recolored_reach, of m p]
  by (auto simp: marking_colors_def reach_has_color)

lemma marking_colors_reach_all: "marking_colors m \<Longrightarrow> marking_colors (reach_all m ps)"
  unfolding reach_all_def by (induction ps arbitrary: m) (auto intro: marking_colors_reach)

lemma marking_reach_all: "marking_ok m \<Longrightarrow> marking_ok (reach_all m ps)"
  by (rule marking_recolored [OF _ recolored_reach_all])
     (auto simp: marking_ok_def gray_ok_reach_all tricolor_reach_all marking_colors_reach_all
       reach_all_color)

lemma marking_mark_roots: "marking_ok m \<Longrightarrow> marking_ok (mark_roots m)"
  unfolding mark_roots_def by (rule marking_reach_all)

lemma marking_colors_propagate:
  assumes "marking_colors m" "m_gray m \<noteq> []"
  shows "marking_colors (propagate_one m)"
proof -
  have "marking_colors (set_color (m\<lparr>m_gray := tl (m_gray m)\<rparr>) (hd (m_gray m)) LHAT_GC_BLACK)"
    using assms(1) by (auto simp: marking_colors_def has_color_set_color dest: color_exists)
  then show ?thesis
    unfolding propagate_one_def Let_def lhat_gc_children_def by (rule marking_colors_reach_all)
qed

lemma marking_propagate:
  assumes "marking_ok m" "m_gray m \<noteq> []"
  shows "marking_ok (propagate_one m)"
proof (rule marking_recolored [OF assms(1) recolored_propagate])
  have g: "gray_ok m" "tricolor m" "marking_colors m" using assms(1) by (auto simp: marking_ok_def)
  show "gray_ok (propagate_one m)" by (rule propagate_white(2) [OF g(1) assms(2)])
  show "tricolor (propagate_one m)" by (rule tricolor_propagate [OF g(2,1) assms(2)])
  show "marking_colors (propagate_one m)" by (rule marking_colors_propagate [OF g(3) assms(2)])
  show "has_color m a LHAT_GC_BLACK \<Longrightarrow> has_color (propagate_one m) a LHAT_GC_BLACK" for a
    by (rule propagate_white(3) [OF g(1) assms(2)])
qed

lemma marking_follow: "marking_ok m \<Longrightarrow> marking_ok (follow_gray m)"
proof (induction m rule: follow_gray.induct)
  case (1 m)
  then show ?case by (subst follow_gray.simps) (auto intro: marking_propagate)
qed

end
