(* ===== verification/Lhat_GcCycle.thy ===== *)
theory Lhat_GcCycle
  imports Lhat_GcInv
begin

text \<open>
  Every step of the collector keeps the invariant of \<open>Lhat_GcInv\<close>: the start of a cycle, the
  marking, the atomic step with its coroutines held back and its weak tables emptied, and the
  sweep.
\<close>

subsection \<open>Starting a cycle\<close>

lemma same_heap_gcstate [simp]: "same_heap m (m\<lparr>m_gcstate := s\<rparr>)"
  by (simp add: same_heap_def)

lemma same_heap_roots:
  assumes "same_heap m m'" "m' = m\<lparr>m_gcstate := m_gcstate m', m_sweep := m_sweep m',
     m_gc_cycles := m_gc_cycles m', m_threshold := m_threshold m', m_weak := m_weak m',
     m_weak_count := m_weak_count m', m_unbound_natives := m_unbound_natives m',
     m_member_caches := m_member_caches m'\<rparr>"
  shows "root_refs m' = root_refs m"
  unfolding root_refs_def same_heap_refs [OF assms(1)] by (subst assms(2), simp)+

lemma same_heap_closed:
  assumes "same_heap m m'" "root_refs m' = root_refs m" "weak_refs m' = weak_refs m"
  shows "heap_closed m' = heap_closed m"
  by (simp add: heap_closed_def roots_def assms(2,3) same_heap_live [OF assms(1)]
      same_heap_refs [OF assms(1)])

lemma same_heap_marking:
  assumes "same_heap m m'" "m_gray m' = m_gray m"
  shows "gray_ok m' = gray_ok m" "tricolor m' = tricolor m" "marking_colors m' = marking_colors m"
  using assms
  by (simp_all add: gray_ok_def tricolor_def marking_colors_def same_heap_refs [OF assms(1)])
     (simp add: same_heap_def)

lemma object_color:
  assumes "heap_wf m" "deref m a \<noteq> None"
  shows "a \<in> set (m_objects m) \<or> has_color m a LHAT_GC_BLACK"
  using assms unfolding heap_wf_def chunks_ok_def chunk_object_def by blast

lemma color_unique: "has_color m a c \<Longrightarrow> has_color m a d \<Longrightarrow> c = d"
  by (auto simp: has_color_def split: option.splits)

lemma white_color: "has_color m a c \<Longrightarrow> white_at m a = is_white c"
  by (auto simp: has_color_def white_at_def split: option.splits)

lemma paused_marking:
  assumes "gc_ok m" "m_gcstate m = LHAT_GC_PAUSE"
  shows "marking_ok m"
proof -
  have wf: "heap_wf m" and cl: "heap_closed m" using assms by (auto simp: gc_ok_def)
  have g: "m_gray m = []" and w: "\<And>a. a \<in> set (m_objects m) \<Longrightarrow> has_color m a (m_white m)"
    using assms by (auto simp: gc_ok_def phase_ok_def)
  have i: "is_white (m_white m)" using wf by (simp add: heap_wf_def)
  have n: "\<not> has_color m a c" if "a \<in> set (m_objects m)" "\<not> is_white c" for a c
    using color_unique [OF w [OF that(1)], of c] that(2) i by auto
  have gr: "\<not> has_color m a LHAT_GC_GRAY" for a
  proof
    assume h: "has_color m a LHAT_GC_GRAY"
    then have "\<not> has_color m a LHAT_GC_BLACK"
      using color_unique [OF h, of LHAT_GC_BLACK] by (auto simp: gc_colors)
    then show False
      using object_color [OF wf color_exists [OF h]] n [of a LHAT_GC_GRAY] h by auto
  qed
  have "tricolor m"
    unfolding tricolor_def
  proof (intro allI impI)
    fix a c assume b: "has_color m a LHAT_GC_BLACK" and c: "Some c \<in> set (own_refs m (body_of m a))"
    have "chunk_object m a" using n [of a] b color_exists [OF b] by (auto simp: chunk_object_def)
    moreover have "c \<in> refs m a" using c own_refs_subset by (auto simp: refs_def)
    ultimately have "has_color m c LHAT_GC_BLACK" using wf unfolding heap_wf_def chunks_ok_def by blast
    then show "\<not> white_at m c" by (simp add: white_color)
  qed
  then show ?thesis
    using wf cl g gr w by (simp add: marking_ok_def gray_ok_def marking_colors_def)
qed

lemma gc_ok_propagate:
  assumes "marking_ok m" "m_gcstate m = LHAT_GC_PROPAGATE"
  shows "gc_ok m"
  using assms by (simp add: gc_ok_def marking_ok_def phase_ok_def)

lemma marking_gcstate: "marking_ok (m\<lparr>m_gcstate := s\<rparr>) = marking_ok m"
proof -
  have s: "same_heap m (m\<lparr>m_gcstate := s\<rparr>)" by simp
  have r: "root_refs (m\<lparr>m_gcstate := s\<rparr>) = root_refs m" by (rule same_heap_roots [OF s]) simp
  show ?thesis
    by (simp add: marking_ok_def same_heap_wf [OF s] same_heap_marking [OF s]
        same_heap_closed [OF s r] weak_refs_def)
qed

lemma start_cycle_ok:
  assumes "gc_ok m" "m_gcstate m = LHAT_GC_PAUSE"
  shows "gc_ok (start_cycle m)"
  unfolding start_cycle_def
  by (rule gc_ok_propagate) (simp_all add: marking_gcstate marking_mark_roots paused_marking assms)

lemma propagate_ok:
  assumes "gc_ok m" "m_gcstate m = LHAT_GC_PROPAGATE" "m_gray m \<noteq> []"
  shows "gc_ok (propagate_one m)"
  using assms by (intro gc_ok_propagate marking_propagate)
    (auto simp: gc_ok_def phase_ok_def marking_ok_def)

subsection \<open>Holding coroutines back\<close>

text \<open>What marking has reached so far counts the roots in.\<close>

definition holding :: "Machine \<Rightarrow> bool" where
  "holding m \<longleftrightarrow> marking_ok m \<and> roots_marked m"

lemma pending_roots:
  "set (root_refs (machine_set_pending_dispose m (a # m_pending_dispose m))) =
     insert (Some a) (set (root_refs m))"
proof -
  let ?m = "machine_set_pending_dispose m (a # m_pending_dispose m)"
  have f: "frame_roots ?m = frame_roots m" by (rule same_heap_refs(9) [OF same_heap_pending])
  show ?thesis unfolding root_refs_def f by (auto simp: machine_set_pending_dispose_def)
qed

lemma pending_fields [simp]:
  "m_gray (machine_set_pending_dispose m p) = m_gray m"
  "m_weak (machine_set_pending_dispose m p) = m_weak m"
  "m_unbound_natives (machine_set_pending_dispose m p) = m_unbound_natives m"
  "m_member_caches (machine_set_pending_dispose m p) = m_member_caches m"
  "m_objects (machine_set_pending_dispose m p) = m_objects m"
  "m_gcstate (machine_set_pending_dispose m p) = m_gcstate m"
  "m_white (machine_set_pending_dispose m p) = m_white m"
  "m_pending_dispose (machine_set_pending_dispose m p) = p"
  by (simp_all add: machine_set_pending_dispose_def)

lemma marking_pending:
  assumes "marking_ok m" "deref m a \<noteq> None"
  shows "marking_ok (machine_set_pending_dispose m (a # m_pending_dispose m))" (is "marking_ok ?m")
proof -
  note s = same_heap_pending [of m "a # m_pending_dispose m"]
  have m: "heap_wf m" "heap_closed m" "gray_ok m" "tricolor m" "marking_colors m"
    using assms(1) by (simp_all add: marking_ok_def)
  have "live m a" using marking_none_dead [OF m(1,5)] assms(2) by (simp add: none_dead_def)
  moreover have "roots ?m = insert a (roots m)" by (auto simp: roots_def pending_roots)
  moreover have "weak_refs ?m = weak_refs m" by (simp add: weak_refs_def)
  ultimately have "heap_closed ?m"
    using m(2) by (simp add: heap_closed_def same_heap_live [OF s] same_heap_refs [OF s])
  then show ?thesis
    using m by (simp add: marking_ok_def same_heap_wf [OF s] same_heap_marking [OF s])
qed

lemma holding_hold_one:
  assumes "holding m"
  shows "holding (hold_one m a)"
proof (cases "white_at m a \<and> owes_cleanups (body_of m a)")
  case True
  let ?r = "reach m (Some a)"
  have r: "marking_ok ?r"
    using marking_reach_all [of m "[Some a]"] assms by (simp add: reach_all_def holding_def)
  have e: "deref ?r a \<noteq> None"
    using True white_exists [of m a] recolored_exists [OF recolored_reach] by auto
  have p: "m_pending_dispose ?r = m_pending_dispose m"
    by (rule recolored_fields(9) [OF recolored_reach])
  have "hold_one m a = machine_set_pending_dispose ?r (a # m_pending_dispose ?r)"
    using True by (simp add: hold_one_def p)
  moreover have "roots_marked (machine_set_pending_dispose ?r (a # m_pending_dispose ?r))"
    using assms recolored_refs(2) [OF recolored_reach, of m "Some a"]
    by (auto simp: roots_marked_def pending_roots same_heap_refs [OF same_heap_pending] reach_color
        holding_def)
  ultimately show ?thesis using marking_pending [OF r e] by (simp add: holding_def)
next
  case False
  then show ?thesis using assms by (auto simp: hold_one_def)
qed

lemma holding_all: "holding m \<Longrightarrow> holding (hold_pending_disposals m)"
proof -
  have "holding m \<Longrightarrow> holding (foldl hold_one m as)" for as
    by (induction as arbitrary: m) (auto intro: holding_hold_one)
  then show "holding m \<Longrightarrow> holding (hold_pending_disposals m)" by (simp add: hold_pending_disposals_def)
qed

lemma holding_follow:
  assumes "holding m"
  shows "holding (follow_gray m)" "m_gray (follow_gray m) = []"
proof -
  have m: "tricolor m" "gray_ok m" using assms by (simp_all add: holding_def marking_ok_def)
  show "m_gray (follow_gray m) = []" by (rule follow_gray_marks(3) [OF m])
  have "roots_marked (follow_gray m)"
    using assms follow_gray_marks(4) [OF m]
    by (intro roots_marked_recolored [OF _ recolored_follow]) (auto simp: holding_def)
  with assms show "holding (follow_gray m)" by (simp add: holding_def marking_follow)
qed

lemma holding_mark_roots: "marking_ok m \<Longrightarrow> holding (mark_roots m)"
  by (simp add: holding_def marking_mark_roots roots_marked_mark_roots)

definition atomic_marked :: "Machine \<Rightarrow> Machine" where
  "atomic_marked m = follow_gray (hold_pending_disposals (follow_gray (mark_roots m)))"

lemma atomic_marked_ok:
  assumes "marking_ok m"
  shows "holding (atomic_marked m)" "m_gray (atomic_marked m) = []"
  unfolding atomic_marked_def
  using holding_follow [OF holding_all [OF holding_follow(1) [OF holding_mark_roots [OF assms]]]]
  by blast+

subsection \<open>When the marking is over\<close>

lemma marked_color:
  assumes "marking_ok m" "m_gray m = []" "deref m a \<noteq> None"
  shows "white_at m a \<and> has_color m a (m_white m) \<and> a \<in> set (m_objects m) \<or>
     \<not> white_at m a \<and> has_color m a LHAT_GC_BLACK"
proof -
  have m: "heap_wf m" "gray_ok m" "marking_colors m" "is_white (m_white m)"
    using assms by (simp_all add: marking_ok_def heap_wf_def)
  have "\<not> has_color m a LHAT_GC_GRAY" using m(2) assms(2) by (auto simp: gray_ok_def)
  then have "a \<in> set (m_objects m) \<and> has_color m a (m_white m) \<or> has_color m a LHAT_GC_BLACK"
    using object_color [OF m(1) assms(3)] m(3) unfolding marking_colors_def by blast
  then show ?thesis
    using m(4) white_color [of m a LHAT_GC_BLACK] white_color [of m a "m_white m"] by auto
qed

lemma marked_refs:
  assumes "holding m" "m_gray m = []" "has_color m a LHAT_GC_BLACK" "c \<in> refs m a"
  shows "\<not> white_at m c"
proof (cases "Some c \<in> set (own_refs m (body_of m a))")
  case True
  then show ?thesis using assms by (auto simp: holding_def marking_ok_def tricolor_def)
next
  case False
  have m: "heap_wf m" "tricolor m" "roots_marked m" "heap_closed m"
    using assms by (simp_all add: marking_ok_def holding_def)
  have w: "is_white (m_white m)" using m(1) by (simp add: heap_wf_def)
  have la: "live m a" by (rule live_color(3) [OF w assms(3)])
  have c: "Some c \<in> set (object_refs m (body_of m a))" using assms(4) by (simp add: refs_def)
  obtain place cell su where b: "body_of m a = OBJECT_UPVALUE place cell su"
    and pl: "(\<exists>i. place = PLACE_SLOT i) \<or> (\<exists>co i. place = PLACE_SAVED co i)"
    using c False by (auto simp: own_refs_def split: LhatBody.splits LhatPlace.splits)
  have "upvalues_ok m" using m(1) by (simp add: heap_wf_def)
  then have u: "case place of PLACE_SLOT i \<Rightarrow> slot_rooted m i
      | PLACE_SAVED co i \<Rightarrow> su = Some co | _ \<Rightarrow> True"
    using live_exists [OF la] b unfolding upvalues_ok_def by blast
  show ?thesis
  proof (cases place)
    case (PLACE_SLOT i)
    then have v: "Some c = value_ref (slots_get (m_slots m) i)"
      using c False b by (auto simp: own_refs_def object_refs_def ref_get_def)
    obtain f where f: "f \<in> set (m_frames m)" "fr_base f \<le> i" "i < fr_base f + frame_width m f"
      using u PLACE_SLOT by (auto simp: slot_rooted_def)
    have "Some c \<in> set (frame_roots m f)"
      unfolding v frame_roots_def using f(2,3)
      by (auto simp: image_iff intro!: bexI [of _ "i - fr_base f"])
    then have "Some c \<in> set (root_refs m)" using f(1) by (auto simp: root_refs_def)
    then show ?thesis using m(3) by (simp add: roots_marked_def)
  next
    case (PLACE_SAVED co i)
    then have s: "su = Some co" using u by simp
    have v: "Some c = value_ref (ref_get m (PLACE_SAVED co i) cell)"
      using c False b PLACE_SAVED by (auto simp: own_refs_def object_refs_def)
    then obtain source frame walking held captures where
      co: "body_of m co = OBJECT_COROUTINE source frame walking held captures"
      and vi: "Some c = value_ref (slots_get (cf_registers frame) i)"
      by (auto simp: ref_get_def value_ref_def split: LhatBody.splits)
    then have "Some c \<in> set (own_refs m (body_of m co))"
      by (auto simp: own_refs_def object_refs_def slots_get_def value_ref_def split: if_splits)
    moreover have "has_color m co LHAT_GC_BLACK"
    proof -
      have su: "Some co \<in> set (own_refs m (body_of m a))"
        using b PLACE_SAVED s by (simp add: own_refs_def)
      then have "co \<in> refs m a" using own_refs_subset by (auto simp: refs_def)
      then have "deref m co \<noteq> None" using m(4) la live_exists by (auto simp: heap_closed_def)
      moreover have "\<not> white_at m co" using m(2) assms(3) su by (auto simp: tricolor_def)
      ultimately show ?thesis
        using marked_color [of m co] assms by (auto simp: holding_def)
    qed
    ultimately show ?thesis using m(2) by (auto simp: tricolor_def)
  qed (use pl in auto)
qed

subsection \<open>The atomic step\<close>

definition forget_dead :: "Machine \<Rightarrow> Machine" where
  "forget_dead m = begin_sweep (clear_caches (clear_natives (clear_weak m)))"

lemma atomic_split: "atomic m = forget_dead (atomic_marked m)"
  by (simp add: atomic_def forget_dead_def atomic_marked_def Let_def)

lemma forget_fields [simp]:
  "m_memory (forget_dead m) = m_memory m" "m_objects (forget_dead m) = m_objects m"
  "m_slots (forget_dead m) = m_slots m" "m_frames (forget_dead m) = m_frames m"
  "m_gray (forget_dead m) = m_gray m" "m_sweep (forget_dead m) = 0"
  "m_gcstate (forget_dead m) = LHAT_GC_SWEEP"
  "m_white (forget_dead m) = lhat_gc_other_white (m_white m)"
  "m_pending_dispose (forget_dead m) = m_pending_dispose m"
  by (simp_all add: forget_dead_def begin_sweep_def clear_caches_def clear_natives_def clear_weak_def)

text \<open>What reads the memory, the slots and the frames reads the same.\<close>

lemma forget_reads:
  "deref (forget_dead m) = deref m" "refs (forget_dead m) = refs m"
  "body_of (forget_dead m) = body_of m" "has_color (forget_dead m) = has_color m"
  "frame_width (forget_dead m) = frame_width m" "root_refs (forget_dead m) = root_refs m"
  "white_at (forget_dead m) = white_at m"
proof -
  let ?w = "(forget_dead m)\<lparr>m_white := m_white m\<rparr>"
  have s: "same_heap m ?w" by (simp add: same_heap_def)
  have d: "deref (forget_dead m) = deref ?w" by (intro ext) (simp add: deref_def)
  have b: "body_of (forget_dead m) = body_of ?w" by (intro ext) (simp add: body_of_def d)
  have r: "ref_get (forget_dead m) = ref_get ?w"
    by (intro ext) (simp add: ref_get_def b split: LhatPlace.splits)
  have o: "object_refs (forget_dead m) = object_refs ?w"
    by (intro ext) (simp add: object_refs_def r split: LhatBody.splits)
  have w: "frame_width (forget_dead m) = frame_width ?w" by (intro ext) (simp add: frame_width_def b)
  have f: "frame_roots (forget_dead m) = frame_roots ?w" by (intro ext) (simp add: frame_roots_def w)
  show "deref (forget_dead m) = deref m" by (simp only: d same_heap_refs [OF s])
  show "refs (forget_dead m) = refs m" by (intro ext) (simp only: refs_def b o same_heap_refs [OF s])
  show "body_of (forget_dead m) = body_of m" by (simp only: b same_heap_refs [OF s])
  show "has_color (forget_dead m) = has_color m"
    by (intro ext) (simp only: has_color_def d same_heap_refs [OF s])
  show "white_at (forget_dead m) = white_at m"
    by (intro ext) (simp only: white_at_def d same_heap_refs [OF s])
  show "frame_width (forget_dead m) = frame_width m" by (simp only: w same_heap_refs [OF s])
  show "root_refs (forget_dead m) = root_refs m"
    unfolding root_refs_def f same_heap_refs [OF s]
    by (simp add: forget_dead_def begin_sweep_def clear_caches_def clear_natives_def clear_weak_def)
qed

lemma other_other [simp]: "lhat_gc_other_white (lhat_gc_other_white w) = w"
  by (simp add: lhat_gc_other_white_def)

lemma forget_wf:
  assumes "heap_wf m"
  shows "heap_wf (forget_dead m)"
proof -
  have c: "chunk_object (forget_dead m) = chunk_object m"
    by (intro ext) (simp add: chunk_object_def forget_reads)
  have s: "slot_rooted (forget_dead m) = slot_rooted m"
    by (intro ext) (simp add: slot_rooted_def forget_reads)
  have "chunks_ok (forget_dead m) = chunks_ok m" by (simp only: chunks_ok_def c forget_reads)
  moreover have "scripts_ok (forget_dead m) = scripts_ok m"
    by (simp only: scripts_ok_def script_ok_def c forget_reads forget_fields)
  moreover have "upvalues_ok (forget_dead m) = upvalues_ok m"
    by (simp only: upvalues_ok_def s forget_reads forget_fields)
  ultimately show ?thesis
    using assms other_white_white [of "m_white m"] by (simp add: heap_wf_def forget_reads)
qed

text \<open>What the weak tables still name was not white.\<close>

lemma forget_weak:
  "weak_refs (forget_dead m) \<subseteq> {a \<in> weak_refs m. \<not> white_at m a}"
  unfolding weak_refs_def forget_dead_def begin_sweep_def clear_caches_def clear_natives_def
    clear_weak_def
  by (auto simp: weak_dead_def value_white_def pointer_white_def white_at_def deref_def
      split: if_splits)

lemma forget_live:
  assumes "marking_ok m" "m_gray m = []"
  shows "live (forget_dead m) a \<longleftrightarrow> deref m a \<noteq> None \<and> \<not> white_at m a"
proof -
  have w: "is_white (m_white m)" using assms by (simp add: marking_ok_def heap_wf_def)
  show ?thesis
  proof (cases "deref m a = None")
    case True
    then show ?thesis using live_exists [of "forget_dead m" a] by (auto simp: forget_reads)
  next
    case False
    show ?thesis
      using marked_color [OF assms False]
    proof (elim disjE conjE)
      assume "white_at m a" "has_color m a (m_white m)"
      then show ?thesis by (auto simp: live_has_color forget_reads dest: color_unique)
    next
      assume h: "\<not> white_at m a" "has_color m a LHAT_GC_BLACK"
      then have "has_color m a LHAT_GC_BLACK \<and> LHAT_GC_BLACK \<noteq> m_white m" using w by auto
      then have "live (forget_dead m) a" unfolding live_has_color forget_reads forget_fields other_other
        by blast
      with h False show ?thesis by simp
    qed
  qed
qed

lemma forget_ok:
  assumes "holding m" "m_gray m = []"
  shows "gc_ok (forget_dead m)"
proof -
  have k: "marking_ok m" and rm: "roots_marked m" using assms by (simp_all add: holding_def)
  have m: "heap_wf m" "heap_closed m" "marking_colors m" using k by (simp_all add: marking_ok_def)
  note l = forget_live [OF k assms(2)]
  have ex: "live m a \<Longrightarrow> deref m a \<noteq> None" for a by (rule live_exists)
  have "heap_closed (forget_dead m)"
    unfolding heap_closed_def l
  proof (intro conjI ballI allI impI)
    fix a assume "a \<in> roots (forget_dead m)"
    then have "a \<in> roots m" by (simp add: roots_def forget_reads)
    then show "deref m a \<noteq> None" "\<not> white_at m a"
      using m(2) ex rm by (auto simp: heap_closed_def roots_marked_def roots_def)
  next
    fix a assume "a \<in> weak_refs (forget_dead m)"
    then show "deref m a \<noteq> None" "\<not> white_at m a"
      using forget_weak [of m] m(2) ex by (auto simp: heap_closed_def)
  next
    fix a c assume a: "deref m a \<noteq> None \<and> \<not> white_at m a" and c: "c \<in> refs (forget_dead m) a"
    have r: "c \<in> refs m a" using c by (simp add: forget_reads)
    have b: "has_color m a LHAT_GC_BLACK" using marked_color [OF k assms(2)] a by blast
    then have "live m a" using m(1) by (intro live_color(3)) (simp_all add: heap_wf_def)
    then show "deref m c \<noteq> None" using m(2) r ex unfolding heap_closed_def by blast
    show "\<not> white_at m c" by (rule marked_refs [OF assms b r])
  qed
  moreover have "sweep_colors (forget_dead m)"
    unfolding sweep_colors_def
  proof (simp add: forget_reads, intro ballI)
    fix a assume "a \<in> set (m_objects m)"
    then have "deref m a \<noteq> None" using m(1) by (simp add: heap_wf_def)
    then show "has_color m a (lhat_gc_other_white (m_white m)) \<or> has_color m a LHAT_GC_BLACK \<or>
        has_color m a (m_white m)"
      using marked_color [OF k assms(2)] by blast
  qed
  ultimately show ?thesis using forget_wf [OF m(1)] assms(2) by (simp add: gc_ok_def phase_ok_def)
qed

lemma atomic_ok:
  assumes "gc_ok m" "m_gcstate m = LHAT_GC_PROPAGATE"
  shows "gc_ok (atomic m)"
proof -
  have "marking_ok m" using assms by (simp add: gc_ok_def phase_ok_def marking_ok_def)
  then show ?thesis unfolding atomic_split using atomic_marked_ok forget_ok by blast
qed

end
