(* ===== verification/Lhat_GcSweep.thy ===== *)
theory Lhat_GcSweep
  imports Lhat_GcCycle
begin

text \<open>
  The sweep keeps the invariant: what it frees is dead, what it passes and what a freed script
  gives away is live, and no live object loses a reference.
\<close>

subsection \<open>The same roots\<close>

lemma root_refs_same:
  assumes "frame_roots m' = frame_roots m"
    "m' = m\<lparr>m_memory := m_memory m', m_objects := m_objects m', m_count := m_count m',
       m_sweep := m_sweep m', m_released := m_released m', m_collected := m_collected m'\<rparr>"
  shows "root_refs m' = root_refs m"
  unfolding root_refs_def assms(1) by (subst assms(2), simp)+

lemma color_sweep [simp]: "has_color (m\<lparr>m_sweep := n\<rparr>) a c = has_color m a c"
  by (simp add: has_color_def deref_def)

subsection \<open>An object that is passed\<close>

lemma passed_ok:
  assumes "gc_ok m" "m_gcstate m = LHAT_GC_SWEEP" "m_sweep m < length (m_objects m)"
    "\<not> has_color m (m_objects m ! m_sweep m) (lhat_gc_other_white (m_white m))"
  shows "gc_ok ((set_color m (m_objects m ! m_sweep m) (m_white m))\<lparr>m_sweep := m_sweep m + 1\<rparr>)"
    (is "gc_ok ?m")
proof -
  let ?a = "m_objects m ! m_sweep m" and ?c = "set_color m (m_objects m ! m_sweep m) (m_white m)"
  have m: "heap_wf m" "heap_closed m" "m_gray m = []" "sweep_colors m"
    using assms(1,2) by (simp_all add: gc_ok_def phase_ok_def)
  have a: "?a \<in> set (m_objects m)" using assms(3) by simp
  then have e: "deref m ?a \<noteq> None" using m(1) by (simp add: heap_wf_def)
  note r = recolored_set_color [of m ?a "m_white m"]
  have s: "same_heap ?c ?m" by (simp add: same_heap_def)
  have wf: "heap_wf ?c"
  proof (rule recolored_wf [OF r m(1)])
    fix b assume b: "chunk_object m b"
    then have "b \<noteq> ?a" using a by (auto simp: chunk_object_def)
    moreover have "has_color m b LHAT_GC_BLACK" using b m(1) by (simp add: heap_wf_def chunks_ok_def)
    ultimately show "has_color ?c b LHAT_GC_BLACK" by (auto simp: has_color_set_color)
  qed
  have "live m ?a" using e assms(4) by (auto simp: live_def has_color_def split: option.splits)
  moreover have "live ?c ?a" using e by (auto simp: live_has_color has_color_set_color set_color_frame)
  moreover have "live ?c x = live m x" if "x \<noteq> ?a" for x
    using that by (simp add: live_has_color has_color_set_color set_color_frame)
  ultimately have l: "live ?c = live m" by (intro ext) metis
  have "heap_closed ?c"
    using m(2) recolored_refs [OF r] recolored_body [OF r] recolored_fields [OF r]
    by (simp add: heap_closed_def l roots_def weak_refs_def refs_def)
  then have cl: "heap_closed ?m"
    using same_heap_closed [OF s] same_heap_roots [OF s] by (simp add: weak_refs_def)
  have d: "distinct (m_objects m)" using m(1) by (simp add: heap_wf_def)
  have "sweep_colors ?m"
    unfolding sweep_colors_def
  proof (intro conjI ballI)
    fix x assume "x \<in> set (take (m_sweep ?m) (m_objects ?m))"
    then have "x = ?a \<or> x \<in> set (take (m_sweep m) (m_objects m))"
      using assms(3) by (auto simp: take_Suc_conv_app_nth set_color_frame)
    then show "has_color ?m x (m_white ?m)"
      using m(4) e by (auto simp: has_color_set_color set_color_frame sweep_colors_def)
  next
    fix x assume "x \<in> set (drop (m_sweep ?m) (m_objects ?m))"
    then have x: "x \<in> set (drop (Suc (m_sweep m)) (m_objects m))" by (simp add: set_color_frame)
    then have "x \<in> set (drop (m_sweep m) (m_objects m))"
      by (rule subsetD [OF set_drop_subset_set_drop, rotated]) simp
    moreover have "x \<noteq> ?a"
      using x d assms(3) by (auto simp: in_set_conv_nth distinct_conv_nth)
    ultimately show "has_color ?m x (m_white ?m) \<or> has_color ?m x LHAT_GC_BLACK \<or>
        has_color ?m x (lhat_gc_other_white (m_white ?m))"
      using m(4) by (auto simp: has_color_set_color set_color_frame sweep_colors_def)
  qed (use assms(3) in \<open>simp add: set_color_frame\<close>)
  then show ?thesis
    using assms(2) m(3) cl wf same_heap_wf [OF s]
    by (simp add: gc_ok_def phase_ok_def set_color_frame)
qed

subsection \<open>An object that is freed\<close>

text \<open>What a script gives away is recoloured; nothing else changes.\<close>

lemma color_fold_recolored: "recolored m (foldl (\<lambda>m a. set_color m a (m_white m)) m given)"
proof (induction given arbitrary: m)
  case (Cons g given)
  have "recolored m (set_color m g (m_white m))" by (rule recolored_set_color)
  from recolored_trans [OF this Cons.IH] show ?case by simp
qed simp

lemma color_fold_color:
  "has_color (foldl (\<lambda>m a. set_color m a (m_white m)) m given) x c \<longleftrightarrow>
     (if x \<in> set given then deref m x \<noteq> None \<and> c = m_white m else has_color m x c)"
proof (induction given arbitrary: m)
  case (Cons g given)
  have e: "deref (set_color m g (m_white m)) x \<noteq> None \<longleftrightarrow> deref m x \<noteq> None"
    by (auto simp: deref_set_color)
  show ?case unfolding foldl.simps Cons.IH e by (auto simp: has_color_set_color)
qed simp

definition given_by :: "LhatBody \<Rightarrow> addr list" where
  "given_by body = (case body of OBJECT_SCRIPT given \<Rightarrow> given | _ \<Rightarrow> [])"

lemma give_is:
  "give_script_objects m body =
     (foldl (\<lambda>m a. set_color m a (m_white m)) m (given_by body))
       \<lparr>m_objects := given_by body @ m_objects m, m_count := m_count m + length (given_by body),
        m_sweep := (if m_sweep m = 0 then 0 else m_sweep m + length (given_by body))\<rparr>"
  by (simp add: give_script_objects_def given_by_def split: LhatBody.splits)

text \<open>The machine after an object was freed, by what can be read of it.\<close>

lemma sweep_free_reads:
  assumes "deref m a \<noteq> None"
  shows
  "deref (sweep_free m a) x \<noteq> None \<longleftrightarrow> x \<noteq> a \<and> deref m x \<noteq> None"
  "x \<noteq> a \<Longrightarrow> body_of (sweep_free m a) x = body_of m x"
  "has_color (sweep_free m a) x c \<longleftrightarrow> x \<noteq> a \<and>
     (if x \<in> set (given_by (body_of m a)) then deref m x \<noteq> None \<and> c = m_white m else has_color m x c)"
  "m_objects (sweep_free m a) = given_by (body_of m a) @
     take (m_sweep m) (m_objects m) @ drop (Suc (m_sweep m)) (m_objects m)"
  "m_sweep (sweep_free m a) =
     (if m_sweep m = 0 then 0 else m_sweep m + length (given_by (body_of m a)))"
  "m_white (sweep_free m a) = m_white m" "m_gcstate (sweep_free m a) = m_gcstate m"
  "m_gray (sweep_free m a) = m_gray m" "m_frames (sweep_free m a) = m_frames m"
  "m_slots (sweep_free m a) = m_slots m" "weak_refs (sweep_free m a) = weak_refs m"
proof -
  let ?o = "take (m_sweep m) (m_objects m) @ drop (Suc (m_sweep m)) (m_objects m)"
  let ?m1 = "m\<lparr>m_objects := ?o, m_released := a # m_released m\<rparr>"
  let ?g = "given_by (body_of m a)"
  let ?f = "foldl (\<lambda>m a. set_color m a (m_white m)) ?m1 ?g"
  let ?w = "if m_sweep m = 0 then 0 else m_sweep m + length ?g"
  have s: "same_heap (m\<lparr>m_objects := ?o\<rparr>) ?m1" by (simp add: same_heap_def)
  have d: "deref ?m1 = deref m" by (intro ext) (simp add: deref_def)
  have b: "body_of ?m1 = body_of m" by (intro ext) (simp add: body_of_def d)
  have h: "has_color ?m1 = has_color m" by (intro ext) (simp add: has_color_def d)
  have r: "recolored ?m1 ?f" by (rule color_fold_recolored)
  have l: "length (m_memory ?f) = length (m_memory m)"
  proof -
    have "length (bodies ?f) = length (bodies ?m1)" using r by (simp add: recolored_def)
    then show ?thesis by (simp add: bodies_def)
  qed
  have eq: "sweep_free m a =
      (put ?f a None)\<lparr>m_objects := ?g @ ?o, m_sweep := ?w,
        m_count := m_count m + length ?g - 1, m_collected := m_collected ?f + 1\<rparr>"
    by (simp add: sweep_free_def Let_def give_is b put_def)
  have dr: "deref (sweep_free m a) x = (if x = a then None else deref ?f x)" for x
    unfolding eq by (auto simp: deref_def put_def nth_list_update)
  show "deref (sweep_free m a) x \<noteq> None \<longleftrightarrow> x \<noteq> a \<and> deref m x \<noteq> None"
    using recolored_exists [OF r, of x] by (simp add: dr d del: not_None_eq)
  show "x \<noteq> a \<Longrightarrow> body_of (sweep_free m a) x = body_of m x"
    using recolored_body [OF r, of x] by (simp add: body_of_def dr d)
  show "has_color (sweep_free m a) x c \<longleftrightarrow> x \<noteq> a \<and>
     (if x \<in> set ?g then deref m x \<noteq> None \<and> c = m_white m else has_color m x c)"
  proof -
    have "has_color (sweep_free m a) x c \<longleftrightarrow> x \<noteq> a \<and> has_color ?f x c"
      by (simp add: has_color_def dr)
    then show ?thesis by (simp add: color_fold_color d h)
  qed
  show "m_objects (sweep_free m a) = ?g @ ?o" "m_sweep (sweep_free m a) = ?w" by (simp_all add: eq)
  show "m_white (sweep_free m a) = m_white m" "m_gcstate (sweep_free m a) = m_gcstate m"
    "m_frames (sweep_free m a) = m_frames m" "m_slots (sweep_free m a) = m_slots m"
    "weak_refs (sweep_free m a) = weak_refs m"
    using recolored_fields [OF r] by (simp_all add: eq put_def weak_refs_def)
  have "m_gray (foldl (\<lambda>m a. set_color m a (m_white m)) n gs) = m_gray n" for n gs
    by (induction gs arbitrary: n) auto
  then show "m_gray (sweep_free m a) = m_gray m" by (simp add: eq)
qed

text \<open>The machine as a freeing finds it.\<close>

definition about_to_free :: "Machine \<Rightarrow> addr \<Rightarrow> bool" where
  "about_to_free m a \<longleftrightarrow> gc_ok m \<and> m_gcstate m = LHAT_GC_SWEEP \<and> m_sweep m < length (m_objects m) \<and>
     a = m_objects m ! m_sweep m \<and> has_color m a (lhat_gc_other_white (m_white m))"

lemma free_facts:
  assumes "about_to_free m a"
  shows "heap_wf m" "heap_closed m" "m_gray m = []" "sweep_colors m" "is_white (m_white m)"
    "m_gcstate m = LHAT_GC_SWEEP" "distinct (m_objects m)" "scripts_ok m" "chunks_ok m" "upvalues_ok m"
proof -
  have g: "gc_ok m" "m_gcstate m = LHAT_GC_SWEEP" using assms by (simp_all add: about_to_free_def)
  then show "heap_wf m" "heap_closed m" "m_gray m = []" "sweep_colors m" "m_gcstate m = LHAT_GC_SWEEP"
    by (simp_all add: gc_ok_def phase_ok_def)
  then show "is_white (m_white m)" "distinct (m_objects m)" "scripts_ok m" "chunks_ok m" "upvalues_ok m"
    by (simp_all add: heap_wf_def)
qed

lemma free_there:
  assumes "about_to_free m a"
  shows "deref m a \<noteq> None" "a \<in> set (m_objects m)" "\<not> live m a"
proof -
  have c: "has_color m a (lhat_gc_other_white (m_white m))"
    using assms unfolding about_to_free_def by blast
  show "deref m a \<noteq> None" by (rule color_exists [OF c])
  show "a \<in> set (m_objects m)" using assms by (auto simp: about_to_free_def)
  show "\<not> live m a" using c by (auto simp: live_has_color dest: color_unique)
qed

lemma script_ok_facts:
  assumes "script_ok m given"
  shows "distinct given" "\<And>g. g \<in> set given \<Longrightarrow> chunk_object m g"
    "\<And>a c. chunk_object m a \<Longrightarrow> c \<in> refs m a \<Longrightarrow> c \<in> set given \<longleftrightarrow> a \<in> set given"
  using assms unfolding script_ok_def by (elim conjE; (erule allE impE)?; assumption | blast)+

lemma script_facts:
  assumes "scripts_ok m" "deref m a \<noteq> None" "body_of m a = OBJECT_SCRIPT given"
  shows "a \<in> set (m_objects m)" "script_ok m given"
    "deref m b \<noteq> None \<Longrightarrow> body_of m b = OBJECT_SCRIPT given' \<Longrightarrow> b \<noteq> a \<Longrightarrow> set given \<inter> set given' = {}"
proof -
  have "\<forall>given. deref m a \<noteq> None \<longrightarrow> body_of m a = OBJECT_SCRIPT given \<longrightarrow>
      a \<in> set (m_objects m) \<and> script_ok m given \<and>
      (\<forall>b given'. deref m b \<noteq> None \<longrightarrow> body_of m b = OBJECT_SCRIPT given' \<longrightarrow> b \<noteq> a \<longrightarrow>
         set given \<inter> set given' = {})"
    using assms(1) unfolding scripts_ok_def by (rule spec)
  from mp [OF mp [OF spec [OF this] assms(2)] assms(3)]
  have f: "a \<in> set (m_objects m) \<and> script_ok m given \<and>
      (\<forall>b given'. deref m b \<noteq> None \<longrightarrow> body_of m b = OBJECT_SCRIPT given' \<longrightarrow> b \<noteq> a \<longrightarrow>
         set given \<inter> set given' = {})" .
  from f show "a \<in> set (m_objects m)" by (rule conjunct1)
  from f show "script_ok m given" by (elim conjE)
  from f show "deref m b \<noteq> None \<Longrightarrow> body_of m b = OBJECT_SCRIPT given' \<Longrightarrow> b \<noteq> a \<Longrightarrow>
      set given \<inter> set given' = {}" by (elim conjE allE impE) simp_all
qed

text \<open>What the object gives away, when it is a script.\<close>

lemma free_given:
  assumes "about_to_free m a"
  shows "script_ok m (given_by (body_of m a))" "a \<notin> set (given_by (body_of m a))"
    "set (given_by (body_of m a)) \<inter> set (m_objects m) = {}"
proof -
  have "script_ok m (given_by (body_of m a))"
  proof (cases "\<exists>given. body_of m a = OBJECT_SCRIPT given")
    case True
    then obtain given where g: "body_of m a = OBJECT_SCRIPT given" by blast
    then have "given_by (body_of m a) = given" by (simp add: given_by_def)
    then show ?thesis
      using script_facts(2) [OF free_facts(8) [OF assms] free_there(1) [OF assms] g] by simp
  next
    case False
    then have "given_by (body_of m a) = []" by (auto simp: given_by_def split: LhatBody.splits)
    then show ?thesis by (simp add: script_ok_def)
  qed
  then show s: "script_ok m (given_by (body_of m a))" .
  have n: "g \<notin> set (m_objects m)" if "g \<in> set (given_by (body_of m a))" for g
    using script_ok_facts(2) [OF s that] by (simp add: chunk_object_def)
  show "a \<notin> set (given_by (body_of m a))" by (rule notI) (rule notE [OF n free_there(2) [OF assms]])
  show "set (given_by (body_of m a)) \<inter> set (m_objects m) = {}" by (auto dest: n)
qed

lemma free_given_other:
  assumes "about_to_free m a" "b \<noteq> a" "deref m b \<noteq> None" "body_of m b = OBJECT_SCRIPT given'"
  shows "set (given_by (body_of m a)) \<inter> set given' = {}"
proof (cases "\<exists>given. body_of m a = OBJECT_SCRIPT given")
  case True
  then obtain given where g: "body_of m a = OBJECT_SCRIPT given" by blast
  then have e: "given_by (body_of m a) = given" by (simp add: given_by_def)
  show ?thesis
    unfolding e by (rule script_facts(3) [OF free_facts(8) [OF assms(1)] free_there(1) [OF assms(1)] g
          assms(3,4,2)])
next
  case False
  then have "given_by (body_of m a) = []" by (auto simp: given_by_def split: LhatBody.splits)
  then show ?thesis by simp
qed

text \<open>The live objects are the same, and so is what they refer to.\<close>

lemma free_live:
  assumes "about_to_free m a"
  shows "live (sweep_free m a) x \<longleftrightarrow> live m x"
proof -
  note r = sweep_free_reads [OF free_there(1) [OF assms]]
  have w: "is_white (m_white m)" by (rule free_facts(5) [OF assms])
  consider "x = a" | "x \<noteq> a" "x \<in> set (given_by (body_of m a))"
    | "x \<noteq> a" "x \<notin> set (given_by (body_of m a))" by blast
  then show ?thesis
  proof cases
    case 1
    then show ?thesis
      using free_there(3) [OF assms] live_exists [of "sweep_free m a" x] r(1) [of x] by blast
  next
    case 2
    then have "chunk_object m x" by (intro script_ok_facts(2) [OF free_given(1) [OF assms]])
    then have c: "has_color m x LHAT_GC_BLACK"
      using free_facts(9) [OF assms] unfolding chunks_ok_def by blast
    have e: "deref m x \<noteq> None" by (rule color_exists [OF c])
    have "live (sweep_free m a) x" unfolding live_has_color r(3,6)
      by (intro exI [of _ "m_white m"]) (use 2 e in simp)
    then show ?thesis using live_color(3) [OF w c] by blast
  next
    case 3
    then show ?thesis by (simp add: live_has_color r)
  qed
qed

lemma free_live_neq: "about_to_free m a \<Longrightarrow> live m x \<Longrightarrow> x \<noteq> a"
  using free_there(3) by blast

lemma free_refs:
  assumes "about_to_free m a" "x \<noteq> a"
  shows "refs (sweep_free m a) x \<subseteq> refs m x"
    "live m x \<Longrightarrow> refs (sweep_free m a) x = refs m x"
proof -
  note r = sweep_free_reads [OF free_there(1) [OF assms(1)]]
  let ?m = "sweep_free m a"
  have b: "body_of ?m x = body_of m x" by (rule r(2) [OF assms(2)])
  have g: "ref_get ?m p v = ref_get m p v" if "\<forall>co i. p = PLACE_SAVED co i \<longrightarrow> co \<noteq> a" for p v
    using that r(2) by (auto simp: ref_get_def r(10) split: LhatPlace.splits)
  have ga: "ref_get ?m (PLACE_SAVED a i) v = VALUE_NIL" for i v
    using r(1) [of a] by (simp add: ref_get_def body_of_def split: option.splits)
  have o: "object_refs ?m (body_of m x) = object_refs m (body_of m x) \<or>
      (\<exists>i cell su. body_of m x = OBJECT_UPVALUE (PLACE_SAVED a i) cell su)"
  proof (cases "\<exists>p cell su. body_of m x = OBJECT_UPVALUE p cell su")
    case True
    then obtain p cell su where u: "body_of m x = OBJECT_UPVALUE p cell su" by blast
    show ?thesis
    proof (cases "\<exists>i. p = PLACE_SAVED a i")
      case False
      then have "ref_get ?m p cell = ref_get m p cell" by (intro g) blast
      then show ?thesis by (simp add: u object_refs_def)
    qed (use u in auto)
  qed (auto simp: object_refs_def split: LhatBody.splits)
  show "refs ?m x \<subseteq> refs m x"
    using o ga by (auto simp: refs_def b object_refs_def value_ref_def)
  show "refs ?m x = refs m x" if l: "live m x"
  proof -
    have False if u: "body_of m x = OBJECT_UPVALUE (PLACE_SAVED a i) cell su" for i cell su
    proof -
      have "su = Some a"
        using free_facts(10) [OF assms(1)] live_exists [OF l] u unfolding upvalues_ok_def by fastforce
      then have "a \<in> refs m x" by (simp add: refs_def u object_refs_def)
      then have "live m a" using free_facts(2) [OF assms(1)] l unfolding heap_closed_def by blast
      then show False using free_there(3) [OF assms(1)] by blast
    qed
    then show ?thesis using o by (auto simp: refs_def b)
  qed
qed

lemma frame_closure_root: "f \<in> set (m_frames m) \<Longrightarrow> fr_closure f \<in> roots m"
  by (auto simp: roots_def root_refs_def frame_roots_def)

lemma sweep_free_form:
  "sweep_free m a = m\<lparr>m_memory := m_memory (sweep_free m a), m_gray := m_gray (sweep_free m a),
     m_objects := m_objects (sweep_free m a), m_count := m_count (sweep_free m a),
     m_sweep := m_sweep (sweep_free m a), m_released := m_released (sweep_free m a),
     m_collected := m_collected (sweep_free m a)\<rparr>"
proof -
  let ?m1 = "m\<lparr>m_objects := take (m_sweep m) (m_objects m) @ drop (Suc (m_sweep m)) (m_objects m),
     m_released := a # m_released m\<rparr>"
  let ?f = "foldl (\<lambda>m a. set_color m a (m_white m)) ?m1 (given_by (body_of ?m1 a))"
  have "?f = ?m1\<lparr>m_memory := m_memory ?f, m_gray := m_gray ?f\<rparr>"
    using color_fold_recolored [of ?m1] by (simp add: recolored_def)
  then obtain mem gray where f: "?f = ?m1\<lparr>m_memory := mem, m_gray := gray\<rparr>" by blast
  show ?thesis unfolding sweep_free_def Let_def give_is f by (simp add: put_def)
qed

lemma sweep_free_roots:
  assumes "concat (map (frame_roots (sweep_free m a)) (m_frames m)) = concat (map (frame_roots m) (m_frames m))"
  shows "root_refs (sweep_free m a) = root_refs m"
proof -
  have fr: "m_frames (sweep_free m a) = m_frames m" by (subst sweep_free_form) simp
  show ?thesis unfolding root_refs_def fr assms by (subst sweep_free_form, simp)+
qed

lemma free_frames:
  assumes "about_to_free m a"
  shows "f \<in> set (m_frames m) \<Longrightarrow> frame_width (sweep_free m a) f = frame_width m f"
    "root_refs (sweep_free m a) = root_refs m"
proof -
  note r = sweep_free_reads [OF free_there(1) [OF assms]]
  have w: "frame_width (sweep_free m a) f = frame_width m f" if "f \<in> set (m_frames m)" for f
  proof -
    have "live m (fr_closure f)"
      using frame_closure_root [OF that] free_facts(2) [OF assms] by (simp add: heap_closed_def)
    then have "body_of (sweep_free m a) (fr_closure f) = body_of m (fr_closure f)"
      by (intro r(2) free_live_neq [OF assms])
    then show ?thesis by (simp add: frame_width_def)
  qed
  then show "f \<in> set (m_frames m) \<Longrightarrow> frame_width (sweep_free m a) f = frame_width m f" .
  have "map (frame_roots (sweep_free m a)) (m_frames m) = map (frame_roots m) (m_frames m)"
    by (rule map_cong [OF refl]) (simp add: frame_roots_def w r(10))
  then show "root_refs (sweep_free m a) = root_refs m" by (intro sweep_free_roots) (rule arg_cong)
qed

lemma chunk_freed:
  assumes "about_to_free m a"
  shows "chunk_object (sweep_free m a) x \<longleftrightarrow>
    chunk_object m x \<and> x \<notin> set (given_by (body_of m a))"
proof -
  note r = sweep_free_reads [OF free_there(1) [OF assms]]
  have s: "m_sweep m < length (m_objects m)" "a = m_objects m ! m_sweep m"
    using assms by (auto simp: about_to_free_def)
  have "set (m_objects m) = insert a (set (take (m_sweep m) (m_objects m) @ drop (Suc (m_sweep m)) (m_objects m)))"
    by (subst id_take_nth_drop [OF s(1)]) (auto simp: s(2))
  then show ?thesis unfolding chunk_object_def r(1,4) using free_there(2) [OF assms] by auto
qed

lemma freed_wf:
  assumes "about_to_free m a"
  shows "heap_wf (sweep_free m a)"
proof -
  let ?m = "sweep_free m a" and ?g = "given_by (body_of m a)"
  let ?o = "take (m_sweep m) (m_objects m) @ drop (Suc (m_sweep m)) (m_objects m)"
  note r = sweep_free_reads [OF free_there(1) [OF assms]]
  note k = free_facts [OF assms]
  have s: "m_sweep m < length (m_objects m)" "a = m_objects m ! m_sweep m"
    using assms by (auto simp: about_to_free_def)
  have sp: "m_objects m = take (m_sweep m) (m_objects m) @ a # drop (Suc (m_sweep m)) (m_objects m)"
    unfolding s(2) by (rule id_take_nth_drop [OF s(1)])
  have so: "set (m_objects m) = insert a (set ?o)" by (subst sp) auto
  have "distinct (take (m_sweep m) (m_objects m) @ a # drop (Suc (m_sweep m)) (m_objects m))"
    unfolding sp [symmetric] by (rule k(7))
  then have do: "distinct ?o" "a \<notin> set ?o" by auto
  have g: "script_ok m ?g" "set ?g \<inter> set (m_objects m) = {}" "a \<notin> set ?g"
    by (rule free_given [OF assms])+
  have gc: "\<And>x. x \<in> set ?g \<Longrightarrow> deref m x \<noteq> None" "distinct ?g"
    using script_ok_facts(1,2) [OF g(1)] by (auto simp: chunk_object_def)
  have gi: "c \<in> set ?g \<longleftrightarrow> x \<in> set ?g" if "chunk_object m x" "c \<in> refs m x" for x c
    by (rule script_ok_facts(3) [OF g(1) that])
  have ch: "has_color m x LHAT_GC_BLACK" "c \<in> refs m x \<Longrightarrow> chunk_object m c" if "chunk_object m x" for x c
    using k(9) that unfolding chunks_ok_def by blast+
  have na: "x \<noteq> a" if "chunk_object m x" for x using that free_there(2) [OF assms] by (auto simp: chunk_object_def)
  note cf = chunk_freed [OF assms]
  have d: "distinct (m_objects ?m)" unfolding r(4) using do gc(2) g(2) so by auto
  have e: "\<forall>x \<in> set (m_objects ?m). deref ?m x \<noteq> None"
    unfolding r(1,4) using do g gc(1) k(1) so by (auto simp: heap_wf_def)
  have c: "chunks_ok ?m"
    unfolding chunks_ok_def
  proof (intro allI impI conjI ballI)
    fix x assume x: "chunk_object ?m x"
    then have x': "chunk_object m x" "x \<notin> set ?g" by (simp_all add: cf)
    show "has_color ?m x LHAT_GC_BLACK" using ch(1) [OF x'(1)] x'(2) na [OF x'(1)] by (simp add: r(3))
    fix c assume "c \<in> refs ?m x"
    then have c: "c \<in> refs m x" using free_refs(1) [OF assms na [OF x'(1)]] by blast
    show "chunk_object ?m c" using ch(2) [OF x'(1) c] gi [OF x'(1) c] x'(2) by (simp add: cf)
  qed
  have sc: "scripts_ok ?m"
    unfolding scripts_ok_def
  proof (intro allI impI)
    fix x given assume "deref ?m x \<noteq> None" and b: "body_of ?m x = OBJECT_SCRIPT given"
    then have x: "x \<noteq> a" "deref m x \<noteq> None" using r(1) by blast+
    then have b': "body_of m x = OBJECT_SCRIPT given" using b by (simp add: r(2))
    note f = script_facts [OF k(8) x(2) b']
    have dj: "set ?g \<inter> set given = {}" by (rule free_given_other [OF assms x b'])
    have "x \<in> set (m_objects ?m)" using f(1) x(1) so by (auto simp: r(4))
    moreover have "script_ok ?m given"
      unfolding script_ok_def
    proof (intro conjI ballI allI impI)
      show "distinct given" by (rule script_ok_facts(1) [OF f(2)])
      show "chunk_object ?m g" if "g \<in> set given" for g
        using that script_ok_facts(2) [OF f(2)] dj by (auto simp: cf)
      fix y c assume y: "chunk_object ?m y" and c: "c \<in> refs ?m y"
      have "chunk_object m y" using y by (simp add: cf)
      moreover from this have "c \<in> refs m y" using c free_refs(1) [OF assms na] by blast
      ultimately show "c \<in> set given \<longleftrightarrow> y \<in> set given" by (rule script_ok_facts(3) [OF f(2)])
    qed
    moreover have "set given \<inter> set given' = {}"
      if "deref ?m y \<noteq> None" "body_of ?m y = OBJECT_SCRIPT given'" "y \<noteq> x" for y given'
    proof -
      have y: "y \<noteq> a" "deref m y \<noteq> None" using that(1) r(1) by blast+
      then have "body_of m y = OBJECT_SCRIPT given'" using that(2) by (simp add: r(2))
      then show ?thesis by (rule f(3) [OF y(2) _ that(3)])
    qed
    ultimately show "x \<in> set (m_objects ?m) \<and> script_ok ?m given \<and>
        (\<forall>y given'. deref ?m y \<noteq> None \<longrightarrow> body_of ?m y = OBJECT_SCRIPT given' \<longrightarrow> y \<noteq> x \<longrightarrow>
          set given \<inter> set given' = {})" by blast
  qed
  have sr: "slot_rooted ?m i = slot_rooted m i" for i
    using free_frames(1) [OF assms] by (auto simp: slot_rooted_def r(9))
  have u: "upvalues_ok ?m"
    unfolding upvalues_ok_def
  proof (intro allI impI)
    fix x place cell su assume "deref ?m x \<noteq> None" and b: "body_of ?m x = OBJECT_UPVALUE place cell su"
    then have x: "x \<noteq> a" "deref m x \<noteq> None" using r(1) by blast+
    then have "body_of m x = OBJECT_UPVALUE place cell su" using b by (simp add: r(2))
    then have f: "x \<in> set (m_objects m) \<and> (case place of PLACE_SLOT i \<Rightarrow> slot_rooted m i
         | PLACE_SAVED co i \<Rightarrow> su = Some co | _ \<Rightarrow> True)"
      using k(10) x(2) unfolding upvalues_ok_def by blast
    then have "x \<in> set (m_objects ?m)" using x(1) so by (auto simp: r(4))
    with f show "x \<in> set (m_objects ?m) \<and> (case place of PLACE_SLOT i \<Rightarrow> slot_rooted ?m i
         | PLACE_SAVED co i \<Rightarrow> su = Some co | _ \<Rightarrow> True)" by (simp only: sr)
  qed
  show ?thesis using d e c sc u k(5) by (simp add: heap_wf_def r(6))
qed

lemma freed_colors:
  assumes "about_to_free m a"
  shows "sweep_colors (sweep_free m a)"
proof -
  let ?m = "sweep_free m a" and ?g = "given_by (body_of m a)"
  note r = sweep_free_reads [OF free_there(1) [OF assms]]
  note k = free_facts [OF assms]
  have s: "m_sweep m < length (m_objects m)" "a = m_objects m ! m_sweep m"
    using assms by (auto simp: about_to_free_def)
  have g: "x \<in> set ?g \<Longrightarrow> has_color ?m x (m_white m)" for x
    using script_ok_facts(2) [OF free_given(1) [OF assms]] free_given(2) [OF assms]
    by (auto simp: r(3) chunk_object_def)
  have no: "x \<noteq> a \<and> x \<notin> set ?g"
    if "x \<in> set (take (m_sweep m) (m_objects m)) \<or> x \<in> set (drop (Suc (m_sweep m)) (m_objects m))" for x
  proof -
    have "x \<in> set (m_objects m)" using that by (auto dest: in_set_takeD in_set_dropD)
    moreover have "x \<noteq> a"
      using that k(7) s by (auto simp: in_set_conv_nth distinct_conv_nth)
    ultimately show ?thesis using free_given(3) [OF assms] by auto
  qed
  have t: "has_color ?m x (m_white m)" if "x \<in> set (take (m_sweep m) (m_objects m))" for x
    using that no [of x] k(4) by (simp add: r(3) sweep_colors_def)
  have d: "has_color ?m x (m_white m) \<or> has_color ?m x LHAT_GC_BLACK \<or>
      has_color ?m x (lhat_gc_other_white (m_white m))"
    if "x \<in> set (drop (Suc (m_sweep m)) (m_objects m))" for x
  proof -
    have "x \<in> set (drop (m_sweep m) (m_objects m))"
      using that by (rule subsetD [OF set_drop_subset_set_drop, rotated]) simp
    then show ?thesis using that no [of x] k(4) by (simp add: r(3) sweep_colors_def)
  qed
  show ?thesis
  proof (cases "m_sweep m = 0")
    case True
    then show ?thesis
      unfolding sweep_colors_def r(4,5,6) using g d by (auto)
  next
    case False
    then have "take (m_sweep ?m) (m_objects ?m) = ?g @ take (m_sweep m) (m_objects m)"
      "drop (m_sweep ?m) (m_objects ?m) = drop (Suc (m_sweep m)) (m_objects m)"
      "m_sweep ?m \<le> length (m_objects ?m)"
      using s(1) by (simp_all add: r(4,5) min_def)
    then show ?thesis unfolding sweep_colors_def r(6) using g t d by auto
  qed
qed

lemma freed_ok:
  assumes "about_to_free m a"
  shows "gc_ok (sweep_free m a)"
proof -
  note r = sweep_free_reads [OF free_there(1) [OF assms]]
  note k = free_facts [OF assms]
  have "heap_closed (sweep_free m a)"
    unfolding heap_closed_def roots_def free_frames(2) [OF assms] r(11) free_live [OF assms]
    using k(2) free_refs(1) [OF assms free_live_neq [OF assms]]
    unfolding heap_closed_def roots_def by blast
  then show ?thesis
    using freed_wf [OF assms] freed_colors [OF assms] k(3,6) r(7,8) by (simp add: gc_ok_def phase_ok_def)
qed

lemma sweep_one_ok:
  assumes "gc_ok m" "m_gcstate m = LHAT_GC_SWEEP" "\<not> sweep_done m"
  shows "gc_ok (sweep_one m)"
proof (cases "has_color m (m_objects m ! m_sweep m) (lhat_gc_other_white (m_white m))")
  case True
  then have "about_to_free m (m_objects m ! m_sweep m)"
    using assms by (simp add: about_to_free_def sweep_done_def)
  then show ?thesis using True freed_ok by (simp add: sweep_one_def Let_def)
next
  case False
  then show ?thesis using passed_ok assms by (simp add: sweep_one_def Let_def sweep_done_def)
qed

subsection \<open>Every step keeps the invariant\<close>

lemma sweep_loop_ok:
  "gc_ok m \<Longrightarrow> m_gcstate m = LHAT_GC_SWEEP \<Longrightarrow> gc_ok (fst (sweep_loop m budget looked))"
proof (induction m budget looked rule: sweep_loop.induct)
  case (1 m budget looked)
  then show ?case by (subst sweep_loop.simps) (auto intro: sweep_one_ok)
qed

definition end_sweep :: "Machine \<Rightarrow> Machine" where
  "end_sweep m = m\<lparr>m_sweep := 0, m_gcstate := LHAT_GC_PAUSE, m_gc_cycles := m_gc_cycles m + 1\<rparr>"

lemma end_sweep_ok:
  assumes "gc_ok m" "m_gcstate m = LHAT_GC_SWEEP" "sweep_done m"
  shows "gc_ok (end_sweep m)"
proof -
  have s: "same_heap m (end_sweep m)" by (simp add: same_heap_def end_sweep_def)
  have r: "root_refs (end_sweep m) = root_refs m"
    by (rule same_heap_roots [OF s]) (simp add: end_sweep_def)
  have "heap_closed (end_sweep m) = heap_closed m"
    by (rule same_heap_closed [OF s r]) (simp add: weak_refs_def end_sweep_def)
  moreover have "\<forall>a \<in> set (m_objects m). has_color m a (m_white m)"
    using assms by (auto simp: gc_ok_def phase_ok_def sweep_colors_def sweep_done_def)
  moreover have "has_color (end_sweep m) = has_color m" by (rule same_heap_refs(7) [OF s])
  moreover have "m_objects (end_sweep m) = m_objects m" "m_white (end_sweep m) = m_white m"
    "m_gray (end_sweep m) = m_gray m" "m_gcstate (end_sweep m) = LHAT_GC_PAUSE"
    by (simp_all add: end_sweep_def)
  ultimately show ?thesis
    using assms(1,2) same_heap_wf [OF s] by (simp add: gc_ok_def phase_ok_def)
qed

lemma sweep_some_is:
  "fst (sweep_some m budget) =
     (let m1 = fst (sweep_loop m budget 0) in if sweep_done m1 then end_sweep m1 else m1)"
  by (simp add: sweep_some_def end_sweep_def Let_def split: prod.splits)

lemma single_step_ok:
  assumes "gc_ok m"
  shows "gc_ok (fst (single_step m budget))"
proof (cases "m_gcstate m")
  case LHAT_GC_PAUSE
  then show ?thesis using assms by (simp add: single_step_def start_cycle_ok)
next
  case LHAT_GC_PROPAGATE
  then show ?thesis using assms by (simp add: single_step_def propagate_ok atomic_ok)
next
  case LHAT_GC_SWEEP
  note l = sweep_loop_ok [OF assms LHAT_GC_SWEEP, of budget 0]
  show ?thesis
    using l LHAT_GC_SWEEP by (simp add: single_step_def sweep_some_is Let_def end_sweep_ok)
qed

lemma rearm_ok: "gc_ok (lhat_gc_rearm m) = gc_ok m"
proof -
  have "gc_ok (m\<lparr>m_threshold := t\<rparr>) = gc_ok m" for t
  proof -
    have s: "same_heap m (m\<lparr>m_threshold := t\<rparr>)" by (simp add: same_heap_def)
    have r: "root_refs (m\<lparr>m_threshold := t\<rparr>) = root_refs m" by (rule same_heap_roots [OF s]) simp
    have "phase_ok (m\<lparr>m_threshold := t\<rparr>) = phase_ok m"
      using same_heap_marking [OF s] same_heap_refs [OF s]
      by (simp add: phase_ok_def sweep_colors_def split: GcState.splits)
    then show ?thesis
      using same_heap_wf [OF s] same_heap_closed [OF s r] by (simp add: gc_ok_def weak_refs_def)
  qed
  then show ?thesis by (simp add: lhat_gc_rearm_def)
qed

lemma advance_loop_ok: "gc_ok m \<Longrightarrow> gc_ok (fst (advance_loop m budget looked))"
proof (induction m budget looked rule: advance_loop.induct)
  case (1 m budget looked)
  have "gc_ok (fst (single_step m (budget - looked)))" by (rule single_step_ok [OF 1(2)])
  with 1 show ?case by (subst advance_loop.simps) (auto split: prod.splits)
qed

lemma step_loop_ok: "gc_ok m \<Longrightarrow> gc_ok (step_loop m budget looked)"
proof (induction m budget looked rule: step_loop.induct)
  case (1 m budget looked)
  have "gc_ok (fst (single_step m (budget - looked)))" by (rule single_step_ok [OF 1(2)])
  with 1 show ?case by (subst step_loop.simps) (auto split: prod.splits)
qed

lemma run_to_pause_ok: "gc_ok m \<Longrightarrow> gc_ok (run_to_pause m) \<and> m_gcstate (run_to_pause m) = LHAT_GC_PAUSE"
proof (induction m rule: run_to_pause.induct)
  case (1 m)
  then show ?case by (subst run_to_pause.simps, subst (2) run_to_pause.simps) (auto intro: single_step_ok)
qed

lemma collector_ok:
  assumes "gc_ok m"
  shows "gc_ok (lhat_gc_step m)" "gc_ok (fst (lhat_gc_advance m budget))" "gc_ok (lhat_gc_collect m)"
proof -
  show "gc_ok (lhat_gc_step m)"
    using single_step_ok [OF assms] step_loop_ok
    by (auto simp: lhat_gc_step_def Let_def rearm_ok split: prod.splits) (metis fst_conv)
  show "gc_ok (fst (lhat_gc_advance m budget))"
    using advance_loop_ok [OF assms, of budget 0]
    by (cases "advance_loop m budget 0") (simp add: lhat_gc_advance_def rearm_ok)
  show "gc_ok (lhat_gc_collect m)"
    unfolding lhat_gc_collect_def rearm_ok
    using run_to_pause_ok [OF assms] start_cycle_ok run_to_pause_ok by blast
qed

end
