(* ===== verification/Lhat_GcExact.thy ===== *)
theory Lhat_GcExact
  imports Lhat_GcSweep
begin

text \<open>
  What a collection leaves: the objects that the program can reach, as they were, and of the rest
  nothing that was there when the cycle began.
\<close>

subsection \<open>What a step leaves alone\<close>

definition settled :: "Machine \<Rightarrow> bool" where
  "settled m \<longleftrightarrow> (\<forall>a. deref m a \<noteq> None \<longrightarrow> \<not> owes_cleanups (body_of m a))"

text \<open>Nothing reachable is lost, nothing that survives is changed, and the roots grow by coroutines
  held back only.\<close>

definition keeps :: "Machine \<Rightarrow> Machine \<Rightarrow> bool" where
  "keeps m m' \<longleftrightarrow>
     reachable m \<subseteq> reachable m' \<and> (settled m \<longrightarrow> reachable m' = reachable m) \<and>
     (\<forall>a. deref m' a \<noteq> None \<longrightarrow> deref m a \<noteq> None \<and> body_of m' a = body_of m a) \<and>
     (\<forall>a \<in> set (m_objects m). deref m' a \<noteq> None \<longrightarrow> a \<in> set (m_objects m'))"

lemma keeps_refl [simp]: "keeps m m"
  by (simp add: keeps_def)

lemma keepsD:
  assumes "keeps m m'"
  shows "reachable m \<subseteq> reachable m'" "settled m \<Longrightarrow> reachable m' = reachable m"
    "deref m' a \<noteq> None \<Longrightarrow> deref m a \<noteq> None" "deref m' a \<noteq> None \<Longrightarrow> body_of m' a = body_of m a"
    "a \<in> set (m_objects m) \<Longrightarrow> deref m' a \<noteq> None \<Longrightarrow> a \<in> set (m_objects m')"
  using assms by (simp_all add: keeps_def)

lemma keeps_settled: "keeps m m' \<Longrightarrow> settled m \<Longrightarrow> settled m'"
  using keepsD(3,4) [of m m'] by (auto simp: settled_def simp del: not_None_eq)

lemma keeps_trans [trans]:
  assumes "keeps m m1" "keeps m1 m2"
  shows "keeps m m2"
  unfolding keeps_def
proof (intro conjI allI impI ballI)
  note k = keepsD [OF assms(1)] and l = keepsD [OF assms(2)]
  show "reachable m \<subseteq> reachable m2" using k(1) l(1) by (rule subset_trans)
  show "reachable m2 = reachable m" if "settled m"
    using k(2) [OF that] l(2) [OF keeps_settled [OF assms(1) that]] by simp
  show "deref m a \<noteq> None" if "deref m2 a \<noteq> None" for a by (rule k(3) [OF l(3) [OF that]])
  show "body_of m2 a = body_of m a" if "deref m2 a \<noteq> None" for a
    using k(4) [OF l(3) [OF that]] l(4) [OF that] by simp
  show "a \<in> set (m_objects m2)" if "a \<in> set (m_objects m)" "deref m2 a \<noteq> None" for a
    by (rule l(5) [OF k(5) [OF that(1) l(3) [OF that(2)]] that(2)])
qed

lemma keeps_recolored:
  assumes "recolored m m'"
  shows "keeps m m'"
  unfolding keeps_def
proof (intro conjI allI impI ballI)
  show "deref m a \<noteq> None" if "deref m' a \<noteq> None" for a
    using that recolored_exists [OF assms] by simp
qed (simp_all add: recolored_reachable [OF assms] recolored_body [OF assms] recolored_fields [OF assms])

lemma keeps_same_heap:
  assumes "same_heap m m'" "root_refs m' = root_refs m"
  shows "keeps m m'"
proof -
  have "reachable m' = reachable m"
    by (rule reachable_cong) (simp_all add: roots_def assms(2) same_heap_refs [OF assms(1)])
  then show ?thesis using assms(1) by (simp add: keeps_def same_heap_refs [OF assms(1)]) (simp add: same_heap_def)
qed

lemma keeps_hold_one: "keeps m (hold_one m a)"
proof (cases "white_at m a \<and> owes_cleanups (body_of m a)")
  case True
  let ?r = "reach m (Some a)"
  have e: "hold_one m a = machine_set_pending_dispose ?r (a # m_pending_dispose ?r)"
    using True recolored_fields(9) [OF recolored_reach, of m "Some a"] by (simp add: hold_one_def)
  have s: "same_heap ?r (hold_one m a)" unfolding e by simp
  have "roots (hold_one m a) = insert a (roots ?r)" unfolding e roots_def pending_roots by auto
  then have "reachable ?r \<subseteq> reachable (hold_one m a)"
    by (intro reachable_mono) (auto simp: same_heap_refs [OF s] intro: reachable.intros)
  moreover have "\<not> settled ?r"
    using True white_exists recolored_exists [OF recolored_reach, of m "Some a" a]
      recolored_body [OF recolored_reach, of m "Some a" a]
    by (auto simp: settled_def simp del: not_None_eq)
  moreover have "m_objects (hold_one m a) = m_objects ?r" by (simp add: e)
  ultimately have "keeps ?r (hold_one m a)"
    by (simp add: keeps_def same_heap_refs [OF s])
  then show ?thesis by (rule keeps_trans [OF keeps_recolored [OF recolored_reach]])
next
  case False
  then show ?thesis by (auto simp: hold_one_def)
qed

lemma keeps_hold_all: "keeps m (hold_pending_disposals m)"
proof -
  have "keeps m (foldl hold_one m as)" for as
    by (induction as arbitrary: m) (auto intro: keeps_trans [OF keeps_hold_one])
  then show ?thesis by (simp add: hold_pending_disposals_def)
qed

lemma recolored_mark_roots: "recolored m (mark_roots m)"
  unfolding mark_roots_def by (rule recolored_reach_all)

lemma keeps_forget: "keeps m (forget_dead m)"
proof -
  have "reachable (forget_dead m) = reachable m"
    by (rule reachable_cong) (simp_all add: roots_def forget_reads)
  then show ?thesis by (simp add: keeps_def forget_reads)
qed

lemma keeps_atomic_marked: "keeps m (atomic_marked m)"
  unfolding atomic_marked_def
  by (rule keeps_trans [OF keeps_trans [OF keeps_trans [OF keeps_recolored [OF recolored_mark_roots]
        keeps_recolored [OF recolored_follow]] keeps_hold_all] keeps_recolored [OF recolored_follow]])

lemma keeps_atomic: "keeps m (atomic m)"
  unfolding atomic_split by (rule keeps_trans [OF keeps_atomic_marked keeps_forget])

lemma freed_reachable:
  assumes "about_to_free m a"
  shows "reachable (sweep_free m a) = reachable m"
proof (rule reachable_cong)
  show "roots (sweep_free m a) = roots m" by (simp add: roots_def free_frames(2) [OF assms])
  fix x assume "x \<in> reachable m"
  then have l: "live m x" using reachable_live free_facts(2) [OF assms] by blast
  show "refs (sweep_free m a) x = refs m x" by (rule free_refs(2) [OF assms free_live_neq [OF assms l] l])
qed

lemma keeps_freed:
  assumes "about_to_free m a"
  shows "keeps m (sweep_free m a)"
proof -
  note r = sweep_free_reads [OF free_there(1) [OF assms]]
  have "x \<in> set (m_objects (sweep_free m a))"
    if "x \<in> set (m_objects m)" "deref (sweep_free m a) x \<noteq> None" for x
  proof -
    have s: "m_sweep m < length (m_objects m)" "a = m_objects m ! m_sweep m"
      using assms by (auto simp: about_to_free_def)
    have "x \<noteq> a" using that(2) r(1) by blast
    moreover have "set (m_objects m) =
        insert a (set (take (m_sweep m) (m_objects m) @ drop (Suc (m_sweep m)) (m_objects m)))"
      by (subst id_take_nth_drop [OF s(1)]) (auto simp: s(2))
    ultimately show ?thesis using that(1) by (auto simp: r(4))
  qed
  then show ?thesis
    unfolding keeps_def freed_reachable [OF assms] using r(1,2) by blast
qed

lemma keeps_sweep_one:
  assumes "gc_ok m" "m_gcstate m = LHAT_GC_SWEEP" "\<not> sweep_done m"
  shows "keeps m (sweep_one m)"
proof (cases "has_color m (m_objects m ! m_sweep m) (lhat_gc_other_white (m_white m))")
  case True
  then have "about_to_free m (m_objects m ! m_sweep m)"
    using assms by (simp add: about_to_free_def sweep_done_def)
  then show ?thesis using True keeps_freed by (simp add: sweep_one_def Let_def)
next
  case False
  let ?c = "set_color m (m_objects m ! m_sweep m) (m_white m)"
  have s: "same_heap ?c (?c\<lparr>m_sweep := m_sweep m + 1\<rparr>)" by (simp add: same_heap_def)
  have "keeps ?c (?c\<lparr>m_sweep := m_sweep m + 1\<rparr>)"
    by (rule keeps_same_heap [OF s same_heap_roots [OF s]]) simp
  then have "keeps m (?c\<lparr>m_sweep := m_sweep m + 1\<rparr>)"
    by (rule keeps_trans [OF keeps_recolored [OF recolored_set_color]])
  with False show ?thesis by (simp add: sweep_one_def Let_def)
qed

lemma keeps_sweep_loop:
  "gc_ok m \<Longrightarrow> m_gcstate m = LHAT_GC_SWEEP \<Longrightarrow> keeps m (fst (sweep_loop m budget looked))"
proof (induction m budget looked rule: sweep_loop.induct)
  case (1 m budget looked)
  show ?case
  proof (cases "looked < budget \<and> \<not> sweep_done m")
    case True
    then have "keeps (sweep_one m) (fst (sweep_loop (sweep_one m) budget (looked + 1)))"
      using 1 by (simp add: sweep_one_ok)
    moreover have "keeps m (sweep_one m)" using 1 True by (simp add: keeps_sweep_one)
    ultimately show ?thesis using True by (subst sweep_loop.simps) (simp add: keeps_trans)
  next
    case False
    then show ?thesis by (subst sweep_loop.simps) auto
  qed
qed

lemma keeps_end_sweep: "keeps m (end_sweep m)"
proof -
  have s: "same_heap m (end_sweep m)" by (simp add: same_heap_def end_sweep_def)
  show ?thesis by (rule keeps_same_heap [OF s same_heap_roots [OF s]]) (simp add: end_sweep_def)
qed

lemma keeps_start_cycle: "keeps m (start_cycle m)"
proof -
  let ?r = "mark_roots m"
  have s: "same_heap ?r (start_cycle m)" by (simp add: same_heap_def start_cycle_def)
  have "keeps ?r (start_cycle m)"
    by (rule keeps_same_heap [OF s same_heap_roots [OF s]]) (simp add: start_cycle_def)
  then show ?thesis by (rule keeps_trans [OF keeps_recolored [OF recolored_mark_roots]])
qed

lemma keeps_single_step:
  assumes "gc_ok m"
  shows "keeps m (fst (single_step m budget))"
proof (cases "m_gcstate m")
  case LHAT_GC_SWEEP
  note l = keeps_sweep_loop [OF assms LHAT_GC_SWEEP, of budget 0]
  show ?thesis
    using l keeps_trans [OF l keeps_end_sweep] LHAT_GC_SWEEP
    by (simp add: single_step_def sweep_some_is Let_def)
qed (simp_all add: single_step_def keeps_start_cycle keeps_atomic keeps_recolored [OF recolored_propagate])

lemma keeps_run: "gc_ok m \<Longrightarrow> keeps m (run_to_pause m)"
proof (induction m rule: run_to_pause.induct)
  case (1 m)
  show ?case
  proof (cases "m_gcstate m = LHAT_GC_PAUSE")
    case True
    then show ?thesis by (subst run_to_pause.simps) simp
  next
    case False
    let ?s = "fst (single_step m SIZE_MAX)"
    have "keeps ?s (run_to_pause ?s)" using 1 False by (simp add: single_step_ok)
    then have "keeps m (run_to_pause ?s)" by (rule keeps_trans [OF keeps_single_step [OF 1(2)]])
    with False show ?thesis by (subst run_to_pause.simps) simp
  qed
qed

lemma keeps_rearm: "keeps m (lhat_gc_rearm m)"
proof -
  have "keeps m (m\<lparr>m_threshold := t\<rparr>)" for t
  proof -
    have s: "same_heap m (m\<lparr>m_threshold := t\<rparr>)" by (simp add: same_heap_def)
    show ?thesis by (rule keeps_same_heap [OF s same_heap_roots [OF s]]) simp
  qed
  then show ?thesis by (simp add: lhat_gc_rearm_def)
qed

lemma keeps_collect:
  assumes "gc_ok m"
  shows "keeps m (lhat_gc_collect m)"
proof -
  let ?p = "run_to_pause m"
  have p: "gc_ok ?p" "m_gcstate ?p = LHAT_GC_PAUSE" using run_to_pause_ok [OF assms] by blast+
  have "keeps m ?p" by (rule keeps_run [OF assms])
  also have "keeps ?p (start_cycle ?p)" by (rule keeps_start_cycle)
  also have "keeps (start_cycle ?p) (run_to_pause (start_cycle ?p))"
    by (rule keeps_run [OF start_cycle_ok [OF p]])
  also have "keeps (run_to_pause (start_cycle ?p)) (lhat_gc_collect m)"
    unfolding lhat_gc_collect_def by (rule keeps_rearm)
  finally show ?thesis .
qed

subsection \<open>What survives a cycle can be reached\<close>

text \<open>\<open>G\<close> is what was on the machine's list when the cycle began.\<close>

definition tracked :: "addr set \<Rightarrow> Machine \<Rightarrow> bool" where
  "tracked G m \<longleftrightarrow>
     (if m_gcstate m = LHAT_GC_PROPAGATE
      then only_reachable G m \<and> set (m_objects m) = G
      else \<forall>a \<in> G. live m a \<longrightarrow> a \<in> reachable m)"

lemma gray_in_objects:
  assumes "marking_ok m"
  shows "set (m_gray m) \<subseteq> set (m_objects m)"
proof
  fix a assume "a \<in> set (m_gray m)"
  then have g: "has_color m a LHAT_GC_GRAY" using assms by (simp add: marking_ok_def gray_ok_def)
  then have "\<not> has_color m a LHAT_GC_BLACK"
    using color_unique [OF g, of LHAT_GC_BLACK] by (auto simp: gc_colors)
  then show "a \<in> set (m_objects m)"
    using object_color [of m a] color_exists [OF g] assms by (auto simp: marking_ok_def)
qed

lemma only_reachable_follow:
  "marking_ok m \<Longrightarrow> only_reachable (set (m_objects m)) m \<Longrightarrow>
   only_reachable (set (m_objects m)) (follow_gray m)"
proof (induction m rule: follow_gray.induct)
  case (1 m)
  show ?case
  proof (cases "m_gray m = []")
    case True
    with 1(3) show ?thesis by (subst follow_gray.simps) simp
  next
    case False
    have o: "m_objects (propagate_one m) = m_objects m" by (rule recolored_fields(1) [OF recolored_propagate])
    have "only_reachable (set (m_objects m)) (propagate_one m)"
      using 1(2,3) False gray_in_objects [OF 1(2)]
      by (intro only_reachable_propagate) (auto simp: marking_ok_def)
    then have "only_reachable (set (m_objects m)) (follow_gray (propagate_one m))"
      using 1(1) [OF False marking_propagate [OF 1(2) False]] by (simp add: o)
    with False show ?thesis by (subst follow_gray.simps) simp
  qed
qed

lemma hold_one_marking: "marking_ok m \<Longrightarrow> marking_ok (hold_one m a)"
  using marking_pending [of "reach m (Some a)" a] marking_reach_all [of m "[Some a]"]
    recolored_exists [OF recolored_reach, of m "Some a" a] white_exists [of m a]
    recolored_fields(9) [OF recolored_reach, of m "Some a"]
  by (auto simp: hold_one_def reach_all_def simp del: not_None_eq)

lemma only_reachable_hold_one:
  assumes "only_reachable G m"
  shows "only_reachable G (hold_one m a)"
proof (cases "white_at m a \<and> owes_cleanups (body_of m a)")
  case True
  let ?r = "reach m (Some a)"
  have e: "hold_one m a = machine_set_pending_dispose ?r (a # m_pending_dispose ?r)"
    using True recolored_fields(9) [OF recolored_reach, of m "Some a"] by (simp add: hold_one_def)
  have s: "same_heap ?r (hold_one m a)" unfolding e by simp
  have "a \<in> roots (hold_one m a)" unfolding e roots_def pending_roots by simp
  then have a: "a \<in> reachable (hold_one m a)" by (rule reachable_root)
  have sub: "reachable m \<subseteq> reachable (hold_one m a)" by (rule keepsD(1) [OF keeps_hold_one])
  show ?thesis
    unfolding only_reachable_def same_heap_refs [OF s] reach_color
    using assms a sub recolored_exists [OF recolored_reach, of m "Some a"]
    by (auto simp: only_reachable_def simp del: not_None_eq)
next
  case False
  then show ?thesis using assms by (auto simp: hold_one_def)
qed

lemma hold_objects: "m_objects (hold_pending_disposals m) = m_objects m"
proof -
  have "m_objects (hold_one m a) = m_objects m" for m a
    using recolored_fields(1) [OF recolored_reach, of m "Some a"] by (simp add: hold_one_def)
  then have "m_objects (foldl hold_one m as) = m_objects m" for as
    by (induction as arbitrary: m) auto
  then show ?thesis by (simp add: hold_pending_disposals_def)
qed

lemma only_reachable_hold_all: "only_reachable G m \<Longrightarrow> only_reachable G (hold_pending_disposals m)"
proof -
  have "only_reachable G m \<Longrightarrow> only_reachable G (foldl hold_one m as)" for as
    by (induction as arbitrary: m) (auto intro: only_reachable_hold_one)
  then show "only_reachable G m \<Longrightarrow> only_reachable G (hold_pending_disposals m)"
    by (simp add: hold_pending_disposals_def)
qed

lemma only_reachable_atomic:
  assumes "marking_ok m" "only_reachable (set (m_objects m)) m"
  shows "only_reachable (set (m_objects m)) (atomic_marked m)"
proof -
  let ?a = "mark_roots m"
  let ?b = "follow_gray ?a"
  let ?c = "hold_pending_disposals ?b"
  have oa: "m_objects ?a = m_objects m" by (rule recolored_fields(1) [OF recolored_mark_roots])
  have ob: "m_objects ?b = m_objects m" by (simp add: recolored_fields(1) [OF recolored_follow] oa)
  have oc: "m_objects ?c = m_objects m" by (simp add: hold_objects ob)
  have b: "holding ?b" by (rule holding_follow(1) [OF holding_mark_roots [OF assms(1)]])
  then have c: "marking_ok ?c" using holding_all [of ?b] by (simp add: holding_def)
  have "only_reachable (set (m_objects m)) ?a" by (rule only_reachable_mark_roots [OF assms(2)])
  then have "only_reachable (set (m_objects m)) ?b"
    using only_reachable_follow [OF marking_mark_roots [OF assms(1)]] by (simp add: oa)
  then have "only_reachable (set (m_objects m)) ?c" by (rule only_reachable_hold_all)
  then show ?thesis unfolding atomic_marked_def using only_reachable_follow [OF c] by (simp add: oc)
qed

lemma tracked_start:
  assumes "gc_ok m" "m_gcstate m = LHAT_GC_PAUSE"
  shows "tracked (set (m_objects m)) (start_cycle m)"
proof -
  have "only_reachable (set (m_objects m)) m"
    using assms white_color by (auto simp: only_reachable_def gc_ok_def phase_ok_def heap_wf_def)
  then have r: "only_reachable (set (m_objects m)) (mark_roots m)" by (rule only_reachable_mark_roots)
  have s: "same_heap (mark_roots m) (start_cycle m)" by (simp add: same_heap_def start_cycle_def)
  have rr: "root_refs (start_cycle m) = root_refs (mark_roots m)"
    by (rule same_heap_roots [OF s]) (simp add: start_cycle_def)
  have "reachable (start_cycle m) = reachable (mark_roots m)"
    by (rule reachable_cong) (simp_all add: roots_def rr same_heap_refs [OF s])
  then have "only_reachable (set (m_objects m)) (start_cycle m)"
    using r by (simp add: only_reachable_def same_heap_refs [OF s])
  then show ?thesis
    by (simp add: tracked_def start_cycle_def recolored_fields(1) [OF recolored_mark_roots])
qed

lemma tracked_propagate:
  assumes "tracked G m" "gc_ok m" "m_gcstate m = LHAT_GC_PROPAGATE" "m_gray m \<noteq> []"
  shows "tracked G (propagate_one m)"
proof -
  have m: "marking_ok m" using assms(2,3) by (simp add: gc_ok_def phase_ok_def marking_ok_def)
  have t: "only_reachable G m" "set (m_objects m) = G" using assms(1,3) by (simp_all add: tracked_def)
  have "only_reachable G (propagate_one m)"
    using m gray_in_objects [OF m] t assms(4)
    by (intro only_reachable_propagate) (auto simp: marking_ok_def)
  then show ?thesis
    using t(2) assms(3) recolored_fields(1,4) [OF recolored_propagate, of m] by (simp add: tracked_def)
qed

lemma tracked_atomic:
  assumes "tracked G m" "gc_ok m" "m_gcstate m = LHAT_GC_PROPAGATE"
  shows "tracked G (atomic m)"
proof -
  let ?n = "atomic_marked m"
  have m: "marking_ok m" using assms(2,3) by (simp add: gc_ok_def phase_ok_def marking_ok_def)
  have t: "only_reachable G m" "set (m_objects m) = G" using assms(1,3) by (simp_all add: tracked_def)
  have o: "only_reachable G ?n" using only_reachable_atomic [OF m] t by simp
  have h: "marking_ok ?n" "m_gray ?n = []" using atomic_marked_ok [OF m] by (simp_all add: holding_def)
  have "a \<in> reachable (atomic m)" if "a \<in> G" "live (atomic m) a" for a
  proof -
    have "a \<in> reachable ?n"
      using o that forget_live [OF h] by (simp add: only_reachable_def atomic_split del: not_None_eq)
    then show ?thesis unfolding atomic_split using keepsD(1) [OF keeps_forget, of ?n] by blast
  qed
  then show ?thesis by (simp add: tracked_def atomic_split)
qed

lemma tracked_keeps:
  assumes "tracked G m" "keeps m m'" "m_gcstate m \<noteq> LHAT_GC_PROPAGATE" "m_gcstate m' \<noteq> LHAT_GC_PROPAGATE"
    "\<And>a. live m' a \<Longrightarrow> a \<in> G \<Longrightarrow> live m a"
  shows "tracked G m'"
  using assms keepsD(1) [OF assms(2)] by (auto simp: tracked_def)

lemma tracked_sweep_one:
  assumes "tracked G m" "gc_ok m" "m_gcstate m = LHAT_GC_SWEEP" "\<not> sweep_done m"
  shows "tracked G (sweep_one m)"
proof (rule tracked_keeps [OF assms(1) keeps_sweep_one [OF assms(2-4)]])
  fix a assume l: "live (sweep_one m) a"
  show "live m a"
  proof (cases "has_color m (m_objects m ! m_sweep m) (lhat_gc_other_white (m_white m))")
    case True
    then have f: "about_to_free m (m_objects m ! m_sweep m)"
      using assms by (simp add: about_to_free_def sweep_done_def)
    then show ?thesis using l True free_live [OF f] by (simp add: sweep_one_def Let_def)
  next
    case False
    let ?b = "m_objects m ! m_sweep m"
    have "?b \<in> set (m_objects m)" using assms(4) by (simp add: sweep_done_def)
    then have "deref m ?b \<noteq> None" using assms(2) by (simp add: gc_ok_def heap_wf_def)
    then have b: "live m ?b" using False by (auto simp: live_def has_color_def split: option.splits)
    show ?thesis
    proof (cases "a = ?b")
      case True
      with b show ?thesis by simp
    next
      case ne: False
      then show ?thesis
        using l False by (simp add: sweep_one_def Let_def live_has_color has_color_set_color)
    qed
  qed
qed (use assms(3) in simp_all)

lemma tracked_sweep_loop:
  "tracked G m \<Longrightarrow> gc_ok m \<Longrightarrow> m_gcstate m = LHAT_GC_SWEEP \<Longrightarrow>
   tracked G (fst (sweep_loop m budget looked))"
proof (induction m budget looked rule: sweep_loop.induct)
  case (1 m budget looked)
  show ?case
  proof (cases "looked < budget \<and> \<not> sweep_done m")
    case True
    then have "tracked G (fst (sweep_loop (sweep_one m) budget (looked + 1)))"
      using 1 by (simp add: sweep_one_ok tracked_sweep_one)
    then show ?thesis using True by (subst sweep_loop.simps) simp
  next
    case False
    then show ?thesis using 1(2) by (subst sweep_loop.simps) auto
  qed
qed

lemma tracked_single_step:
  assumes "tracked G m" "gc_ok m" "m_gcstate m \<noteq> LHAT_GC_PAUSE"
  shows "tracked G (fst (single_step m budget))"
proof (cases "m_gcstate m")
  case LHAT_GC_PROPAGATE
  then show ?thesis
    using assms by (simp add: single_step_def tracked_propagate tracked_atomic)
next
  case LHAT_GC_SWEEP
  let ?l = "fst (sweep_loop m budget 0)"
  have l: "tracked G ?l" by (rule tracked_sweep_loop [OF assms(1,2) LHAT_GC_SWEEP])
  have s: "m_gcstate ?l = LHAT_GC_SWEEP" using LHAT_GC_SWEEP by simp
  have "same_heap ?l (end_sweep ?l)" by (simp add: same_heap_def end_sweep_def)
  then have "tracked G (end_sweep ?l)"
    using s by (intro tracked_keeps [OF l keeps_end_sweep]) (simp_all add: same_heap_live, simp add: end_sweep_def)
  then show ?thesis using l LHAT_GC_SWEEP by (simp add: single_step_def sweep_some_is Let_def)
qed (use assms(3) in simp)

lemma tracked_run: "tracked G m \<Longrightarrow> gc_ok m \<Longrightarrow> tracked G (run_to_pause m)"
proof (induction m rule: run_to_pause.induct)
  case (1 m)
  show ?case
  proof (cases "m_gcstate m = LHAT_GC_PAUSE")
    case True
    with 1(2) show ?thesis by (subst run_to_pause.simps) simp
  next
    case False
    then have "tracked G (run_to_pause (fst (single_step m SIZE_MAX)))"
      using 1 by (simp add: single_step_ok tracked_single_step)
    with False show ?thesis by (subst run_to_pause.simps) simp
  qed
qed

lemma paused_live:
  assumes "gc_ok m" "m_gcstate m = LHAT_GC_PAUSE" "deref m a \<noteq> None"
  shows "live m a"
proof -
  have k: "heap_wf m" "marking_colors m" using paused_marking [OF assms(1,2)] by (simp_all add: marking_ok_def)
  show ?thesis using marking_none_dead [OF k] assms(3) by (simp add: none_dead_def)
qed

lemma rearm_fields [simp]: "m_gcstate (lhat_gc_rearm m) = m_gcstate m" "deref (lhat_gc_rearm m) = deref m"
  by (auto simp: lhat_gc_rearm_def deref_def intro!: ext)

lemma collect_survivors:
  assumes "gc_ok m" "a \<in> set (m_objects m)" "deref (lhat_gc_collect m) a \<noteq> None"
  shows "a \<in> reachable (lhat_gc_collect m)"
proof -
  let ?p = "run_to_pause m"
  let ?q = "run_to_pause (start_cycle ?p)"
  have p: "gc_ok ?p" "m_gcstate ?p = LHAT_GC_PAUSE" using run_to_pause_ok [OF assms(1)] by blast+
  have c: "gc_ok (start_cycle ?p)" by (rule start_cycle_ok [OF p])
  have q: "gc_ok ?q" "m_gcstate ?q = LHAT_GC_PAUSE" using run_to_pause_ok [OF c] by blast+
  have k: "keeps ?p ?q" by (rule keeps_trans [OF keeps_start_cycle keeps_run [OF c]])
  have d: "deref ?q a \<noteq> None" using assms(3) by (simp add: lhat_gc_collect_def)
  then have "deref ?p a \<noteq> None" by (rule keepsD(3) [OF k])
  then have "a \<in> set (m_objects ?p)" by (rule keepsD(5) [OF keeps_run [OF assms(1)] assms(2)])
  moreover have "tracked (set (m_objects ?p)) ?q" by (rule tracked_run [OF tracked_start [OF p] c])
  moreover have "live ?q a" by (rule paused_live [OF q d])
  ultimately have "a \<in> reachable ?q" using q(2) by (simp add: tracked_def)
  then show ?thesis
    unfolding lhat_gc_collect_def using keepsD(1) [OF keeps_rearm, of ?q] by blast
qed

lemma collect_pause: "gc_ok m \<Longrightarrow> m_gcstate (lhat_gc_collect m) = LHAT_GC_PAUSE"
  using run_to_pause_ok start_cycle_ok by (simp add: lhat_gc_collect_def)

end
