(* ===== verification/Lhat_Barrier.thy ===== *)
theory Lhat_Barrier
  imports Lhat_GcExact
begin

text \<open>
  What a write to an object owes the collector.  The contract of a barrier is a locale, which the
  two barriers of \<open>src/gc.c\<close> meet; the one lemma about writes is proved from the contract.
\<close>

subsection \<open>A written body\<close>

lemma set_body_reads:
  assumes "deref m a \<noteq> None"
  shows "deref (set_body m a b) x \<noteq> None \<longleftrightarrow> deref m x \<noteq> None"
    "body_of (set_body m a b) x = (if x = a then b else body_of m x)"
    "has_color (set_body m a b) x c = has_color m x c"
    "white_at (set_body m a b) x = white_at m x"
    "live (set_body m a b) x = live m x"
proof -
  obtain ob where ob: "deref m a = Some ob" using assms by blast
  then have "a < length (m_memory m)" by (simp add: deref_some)
  then have d: "deref (set_body m a b) x = (if x = a then Some (ob\<lparr>ob_body := b\<rparr>) else deref m x)" for x
    by (simp add: set_body_def deref_put ob)
  have w: "m_white (set_body m a b) = m_white m" by (simp add: set_body_def put_def)
  show "deref (set_body m a b) x \<noteq> None \<longleftrightarrow> deref m x \<noteq> None" by (simp add: d ob)
  show "body_of (set_body m a b) x = (if x = a then b else body_of m x)" by (simp add: body_of_def d)
  show "has_color (set_body m a b) x c = has_color m x c"
    "white_at (set_body m a b) x = white_at m x" "live (set_body m a b) x = live m x"
    by (auto simp: has_color_def white_at_def live_def d ob w)
qed

lemma set_body_fields [simp]:
  "m_objects (set_body m a b) = m_objects m" "m_white (set_body m a b) = m_white m"
  "m_gray (set_body m a b) = m_gray m" "m_gcstate (set_body m a b) = m_gcstate m"
  "m_sweep (set_body m a b) = m_sweep m" "m_slots (set_body m a b) = m_slots m"
  "m_frames (set_body m a b) = m_frames m" "m_open (set_body m a b) = m_open m"
  "m_weak (set_body m a b) = m_weak m" "m_unbound_natives (set_body m a b) = m_unbound_natives m"
  "m_member_caches (set_body m a b) = m_member_caches m"
  by (simp_all add: set_body_def put_def)

text \<open>A body whose kind decides nothing but what it refers to.\<close>

definition plain_body :: "LhatBody \<Rightarrow> bool" where
  "plain_body b = (case b of OBJECT_SUBROUTINE _ _ _ \<Rightarrow> False | OBJECT_SCRIPT _ \<Rightarrow> False | _ \<Rightarrow> True)"

definition body_refs :: "Machine \<Rightarrow> LhatBody \<Rightarrow> addr set" where
  "body_refs m b = {c. Some c \<in> set (object_refs m b)}"

definition body_own :: "Machine \<Rightarrow> LhatBody \<Rightarrow> addr set" where
  "body_own m b = {c. Some c \<in> set (own_refs m b)}"

definition upvalue_fits :: "Machine \<Rightarrow> LhatBody \<Rightarrow> bool" where
  "upvalue_fits m b =
     (case b of OBJECT_UPVALUE place cell suspended_in \<Rightarrow>
        (case place of PLACE_SLOT i \<Rightarrow> slot_rooted m i
         | PLACE_SAVED co i \<Rightarrow> suspended_in = Some co | _ \<Rightarrow> True)
      | _ \<Rightarrow> True)"

text \<open>The invariant at a black object that was just written: the only white objects that a black
  one refers to are \<open>W\<close>, from \<open>a\<close>.\<close>

definition tricolor_but :: "addr \<Rightarrow> addr set \<Rightarrow> Machine \<Rightarrow> bool" where
  "tricolor_but a W m \<longleftrightarrow>
     (\<forall>x c. has_color m x LHAT_GC_BLACK \<longrightarrow> c \<in> body_own m (body_of m x) \<longrightarrow> white_at m c \<longrightarrow>
        x = a \<and> c \<in> W)"

lemma tricolor_but_none: "tricolor m \<longleftrightarrow> tricolor_but a {} m"
  by (auto simp: tricolor_def tricolor_but_def body_own_def)

lemma tricolor_but_mono: "tricolor_but a W m \<Longrightarrow> W \<subseteq> V \<Longrightarrow> tricolor_but a V m"
  by (auto simp: tricolor_but_def)

lemma tricolor_but_recolored:
  assumes "recolored m m'" "tricolor_but a W m"
    "\<And>x. has_color m' x LHAT_GC_BLACK \<Longrightarrow> has_color m x LHAT_GC_BLACK"
    "\<And>x. white_at m' x \<Longrightarrow> white_at m x"
  shows "tricolor_but a W m'"
  using assms(2-4) by (auto simp: tricolor_but_def body_own_def recolored_own [OF assms(1)]
      recolored_body [OF assms(1)])

subsection \<open>The contract\<close>

locale write_barrier =
  fixes barrier :: "Machine \<Rightarrow> addr \<Rightarrow> LhatValue \<Rightarrow> Machine"
  assumes idle: "m_gcstate m \<noteq> LHAT_GC_PROPAGATE \<Longrightarrow> barrier m a v = m"
    and recolors: "recolored m (barrier m a v)"
    and grays: "gray_ok m \<Longrightarrow> gray_ok (barrier m a v)"
    and colors: "marking_colors m \<Longrightarrow> marking_colors (barrier m a v)"
    and blacks: "has_color m x LHAT_GC_BLACK \<Longrightarrow> x \<noteq> a \<Longrightarrow> has_color (barrier m a v) x LHAT_GC_BLACK"
    and covers: "m_gcstate m = LHAT_GC_PROPAGATE \<Longrightarrow> tricolor_but a W m \<Longrightarrow>
      tricolor_but a (W - {c. value_ref v = Some c}) (barrier m a v)"
begin

definition barriers :: "Machine \<Rightarrow> addr \<Rightarrow> LhatValue list \<Rightarrow> Machine" where
  "barriers m a vs = foldl (\<lambda>m v. barrier m a v) m vs"

lemma barriers_idle: "m_gcstate m \<noteq> LHAT_GC_PROPAGATE \<Longrightarrow> barriers m a vs = m"
  by (induction vs) (simp_all add: barriers_def idle)

lemma barriers_recolor: "recolored m (barriers m a vs)"
  unfolding barriers_def by (induction vs arbitrary: m) (auto intro: recolored_trans [OF recolors])

lemma barriers_colors:
  "gray_ok m \<Longrightarrow> gray_ok (barriers m a vs)"
  "marking_colors m \<Longrightarrow> marking_colors (barriers m a vs)"
  "has_color m x LHAT_GC_BLACK \<Longrightarrow> x \<noteq> a \<Longrightarrow> has_color (barriers m a vs) x LHAT_GC_BLACK"
  unfolding barriers_def by (induction vs arbitrary: m) (auto intro: grays colors blacks)

lemma barriers_cover:
  "m_gcstate m = LHAT_GC_PROPAGATE \<Longrightarrow> tricolor_but a W m \<Longrightarrow>
   tricolor_but a (W - {c. \<exists>v \<in> set vs. value_ref v = Some c}) (barriers m a vs)"
proof (induction vs arbitrary: m W)
  case (Cons v vs)
  have s: "m_gcstate (barrier m a v) = LHAT_GC_PROPAGATE"
    using Cons.prems(1) recolored_fields(4) [OF recolors] by simp
  have "tricolor_but a (W - {c. value_ref v = Some c} - {c. \<exists>v \<in> set vs. value_ref v = Some c})
      (barriers (barrier m a v) a vs)"
    by (rule Cons.IH [OF s covers [OF Cons.prems]])
  moreover have "barriers m a (v # vs) = barriers (barrier m a v) a vs" by (simp add: barriers_def)
  ultimately show ?case by (auto elim!: tricolor_but_mono)
qed (simp add: barriers_def)

text \<open>A machine that marks, but for the white objects that were just written into \<open>a\<close>.\<close>

lemma barriers_ok:
  assumes "m_gcstate m = LHAT_GC_PROPAGATE" "heap_wf m" "heap_closed m" "gray_ok m"
    "marking_colors m" "tricolor_but a W m" "a \<in> set (m_objects m)"
    "W \<subseteq> {c. \<exists>v \<in> set vs. value_ref v = Some c}"
  shows "gc_ok (barriers m a vs)"
proof -
  let ?b = "barriers m a vs"
  note r = barriers_recolor [of m a vs]
  have "tricolor_but a (W - {c. \<exists>v \<in> set vs. value_ref v = Some c}) ?b"
    by (rule barriers_cover [OF assms(1,6)])
  moreover have "W - {c. \<exists>v \<in> set vs. value_ref v = Some c} = {}" using assms(8) by blast
  ultimately have t: "tricolor ?b" by (simp add: tricolor_but_none [of _ a])
  have wf: "heap_wf ?b"
  proof (rule recolored_wf [OF r assms(2)])
    fix x assume x: "chunk_object m x"
    then have "has_color m x LHAT_GC_BLACK" using assms(2) by (simp add: heap_wf_def chunks_ok_def)
    moreover have "x \<noteq> a" using x assms(7) by (auto simp: chunk_object_def)
    ultimately show "has_color ?b x LHAT_GC_BLACK" by (rule barriers_colors(3))
  qed
  note c = barriers_colors(2) [OF assms(5), of a vs]
  have "heap_closed ?b"
    by (rule closed_none_dead [OF marking_none_dead [OF assms(2,5)] marking_none_dead [OF wf c] r assms(3)])
  then show ?thesis
    using wf t c barriers_colors(1) [OF assms(4)] recolored_fields(4) [OF r] assms(1)
    by (simp add: gc_ok_def phase_ok_def)
qed

end

subsection \<open>The two barriers meet it\<close>

lemma tricolor_but_reach:
  assumes "tricolor_but a W m"
  shows "tricolor_but a (W - {c. p = Some c}) (reach m p)"
  using assms unfolding tricolor_but_def body_own_def reach_color
    recolored_own [OF recolored_reach] recolored_body [OF recolored_reach] by blast

interpretation forward: write_barrier lhat_gc_barrier
proof
  fix m a v x W
  show "m_gcstate m \<noteq> LHAT_GC_PROPAGATE \<Longrightarrow> lhat_gc_barrier m a v = m"
    "recolored m (lhat_gc_barrier m a v)"
    "gray_ok m \<Longrightarrow> gray_ok (lhat_gc_barrier m a v)"
    "marking_colors m \<Longrightarrow> marking_colors (lhat_gc_barrier m a v)"
    "has_color m x LHAT_GC_BLACK \<Longrightarrow> x \<noteq> a \<Longrightarrow> has_color (lhat_gc_barrier m a v) x LHAT_GC_BLACK"
    by (simp_all add: lhat_gc_barrier_def lhat_gc_reach_def recolored_reach gray_ok_reach
        marking_colors_reach reach_color)
  assume p: "m_gcstate m = LHAT_GC_PROPAGATE" and t: "tricolor_but a W m"
  show "tricolor_but a (W - {c. value_ref v = Some c}) (lhat_gc_barrier m a v)"
  proof (cases "has_color m a LHAT_GC_BLACK")
    case True
    then show ?thesis using p tricolor_but_reach [OF t] by (simp add: lhat_gc_barrier_def lhat_gc_reach_def)
  next
    case False
    then show ?thesis using t by (auto simp: lhat_gc_barrier_def tricolor_but_def)
  qed
qed

lemma value_white_ref: "value_white m v \<longleftrightarrow> (\<exists>c. value_ref v = Some c \<and> white_at m c)"
  by (auto simp: value_white_def value_ref_def split: LhatValue.splits option.splits)

lemma regray:
  assumes "has_color m a LHAT_GC_BLACK"
  defines "m' \<equiv> (set_color m a LHAT_GC_GRAY)\<lparr>m_gray := a # m_gray m\<rparr>"
  shows "recolored m m'" "gray_ok m \<Longrightarrow> gray_ok m'" "marking_colors m \<Longrightarrow> marking_colors m'"
    "has_color m' x c \<longleftrightarrow> (if x = a then c = LHAT_GC_GRAY else has_color m x c)"
    "white_at m' x = white_at m x"
proof -
  show r: "recolored m m'"
    unfolding m'_def by (rule recolored_trans [OF recolored_set_color recolored_gray])
  have e: "deref m a \<noteq> None" by (rule color_exists [OF assms(1)])
  show h: "has_color m' x c \<longleftrightarrow> (if x = a then c = LHAT_GC_GRAY else has_color m x c)" for x c
    using e by (auto simp: m'_def has_color_set_color)
  have n: "\<not> has_color m a LHAT_GC_GRAY"
    using color_unique [OF assms(1), of LHAT_GC_GRAY] by (auto simp: gc_colors)
  show "gray_ok m \<Longrightarrow> gray_ok m'"
    using n unfolding gray_ok_def h by (auto simp: m'_def)
  show "marking_colors m \<Longrightarrow> marking_colors m'"
    using recolored_fields(1,3) [OF r] by (auto simp: marking_colors_def h)
  show "white_at m' x = white_at m x"
    using white_color [OF assms(1)] e by (auto simp: m'_def white_set_color)
qed

interpretation backward: write_barrier lhat_gc_barrier_back
proof
  fix m a v x W
  show "m_gcstate m \<noteq> LHAT_GC_PROPAGATE \<Longrightarrow> lhat_gc_barrier_back m a v = m"
    by (simp add: lhat_gc_barrier_back_def)
  show "recolored m (lhat_gc_barrier_back m a v)"
    "gray_ok m \<Longrightarrow> gray_ok (lhat_gc_barrier_back m a v)"
    "marking_colors m \<Longrightarrow> marking_colors (lhat_gc_barrier_back m a v)"
    "has_color m x LHAT_GC_BLACK \<Longrightarrow> x \<noteq> a \<Longrightarrow> has_color (lhat_gc_barrier_back m a v) x LHAT_GC_BLACK"
    using regray [of m a] by (auto simp: lhat_gc_barrier_back_def)
  assume p: "m_gcstate m = LHAT_GC_PROPAGATE" and t: "tricolor_but a W m"
  show "tricolor_but a (W - {c. value_ref v = Some c}) (lhat_gc_barrier_back m a v)"
  proof (cases "has_color m a LHAT_GC_BLACK \<and> value_white m v")
    case True
    then have b: "has_color m a LHAT_GC_BLACK" by simp
    let ?m = "(set_color m a LHAT_GC_GRAY)\<lparr>m_gray := a # m_gray m\<rparr>"
    have e: "lhat_gc_barrier_back m a v = ?m" using True p by (simp add: lhat_gc_barrier_back_def)
    note r = regray [OF b]
    have g: "LHAT_GC_BLACK \<noteq> LHAT_GC_GRAY" by (simp add: gc_colors)
    show ?thesis
      unfolding e tricolor_but_def
    proof (intro allI impI)
      fix x c assume bx: "has_color ?m x LHAT_GC_BLACK" and o: "c \<in> body_own ?m (body_of ?m x)"
        and w: "white_at ?m c"
      have x: "x \<noteq> a" "has_color m x LHAT_GC_BLACK" using bx g unfolding r(4) by (metis, metis)
      have "c \<in> body_own m (body_of m x)"
        using o by (simp add: body_own_def recolored_own [OF r(1)] recolored_body [OF r(1)])
      then have "x = a" using t x(2) w unfolding r(5) tricolor_but_def by blast
      with x(1) show "x = a \<and> c \<in> W - {c. value_ref v = Some c}" by blast
    qed
  next
    case False
    then have "lhat_gc_barrier_back m a v = m" by (auto simp: lhat_gc_barrier_back_def)
    moreover have "tricolor_but a (W - {c. value_ref v = Some c}) m"
      unfolding tricolor_but_def
    proof (intro allI impI)
      fix x c assume b: "has_color m x LHAT_GC_BLACK" and o: "c \<in> body_own m (body_of m x)"
        and w: "white_at m c"
      have xc: "x = a \<and> c \<in> W" using t b o w unfolding tricolor_but_def by blast
      have "value_ref v \<noteq> Some c"
        using False b w xc unfolding value_white_ref by blast
      then show "x = a \<and> c \<in> W - {c. value_ref v = Some c}" using xc by simp
    qed
    ultimately show ?thesis by simp
  qed
qed

subsection \<open>A write and its barriers\<close>

lemma value_ref_nil [simp]: "value_ref VALUE_NIL = None" "value_ref (VALUE_OBJECT p) = p"
  by (simp_all add: value_ref_def)

lemma value_of_body:
  assumes "deref m a \<noteq> None" "x \<noteq> a"
  shows "refs (set_body m a b) x \<subseteq> refs m x \<union> body_refs m b"
    "own_refs (set_body m a b) body = own_refs m body"
proof -
  let ?m = "set_body m a b"
  note r = set_body_reads [OF assms(1)]
  have g: "ref_get ?m p v = ref_get m p v" if "\<And>i. p \<noteq> PLACE_SAVED a i" for p v
    using that by (auto simp: ref_get_def r(2) split: LhatPlace.splits)
  have s: "value_ref (ref_get ?m (PLACE_SAVED a i) v) \<in> {None} \<union> Some ` body_refs m b" for i v
  proof (cases "value_ref (ref_get ?m (PLACE_SAVED a i) v)")
    case (Some c)
    then obtain source frame walking held captures where
      b: "b = OBJECT_COROUTINE source frame walking held captures"
      and c: "value_ref (slots_get (cf_registers frame) i) = Some c"
      by (auto simp: ref_get_def r(2) split: LhatBody.splits)
    then have "Some c \<in> value_ref ` set (cf_registers frame)"
      by (auto simp: slots_get_def image_iff split: if_splits intro!: bexI [OF _ nth_mem])
    then show ?thesis using Some by (auto simp: b body_refs_def object_refs_def)
  qed simp
  have o: "set (object_refs ?m body) \<subseteq> set (object_refs m body) \<union> ({None} \<union> Some ` body_refs m b)" for body
  proof (cases "\<exists>p cell su. body = OBJECT_UPVALUE p cell su")
    case True
    then obtain p cell su where u: "body = OBJECT_UPVALUE p cell su" by blast
    show ?thesis
    proof (cases "\<exists>i. p = PLACE_SAVED a i")
      case True
      then obtain i where "p = PLACE_SAVED a i" by blast
      then show ?thesis using s [of i cell] by (auto simp: u object_refs_def)
    next
      case False
      then have "ref_get ?m p cell = ref_get m p cell" by (intro g) blast
      then show ?thesis by (auto simp: u object_refs_def)
    qed
  next
    case False
    then have "object_refs ?m body = object_refs m body"
      by (auto simp: object_refs_def split: LhatBody.splits)
    then show ?thesis by auto
  qed
  show "refs ?m x \<subseteq> refs m x \<union> body_refs m b"
    using o [of "body_of m x"] assms(2) by (auto simp: refs_def r(2))
  show "own_refs ?m body = own_refs m body"
  proof (cases "\<exists>p cell su. body = OBJECT_UPVALUE p cell su")
    case True
    then obtain p cell su where u: "body = OBJECT_UPVALUE p cell su" by blast
    show ?thesis
      by (cases p) (simp_all add: u own_refs_def object_refs_def ref_get_def)
  next
    case False
    then show ?thesis by (auto simp: own_refs_def object_refs_def split: LhatBody.splits)
  qed
qed

text \<open>The object \<open>a\<close> of a machine may be written with a body \<open>b\<close>: neither decides the width of a
  frame or what a script gives away, and what \<open>b\<close> refers to is live.\<close>

definition may_write :: "Machine \<Rightarrow> addr \<Rightarrow> LhatBody \<Rightarrow> bool" where
  "may_write m a b \<longleftrightarrow>
     a \<in> set (m_objects m) \<and> live m a \<and> plain_body (body_of m a) \<and> plain_body b \<and> upvalue_fits m b \<and>
     (\<forall>c \<in> body_refs (set_body m a b) b. live m c)"

lemma may_write_exists: "may_write m a b \<Longrightarrow> deref m a \<noteq> None"
  unfolding may_write_def using live_exists by blast

lemma saved_refs:
  assumes "may_write m a b"
  shows "\<And>c x. c \<in> refs (set_body m a b) x \<Longrightarrow> live m x \<Longrightarrow> heap_closed m \<Longrightarrow> live m c"
proof -
  let ?m = "set_body m a b"
  note e = may_write_exists [OF assms]
  note r = set_body_reads [OF e]
  have own: "live m c" if "c \<in> body_refs ?m b" for c using assms that by (simp add: may_write_def)
  fix c x assume c: "c \<in> refs ?m x" and x: "live m x" and h: "heap_closed m"
  show "live m c"
  proof (cases "x = a")
    case True
    then show ?thesis using c own by (simp add: refs_def r(2) body_refs_def)
  next
    case False
    then have "c \<in> refs m x \<union> body_refs m b" using value_of_body(1) [OF e False] c by blast
    then show ?thesis
    proof
      assume "c \<in> refs m x"
      then show ?thesis using x h unfolding heap_closed_def by blast
    next
      assume "c \<in> body_refs m b"
      show ?thesis
      proof (cases "\<exists>p cell su. b = OBJECT_UPVALUE p cell su")
        case True
        then obtain p cell su where u: "b = OBJECT_UPVALUE p cell su" by blast
        have "ref_get ?m (PLACE_SAVED a i) v = VALUE_NIL" for i v
          by (simp add: ref_get_def r(2) u)
        then have "refs ?m x \<subseteq> refs m x"
          using False
          by (auto simp: refs_def r(2) object_refs_def ref_get_def value_ref_def split: LhatBody.splits
              LhatPlace.splits if_splits)
        then show ?thesis using c x h unfolding heap_closed_def by blast
      next
        case False
        then have "object_refs ?m b = object_refs m b"
          by (auto simp: object_refs_def split: LhatBody.splits)
        then show ?thesis using \<open>c \<in> body_refs m b\<close> own by (simp add: body_refs_def)
      qed
    qed
  qed
qed

lemma plain_refs:
  assumes "deref m a \<noteq> None" "x \<noteq> a" "\<And>p cell su. body_of m x \<noteq> OBJECT_UPVALUE p cell su"
  shows "refs (set_body m a b) x = refs m x"
proof -
  have "object_refs (set_body m a b) (body_of m x) = object_refs m (body_of m x)"
    using assms(3) by (simp add: object_refs_def split: LhatBody.splits)
  then show ?thesis using assms(1,2) by (simp add: refs_def set_body_reads)
qed

lemma written_width:
  assumes "may_write m a b"
  shows "frame_width (set_body m a b) = frame_width m"
proof
  fix f
  have "plain_body c \<Longrightarrow> (case c of OBJECT_SUBROUTINE upvalues (Some registers) owner \<Rightarrow> registers
      | _ \<Rightarrow> 0) = 0" for c
    by (simp add: plain_body_def split: LhatBody.splits)
  then show "frame_width (set_body m a b) f = frame_width m f"
    using assms by (simp add: frame_width_def set_body_reads(2) [OF may_write_exists [OF assms]] may_write_def)
qed

lemma written_wf:
  assumes "may_write m a b" "heap_wf m"
  shows "heap_wf (set_body m a b)"
proof -
  let ?m = "set_body m a b"
  note r = set_body_reads [OF may_write_exists [OF assms(1)]]
  have w: "a \<in> set (m_objects m)" "plain_body (body_of m a)" "plain_body b" "upvalue_fits m b"
    using assms(1) by (simp_all add: may_write_def)
  have ns: "b \<noteq> OBJECT_SCRIPT g" "body_of m a \<noteq> OBJECT_SCRIPT g" for g
    using w(2,3) by (auto simp: plain_body_def)
  have u: "upvalues_ok m" using assms(2) by (simp add: heap_wf_def)
  have c: "chunk_object ?m = chunk_object m"
    by (intro ext) (simp only: chunk_object_def r set_body_fields)
  have cr: "refs ?m x = refs m x" if "chunk_object m x" for x
  proof (rule plain_refs [OF may_write_exists [OF assms(1)]])
    show "x \<noteq> a" using that w(1) by (auto simp: chunk_object_def)
    show "body_of m x \<noteq> OBJECT_UPVALUE p cell su" for p cell su
      using u that unfolding upvalues_ok_def chunk_object_def by blast
  qed
  have "chunks_ok ?m"
    using assms(2) unfolding heap_wf_def chunks_ok_def c r(3) by (simp add: cr)
  moreover have so: "script_ok ?m given = script_ok m given" for given
    unfolding script_ok_def c using cr by (intro conj_cong refl all_cong) simp
  have "scripts_ok ?m"
    unfolding scripts_ok_def
  proof (intro allI impI)
    fix x given assume x: "deref ?m x \<noteq> None" "body_of ?m x = OBJECT_SCRIPT given"
    then have "x \<noteq> a" using ns by (auto simp: r(2))
    then have x': "deref m x \<noteq> None" "body_of m x = OBJECT_SCRIPT given" using x r(1) by (blast, simp add: r(2))
    have "scripts_ok m" using assms(2) by (simp add: heap_wf_def)
    note f = script_facts [OF this x']
    have "set given \<inter> set given' = {}"
      if "deref ?m y \<noteq> None" "body_of ?m y = OBJECT_SCRIPT given'" "y \<noteq> x" for y given'
    proof -
      have "y \<noteq> a" using that ns by (auto simp: r(2))
      then show ?thesis using that r(1) by (intro f(3)) (blast, simp add: r(2), simp)
    qed
    then show "x \<in> set (m_objects ?m) \<and> script_ok ?m given \<and>
        (\<forall>y given'. deref ?m y \<noteq> None \<longrightarrow> body_of ?m y = OBJECT_SCRIPT given' \<longrightarrow> y \<noteq> x \<longrightarrow>
          set given \<inter> set given' = {})"
      unfolding set_body_fields so using f(1,2) by blast
  qed
  moreover have s: "slot_rooted ?m = slot_rooted m"
    by (intro ext) (simp add: slot_rooted_def written_width [OF assms(1)])
  have "upvalues_ok ?m"
    unfolding upvalues_ok_def
  proof (intro allI impI)
    fix x place cell su assume e: "deref ?m x \<noteq> None" and b: "body_of ?m x = OBJECT_UPVALUE place cell su"
    show "x \<in> set (m_objects ?m) \<and> (case place of PLACE_SLOT i \<Rightarrow> slot_rooted ?m i
         | PLACE_SAVED co i \<Rightarrow> su = Some co | _ \<Rightarrow> True)"
    proof (cases "x = a")
      case True
      then have "b = OBJECT_UPVALUE place cell su" using b by (simp add: r(2))
      then show ?thesis unfolding s set_body_fields using True w(1,4) by (simp add: upvalue_fits_def)
    next
      case False
      then have "deref m x \<noteq> None" "body_of m x = OBJECT_UPVALUE place cell su"
        using e b r(1) by (blast, simp add: r(2))
      then show ?thesis using u unfolding upvalues_ok_def set_body_fields s by blast
    qed
  qed
  moreover have "\<forall>x \<in> set (m_objects ?m). deref ?m x \<noteq> None"
    using assms(2) unfolding heap_wf_def r(1) set_body_fields by blast
  ultimately show ?thesis using assms(2) unfolding heap_wf_def set_body_fields by blast
qed

lemma set_body_roots:
  assumes "may_write m a b"
  shows "root_refs (set_body m a b) = root_refs m"
proof -
  have f: "frame_roots (set_body m a b) = frame_roots m"
    by (intro ext) (simp add: frame_roots_def written_width [OF assms])
  show ?thesis unfolding root_refs_def f by (simp add: set_body_def put_def)
qed

lemma written_closed:
  assumes "may_write m a b" "heap_closed m"
  shows "heap_closed (set_body m a b)"
proof -
  note r = set_body_reads(5) [OF may_write_exists [OF assms(1)]]
  have "weak_refs (set_body m a b) = weak_refs m" by (simp add: weak_refs_def)
  moreover have "roots (set_body m a b) = roots m" by (simp add: roots_def set_body_roots [OF assms(1)])
  ultimately show ?thesis
    using assms(2) saved_refs [OF assms(1) _ _ assms(2)] unfolding heap_closed_def r by auto
qed

lemma written_colors:
  assumes "deref m a \<noteq> None"
  shows "gray_ok (set_body m a b) = gray_ok m" "marking_colors (set_body m a b) = marking_colors m"
    "sweep_colors (set_body m a b) = sweep_colors m"
  by (simp_all add: gray_ok_def marking_colors_def sweep_colors_def set_body_reads [OF assms])

lemma written_tricolor:
  assumes "deref m a \<noteq> None" "tricolor m"
  shows "tricolor_but a (body_own (set_body m a b) b - body_own m (body_of m a)) (set_body m a b)"
  unfolding tricolor_but_def set_body_reads(2-4) [OF assms(1)]
proof (intro allI impI)
  fix x c
  assume bl: "has_color m x LHAT_GC_BLACK" and w: "white_at m c"
    and o: "c \<in> body_own (set_body m a b) (if x = a then b else body_of m x)"
  have t: "c \<notin> body_own m (body_of m x)" using assms(2) bl w by (auto simp: tricolor_def body_own_def)
  have "x = a"
  proof (rule ccontr)
    assume "x \<noteq> a"
    then show False
      using o t value_of_body(2) [OF assms(1), of x b] by (simp add: body_own_def)
  qed
  then show "x = a \<and> c \<in> body_own (set_body m a b) b - body_own m (body_of m a)" using o t by simp
qed

text \<open>A write of \<open>b\<close> over \<open>a\<close>, with a barrier for each value that is new there, keeps the
  invariant in every phase of a cycle.\<close>

context write_barrier
begin

lemma store_ok:
  assumes "gc_ok m" "may_write m a b"
    "body_own (set_body m a b) b \<subseteq> body_own m (body_of m a) \<union> {c. \<exists>v \<in> set vs. value_ref v = Some c}"
  shows "gc_ok (barriers (set_body m a b) a vs)"
proof -
  let ?m = "set_body m a b"
  have e: "deref m a \<noteq> None" by (rule may_write_exists [OF assms(2)])
  have m: "heap_wf m" "heap_closed m" "phase_ok m" using assms(1) by (simp_all add: gc_ok_def)
  have w: "heap_wf ?m" by (rule written_wf [OF assms(2) m(1)])
  have c: "heap_closed ?m" by (rule written_closed [OF assms(2) m(2)])
  show ?thesis
  proof (cases "m_gcstate m = LHAT_GC_PROPAGATE")
    case True
    then have p: "gray_ok m" "tricolor m" "marking_colors m" using m(3) by (simp_all add: phase_ok_def)
    show ?thesis
    proof (rule barriers_ok [OF _ w c])
      show "m_gcstate ?m = LHAT_GC_PROPAGATE" "gray_ok ?m" "marking_colors ?m"
        using True p written_colors [OF e] by simp_all
      show "tricolor_but a (body_own ?m b - body_own m (body_of m a)) ?m"
        by (rule written_tricolor [OF e p(2)])
      show "a \<in> set (m_objects ?m)" using assms(2) by (simp add: may_write_def)
      show "body_own ?m b - body_own m (body_of m a) \<subseteq> {c. \<exists>v \<in> set vs. value_ref v = Some c}"
        using assms(3) by blast
    qed
  next
    case False
    then have "phase_ok ?m"
      using m(3) written_colors [OF e] set_body_reads(3) [OF e]
      by (auto simp: phase_ok_def split: GcState.splits)
    moreover have "barriers ?m a vs = ?m" using False by (intro barriers_idle) simp
    ultimately show ?thesis using w c by (simp add: gc_ok_def)
  qed
qed

text \<open>A barrier where nothing was written does no harm.\<close>

lemma barrier_ok:
  assumes "gc_ok m" "a \<in> set (m_objects m)"
  shows "gc_ok (barrier m a v)"
proof (cases "m_gcstate m = LHAT_GC_PROPAGATE")
  case True
  have m: "heap_wf m" "heap_closed m" "gray_ok m" "tricolor m" "marking_colors m"
    using assms(1) True by (simp_all add: gc_ok_def phase_ok_def)
  have "gc_ok (barriers m a [v])"
    by (rule barriers_ok [OF True m(1,2,3,5) _ assms(2), of "{}"])
       (use m(4) in \<open>simp_all add: tricolor_but_none [of _ a]\<close>)
  then show ?thesis by (simp add: barriers_def)
next
  case False
  then show ?thesis using assms(1) by (simp add: idle)
qed

end

end
