(* ===== verification/Lhat_Alloc.thy ===== *)
theory Lhat_Alloc
  imports Lhat_Barrier
begin

text \<open>
  The two ways the program changes what the collector starts from: it writes the places that the
  roots cover (registers, frames, lists), and it makes objects.  Both keep the invariant in every
  phase of a cycle, without a barrier.
\<close>

subsection \<open>Changing the roots\<close>

definition same_objects :: "Machine \<Rightarrow> Machine \<Rightarrow> bool" where
  "same_objects m m' \<longleftrightarrow>
     m_memory m' = m_memory m \<and> m_objects m' = m_objects m \<and> m_white m' = m_white m \<and>
     m_gray m' = m_gray m \<and> m_gcstate m' = m_gcstate m \<and> m_sweep m' = m_sweep m \<and>
     m_weak m' = m_weak m \<and> m_unbound_natives m' = m_unbound_natives m \<and>
     m_member_caches m' = m_member_caches m"

lemma same_objects_reads:
  assumes "same_objects m m'"
  shows "deref m' = deref m" "body_of m' = body_of m" "has_color m' = has_color m"
    "white_at m' = white_at m" "live m' = live m" "own_refs m' = own_refs m"
    "weak_refs m' = weak_refs m"
proof -
  show d: "deref m' = deref m" using assms by (auto simp: deref_def same_objects_def)
  show b: "body_of m' = body_of m" by (intro ext) (simp add: body_of_def d)
  show "has_color m' = has_color m" "white_at m' = white_at m"
    by (intro ext, simp add: has_color_def white_at_def d)+
  show "live m' = live m" using assms by (intro ext) (simp add: live_def d same_objects_def)
  have "object_refs m' body = object_refs m body"
    if "\<And>i cell su. body \<noteq> OBJECT_UPVALUE (PLACE_SLOT i) cell su" for body
    using that by (auto simp: object_refs_def ref_get_def b split: LhatBody.splits LhatPlace.splits)
  then show "own_refs m' = own_refs m"
    by (intro ext) (auto simp: own_refs_def split: LhatBody.splits LhatPlace.splits)
  show "weak_refs m' = weak_refs m" using assms by (simp add: weak_refs_def same_objects_def)
qed

lemma roots_ok:
  assumes "gc_ok m" "same_objects m m'" "\<And>a. a \<in> roots m' \<Longrightarrow> live m a" "upvalues_ok m'"
  shows "gc_ok m'"
proof -
  note r = same_objects_reads [OF assms(2)]
  have o: "m_objects m' = m_objects m" "m_white m' = m_white m" "m_gray m' = m_gray m"
    "m_gcstate m' = m_gcstate m" "m_sweep m' = m_sweep m"
    using assms(2) by (simp_all add: same_objects_def)
  have m: "heap_wf m" "heap_closed m" "phase_ok m" using assms(1) by (simp_all add: gc_ok_def)
  have same: "refs m' x = refs m x" if "\<And>i cell su. body_of m x \<noteq> OBJECT_UPVALUE (PLACE_SLOT i) cell su" for x
    using that by (auto simp: refs_def object_refs_def ref_get_def r(2) split: LhatBody.splits LhatPlace.splits)
  have u: "upvalues_ok m" using m(1) by (simp add: heap_wf_def)
  have c: "chunk_object m' = chunk_object m" by (intro ext) (simp only: chunk_object_def r o)
  have cr: "refs m' x = refs m x" if "chunk_object m x" for x
    using u that unfolding upvalues_ok_def chunk_object_def by (intro same) blast
  have so: "script_ok m' given = script_ok m given" for given
    unfolding script_ok_def c using cr by (intro conj_cong refl all_cong) simp
  have "chunks_ok m'" using m(1) unfolding heap_wf_def chunks_ok_def c r(3) by (simp add: cr)
  moreover have "scripts_ok m' = scripts_ok m" by (simp only: scripts_ok_def so r o)
  ultimately have w: "heap_wf m'" using m(1) assms(4) unfolding heap_wf_def o r(1) by blast
  have "live m c" if x: "live m x" and c: "c \<in> refs m' x" for x c
  proof (cases "\<exists>i cell su. body_of m x = OBJECT_UPVALUE (PLACE_SLOT i) cell su")
    case True
    then obtain i cell su where b: "body_of m x = OBJECT_UPVALUE (PLACE_SLOT i) cell su" by blast
    then have "slot_rooted m' i"
      using assms(4) live_exists [OF x] unfolding upvalues_ok_def r by fastforce
    then obtain f where f: "f \<in> set (m_frames m')" "fr_base f \<le> i" "i < fr_base f + frame_width m' f"
      by (auto simp: slot_rooted_def)
    have "Some c = value_ref (slots_get (m_slots m') i) \<or> Some c = su"
      using c b by (auto simp: refs_def object_refs_def ref_get_def r(2))
    then show ?thesis
    proof
      assume v: "Some c = value_ref (slots_get (m_slots m') i)"
      have "Some c \<in> set (frame_roots m' f)"
        unfolding v frame_roots_def using f(2,3)
        by (auto simp: image_iff intro!: bexI [of _ "i - fr_base f"])
      then have "c \<in> roots m'" using f(1) by (auto simp: roots_def root_refs_def)
      then show ?thesis by (rule assms(3))
    next
      assume "Some c = su"
      then have "c \<in> refs m x" using b by (simp add: refs_def object_refs_def)
      then show ?thesis using m(2) x unfolding heap_closed_def by blast
    qed
  next
    case False
    then have "c \<in> refs m x" using c same [of x] by blast
    then show ?thesis using m(2) x unfolding heap_closed_def by blast
  qed
  then have h: "heap_closed m'"
    using assms(3) m(2) unfolding heap_closed_def r(5,7) by blast
  have "phase_ok m' = phase_ok m"
    unfolding phase_ok_def gray_ok_def tricolor_def marking_colors_def sweep_colors_def r o ..
  then show ?thesis using w h m(3) by (simp add: gc_ok_def)
qed

subsection \<open>Making an object\<close>

lemma alloc_reads:
  fixes m :: Machine and body :: LhatBody
  defines "a \<equiv> length (m_memory m)" and "m' \<equiv> snd (object_alloc m body)"
  shows "fst (object_alloc m body) = a" "deref m a = None"
    "deref m' x = (if x = a then Some \<lparr>ob_color = m_white m, ob_body = body\<rparr> else deref m x)"
    "body_of m' x = (if x = a then body else body_of m x)"
    "has_color m' x c = (if x = a then c = m_white m else has_color m x c)"
    "m_objects m' = a # m_objects m" "m_white m' = m_white m" "m_gray m' = m_gray m"
    "m_gcstate m' = m_gcstate m" "m_frames m' = m_frames m" "m_slots m' = m_slots m"
    "m_open m' = m_open m" "weak_refs m' = weak_refs m"
    "m_sweep m' = (if m_sweep m = 0 then 0 else m_sweep m + 1)"
proof -
  show f: "fst (object_alloc m body) = a" "deref m a = None"
    by (simp_all add: object_alloc_def a_def deref_def Let_def)
  show d: "deref m' x = (if x = a then Some \<lparr>ob_color = m_white m, ob_body = body\<rparr> else deref m x)" for x
    by (auto simp: m'_def a_def object_alloc_def Let_def deref_def nth_append)
  show "body_of m' x = (if x = a then body else body_of m x)"
    "has_color m' x c = (if x = a then c = m_white m else has_color m x c)"
    by (auto simp: body_of_def has_color_def d)
  show "m_objects m' = a # m_objects m" "m_white m' = m_white m" "m_gray m' = m_gray m"
    "m_gcstate m' = m_gcstate m" "m_frames m' = m_frames m" "m_slots m' = m_slots m"
    "m_open m' = m_open m" "weak_refs m' = weak_refs m"
    "m_sweep m' = (if m_sweep m = 0 then 0 else m_sweep m + 1)"
    by (simp_all add: m'_def a_def object_alloc_def Let_def weak_refs_def)
qed

text \<open>What an instruction may make: an object that refers to live ones only.  A script is made with
  its chunks, by the loader, and is not among them.\<close>

definition may_alloc :: "Machine \<Rightarrow> LhatBody \<Rightarrow> bool" where
  "may_alloc m body \<longleftrightarrow>
     (\<forall>c \<in> body_refs m body. live m c) \<and> upvalue_fits m body \<and> (\<forall>given. body \<noteq> OBJECT_SCRIPT given)"

lemma alloc_refs:
  assumes "gc_ok m" "x \<noteq> length (m_memory m)" "live m x \<or> chunk_object m x"
  shows "refs (snd (object_alloc m body)) x = refs m x"
proof -
  let ?a = "length (m_memory m)"
  have m: "heap_wf m" "heap_closed m" using assms(1) by (simp_all add: gc_ok_def)
  have "body_of m x \<noteq> OBJECT_UPVALUE (PLACE_SAVED ?a i) cell su" for i cell su
  proof
    assume b: "body_of m x = OBJECT_UPVALUE (PLACE_SAVED ?a i) cell su"
    have u: "upvalues_ok m" using m(1) by (simp add: heap_wf_def)
    have e: "deref m x \<noteq> None" using assms(3) live_exists by (auto simp: chunk_object_def)
    then have "x \<in> set (m_objects m)" and su: "su = Some ?a"
      using u b unfolding upvalues_ok_def by fastforce+
    then have "live m x" using assms(3) by (auto simp: chunk_object_def)
    moreover have "?a \<in> refs m x" using b su by (simp add: refs_def object_refs_def)
    ultimately have "live m ?a" using m(2) unfolding heap_closed_def by blast
    then show False using live_exists alloc_reads(2) by blast
  qed
  then show ?thesis
    using assms(2)
    by (auto simp: refs_def alloc_reads object_refs_def ref_get_def split: LhatBody.splits LhatPlace.splits)
qed

lemma alloc_own: "x \<noteq> length (m_memory m) \<Longrightarrow>
    own_refs (snd (object_alloc m body)) (body_of m x) = own_refs m (body_of m x)"
  by (auto simp: own_refs_def object_refs_def ref_get_def split: LhatBody.splits LhatPlace.splits)

lemma alloc_body_refs:
  assumes "may_alloc m body"
  shows "body_refs (snd (object_alloc m body)) body = body_refs m body"
proof -
  let ?a = "length (m_memory m)"
  have "body \<noteq> OBJECT_UPVALUE (PLACE_SAVED ?a i) cell su" for i cell su
  proof
    assume b: "body = OBJECT_UPVALUE (PLACE_SAVED ?a i) cell su"
    then have "su = Some ?a" using assms by (simp add: may_alloc_def upvalue_fits_def)
    then have "?a \<in> body_refs m body" using b by (simp add: body_refs_def object_refs_def)
    then have "live m ?a" using assms by (simp add: may_alloc_def)
    then show False using live_exists alloc_reads(2) by blast
  qed
  then show ?thesis
    by (auto simp: body_refs_def alloc_reads object_refs_def ref_get_def split: LhatBody.splits LhatPlace.splits)
qed

lemma alloc_frames:
  assumes "gc_ok m"
  shows "f \<in> set (m_frames m) \<Longrightarrow> frame_width (snd (object_alloc m body)) f = frame_width m f"
    "roots (snd (object_alloc m body)) = roots m"
proof -
  let ?m = "snd (object_alloc m body)"
  have w: "frame_width ?m f = frame_width m f" if "f \<in> set (m_frames m)" for f
  proof -
    have "live m (fr_closure f)"
      using frame_closure_root [OF that] assms by (auto simp: gc_ok_def heap_closed_def)
    then have "fr_closure f \<noteq> length (m_memory m)" using live_exists alloc_reads(2) by metis
    then show ?thesis by (simp add: frame_width_def alloc_reads)
  qed
  then show "f \<in> set (m_frames m) \<Longrightarrow> frame_width ?m f = frame_width m f" .
  have "map (frame_roots ?m) (m_frames m) = map (frame_roots m) (m_frames m)"
    by (rule map_cong [OF refl]) (simp add: frame_roots_def w alloc_reads)
  then have "concat (map (frame_roots ?m) (m_frames m)) = concat (map (frame_roots m) (m_frames m))"
    by (rule arg_cong)
  then have "root_refs ?m = root_refs m"
    unfolding root_refs_def alloc_reads(10) by (simp add: object_alloc_def Let_def)
  then show "roots ?m = roots m" by (simp add: roots_def)
qed

lemma alloc_live:
  assumes "is_white (m_white m)"
  shows "live (snd (object_alloc m body)) x \<longleftrightarrow> x = length (m_memory m) \<or> live m x"
  by (cases "x = length (m_memory m)") (auto simp: live_has_color alloc_reads(5,7))

lemma alloc_wf:
  assumes "gc_ok m" "may_alloc m body"
  shows "heap_wf (snd (object_alloc m body))"
proof -
  let ?m = "snd (object_alloc m body)" and ?a = "length (m_memory m)"
  have m: "heap_wf m" using assms(1) by (simp add: gc_ok_def)
  note r = alloc_reads
  have fresh: "?a \<notin> set (m_objects m)" using m r(2) by (auto simp: heap_wf_def)
  have e: "deref ?m x \<noteq> None \<longleftrightarrow> x = ?a \<or> deref m x \<noteq> None" for x by (simp add: r(3))
  have c: "chunk_object ?m x \<longleftrightarrow> chunk_object m x" for x
    using r(2) by (auto simp: chunk_object_def r(6) e simp del: not_None_eq)
  have cn: "x \<noteq> ?a" if "chunk_object m x" for x using that r(2) by (auto simp: chunk_object_def)
  have cr: "refs ?m x = refs m x" if "chunk_object m x" for x
    using that cn by (intro alloc_refs [OF assms(1)]) auto
  have "chunks_ok ?m"
    using m unfolding heap_wf_def chunks_ok_def c r(5) by (auto simp: cr cn)
  moreover have so: "script_ok ?m given = script_ok m given" for given
    unfolding script_ok_def c using cr by (intro conj_cong refl all_cong) simp
  have "scripts_ok ?m"
    unfolding scripts_ok_def
  proof (intro allI impI)
    fix x given assume x: "deref ?m x \<noteq> None" "body_of ?m x = OBJECT_SCRIPT given"
    then have "x \<noteq> ?a" using assms(2) by (auto simp: r(4) may_alloc_def)
    then have x': "deref m x \<noteq> None" "body_of m x = OBJECT_SCRIPT given" using x by (simp_all add: r(3,4))
    have "scripts_ok m" using m by (simp add: heap_wf_def)
    note f = script_facts [OF this x']
    have "set given \<inter> set given' = {}"
      if "deref ?m y \<noteq> None" "body_of ?m y = OBJECT_SCRIPT given'" "y \<noteq> x" for y given'
    proof -
      have "y \<noteq> ?a" using that assms(2) by (auto simp: r(4) may_alloc_def)
      then show ?thesis using that by (intro f(3)) (simp_all add: r(3,4))
    qed
    then show "x \<in> set (m_objects ?m) \<and> script_ok ?m given \<and>
        (\<forall>y given'. deref ?m y \<noteq> None \<longrightarrow> body_of ?m y = OBJECT_SCRIPT given' \<longrightarrow> y \<noteq> x \<longrightarrow>
          set given \<inter> set given' = {})"
      unfolding r(6) so using f(1,2) by auto
  qed
  moreover have s: "slot_rooted ?m i \<longleftrightarrow> slot_rooted m i" for i
    using alloc_frames(1) [OF assms(1)] by (auto simp: slot_rooted_def r(10))
  have "upvalues_ok ?m"
    unfolding upvalues_ok_def
  proof (intro allI impI)
    fix x place cell su assume x: "deref ?m x \<noteq> None" and b: "body_of ?m x = OBJECT_UPVALUE place cell su"
    show "x \<in> set (m_objects ?m) \<and> (case place of PLACE_SLOT i \<Rightarrow> slot_rooted ?m i
         | PLACE_SAVED co i \<Rightarrow> su = Some co | _ \<Rightarrow> True)"
    proof (cases "x = ?a")
      case True
      then have "body = OBJECT_UPVALUE place cell su" using b by (simp add: r(4))
      then have "case place of PLACE_SLOT i \<Rightarrow> slot_rooted m i | PLACE_SAVED co i \<Rightarrow> su = Some co | _ \<Rightarrow> True"
        using assms(2) by (simp add: may_alloc_def upvalue_fits_def)
      then show ?thesis unfolding s r(6) using True by simp
    next
      case False
      then have "deref m x \<noteq> None" "body_of m x = OBJECT_UPVALUE place cell su"
        using x b by (simp_all add: r(3,4))
      moreover have "upvalues_ok m" using m by (simp add: heap_wf_def)
      ultimately have "x \<in> set (m_objects m) \<and> (case place of PLACE_SLOT i \<Rightarrow> slot_rooted m i
         | PLACE_SAVED co i \<Rightarrow> su = Some co | _ \<Rightarrow> True)" unfolding upvalues_ok_def by blast
      then show ?thesis unfolding s r(6) by simp
    qed
  qed
  moreover have "\<forall>x \<in> set (m_objects ?m). deref ?m x \<noteq> None"
    using m unfolding heap_wf_def r(6) e by auto
  ultimately show ?thesis using m fresh by (simp add: heap_wf_def r(6,7))
qed

lemma alloc_ok:
  assumes "gc_ok m" "may_alloc m body"
  shows "gc_ok (snd (object_alloc m body))"
proof -
  let ?m = "snd (object_alloc m body)" and ?a = "length (m_memory m)"
  have m: "heap_wf m" "heap_closed m" "phase_ok m" using assms(1) by (simp_all add: gc_ok_def)
  have w: "is_white (m_white m)" using m(1) by (simp add: heap_wf_def)
  note r = alloc_reads
  note l = alloc_live [OF w, of body]
  have wf: "heap_wf ?m" by (rule alloc_wf [OF assms])
  have na: "\<not> live m ?a" using live_exists r(2) by blast
  have cl: "heap_closed ?m"
    unfolding heap_closed_def l
  proof (intro conjI ballI allI impI)
    show "a = ?a \<or> live m a" if "a \<in> roots ?m" for a
      using that m(2) by (simp add: alloc_frames(2) [OF assms(1)] heap_closed_def)
    show "a = ?a \<or> live m a" if "a \<in> weak_refs ?m" for a
      using that m(2) by (simp add: r(13) heap_closed_def)
    fix x c assume x: "x = ?a \<or> live m x" and c: "c \<in> refs ?m x"
    show "c = ?a \<or> live m c"
    proof (cases "x = ?a")
      case True
      then have "c \<in> body_refs ?m body" using c by (simp add: refs_def body_refs_def r(4))
      then have "c \<in> body_refs m body" unfolding alloc_body_refs [OF assms(2)] .
      then show ?thesis using assms(2) by (simp add: may_alloc_def)
    next
      case False
      then have "c \<in> refs m x" using c x alloc_refs [OF assms(1) False] by blast
      then show ?thesis using False x m(2) unfolding heap_closed_def by blast
    qed
  qed
  have fresh: "?a \<notin> set (m_objects m)" using m(1) r(2) by (auto simp: heap_wf_def)
  have hc: "has_color ?m x c = has_color m x c" if "x \<noteq> ?a" for x c using that by (simp add: r(5))
  have ph: "phase_ok ?m"
  proof (cases "m_gcstate m")
    case LHAT_GC_PAUSE
    then show ?thesis using m(3) by (auto simp: phase_ok_def r)
  next
    case LHAT_GC_PROPAGATE
    then have p: "gray_ok m" "tricolor m" "marking_colors m" using m(3) by (simp_all add: phase_ok_def)
    have ng: "m_white m \<noteq> LHAT_GC_GRAY" "m_white m \<noteq> LHAT_GC_BLACK" using w by auto
    have "gray_ok ?m"
      using p(1) ng(1) color_exists r(2) unfolding gray_ok_def r(5,8) by (metis)
    moreover have "marking_colors ?m" using p(3) fresh by (auto simp: marking_colors_def r)
    moreover have "tricolor ?m"
      unfolding tricolor_def
    proof (intro allI impI)
      fix x c assume bl: "has_color ?m x LHAT_GC_BLACK" and c: "Some c \<in> set (own_refs ?m (body_of ?m x))"
      have xa: "x \<noteq> ?a" using bl ng(2) by (auto simp: r(5))
      then have x: "has_color m x LHAT_GC_BLACK" using bl by (simp add: r(5))
      have c': "Some c \<in> set (own_refs m (body_of m x))"
        using c xa by (simp add: r(4) alloc_own)
      have "live m x" by (rule live_color(3) [OF w x])
      moreover have "c \<in> refs m x" using c' own_refs_subset by (auto simp: refs_def)
      ultimately have "live m c" using m(2) unfolding heap_closed_def by blast
      then have "c \<noteq> ?a" using na by blast
      then show "\<not> white_at ?m c" using p(2) x c' by (auto simp: white_at_def r(3) tricolor_def)
    qed
    ultimately show ?thesis using LHAT_GC_PROPAGATE by (simp add: phase_ok_def r(9))
  next
    case LHAT_GC_SWEEP
    then have "sweep_colors m" "m_gray m = []" using m(3) by (simp_all add: phase_ok_def)
    moreover from this have "sweep_colors ?m"
      using fresh by (cases "m_sweep m") (auto simp: sweep_colors_def r dest: in_set_takeD in_set_dropD)
    ultimately show ?thesis using LHAT_GC_SWEEP by (simp add: phase_ok_def r)
  qed
  show ?thesis using wf cl ph by (simp add: gc_ok_def)
qed

end
