(* ===== verification/Lhat_Mutator.thy ===== *)
theory Lhat_Mutator
  imports Lhat_Alloc
begin

text \<open>
  What the running program does to the heap between two steps of the collector, as
  \<open>src/vm.c\<close>, \<open>src/vm_call.c\<close> and \<open>src/vm_table.c\<close> do it: writes to registers, tables, overload
  groups and captured places, capturing and closing slots, suspending and resuming coroutines.

  A captured place is read and written through its \<open>location\<close>.  \<open>reattach_upvalues\<close> follows the
  list of captures of a coroutine, which the collector does not: it answers \<open>None\<close> where it would
  read an object that was freed.
\<close>

subsection \<open>Registers and tables\<close>

definition set_register :: "Machine \<Rightarrow> nat \<Rightarrow> LhatValue \<Rightarrow> Machine" where
  "set_register m slot v = m\<lparr>m_slots := (m_slots m)[slot := v]\<rparr>"

definition is_object_value :: "LhatValue \<Rightarrow> bool" where
  "is_object_value v = (case v of VALUE_OBJECT p \<Rightarrow> True | _ \<Rightarrow> False)"

definition vm_table_write_barrier :: "Machine \<Rightarrow> addr \<Rightarrow> LhatValue \<Rightarrow> LhatValue \<Rightarrow> Machine" where
  "vm_table_write_barrier m table key value =
     (if m_gcstate m = LHAT_GC_PROPAGATE \<and> has_color m table LHAT_GC_BLACK then
        (let m1 = (if is_object_value key then lhat_gc_barrier_back m table key else m)
         in if is_object_value value then lhat_gc_barrier_back m1 table value else m1)
      else m)"

text \<open>The end of \<open>vm_set_key\<close>: \<open>body\<close> is the table as \<open>lhat_table_set\<close> left it.\<close>

definition table_write :: "Machine \<Rightarrow> addr \<Rightarrow> LhatBody \<Rightarrow> LhatValue \<Rightarrow> LhatValue \<Rightarrow> Machine" where
  "table_write m table body key value =
     vm_table_write_barrier (set_body m table body) table key value"

text \<open>\<open>lhat_overload_add\<close> and the barrier after it.\<close>

definition overload_add :: "Machine \<Rightarrow> addr \<Rightarrow> LhatValue \<Rightarrow> Machine" where
  "overload_add m g candidate =
     (case body_of m g of
        OBJECT_OVERLOAD candidates \<Rightarrow>
          lhat_gc_barrier (set_body m g (OBJECT_OVERLOAD (candidates @ [candidate]))) g candidate
      | _ \<Rightarrow> m)"

subsection \<open>Captured places\<close>

text \<open>The slot that an open upvalue aims at.\<close>

definition open_slot :: "Machine \<Rightarrow> addr \<Rightarrow> nat" where
  "open_slot m u = (case body_of m u of OBJECT_UPVALUE (PLACE_SLOT i) cell suspended_in \<Rightarrow> i | _ \<Rightarrow> 0)"

definition vm_capture :: "Machine \<Rightarrow> nat \<Rightarrow> addr \<times> Machine" where
  "vm_capture m slot =
     (let above = takeWhile (\<lambda>u. slot < open_slot m u) (m_open m);
          rest = dropWhile (\<lambda>u. slot < open_slot m u) (m_open m)
      in if rest \<noteq> [] \<and> open_slot m (hd rest) = slot then (hd rest, m)
         else (case object_alloc m (OBJECT_UPVALUE (PLACE_SLOT slot) VALUE_NIL None) of
           (u, m1) \<Rightarrow> (u, m1\<lparr>m_open := above @ u # rest\<rparr>)))"

definition close_into_cell :: "Machine \<Rightarrow> addr \<Rightarrow> Machine" where
  "close_into_cell m u =
     (case body_of m u of
        OBJECT_UPVALUE location cell suspended_in \<Rightarrow>
          (let held = ref_get m location cell
           in lhat_gc_barrier (set_body m u (OBJECT_UPVALUE PLACE_CELL held suspended_in)) u held)
      | _ \<Rightarrow> m)"

lemma barrier_open [simp]:
  "m_open (lhat_gc_barrier m a v) = m_open m" "m_open (lhat_gc_barrier_back m a v) = m_open m"
  using recolored_fields(8) [OF forward.recolors, of m a v]
    recolored_fields(8) [OF backward.recolors, of m a v] by simp_all

lemma close_open [simp]: "m_open (close_into_cell m u) = m_open m"
  by (simp add: close_into_cell_def Let_def split: LhatBody.splits)

function vm_close_upvalues :: "Machine \<Rightarrow> nat \<Rightarrow> Machine" where
  "vm_close_upvalues m lowest =
     (if m_open m \<noteq> [] \<and> lowest \<le> open_slot m (hd (m_open m))
      then vm_close_upvalues (close_into_cell (m\<lparr>m_open := tl (m_open m)\<rparr>) (hd (m_open m))) lowest
      else m)"
  by pat_completeness auto
termination by (relation "measure (\<lambda>(m, lowest). length (m_open m))") auto

declare vm_close_upvalues.simps [simp del]

text \<open>The same for one slot: the places above it stay shared.\<close>

definition close_one :: "nat \<Rightarrow> Machine \<Rightarrow> addr \<Rightarrow> Machine" where
  "close_one slot m u =
     (if open_slot m u \<noteq> slot then m
      else close_into_cell (m\<lparr>m_open := remove1 u (m_open m)\<rparr>) u)"

definition vm_close_one_upvalue :: "Machine \<Rightarrow> nat \<Rightarrow> Machine" where
  "vm_close_one_upvalue m slot = foldl (close_one slot) m (m_open m)"

definition set_saved :: "Machine \<Rightarrow> addr \<Rightarrow> nat \<Rightarrow> LhatValue \<Rightarrow> Machine" where
  "set_saved m co i v =
     (case body_of m co of
        OBJECT_COROUTINE source frame walking held captures \<Rightarrow>
          set_body m co (OBJECT_COROUTINE source (frame\<lparr>cf_registers := (cf_registers frame)[i := v]\<rparr>)
            walking held captures)
      | _ \<Rightarrow> m)"

text \<open>\<open>lhat_ref_set\<close> of an upvalue's location.\<close>

definition upvalue_set :: "Machine \<Rightarrow> addr \<Rightarrow> LhatValue \<Rightarrow> Machine" where
  "upvalue_set m u v =
     (case body_of m u of
        OBJECT_UPVALUE location cell suspended_in \<Rightarrow>
          (case location of
             PLACE_NONE \<Rightarrow> m
           | PLACE_SLOT i \<Rightarrow> set_register m i v
           | PLACE_SAVED co i \<Rightarrow> set_saved m co i v
           | PLACE_CELL \<Rightarrow> set_body m u (OBJECT_UPVALUE PLACE_CELL v suspended_in))
      | _ \<Rightarrow> m)"

text \<open>\<open>SETUPVAL\<close>, and the same two lines of \<open>lhat_frame_set_upvalue\<close>.\<close>

definition bc_setupval :: "Machine \<Rightarrow> addr \<Rightarrow> LhatValue \<Rightarrow> Machine" where
  "bc_setupval m u v = lhat_gc_barrier (upvalue_set m u v) u v"

subsection \<open>Suspending\<close>

definition register_count :: "Machine \<Rightarrow> addr \<Rightarrow> nat" where
  "register_count m co =
     (case body_of m co of
        OBJECT_COROUTINE source frame walking held captures \<Rightarrow> length (cf_registers frame) | _ \<Rightarrow> 0)"

definition save_register :: "addr \<Rightarrow> nat \<Rightarrow> Machine \<Rightarrow> nat \<Rightarrow> Machine" where
  "save_register co base m i =
     (let v = slots_get (m_slots m) (base + i) in lhat_gc_barrier_back (set_saved m co i v) co v)"

definition save_registers :: "Machine \<Rightarrow> addr \<Rightarrow> nat \<Rightarrow> Machine" where
  "save_registers m co base = foldl (save_register co base) m [0..<register_count m co]"

definition captures_of :: "Machine \<Rightarrow> addr \<Rightarrow> addr list" where
  "captures_of m co =
     (case body_of m co of OBJECT_COROUTINE source frame walking held captures \<Rightarrow> captures | _ \<Rightarrow> [])"

definition set_captures :: "Machine \<Rightarrow> addr \<Rightarrow> addr list \<Rightarrow> Machine" where
  "set_captures m co us =
     (case body_of m co of
        OBJECT_COROUTINE source frame walking held captures \<Rightarrow>
          set_body m co (OBJECT_COROUTINE source frame walking held us)
      | _ \<Rightarrow> m)"

definition set_upvalue_place :: "Machine \<Rightarrow> addr \<Rightarrow> LhatPlace \<Rightarrow> pointer \<Rightarrow> Machine" where
  "set_upvalue_place m u location suspended_in =
     (case body_of m u of
        OBJECT_UPVALUE old cell was_in \<Rightarrow> set_body m u (OBJECT_UPVALUE location cell suspended_in)
      | _ \<Rightarrow> m)"

definition retarget_one :: "Machine \<Rightarrow> addr \<Rightarrow> nat \<Rightarrow> Machine" where
  "retarget_one m co base =
     (let u = hd (m_open m); offset = open_slot m u - base;
          m1 = set_upvalue_place (m\<lparr>m_open := tl (m_open m)\<rparr>) u (PLACE_SAVED co offset) (Some co);
          m2 = set_captures m1 co (u # captures_of m1 co)
      in lhat_gc_barrier m2 u (VALUE_OBJECT (Some co)))"

lemma retarget_open [simp]: "m_open (retarget_one m co base) = tl (m_open m)"
  by (simp add: retarget_one_def Let_def set_captures_def set_upvalue_place_def split: LhatBody.splits)

function retarget :: "Machine \<Rightarrow> addr \<Rightarrow> nat \<Rightarrow> Machine" where
  "retarget m co base =
     (if m_open m \<noteq> [] \<and> base \<le> open_slot m (hd (m_open m)) then retarget (retarget_one m co base) co base
      else m)"
  by pat_completeness auto
termination by (relation "measure (\<lambda>(m, co, base). length (m_open m))") auto

declare retarget.simps [simp del]

definition set_suspended :: "Machine \<Rightarrow> addr \<Rightarrow> nat \<Rightarrow> nat \<Rightarrow> Machine" where
  "set_suspended m co into cleanups =
     (case body_of m co of
        OBJECT_COROUTINE source frame walking held captures \<Rightarrow>
          set_body m co (OBJECT_COROUTINE source
            (frame\<lparr>cf_sent_into := into, cf_state := LHAT_COROUTINE_SUSPENDED, cf_cleanup_count := cleanups\<rparr>)
            walking held captures)
      | _ \<Rightarrow> m)"

text \<open>What a yield does to the heap: the frame at \<open>base\<close> goes into its coroutine, which remembers
  the register \<open>into\<close> that the yield answers into.  The frame's cleanups fit the coroutine's room:
  the stop for those that do not is left out.\<close>

definition yield_frame :: "Machine \<Rightarrow> addr \<Rightarrow> nat \<Rightarrow> nat \<Rightarrow> nat \<Rightarrow> Machine" where
  "yield_frame m co base into cleanups =
     (let m1 = set_suspended (retarget (save_registers m co base) co base) co into cleanups;
          m2 = (if 0 < cleanups then m1\<lparr>m_cleanup_carriers := m_cleanup_carriers m1 + 1\<rparr> else m1)
      in m2\<lparr>m_frames := butlast (m_frames m2)\<rparr>)"

subsection \<open>Resuming\<close>

definition restore_register :: "addr \<Rightarrow> nat \<Rightarrow> Machine \<Rightarrow> nat \<Rightarrow> Machine" where
  "restore_register co base m i = set_register m (base + i) (ref_get m (PLACE_SAVED co i) VALUE_NIL)"

definition restore_registers :: "Machine \<Rightarrow> addr \<Rightarrow> nat \<Rightarrow> Machine" where
  "restore_registers m co base = foldl (restore_register co base) m [0..<register_count m co]"

text \<open>One round of the loop of \<open>reattach_upvalues\<close>.  An offset is one only where the upvalue aims
  into the registers of this coroutine.\<close>

definition reattach_one :: "Machine \<Rightarrow> addr \<Rightarrow> nat \<Rightarrow> Machine option" where
  "reattach_one m co base =
     (let u = hd (captures_of m co); m1 = set_captures m co (tl (captures_of m co))
      in if deref m u = None then None
         else (case body_of m u of
           OBJECT_UPVALUE (PLACE_SAVED of_co offset) cell suspended_in \<Rightarrow>
             if of_co = co
             then Some ((set_upvalue_place m1 u (PLACE_SLOT (base + offset)) None)\<lparr>m_open := u # m_open m1\<rparr>)
             else None
         | _ \<Rightarrow> None))"

lemma set_captures_is:
  assumes "deref m co \<noteq> None"
  shows "captures_of (set_captures m co us) co = (case body_of m co of
     OBJECT_COROUTINE source frame walking held captures \<Rightarrow> us | _ \<Rightarrow> [])"
  by (simp add: set_captures_def captures_of_def set_body_reads(2) [OF assms] split: LhatBody.splits)

lemma captures_exist: "captures_of m co \<noteq> [] \<Longrightarrow> deref m co \<noteq> None"
  by (auto simp: captures_of_def body_of_def split: option.splits)

lemma captures_open [simp]: "captures_of (m\<lparr>m_open := us\<rparr>) co = captures_of m co"
  by (simp add: captures_of_def body_of_def deref_def)

lemma set_upvalue_place_other:
  assumes "deref m u \<noteq> None" "x \<noteq> u"
  shows "body_of (set_upvalue_place m u p s) x = body_of m x"
  using assms(2) by (simp add: set_upvalue_place_def set_body_reads(2) [OF assms(1)] split: LhatBody.splits)

lemma set_upvalue_place_captures:
  "deref m u \<noteq> None \<Longrightarrow> co \<noteq> u \<Longrightarrow> captures_of (set_upvalue_place m u p s) co = captures_of m co"
  by (simp add: captures_of_def set_upvalue_place_other)

lemma reattach_captures:
  assumes "captures_of m co \<noteq> []" "reattach_one m co base = Some m'"
  shows "captures_of m' co = tl (captures_of m co)"
proof -
  let ?u = "hd (captures_of m co)" and ?m1 = "set_captures m co (tl (captures_of m co))"
  note e = captures_exist [OF assms(1)]
  obtain source frame walking held captures where
    c: "body_of m co = OBJECT_COROUTINE source frame walking held captures"
    using assms(1) by (auto simp: captures_of_def split: LhatBody.splits)
  obtain offset cell su where u: "deref m ?u \<noteq> None" "body_of m ?u = OBJECT_UPVALUE (PLACE_SAVED co offset) cell su"
    and m': "m' = (set_upvalue_place ?m1 ?u (PLACE_SLOT (base + offset)) None)\<lparr>m_open := ?u # m_open ?m1\<rparr>"
    using assms(2)
    by (auto simp: reattach_one_def Let_def split: if_splits LhatBody.splits LhatPlace.splits)
  have ne: "?u \<noteq> co" using u c by auto
  have t: "captures_of ?m1 co = tl (captures_of m co)" by (simp add: set_captures_is [OF e] c)
  have eu: "deref ?m1 ?u \<noteq> None"
    using u(1) by (simp add: set_captures_def c set_body_reads(1) [OF e] del: not_None_eq)
  have "captures_of (set_upvalue_place ?m1 ?u p s) co = captures_of ?m1 co" for p s
    by (rule set_upvalue_place_captures [OF eu ne [symmetric]])
  then show ?thesis by (simp add: m' t)
qed

function reattach_upvalues :: "Machine \<Rightarrow> addr \<Rightarrow> nat \<Rightarrow> Machine option" where
  "reattach_upvalues m co base =
     (if captures_of m co \<noteq> [] then
        (case reattach_one m co base of
           None \<Rightarrow> None
         | Some m1 \<Rightarrow> reattach_upvalues m1 co base)
      else Some m)"
  by pat_completeness auto
termination
  by (relation "measure (\<lambda>(m, co, base). length (captures_of m co))") (auto simp: reattach_captures)

declare reattach_upvalues.simps [simp del]

definition set_running :: "Machine \<Rightarrow> addr \<Rightarrow> Machine" where
  "set_running m co =
     (case body_of m co of
        OBJECT_COROUTINE source frame walking held captures \<Rightarrow>
          set_body m co (OBJECT_COROUTINE source (frame\<lparr>cf_state := LHAT_COROUTINE_RUNNING\<rparr>)
            walking held captures)
      | _ \<Rightarrow> m)"

definition closure_of :: "Machine \<Rightarrow> addr \<Rightarrow> pointer" where
  "closure_of m co =
     (case body_of m co of
        OBJECT_COROUTINE source frame walking held captures \<Rightarrow> cf_closure frame | _ \<Rightarrow> None)"

definition coroutine_frame :: "Machine \<Rightarrow> addr \<Rightarrow> LhatCoroutineFrame option" where
  "coroutine_frame m co =
     (case body_of m co of
        OBJECT_COROUTINE source frame walking held captures \<Rightarrow> Some frame | _ \<Rightarrow> None)"

definition resuming :: "Machine \<Rightarrow> addr \<Rightarrow> bool" where
  "resuming m co =
     (case coroutine_frame m co of
        Some frame \<Rightarrow> cf_state frame = LHAT_COROUTINE_SUSPENDED | None \<Rightarrow> False)"

definition sent_into :: "Machine \<Rightarrow> addr \<Rightarrow> nat" where
  "sent_into m co = (case coroutine_frame m co of Some frame \<Rightarrow> cf_sent_into frame | None \<Rightarrow> 0)"

text \<open>The coroutine's cleanups are the frame's now.\<close>

definition take_carrier :: "Machine \<Rightarrow> addr \<Rightarrow> Machine" where
  "take_carrier m co =
     (case coroutine_frame m co of
        Some frame \<Rightarrow>
          if cf_state frame = LHAT_COROUTINE_SUSPENDED \<and> 0 < cf_cleanup_count frame
          then m\<lparr>m_cleanup_carriers := m_cleanup_carriers m - 1\<rparr> else m
      | None \<Rightarrow> m)"

definition fill_slots :: "Machine \<Rightarrow> nat \<Rightarrow> LhatValue list \<Rightarrow> Machine" where
  "fill_slots m base vs = foldl (\<lambda>m i. set_register m (base + i) (vs ! i)) m [0..<length vs]"

text \<open>What a resume lays down where the yield answers into: several values as a run, its head
  first; a host value as its head and the words of its run after it (\<open>words\<close>); one value as itself;
  none as nil.\<close>

definition sent_slots :: "LhatValue list \<Rightarrow> u64 list \<Rightarrow> LhatValue list" where
  "sent_slots sent words =
     (if 1 < length sent then VALUE_RUN (length sent) # sent
      else if sent = [VALUE_HOSTVALUE] then VALUE_HOSTVALUE # map VALUE_CONT words
      else if length sent = 1 then sent
      else [VALUE_NIL])"

text \<open>\<open>vm_enter_resume_frame\<close>: the coroutine's frame back on the stack at \<open>base\<close>, and where it was
  suspended what the resume sends in the register that the yield left.  A coroutine that has not
  started takes nothing.\<close>

definition vm_enter_resume_frame ::
  "Machine \<Rightarrow> addr \<Rightarrow> nat \<Rightarrow> LhatValue list \<Rightarrow> u64 list \<Rightarrow> Machine option" where
  "vm_enter_resume_frame m co base sent words =
     (case closure_of m co of
        None \<Rightarrow> None
      | Some closure \<Rightarrow>
          (case reattach_upvalues (restore_registers m co base) co base of
             None \<Rightarrow> None
           | Some m1 \<Rightarrow>
               (let m2 = m1\<lparr>m_frames := m_frames m1 @
                      [\<lparr>fr_closure = closure, fr_coroutine = Some co, fr_base = base,
                        fr_answer = VALUE_NIL, fr_answer_run = []\<rparr>]\<rparr>;
                    m3 = set_running (take_carrier m2 co) co
                in Some (if resuming m co
                         then fill_slots m3 (base + sent_into m co) (sent_slots sent words)
                         else m3))))"

subsection \<open>Calling and returning\<close>

text \<open>A call lays the arguments down at \<open>base\<close> and empties the rest of the frame
  (\<open>vm_clear_scratch\<close>).\<close>

definition enter_frame :: "Machine \<Rightarrow> addr \<Rightarrow> nat \<Rightarrow> LhatValue list \<Rightarrow> Machine" where
  "enter_frame m closure base arguments =
     (let frame = \<lparr>fr_closure = closure, fr_coroutine = None, fr_base = base, fr_answer = VALUE_NIL,
            fr_answer_run = []\<rparr>;
          m1 = fill_slots m base
            (arguments @ replicate (frame_width m frame - length arguments) VALUE_NIL)
      in m1\<lparr>m_frames := m_frames m1 @ [frame]\<rparr>)"

definition coroutine_done :: "Machine \<Rightarrow> addr \<Rightarrow> Machine" where
  "coroutine_done m co =
     (case body_of m co of
        OBJECT_COROUTINE source frame walking held captures \<Rightarrow>
          set_body m co (OBJECT_COROUTINE source
            (frame\<lparr>cf_state := LHAT_COROUTINE_DONE, cf_cleanup_count := 0\<rparr>) walking held captures)
      | _ \<Rightarrow> m)"

text \<open>A return, when every cleanup has run: the coroutine of the frame is over, what still aims into
  the frame takes its value with it, and the frame goes.  The first \<open>kept\<close> registers, none but in
  the top level of a session, outlive the frame and stay shared.  Where a coroutine waits with
  cleanups the registers are emptied, unless the frame is the first of its run (\<open>outermost\<close>) or its
  answer is a host value, whose words are still in there.  The collection that the end of a run may make
  before the frame goes is a step of its own, and where the answer is put is not followed.\<close>

definition leave_frame :: "Machine \<Rightarrow> nat \<Rightarrow> bool \<Rightarrow> LhatValue \<Rightarrow> Machine" where
  "leave_frame m kept outermost answer =
     (let frame = last (m_frames m);
          m1 = (case fr_coroutine frame of Some co \<Rightarrow> coroutine_done m co | None \<Rightarrow> m);
          m2 = vm_close_upvalues m1 (fr_base frame + kept);
          m3 = m2\<lparr>m_frames := butlast (m_frames m2)\<rparr>
      in if \<not> outermost \<and> m_cleanup_carriers m3 \<noteq> 0 \<and> answer \<noteq> VALUE_HOSTVALUE
         then fill_slots m3 (fr_base frame + kept) (replicate (frame_width m frame - kept) VALUE_NIL)
         else m3)"

end
