(* ===== verification/Lhat_MutatorOk.thy ===== *)
theory Lhat_MutatorOk
  imports Lhat_Mutator
begin

text \<open>
  Every operation of the running program keeps the invariant of the collector and the order of
  the list of open upvalues: innermost slot first, and all the upvalues that aim at the stack.
\<close>

subsection \<open>The open list\<close>

definition open_at :: "Machine \<Rightarrow> addr \<Rightarrow> nat option" where
  "open_at m u =
     (case body_of m u of OBJECT_UPVALUE (PLACE_SLOT i) cell suspended_in \<Rightarrow> Some i | _ \<Rightarrow> None)"

definition open_ok :: "Machine \<Rightarrow> bool" where
  "open_ok m \<longleftrightarrow>
     sorted_wrt (\<lambda>u w. open_slot m w < open_slot m u) (m_open m) \<and>
     (\<forall>u. open_at m u \<noteq> None \<longleftrightarrow> u \<in> set (m_open m))"

definition run_ok :: "Machine \<Rightarrow> bool" where
  "run_ok m \<longleftrightarrow> gc_ok m \<and> open_ok m"

lemma open_slot_at: "open_slot m u = (case open_at m u of Some i \<Rightarrow> i | None \<Rightarrow> 0)"
  by (simp add: open_slot_def open_at_def split: LhatBody.splits LhatPlace.splits)

lemma open_at_iff:
  "open_at m u = Some i \<longleftrightarrow> (\<exists>cell su. body_of m u = OBJECT_UPVALUE (PLACE_SLOT i) cell su)"
  by (auto simp: open_at_def split: LhatBody.splits LhatPlace.splits)

lemma open_ok_cong: "open_at m' = open_at m \<Longrightarrow> m_open m' = m_open m \<Longrightarrow> open_ok m' = open_ok m"
  by (simp add: open_ok_def open_slot_at)

lemma open_at_body: "body_of m' = body_of m \<Longrightarrow> open_at m' = open_at m"
  by (intro ext) (simp add: open_at_def)

lemma open_recolored:
  assumes "recolored m m'"
  shows "open_at m' = open_at m" "m_open m' = m_open m" "open_ok m' = open_ok m"
proof -
  have "body_of m' = body_of m" by (intro ext) (rule recolored_body [OF assms])
  then show a: "open_at m' = open_at m" by (rule open_at_body)
  show o: "m_open m' = m_open m" by (rule recolored_fields(8) [OF assms])
  show "open_ok m' = open_ok m" by (rule open_ok_cong [OF a o])
qed

lemma open_at_set_body:
  assumes "deref m a \<noteq> None"
  shows "open_at (set_body m a b) u =
    (if u = a then (case b of OBJECT_UPVALUE (PLACE_SLOT i) cell su \<Rightarrow> Some i | _ \<Rightarrow> None)
     else open_at m u)"
  by (simp add: open_at_def set_body_reads(2) [OF assms])

lemma open_ok_set_body:
  assumes "deref m a \<noteq> None" "open_at m a = None" "\<And>i cell su. b \<noteq> OBJECT_UPVALUE (PLACE_SLOT i) cell su"
  shows "open_ok (set_body m a b) = open_ok m"
proof (rule open_ok_cong)
  show "open_at (set_body m a b) = open_at m"
    using assms(2,3) by (intro ext) (simp add: open_at_set_body [OF assms(1)] split: LhatBody.splits LhatPlace.splits)
qed simp

lemma open_root: "u \<in> set (m_open m) \<Longrightarrow> u \<in> roots m"
  by (auto simp: roots_def root_refs_def)

text \<open>An open upvalue is live, and on the machine's list.\<close>

lemma open_live:
  assumes "gc_ok m" "u \<in> set (m_open m)"
  shows "live m u"
  using assms open_root by (auto simp: gc_ok_def heap_closed_def)

lemma upvalue_facts:
  assumes "gc_ok m" "live m u" "body_of m u = OBJECT_UPVALUE place cell su"
  shows "u \<in> set (m_objects m)"
    "case place of PLACE_SLOT i \<Rightarrow> slot_rooted m i | PLACE_SAVED co i \<Rightarrow> su = Some co | _ \<Rightarrow> True"
proof -
  have "upvalues_ok m" using assms(1) by (simp add: gc_ok_def heap_wf_def)
  then have "u \<in> set (m_objects m) \<and> (case place of PLACE_SLOT i \<Rightarrow> slot_rooted m i
      | PLACE_SAVED co i \<Rightarrow> su = Some co | _ \<Rightarrow> True)"
    using live_exists [OF assms(2)] assms(3) unfolding upvalues_ok_def by blast
  then show "u \<in> set (m_objects m)"
    "case place of PLACE_SLOT i \<Rightarrow> slot_rooted m i | PLACE_SAVED co i \<Rightarrow> su = Some co | _ \<Rightarrow> True"
    by blast+
qed

subsection \<open>What stays live\<close>

lemma propagate_live:
  assumes "gc_ok m" "m_gcstate m = LHAT_GC_PROPAGATE"
  shows "live m x \<longleftrightarrow> deref m x \<noteq> None"
proof -
  have "none_dead m"
    using assms by (intro marking_none_dead) (simp_all add: gc_ok_def phase_ok_def)
  then show ?thesis using live_exists unfolding none_dead_def by blast
qed

definition value_live :: "Machine \<Rightarrow> LhatValue \<Rightarrow> bool" where
  "value_live m v \<longleftrightarrow> (\<forall>c. value_ref v = Some c \<longrightarrow> live m c)"

context write_barrier
begin

lemma barriers_live:
  assumes "gc_ok m" "gc_ok (barriers m a vs)"
  shows "live (barriers m a vs) = live m"
proof (cases "m_gcstate m = LHAT_GC_PROPAGATE")
  case True
  then have "m_gcstate (barriers m a vs) = LHAT_GC_PROPAGATE"
    using recolored_fields(4) [OF barriers_recolor] by simp
  then show ?thesis
    using propagate_live [OF assms(1) True] propagate_live [OF assms(2)]
      recolored_exists [OF barriers_recolor, of m a vs] by (intro ext) simp
qed (simp add: barriers_idle)

end

subsection \<open>Registers\<close>

lemma same_frames_upvalues:
  assumes "same_objects m m'" "m_frames m' = m_frames m"
  shows "upvalues_ok m' = upvalues_ok m"
proof -
  note r = same_objects_reads [OF assms(1)]
  have "frame_width m' = frame_width m" by (intro ext) (simp add: frame_width_def r)
  then have "slot_rooted m' = slot_rooted m" by (intro ext) (simp add: slot_rooted_def assms(2))
  then show ?thesis using assms(1) by (simp only: upvalues_ok_def r) (simp add: same_objects_def)
qed

lemma register_roots: "roots (set_register m i v) \<subseteq> roots m \<union> {c. value_ref v = Some c}"
proof -
  let ?m = "set_register m i v"
  have b: "body_of ?m = body_of m" by (intro ext) (simp add: body_of_def deref_def set_register_def)
  have s: "value_ref (slots_get (m_slots ?m) j) \<in> {value_ref (slots_get (m_slots m) j), value_ref v}" for j
    by (cases "i = j") (auto simp: set_register_def slots_get_def)
  have "set (frame_roots ?m f) \<subseteq> set (frame_roots m f) \<union> {value_ref v}" for f
  proof -
    have "frame_width ?m f = frame_width m f" by (simp add: frame_width_def b)
    then show ?thesis unfolding frame_roots_def using s by fastforce
  qed
  then have "set (concat (map (frame_roots ?m) (m_frames m))) \<subseteq>
      set (concat (map (frame_roots m) (m_frames m))) \<union> {value_ref v}" by auto
  then have "set (root_refs ?m) \<subseteq> set (root_refs m) \<union> {value_ref v}"
    by (auto simp: root_refs_def set_register_def)
  then show ?thesis by (auto simp: roots_def)
qed

lemma register_same: "same_objects m (set_register m i v)"
  by (simp add: same_objects_def set_register_def)

lemma set_register_ok:
  assumes "gc_ok m" "value_live m v"
  shows "gc_ok (set_register m i v)"
proof (rule roots_ok [OF assms(1) register_same])
  show "live m c" if "c \<in> roots (set_register m i v)" for c
    using that register_roots [of m i v] assms by (auto simp: gc_ok_def heap_closed_def value_live_def)
  show "upvalues_ok (set_register m i v)"
    using assms(1) same_frames_upvalues [OF register_same [of m i v]]
    by (simp add: gc_ok_def heap_wf_def set_register_def)
qed

lemma set_register_run:
  assumes "run_ok m" "value_live m v"
  shows "run_ok (set_register m i v)"
proof -
  have "open_ok (set_register m i v) = open_ok m"
    by (rule open_ok_cong [OF open_at_body [OF same_objects_reads(2) [OF register_same]]])
       (simp add: set_register_def)
  then show ?thesis using assms set_register_ok by (simp add: run_ok_def)
qed

subsection \<open>Tables and overload groups\<close>

lemma barrier_back_scalar: "\<not> is_object_value v \<Longrightarrow> lhat_gc_barrier_back m a v = m"
  by (auto simp: lhat_gc_barrier_back_def is_object_value_def value_white_def split: LhatValue.splits)

lemma table_barrier_is: "vm_table_write_barrier m t key value = backward.barriers m t [key, value]"
proof -
  have a: "(if is_object_value v then lhat_gc_barrier_back n t v else n) = lhat_gc_barrier_back n t v" for n v
    using barrier_back_scalar by simp
  have n: "lhat_gc_barrier_back m t v = m"
    if "\<not> (m_gcstate m = LHAT_GC_PROPAGATE \<and> has_color m t LHAT_GC_BLACK)" for v
    using that by (auto simp: lhat_gc_barrier_back_def)
  show ?thesis unfolding vm_table_write_barrier_def a Let_def backward.barriers_def
    by (simp add: n)
qed

definition table_body :: "LhatBody \<Rightarrow> bool" where
  "table_body b = (case b of OBJECT_TABLE array entries definition delegate_key \<Rightarrow> True | _ \<Rightarrow> False)"

text \<open>A table after a write refers to what it referred to, to the key and to the value.\<close>

definition may_table_write :: "Machine \<Rightarrow> addr \<Rightarrow> LhatBody \<Rightarrow> LhatValue \<Rightarrow> LhatValue \<Rightarrow> bool" where
  "may_table_write m t body key value \<longleftrightarrow>
     t \<in> set (m_objects m) \<and> live m t \<and> table_body (body_of m t) \<and> table_body body \<and>
     value_live m key \<and> value_live m value \<and>
     set (object_refs m body) \<subseteq> set (object_refs m (body_of m t)) \<union> {value_ref key, value_ref value, None}"

lemma table_write_run:
  assumes "run_ok m" "may_table_write m t body key value"
  shows "run_ok (table_write m t body key value)"
proof -
  have w: "t \<in> set (m_objects m)" "live m t" "table_body (body_of m t)" "table_body body"
    "value_live m key" "value_live m value"
    "set (object_refs m body) \<subseteq> set (object_refs m (body_of m t)) \<union> {value_ref key, value_ref value, None}"
    using assms(2) by (simp_all add: may_table_write_def)
  have e: "deref m t \<noteq> None" by (rule live_exists [OF w(2)])
  have g: "gc_ok m" "open_ok m" using assms(1) by (simp_all add: run_ok_def)
  have o: "object_refs n b = object_refs m b" "own_refs n b = object_refs m b"
      "plain_body b" "upvalue_fits m b" "\<And>p cell su. b \<noteq> OBJECT_UPVALUE p cell su"
    if "table_body b" for b n
    using that by (simp_all add: table_body_def object_refs_def own_refs_def plain_body_def upvalue_fits_def
        split: LhatBody.splits)
  have rl: "live m c" if "Some c \<in> set (object_refs m body)" for c
  proof -
    have "c \<in> refs m t \<or> value_ref key = Some c \<or> value_ref value = Some c"
      using that w(7) by (auto simp: refs_def)
    then show ?thesis
      using w(2,5,6) g(1) unfolding gc_ok_def heap_closed_def value_live_def by blast
  qed
  have ob: "object_refs (set_body m t body) body = object_refs m body"
      "own_refs (set_body m t body) body = object_refs m body"
      "own_refs m (body_of m t) = object_refs m (body_of m t)"
    by (rule o(1) [OF w(4)], rule o(2) [OF w(4)], rule o(2) [OF w(3)])
  have mw: "may_write m t body"
    unfolding may_write_def body_refs_def ob
    using w(1,2) o(3) [OF w(3)] o(3,4) [OF w(4)] rl by simp
  have "gc_ok (backward.barriers (set_body m t body) t [key, value])"
  proof (rule backward.store_ok [OF g(1) mw])
    show "body_own (set_body m t body) body \<subseteq>
        body_own m (body_of m t) \<union> {c. \<exists>v \<in> set [key, value]. value_ref v = Some c}"
      using w(7) unfolding body_own_def ob by auto
  qed
  moreover have "open_ok (backward.barriers (set_body m t body) t [key, value]) = open_ok m"
  proof -
    have "open_at m t = None" using o(5) [OF w(3)] by (simp add: open_at_def split: LhatBody.splits)
    then show ?thesis
      using open_recolored(3) [OF backward.barriers_recolor] open_ok_set_body [OF e] o(5) [OF w(4)] by simp
  qed
  ultimately show ?thesis using g(2) by (simp add: run_ok_def table_write_def table_barrier_is)
qed

lemma overload_add_run:
  assumes "run_ok m" "g \<in> set (m_objects m)" "live m g" "value_live m v"
  shows "run_ok (overload_add m g v)"
proof (cases "\<exists>candidates. body_of m g = OBJECT_OVERLOAD candidates")
  case True
  then obtain cs where b: "body_of m g = OBJECT_OVERLOAD cs" by blast
  let ?b = "OBJECT_OVERLOAD (cs @ [v])"
  have ok: "gc_ok m" "open_ok m" using assms(1) by (simp_all add: run_ok_def)
  have e: "deref m g \<noteq> None" by (rule live_exists [OF assms(3)])
  have rl: "live m c" if "Some c \<in> value_ref ` set cs" for c
  proof -
    have "c \<in> refs m g" using that b by (simp add: refs_def object_refs_def)
    then show ?thesis using assms(3) ok(1) unfolding gc_ok_def heap_closed_def by blast
  qed
  have mw: "may_write m g ?b"
    using assms(2-4) b rl
    by (auto simp: may_write_def plain_body_def upvalue_fits_def body_refs_def object_refs_def value_live_def)
  have "gc_ok (forward.barriers (set_body m g ?b) g [v])"
    by (rule forward.store_ok [OF ok(1) mw])
       (auto simp: body_own_def own_refs_def object_refs_def b)
  moreover have "open_ok (forward.barriers (set_body m g ?b) g [v]) = open_ok m"
    using open_recolored(3) [OF forward.barriers_recolor] open_ok_set_body [OF e] b
    by (simp add: open_at_def)
  ultimately show ?thesis using ok(2) b by (simp add: run_ok_def overload_add_def forward.barriers_def)
next
  case False
  then have "overload_add m g v = m" by (simp add: overload_add_def split: LhatBody.splits)
  then show ?thesis using assms(1) by simp
qed

subsection \<open>Closing a captured place\<close>

lemma sorted_wrt_remove1: "sorted_wrt P xs \<Longrightarrow> sorted_wrt P (remove1 x xs)"
proof (induction xs)
  case (Cons y ys)
  then show ?case using set_remove1_subset [of x ys] by auto
qed simp

lemma sorted_wrt_distinct: "sorted_wrt P xs \<Longrightarrow> (\<And>x. \<not> P x x) \<Longrightarrow> distinct xs"
  by (induction xs) auto

lemma open_ok_distinct: "open_ok m \<Longrightarrow> distinct (m_open m)"
  unfolding open_ok_def by (elim conjE sorted_wrt_distinct) simp

text \<open>The machine with a shorter list of open upvalues.\<close>

lemma open_same: "same_objects m (m\<lparr>m_open := us\<rparr>)"
  by (simp add: same_objects_def)

lemma open_shrink:
  assumes "gc_ok m" "set us \<subseteq> set (m_open m)"
  shows "gc_ok (m\<lparr>m_open := us\<rparr>)"
proof (rule roots_ok [OF assms(1) open_same])
  let ?m = "m\<lparr>m_open := us\<rparr>"
  have b: "body_of ?m = body_of m" by (rule same_objects_reads(2) [OF open_same])
  have "frame_roots ?m = frame_roots m" by (intro ext) (simp add: frame_roots_def frame_width_def b)
  then have "set (root_refs ?m) \<subseteq> set (root_refs m)"
    using assms(2) by (auto simp: root_refs_def)
  then show "live m a" if "a \<in> roots ?m" for a
    using that assms(1) by (auto simp: roots_def gc_ok_def heap_closed_def)
  show "upvalues_ok ?m"
    using same_frames_upvalues [OF open_same [of m us]] assms(1) by (simp add: gc_ok_def heap_wf_def)
qed

text \<open>An open upvalue that is taken off the list and aimed elsewhere leaves a list in order.\<close>

lemma open_taken:
  assumes "open_ok m" "u \<in> set (m_open m)" "m_open m' = remove1 u (m_open m)"
    "\<And>x. open_at m' x = (if x = u then None else open_at m x)"
  shows "open_ok m'"
proof -
  have d: "distinct (m_open m)" by (rule open_ok_distinct [OF assms(1)])
  have s: "set (m_open m') = set (m_open m) - {u}" using d by (simp add: assms(3))
  have "sorted_wrt (\<lambda>u w. open_slot m w < open_slot m u) (m_open m')"
    using assms(1) unfolding assms(3) open_ok_def by (intro sorted_wrt_remove1) simp
  then have "sorted_wrt (\<lambda>u w. open_slot m' w < open_slot m' u) (m_open m')"
    by (rule sorted_wrt_mono_rel [rotated]) (use s in \<open>simp add: open_slot_at assms(4)\<close>)
  moreover have "open_at m' x \<noteq> None \<longleftrightarrow> x \<in> set (m_open m')" for x
    using assms(1) s by (auto simp: open_ok_def assms(4))
  ultimately show ?thesis by (simp add: open_ok_def)
qed

lemma open_body:
  assumes "run_ok m" "u \<in> set (m_open m)"
  obtains i cell su where "body_of m u = OBJECT_UPVALUE (PLACE_SLOT i) cell su" "open_slot m u = i"
proof -
  obtain i where "open_at m u = Some i" using assms by (auto simp: run_ok_def open_ok_def)
  then obtain cell su where "body_of m u = OBJECT_UPVALUE (PLACE_SLOT i) cell su"
    by (auto simp: open_at_iff)
  moreover have "open_slot m u = i" using \<open>open_at m u = Some i\<close> by (simp add: open_slot_at)
  ultimately show ?thesis by (rule that)
qed

lemma upvalue_live_refs:
  assumes "gc_ok m" "live m u" "body_of m u = OBJECT_UPVALUE place cell su"
  shows "value_live m (ref_get m place cell)" "\<And>c. su = Some c \<Longrightarrow> live m c"
proof -
  have h: "\<And>c. c \<in> refs m u \<Longrightarrow> live m c"
    using assms(1,2) unfolding gc_ok_def heap_closed_def by blast
  show "value_live m (ref_get m place cell)"
    unfolding value_live_def using assms(3) by (auto intro!: h simp: refs_def object_refs_def)
  show "\<And>c. su = Some c \<Longrightarrow> live m c"
    using assms(3) by (auto intro!: h simp: refs_def object_refs_def)
qed

lemma close_into_cell_ok:
  assumes "gc_ok m" "live m u" "body_of m u = OBJECT_UPVALUE place cell su"
  shows "gc_ok (close_into_cell m u)"
    "open_at (close_into_cell m u) x = (if x = u then None else open_at m x)"
    "live (close_into_cell m u) = live m"
proof -
  let ?held = "ref_get m place cell"
  let ?b = "OBJECT_UPVALUE PLACE_CELL ?held su"
  let ?m = "set_body m u ?b"
  have e: "deref m u \<noteq> None" by (rule live_exists [OF assms(2)])
  note l = upvalue_live_refs [OF assms]
  have eq: "close_into_cell m u = forward.barriers ?m u [?held]"
    by (simp add: close_into_cell_def assms(3) forward.barriers_def Let_def)
  have mw: "may_write m u ?b"
    using assms(2) l upvalue_facts(1) [OF assms]
    by (auto simp: may_write_def plain_body_def upvalue_fits_def body_refs_def object_refs_def
        ref_get_def value_live_def assms(3))
  have "body_own ?m ?b \<subseteq> body_own m (body_of m u) \<union> {c. \<exists>v \<in> set [?held]. value_ref v = Some c}"
    by (auto simp: body_own_def own_refs_def object_refs_def ref_get_def assms(3) split: LhatPlace.splits)
  from forward.store_ok [OF assms(1) mw this] show g: "gc_ok (close_into_cell m u)" by (simp only: eq)
  show "open_at (close_into_cell m u) x = (if x = u then None else open_at m x)"
    unfolding eq open_recolored(1) [OF forward.barriers_recolor] by (simp add: open_at_set_body [OF e])
  have "live (forward.barriers ?m u [?held]) = live ?m"
  proof (cases "m_gcstate m = LHAT_GC_PROPAGATE")
    case True
    have p: "m_gcstate (forward.barriers ?m u [?held]) = LHAT_GC_PROPAGATE"
      using True recolored_fields(4) [OF forward.barriers_recolor] by simp
    show ?thesis
      using propagate_live [OF assms(1) True] propagate_live [OF g [unfolded eq] p]
        recolored_exists [OF forward.barriers_recolor, of ?m u "[?held]"]
        set_body_reads(1,5) [OF e]
      by (intro ext) metis
  qed (simp add: forward.barriers_idle)
  then show "live (close_into_cell m u) = live m"
    unfolding eq using set_body_reads(5) [OF e] by (simp add: fun_eq_iff)
qed

lemma close_out_run:
  assumes "run_ok m" "u \<in> set (m_open m)"
  shows "run_ok (close_into_cell (m\<lparr>m_open := remove1 u (m_open m)\<rparr>) u)"
proof -
  let ?m = "m\<lparr>m_open := remove1 u (m_open m)\<rparr>"
  have g: "gc_ok m" "open_ok m" using assms(1) by (simp_all add: run_ok_def)
  have s: "set (remove1 u (m_open m)) \<subseteq> set (m_open m)" by (rule set_remove1_subset)
  note r = same_objects_reads [OF open_same [of m "remove1 u (m_open m)"]]
  obtain i cell su where b: "body_of m u = OBJECT_UPVALUE (PLACE_SLOT i) cell su"
    by (rule open_body [OF assms])
  have "live ?m u" "body_of ?m u = OBJECT_UPVALUE (PLACE_SLOT i) cell su"
    using open_live [OF g(1) assms(2)] b by (simp_all only: r)
  note c = close_into_cell_ok [OF open_shrink [OF g(1) s] this]
  have "open_at (close_into_cell ?m u) x = (if x = u then None else open_at m x)" for x
    unfolding c(2) open_at_body [OF r(2)] ..
  then have "open_ok (close_into_cell ?m u)"
    by (intro open_taken [OF g(2) assms(2)]) simp_all
  then show ?thesis using c(1) by (simp add: run_ok_def)
qed

lemma remove_hd: "xs \<noteq> [] \<Longrightarrow> remove1 (hd xs) xs = tl xs"
  by (cases xs) auto

lemma close_upvalues_run: "run_ok m \<Longrightarrow> run_ok (vm_close_upvalues m lowest)"
proof (induction m lowest rule: vm_close_upvalues.induct)
  case (1 m lowest)
  show ?case
  proof (cases "m_open m \<noteq> [] \<and> lowest \<le> open_slot m (hd (m_open m))")
    case True
    then have "run_ok (close_into_cell (m\<lparr>m_open := tl (m_open m)\<rparr>) (hd (m_open m)))"
      using close_out_run [OF 1(2), of "hd (m_open m)"] by (simp add: remove_hd)
    then show ?thesis using 1(1) True by (subst vm_close_upvalues.simps) simp
  next
    case False
    then have "vm_close_upvalues m lowest = m" by (subst vm_close_upvalues.simps) (rule if_not_P)
    then show ?thesis using 1(2) by simp
  qed
qed

text \<open>Nothing aims at the closed part of the stack any more.\<close>

lemma sorted_below:
  assumes "open_ok m" "m_open m = [] \<or> open_slot m (hd (m_open m)) < lowest" "open_at m u = Some i"
  shows "i < lowest"
proof -
  have u: "u \<in> set (m_open m)" using assms(1,3) by (auto simp: open_ok_def)
  then have h: "open_slot m (hd (m_open m)) < lowest" using assms(2) by auto
  have "open_slot m u \<le> open_slot m (hd (m_open m))"
    using u assms(1) by (cases "m_open m") (auto simp: open_ok_def)
  then show ?thesis using h assms(3) by (simp add: open_slot_at)
qed

lemma close_upvalues_done:
  "run_ok m \<Longrightarrow> open_at (vm_close_upvalues m lowest) u = Some i \<Longrightarrow> i < lowest"
proof (induction m lowest rule: vm_close_upvalues.induct)
  case (1 m lowest)
  show ?case
  proof (cases "m_open m \<noteq> [] \<and> lowest \<le> open_slot m (hd (m_open m))")
    case True
    then have "run_ok (close_into_cell (m\<lparr>m_open := tl (m_open m)\<rparr>) (hd (m_open m)))"
      using close_out_run [OF 1(2), of "hd (m_open m)"] by (simp add: remove_hd)
    then show ?thesis using 1(1,3) True by (subst (asm) vm_close_upvalues.simps) simp
  next
    case False
    then have "vm_close_upvalues m lowest = m" by (subst vm_close_upvalues.simps) (rule if_not_P)
    then show ?thesis using 1(2,3) False by (intro sorted_below [of m lowest u i]) (auto simp: run_ok_def)
  qed
qed

lemma close_one_run:
  assumes "run_ok m" "set us \<subseteq> set (m_open m)" "distinct us"
  shows "run_ok (foldl (close_one slot) m us)"
  using assms
proof (induction us arbitrary: m)
  case (Cons u us)
  have d: "distinct (m_open m)" using Cons.prems(1) open_ok_distinct by (simp add: run_ok_def)
  show ?case
  proof (cases "open_slot m u = slot")
    case True
    have "set us \<subseteq> set (remove1 u (m_open m))" using Cons.prems(2,3) d by auto
    then show ?thesis
      using Cons.IH [OF close_out_run [OF Cons.prems(1), of u]] Cons.prems True by (simp add: close_one_def)
  next
    case False
    then show ?thesis using Cons by (simp add: close_one_def)
  qed
qed simp

lemma close_one_upvalue_run: "run_ok m \<Longrightarrow> run_ok (vm_close_one_upvalue m slot)"
  unfolding vm_close_one_upvalue_def
  by (rule close_one_run) (auto simp: run_ok_def open_ok_distinct)

subsection \<open>Writing a captured place\<close>

text \<open>An object of the machine that the program holds.\<close>

definition owned :: "Machine \<Rightarrow> addr \<Rightarrow> bool" where
  "owned m a \<longleftrightarrow> a \<in> set (m_objects m) \<and> live m a"

lemma barrier_run:
  assumes "run_ok m" "a \<in> set (m_objects m)"
  shows "run_ok (lhat_gc_barrier m a v)" "run_ok (lhat_gc_barrier_back m a v)"
  using assms forward.barrier_ok backward.barrier_ok open_recolored(3) [OF forward.recolors]
    open_recolored(3) [OF backward.recolors]
  by (simp_all add: run_ok_def)

text \<open>A body that is no subroutine, no script and no upvalue, written with a body of the same kind
  whose references but for \<open>v\<close>'s were there.\<close>

definition inert :: "LhatBody \<Rightarrow> bool" where
  "inert b = (case b of OBJECT_SUBROUTINE _ _ _ \<Rightarrow> False | OBJECT_SCRIPT _ \<Rightarrow> False
     | OBJECT_UPVALUE _ _ _ \<Rightarrow> False | _ \<Rightarrow> True)"

lemma inert_facts:
  assumes "inert b"
  shows "plain_body b" "upvalue_fits m b" "own_refs m b = object_refs m b"
    "object_refs n b = object_refs m b" "\<And>p cell su. b \<noteq> OBJECT_UPVALUE p cell su"
  using assms
  by (simp_all add: inert_def plain_body_def upvalue_fits_def own_refs_def object_refs_def
      split: LhatBody.splits)

lemma inert_store:
  assumes "run_ok m" "owned m a" "inert (body_of m a)" "inert b" "value_live m v"
    "set (object_refs m b) \<subseteq> set (object_refs m (body_of m a)) \<union> {value_ref v, None}"
  shows "run_ok (lhat_gc_barrier (set_body m a b) a v)"
    "run_ok (lhat_gc_barrier_back (set_body m a b) a v)"
proof -
  have g: "gc_ok m" "open_ok m" using assms(1) by (simp_all add: run_ok_def)
  have a: "a \<in> set (m_objects m)" "live m a" using assms(2) by (simp_all add: owned_def)
  have e: "deref m a \<noteq> None" by (rule live_exists [OF a(2)])
  note fb = inert_facts [OF assms(4)] and fa = inert_facts [OF assms(3)]
  have ob: "object_refs (set_body m a b) b = object_refs m b" by (rule fb(4))
  have own: "own_refs (set_body m a b) b = object_refs m b" using fb(3) ob by simp
  have "live m c" if "Some c \<in> set (object_refs m b)" for c
  proof -
    have "c \<in> refs m a \<or> value_ref v = Some c" using that assms(6) by (auto simp: refs_def)
    then show ?thesis using a(2) g(1) assms(5) unfolding gc_ok_def heap_closed_def value_live_def by blast
  qed
  then have mw: "may_write m a b"
    unfolding may_write_def body_refs_def ob using a fa(1) fb(1,2) by simp
  have sub: "body_own (set_body m a b) b \<subseteq> body_own m (body_of m a) \<union> {c. \<exists>w \<in> set [v]. value_ref w = Some c}"
    unfolding body_own_def own fa(3) using assms(6) by auto
  have "open_at m a = None" using fa(5) by (simp add: open_at_def split: LhatBody.splits)
  then have o: "open_ok (set_body m a b)" using open_ok_set_body [OF e] fb(5) g(2) by simp
  show "run_ok (lhat_gc_barrier (set_body m a b) a v)"
    using forward.store_ok [OF g(1) mw sub] o open_recolored(3) [OF forward.recolors]
    by (simp add: run_ok_def forward.barriers_def)
  show "run_ok (lhat_gc_barrier_back (set_body m a b) a v)"
    using backward.store_ok [OF g(1) mw sub] o open_recolored(3) [OF backward.recolors]
    by (simp add: run_ok_def backward.barriers_def)
qed

lemma set_saved_run:
  assumes "run_ok m" "owned m co" "value_live m v"
  shows "run_ok (lhat_gc_barrier (set_saved m co i v) co v)"
    "run_ok (lhat_gc_barrier_back (set_saved m co i v) co v)"
proof -
  have co: "co \<in> set (m_objects m)" using assms(2) by (simp add: owned_def)
  have "run_ok (lhat_gc_barrier (set_saved m co i v) co v) \<and>
    run_ok (lhat_gc_barrier_back (set_saved m co i v) co v)"
  proof (cases "\<exists>source frame walking held captures.
      body_of m co = OBJECT_COROUTINE source frame walking held captures")
    case True
    then obtain source frame walking held captures where
      b: "body_of m co = OBJECT_COROUTINE source frame walking held captures" by blast
    let ?b = "OBJECT_COROUTINE source (frame\<lparr>cf_registers := (cf_registers frame)[i := v]\<rparr>) walking held captures"
    have s: "set_saved m co i v = set_body m co ?b" by (simp add: set_saved_def b)
    have i: "inert (body_of m co)" "inert ?b" by (simp_all add: b inert_def)
    have "set (object_refs m ?b) \<subseteq> set (object_refs m (body_of m co)) \<union> {value_ref v, None}"
      using set_update_subset_insert [of "cf_registers frame" i v] by (auto simp: object_refs_def b)
    from inert_store [OF assms(1,2) i assms(3) this] show ?thesis by (simp add: s)
  next
    case False
    then have "set_saved m co i v = m" by (auto simp: set_saved_def split: LhatBody.splits)
    then show ?thesis using barrier_run [OF assms(1) co] by simp
  qed
  then show "run_ok (lhat_gc_barrier (set_saved m co i v) co v)"
    "run_ok (lhat_gc_barrier_back (set_saved m co i v) co v)" by blast+
qed

text \<open>
  What \<open>SETUPVAL\<close> relies on: a place that is a saved register of a coroutine is not written past
  the collector, which has the coroutine behind it and the upvalue still before it.
\<close>

definition setupval_guarded :: "Machine \<Rightarrow> addr \<Rightarrow> LhatValue \<Rightarrow> bool" where
  "setupval_guarded m u v \<longleftrightarrow>
     (case body_of m u of
        OBJECT_UPVALUE (PLACE_SAVED co i) cell suspended_in \<Rightarrow>
          owned m co \<and>
          (m_gcstate m = LHAT_GC_PROPAGATE \<and> has_color m co LHAT_GC_BLACK \<and> value_white m v \<longrightarrow>
             has_color m u LHAT_GC_BLACK)
      | _ \<Rightarrow> True)"

lemma saved_color:
  "has_color (set_saved m co i v) x c = has_color m x c" "white_at (set_saved m co i v) x = white_at m x"
  "m_gcstate (set_saved m co i v) = m_gcstate m" "m_objects (set_saved m co i v) = m_objects m"
proof -
  have "(has_color (set_saved m co i v) x c = has_color m x c \<and>
      white_at (set_saved m co i v) x = white_at m x) \<and>
      m_gcstate (set_saved m co i v) = m_gcstate m \<and> m_objects (set_saved m co i v) = m_objects m"
  proof (cases "deref m co = None")
    case True
    then show ?thesis by (simp add: set_saved_def body_of_def)
  next
    case False
    then show ?thesis by (simp add: set_saved_def set_body_reads [OF False] split: LhatBody.splits)
  qed
  then show "has_color (set_saved m co i v) x c = has_color m x c"
    "white_at (set_saved m co i v) x = white_at m x"
    "m_gcstate (set_saved m co i v) = m_gcstate m" "m_objects (set_saved m co i v) = m_objects m"
    by blast+
qed

lemma setupval_run:
  assumes "run_ok m" "live m u" "value_live m v" "setupval_guarded m u v"
  shows "run_ok (bc_setupval m u v)"
proof (cases "\<exists>place cell su. body_of m u = OBJECT_UPVALUE place cell su")
  case False
  then have "bc_setupval m u v = lhat_gc_barrier m u v"
    by (auto simp: bc_setupval_def upvalue_set_def split: LhatBody.splits)
  moreover have "run_ok (lhat_gc_barrier m u v)"
  proof (cases "u \<in> set (m_objects m)")
    case True
    then show ?thesis by (rule barrier_run(1) [OF assms(1)])
  next
    case out: False
    have "m_gcstate m = LHAT_GC_PROPAGATE \<Longrightarrow> lhat_gc_barrier m u v = reach m (value_ref v)"
      using out live_exists [OF assms(2)] object_color [of m u] assms(1)
      by (auto simp: lhat_gc_barrier_def lhat_gc_reach_def run_ok_def gc_ok_def)
    show ?thesis
    proof (cases "m_gcstate m = LHAT_GC_PROPAGATE")
      case True
      have "marking_ok m" using True assms(1) by (simp add: run_ok_def gc_ok_def phase_ok_def marking_ok_def)
      then have "marking_ok (reach m (value_ref v))"
        using marking_reach_all [of m "[value_ref v]"] by (simp add: reach_all_def)
      then have "gc_ok (reach m (value_ref v))"
        using True recolored_fields(4) [OF recolored_reach, of m "value_ref v"] by (intro gc_ok_propagate) simp_all
      then show ?thesis
        using \<open>m_gcstate m = LHAT_GC_PROPAGATE \<Longrightarrow> _\<close> True assms(1) open_recolored(3) [OF recolored_reach]
        by (simp add: run_ok_def)
    qed (use assms(1) in \<open>simp add: lhat_gc_barrier_def\<close>)
  qed
  ultimately show ?thesis by simp
next
  case True
  then obtain place cell su where b: "body_of m u = OBJECT_UPVALUE place cell su" by blast
  have g: "gc_ok m" using assms(1) by (simp add: run_ok_def)
  have u: "u \<in> set (m_objects m)" by (rule upvalue_facts(1) [OF g assms(2) b])
  show ?thesis
  proof (cases place)
    case PLACE_NONE
    then show ?thesis using barrier_run(1) [OF assms(1) u] b by (simp add: bc_setupval_def upvalue_set_def)
  next
    case (PLACE_SLOT i)
    have "u \<in> set (m_objects (set_register m i v))" using u by (simp add: set_register_def)
    then show ?thesis
      using barrier_run(1) [OF set_register_run [OF assms(1,3)]] b PLACE_SLOT
      by (simp add: bc_setupval_def upvalue_set_def)
  next
    case (PLACE_SAVED co i)
    let ?m = "set_saved m co i v"
    have gd: "owned m co" "m_gcstate m = LHAT_GC_PROPAGATE \<Longrightarrow> has_color m co LHAT_GC_BLACK \<Longrightarrow>
        value_white m v \<Longrightarrow> has_color m u LHAT_GC_BLACK"
      using assms(4) b PLACE_SAVED by (auto simp: setupval_guarded_def)
    have s: "run_ok (lhat_gc_barrier ?m co v)" by (rule set_saved_run(1) [OF assms(1) gd(1) assms(3)])
    have eq: "bc_setupval m u v = lhat_gc_barrier ?m u v"
      using b PLACE_SAVED by (simp add: bc_setupval_def upvalue_set_def)
    show ?thesis
    proof (cases "m_gcstate m = LHAT_GC_PROPAGATE \<and> has_color m co LHAT_GC_BLACK \<and> value_white m v")
      case True
      then have "lhat_gc_barrier ?m u v = lhat_gc_barrier ?m co v"
        using gd(2) by (simp add: lhat_gc_barrier_def saved_color)
      then show ?thesis using s eq by simp
    next
      case False
      have "reach ?m (value_ref v) = ?m" if "\<not> value_white m v"
        using that by (auto simp: reach_def value_white_ref saved_color split: option.splits)
      then have "lhat_gc_barrier ?m co v = ?m"
        using False by (auto simp: lhat_gc_barrier_def lhat_gc_reach_def saved_color)
      then have "run_ok ?m" using s by simp
      then show ?thesis using u by (simp add: eq barrier_run(1) saved_color)
    qed
  next
    case PLACE_CELL
    let ?b = "OBJECT_UPVALUE PLACE_CELL v su"
    have e: "deref m u \<noteq> None" by (rule live_exists [OF assms(2)])
    note l = upvalue_live_refs [OF g assms(2) b]
    have mw: "may_write m u ?b"
      using u assms(2,3) l b
      by (auto simp: may_write_def plain_body_def upvalue_fits_def body_refs_def object_refs_def
          ref_get_def value_live_def)
    have "body_own (set_body m u ?b) ?b \<subseteq> body_own m (body_of m u) \<union> {c. \<exists>w \<in> set [v]. value_ref w = Some c}"
      by (auto simp: body_own_def own_refs_def object_refs_def ref_get_def b PLACE_CELL)
    from forward.store_ok [OF g mw this] have "gc_ok (bc_setupval m u v)"
      using b PLACE_CELL by (simp add: bc_setupval_def upvalue_set_def forward.barriers_def)
    moreover have "open_ok (set_body m u ?b) = open_ok m"
      using b PLACE_CELL by (intro open_ok_set_body [OF e]) (simp_all add: open_at_def)
    then have "open_ok (bc_setupval m u v) = open_ok m"
      using b PLACE_CELL open_recolored(3) [OF forward.recolors]
      by (simp add: bc_setupval_def upvalue_set_def)
    ultimately show ?thesis using assms(1) by (simp add: run_ok_def)
  qed
qed

end
