(* ===== verification/Lhat_Stack.thy ===== *)
theory Lhat_Stack
  imports Lhat_MutatorOk
begin

text \<open>
  The operations that move frames keep the invariant: making and capturing, calling and
  returning, a yield that takes a frame into its coroutine, and a resume that puts it back, where
  every capture on the coroutine's list is still there.
\<close>

subsection \<open>The stack\<close>

definition same_stack :: "Machine \<Rightarrow> Machine \<Rightarrow> bool" where
  "same_stack m m' \<longleftrightarrow>
     m_slots m' = m_slots m \<and> m_frames m' = m_frames m \<and> frame_width m' = frame_width m"

lemma same_stack_trans: "same_stack m m1 \<Longrightarrow> same_stack m1 m2 \<Longrightarrow> same_stack m m2"
  by (simp add: same_stack_def)

lemma same_stack_rooted: "same_stack m m' \<Longrightarrow> slot_rooted m' = slot_rooted m"
  by (intro ext) (simp add: same_stack_def slot_rooted_def)

lemma recolored_stack: "recolored m m' \<Longrightarrow> same_stack m m'"
  by (simp add: same_stack_def recolored_fields frame_width_def recolored_body fun_eq_iff)

lemma plain_body_stack:
  assumes "deref m a \<noteq> None" "plain_body (body_of m a)" "plain_body b"
  shows "same_stack m (set_body m a b)"
proof -
  have "plain_body c \<Longrightarrow> (case c of OBJECT_SUBROUTINE upvalues (Some registers) owner \<Rightarrow> registers
      | _ \<Rightarrow> 0) = 0" for c
    by (simp add: plain_body_def split: LhatBody.splits)
  then show ?thesis
    using assms(2,3) by (simp add: same_stack_def fun_eq_iff frame_width_def set_body_reads(2) [OF assms(1)])
qed

lemma inert_stack:
  assumes "deref m a \<noteq> None" "inert (body_of m a)" "inert b"
  shows "same_stack m (lhat_gc_barrier (set_body m a b) a v)"
    "same_stack m (lhat_gc_barrier_back (set_body m a b) a v)" "same_stack m (set_body m a b)"
proof -
  show s: "same_stack m (set_body m a b)"
    by (rule plain_body_stack [OF assms(1) inert_facts(1) [OF assms(2)] inert_facts(1) [OF assms(3)]])
  show "same_stack m (lhat_gc_barrier (set_body m a b) a v)"
    "same_stack m (lhat_gc_barrier_back (set_body m a b) a v)"
    using s same_stack_trans recolored_stack [OF forward.recolors] recolored_stack [OF backward.recolors]
    by blast+
qed

text \<open>A rooted slot holds a live value.\<close>

lemma rooted_live:
  assumes "gc_ok m" "slot_rooted m i"
  shows "value_live m (slots_get (m_slots m) i)"
  unfolding value_live_def
proof (intro allI impI)
  fix c assume c: "value_ref (slots_get (m_slots m) i) = Some c"
  obtain f where f: "f \<in> set (m_frames m)" "fr_base f \<le> i" "i < fr_base f + frame_width m f"
    using assms(2) by (auto simp: slot_rooted_def)
  have "Some c \<in> set (frame_roots m f)"
    unfolding c [symmetric] frame_roots_def using f(2,3)
    by (auto simp: image_iff intro!: bexI [of _ "i - fr_base f"])
  then have "c \<in> roots m" using f(1) by (auto simp: roots_def root_refs_def)
  then show "live m c" using assms(1) by (simp add: gc_ok_def heap_closed_def)
qed

subsection \<open>Making an object\<close>

lemma alloc_run:
  assumes "run_ok m" "may_alloc m body" "\<And>i cell su. body \<noteq> OBJECT_UPVALUE (PLACE_SLOT i) cell su"
  shows "run_ok (snd (object_alloc m body))"
proof -
  let ?m = "snd (object_alloc m body)"
  have g: "gc_ok m" "open_ok m" using assms(1) by (simp_all add: run_ok_def)
  have "body_of m (length (m_memory m)) = OBJECT_STRING" by (simp add: body_of_def alloc_reads(2))
  then have "open_at ?m = open_at m"
    using assms(3)
    by (intro ext) (auto simp: open_at_def alloc_reads(4) split: LhatBody.splits LhatPlace.splits)
  then have "open_ok ?m = open_ok m" by (rule open_ok_cong) (simp add: alloc_reads)
  then show ?thesis using g alloc_ok [OF g(1) assms(2)] by (simp add: run_ok_def)
qed

lemma white_of_ok: "gc_ok m \<Longrightarrow> is_white (m_white m)"
  by (simp add: gc_ok_def heap_wf_def)

text \<open>An object made into a register.\<close>

definition new_object :: "Machine \<Rightarrow> nat \<Rightarrow> LhatBody \<Rightarrow> Machine" where
  "new_object m slot body =
     (case object_alloc m body of (a, m1) \<Rightarrow> set_register m1 slot (VALUE_OBJECT (Some a)))"

lemma new_object_run:
  assumes "run_ok m" "may_alloc m body" "\<And>i cell su. body \<noteq> OBJECT_UPVALUE (PLACE_SLOT i) cell su"
  shows "run_ok (new_object m slot body)"
proof -
  have g: "gc_ok m" using assms(1) by (simp add: run_ok_def)
  have "run_ok (set_register (snd (object_alloc m body)) slot (VALUE_OBJECT (Some (length (m_memory m)))))"
    by (rule set_register_run [OF alloc_run [OF assms]])
       (simp add: value_live_def alloc_live [OF white_of_ok [OF g]])
  then show ?thesis using alloc_reads(1) by (simp add: new_object_def split: prod.splits) (metis fst_conv snd_conv)
qed

subsection \<open>The list of open upvalues\<close>

lemma open_grow:
  assumes "gc_ok m" "\<And>u. u \<in> set us \<Longrightarrow> u \<in> set (m_open m) \<or> live m u"
  shows "gc_ok (m\<lparr>m_open := us\<rparr>)"
proof (rule roots_ok [OF assms(1) open_same])
  let ?m = "m\<lparr>m_open := us\<rparr>"
  have b: "body_of ?m = body_of m" by (rule same_objects_reads(2) [OF open_same])
  have "frame_roots ?m = frame_roots m" by (intro ext) (simp add: frame_roots_def frame_width_def b)
  then have "set (root_refs ?m) \<subseteq> set (root_refs m) \<union> Some ` set us"
    by (auto simp: root_refs_def)
  then show "live m a" if "a \<in> roots ?m" for a
    using that assms(1) assms(2) [of a] open_live [OF assms(1), of a]
    by (auto simp: roots_def gc_ok_def heap_closed_def)
  show "upvalues_ok ?m"
    using same_frames_upvalues [OF open_same [of m us]] assms(1) by (simp add: gc_ok_def heap_wf_def)
qed

lemma vm_capture_run:
  assumes "run_ok m" "slot_rooted m slot"
  shows "run_ok (snd (vm_capture m slot))"
proof -
  define hi where "hi = takeWhile (\<lambda>u. slot < open_slot m u) (m_open m)"
  define rest where "rest = dropWhile (\<lambda>u. slot < open_slot m u) (m_open m)"
  have g: "gc_ok m" "open_ok m" using assms(1) by (simp_all add: run_ok_def)
  have app: "m_open m = hi @ rest" by (simp add: hi_def rest_def)
  show ?thesis
  proof (cases "rest \<noteq> [] \<and> open_slot m (hd rest) = slot")
    case True
    then have "snd (vm_capture m slot) = m" by (simp add: vm_capture_def Let_def rest_def)
    then show ?thesis using assms(1) by simp
  next
    case False
    let ?b = "OBJECT_UPVALUE (PLACE_SLOT slot) VALUE_NIL None" and ?u = "length (m_memory m)"
    let ?m1 = "snd (object_alloc m ?b)"
    have eq: "snd (vm_capture m slot) = ?m1\<lparr>m_open := hi @ ?u # rest\<rparr>" (is "_ = ?m2")
      using False alloc_reads(1) [of m ?b] unfolding vm_capture_def Let_def rest_def [symmetric] hi_def [symmetric]
      by (simp add: if_not_P split: prod.splits) (metis fst_conv snd_conv)
    have ma: "may_alloc m ?b"
      using rooted_live [OF g(1) assms(2)] assms(2)
      by (auto simp: may_alloc_def body_refs_def object_refs_def ref_get_def upvalue_fits_def value_live_def)
    have g1: "gc_ok ?m1" by (rule alloc_ok [OF g(1) ma])
    note l = alloc_live [OF white_of_ok [OF g(1)], of ?b]
    have "gc_ok ?m2"
      by (rule open_grow [OF g1]) (auto simp: alloc_reads(12) app l)
    moreover have "open_ok ?m2"
    proof -
      have at: "open_at ?m2 x = (if x = ?u then Some slot else open_at m x)" for x
        unfolding open_at_body [OF same_objects_reads(2) [OF open_same]]
        by (simp add: open_at_def alloc_reads(4))
      have mem: "open_at m x \<noteq> None \<longleftrightarrow> x \<in> set (m_open m)" for x using g(2) by (simp add: open_ok_def)
      have fresh: "?u \<notin> set (m_open m)"
        using mem [of ?u] by (simp add: open_at_def body_of_def alloc_reads(2))
      have s: "sorted_wrt (\<lambda>u w. open_slot m w < open_slot m u) (hi @ rest)"
        using g(2) app by (simp add: open_ok_def)
      have os: "open_slot ?m2 x = (if x = ?u then slot else open_slot m x)" for x
        by (simp add: open_slot_at at)
      have hi: "slot < open_slot m x" if "x \<in> set hi" for x
        using that unfolding hi_def by (rule set_takeWhileD [THEN conjunct2])
      have lo: "open_slot m x < slot" if "x \<in> set rest" for x
      proof (cases rest)
        case (Cons y ys)
        then have "\<not> slot < open_slot m y"
          using hd_dropWhile [of "\<lambda>u. slot < open_slot m u" "m_open m"] by (simp add: rest_def)
        then have "open_slot m y < slot" using False Cons by auto
        moreover have "open_slot m x \<le> open_slot m y"
          using that s Cons by (auto simp: sorted_wrt_append)
        ultimately show ?thesis by simp
      qed (use that in simp)
      have "sorted_wrt (\<lambda>u w. open_slot ?m2 w < open_slot ?m2 u) (hi @ ?u # rest)"
        unfolding sorted_wrt_append
      proof (intro conjI)
        have oh: "\<And>x. x \<in> set hi \<Longrightarrow> open_slot ?m2 x = open_slot m x"
          and orr: "\<And>x. x \<in> set rest \<Longrightarrow> open_slot ?m2 x = open_slot m x"
          and ou: "open_slot ?m2 ?u = slot"
          using fresh app by (auto simp: os)
        have sh: "sorted_wrt (\<lambda>u w. open_slot m w < open_slot m u) hi"
          and sr: "sorted_wrt (\<lambda>u w. open_slot m w < open_slot m u) rest"
          and cr: "\<And>x y. x \<in> set hi \<Longrightarrow> y \<in> set rest \<Longrightarrow> open_slot m y < open_slot m x"
          using s unfolding sorted_wrt_append by blast+
        show "sorted_wrt (\<lambda>u w. open_slot ?m2 w < open_slot ?m2 u) hi"
          by (rule sorted_wrt_mono_rel [OF _ sh]) (simp add: oh)
        have "sorted_wrt (\<lambda>u w. open_slot ?m2 w < open_slot ?m2 u) rest"
          by (rule sorted_wrt_mono_rel [OF _ sr]) (simp add: orr)
        then show "sorted_wrt (\<lambda>u w. open_slot ?m2 w < open_slot ?m2 u) (?u # rest)"
          using lo by (simp add: orr ou)
        show "\<forall>x \<in> set hi. \<forall>y \<in> set (?u # rest). open_slot ?m2 y < open_slot ?m2 x"
          using cr hi by (simp add: oh orr ou)
      qed
      then show ?thesis using mem fresh app by (auto simp: open_ok_def at)
    qed
    ultimately show ?thesis by (simp only: eq run_ok_def)
  qed
qed

subsection \<open>Frames\<close>

lemma frames_same: "same_objects m (m\<lparr>m_frames := fs\<rparr>)"
  by (simp add: same_objects_def)

lemma frames_open: "open_ok (m\<lparr>m_frames := fs\<rparr>) = open_ok m"
  by (rule open_ok_cong [OF open_at_body [OF same_objects_reads(2) [OF frames_same]]]) simp

lemma frames_reads:
  "frame_width (m\<lparr>m_frames := fs\<rparr>) = frame_width m" "frame_roots (m\<lparr>m_frames := fs\<rparr>) = frame_roots m"
proof -
  have b: "body_of (m\<lparr>m_frames := fs\<rparr>) = body_of m" by (rule same_objects_reads(2) [OF frames_same])
  show w: "frame_width (m\<lparr>m_frames := fs\<rparr>) = frame_width m" by (intro ext) (simp add: frame_width_def b)
  show "frame_roots (m\<lparr>m_frames := fs\<rparr>) = frame_roots m" by (intro ext) (simp add: frame_roots_def w)
qed

text \<open>A frame that may be pushed: what it holds is live, and so is every slot it covers.\<close>

definition frame_fits :: "Machine \<Rightarrow> Frame \<Rightarrow> bool" where
  "frame_fits m f \<longleftrightarrow>
     live m (fr_closure f) \<and> (\<forall>co. fr_coroutine f = Some co \<longrightarrow> live m co) \<and> fr_answer f = VALUE_NIL \<and>
     (\<forall>r < frame_width m f. value_live m (slots_get (m_slots m) (fr_base f + r)))"

lemma push_frame_run:
  assumes "run_ok m" "frame_fits m f"
  shows "run_ok (m\<lparr>m_frames := m_frames m @ [f]\<rparr>)" (is "run_ok ?m")
proof -
  have g: "gc_ok m" "open_ok m" using assms(1) by (simp_all add: run_ok_def)
  have fl: "live m c" if "Some c \<in> set (frame_roots m f)" for c
    using that assms(2) by (auto simp: frame_roots_def frame_fits_def value_live_def)
  have "gc_ok ?m"
  proof (rule roots_ok [OF g(1) frames_same])
    show "live m c" if "c \<in> roots ?m" for c
    proof -
      have "c \<in> roots m \<or> Some c \<in> set (frame_roots m f)"
        using that by (auto simp: roots_def root_refs_def frames_reads)
      then show ?thesis using fl g(1) by (auto simp: gc_ok_def heap_closed_def)
    qed
    have sr: "slot_rooted m i \<Longrightarrow> slot_rooted ?m i" for i by (auto simp: slot_rooted_def frames_reads)
    show "upvalues_ok ?m"
      unfolding upvalues_ok_def same_objects_reads [OF frames_same]
    proof (intro allI impI)
      fix u place cell su assume u: "deref m u \<noteq> None" "body_of m u = OBJECT_UPVALUE place cell su"
      have "upvalues_ok m" using g(1) by (simp add: gc_ok_def heap_wf_def)
      then have f: "u \<in> set (m_objects m)"
        "case place of PLACE_SLOT i \<Rightarrow> slot_rooted m i | PLACE_SAVED co i \<Rightarrow> su = Some co | _ \<Rightarrow> True"
        using u unfolding upvalues_ok_def by blast+
      then show "u \<in> set (m_objects ?m) \<and> (case place of PLACE_SLOT i \<Rightarrow> slot_rooted ?m i
          | PLACE_SAVED co i \<Rightarrow> su = Some co | _ \<Rightarrow> True)"
        using sr by (cases place) simp_all
    qed
  qed
  then show ?thesis using g(2) by (simp add: run_ok_def frames_open)
qed

lemma pop_frame_run:
  assumes "run_ok m" "m_frames m \<noteq> []"
    "\<And>u i. open_at m u = Some i \<Longrightarrow> i < fr_base (last (m_frames m))"
  shows "run_ok (m\<lparr>m_frames := butlast (m_frames m)\<rparr>)" (is "run_ok ?m")
proof -
  have g: "gc_ok m" "open_ok m" using assms(1) by (simp_all add: run_ok_def)
  have sub: "set (butlast (m_frames m)) \<subseteq> set (m_frames m)" by (auto dest: in_set_butlastD)
  have all: "set (m_frames m) = insert (last (m_frames m)) (set (butlast (m_frames m)))"
    using arg_cong [where f = set, OF append_butlast_last_id [OF assms(2)]] by auto
  have "gc_ok ?m"
  proof (rule roots_ok [OF g(1) frames_same])
    show "live m c" if "c \<in> roots ?m" for c
    proof -
      have "c \<in> roots m"
        using that sub by (auto simp: roots_def root_refs_def frames_reads)
      then show ?thesis using g(1) by (auto simp: gc_ok_def heap_closed_def)
    qed
    show "upvalues_ok ?m"
      unfolding upvalues_ok_def same_objects_reads [OF frames_same]
    proof (intro allI impI)
      fix u place cell su assume u: "deref m u \<noteq> None" "body_of m u = OBJECT_UPVALUE place cell su"
      have "upvalues_ok m" using g(1) by (simp add: gc_ok_def heap_wf_def)
      then have f: "u \<in> set (m_objects m)"
        "case place of PLACE_SLOT i \<Rightarrow> slot_rooted m i | PLACE_SAVED co i \<Rightarrow> su = Some co | _ \<Rightarrow> True"
        using u unfolding upvalues_ok_def by blast+
      have "slot_rooted ?m i" if p: "place = PLACE_SLOT i" for i
      proof -
        have "i < fr_base (last (m_frames m))"
          using u(2) p by (intro assms(3) [of u]) (simp add: open_at_def)
        moreover have "slot_rooted m i" using f(2) p by simp
        ultimately show ?thesis unfolding slot_rooted_def frames_reads by (auto simp: all)
      qed
      then show "u \<in> set (m_objects ?m) \<and> (case place of PLACE_SLOT i \<Rightarrow> slot_rooted ?m i
          | PLACE_SAVED co i \<Rightarrow> su = Some co | _ \<Rightarrow> True)"
        using f by (cases place) simp_all
    qed
  qed
  then show ?thesis using g(2) by (simp add: run_ok_def frames_open)
qed

subsection \<open>Calling and returning\<close>

lemma register_reads:
  "live (set_register m i v) = live m" "body_of (set_register m i v) = body_of m"
  "m_frames (set_register m i v) = m_frames m" "m_open (set_register m i v) = m_open m"
  "frame_width (set_register m i v) = frame_width m"
  "length (m_slots (set_register m i v)) = length (m_slots m)" "m_objects (set_register m i v) = m_objects m"
proof -
  note r = same_objects_reads [OF register_same [of m i v]]
  show "live (set_register m i v) = live m" "body_of (set_register m i v) = body_of m" by (rule r)+
  show "frame_width (set_register m i v) = frame_width m" by (intro ext) (simp add: frame_width_def r)
  show "m_frames (set_register m i v) = m_frames m" "m_open (set_register m i v) = m_open m"
    "length (m_slots (set_register m i v)) = length (m_slots m)"
    "m_objects (set_register m i v) = m_objects m"
    by (simp_all add: set_register_def)
qed

lemma register_get:
  "slots_get (m_slots (set_register m i v)) j =
     (if i = j \<and> j < length (m_slots m) then v else slots_get (m_slots m) j)"
  by (auto simp: set_register_def slots_get_def)

text \<open>A run of registers.\<close>

definition set_registers :: "Machine \<Rightarrow> nat \<Rightarrow> (nat \<Rightarrow> LhatValue) \<Rightarrow> nat \<Rightarrow> Machine" where
  "set_registers m base g n = foldl (\<lambda>m i. set_register m (base + i) (g i)) m [0..<n]"

lemma set_registers_Suc:
  "set_registers m base g 0 = m"
  "set_registers m base g (Suc n) = set_register (set_registers m base g n) (base + n) (g n)"
  by (simp_all add: set_registers_def)

lemma set_registers_reads:
  "live (set_registers m base g n) = live m" "body_of (set_registers m base g n) = body_of m"
  "m_frames (set_registers m base g n) = m_frames m" "m_open (set_registers m base g n) = m_open m"
  "frame_width (set_registers m base g n) = frame_width m"
  "length (m_slots (set_registers m base g n)) = length (m_slots m)"
  "m_objects (set_registers m base g n) = m_objects m"
  by (induction n) (simp_all add: set_registers_Suc register_reads)

lemma set_registers_get:
  "r < n \<Longrightarrow> slots_get (m_slots (set_registers m base g n)) (base + r) \<in> {g r, VALUE_NIL}"
proof (induction n)
  case (Suc n)
  show ?case
  proof (cases "r = n")
    case True
    then show ?thesis
      by (simp add: set_registers_Suc register_get) (simp add: slots_get_def)
  next
    case False
    then show ?thesis using Suc by (simp add: set_registers_Suc register_get)
  qed
qed simp

lemma value_live_registers: "value_live (set_registers m base g n) v = value_live m v"
  by (simp add: value_live_def set_registers_reads)

lemma set_registers_run:
  "run_ok m \<Longrightarrow> (\<And>i. i < n \<Longrightarrow> value_live m (g i)) \<Longrightarrow> run_ok (set_registers m base g n)"
proof (induction n)
  case (Suc n)
  have "value_live (set_registers m base g n) (g n)" using Suc.prems(2) by (simp add: value_live_registers)
  then show ?case unfolding set_registers_Suc using Suc by (intro set_register_run) simp_all
qed (simp add: set_registers_Suc)

lemma fill_slots_is: "fill_slots m base vs = set_registers m base (\<lambda>i. vs ! i) (length vs)"
  by (simp add: fill_slots_def set_registers_def)

lemma enter_frame_run:
  assumes "run_ok m" "live m closure" "\<And>v. v \<in> set arguments \<Longrightarrow> value_live m v"
  shows "run_ok (enter_frame m closure base arguments)"
proof -
  let ?f = "\<lparr>fr_closure = closure, fr_coroutine = None, fr_base = base, fr_answer = VALUE_NIL,
      fr_answer_run = []\<rparr>"
  let ?vs = "arguments @ replicate (frame_width m ?f - length arguments) VALUE_NIL"
  let ?m = "set_registers m base (\<lambda>i. ?vs ! i) (length ?vs)"
  have v: "value_live m (?vs ! i)" if "i < length ?vs" for i
    using that assms(3) by (cases "i < length arguments") (auto simp: nth_append value_live_def [of m VALUE_NIL])
  have r: "run_ok ?m" by (rule set_registers_run [OF assms(1) v])
  have "value_live ?m (slots_get (m_slots ?m) (base + i))" if "i < frame_width m ?f" for i
  proof -
    have i: "i < length ?vs" using that by simp
    have "slots_get (m_slots ?m) (base + i) \<in> {?vs ! i, VALUE_NIL}" by (rule set_registers_get [OF i])
    then show ?thesis
      using v [OF i] value_live_def [of m VALUE_NIL] unfolding value_live_registers by auto
  qed
  then have "frame_fits ?m ?f" using assms(2) by (simp add: frame_fits_def set_registers_reads)
  from push_frame_run [OF r this] show ?thesis by (simp add: enter_frame_def fill_slots_is Let_def)
qed

lemma close_frames: "m_frames (close_into_cell m u) = m_frames m"
  using recolored_fields(7) [OF forward.recolors]
  by (simp add: close_into_cell_def Let_def split: LhatBody.splits)

lemma close_upvalues_frames: "m_frames (vm_close_upvalues m lowest) = m_frames m"
proof (induction m lowest rule: vm_close_upvalues.induct)
  case (1 m lowest)
  then show ?case by (subst vm_close_upvalues.simps) (simp add: close_frames)
qed

text \<open>The number of waiting coroutines is nothing that the collector follows.\<close>

lemma carriers_run:
  "run_ok (m\<lparr>m_cleanup_carriers := n\<rparr>) = run_ok m" "live (m\<lparr>m_cleanup_carriers := n\<rparr>) = live m"
  "body_of (m\<lparr>m_cleanup_carriers := n\<rparr>) = body_of m" "deref (m\<lparr>m_cleanup_carriers := n\<rparr>) = deref m"
proof -
  let ?m = "m\<lparr>m_cleanup_carriers := n\<rparr>"
  have h: "same_heap m ?m" by (simp add: same_heap_def)
  note f = same_heap_refs [OF h]
  have o: "m_objects ?m = m_objects m" "m_white ?m = m_white m" "m_gray ?m = m_gray m"
    "m_gcstate ?m = m_gcstate m" "m_sweep ?m = m_sweep m" "m_open ?m = m_open m" by simp_all
  have "root_refs ?m = root_refs m" by (simp add: root_refs_def f)
  then have r: "roots ?m = roots m" by (simp add: roots_def)
  have w: "weak_refs ?m = weak_refs m" by (simp add: weak_refs_def)
  have "heap_closed ?m = heap_closed m" by (simp only: heap_closed_def same_heap_live [OF h] r w f)
  moreover have "phase_ok ?m = phase_ok m"
    by (simp only: phase_ok_def gray_ok_def tricolor_def marking_colors_def sweep_colors_def f o)
  moreover have "open_ok ?m = open_ok m" by (rule open_ok_cong [OF open_at_body [OF f(2)] o(6)])
  ultimately show "run_ok ?m = run_ok m" by (simp only: run_ok_def gc_ok_def same_heap_wf [OF h])
  show "live ?m = live m" by (rule same_heap_live [OF h])
  show "body_of ?m = body_of m" "deref ?m = deref m" by (rule f)+
qed

text \<open>Nor is the state of a coroutine, whose object is written without a barrier.\<close>

lemma coroutine_state_run:
  assumes "deref m co \<noteq> None" "body_of m co = OBJECT_COROUTINE source frame walking held captures"
    "cf_registers frame' = cf_registers frame" "cf_closure frame' = cf_closure frame"
  defines "m' \<equiv> set_body m co (OBJECT_COROUTINE source frame' walking held captures)"
  shows "run_ok m' = run_ok m" "same_stack m m'" "live m' = live m" "m_open m' = m_open m"
    "open_at m' = open_at m"
proof -
  let ?b = "OBJECT_COROUTINE source frame' walking held captures"
  note r = set_body_reads [OF assms(1), of ?b, folded m'_def]
  have o: "m_objects m' = m_objects m" "m_white m' = m_white m" "m_gray m' = m_gray m"
    "m_gcstate m' = m_gcstate m" "m_sweep m' = m_sweep m" "m_open m' = m_open m"
    by (simp_all add: m'_def)
  have l: "live m' = live m" by (intro ext) (rule r(5))
  have sl: "m_slots m' = m_slots m" by (simp add: m'_def)
  have "ref_get m' p v = ref_get m p v" for p v
  proof (cases p)
    case (PLACE_SAVED c i)
    then show ?thesis by (cases "c = co") (simp_all add: ref_get_def r(2) assms(2,3))
  qed (simp_all add: ref_get_def sl)
  then have rg: "ref_get m' = ref_get m" by blast
  have ob: "object_refs m' = object_refs m"
    by (intro ext) (simp add: object_refs_def rg split: LhatBody.splits)
  have "object_refs m (body_of m' x) = object_refs m (body_of m x)" for x
    by (simp add: r(2) assms(2-4) object_refs_def)
  then have re: "refs m' = refs m" by (intro ext) (simp add: refs_def ob)
  have "own_refs m' (body_of m' x) = own_refs m (body_of m x)" for x
    by (simp add: r(2) assms(2-4) own_refs_def object_refs_def rg split: LhatBody.splits LhatPlace.splits)
  note own = this
  have st: "same_stack m m'"
    unfolding m'_def by (rule plain_body_stack [OF assms(1)]) (simp_all add: assms(2) plain_body_def)
  then have fr: "m_frames m' = m_frames m" "frame_width m' = frame_width m" "m_slots m' = m_slots m"
    by (simp_all add: same_stack_def)
  have sr: "slot_rooted m' = slot_rooted m" by (rule same_stack_rooted [OF st])
  have "frame_roots m' = frame_roots m" by (intro ext) (simp add: frame_roots_def fr)
  moreover have "m_environment m' = m_environment m" "m_self_key m' = m_self_key m" "m_modules m' = m_modules m"
    "m_host_root m' = m_host_root m" "m_hostvalue_members m' = m_hostvalue_members m"
    "m_spare_coroutines m' = m_spare_coroutines m" "m_fault_value m' = m_fault_value m"
    "m_native_hold m' = m_native_hold m" "m_tuple_scratch m' = m_tuple_scratch m"
    "m_pending_dispose m' = m_pending_dispose m"
    by (simp_all add: m'_def set_body_def put_def)
  ultimately have "root_refs m' = root_refs m" by (simp add: root_refs_def fr(1) o)
  then have rt: "roots m' = roots m" by (simp add: roots_def)
  have wk: "weak_refs m' = weak_refs m" by (simp add: weak_refs_def m'_def set_body_def put_def)
  have c: "chunk_object m' = chunk_object m" by (intro ext) (simp only: chunk_object_def r o)
  have bs: "body_of m' x = OBJECT_SCRIPT g \<longleftrightarrow> body_of m x = OBJECT_SCRIPT g"
    "body_of m' x = OBJECT_UPVALUE p v su \<longleftrightarrow> body_of m x = OBJECT_UPVALUE p v su" for x g p v su
    by (simp_all add: r(2) assms(2))
  have "heap_wf m' = heap_wf m"
    by (simp only: heap_wf_def chunks_ok_def scripts_ok_def script_ok_def upvalues_ok_def c sr r(1,3) o re bs)
  moreover have "heap_closed m' = heap_closed m" by (simp only: heap_closed_def l rt wk re)
  moreover have "phase_ok m' = phase_ok m"
    by (simp only: phase_ok_def gray_ok_def tricolor_def marking_colors_def sweep_colors_def r(3,4) o own)
  moreover show oa: "open_at m' = open_at m"
    by (intro ext) (simp add: open_at_def r(2) assms(2))
  ultimately show "run_ok m' = run_ok m" using open_ok_cong [OF oa o(6)] by (simp only: run_ok_def gc_ok_def)
  show "same_stack m m'" "live m' = live m" "m_open m' = m_open m" by (rule st l o)+
qed

lemma coroutine_done_run:
  "run_ok (coroutine_done m co) = run_ok m" "same_stack m (coroutine_done m co)"
  "m_open (coroutine_done m co) = m_open m" "open_at (coroutine_done m co) = open_at m"
proof -
  have "run_ok (coroutine_done m co) = run_ok m \<and> same_stack m (coroutine_done m co) \<and>
      m_open (coroutine_done m co) = m_open m \<and> open_at (coroutine_done m co) = open_at m"
  proof (cases "\<exists>source frame walking held captures.
      body_of m co = OBJECT_COROUTINE source frame walking held captures")
    case True
    then obtain source frame walking held captures where
      b: "body_of m co = OBJECT_COROUTINE source frame walking held captures" by blast
    then have e: "deref m co \<noteq> None" by (auto simp: body_of_def split: option.splits)
    show ?thesis using coroutine_state_run [OF e b] by (simp add: coroutine_done_def b)
  next
    case False
    then have "coroutine_done m co = m" by (auto simp: coroutine_done_def split: LhatBody.splits)
    then show ?thesis by (simp add: same_stack_def)
  qed
  then show "run_ok (coroutine_done m co) = run_ok m" "same_stack m (coroutine_done m co)"
    "m_open (coroutine_done m co) = m_open m" "open_at (coroutine_done m co) = open_at m" by blast+
qed

lemma fill_slots_run:
  "run_ok m \<Longrightarrow> (\<And>v. v \<in> set vs \<Longrightarrow> value_live m v) \<Longrightarrow> run_ok (fill_slots m base vs)"
  unfolding fill_slots_is by (rule set_registers_run) simp_all

lemma close_open_at: "open_at (close_into_cell m u) x = Some i \<Longrightarrow> open_at m x = Some i"
proof -
  assume a: "open_at (close_into_cell m u) x = Some i"
  show ?thesis
  proof (cases "\<exists>place cell su. body_of m u = OBJECT_UPVALUE place cell su")
    case True
    then obtain place cell su where b: "body_of m u = OBJECT_UPVALUE place cell su" by blast
    then have e: "deref m u \<noteq> None" by (auto simp: body_of_def split: option.splits)
    have "open_at (close_into_cell m u) x =
        open_at (set_body m u (OBJECT_UPVALUE PLACE_CELL (ref_get m place cell) su)) x"
      by (simp add: close_into_cell_def b Let_def open_recolored(1) [OF forward.recolors])
    then show ?thesis using a by (simp add: open_at_set_body [OF e] split: if_splits)
  next
    case False
    then have "close_into_cell m u = m" by (auto simp: close_into_cell_def split: LhatBody.splits)
    then show ?thesis using a by simp
  qed
qed

lemma close_upvalues_at: "open_at (vm_close_upvalues m lowest) u = Some i \<Longrightarrow> open_at m u = Some i"
proof (induction m lowest rule: vm_close_upvalues.induct)
  case (1 m lowest)
  show ?case
  proof (cases "m_open m \<noteq> [] \<and> lowest \<le> open_slot m (hd (m_open m))")
    case True
    with 1 have "open_at (close_into_cell (m\<lparr>m_open := tl (m_open m)\<rparr>) (hd (m_open m))) u = Some i"
      by (subst (asm) vm_close_upvalues.simps) simp
    then show ?thesis
      using close_open_at open_at_body [OF same_objects_reads(2) [OF open_same]] by metis
  next
    case False
    then have "vm_close_upvalues m lowest = m" by (subst vm_close_upvalues.simps) (rule if_not_P)
    then show ?thesis using 1(2) by simp
  qed
qed

text \<open>What a session's top level owes before it may go: no capture of one of the registers that
  outlive it is left open, since nothing makes them roots while no frame is there.\<close>

definition kept_unshared :: "Machine \<Rightarrow> nat \<Rightarrow> bool" where
  "kept_unshared m kept \<longleftrightarrow>
     (\<forall>u \<in> set (m_open m). open_slot m u < fr_base (last (m_frames m)) \<or>
        fr_base (last (m_frames m)) + kept \<le> open_slot m u)"

lemma leave_frame_run:
  assumes "run_ok m" "m_frames m \<noteq> []" "kept_unshared m kept"
  shows "run_ok (leave_frame m kept outermost answer)"
proof -
  let ?f = "last (m_frames m)"
  let ?m1 = "case fr_coroutine ?f of Some co \<Rightarrow> coroutine_done m co | None \<Rightarrow> m"
  let ?m2 = "vm_close_upvalues ?m1 (fr_base ?f + kept)"
  let ?m3 = "?m2\<lparr>m_frames := butlast (m_frames ?m2)\<rparr>"
  have m1: "run_ok ?m1" "m_frames ?m1 = m_frames m" "m_open ?m1 = m_open m" "open_at ?m1 = open_at m"
    using assms(1) coroutine_done_run [of m] by (simp_all add: same_stack_def split: option.split)
  have m2: "run_ok ?m2" by (rule close_upvalues_run [OF m1(1)])
  have fr: "m_frames ?m2 = m_frames m" by (simp add: close_upvalues_frames m1(2))
  have "run_ok ?m3"
  proof (rule pop_frame_run [OF m2])
    show "m_frames ?m2 \<noteq> []" using assms(2) by (simp add: fr)
    fix u i assume u: "open_at ?m2 u = Some i"
    then have i: "i < fr_base ?f + kept" by (rule close_upvalues_done [OF m1(1)])
    have at: "open_at m u = Some i" using close_upvalues_at [OF u] by (simp add: m1(4))
    have "open_ok m" using assms(1) by (simp add: run_ok_def)
    then have "u \<in> set (m_open m)" using at unfolding open_ok_def by blast
    then show "i < fr_base (last (m_frames ?m2))"
      using assms(3) i at by (auto simp: fr kept_unshared_def open_slot_at)
  qed
  moreover have "value_live ?m3 VALUE_NIL" by (simp add: value_live_def)
  ultimately have "run_ok (fill_slots ?m3 (fr_base ?f + kept) (replicate (frame_width m ?f - kept) VALUE_NIL))"
    by (intro fill_slots_run) (auto simp: value_live_def)
  then show ?thesis using \<open>run_ok ?m3\<close> by (simp add: leave_frame_def Let_def)
qed

end
