(* ===== verification/Lhat_Coroutine.thy ===== *)
theory Lhat_Coroutine
  imports Lhat_Stack
begin

text \<open>
  A yield and a resume keep the invariant.  A yield always does; a resume does where every capture
  on the coroutine's list is live, which nothing in the collector sees to.
\<close>

subsection \<open>Bodies that change nothing the collector follows\<close>

lemma barrier_nil: "lhat_gc_barrier m a VALUE_NIL = m"
  by (simp add: lhat_gc_barrier_def lhat_gc_reach_def reach_def)

definition coroutine_of :: "Machine \<Rightarrow> addr \<Rightarrow> bool" where
  "coroutine_of m co \<longleftrightarrow> (\<exists>source frame walking held captures.
     body_of m co = OBJECT_COROUTINE source frame walking held captures)"

text \<open>The parts of a coroutine that the collector does not read.\<close>

lemma coroutine_rest_run:
  fixes captures' :: "addr list"
  assumes "run_ok m" "owned m co"
    "body_of m co = OBJECT_COROUTINE source frame walking held captures"
    "cf_registers frame' = cf_registers frame" "cf_closure frame' = cf_closure frame"
  defines "m' \<equiv> set_body m co (OBJECT_COROUTINE source frame' walking held captures')"
  shows "run_ok m'" "same_stack m m'" "owned m' = owned m" "m_open m' = m_open m"
proof -
  let ?b = "OBJECT_COROUTINE source frame' walking held captures'"
  have e: "deref m co \<noteq> None" using assms(2) live_exists by (simp add: owned_def)
  have i: "inert (body_of m co)" "inert ?b" by (simp_all add: inert_def assms(3))
  have "run_ok (lhat_gc_barrier (set_body m co ?b) co VALUE_NIL)"
    by (rule inert_store(1) [OF assms(1,2) i])
       (auto simp: value_live_def object_refs_def assms(3-5))
  then show "run_ok m'" by (simp add: barrier_nil m'_def)
  show "same_stack m m'" unfolding m'_def by (rule inert_stack(3) [OF e i])
  show "owned m' = owned m" by (simp add: m'_def owned_def fun_eq_iff set_body_reads(5) [OF e])
  show "m_open m' = m_open m" by (simp add: m'_def)
qed

subsection \<open>Saving the registers\<close>

lemma barrier_back_owned:
  assumes "gc_ok n" "gc_ok (lhat_gc_barrier_back n a v)"
  shows "owned (lhat_gc_barrier_back n a v) = owned n"
proof -
  have "live (backward.barriers n a [v]) = live n"
    by (rule backward.barriers_live) (use assms in \<open>simp_all add: backward.barriers_def\<close>)
  then show ?thesis
    using recolored_fields(1) [OF backward.recolors, of n a v]
    by (simp add: owned_def fun_eq_iff backward.barriers_def)
qed

lemma recolored_live:
  assumes "recolored n n'" "gc_ok n'" "m_gcstate n = LHAT_GC_PROPAGATE" "deref n x \<noteq> None"
  shows "live n' x"
  using propagate_live [OF assms(2)] recolored_fields(4) [OF assms(1)] recolored_exists [OF assms(1)]
    assms(3,4) by simp

lemma saved_owned:
  assumes "run_ok m" "owned m co" "run_ok (lhat_gc_barrier_back (set_saved m co i v) co v)"
  shows "owned (lhat_gc_barrier_back (set_saved m co i v) co v) x \<longleftrightarrow> owned m x"
    "same_stack m (lhat_gc_barrier_back (set_saved m co i v) co v)"
    "m_open (lhat_gc_barrier_back (set_saved m co i v) co v) = m_open m"
    "register_count (lhat_gc_barrier_back (set_saved m co i v) co v) co = register_count m co"
proof -
  let ?s = "set_saved m co i v" and ?m = "lhat_gc_barrier_back (set_saved m co i v) co v"
  have e: "deref m co \<noteq> None" using assms(2) live_exists by (simp add: owned_def)
  have s: "?s = m \<or> (\<exists>source frame walking held captures.
      body_of m co = OBJECT_COROUTINE source frame walking held captures \<and>
      ?s = set_body m co (OBJECT_COROUTINE source (frame\<lparr>cf_registers := (cf_registers frame)[i := v]\<rparr>)
        walking held captures))"
    by (auto simp: set_saved_def split: LhatBody.splits)
  have ls: "live ?s = live m \<and> same_stack m ?s \<and> m_open ?s = m_open m \<and>
      register_count ?s co = register_count m co"
    using s
  proof
    assume "?s = m"
    then show ?thesis by (simp add: same_stack_def)
  next
    assume "\<exists>source frame walking held captures.
      body_of m co = OBJECT_COROUTINE source frame walking held captures \<and>
      ?s = set_body m co (OBJECT_COROUTINE source (frame\<lparr>cf_registers := (cf_registers frame)[i := v]\<rparr>)
        walking held captures)"
    then obtain source frame walking held captures where
      b: "body_of m co = OBJECT_COROUTINE source frame walking held captures"
      and q: "?s = set_body m co (OBJECT_COROUTINE source (frame\<lparr>cf_registers := (cf_registers frame)[i := v]\<rparr>)
        walking held captures)" by blast
    show ?thesis
      unfolding q using plain_body_stack [OF e]
      by (simp add: fun_eq_iff set_body_reads(2,5) [OF e] b plain_body_def register_count_def)
  qed
  have ds: "deref ?s x \<noteq> None \<longleftrightarrow> deref m x \<noteq> None" for x
    using s by (elim disjE exE conjE) (simp_all only: set_body_reads(1) [OF e])
  have r: "recolored ?s ?m" by (rule backward.recolors)
  have "live ?m x = live m x" for x
  proof (cases "m_gcstate m = LHAT_GC_PROPAGATE")
    case True
    have "m_gcstate ?m = LHAT_GC_PROPAGATE" using True recolored_fields(4) [OF r] by (simp add: saved_color)
    then show ?thesis
      using propagate_live [of ?m x] propagate_live [of m x] True assms(1,3) ds [of x]
        recolored_exists [OF r, of x] by (simp add: run_ok_def del: not_None_eq)
  next
    case False
    then have "?m = ?s" by (intro backward.idle) (simp add: saved_color)
    then show ?thesis by (simp add: ls)
  qed
  moreover have "m_objects ?m = m_objects m" using recolored_fields(1) [OF r] by (simp add: saved_color)
  ultimately show "owned ?m x \<longleftrightarrow> owned m x" by (simp add: owned_def)
  show "same_stack m ?m" by (rule same_stack_trans [OF conjunct1 [OF conjunct2 [OF ls]] recolored_stack [OF r]])
  show "m_open ?m = m_open m" by (simp add: ls)
  show "register_count ?m co = register_count m co"
    using ls recolored_body [OF r, of co] by (simp add: register_count_def)
qed

lemma save_registers_run:
  assumes "run_ok m" "owned m co" "\<And>i. i < n \<Longrightarrow> slot_rooted m (base + i)"
  defines "m' \<equiv> foldl (save_register co base) m [0..<n]"
  shows "run_ok m'" "owned m' co" "same_stack m m'" "m_open m' = m_open m"
    "register_count m' co = register_count m co"
proof -
  have "run_ok (foldl (save_register co base) m [0..<n]) \<and>
      owned (foldl (save_register co base) m [0..<n]) co \<and>
      same_stack m (foldl (save_register co base) m [0..<n]) \<and>
      m_open (foldl (save_register co base) m [0..<n]) = m_open m \<and>
      register_count (foldl (save_register co base) m [0..<n]) co = register_count m co"
    using assms(3)
  proof (induction n)
    case 0
    then show ?case using assms(1,2) by (simp add: same_stack_def)
  next
    case (Suc n)
    let ?m = "foldl (save_register co base) m [0..<n]"
    let ?v = "slots_get (m_slots ?m) (base + n)"
    have ih: "run_ok ?m" "owned ?m co" "same_stack m ?m" "m_open ?m = m_open m"
      "register_count ?m co = register_count m co"
      using Suc by simp_all
    have "slot_rooted ?m (base + n)" using Suc.prems [of n] same_stack_rooted [OF ih(3)] by simp
    then have v: "value_live ?m ?v" using ih(1) by (intro rooted_live) (simp_all add: run_ok_def)
    have r: "run_ok (lhat_gc_barrier_back (set_saved ?m co n ?v) co ?v)"
      by (rule set_saved_run(2) [OF ih(1,2) v])
    have eq: "foldl (save_register co base) m [0..<Suc n] = lhat_gc_barrier_back (set_saved ?m co n ?v) co ?v"
      by (simp add: save_register_def [of co base ?m n] Let_def)
    show ?case
      unfolding eq using r saved_owned [OF ih(1,2) r] ih same_stack_trans [OF ih(3)] by simp
  qed
  then show "run_ok m'" "owned m' co" "same_stack m m'" "m_open m' = m_open m"
    "register_count m' co = register_count m co" by (simp_all add: m'_def)
qed

subsection \<open>Retargeting the captures\<close>

lemma set_body_swap:
  assumes "a \<noteq> c"
  shows "set_body (set_body m a b) c d = set_body (set_body m c d) a b"
proof -
  have "deref (set_body m x y) z = deref m z" if "x \<noteq> z" for x y z
    using that by (simp add: set_body_def deref_put)
  then show ?thesis
    using assms by (simp add: set_body_def [of "set_body m _ _"])
      (simp add: set_body_def put_def list_update_swap)
qed

lemma set_body_open: "set_body (m\<lparr>m_open := us\<rparr>) a b = (set_body m a b)\<lparr>m_open := us\<rparr>"
  by (simp add: set_body_def put_def deref_def)

lemma open_reads:
  "body_of (m\<lparr>m_open := us\<rparr>) = body_of m" "deref (m\<lparr>m_open := us\<rparr>) = deref m"
  "live (m\<lparr>m_open := us\<rparr>) = live m" "owned (m\<lparr>m_open := us\<rparr>) = owned m"
  "same_stack m (m\<lparr>m_open := us\<rparr>)" "open_at (m\<lparr>m_open := us\<rparr>) = open_at m"
  using same_objects_reads [OF open_same [of m us]] open_at_body [of m "m\<lparr>m_open := us\<rparr>"]
  by (simp_all add: owned_def fun_eq_iff same_stack_def frame_width_def)

lemma open_slot_upvalue: "open_slot m u = i" if "body_of m u = OBJECT_UPVALUE (PLACE_SLOT i) cell su"
  using that by (simp add: open_slot_def)

lemma retarget_one_is:
  assumes "m_open m = u # us" "body_of m u = OBJECT_UPVALUE (PLACE_SLOT i) cell su"
    "body_of m co = OBJECT_COROUTINE source frame walking held captures"
    "deref m u \<noteq> None"
  shows "retarget_one m co base =
    lhat_gc_barrier (set_body ((set_body m co
        (OBJECT_COROUTINE source frame walking held (u # captures)))\<lparr>m_open := us\<rparr>) u
      (OBJECT_UPVALUE (PLACE_SAVED co (i - base)) cell (Some co))) u (VALUE_OBJECT (Some co))"
proof -
  let ?u = "OBJECT_UPVALUE (PLACE_SAVED co (i - base)) cell (Some co)"
  let ?c = "OBJECT_COROUTINE source frame walking held (u # captures)"
  have ne: "u \<noteq> co" using assms(2,3) by auto
  have 1: "set_upvalue_place (m\<lparr>m_open := us\<rparr>) u (PLACE_SAVED co (i - base)) (Some co) =
      (set_body m u ?u)\<lparr>m_open := us\<rparr>" (is "_ = ?m1")
    by (simp add: set_upvalue_place_def open_reads assms(2) set_body_open)
  have b: "body_of ?m1 co = OBJECT_COROUTINE source frame walking held captures"
    using ne by (simp add: open_reads set_body_reads(2) [OF assms(4)] assms(3))
  have 2: "set_captures ?m1 co (u # captures_of ?m1 co) = set_body ?m1 co ?c"
    by (simp add: set_captures_def captures_of_def b)
  show ?thesis
    unfolding retarget_one_def Let_def assms(1) list.sel open_slot_upvalue [OF assms(2)] 1 2
    by (simp add: set_body_open set_body_swap [OF ne])
qed

lemma retarget_one_run:
  fixes base :: nat
  assumes "run_ok m" "owned m co" "m_open m \<noteq> []" "coroutine_of m co"
  defines "m' \<equiv> retarget_one m co base"
  shows "run_ok m'" "owned m' co" "same_stack m m'" "coroutine_of m' co"
proof -
  obtain u us where o: "m_open m = u # us" using assms(3) by (cases "m_open m") auto
  have g: "gc_ok m" "open_ok m" using assms(1) by (simp_all add: run_ok_def)
  have u: "u \<in> set (m_open m)" by (simp add: o)
  obtain i cell su where b: "body_of m u = OBJECT_UPVALUE (PLACE_SLOT i) cell su"
    by (rule open_body [OF assms(1) u])
  obtain source frame walking held captures where
    c: "body_of m co = OBJECT_COROUTINE source frame walking held captures"
    using assms(4) by (auto simp: coroutine_of_def)
  have ne: "u \<noteq> co" using b c by auto
  let ?c = "OBJECT_COROUTINE source frame walking held (u # captures)"
  let ?m1 = "set_body m co ?c"
  let ?m2 = "?m1\<lparr>m_open := us\<rparr>"
  let ?b = "OBJECT_UPVALUE (PLACE_SAVED co (i - base)) cell (Some co)"
  let ?v = "VALUE_OBJECT (Some co)"
  have lu: "live m u" by (rule open_live [OF g(1) u])
  have lc: "live m co" "co \<in> set (m_objects m)" using assms(2) by (simp_all add: owned_def)
  have eu: "deref m u \<noteq> None" and ec: "deref m co \<noteq> None" using live_exists lu lc by blast+
  have eq: "m' = lhat_gc_barrier (set_body ?m2 u ?b) u ?v"
    unfolding m'_def by (rule retarget_one_is [OF o b c eu])
  note r1 = coroutine_rest_run [OF assms(1,2) c refl refl, of "u # captures"]
  have g1: "gc_ok ?m1" "open_ok ?m1" using r1(1) by (simp_all add: run_ok_def)
  have g2: "gc_ok ?m2" by (rule open_shrink [OF g1(1)]) (auto simp: o)
  have l2: "live ?m2 x = live m x" for x by (simp add: open_reads set_body_reads(5) [OF ec])
  have b2: "body_of ?m2 x = (if x = co then ?c else body_of m x)" for x
    by (simp add: open_reads set_body_reads(2) [OF ec])
  have e2: "deref ?m2 u \<noteq> None" using lu l2 [of u] live_exists by blast
  have bu: "body_of ?m2 u = OBJECT_UPVALUE (PLACE_SLOT i) cell su" using ne b by (simp add: b2)
  have mw: "may_write ?m2 u ?b"
    unfolding may_write_def
  proof (intro conjI ballI)
    show "u \<in> set (m_objects ?m2)" using upvalue_facts(1) [OF g(1) lu b] by simp
    show "live ?m2 u" using lu by (simp add: l2)
    show "plain_body (body_of ?m2 u)" "plain_body ?b" "upvalue_fits ?m2 ?b"
      by (simp_all add: bu plain_body_def upvalue_fits_def)
    fix x assume "x \<in> body_refs (set_body ?m2 u ?b) ?b"
    then have "x = co \<or> value_ref (ref_get (set_body ?m2 u ?b) (PLACE_SAVED co (i - base)) cell) = Some x"
      by (auto simp: body_refs_def object_refs_def)
    then show "live ?m2 x"
    proof
      assume "value_ref (ref_get (set_body ?m2 u ?b) (PLACE_SAVED co (i - base)) cell) = Some x"
      then have "value_ref (slots_get (cf_registers frame) (i - base)) = Some x"
        using ne by (simp add: ref_get_def set_body_reads(2) [OF e2] b2)
      then have "Some x \<in> value_ref ` set (cf_registers frame)"
        by (auto simp: slots_get_def image_iff split: if_splits intro!: bexI [OF _ nth_mem])
      then have "x \<in> refs m co" by (simp add: refs_def object_refs_def c)
      then show ?thesis using lc(1) g(1) unfolding gc_ok_def heap_closed_def l2 by blast
    qed (use lc l2 in simp)
  qed
  have sub: "body_own (set_body ?m2 u ?b) ?b \<subseteq>
      body_own ?m2 (body_of ?m2 u) \<union> {c. \<exists>w \<in> set [?v]. value_ref w = Some c}"
    by (auto simp: body_own_def own_refs_def)
  have gg: "gc_ok m'"
    using forward.store_ok [OF g2 mw sub] unfolding eq by (simp add: forward.barriers_def)
  have at: "open_at m' x = (if x = u then None else open_at m x)" for x
    unfolding eq open_recolored(1) [OF forward.recolors]
    using c by (simp add: open_at_set_body [OF e2] open_reads(6) open_at_set_body [OF ec]) (simp add: open_at_def)
  have "m_open m' = us" unfolding eq by simp
  then have "open_ok m'" by (intro open_taken [OF g(2) u _ at]) (simp add: o)
  then show "run_ok m'" using gg by (simp add: run_ok_def)
  have l': "live m' = live ?m2"
  proof -
    have "gc_ok (forward.barriers (set_body ?m2 u ?b) u [?v])" by (rule forward.store_ok [OF g2 mw sub])
    show ?thesis
    proof (cases "m_gcstate m = LHAT_GC_PROPAGATE")
      case True
      then have "m_gcstate ?m2 = LHAT_GC_PROPAGATE" "m_gcstate m' = LHAT_GC_PROPAGATE"
        unfolding eq using recolored_fields(4) [OF forward.recolors, of "set_body ?m2 u ?b" u ?v] by simp_all
      then show ?thesis
        using propagate_live [OF gg] propagate_live [OF g2] set_body_reads(1) [OF e2]
          recolored_exists [OF forward.recolors, of "set_body ?m2 u ?b" u ?v]
        unfolding eq by (intro ext) (simp del: not_None_eq)
    next
      case False
      then have "m' = set_body ?m2 u ?b" unfolding eq by (intro forward.idle) simp
      then show ?thesis by (simp add: fun_eq_iff set_body_reads(5) [OF e2])
    qed
  qed
  have "m_objects m' = m_objects m"
    unfolding eq using recolored_fields(1) [OF forward.recolors] by simp
  then show "owned m' co" using lc by (simp add: owned_def l' l2)
  have "same_stack ?m2 (set_body ?m2 u ?b)"
    by (rule plain_body_stack [OF e2]) (simp_all add: bu plain_body_def)
  then show "same_stack m m'"
    unfolding eq
    using same_stack_trans [OF same_stack_trans [OF r1(2) open_reads(5) [of ?m1 us]]]
      same_stack_trans recolored_stack [OF forward.recolors] by blast
  have "body_of m' co = ?c"
    unfolding eq recolored_body [OF forward.recolors] using ne by (simp add: set_body_reads(2) [OF e2] b2)
  then show "coroutine_of m' co" by (simp add: coroutine_of_def)
qed

lemma retarget_run:
  assumes "run_ok m" "owned m co" "coroutine_of m co"
  shows "run_ok (retarget m co base) \<and> owned (retarget m co base) co \<and>
    same_stack m (retarget m co base) \<and> coroutine_of (retarget m co base) co"
  using assms
proof (induction m co base rule: retarget.induct)
  case (1 m co base)
  show ?case
  proof (cases "m_open m \<noteq> [] \<and> base \<le> open_slot m (hd (m_open m))")
    case True
    note r = retarget_one_run [OF 1(2,3) conjunct1 [OF True] 1(4), of base]
    have "retarget m co base = retarget (retarget_one m co base) co base"
      using True by (subst retarget.simps) simp
    then show ?thesis using 1(1) [OF True r(1,2,4)] same_stack_trans [OF r(3)] by simp
  next
    case False
    then have "retarget m co base = m" by (subst retarget.simps) (rule if_not_P)
    then show ?thesis using 1 by (simp add: same_stack_def)
  qed
qed

lemma retarget_done:
  "run_ok m \<Longrightarrow> owned m co \<Longrightarrow> coroutine_of m co \<Longrightarrow> open_at (retarget m co base) u = Some i \<Longrightarrow> i < base"
proof (induction m co base rule: retarget.induct)
  case (1 m co base)
  show ?case
  proof (cases "m_open m \<noteq> [] \<and> base \<le> open_slot m (hd (m_open m))")
    case True
    note r = retarget_one_run [OF 1(2,3) conjunct1 [OF True] 1(4), of base]
    have "retarget m co base = retarget (retarget_one m co base) co base"
      using True by (subst retarget.simps) simp
    then show ?thesis using 1(1) [OF True r(1,2,4)] 1(5) by simp
  next
    case False
    then have "retarget m co base = m" by (subst retarget.simps) (rule if_not_P)
    then show ?thesis using 1(2,5) False by (intro sorted_below [of m base u i]) (auto simp: run_ok_def)
  qed
qed

lemma register_count_stack: "coroutine_of m co \<longleftrightarrow> (\<exists>source frame walking held captures.
     body_of m co = OBJECT_COROUTINE source frame walking held captures)"
  by (simp add: coroutine_of_def)

lemma save_register_coroutine:
  assumes "deref m co \<noteq> None" "coroutine_of m co"
  shows "coroutine_of (save_register co base m i) co"
proof -
  obtain source frame walking held captures where
    c: "body_of m co = OBJECT_COROUTINE source frame walking held captures"
    using assms(2) by (auto simp: coroutine_of_def)
  show ?thesis
    unfolding save_register_def Let_def coroutine_of_def recolored_body [OF backward.recolors]
    by (simp add: set_saved_def c set_body_reads(2) [OF assms(1)])
qed

lemma carriers_if:
  "run_ok (if c then m\<lparr>m_cleanup_carriers := n\<rparr> else m) = run_ok m"
  "open_at (if c then m\<lparr>m_cleanup_carriers := n\<rparr> else m) = open_at m"
  "m_frames (if c then m\<lparr>m_cleanup_carriers := n\<rparr> else m) = m_frames m"
  using open_at_body [OF carriers_run(3)] by (cases c; simp add: carriers_run(1))+

lemma yield_frame_run:
  assumes "run_ok m" "owned m co" "coroutine_of m co" "m_frames m \<noteq> []"
    "base = fr_base (last (m_frames m))" "register_count m co \<le> frame_width m (last (m_frames m))"
  shows "run_ok (yield_frame m co base into cleanups)"
proof -
  let ?f = "last (m_frames m)"
  have rooted: "slot_rooted m (base + i)" if "i < register_count m co" for i
    using that assms(4-6) unfolding slot_rooted_def by (intro bexI [of _ ?f]) auto
  let ?s = "save_registers m co base"
  have s: "run_ok ?s" "owned ?s co" "same_stack m ?s"
    unfolding save_registers_def by (rule save_registers_run [OF assms(1,2) rooted], assumption)+
  have cs: "coroutine_of (foldl (save_register co base) m [0..<n]) co" if "n \<le> register_count m co" for n
    using that
  proof (induction n)
    case 0
    then show ?case using assms(3) by simp
  next
    case (Suc n)
    have "owned (foldl (save_register co base) m [0..<n]) co"
      using Suc.prems rooted by (intro save_registers_run(2) [OF assms(1,2)]) simp
    then have "deref (foldl (save_register co base) m [0..<n]) co \<noteq> None"
      using live_exists by (simp add: owned_def)
    then show ?case using Suc save_register_coroutine by simp
  qed
  have c: "coroutine_of ?s co" using cs [of "register_count m co"] by (simp add: save_registers_def)
  let ?r = "retarget ?s co base"
  have r: "run_ok ?r" "owned ?r co" "same_stack ?s ?r" "coroutine_of ?r co"
    using retarget_run [OF s(1,2) c] by blast+
  obtain source frame walking held captures where
    b: "body_of ?r co = OBJECT_COROUTINE source frame walking held captures"
    using r(4) by (auto simp: coroutine_of_def)
  let ?z = "set_suspended ?r co into cleanups"
  let ?y = "if 0 < cleanups then ?z\<lparr>m_cleanup_carriers := m_cleanup_carriers ?z + 1\<rparr> else ?z"
  have eq: "?z = set_body ?r co (OBJECT_COROUTINE source
      (frame\<lparr>cf_sent_into := into, cf_state := LHAT_COROUTINE_SUSPENDED, cf_cleanup_count := cleanups\<rparr>)
      walking held captures)"
    by (simp add: set_suspended_def b)
  have z: "run_ok ?z" "same_stack ?r ?z"
    unfolding eq by (rule coroutine_rest_run [OF r(1,2) b], simp, simp)+
  have er: "deref ?r co \<noteq> None" using r(2) live_exists by (simp add: owned_def)
  have y: "run_ok ?y" "open_at ?y = open_at ?z" "m_frames ?y = m_frames ?z"
    using z(1) by (simp_all only: carriers_if)
  have fr: "m_frames ?y = m_frames m"
    using s(3) r(3) z(2) y(3) by (simp add: same_stack_def)
  have "run_ok (?y\<lparr>m_frames := butlast (m_frames ?y)\<rparr>)"
  proof (rule pop_frame_run [OF y(1)])
    show "m_frames ?y \<noteq> []" using assms(4) by (simp add: fr)
    fix u i assume "open_at ?y u = Some i"
    then have "open_at ?z u = Some i" by (simp only: y(2))
    then have "open_at ?r u = Some i" using b by (simp add: eq open_at_set_body [OF er] split: if_splits)
    then have "i < base" by (rule retarget_done [OF s(1,2) c])
    then show "i < fr_base (last (m_frames ?y))" unfolding fr using assms(5) by simp
  qed
  then show ?thesis by (simp only: yield_frame_def Let_def)
qed

subsection \<open>Resuming\<close>

definition saved_offset :: "Machine \<Rightarrow> addr \<Rightarrow> nat" where
  "saved_offset m u = (case body_of m u of OBJECT_UPVALUE (PLACE_SAVED co i) cell su \<Rightarrow> i | _ \<Rightarrow> 0)"

text \<open>The captures on a coroutine's list are there, aim into its registers, and come in ascending
  order above every open slot.\<close>

definition saved_capture :: "Machine \<Rightarrow> addr \<Rightarrow> nat \<Rightarrow> addr \<Rightarrow> bool" where
  "saved_capture m co base u \<longleftrightarrow> live m u \<and>
     (\<exists>off cell su. body_of m u = OBJECT_UPVALUE (PLACE_SAVED co off) cell su \<and> slot_rooted m (base + off))"

definition reattachable :: "Machine \<Rightarrow> addr \<Rightarrow> nat \<Rightarrow> bool" where
  "reattachable m co base \<longleftrightarrow>
     (\<forall>u \<in> set (captures_of m co). saved_capture m co base u) \<and>
     sorted_wrt (\<lambda>u w. saved_offset m u < saved_offset m w) (captures_of m co) \<and>
     (\<forall>w \<in> set (m_open m). \<forall>u \<in> set (captures_of m co). open_slot m w < base + saved_offset m u)"

lemma reattach_one_run:
  assumes "run_ok m" "owned m co" "coroutine_of m co" "captures_of m co = u # us" "reattachable m co base"
  obtains m' where "reattach_one m co base = Some m'" "run_ok m'" "owned m' co" "coroutine_of m' co"
    "captures_of m' co = us" "reattachable m' co base"
proof -
  have g: "gc_ok m" "open_ok m" using assms(1) by (simp_all add: run_ok_def)
  have lc: "live m co" "co \<in> set (m_objects m)" using assms(2) by (simp_all add: owned_def)
  have ec: "deref m co \<noteq> None" using lc live_exists by blast
  obtain source frame walking held captures where
    c: "body_of m co = OBJECT_COROUTINE source frame walking held captures"
    using assms(3) by (auto simp: coroutine_of_def)
  have cs: "captures = u # us" using assms(4) by (simp add: captures_of_def c)
  have ra: "\<And>w. w \<in> set (u # us) \<Longrightarrow> saved_capture m co base w"
      "sorted_wrt (\<lambda>u w. saved_offset m u < saved_offset m w) (u # us)"
      "\<And>w x. w \<in> set (m_open m) \<Longrightarrow> x \<in> set (u # us) \<Longrightarrow> open_slot m w < base + saved_offset m x"
    using assms(5) unfolding reattachable_def assms(4) by blast+
  obtain off cell su where b: "body_of m u = OBJECT_UPVALUE (PLACE_SAVED co off) cell su"
    and lu: "live m u" and ro: "slot_rooted m (base + off)"
    using ra(1) [of u] by (auto simp: saved_capture_def)
  have eu: "deref m u \<noteq> None" by (rule live_exists [OF lu])
  have ne: "u \<noteq> co" using b c by auto
  have du: "u \<notin> set us" using sorted_wrt_distinct [OF ra(2)] by auto
  let ?c = "OBJECT_COROUTINE source frame walking held us"
  let ?b = "OBJECT_UPVALUE (PLACE_SLOT (base + off)) cell None"
  let ?m1 = "set_body m co ?c"
  let ?m2 = "set_body ?m1 u ?b"
  let ?m' = "?m2\<lparr>m_open := u # m_open m\<rparr>"
  note r1 = coroutine_rest_run [OF assms(1,2) c refl refl, of us]
  have g1: "gc_ok ?m1" using r1(1) by (simp add: run_ok_def)
  have l1: "live ?m1 = live m" by (intro ext) (rule set_body_reads(5) [OF ec])
  have e1: "deref ?m1 u \<noteq> None" using lu l1 live_exists by metis
  have b1: "body_of ?m1 u = OBJECT_UPVALUE (PLACE_SAVED co off) cell su"
    using ne b by (simp add: set_body_reads(2) [OF ec])
  have ro1: "slot_rooted ?m1 (base + off)" using ro same_stack_rooted [OF r1(2)] by simp
  have mw: "may_write ?m1 u ?b"
    unfolding may_write_def
  proof (intro conjI ballI)
    show "u \<in> set (m_objects ?m1)" using upvalue_facts(1) [OF g(1) lu b] by simp
    show "live ?m1 u" using lu l1 by simp
    show "plain_body (body_of ?m1 u)" "plain_body ?b" "upvalue_fits ?m1 ?b"
      using ro1 by (simp_all add: b1 plain_body_def upvalue_fits_def)
    fix x assume "x \<in> body_refs ?m2 ?b"
    then have "value_ref (slots_get (m_slots ?m1) (base + off)) = Some x"
      by (auto simp: body_refs_def object_refs_def ref_get_def)
    then show "live ?m1 x" using rooted_live [OF g1 ro1] by (simp add: value_live_def)
  qed
  have "gc_ok (forward.barriers ?m2 u [])"
    by (rule forward.store_ok [OF g1 mw]) (simp add: body_own_def own_refs_def)
  then have g2: "gc_ok ?m2" by (simp add: forward.barriers_def)
  have l2: "live ?m2 = live m" by (simp add: fun_eq_iff set_body_reads(5) [OF e1] set_body_reads(5) [OF ec])
  have g': "gc_ok ?m'" by (rule open_grow [OF g2]) (auto simp: l2 lu)
  have bx: "body_of ?m' x = (if x = u then ?b else if x = co then ?c else body_of m x)" for x
    by (simp add: open_reads set_body_reads(2) [OF e1] set_body_reads(2) [OF ec])
  have at: "open_at ?m' x = (if x = u then Some (base + off) else open_at m x)" for x
    using c by (simp add: open_at_def bx)
  have slot: "open_slot ?m' x = (if x = u then base + off else open_slot m x)" for x
    by (simp add: open_slot_at at)
  have offu: "saved_offset m u = off" by (simp add: saved_offset_def b)
  have "open_at m u = None" using b by (simp add: open_at_def)
  moreover have "open_at m u \<noteq> None \<longleftrightarrow> u \<in> set (m_open m)" using g(2) unfolding open_ok_def by blast
  ultimately have nu: "u \<notin> set (m_open m)" by (simp del: not_None_eq)
  have o': "open_ok ?m'"
  proof -
    have "sorted_wrt (\<lambda>u w. open_slot m w < open_slot m u) (m_open m)" using g(2) by (simp add: open_ok_def)
    then have "sorted_wrt (\<lambda>u w. open_slot ?m' w < open_slot ?m' u) (m_open m)"
      by (rule sorted_wrt_mono_rel [rotated]) (use nu in \<open>auto simp: slot\<close>)
    moreover have "open_slot ?m' w < open_slot ?m' u" if "w \<in> set (m_open m)" for w
      using ra(3) [OF that, of u] that nu by (auto simp: slot offu)
    moreover have "open_at ?m' x \<noteq> None \<longleftrightarrow> x \<in> set (u # m_open m)" for x
      using g(2) by (auto simp: at open_ok_def)
    ultimately show ?thesis by (simp add: open_ok_def)
  qed
  have step: "reattach_one m co base = Some ?m'"
    using eu by (simp add: reattach_one_def Let_def captures_of_def c cs b set_captures_def
        set_upvalue_place_def b1)
  have st: "same_stack m ?m'"
    using same_stack_trans [OF r1(2)] plain_body_stack [OF e1, of ?b] same_stack_trans open_reads(5)
    by (simp add: b1 plain_body_def)
  have so: "saved_offset ?m' x = saved_offset m x" if "x \<in> set us" for x
    using that du ra(1) [of x] c by (auto simp: saved_offset_def bx saved_capture_def)
  have ca: "captures_of ?m' co = us" using ne by (simp add: captures_of_def bx)
  have "saved_capture ?m' co base x" if "x \<in> set us" for x
    using that du ra(1) [of x] c same_stack_rooted [OF st]
    by (auto simp: saved_capture_def bx open_reads(3) l2)
  moreover have "sorted_wrt (\<lambda>u w. saved_offset ?m' u < saved_offset ?m' w) us"
    using ra(2) by (auto intro!: sorted_wrt_mono_rel [of us "\<lambda>u w. saved_offset m u < saved_offset m w"] simp: so)
  moreover have "open_slot ?m' w < base + saved_offset ?m' x" if "w \<in> set (m_open ?m')" "x \<in> set us" for w x
  proof (cases "w = u")
    case True
    then show ?thesis using ra(2) that(2) so [OF that(2)] offu by (auto simp: slot)
  next
    case False
    then show ?thesis using ra(3) [of w x] that so [OF that(2)] by (simp add: slot)
  qed
  ultimately have re: "reattachable ?m' co base" unfolding reattachable_def ca by blast
  show ?thesis
  proof (rule that [OF step _ _ _ ca re])
    show "run_ok ?m'" using g' o' by (simp add: run_ok_def)
    show "owned ?m' co" using lc by (simp add: owned_def open_reads l2)
    show "coroutine_of ?m' co" using ne by (simp add: coroutine_of_def bx)
  qed
qed

lemma reattach_run:
  assumes "run_ok m" "owned m co" "coroutine_of m co" "reattachable m co base"
  shows "\<exists>m'. reattach_upvalues m co base = Some m' \<and> run_ok m' \<and> owned m' co \<and> coroutine_of m' co \<and>
    captures_of m' co = []"
  using assms
proof (induction "captures_of m co" arbitrary: m)
  case Nil
  then have "reattach_upvalues m co base = Some m" by (subst reattach_upvalues.simps) simp
  then show ?case using Nil by auto
next
  case (Cons u us)
  obtain m1 where r: "reattach_one m co base = Some m1" "run_ok m1" "owned m1 co" "coroutine_of m1 co"
    "captures_of m1 co = us" "reattachable m1 co base"
    by (rule reattach_one_run [OF Cons.prems(1-3) Cons.hyps(2) [symmetric] Cons.prems(4)])
  have "captures_of m co \<noteq> []" using Cons.hyps(2) by (metis list.distinct(1))
  then have "reattach_upvalues m co base = reattach_upvalues m1 co base"
    using r(1) by (subst reattach_upvalues.simps) simp
  then show ?case using Cons.hyps(1) [OF r(5) [symmetric] r(2-4,6)] by simp
qed

text \<open>The frame may be pushed before the captures are moved.\<close>

lemma set_body_frames: "set_body (m\<lparr>m_frames := fs\<rparr>) a b = (set_body m a b)\<lparr>m_frames := fs\<rparr>"
  by (simp add: set_body_def put_def deref_def)

lemma frames_body: "body_of (m\<lparr>m_frames := fs\<rparr>) = body_of m" "deref (m\<lparr>m_frames := fs\<rparr>) = deref m"
  using same_objects_reads [OF frames_same] by simp_all

lemma reattach_one_frames:
  "reattach_one (m\<lparr>m_frames := fs\<rparr>) co base = map_option (\<lambda>m. m\<lparr>m_frames := fs\<rparr>) (reattach_one m co base)"
proof -
  have c: "captures_of (m\<lparr>m_frames := fs\<rparr>) co = captures_of m co" by (simp add: captures_of_def frames_body)
  have s: "set_captures (m\<lparr>m_frames := fs\<rparr>) co us = (set_captures m co us)\<lparr>m_frames := fs\<rparr>" for us
    by (simp add: set_captures_def frames_body set_body_frames split: LhatBody.splits)
  have p: "set_upvalue_place (n\<lparr>m_frames := fs\<rparr>) u q w = (set_upvalue_place n u q w)\<lparr>m_frames := fs\<rparr>" for n u q w
    by (simp add: set_upvalue_place_def frames_body set_body_frames split: LhatBody.splits)
  show ?thesis
    unfolding reattach_one_def Let_def c s p frames_body
    by (simp split: LhatBody.splits LhatPlace.splits)
qed

lemma reattach_frames:
  "reattach_upvalues (m\<lparr>m_frames := fs\<rparr>) co base =
     map_option (\<lambda>m. m\<lparr>m_frames := fs\<rparr>) (reattach_upvalues m co base)"
proof (induction m co base rule: reattach_upvalues.induct)
  case (1 m co base)
  have c: "captures_of (m\<lparr>m_frames := fs\<rparr>) co = captures_of m co" by (simp add: captures_of_def frames_body)
  show ?case
  proof (cases "captures_of m co = []")
    case True
    then show ?thesis by (subst (1 2) reattach_upvalues.simps) (simp add: c)
  next
    case False
    show ?thesis
    proof (cases "reattach_one m co base")
      case None
      then show ?thesis using False by (subst (1 2) reattach_upvalues.simps) (simp add: c reattach_one_frames)
    next
      case (Some m1)
      then show ?thesis
        using False 1 [OF False Some] by (subst (1 2) reattach_upvalues.simps) (simp add: c reattach_one_frames)
    qed
  qed
qed

lemma restore_is:
  "restore_registers m co base =
     set_registers m base (\<lambda>i. ref_get m (PLACE_SAVED co i) VALUE_NIL) (register_count m co)"
proof -
  have "foldl (restore_register co base) m [0..<n] =
      set_registers m base (\<lambda>i. ref_get m (PLACE_SAVED co i) VALUE_NIL) n" for n
  proof (induction n)
    case (Suc n)
    then show ?case
      by (simp add: restore_register_def set_registers_Suc ref_get_def set_registers_reads(2))
  qed (simp add: set_registers_Suc)
  then show ?thesis by (simp add: restore_registers_def)
qed

lemma reattach_live: "reattach_upvalues m co base = Some m' \<Longrightarrow> live m' = live m"
proof (induction m co base arbitrary: m' rule: reattach_upvalues.induct)
  case (1 m co base)
  have s: "live (set_captures n co us) = live n" for n us
  proof (cases "deref n co = None")
    case True
    then show ?thesis by (simp add: set_captures_def body_of_def)
  qed (auto simp: set_captures_def set_body_reads(5) fun_eq_iff split: LhatBody.splits)
  have p: "live (set_upvalue_place n u q w) = live n" for n u q w
  proof (cases "deref n u = None")
    case True
    then show ?thesis by (simp add: set_upvalue_place_def body_of_def)
  qed (auto simp: set_upvalue_place_def set_body_reads(5) fun_eq_iff split: LhatBody.splits)
  have one: "live n = live m" if "reattach_one m co base = Some n" for n
    using that
    by (auto simp: reattach_one_def Let_def open_reads(3) p s split: if_splits LhatBody.splits LhatPlace.splits)
  show ?case
  proof (cases "captures_of m co = []")
    case True
    then show ?thesis using 1(2) by (subst (asm) reattach_upvalues.simps) simp
  next
    case False
    then obtain n where n: "reattach_one m co base = Some n" "reattach_upvalues n co base = Some m'"
      using 1(2) by (subst (asm) reattach_upvalues.simps) (auto split: option.splits)
    show ?thesis using 1(1) [OF False n] one [OF n(1)] by simp
  qed
qed

lemma started_run:
  assumes "run_ok m" "coroutine_of m co"
  shows "run_ok (set_running (take_carrier m co) co)" "live (set_running (take_carrier m co) co) = live m"
proof -
  have t: "run_ok (take_carrier m co) = run_ok m" "live (take_carrier m co) = live m"
    "body_of (take_carrier m co) = body_of m" "deref (take_carrier m co) = deref m"
    by (simp_all add: take_carrier_def carriers_run split: option.split)
  obtain source frame walking held captures where
    b: "body_of m co = OBJECT_COROUTINE source frame walking held captures"
    using assms(2) by (auto simp: coroutine_of_def)
  then have e: "deref (take_carrier m co) co \<noteq> None" by (auto simp: t body_of_def split: option.splits)
  have b': "body_of (take_carrier m co) co = OBJECT_COROUTINE source frame walking held captures"
    by (simp add: t b)
  show "run_ok (set_running (take_carrier m co) co)" "live (set_running (take_carrier m co) co) = live m"
    using coroutine_state_run [OF e b', of "frame\<lparr>cf_state := LHAT_COROUTINE_RUNNING\<rparr>"] assms(1)
    by (simp_all add: set_running_def b t)
qed

text \<open>What a resume at \<open>base\<close> relies on: the closure's frame has the width of the saved registers and
  goes above every open capture, and the captures on the coroutine's list, in ascending order, aim
  into those registers and are live.  That they are live is not asked by the code.\<close>

definition may_resume :: "Machine \<Rightarrow> addr \<Rightarrow> nat \<Rightarrow> bool" where
  "may_resume m co base \<longleftrightarrow>
     owned m co \<and> coroutine_of m co \<and> closure_of m co \<noteq> None \<and>
     (\<forall>f. closure_of m co = Some (fr_closure f) \<longrightarrow> frame_width m f = register_count m co) \<and>
     (\<forall>u \<in> set (captures_of m co). live m u \<and>
        (\<exists>off cell su. body_of m u = OBJECT_UPVALUE (PLACE_SAVED co off) cell su \<and> off < register_count m co)) \<and>
     sorted_wrt (\<lambda>u w. saved_offset m u < saved_offset m w) (captures_of m co) \<and>
     (\<forall>w \<in> set (m_open m). open_slot m w < base)"

lemma resume_run:
  assumes "run_ok m" "may_resume m co base" "list_all (value_live m) sent"
  shows "\<exists>m'. vm_enter_resume_frame m co base sent words = Some m' \<and> run_ok m'"
proof -
  let ?n = "register_count m co"
  obtain cl where cl: "closure_of m co = Some cl" using assms(2) by (auto simp: may_resume_def)
  let ?f = "\<lparr>fr_closure = cl, fr_coroutine = Some co, fr_base = base, fr_answer = VALUE_NIL, fr_answer_run = []\<rparr>"
  have r: "owned m co" "coroutine_of m co" "frame_width m ?f = ?n"
    using assms(2) cl by (auto simp: may_resume_def)
  have g: "gc_ok m" using assms(1) by (simp add: run_ok_def)
  obtain source frame walking held captures where
    c: "body_of m co = OBJECT_COROUTINE source frame walking held captures"
    using r(2) by (auto simp: coroutine_of_def)
  have ref: "live m x" if "x \<in> refs m co" for x
    using that r(1) g unfolding gc_ok_def heap_closed_def owned_def by blast
  let ?g = "\<lambda>i. ref_get m (PLACE_SAVED co i) VALUE_NIL"
  let ?m1 = "set_registers m base ?g ?n"
  have v: "value_live m (?g i)" for i
  proof -
    have "live m x" if x: "value_ref (slots_get (cf_registers frame) i) = Some x" for x
    proof (rule ref)
      have "Some x \<in> value_ref ` set (cf_registers frame)"
        using x by (auto simp: slots_get_def image_iff split: if_splits intro!: bexI [OF _ nth_mem])
      then show "x \<in> refs m co" by (simp add: c refs_def object_refs_def)
    qed
    then show ?thesis by (auto simp: value_live_def ref_get_def c)
  qed
  have m1: "run_ok ?m1" by (rule set_registers_run [OF assms(1) v])
  have "live m cl" using cl by (intro ref) (auto simp: closure_of_def c refs_def object_refs_def)
  moreover have "value_live ?m1 (slots_get (m_slots ?m1) (base + i))" if "i < ?n" for i
    using set_registers_get [OF that, of m base ?g] v [of i]
    by (auto simp: value_live_registers value_live_def [of m VALUE_NIL])
  ultimately have "frame_fits ?m1 ?f"
    using r(1,3) by (simp add: frame_fits_def set_registers_reads owned_def)
  from push_frame_run [OF m1 this] have m2: "run_ok (?m1\<lparr>m_frames := m_frames m @ [?f]\<rparr>)" (is "run_ok ?m2")
    by (simp add: set_registers_reads)
  have b2: "body_of ?m2 = body_of m" by (simp add: frames_body set_registers_reads)
  have l2: "live ?m2 = live m"
    using same_objects_reads(5) [OF frames_same] by (simp add: set_registers_reads)
  have o2: "m_open ?m2 = m_open m" by (simp add: set_registers_reads)
  have root: "slot_rooted ?m2 (base + off)" if "off < ?n" for off
    using that r(3) by (auto simp: slot_rooted_def frames_reads set_registers_reads intro!: bexI [of _ ?f])
  have ob: "owned ?m2 co" using r(1) l2 by (simp add: owned_def set_registers_reads)
  have re: "reattachable ?m2 co base"
    unfolding reattachable_def captures_of_def saved_capture_def saved_offset_def open_slot_def b2 l2 o2
  proof (intro conjI ballI)
    fix u assume "u \<in> set (case body_of m co of OBJECT_COROUTINE source frame walking held captures \<Rightarrow> captures | _ \<Rightarrow> [])"
    then have u: "u \<in> set (captures_of m co)" by (simp add: captures_of_def)
    then show "live m u" using assms(2) by (simp add: may_resume_def)
    show "\<exists>off cell su. body_of m u = OBJECT_UPVALUE (PLACE_SAVED co off) cell su \<and> slot_rooted ?m2 (base + off)"
      using u assms(2) root unfolding may_resume_def by blast
    fix w assume "w \<in> set (m_open m)"
    then have "open_slot m w < base" using assms(2) by (simp add: may_resume_def)
    then show "(case body_of m w of OBJECT_UPVALUE (PLACE_SLOT i) cell suspended_in \<Rightarrow> i | _ \<Rightarrow> 0)
        < base + (case body_of m u of OBJECT_UPVALUE (PLACE_SAVED co i) cell su \<Rightarrow> i | _ \<Rightarrow> 0)"
      by (simp add: open_slot_def)
  next
    show "sorted_wrt (\<lambda>u w. (case body_of m u of OBJECT_UPVALUE (PLACE_SAVED co i) cell su \<Rightarrow> i | _ \<Rightarrow> 0)
        < (case body_of m w of OBJECT_UPVALUE (PLACE_SAVED co i) cell su \<Rightarrow> i | _ \<Rightarrow> 0))
        (case body_of m co of OBJECT_COROUTINE source frame walking held captures \<Rightarrow> captures | _ \<Rightarrow> [])"
      using assms(2) by (simp add: may_resume_def captures_of_def saved_offset_def)
  qed
  have c2: "coroutine_of ?m2 co" using r(2) by (simp add: coroutine_of_def b2)
  obtain m3 where m3: "reattach_upvalues ?m2 co base = Some m3" "run_ok m3" "owned m3 co" "coroutine_of m3 co"
    using reattach_run [OF m2 ob c2 re] by blast
  obtain m1' where q: "reattach_upvalues ?m1 co base = Some m1'" "m3 = m1'\<lparr>m_frames := m_frames m @ [?f]\<rparr>"
    using m3(1) by (auto simp: reattach_frames)
  have "m_frames m1' = m_frames ?m1"
  proof -
    have "reattach_upvalues (?m1\<lparr>m_frames := m_frames ?m1\<rparr>) co base =
        map_option (\<lambda>m. m\<lparr>m_frames := m_frames ?m1\<rparr>) (reattach_upvalues ?m1 co base)"
      by (rule reattach_frames)
    then have "m1' = m1'\<lparr>m_frames := m_frames ?m1\<rparr>" by (simp add: q(1))
    from arg_cong [OF this, of m_frames] show ?thesis by simp
  qed
  then have fr: "m_frames m1' = m_frames m" by (simp add: set_registers_reads)
  obtain source' frame' walking' held' captures' where
    c3: "body_of m3 co = OBJECT_COROUTINE source' frame' walking' held' captures'"
    using m3(4) by (auto simp: coroutine_of_def)
  have "live m3 = live ?m2" using reattach_live [OF m3(1)] by blast
  then have l3: "live m3 = live m" by (simp add: l2)
  let ?m4 = "set_running (take_carrier m3 co) co"
  have m4: "run_ok ?m4" "live ?m4 = live m" using started_run [OF m3(2,4)] by (simp_all add: l3)
  have "value_live ?m4 v" if "v \<in> set (sent_slots sent words)" for v
    using that assms(3) m4(2)
    by (auto simp: sent_slots_def value_live_def value_ref_def list_all_iff split: if_splits)
  then have "run_ok (fill_slots ?m4 (base + sent_into m co) (sent_slots sent words))"
    by (rule fill_slots_run [OF m4(1)])
  then show ?thesis
    using m4(1) by (simp add: vm_enter_resume_frame_def cl restore_is q fr Let_def)
qed

end
