(* ===== verification/Lhat_Run.thy ===== *)
theory Lhat_Run
  imports Lhat_Coroutine
begin

text \<open>
  The running machine: the program's operations and the steps of the collector in any order.  A
  program only reads, writes and passes on what it can reach from the roots; a step asks nothing of
  the phase the collector is in or of any colour.

  Three operations do not keep the invariant by themselves: a write to a captured place of a
  suspended coroutine, a resume of a coroutine whose captures may be gone, and the return of a
  session's top level that leaves captures of its registers.  \<open>step_covered\<close> says when they do; it is
  no part of the step, but a hypothesis on a run.
\<close>

subsection \<open>The collector beside the program\<close>

lemma keeps_advance_loop: "gc_ok m \<Longrightarrow> keeps m (fst (advance_loop m budget looked))"
proof (induction m budget looked rule: advance_loop.induct)
  case (1 m budget looked)
  obtain m1 n where s: "(m1, n) = single_step m (budget - looked)" by (metis surj_pair)
  note s' = s [symmetric]
  have k: "keeps m m1" "gc_ok m1"
    using keeps_single_step [OF 1(2), of "budget - looked"] single_step_ok [OF 1(2), of "budget - looked"] s'
    by simp_all
  show ?case
  proof (cases "looked < budget \<and> \<not> (m_gcstate m \<noteq> LHAT_GC_PAUSE \<and> m_gcstate m1 = LHAT_GC_PAUSE)")
    case True
    then have "keeps m1 (fst (advance_loop m1 budget (looked + n)))"
      using 1(1) [OF _ s _ k(2)] by blast
    with True show ?thesis using keeps_trans [OF k(1)] s' by (subst advance_loop.simps) simp
  next
    case False
    then show ?thesis using k(1) s' by (subst advance_loop.simps) auto
  qed
qed

lemma keeps_step_loop: "gc_ok m \<Longrightarrow> keeps m (step_loop m budget looked)"
proof (induction m budget looked rule: step_loop.induct)
  case (1 m budget looked)
  obtain m1 n where s: "(m1, n) = single_step m (budget - looked)" by (metis surj_pair)
  note s' = s [symmetric]
  have k: "keeps m m1" "gc_ok m1"
    using keeps_single_step [OF 1(2), of "budget - looked"] single_step_ok [OF 1(2), of "budget - looked"] s'
    by simp_all
  show ?case
  proof (cases "looked < budget \<and> m_gcstate m \<noteq> LHAT_GC_PAUSE")
    case True
    then have "keeps m1 (step_loop m1 budget (looked + n))" using 1(1) [OF _ s k(2)] by blast
    with True show ?thesis using keeps_trans [OF k(1)] s' by (subst step_loop.simps) simp
  next
    case False
    then show ?thesis by (subst step_loop.simps) auto
  qed
qed

lemma keeps_gc_step: "gc_ok m \<Longrightarrow> keeps m (lhat_gc_step m)"
proof -
  assume g: "gc_ok m"
  obtain m1 n where s: "single_step m (unat (m_gc_stepsize m) * unat (m_gc_stepmul m) div 100) = (m1, n)"
    by fastforce
  have k: "keeps m m1" "gc_ok m1"
    using keeps_single_step [OF g, of "unat (m_gc_stepsize m) * unat (m_gc_stepmul m) div 100"]
      single_step_ok [OF g, of "unat (m_gc_stepsize m) * unat (m_gc_stepmul m) div 100"] s by simp_all
  show ?thesis
    unfolding lhat_gc_step_def Let_def s prod.case
    by (rule keeps_trans [OF k(1) keeps_trans [OF keeps_step_loop [OF k(2)] keeps_rearm]])
qed

lemma keeps_advance: "gc_ok m \<Longrightarrow> keeps m (fst (lhat_gc_advance m budget))"
  using keeps_trans [OF keeps_advance_loop [of m budget 0] keeps_rearm]
  by (cases "advance_loop m budget 0") (simp add: lhat_gc_advance_def)

lemmas collector_keeps = keeps_gc_step keeps_advance keeps_collect

text \<open>The collector does not touch the program's registers, frames and open captures, nor its own
  settings.\<close>

definition same_program :: "Machine \<Rightarrow> Machine \<Rightarrow> bool" where
  "same_program m m' \<longleftrightarrow>
     m_slots m' = m_slots m \<and> m_frames m' = m_frames m \<and> m_open m' = m_open m \<and>
     m_gc_growth m' = m_gc_growth m \<and> m_gc_stepmul m' = m_gc_stepmul m \<and>
     m_gc_stepsize m' = m_gc_stepsize m \<and> m_gc_paused m' = m_gc_paused m"

lemma same_program_refl [simp]: "same_program m m"
  by (simp add: same_program_def)

lemma same_program_trans [trans]: "same_program m m1 \<Longrightarrow> same_program m1 m2 \<Longrightarrow> same_program m m2"
  by (simp add: same_program_def)

lemma recolored_program: "recolored m m' \<Longrightarrow> same_program m m'"
proof -
  assume "recolored m m'"
  then obtain mem gray where "m' = m\<lparr>m_memory := mem, m_gray := gray\<rparr>" unfolding recolored_def by blast
  then show ?thesis by (simp add: same_program_def)
qed

lemma hold_program: "same_program m (hold_pending_disposals m)"
proof -
  have one: "same_program m (hold_one m a)" for m a
    using recolored_program [OF recolored_reach, of m "Some a"]
    by (simp add: hold_one_def same_program_def machine_set_pending_dispose_def)
  have "same_program m (foldl hold_one m as)" for as
    by (induction as arbitrary: m) (auto intro: one same_program_trans)
  then show ?thesis by (simp add: hold_pending_disposals_def)
qed

lemma atomic_program: "same_program m (atomic m)"
proof -
  have "same_program m (atomic_marked m)"
    unfolding atomic_marked_def
    by (rule same_program_trans [OF same_program_trans [OF same_program_trans]])
       (rule recolored_program hold_program recolored_mark_roots recolored_follow)+
  then show ?thesis
    by (simp add: atomic_split same_program_def forget_dead_def begin_sweep_def clear_caches_def
        clear_natives_def clear_weak_def)
qed

lemma sweep_program: "same_program m (fst (sweep_loop m budget looked))"
proof -
  have one: "same_program m (sweep_one m)" for m
  proof -
    have "same_program m (sweep_free m a)" for a by (subst sweep_free_form) (simp add: same_program_def)
    then show ?thesis by (simp add: sweep_one_def Let_def same_program_def set_color_def put_def)
  qed
  show ?thesis
  proof (induction m budget looked rule: sweep_loop.induct)
    case (1 m budget looked)
    show ?case using 1 same_program_trans [OF one, of m] by (subst sweep_loop.simps) auto
  qed
qed

lemma single_step_program: "same_program m (fst (single_step m budget))"
proof -
  have "same_program m (fst (sweep_some m budget))"
    using sweep_program [of m budget 0] by (simp add: sweep_some_is Let_def end_sweep_def same_program_def)
  moreover have "same_program m (start_cycle m)"
    using recolored_program [OF recolored_mark_roots, of m] by (simp add: start_cycle_def same_program_def)
  ultimately show ?thesis
    by (simp add: single_step_def atomic_program recolored_program [OF recolored_propagate]
        split: GcState.splits)
qed

lemma rearm_program: "same_program m (lhat_gc_rearm m)"
  by (simp add: lhat_gc_rearm_def same_program_def)

lemma step_loop_program: "same_program m (step_loop m budget looked)"
proof (induction m budget looked rule: step_loop.induct)
  case (1 m budget looked)
  show ?case
    using 1 same_program_trans [OF single_step_program, of m "budget - looked"]
    by (subst step_loop.simps) (auto split: prod.splits)
qed

lemma advance_loop_program: "same_program m (fst (advance_loop m budget looked))"
proof (induction m budget looked rule: advance_loop.induct)
  case (1 m budget looked)
  show ?case
    using 1 single_step_program [of m "budget - looked"]
      same_program_trans [OF single_step_program, of m "budget - looked"]
    by (subst advance_loop.simps) (auto split: prod.splits)
qed

lemma run_to_pause_program: "same_program m (run_to_pause m)"
proof (induction m rule: run_to_pause.induct)
  case (1 m)
  show ?case
    using 1 same_program_trans [OF single_step_program, of m SIZE_MAX]
    by (subst run_to_pause.simps) auto
qed

lemma collector_program:
  "same_program m (lhat_gc_step m)" "same_program m (fst (lhat_gc_advance m budget))"
  "same_program m (lhat_gc_collect m)"
proof -
  show "same_program m (lhat_gc_step m)"
    using same_program_trans [OF same_program_trans [OF single_step_program step_loop_program] rearm_program]
    by (simp add: lhat_gc_step_def Let_def split: prod.splits) (metis fst_conv)
  show "same_program m (fst (lhat_gc_advance m budget))"
    using same_program_trans [OF advance_loop_program rearm_program, of m budget 0]
    by (cases "advance_loop m budget 0") (simp add: lhat_gc_advance_def)
  have "same_program m (start_cycle m)" for m
    using recolored_program [OF recolored_mark_roots, of m] by (simp add: start_cycle_def same_program_def)
  from same_program_trans [OF same_program_trans [OF run_to_pause_program this]
      same_program_trans [OF run_to_pause_program rearm_program]]
  show "same_program m (lhat_gc_collect m)" by (simp add: lhat_gc_collect_def)
qed

lemma keeps_open:
  assumes "keeps m m'" "run_ok m" "gc_ok m'" "m_open m' = m_open m"
  shows "run_ok m'"
proof -
  have o: "open_ok m" using assms(2) by (simp add: run_ok_def)
  have b: "open_at m' u = Some i \<Longrightarrow> open_at m u = Some i" for u i
  proof -
    assume a: "open_at m' u = Some i"
    then have "deref m' u \<noteq> None" by (auto simp: open_at_def body_of_def split: option.splits)
    from keepsD(4) [OF assms(1) this] a show ?thesis by (simp add: open_at_def)
  qed
  have r: "open_at m' u = open_at m u" if "u \<in> set (m_open m)" for u
  proof -
    have "live m' u" using open_live [OF assms(3), of u] that assms(4) by simp
    from keepsD(4) [OF assms(1) live_exists [OF this]] show ?thesis by (simp add: open_at_def)
  qed
  have "open_at m' = open_at m"
  proof
    fix u show "open_at m' u = open_at m u"
    proof (cases "open_at m u")
      case None then show ?thesis using b [of u] by (cases "open_at m' u") auto
    next
      case (Some i)
      then have "u \<in> set (m_open m)" using o unfolding open_ok_def by blast
      then show ?thesis by (rule r)
    qed
  qed
  then have "open_ok m' = open_ok m" using assms(4) by (rule open_ok_cong)
  with o assms(3) show ?thesis by (simp add: run_ok_def)
qed

lemma collector_run:
  assumes "run_ok m"
  shows "run_ok (lhat_gc_step m)" "run_ok (fst (lhat_gc_advance m budget))" "run_ok (lhat_gc_collect m)"
proof -
  have g: "gc_ok m" using assms by (simp add: run_ok_def)
  note o = collector_program [of m, unfolded same_program_def]
  show "run_ok (lhat_gc_step m)"
    using keeps_open [OF keeps_gc_step [OF g] assms collector_ok(1) [OF g]] o(1) by blast
  show "run_ok (fst (lhat_gc_advance m budget))"
    using keeps_open [OF keeps_advance [OF g] assms collector_ok(2) [OF g]] o(2) by blast
  show "run_ok (lhat_gc_collect m)"
    using keeps_open [OF keeps_collect [OF g] assms collector_ok(3) [OF g]] o(3) by blast
qed

subsection \<open>What the program can do next\<close>

definition value_held :: "Machine \<Rightarrow> LhatValue \<Rightarrow> bool" where
  "value_held m v \<longleftrightarrow> (\<forall>c. value_ref v = Some c \<longrightarrow> c \<in> reachable m)"

text \<open>An object the program holds and may write to: not one of a chunk.\<close>

definition held_object :: "Machine \<Rightarrow> addr \<Rightarrow> bool" where
  "held_object m a \<longleftrightarrow> a \<in> reachable m \<and> a \<in> set (m_objects m)"

text \<open>A new object refers to what the program can reach.  A script is made by the loader, an upvalue
  by \<open>vm_capture\<close>.\<close>

definition may_make :: "Machine \<Rightarrow> LhatBody \<Rightarrow> bool" where
  "may_make m body \<longleftrightarrow> body_refs m body \<subseteq> reachable m \<and>
     (case body of OBJECT_SCRIPT given \<Rightarrow> False | OBJECT_UPVALUE location cell su \<Rightarrow> False | _ \<Rightarrow> True)"

text \<open>\<open>vm_set_key\<close> puts the key and the value into a table; nothing else comes in.\<close>

definition may_set_key :: "Machine \<Rightarrow> addr \<Rightarrow> LhatBody \<Rightarrow> LhatValue \<Rightarrow> LhatValue \<Rightarrow> bool" where
  "may_set_key m t body key value \<longleftrightarrow>
     held_object m t \<and> value_held m key \<and> value_held m value \<and>
     table_body (body_of m t) \<and> table_body body \<and>
     set (object_refs m body) \<subseteq> set (object_refs m (body_of m t)) \<union> {value_ref key, value_ref value, None}"

text \<open>The running coroutine yields from the top frame, which holds its registers.\<close>

definition may_yield :: "Machine \<Rightarrow> addr \<Rightarrow> bool" where
  "may_yield m co \<longleftrightarrow>
     held_object m co \<and> coroutine_of m co \<and> m_frames m \<noteq> [] \<and>
     register_count m co \<le> frame_width m (last (m_frames m))"

datatype MachineStep =
    STEP_GC
  | STEP_GC_ADVANCE nat
  | STEP_GC_COLLECT
  | STEP_REGISTER nat LhatValue
  | STEP_NEW nat LhatBody
  | STEP_SET_KEY addr LhatBody LhatValue LhatValue
  | STEP_OVERLOAD addr LhatValue
  | STEP_CAPTURE nat
  | STEP_SETUPVAL addr LhatValue
  | STEP_CLOSE nat
  | STEP_CLOSE_ONE nat
  | STEP_CALL addr nat "LhatValue list"
  | STEP_RETURN nat bool LhatValue
  | STEP_YIELD addr nat nat
  | STEP_RESUME addr nat "LhatValue list" "u64 list"
  | STEP_TAKE_PENDING

inductive machine_step :: "Machine \<Rightarrow> MachineStep \<Rightarrow> Machine \<Rightarrow> bool" where
  step_gc: "machine_step m STEP_GC (lhat_gc_step m)"
| step_gc_advance: "machine_step m (STEP_GC_ADVANCE budget) (fst (lhat_gc_advance m budget))"
| step_gc_collect: "machine_step m STEP_GC_COLLECT (lhat_gc_collect m)"
| step_register: "value_held m v \<Longrightarrow> machine_step m (STEP_REGISTER slot v) (set_register m slot v)"
| step_new: "may_make m body \<Longrightarrow> machine_step m (STEP_NEW slot body) (new_object m slot body)"
| step_set_key: "may_set_key m t body key value \<Longrightarrow>
    machine_step m (STEP_SET_KEY t body key value) (table_write m t body key value)"
| step_overload: "held_object m g \<Longrightarrow> value_held m v \<Longrightarrow>
    machine_step m (STEP_OVERLOAD g v) (overload_add m g v)"
| step_capture: "slot_rooted m slot \<Longrightarrow> machine_step m (STEP_CAPTURE slot) (snd (vm_capture m slot))"
| step_setupval: "u \<in> reachable m \<Longrightarrow> value_held m v \<Longrightarrow>
    machine_step m (STEP_SETUPVAL u v) (bc_setupval m u v)"
| step_close: "machine_step m (STEP_CLOSE lowest) (vm_close_upvalues m lowest)"
| step_close_one: "machine_step m (STEP_CLOSE_ONE slot) (vm_close_one_upvalue m slot)"
| step_call: "closure \<in> reachable m \<Longrightarrow> list_all (value_held m) arguments \<Longrightarrow>
    machine_step m (STEP_CALL closure base arguments) (enter_frame m closure base arguments)"
| step_return: "m_frames m \<noteq> [] \<Longrightarrow>
    machine_step m (STEP_RETURN kept outermost answer) (leave_frame m kept outermost answer)"
| step_yield: "may_yield m co \<Longrightarrow>
    machine_step m (STEP_YIELD co into cleanups)
      (yield_frame m co (fr_base (last (m_frames m))) into cleanups)"
| step_resume: "held_object m co \<Longrightarrow> list_all (value_held m) sent \<Longrightarrow>
    vm_enter_resume_frame m co base sent words = Some m' \<Longrightarrow>
    machine_step m (STEP_RESUME co base sent words) m'"
| step_take_pending: "machine_step m STEP_TAKE_PENDING (snd (lhat_gc_take_pending m))"

text \<open>A run, with the machine before each step and the step.\<close>

inductive machine_run :: "Machine \<Rightarrow> (Machine \<times> MachineStep) list \<Rightarrow> Machine \<Rightarrow> bool" where
  run_stay: "machine_run m [] m"
| run_step: "machine_step m s m1 \<Longrightarrow> machine_run m1 trace m' \<Longrightarrow> machine_run m ((m, s) # trace) m'"

lemma run_one: "machine_step m s m' \<Longrightarrow> machine_run m [(m, s)] m'"
  by (rule run_step [OF _ run_stay])

lemma run_trans: "machine_run m t m1 \<Longrightarrow> machine_run m1 t' m' \<Longrightarrow> machine_run m (t @ t') m'"
  by (induction rule: machine_run.induct) (auto intro: run_step)

text \<open>A step that keeps the invariant: a captured place in a suspended coroutine is not written
  behind the collector, a coroutine is resumed with its captures still there, and a session's top
  level leaves no capture of the registers that outlive it.  The code checks none of the three.\<close>

definition step_covered :: "Machine \<times> MachineStep \<Rightarrow> bool" where
  "step_covered ms =
     (case ms of
        (m, STEP_SETUPVAL u v) \<Rightarrow> setupval_guarded m u v
      | (m, STEP_RESUME co base sent words) \<Rightarrow> may_resume m co base
      | (m, STEP_RETURN kept outermost answer) \<Rightarrow> kept_unshared m kept
      | _ \<Rightarrow> True)"

subsection \<open>Every step keeps the invariant\<close>

lemma held_live: "value_held m v \<Longrightarrow> gc_ok m \<Longrightarrow> value_live m v"
  using reachable_live by (auto simp: value_held_def value_live_def gc_ok_def)

lemma held_owned: "held_object m a \<Longrightarrow> gc_ok m \<Longrightarrow> owned m a"
  using reachable_live by (auto simp: held_object_def owned_def gc_ok_def)

lemma make_alloc: "may_make m body \<Longrightarrow> gc_ok m \<Longrightarrow> may_alloc m body"
  using reachable_live
  by (auto simp: may_make_def may_alloc_def gc_ok_def upvalue_fits_def subset_iff split: LhatBody.splits)

lemma set_key_write: "may_set_key m t body k v \<Longrightarrow> gc_ok m \<Longrightarrow> may_table_write m t body k v"
  using held_owned [of m t] held_live [of m k] held_live [of m v]
  by (simp add: may_set_key_def may_table_write_def owned_def)

lemma take_pending_run:
  assumes "run_ok m"
  shows "run_ok (snd (lhat_gc_take_pending m))"
proof (cases "m_pending_dispose m")
  case Nil
  then show ?thesis using assms by (simp add: lhat_gc_take_pending_def)
next
  case (Cons co rest)
  let ?m = "machine_set_pending_dispose m rest"
  have s: "same_objects m ?m" by (simp add: same_objects_def machine_set_pending_dispose_def)
  have f: "m_frames ?m = m_frames m" "m_open ?m = m_open m" "m_slots ?m = m_slots m"
    by (simp_all add: machine_set_pending_dispose_def)
  have g: "gc_ok m" "open_ok m" using assms by (simp_all add: run_ok_def)
  have fr: "frame_roots ?m = frame_roots m"
    using same_heap_refs(9) [OF same_heap_pending] by simp
  have "roots ?m \<subseteq> roots m"
    using Cons by (auto simp: roots_def root_refs_def fr) (auto simp: machine_set_pending_dispose_def)
  moreover have "live m a" if "a \<in> roots m" for a
    using that g(1) by (simp add: gc_ok_def heap_closed_def)
  ultimately have "gc_ok ?m"
    using g(1) by (intro roots_ok [OF g(1) s]) (auto simp: same_frames_upvalues [OF s f(1)] gc_ok_def heap_wf_def)
  moreover have "open_ok ?m = open_ok m"
    by (rule open_ok_cong [OF open_at_body [OF same_objects_reads(2) [OF s]] f(2)])
  ultimately show ?thesis using Cons g(2) by (simp add: lhat_gc_take_pending_def run_ok_def)
qed

lemma machine_step_ok:
  assumes "machine_step m s m'" "run_ok m" "step_covered (m, s)"
  shows "run_ok m'"
proof -
  have g: "gc_ok m" using assms(2) by (simp add: run_ok_def)
  have l: "live m x" if "x \<in> reachable m" for x
    using that reachable_live g by (simp add: gc_ok_def)
  from assms(1) show ?thesis
  proof cases
    case (step_new body slot)
    have "body \<noteq> OBJECT_UPVALUE (PLACE_SLOT i) cell su" for i cell su
      using step_new(3) by (auto simp: may_make_def)
    from new_object_run [OF assms(2) make_alloc [OF step_new(3) g] this] step_new(2) show ?thesis
      by simp
  next
    case (step_call closure arguments base)
    then show ?thesis
      using enter_frame_run [OF assms(2)] l held_live [OF _ g] by (auto simp: list_all_iff)
  next
    case (step_resume co sent base words)
    have "may_resume m co base" using assms(3) step_resume(1) by (simp add: step_covered_def)
    moreover have "list_all (value_live m) sent"
      using step_resume(3) held_live [OF _ g] by (auto simp: list_all_iff)
    ultimately obtain n where "vm_enter_resume_frame m co base sent words = Some n" "run_ok n"
      using resume_run [OF assms(2)] by blast
    with step_resume(4) show ?thesis by simp
  next
    case (step_return kept outermost answer)
    then show ?thesis using leave_frame_run [OF assms(2)] assms(3) by (simp add: step_covered_def)
  next
    case (step_yield co into cleanups)
    then show ?thesis
      using yield_frame_run [OF assms(2) held_owned [OF _ g]] by (simp add: may_yield_def)
  next
    case (step_overload h v)
    then show ?thesis
      using overload_add_run [OF assms(2), of h v] held_owned [OF _ g, of h] held_live [OF _ g, of v]
      by (simp add: owned_def)
  next
    case (step_setupval u v)
    then show ?thesis
      using setupval_run [OF assms(2) l held_live [OF _ g]] assms(3) by (simp add: step_covered_def)
  qed (use assms(2) g in \<open>simp_all add: collector_run set_register_run held_live table_write_run
      set_key_write vm_capture_run close_upvalues_run close_one_upvalue_run take_pending_run\<close>)
qed

lemma machine_run_ok: "machine_run m t m' \<Longrightarrow> run_ok m \<Longrightarrow> list_all step_covered t \<Longrightarrow> run_ok m'"
  by (induction rule: machine_run.induct) (auto intro: machine_step_ok)

end
