(* ===== verification/Lhat_GcCheck.thy ===== *)
theory Lhat_GcCheck
  imports Lhat_Run
begin

text \<open>
  The invariant asked of a machine by running it: \<open>check_invariant\<close> of \<open>src/gc.c\<close>, the paranoid
  build's own question, and \<open>run_check\<close>, a test of the whole of \<open>run_ok\<close> that looks at the finitely
  many objects of a concrete machine.
\<close>

subsection \<open>The paranoid check\<close>

text \<open>For every black object on the list its children are reached with a list of their own; a list
  that is not empty afterwards stops the program.  Nothing is reached where the check passes.\<close>

definition check_invariant :: "Machine \<Rightarrow> bool" where
  "check_invariant m \<longleftrightarrow>
     (\<forall>a \<in> set (m_objects m). has_color m a LHAT_GC_BLACK \<longrightarrow>
        m_gray (lhat_gc_children (m\<lparr>m_gray := []\<rparr>) a) = [])"

lemma gray_body [simp]: "body_of (m\<lparr>m_gray := g\<rparr>) = body_of m" "white_at (m\<lparr>m_gray := g\<rparr>) = white_at m"
    "object_refs (m\<lparr>m_gray := g\<rparr>) b = object_refs m b"
proof -
  have s: "same_heap m (m\<lparr>m_gray := g\<rparr>)" by (simp add: same_heap_def)
  show "body_of (m\<lparr>m_gray := g\<rparr>) = body_of m" "white_at (m\<lparr>m_gray := g\<rparr>) = white_at m"
    "object_refs (m\<lparr>m_gray := g\<rparr>) b = object_refs m b"
    by (simp_all add: same_heap_refs [OF s])
qed

lemma reach_all_none: "(\<And>c. Some c \<in> set ps \<Longrightarrow> \<not> white_at m c) \<Longrightarrow> reach_all m ps = m"
  unfolding reach_all_def by (induction ps) (auto simp: reach_def split: option.splits)

lemma marked_check:
  assumes "holding m" "m_gray m = []"
  shows "check_invariant m"
  unfolding check_invariant_def
proof (intro ballI impI)
  fix a assume b: "has_color m a LHAT_GC_BLACK"
  have "\<not> white_at m c" if "Some c \<in> set (object_refs m (body_of m a))" for c
    by (rule marked_refs [OF assms b]) (use that in \<open>simp add: refs_def\<close>)
  then show "m_gray (lhat_gc_children (m\<lparr>m_gray := []\<rparr>) a) = []"
    by (simp add: lhat_gc_children_def reach_all_none)
qed

subsection \<open>The invariant of a concrete machine\<close>

definition places :: "Machine \<Rightarrow> addr list" where
  "places m = filter (\<lambda>a. deref m a \<noteq> None) [0..<length (m_memory m)]"

lemma places_iff: "a \<in> set (places m) \<longleftrightarrow> deref m a \<noteq> None"
  by (auto simp: places_def deref_def)

definition pointers :: "pointer list \<Rightarrow> addr list" where
  "pointers ps = map the (filter (\<lambda>p. p \<noteq> None) ps)"

lemma pointers_iff: "c \<in> set (pointers ps) \<longleftrightarrow> Some c \<in> set ps"
  by (force simp: pointers_def image_iff)

lemma none_not_white [simp]: "deref m a = None \<Longrightarrow> \<not> has_color m a c" "deref m a = None \<Longrightarrow> \<not> live m a"
  by (auto simp: has_color_def live_def)

definition live_check :: "Machine \<Rightarrow> addr \<Rightarrow> bool" where
  "live_check m a = (case deref m a of None \<Rightarrow> False | Some b \<Rightarrow> ob_color b \<noteq> lhat_gc_other_white (m_white m))"

lemma live_check: "live_check m a = live m a"
  by (auto simp: live_check_def live_def split: option.splits)

definition weak_list :: "Machine \<Rightarrow> addr list" where
  "weak_list m =
     concat (map (\<lambda>(key, v). case key of WEAK_KEY k \<Rightarrow> pointers [value_ref v] | _ \<Rightarrow> []) (m_weak m)) @
     pointers (m_unbound_natives m) @
     concat (map (\<lambda>c. if mc_answered c = None then []
       else pointers [mc_answered c, mc_receiver c, mc_lender c]) (m_member_caches m))"

lemma weak_list: "weak_refs m \<subseteq> set (weak_list m)"
  by (auto simp: weak_refs_def weak_list_def pointers_iff value_ref_def image_iff split: WeakKey.splits)

definition chunk_check :: "Machine \<Rightarrow> bool" where
  "chunk_check m \<longleftrightarrow>
     list_all (\<lambda>a. a \<in> set (m_objects m) \<or>
       has_color m a LHAT_GC_BLACK \<and>
       list_all (chunk_object m) (pointers (object_refs m (body_of m a)))) (places m)"

definition no_script :: "LhatBody \<Rightarrow> bool" where
  "no_script b = (case b of OBJECT_SCRIPT given \<Rightarrow> False | _ \<Rightarrow> True)"

definition upvalue_check :: "Machine \<Rightarrow> addr \<Rightarrow> bool" where
  "upvalue_check m a =
     (case body_of m a of
        OBJECT_UPVALUE place cell suspended_in \<Rightarrow>
          a \<in> set (m_objects m) \<and>
          (case place of PLACE_SLOT i \<Rightarrow> slot_rooted m i
           | PLACE_SAVED co i \<Rightarrow> suspended_in = Some co | _ \<Rightarrow> True)
      | _ \<Rightarrow> True)"

definition closed_check :: "Machine \<Rightarrow> bool" where
  "closed_check m \<longleftrightarrow>
     list_all (live_check m) (pointers (root_refs m)) \<and> list_all (live_check m) (weak_list m) \<and>
     list_all (\<lambda>a. live_check m a \<longrightarrow>
       list_all (live_check m) (pointers (object_refs m (body_of m a)))) (places m)"

definition tricolor_check :: "Machine \<Rightarrow> bool" where
  "tricolor_check m \<longleftrightarrow>
     list_all (\<lambda>a. has_color m a LHAT_GC_BLACK \<longrightarrow>
       list_all (\<lambda>c. \<not> white_at m c) (pointers (own_refs m (body_of m a)))) (places m)"

definition gray_check :: "Machine \<Rightarrow> bool" where
  "gray_check m \<longleftrightarrow>
     distinct (m_gray m) \<and> list_all (\<lambda>a. has_color m a LHAT_GC_GRAY) (m_gray m) \<and>
     list_all (\<lambda>a. has_color m a LHAT_GC_GRAY \<longrightarrow> a \<in> set (m_gray m)) (places m)"

definition phase_check :: "Machine \<Rightarrow> bool" where
  "phase_check m =
     (case m_gcstate m of
        LHAT_GC_PAUSE \<Rightarrow> m_gray m = [] \<and> list_all (\<lambda>a. has_color m a (m_white m)) (m_objects m)
      | LHAT_GC_PROPAGATE \<Rightarrow> gray_check m \<and> tricolor_check m \<and> marking_colors m
      | LHAT_GC_SWEEP \<Rightarrow> m_gray m = [] \<and> sweep_colors m)"

definition gc_check :: "Machine \<Rightarrow> bool" where
  "gc_check m \<longleftrightarrow>
     distinct (m_objects m) \<and> list_all (\<lambda>a. deref m a \<noteq> None) (m_objects m) \<and> is_white (m_white m) \<and>
     chunk_check m \<and> list_all (\<lambda>a. no_script (body_of m a)) (places m) \<and>
     list_all (upvalue_check m) (places m) \<and> closed_check m \<and> phase_check m"

definition run_check :: "Machine \<Rightarrow> bool" where
  "run_check m \<longleftrightarrow>
     gc_check m \<and> sorted_wrt (\<lambda>u w. open_slot m w < open_slot m u) (m_open m) \<and>
     list_all (\<lambda>u. open_at m u \<noteq> None) (m_open m) \<and>
     list_all (\<lambda>u. open_at m u \<noteq> None \<longrightarrow> u \<in> set (m_open m)) (places m)"

lemma gc_check:
  assumes "gc_check m"
  shows "gc_ok m"
proof -
  note c = assms [unfolded gc_check_def list_all_iff]
  have all: "P a" if "list_all P (places m)" "deref m a \<noteq> None" for P a
    using that by (simp only: list_all_iff places_iff [symmetric])
  have chunk: "has_color m a LHAT_GC_BLACK \<and> (\<forall>x \<in> refs m a. chunk_object m x)"
    if "chunk_object m a" for a
    using all [OF assms [unfolded gc_check_def, THEN conjunct2, THEN conjunct2, THEN conjunct2,
          THEN conjunct1, unfolded chunk_check_def], of a] that
    by (simp add: chunk_object_def refs_def list_all_iff pointers_iff del: not_None_eq)
  have "chunks_ok m" unfolding chunks_ok_def using chunk by blast
  moreover have "scripts_ok m"
  proof -
    have "no_script (body_of m a)" if "deref m a \<noteq> None" for a
      using assms all [OF _ that, of "\<lambda>a. no_script (body_of m a)"] by (simp add: gc_check_def)
    then show ?thesis unfolding scripts_ok_def by (fastforce simp: no_script_def)
  qed
  moreover have "upvalues_ok m"
  proof -
    have "upvalue_check m a" if "deref m a \<noteq> None" for a
      using assms all [OF _ that, of "upvalue_check m"] by (simp add: gc_check_def)
    then show ?thesis unfolding upvalues_ok_def by (fastforce simp: upvalue_check_def)
  qed
  moreover have "heap_closed m"
  proof -
    have k: "closed_check m" using assms by (simp add: gc_check_def)
    have "live m x" if "x \<in> roots m" for x
      using k that by (simp add: closed_check_def list_all_iff pointers_iff roots_def live_check)
    moreover have "live m x" if "x \<in> weak_refs m" for x
    proof -
      have "list_all (live_check m) (weak_list m)" using k by (simp add: closed_check_def)
      then show ?thesis using subsetD [OF weak_list that] unfolding list_all_iff live_check by blast
    qed
    moreover have "live m x" if "live m a" "x \<in> refs m a" for a x
    proof -
      let ?P = "\<lambda>a. live_check m a \<longrightarrow> list_all (live_check m) (pointers (object_refs m (body_of m a)))"
      have "list_all ?P (places m)" using k by (simp add: closed_check_def)
      from all [OF this live_exists [OF that(1)]] that(1)
      have "list_all (live_check m) (pointers (object_refs m (body_of m a)))" by (simp only: live_check)
      moreover have "x \<in> set (pointers (object_refs m (body_of m a)))"
        using that(2) by (simp only: refs_def mem_Collect_eq pointers_iff)
      ultimately have "live_check m x" unfolding list_all_iff by (rule bspec)
      then show ?thesis by (simp only: live_check)
    qed
    ultimately show ?thesis unfolding heap_closed_def by blast
  qed
  moreover have "phase_ok m"
  proof (cases "m_gcstate m")
    case LHAT_GC_PROPAGATE
    then have p: "gray_check m" "tricolor_check m" "marking_colors m"
      using c by (simp_all add: phase_check_def)
    have g: "a \<in> set (m_gray m) \<longleftrightarrow> has_color m a LHAT_GC_GRAY" for a
    proof
      show "has_color m a LHAT_GC_GRAY" if "a \<in> set (m_gray m)"
        using p(1) that by (simp add: gray_check_def list_all_iff)
      show "a \<in> set (m_gray m)" if h: "has_color m a LHAT_GC_GRAY"
      proof -
        have "deref m a \<noteq> None" using h by (cases "deref m a") (simp_all add: has_color_def)
        moreover have "list_all (\<lambda>a. has_color m a LHAT_GC_GRAY \<longrightarrow> a \<in> set (m_gray m)) (places m)"
          using p(1) by (simp add: gray_check_def)
        ultimately have "has_color m a LHAT_GC_GRAY \<longrightarrow> a \<in> set (m_gray m)" by (rule all [rotated])
        then show ?thesis using h by blast
      qed
    qed
    have t: "\<not> white_at m x" if h: "has_color m a LHAT_GC_BLACK" "Some x \<in> set (own_refs m (body_of m a))" for a x
    proof -
      have "deref m a \<noteq> None" using h(1) by (cases "deref m a") (simp_all add: has_color_def)
      moreover have "list_all (\<lambda>a. has_color m a LHAT_GC_BLACK \<longrightarrow>
          list_all (\<lambda>c. \<not> white_at m c) (pointers (own_refs m (body_of m a)))) (places m)"
        using p(2) by (simp only: tricolor_check_def)
      ultimately have "has_color m a LHAT_GC_BLACK \<longrightarrow>
          list_all (\<lambda>c. \<not> white_at m c) (pointers (own_refs m (body_of m a)))" by (rule all [rotated])
      then show ?thesis using h by (simp add: list_all_iff pointers_iff)
    qed
    show ?thesis using LHAT_GC_PROPAGATE p g t by (simp add: phase_ok_def gray_ok_def tricolor_def gray_check_def)
  qed (use c in \<open>simp_all add: phase_ok_def phase_check_def list_all_iff\<close>)
  ultimately show ?thesis using c by (simp add: gc_ok_def heap_wf_def)
qed

lemma run_check:
  assumes "run_check m"
  shows "run_ok m"
proof -
  have c: "gc_check m" "sorted_wrt (\<lambda>u w. open_slot m w < open_slot m u) (m_open m)"
    "\<And>u. u \<in> set (m_open m) \<Longrightarrow> open_at m u \<noteq> None"
    "\<And>u. u \<in> set (places m) \<Longrightarrow> open_at m u \<noteq> None \<Longrightarrow> u \<in> set (m_open m)"
    using assms unfolding run_check_def list_all_iff by blast+
  have d: "open_at m u \<noteq> None \<Longrightarrow> u \<in> set (places m)" for u
    by (auto simp: places_iff open_at_def body_of_def split: option.splits)
  have "open_at m u \<noteq> None \<longleftrightarrow> u \<in> set (m_open m)" for u
    using c(3) c(4) [OF d] by (rule iffI [rotated])
  then show ?thesis using c(2) gc_check [OF c(1)] unfolding run_ok_def open_ok_def by blast
qed

end
