(* ===== verification/Lhat_GcPace.thy ===== *)
theory Lhat_GcPace
  imports Lhat_GcCheck
begin

text \<open>
  The pace of the collector: how many cycles a call finishes, that steps come to the end of a cycle,
  and that a coroutine with cleanups to run is held back by the cycle that finds it unreachable.
\<close>

subsection \<open>Counting cycles\<close>

lemma recolored_fieldsE:
  assumes "recolored m m'"
  obtains mem gray where "m' = m\<lparr>m_memory := mem, m_gray := gray\<rparr>"
  using assms unfolding recolored_def by blast

lemma recolored_cycles:
  "recolored m m' \<Longrightarrow> m_gc_cycles m' = m_gc_cycles m" "recolored m m' \<Longrightarrow> m_gcstate m' = m_gcstate m"
  by (auto elim!: recolored_fieldsE)

lemma atomic_cycles: "m_gc_cycles (atomic m) = m_gc_cycles m" "m_gcstate (atomic m) = LHAT_GC_SWEEP"
proof -
  have one: "m_gc_cycles (hold_one m a) = m_gc_cycles m" for m a
    by (simp add: hold_one_def machine_set_pending_dispose_def recolored_cycles [OF recolored_reach])
  have "m_gc_cycles (foldl hold_one m as) = m_gc_cycles m" for m as
    by (induction as arbitrary: m) (simp_all add: one)
  then have "m_gc_cycles (atomic_marked m) = m_gc_cycles m"
    by (simp add: atomic_marked_def recolored_cycles [OF recolored_follow] hold_pending_disposals_def
        recolored_cycles [OF recolored_mark_roots])
  then show "m_gc_cycles (atomic m) = m_gc_cycles m"
    by (simp add: atomic_split forget_dead_def begin_sweep_def clear_caches_def clear_natives_def clear_weak_def)
  show "m_gcstate (atomic m) = LHAT_GC_SWEEP" by (simp add: atomic_def Let_def begin_sweep_def)
qed

lemma sweep_one_cycles:
  "m_gc_cycles (sweep_one m) = m_gc_cycles m" "m_gcstate (sweep_one m) = m_gcstate m"
  "m_pending_dispose (sweep_one m) = m_pending_dispose m"
proof -
  have "m_gc_cycles (sweep_free m a) = m_gc_cycles m \<and> m_gcstate (sweep_free m a) = m_gcstate m \<and>
      m_pending_dispose (sweep_free m a) = m_pending_dispose m" for a
    by (subst (1 2 3) sweep_free_form) simp
  then show "m_gc_cycles (sweep_one m) = m_gc_cycles m" "m_gcstate (sweep_one m) = m_gcstate m"
    "m_pending_dispose (sweep_one m) = m_pending_dispose m"
    by (simp_all add: sweep_one_def Let_def set_color_def put_def)
qed

lemma sweep_loop_cycles:
  "m_gc_cycles (fst (sweep_loop m budget looked)) = m_gc_cycles m \<and>
   m_gcstate (fst (sweep_loop m budget looked)) = m_gcstate m \<and>
   m_pending_dispose (fst (sweep_loop m budget looked)) = m_pending_dispose m"
proof (induction m budget looked rule: sweep_loop.induct)
  case (1 m budget looked)
  then show ?case
    by (subst (1 2 3) sweep_loop.simps) (simp add: sweep_one_cycles)
qed

lemma single_step_cycles:
  "m_gc_cycles (fst (single_step m budget)) =
     (if m_gcstate m \<noteq> LHAT_GC_PAUSE \<and> m_gcstate (fst (single_step m budget)) = LHAT_GC_PAUSE
      then Suc (m_gc_cycles m) else m_gc_cycles m)"
  using sweep_loop_cycles [of m budget 0]
  by (auto simp: single_step_def atomic_cycles start_cycle_def recolored_cycles [OF recolored_mark_roots]
      recolored_cycles [OF recolored_propagate] sweep_some_is Let_def end_sweep_def split: GcState.splits)

lemma advance_loop_cycles:
  "advance_loop m budget looked = (m', finished) \<Longrightarrow>
     m_gc_cycles m' = (if finished then Suc (m_gc_cycles m) else m_gc_cycles m) \<and>
     (finished \<longrightarrow> m_gcstate m' = LHAT_GC_PAUSE)"
proof (induction m budget looked arbitrary: m' finished rule: advance_loop.induct)
  case (1 m budget looked)
  obtain m1 n where s: "(m1, n) = single_step m (budget - looked)" by (metis surj_pair)
  have c: "m_gc_cycles m1 = (if m_gcstate m \<noteq> LHAT_GC_PAUSE \<and> m_gcstate m1 = LHAT_GC_PAUSE
      then Suc (m_gc_cycles m) else m_gc_cycles m)"
    using single_step_cycles [of m "budget - looked"] by (simp add: s [symmetric])
  show ?case
  proof (cases "looked < budget \<and> \<not> (m_gcstate m \<noteq> LHAT_GC_PAUSE \<and> m_gcstate m1 = LHAT_GC_PAUSE)")
    case True
    then have "advance_loop m1 budget (looked + n) = (m', finished)"
      using 1(2) by (subst (asm) advance_loop.simps) (auto simp: s [symmetric])
    from 1(1) [OF _ s _ this] True c show ?thesis by auto
  next
    case False
    then show ?thesis using 1(2) c by (subst (asm) advance_loop.simps) (auto simp: s [symmetric] split: if_splits)
  qed
qed

lemma run_to_pause_cycles:
  "m_gc_cycles (run_to_pause m) =
     (if m_gcstate m = LHAT_GC_PAUSE then m_gc_cycles m else Suc (m_gc_cycles m))"
proof (induction m rule: run_to_pause.induct)
  case (1 m)
  show ?case
  proof (cases "m_gcstate m = LHAT_GC_PAUSE")
    case True
    then show ?thesis by (subst run_to_pause.simps) simp
  next
    case False
    then show ?thesis
      using 1 [OF False] single_step_cycles [of m SIZE_MAX] by (subst run_to_pause.simps) (auto split: if_splits)
  qed
qed

lemma rearm_cycles [simp]: "m_gc_cycles (lhat_gc_rearm m) = m_gc_cycles m"
  by (simp add: lhat_gc_rearm_def)

lemma collect_cycles:
  "m_gc_cycles (lhat_gc_collect m) =
     (if m_gcstate m = LHAT_GC_PAUSE then m_gc_cycles m + 1 else m_gc_cycles m + 2)"
  by (simp add: lhat_gc_collect_def run_to_pause_cycles start_cycle_def
      recolored_cycles [OF recolored_mark_roots])

subsection \<open>Steps come to the end of a cycle\<close>

text \<open>What is left of a cycle goes down with every step that has a budget.\<close>

definition cycle_left :: "(Machine \<times> Machine) set" where
  "cycle_left = measures [cycle_rank, cycle_measure, sweep_left]"

lemma cycle_left_wf: "wf cycle_left"
  by (simp add: cycle_left_def)

lemma cycle_left_trans: "(a, b) \<in> cycle_left \<Longrightarrow> (b, c) \<in> cycle_left \<Longrightarrow> (a, c) \<in> cycle_left"
  by (auto simp: cycle_left_def)

lemma single_step_left:
  "m_gcstate m \<noteq> LHAT_GC_PAUSE \<Longrightarrow> 0 < budget \<Longrightarrow> (fst (single_step m budget), m) \<in> cycle_left"
  using single_step_measure [OF _ surjective_pairing] by (auto simp: cycle_left_def)

lemma step_loop_left: "step_loop m budget looked = m \<or> (step_loop m budget looked, m) \<in> cycle_left"
proof (induction m budget looked rule: step_loop.induct)
  case (1 m budget looked)
  obtain m1 n where s: "(m1, n) = single_step m (budget - looked)" by (metis surj_pair)
  show ?case
  proof (cases "looked < budget \<and> m_gcstate m \<noteq> LHAT_GC_PAUSE")
    case True
    then have "(m1, m) \<in> cycle_left"
      using single_step_left [of m "budget - looked"] by (simp add: s [symmetric])
    moreover have "step_loop m budget looked = step_loop m1 budget (looked + n)"
      using True by (subst step_loop.simps) (simp add: s [symmetric])
    ultimately show ?thesis using 1 [OF True s] cycle_left_trans by metis
  next
    case False
    then have "step_loop m budget looked = m" by (subst step_loop.simps) auto
    then show ?thesis by simp
  qed
qed

lemma rearm_left: "(lhat_gc_rearm m, m0) \<in> cycle_left \<longleftrightarrow> (m, m0) \<in> cycle_left"
proof -
  have "cycle_rank (lhat_gc_rearm m) = cycle_rank m \<and> cycle_measure (lhat_gc_rearm m) = cycle_measure m \<and>
      sweep_left (lhat_gc_rearm m) = sweep_left m"
    by (simp add: lhat_gc_rearm_def cycle_rank_def cycle_measure_def sweep_left_def whites_def deads_def)
  then show ?thesis by (simp add: cycle_left_def)
qed

definition step_budget :: "Machine \<Rightarrow> nat" where
  "step_budget m = unat (m_gc_stepsize m) * unat (m_gc_stepmul m) div 100"

lemma gc_step_left:
  assumes "m_gcstate m \<noteq> LHAT_GC_PAUSE" "0 < step_budget m"
  shows "(lhat_gc_step m, m) \<in> cycle_left"
proof -
  obtain m1 n where s: "single_step m (step_budget m) = (m1, n)" by fastforce
  have "(m1, m) \<in> cycle_left" using single_step_left [OF assms] s by simp
  then have "(step_loop m1 (step_budget m) n, m) \<in> cycle_left"
    using step_loop_left [of m1 "step_budget m" n] cycle_left_trans by metis
  then show ?thesis
    using s by (simp add: lhat_gc_step_def step_budget_def [symmetric] Let_def rearm_left)
qed

lemma gc_step_budget: "step_budget (lhat_gc_step m) = step_budget m"
  using collector_program(1) [of m] by (simp add: step_budget_def same_program_def)

lemma steps_reach_pause:
  "0 < step_budget m \<Longrightarrow> \<exists>n. m_gcstate ((lhat_gc_step ^^ n) m) = LHAT_GC_PAUSE"
proof (induction m rule: wf_induct_rule [OF cycle_left_wf])
  case (1 m)
  show ?case
  proof (cases "m_gcstate m = LHAT_GC_PAUSE")
    case True
    then show ?thesis by (intro exI [of _ 0]) simp
  next
    case False
    from 1(1) [OF gc_step_left [OF False 1(2)]] 1(2)
    obtain n where "m_gcstate ((lhat_gc_step ^^ n) (lhat_gc_step m)) = LHAT_GC_PAUSE"
      by (auto simp: gc_step_budget)
    then show ?thesis by (intro exI [of _ "Suc n"]) (simp add: funpow_swap1)
  qed
qed

subsection \<open>Coroutines that still owe their cleanups\<close>

lemma hold_one_pending: "set (m_pending_dispose m) \<subseteq> set (m_pending_dispose (hold_one m a))"
  by (auto simp: hold_one_def)

lemma hold_all_pending:
  "set (m_pending_dispose m) \<subseteq> set (m_pending_dispose (foldl hold_one m as))"
proof (induction as arbitrary: m)
  case (Cons x as)
  show ?case using subset_trans [OF hold_one_pending Cons [of "hold_one m x"]] by simp
qed simp

lemma hold_one_other: "x \<noteq> a \<Longrightarrow> white_at (hold_one m x) a = white_at m a \<and> body_of (hold_one m x) a = body_of m a"
  by (simp add: hold_one_def same_heap_refs [OF same_heap_pending] reach_color
      recolored_body [OF recolored_reach])

lemma held_back:
  "a \<in> set as \<Longrightarrow> white_at m a \<Longrightarrow> owes_cleanups (body_of m a) \<Longrightarrow>
     a \<in> set (m_pending_dispose (foldl hold_one m as))"
proof (induction as arbitrary: m)
  case (Cons x as)
  show ?case
  proof (cases "x = a")
    case True
    then have "a \<in> set (m_pending_dispose (hold_one m x))" using Cons.prems by (simp add: hold_one_def)
    then show ?thesis using hold_all_pending [of "hold_one m x" as] by auto
  next
    case False
    then show ?thesis using Cons hold_one_other [OF False, of m] by simp
  qed
qed simp

lemma pending_reachable: "a \<in> set (m_pending_dispose m) \<Longrightarrow> a \<in> reachable m"
  by (rule reachable_root) (auto simp: roots_def root_refs_def)

text \<open>A coroutine that owes its cleanups when the marking ends can be reached: either it could be
  already, or the machine's own list has it.\<close>

lemma atomic_holds:
  assumes "marking_ok m" "only_reachable (set (m_objects m)) m" "a \<in> set (m_objects m)"
    "owes_cleanups (body_of m a)"
  shows "a \<in> reachable m \<or> a \<in> set (m_pending_dispose (atomic m))"
proof -
  let ?n = "follow_gray (mark_roots m)"
  have rec: "recolored m ?n" by (rule recolored_trans [OF recolored_mark_roots recolored_follow])
  have objs: "m_objects ?n = m_objects m" "body_of ?n a = body_of m a"
    by (rule recolored_fields(1) [OF rec], rule recolored_body [OF rec])
  have pend: "m_pending_dispose (atomic m) = m_pending_dispose (hold_pending_disposals ?n)"
    by (simp add: atomic_split forget_dead_def begin_sweep_def clear_caches_def clear_natives_def clear_weak_def
        atomic_marked_def recolored_fields(9) [OF recolored_follow])
  show ?thesis
  proof (cases "white_at ?n a")
    case True
    then have "a \<in> set (m_pending_dispose (hold_pending_disposals ?n))"
      unfolding hold_pending_disposals_def by (rule held_back [rotated]) (use assms objs in simp_all)
    then show ?thesis by (simp add: pend)
  next
    case False
    have "only_reachable (set (m_objects m)) ?n"
      using only_reachable_follow [OF marking_mark_roots [OF assms(1)]] only_reachable_mark_roots [OF assms(2)]
      by (simp add: recolored_fields(1) [OF recolored_mark_roots])
    moreover have "deref ?n a \<noteq> None"
      using assms(1,3) recolored_exists [OF rec] by (simp add: marking_ok_def heap_wf_def)
    ultimately have "a \<in> reachable ?n" using False assms(3) unfolding only_reachable_def by blast
    then show ?thesis by (simp add: recolored_reachable [OF rec])
  qed
qed

definition accounted :: "addr set \<Rightarrow> addr \<Rightarrow> Machine \<Rightarrow> bool" where
  "accounted R a m \<longleftrightarrow>
     (if m_gcstate m = LHAT_GC_PROPAGATE
      then only_reachable (set (m_objects m)) m \<and> a \<in> set (m_objects m) \<and>
        owes_cleanups (body_of m a) \<and> reachable m \<subseteq> R
      else a \<in> reachable m \<and> (a \<in> R \<or> a \<in> set (m_pending_dispose m)))"

lemma accounted_step:
  assumes "gc_ok m" "accounted R a m" "m_gcstate m \<noteq> LHAT_GC_PAUSE"
  shows "accounted R a (fst (single_step m budget))"
proof (cases "m_gcstate m")
  case LHAT_GC_PAUSE
  then show ?thesis using assms(3) by simp
next
  case LHAT_GC_PROPAGATE
  have m: "marking_ok m" using assms(1) LHAT_GC_PROPAGATE by (simp add: gc_ok_def phase_ok_def marking_ok_def)
  have t: "only_reachable (set (m_objects m)) m" "a \<in> set (m_objects m)" "owes_cleanups (body_of m a)"
    "reachable m \<subseteq> R" using assms(2) LHAT_GC_PROPAGATE by (simp_all add: accounted_def)
  show ?thesis
  proof (cases "m_gray m = []")
    case True
    have "a \<in> reachable m \<or> a \<in> set (m_pending_dispose (atomic m))" by (rule atomic_holds [OF m t(1-3)])
    then have "a \<in> reachable (atomic m)" "a \<in> R \<or> a \<in> set (m_pending_dispose (atomic m))"
      using keepsD(1) [OF keeps_atomic, of m] pending_reachable t(4) by blast+
    then show ?thesis
      using True LHAT_GC_PROPAGATE by (simp add: single_step_def accounted_def atomic_cycles)
  next
    case False
    have "only_reachable (set (m_objects m)) (propagate_one m)"
      using m gray_in_objects [OF m] t False
      by (intro only_reachable_propagate) (auto simp: marking_ok_def)
    then show ?thesis
      using False LHAT_GC_PROPAGATE t
      by (simp add: single_step_def accounted_def recolored_fields(1) [OF recolored_propagate]
          recolored_body [OF recolored_propagate] recolored_reachable [OF recolored_propagate])
  qed
next
  case LHAT_GC_SWEEP
  let ?s = "fst (single_step m budget)"
  have "a \<in> reachable ?s"
    using keepsD(1) [OF keeps_single_step [OF assms(1)], of budget] assms(2) LHAT_GC_SWEEP
    by (auto simp: accounted_def)
  moreover have "m_pending_dispose ?s = m_pending_dispose m" "m_gcstate ?s \<noteq> LHAT_GC_PROPAGATE"
    using sweep_loop_cycles [of m budget 0] LHAT_GC_SWEEP
    by (auto simp: single_step_def sweep_some_is Let_def end_sweep_def)
  ultimately show ?thesis using assms(2) LHAT_GC_SWEEP by (simp add: accounted_def)
qed

lemma accounted_run: "gc_ok m \<Longrightarrow> accounted R a m \<Longrightarrow> accounted R a (run_to_pause m)"
proof (induction m rule: run_to_pause.induct)
  case (1 m)
  show ?case
  proof (cases "m_gcstate m = LHAT_GC_PAUSE")
    case True
    then show ?thesis using 1(3) by (subst run_to_pause.simps) simp
  next
    case False
    then have "accounted R a (run_to_pause (fst (single_step m SIZE_MAX)))"
      using 1 by (intro 1(1) accounted_step single_step_ok) simp_all
    with False show ?thesis by (subst run_to_pause.simps) simp
  qed
qed

lemma collect_holds:
  assumes "gc_ok m" "m_gcstate m = LHAT_GC_PAUSE" "a \<in> set (m_objects m)" "owes_cleanups (body_of m a)"
  shows "a \<in> reachable (lhat_gc_collect m) \<and> (a \<in> reachable m \<or> a \<in> set (m_pending_dispose (lhat_gc_collect m)))"
proof -
  have p: "run_to_pause m = m" using assms(2) by (subst run_to_pause.simps) simp
  have rm: "recolored m (mark_roots m)" by (rule recolored_mark_roots)
  have s: "same_heap (mark_roots m) (start_cycle m)" by (simp add: same_heap_def start_cycle_def)
  have k: "only_reachable (set (m_objects m)) (start_cycle m)" "m_objects (start_cycle m) = m_objects m"
    using tracked_start [OF assms(1,2)]
    by (simp_all add: tracked_def start_cycle_def recolored_fields(1) [OF rm])
  have b: "body_of (start_cycle m) a = body_of m a"
    by (simp add: same_heap_refs [OF s] recolored_body [OF rm])
  have "root_refs (start_cycle m) = root_refs (mark_roots m)"
    by (rule same_heap_roots [OF s]) (simp add: start_cycle_def)
  then have "reachable (start_cycle m) = reachable (mark_roots m)"
    by (intro reachable_cong) (simp_all add: roots_def same_heap_refs [OF s])
  then have "accounted (reachable m) a (start_cycle m)"
    using k b assms(3,4) by (simp add: accounted_def recolored_reachable [OF rm] start_cycle_def)
  from accounted_run [OF start_cycle_ok [OF assms(1,2)] this]
  have "accounted (reachable m) a (run_to_pause (start_cycle m))" .
  moreover have "m_gcstate (run_to_pause (start_cycle m)) = LHAT_GC_PAUSE"
    using run_to_pause_ok [OF start_cycle_ok [OF assms(1,2)]] by blast
  ultimately have r: "a \<in> reachable (run_to_pause (start_cycle m))"
    "a \<in> reachable m \<or> a \<in> set (m_pending_dispose (run_to_pause (start_cycle m)))"
    by (simp_all add: accounted_def)
  have "a \<in> reachable (lhat_gc_collect m)"
    using keepsD(1) [OF keeps_rearm] r(1) by (auto simp: lhat_gc_collect_def p)
  moreover have "m_pending_dispose (lhat_gc_collect m) = m_pending_dispose (run_to_pause (start_cycle m))"
    by (simp add: lhat_gc_collect_def p lhat_gc_rearm_def)
  ultimately show ?thesis using r(2) by simp
qed

end
