(* ===== verification/Lhat_Captures.thy ===== *)
theory Lhat_Captures
  imports Lhat_GcPace
begin

text \<open>
  What a captured place reads: the same value whether its slot is on the stack, in the saved
  registers of a suspended coroutine or closed into its own cell.
\<close>

definition bc_getupval :: "Machine \<Rightarrow> addr \<Rightarrow> LhatValue" where
  "bc_getupval m u =
     (case body_of m u of OBJECT_UPVALUE location cell suspended_in \<Rightarrow> ref_get m location cell | _ \<Rightarrow> VALUE_NIL)"

lemma barrier_view [simp]:
  "body_of (lhat_gc_barrier m a v) = body_of m" "m_slots (lhat_gc_barrier m a v) = m_slots m"
  "body_of (lhat_gc_barrier_back m a v) = body_of m" "m_slots (lhat_gc_barrier_back m a v) = m_slots m"
  using recolored_body [OF forward.recolors, of m a v] recolored_body [OF backward.recolors, of m a v]
    recolored_fields(6) [OF forward.recolors, of m a v] recolored_fields(6) [OF backward.recolors, of m a v]
  by (auto intro!: ext)

lemma barrier_exists [simp]:
  "deref (lhat_gc_barrier m a v) x = None \<longleftrightarrow> deref m x = None"
  "deref (lhat_gc_barrier_back m a v) x = None \<longleftrightarrow> deref m x = None"
  using recolored_exists [OF forward.recolors, of m a v x] recolored_exists [OF backward.recolors, of m a v x]
  by auto

lemma body_set_body: "deref m a \<noteq> None \<Longrightarrow> body_of (set_body m a b) = (body_of m)(a := b)"
  by (intro ext) (simp add: set_body_reads(2))

lemma exists_set_body [simp]: "deref (set_body m a b) x = None \<longleftrightarrow> deref m x = None"
proof (cases "deref m a = None")
  case True
  then show ?thesis by (cases "x = a") (auto simp: set_body_def put_def deref_def)
next
  case False
  then show ?thesis using set_body_reads(1) [OF False, of b x] by auto
qed

subsection \<open>Closing\<close>

lemma close_effect:
  assumes "deref m u \<noteq> None" "body_of m u = OBJECT_UPVALUE place cell su"
  shows "body_of (close_into_cell m u) = (body_of m)(u := OBJECT_UPVALUE PLACE_CELL (ref_get m place cell) su)"
    "m_slots (close_into_cell m u) = m_slots m"
  using assms(1) by (simp_all add: close_into_cell_def assms(2) Let_def body_set_body)

text \<open>A captured place reads through its own upvalue, its slot and the coroutine it was saved in.\<close>

lemma getupval_cong:
  assumes "body_of m' u = body_of m u" "m_slots m' = m_slots m"
    "\<And>co i cell su. body_of m u = OBJECT_UPVALUE (PLACE_SAVED co i) cell su \<Longrightarrow>
       ref_get m' (PLACE_SAVED co i) cell = ref_get m (PLACE_SAVED co i) cell"
  shows "bc_getupval m' u = bc_getupval m u"
proof (cases "\<exists>co i cell su. body_of m u = OBJECT_UPVALUE (PLACE_SAVED co i) cell su")
  case True
  then obtain co i cell su where b: "body_of m u = OBJECT_UPVALUE (PLACE_SAVED co i) cell su" by blast
  show ?thesis using assms(3) [OF b] by (simp add: bc_getupval_def assms(1) b)
next
  case False
  then show ?thesis
    by (auto simp: bc_getupval_def assms(1) ref_get_def assms(2) split: LhatBody.splits LhatPlace.splits)
qed

text \<open>Changing an upvalue does not change what a coroutine holds.\<close>

lemma saved_upvalue:
  assumes "body_of m' = (body_of m)(u := OBJECT_UPVALUE p c s)" "body_of m u = OBJECT_UPVALUE p' c' s'"
  shows "ref_get m' (PLACE_SAVED co i) cell = ref_get m (PLACE_SAVED co i) cell"
  by (cases "co = u") (simp_all add: ref_get_def assms)

lemma close_getupval:
  assumes "deref m u \<noteq> None" "body_of m u = OBJECT_UPVALUE place cell su"
  shows "bc_getupval (close_into_cell m u) x = bc_getupval m x"
proof (cases "x = u")
  case True
  then show ?thesis using close_effect [OF assms] by (simp add: bc_getupval_def assms(2) ref_get_def)
next
  case False
  then show ?thesis
    by (intro getupval_cong saved_upvalue [OF close_effect(1) [OF assms] assms(2)])
       (simp_all add: close_effect [OF assms])
qed

lemma getupval_open [simp]: "bc_getupval (m\<lparr>m_open := us\<rparr>) u = bc_getupval m u"
  by (simp add: bc_getupval_def ref_get_def open_reads(1) split: LhatBody.splits LhatPlace.splits)

lemma close_out:
  assumes "run_ok m" "m_open m = u # us"
  defines "m1 \<equiv> close_into_cell (m\<lparr>m_open := us\<rparr>) u"
  shows "run_ok m1" "m_open m1 = us" "m_slots m1 = m_slots m" "bc_getupval m1 x = bc_getupval m x"
    "x \<noteq> u \<Longrightarrow> body_of m1 x = body_of m x" "\<exists>v su. body_of m1 u = OBJECT_UPVALUE PLACE_CELL v su"
proof -
  have u: "u \<in> set (m_open m)" by (simp add: assms(2))
  obtain i cell su where b: "body_of m u = OBJECT_UPVALUE (PLACE_SLOT i) cell su"
    by (rule open_body [OF assms(1) u])
  have e: "deref (m\<lparr>m_open := us\<rparr>) u \<noteq> None"
    using live_exists [OF open_live [OF _ u]] assms(1) by (simp add: run_ok_def open_reads)
  have bo: "body_of (m\<lparr>m_open := us\<rparr>) u = OBJECT_UPVALUE (PLACE_SLOT i) cell su" by (simp add: open_reads b)
  show "run_ok m1" using close_out_run [OF assms(1) u] by (simp add: m1_def assms(2))
  show "m_open m1 = us" by (simp add: m1_def)
  show "m_slots m1 = m_slots m" "x \<noteq> u \<Longrightarrow> body_of m1 x = body_of m x"
    "\<exists>v su. body_of m1 u = OBJECT_UPVALUE PLACE_CELL v su"
    by (simp_all add: m1_def close_effect [OF e bo] open_reads)
  show "bc_getupval m1 x = bc_getupval m x" by (simp add: m1_def close_getupval [OF e bo])
qed

lemma close_upvalues_effect:
  "run_ok m \<Longrightarrow>
     m_slots (vm_close_upvalues m lowest) = m_slots m \<and>
     bc_getupval (vm_close_upvalues m lowest) x = bc_getupval m x \<and>
     m_open (vm_close_upvalues m lowest) = dropWhile (\<lambda>u. lowest \<le> open_slot m u) (m_open m) \<and>
     (x \<in> set (takeWhile (\<lambda>u. lowest \<le> open_slot m u) (m_open m)) \<longrightarrow>
        (\<exists>v su. body_of (vm_close_upvalues m lowest) x = OBJECT_UPVALUE PLACE_CELL v su)) \<and>
     (x \<notin> set (takeWhile (\<lambda>u. lowest \<le> open_slot m u) (m_open m)) \<longrightarrow>
        body_of (vm_close_upvalues m lowest) x = body_of m x)"
proof (induction m lowest rule: vm_close_upvalues.induct)
  case (1 m lowest)
  show ?case
  proof (cases "m_open m \<noteq> [] \<and> lowest \<le> open_slot m (hd (m_open m))")
    case True
    then obtain u us where o: "m_open m = u # us" and l: "lowest \<le> open_slot m u" by (cases "m_open m") auto
    let ?m1 = "close_into_cell (m\<lparr>m_open := us\<rparr>) u"
    note c = close_out [OF 1(2) o]
    have d: "u \<notin> set us" using open_ok_distinct [of m] 1(2) o by (simp add: run_ok_def)
    have s: "open_slot ?m1 w = open_slot m w" if "w \<in> set us" for w
    proof -
      have "w \<noteq> u" using that d by auto
      from c(5) [OF this] show ?thesis by (simp only: open_slot_def)
    qed
    have t: "takeWhile (\<lambda>u. lowest \<le> open_slot ?m1 u) us = takeWhile (\<lambda>u. lowest \<le> open_slot m u) us"
      "dropWhile (\<lambda>u. lowest \<le> open_slot ?m1 u) us = dropWhile (\<lambda>u. lowest \<le> open_slot m u) us"
      by (rule takeWhile_cong dropWhile_cong, simp, simp add: s)+
    have eq: "vm_close_upvalues m lowest = vm_close_upvalues ?m1 lowest"
      using True by (subst vm_close_upvalues.simps) (simp add: o)
    have ih: "m_slots (vm_close_upvalues ?m1 lowest) = m_slots ?m1 \<and>
        bc_getupval (vm_close_upvalues ?m1 lowest) x = bc_getupval ?m1 x \<and>
        m_open (vm_close_upvalues ?m1 lowest) = dropWhile (\<lambda>u. lowest \<le> open_slot ?m1 u) (m_open ?m1) \<and>
        (x \<in> set (takeWhile (\<lambda>u. lowest \<le> open_slot ?m1 u) (m_open ?m1)) \<longrightarrow>
          (\<exists>v su. body_of (vm_close_upvalues ?m1 lowest) x = OBJECT_UPVALUE PLACE_CELL v su)) \<and>
        (x \<notin> set (takeWhile (\<lambda>u. lowest \<le> open_slot ?m1 u) (m_open ?m1)) \<longrightarrow>
          body_of (vm_close_upvalues ?m1 lowest) x = body_of ?m1 x)"
      using 1(1) [OF True] c(1) by (simp add: o)
    show ?thesis
    proof (cases "x = u")
      case xu: True
      have "u \<notin> set (takeWhile (\<lambda>u. lowest \<le> open_slot m u) us)" using d by (meson set_takeWhileD)
      then show ?thesis using ih c l xu by (simp add: eq o t del: set_takeWhileD)
    next
      case False
      then show ?thesis using ih c l by (simp add: eq o t)
    qed
  next
    case False
    then have "vm_close_upvalues m lowest = m" by (subst vm_close_upvalues.simps) (rule if_not_P)
    moreover have "takeWhile (\<lambda>u. lowest \<le> open_slot m u) (m_open m) = []"
      "dropWhile (\<lambda>u. lowest \<le> open_slot m u) (m_open m) = m_open m"
      using False by (cases "m_open m"; simp)+
    ultimately show ?thesis by simp
  qed
qed

lemma drop_open_filter:
  assumes "open_ok m"
  shows "dropWhile (\<lambda>u. lowest \<le> open_slot m u) (m_open m) = filter (\<lambda>u. open_slot m u < lowest) (m_open m)"
    "set (takeWhile (\<lambda>u. lowest \<le> open_slot m u) (m_open m)) = {u \<in> set (m_open m). lowest \<le> open_slot m u}"
proof -
  have f: "dropWhile (\<lambda>u. lowest \<le> at u) us = filter (\<lambda>u. at u < lowest) us \<and>
      set (takeWhile (\<lambda>u. lowest \<le> at u) us) = {u \<in> set us. lowest \<le> at u}"
    if "sorted_wrt (\<lambda>u w. at w < at u) us" for us and at :: "addr \<Rightarrow> nat"
    using that
  proof (induction us)
    case (Cons a us)
    show ?case
    proof (cases "lowest \<le> at a")
      case False
      have "at w < lowest" if "w \<in> set us" for w using that Cons.prems False by force
      then show ?thesis using False by (auto simp: not_le filter_id_conv)
    qed (use Cons in auto)
  qed simp
  have "sorted_wrt (\<lambda>u w. open_slot m w < open_slot m u) (m_open m)" using assms by (simp add: open_ok_def)
  from f [OF this]
show "dropWhile (\<lambda>u. lowest \<le> open_slot m u) (m_open m) = filter (\<lambda>u. open_slot m u < lowest) (m_open m)"
    "set (takeWhile (\<lambda>u. lowest \<le> open_slot m u) (m_open m)) = {u \<in> set (m_open m). lowest \<le> open_slot m u}"
    by blast+
qed

subsection \<open>Capturing\<close>

lemma capture_finds:
  "sorted_wrt (\<lambda>u w. at w < at u) us \<Longrightarrow> u \<in> set us \<Longrightarrow>
     dropWhile (\<lambda>w. at u < (at w :: nat)) us \<noteq> [] \<and> hd (dropWhile (\<lambda>w. at u < at w) us) = u"
  by (induction us) auto

lemma capture_hit:
  assumes "run_ok m" "u \<in> set (m_open m)" "open_slot m u = slot"
  shows "vm_capture m slot = (u, m)"
proof -
  have "sorted_wrt (\<lambda>u w. open_slot m w < open_slot m u) (m_open m)"
    using assms(1) by (simp add: run_ok_def open_ok_def)
  from capture_finds [OF this assms(2)] show ?thesis by (simp add: vm_capture_def Let_def assms(3))
qed

text \<open>The upvalue of a slot is the one place of it, and it reads the slot.\<close>

lemma capture_effect:
  assumes "vm_capture m slot = (u, m1)" "run_ok m" "slot_rooted m slot"
  shows "run_ok m1" "u \<in> set (m_open m1)" "open_slot m1 u = slot" "bc_getupval m1 u = slots_get (m_slots m) slot"
    "m_slots m1 = m_slots m"
proof -
  show r: "run_ok m1" using vm_capture_run [OF assms(2,3)] assms(1) by simp
  let ?rest = "dropWhile (\<lambda>u. slot < open_slot m u) (m_open m)"
  have "u \<in> set (m_open m1) \<and> open_slot m1 u = slot \<and> m_slots m1 = m_slots m"
  proof (cases "?rest \<noteq> [] \<and> open_slot m (hd ?rest) = slot")
    case True
    have "(hd ?rest, m) = (u, m1)"
      unfolding assms(1) [symmetric] vm_capture_def Let_def by (rule if_P [OF True, symmetric])
    then have "u = hd ?rest" "m1 = m" by (blast elim: Pair_inject)+
    moreover have "hd ?rest \<in> set (m_open m)" using True hd_in_set set_dropWhileD by metis
    ultimately show ?thesis using True by simp
  next
    case False
    then have "m1 = (snd (object_alloc m (OBJECT_UPVALUE (PLACE_SLOT slot) VALUE_NIL None)))
        \<lparr>m_open := takeWhile (\<lambda>u. slot < open_slot m u) (m_open m) @ u # ?rest\<rparr>"
      "u = length (m_memory m)"
      using assms(1) by (auto simp: vm_capture_def Let_def object_alloc_def)
    then show ?thesis by (simp add: open_slot_def open_reads alloc_reads)
  qed
  then show o: "u \<in> set (m_open m1)" "open_slot m1 u = slot" and s: "m_slots m1 = m_slots m" by blast+
  obtain i cell su where b: "body_of m1 u = OBJECT_UPVALUE (PLACE_SLOT i) cell su"
    by (rule open_body [OF r o(1)])
  then have "i = slot" using open_slot_upvalue [OF b] o(2) by simp
  then show "bc_getupval m1 u = slots_get (m_slots m) slot" using b s by (simp add: bc_getupval_def ref_get_def)
qed

subsection \<open>Suspending\<close>

text \<open>The state of a coroutine: its saved registers and captures.\<close>

definition saved_registers :: "Machine \<Rightarrow> addr \<Rightarrow> LhatValue list" where
  "saved_registers m co =
     (case body_of m co of OBJECT_COROUTINE source frame walking held captures \<Rightarrow> cf_registers frame | _ \<Rightarrow> [])"

lemma register_count_saved: "register_count m co = length (saved_registers m co)"
  by (simp add: register_count_def saved_registers_def split: LhatBody.splits)

text \<open>Nothing but the parts of the coroutine itself changes.\<close>

definition only_coroutine :: "addr \<Rightarrow> Machine \<Rightarrow> Machine \<Rightarrow> bool" where
  "only_coroutine co m m' \<longleftrightarrow>
     (\<forall>x. x \<noteq> co \<longrightarrow> body_of m' x = body_of m x) \<and> m_slots m' = m_slots m \<and> m_open m' = m_open m \<and>
     m_frames m' = m_frames m \<and> (\<forall>x. deref m' x = None \<longleftrightarrow> deref m x = None)"

lemma only_coroutine_trans:
  "only_coroutine co m m1 \<Longrightarrow> only_coroutine co m1 m' \<Longrightarrow> only_coroutine co m m'"
  by (simp add: only_coroutine_def)

lemma set_body_rest [simp]:
  "m_slots (set_body m a b) = m_slots m" "m_open (set_body m a b) = m_open m"
  "m_frames (set_body m a b) = m_frames m"
  by (simp_all add: set_body_def put_def)

lemma barrier_frames [simp]:
  "m_frames (lhat_gc_barrier m a v) = m_frames m" "m_frames (lhat_gc_barrier_back m a v) = m_frames m"
  using recolored_fields(7) [OF forward.recolors] recolored_fields(7) [OF backward.recolors] by simp_all

lemma save_register_effect:
  fixes base i :: nat
  assumes "deref m co \<noteq> None" "coroutine_of m co"
  defines "m' \<equiv> save_register co base m i"
  shows "only_coroutine co m m'" "coroutine_of m' co" "captures_of m' co = captures_of m co"
    "closure_of m' co = closure_of m co"
    "saved_registers m' co = (saved_registers m co)[i := slots_get (m_slots m) (base + i)]"
proof -
  obtain source frame walking held captures where
    c: "body_of m co = OBJECT_COROUTINE source frame walking held captures"
    using assms(2) by (auto simp: coroutine_of_def)
  let ?b = "OBJECT_COROUTINE source (frame\<lparr>cf_registers := (cf_registers frame)
      [i := slots_get (m_slots m) (base + i)]\<rparr>) walking held captures"
  have b: "body_of m' = (body_of m)(co := ?b)"
    by (simp add: m'_def save_register_def Let_def set_saved_def c body_set_body [OF assms(1)])
  show "only_coroutine co m m'"
    by (simp add: only_coroutine_def b) (simp add: m'_def save_register_def Let_def set_saved_def c)
  show "coroutine_of m' co" "captures_of m' co = captures_of m co" "closure_of m' co = closure_of m co"
    "saved_registers m' co = (saved_registers m co)[i := slots_get (m_slots m) (base + i)]"
    by (simp_all add: coroutine_of_def captures_of_def closure_of_def saved_registers_def b c)
qed

lemma save_registers_effect:
  fixes base :: nat
  assumes "deref m co \<noteq> None" "coroutine_of m co"
  defines "m' \<equiv> save_registers m co base"
  shows "only_coroutine co m m'" "coroutine_of m' co" "captures_of m' co = captures_of m co"
    "closure_of m' co = closure_of m co"
    "saved_registers m' co = map (\<lambda>i. slots_get (m_slots m) (base + i)) [0..<register_count m co]"
proof -
  let ?n = "register_count m co"
  let ?s = "\<lambda>i. slots_get (m_slots m) (base + i)"
  have "only_coroutine co m (foldl (save_register co base) m [0..<k]) \<and>
      coroutine_of (foldl (save_register co base) m [0..<k]) co \<and>
      captures_of (foldl (save_register co base) m [0..<k]) co = captures_of m co \<and>
      closure_of (foldl (save_register co base) m [0..<k]) co = closure_of m co \<and>
      saved_registers (foldl (save_register co base) m [0..<k]) co =
        map ?s [0..<k] @ drop k (saved_registers m co)" if "k \<le> ?n" for k
    using that
  proof (induction k)
    case 0
    then show ?case using assms(2) by (simp add: only_coroutine_def)
  next
    case (Suc k)
    let ?m = "foldl (save_register co base) m [0..<k]"
    have ih: "only_coroutine co m ?m" "coroutine_of ?m co" "captures_of ?m co = captures_of m co"
      "closure_of ?m co = closure_of m co"
      "saved_registers ?m co = map ?s [0..<k] @ drop k (saved_registers m co)"
      using Suc by simp_all
    have e: "deref ?m co \<noteq> None" using ih(1) assms(1) by (simp add: only_coroutine_def)
    have sl: "m_slots ?m = m_slots m" using ih(1) by (simp add: only_coroutine_def)
    note f = save_register_effect [OF e ih(2), of base k]
    have d: "drop k (saved_registers m co) = saved_registers m co ! k # drop (Suc k) (saved_registers m co)"
      using Suc.prems by (simp add: register_count_saved Cons_nth_drop_Suc)
    have "saved_registers (save_register co base ?m k) co = map ?s [0..<Suc k] @ drop (Suc k) (saved_registers m co)"
      unfolding f(5) ih(5) sl d by (simp add: list_update_append)
    then show ?case using f ih only_coroutine_trans [OF ih(1) f(1)] by simp
  qed
  from this [of ?n] show "only_coroutine co m m'" "coroutine_of m' co" "captures_of m' co = captures_of m co"
    "closure_of m' co = closure_of m co" "saved_registers m' co = map ?s [0..<?n]"
    by (simp_all add: m'_def save_registers_def register_count_saved)
qed

text \<open>The captures of the frame go with it.\<close>

lemma retarget_one_effect:
  fixes base :: nat
  assumes "run_ok m" "m_open m = u # us" "deref m co \<noteq> None" "coroutine_of m co"
  defines "m' \<equiv> retarget_one m co base"
  shows "\<exists>cell. body_of m' u = OBJECT_UPVALUE (PLACE_SAVED co (open_slot m u - base)) cell (Some co)"
    "x \<noteq> u \<Longrightarrow> x \<noteq> co \<Longrightarrow> body_of m' x = body_of m x" "u \<noteq> co"
    "saved_registers m' co = saved_registers m co" "closure_of m' co = closure_of m co"
    "captures_of m' co = u # captures_of m co" "m_slots m' = m_slots m" "m_frames m' = m_frames m"
    "deref m' x = None \<longleftrightarrow> deref m x = None"
proof -
  have u: "u \<in> set (m_open m)" by (simp add: assms(2))
  obtain i cell su where b: "body_of m u = OBJECT_UPVALUE (PLACE_SLOT i) cell su"
    by (rule open_body [OF assms(1) u])
  have e: "deref m u \<noteq> None" using live_exists [OF open_live [OF _ u]] assms(1) by (simp add: run_ok_def)
  obtain source frame walking held captures where
    c: "body_of m co = OBJECT_COROUTINE source frame walking held captures"
    using assms(4) by (auto simp: coroutine_of_def)
  show ne: "u \<noteq> co" using b c by auto
  let ?c = "OBJECT_COROUTINE source frame walking held (u # captures)"
  let ?u = "OBJECT_UPVALUE (PLACE_SAVED co (i - base)) cell (Some co)"
  note eq = retarget_one_is [OF assms(2) b c e, of base, folded m'_def]
  have e1: "deref ((set_body m co ?c)\<lparr>m_open := us\<rparr>) u \<noteq> None" using e by (simp add: open_reads)
  have body: "body_of m' = (body_of m)(co := ?c, u := ?u)"
    by (simp add: eq body_set_body [OF e1] open_reads body_set_body [OF assms(3)])
  show "\<exists>cell. body_of m' u = OBJECT_UPVALUE (PLACE_SAVED co (open_slot m u - base)) cell (Some co)"
    "x \<noteq> u \<Longrightarrow> x \<noteq> co \<Longrightarrow> body_of m' x = body_of m x"
    by (simp_all add: body open_slot_upvalue [OF b])
  show "saved_registers m' co = saved_registers m co" "closure_of m' co = closure_of m co"
    "captures_of m' co = u # captures_of m co"
    using ne by (auto simp: saved_registers_def closure_of_def captures_of_def body c)
  show "m_slots m' = m_slots m" "m_frames m' = m_frames m" "deref m' x = None \<longleftrightarrow> deref m x = None"
    by (simp_all add: eq open_reads)
qed

definition taken :: "Machine \<Rightarrow> nat \<Rightarrow> addr list" where
  "taken m base = takeWhile (\<lambda>u. base \<le> open_slot m u) (m_open m)"

lemma retarget_effect:
  "run_ok m \<Longrightarrow> owned m co \<Longrightarrow> coroutine_of m co \<Longrightarrow>
     (x \<in> set (taken m base) \<longrightarrow>
        (\<exists>cell. body_of (retarget m co base) x = OBJECT_UPVALUE (PLACE_SAVED co (open_slot m x - base)) cell (Some co))) \<and>
     (x \<notin> set (taken m base) \<and> x \<noteq> co \<longrightarrow> body_of (retarget m co base) x = body_of m x) \<and>
     co \<notin> set (taken m base) \<and>
     saved_registers (retarget m co base) co = saved_registers m co \<and>
     closure_of (retarget m co base) co = closure_of m co \<and>
     captures_of (retarget m co base) co = rev (taken m base) @ captures_of m co \<and>
     m_open (retarget m co base) = dropWhile (\<lambda>u. base \<le> open_slot m u) (m_open m) \<and>
     m_slots (retarget m co base) = m_slots m \<and> m_frames (retarget m co base) = m_frames m \<and>
     (deref (retarget m co base) x = None \<longleftrightarrow> deref m x = None)"
proof (induction m co base rule: retarget.induct)
  case (1 m co base)
  show ?case
  proof (cases "m_open m \<noteq> [] \<and> base \<le> open_slot m (hd (m_open m))")
    case True
    then obtain u us where o: "m_open m = u # us" and l: "base \<le> open_slot m u" by (cases "m_open m") auto
    let ?m1 = "retarget_one m co base"
    note r = retarget_one_run [OF 1(2,3) conjunct1 [OF True] 1(4), of base]
    have e: "deref m co \<noteq> None" using 1(3) live_exists by (simp add: owned_def)
    note f = retarget_one_effect(1,2,4-9) [OF 1(2) o e 1(4), where base = base]
      retarget_one_effect(3) [OF 1(2) o e 1(4)]
    have eq: "retarget m co base = retarget ?m1 co base" using True by (subst retarget.simps) simp
    have d: "u \<notin> set us" using open_ok_distinct [of m] 1(2) o by (simp add: run_ok_def)
    have s: "open_slot ?m1 w = open_slot m w" if "w \<in> set us" for w
    proof -
      have wo: "w \<in> set (m_open m)" using that by (simp add: o)
      obtain i cell su where "body_of m w = OBJECT_UPVALUE (PLACE_SLOT i) cell su"
        by (rule open_body [OF 1(2) wo])
      then have "w \<noteq> co" using 1(4) by (auto simp: coroutine_of_def)
      moreover have "w \<noteq> u" using that d by auto
      ultimately have "body_of ?m1 w = body_of m w" by (intro f(2))
      then show ?thesis by (simp only: open_slot_def)
    qed
    have om: "m_open ?m1 = us" by (simp add: o)
    have t: "taken ?m1 base = takeWhile (\<lambda>u. base \<le> open_slot m u) us"
      "dropWhile (\<lambda>u. base \<le> open_slot ?m1 u) us = dropWhile (\<lambda>u. base \<le> open_slot m u) us"
      unfolding taken_def om by (rule takeWhile_cong dropWhile_cong, simp, simp add: s)+
    have t': "taken m base = u # taken ?m1 base" using l unfolding t(1) by (simp add: taken_def o)
    have du: "u \<notin> set (taken ?m1 base)" using d by (auto simp: t dest: set_takeWhileD)
    have sx: "open_slot ?m1 x = open_slot m x" if "x \<in> set (taken ?m1 base)"
      using that s by (auto simp: t dest: set_takeWhileD)
    note ih = 1(1) [OF True r(1,2,4)]
    show ?thesis
      unfolding eq t' using ih f du sx by (auto simp: om t(2) o l)
  next
    case False
    then have "retarget m co base = m" by (subst retarget.simps) (rule if_not_P)
    moreover have "taken m base = []" "dropWhile (\<lambda>u. base \<le> open_slot m u) (m_open m) = m_open m"
      using False by (cases "m_open m"; simp add: taken_def)+
    ultimately show ?thesis by simp
  qed
qed

subsection \<open>Resuming\<close>

text \<open>The captures on the coroutine's list come back, the last one at the head of the machine's.\<close>

definition saved_in :: "Machine \<Rightarrow> addr \<Rightarrow> addr \<Rightarrow> bool" where
  "saved_in m co u \<longleftrightarrow> deref m u \<noteq> None \<and>
     (\<exists>off cell su. body_of m u = OBJECT_UPVALUE (PLACE_SAVED co off) cell su)"

lemma reattach_one_effect:
  assumes "captures_of m co = u # us" "saved_in m co u"
  shows "\<exists>m'. reattach_one m co base = Some m' \<and>
     (\<exists>cell. body_of m' u = OBJECT_UPVALUE (PLACE_SLOT (base + saved_offset m u)) cell None) \<and>
     (\<forall>x. x \<noteq> u \<longrightarrow> x \<noteq> co \<longrightarrow> body_of m' x = body_of m x) \<and> u \<noteq> co \<and>
     captures_of m' co = us \<and> m_open m' = u # m_open m \<and> m_slots m' = m_slots m \<and>
     (\<forall>x. deref m' x = None \<longleftrightarrow> deref m x = None)"
proof -
  obtain off cell su where b: "body_of m u = OBJECT_UPVALUE (PLACE_SAVED co off) cell su" and e: "deref m u \<noteq> None"
    using assms(2) by (auto simp: saved_in_def)
  have ec: "deref m co \<noteq> None" using captures_exist [of m co] assms(1) by simp
  obtain source frame walking held captures where
    c: "body_of m co = OBJECT_COROUTINE source frame walking held captures"
    using assms(1) by (auto simp: captures_of_def split: LhatBody.splits)
  have ne: "u \<noteq> co" using b c by auto
  let ?c = "OBJECT_COROUTINE source frame walking held us"
  have b1: "body_of (set_body m co ?c) u = OBJECT_UPVALUE (PLACE_SAVED co off) cell su"
    using ne by (simp add: body_set_body [OF ec] b)
  have e1: "deref (set_body m co ?c) u \<noteq> None" using e by simp
  have eq: "reattach_one m co base = Some ((set_body (set_body m co ?c) u
      (OBJECT_UPVALUE (PLACE_SLOT (base + off)) cell None))\<lparr>m_open := u # m_open m\<rparr>)"
    using e by (simp add: reattach_one_def assms(1) Let_def b set_captures_def c set_upvalue_place_def b1)
  have off: "saved_offset m u = off" by (simp add: saved_offset_def b)
  show ?thesis
    unfolding eq off
    by (intro exI [of _ "(set_body (set_body m co ?c) u
        (OBJECT_UPVALUE (PLACE_SLOT (base + off)) cell None))\<lparr>m_open := u # m_open m\<rparr>"])
       (use ne in \<open>simp add: open_reads body_set_body [OF e1] body_set_body [OF ec] captures_of_def\<close>)
qed

lemma reattach_effect:
  "distinct (captures_of m co) \<Longrightarrow> (\<And>u. u \<in> set (captures_of m co) \<Longrightarrow> saved_in m co u) \<Longrightarrow>
   \<exists>m'. reattach_upvalues m co base = Some m' \<and>
     (\<forall>u \<in> set (captures_of m co).
        \<exists>cell. body_of m' u = OBJECT_UPVALUE (PLACE_SLOT (base + saved_offset m u)) cell None) \<and>
     (\<forall>x. x \<notin> set (captures_of m co) \<longrightarrow> x \<noteq> co \<longrightarrow> body_of m' x = body_of m x) \<and>
     m_open m' = rev (captures_of m co) @ m_open m \<and> m_slots m' = m_slots m"
proof (induction "captures_of m co" arbitrary: m)
  case Nil
  then have n: "captures_of m co = []" by simp
  then have "reattach_upvalues m co base = Some m" by (subst reattach_upvalues.simps) simp
  then show ?case by (simp add: n)
next
  case (Cons u us)
  note c = Cons.hyps(2) [symmetric]
  have "saved_in m co u" using Cons.prems(2) by (simp add: c)
  then obtain m1 where m1: "reattach_one m co base = Some m1"
    "\<exists>cell. body_of m1 u = OBJECT_UPVALUE (PLACE_SLOT (base + saved_offset m u)) cell None"
    "\<forall>x. x \<noteq> u \<longrightarrow> x \<noteq> co \<longrightarrow> body_of m1 x = body_of m x" "u \<noteq> co"
    "captures_of m1 co = us" "m_open m1 = u # m_open m" "m_slots m1 = m_slots m"
    "\<forall>x. deref m1 x = None \<longleftrightarrow> deref m x = None"
    using reattach_one_effect [OF c] by blast
  have d: "distinct us" "u \<notin> set us" using Cons.prems(1) by (simp_all add: c)
  have n: "w \<noteq> co" if "w \<in> set (u # us)" for w
  proof
    assume "w = co"
    then have "saved_in m co co" using Cons.prems(2) [of w] that by (simp add: c)
    then show False using c by (auto simp: saved_in_def captures_of_def)
  qed
  have same: "body_of m1 w = body_of m w" if "w \<in> set us" for w
  proof -
    have "w \<noteq> u" "w \<noteq> co" using that d(2) n [of w] by auto
    then show ?thesis using m1(3) by blast
  qed
  have sv: "saved_in m1 co w" if "w \<in> set us" for w
    using Cons.prems(2) [of w] that m1(8) by (simp add: c saved_in_def same [OF that])
  have so: "saved_offset m1 w = saved_offset m w" if "w \<in> set us" for w
    using same [OF that] by (simp only: saved_offset_def)
  obtain m' where m': "reattach_upvalues m1 co base = Some m'"
    "\<forall>w \<in> set us. \<exists>cell. body_of m' w = OBJECT_UPVALUE (PLACE_SLOT (base + saved_offset m1 w)) cell None"
    "\<forall>x. x \<notin> set us \<longrightarrow> x \<noteq> co \<longrightarrow> body_of m' x = body_of m1 x"
    "m_open m' = rev us @ m_open m1" "m_slots m' = m_slots m1"
    using Cons.hyps(1) [of m1] d(1) sv by (auto simp: m1(5))
  have "reattach_upvalues m co base = Some m'"
    by (subst reattach_upvalues.simps) (simp add: c m1(1) m'(1))
  moreover have "\<exists>cell. body_of m' w = OBJECT_UPVALUE (PLACE_SLOT (base + saved_offset m w)) cell None"
    if "w \<in> set (u # us)" for w
    using that m'(2,3) so m1(2,4) d(2) by (cases "w = u") auto
  ultimately show ?case using m' m1 by (intro exI [of _ m']) (simp add: c)
qed

text \<open>The registers are laid down on the stack again.\<close>

lemma set_registers_slots:
  "base + n \<le> length (m_slots m) \<Longrightarrow> i < n \<Longrightarrow> slots_get (m_slots (set_registers m base g n)) (base + i) = g i"
  "j < base \<Longrightarrow> slots_get (m_slots (set_registers m base g n)) j = slots_get (m_slots m) j"
  "base + n \<le> j \<Longrightarrow> slots_get (m_slots (set_registers m base g n)) j = slots_get (m_slots m) j"
proof -
  show "base + n \<le> length (m_slots m) \<Longrightarrow> i < n \<Longrightarrow> slots_get (m_slots (set_registers m base g n)) (base + i) = g i"
    by (induction n)
       (auto simp: set_registers_Suc set_register_def slots_get_def set_registers_reads nth_list_update less_Suc_eq)
  show "j < base \<Longrightarrow> slots_get (m_slots (set_registers m base g n)) j = slots_get (m_slots m) j"
    by (induction n) (auto simp: set_registers_Suc set_register_def slots_get_def)
  show "base + n \<le> j \<Longrightarrow> slots_get (m_slots (set_registers m base g n)) j = slots_get (m_slots m) j"
    by (induction n) (auto simp: set_registers_Suc set_register_def slots_get_def)
qed

subsection \<open>There and back\<close>

text \<open>The registers with what was sent laid over them from \<open>into\<close> on.\<close>

definition laid_over :: "nat \<Rightarrow> LhatValue list \<Rightarrow> LhatValue \<Rightarrow> nat \<Rightarrow> LhatValue" where
  "laid_over into laid before i = (if into \<le> i \<and> i < into + length laid then laid ! (i - into) else before)"

lemma set_suspended_effect:
  assumes "deref m co \<noteq> None" "coroutine_of m co"
  shows "only_coroutine co m (set_suspended m co into cleanups)"
    "captures_of (set_suspended m co into cleanups) co = captures_of m co"
    "closure_of (set_suspended m co into cleanups) co = closure_of m co"
    "saved_registers (set_suspended m co into cleanups) co = saved_registers m co"
    "resuming (set_suspended m co into cleanups) co" "sent_into (set_suspended m co into cleanups) co = into"
proof -
  obtain source frame walking held captures where
    c: "body_of m co = OBJECT_COROUTINE source frame walking held captures"
    using assms(2) by (auto simp: coroutine_of_def)
  show "only_coroutine co m (set_suspended m co into cleanups)"
    "captures_of (set_suspended m co into cleanups) co = captures_of m co"
    "closure_of (set_suspended m co into cleanups) co = closure_of m co"
    "saved_registers (set_suspended m co into cleanups) co = saved_registers m co"
    "resuming (set_suspended m co into cleanups) co" "sent_into (set_suspended m co into cleanups) co = into"
    by (simp_all add: set_suspended_def c only_coroutine_def body_set_body [OF assms(1)] captures_of_def
        closure_of_def saved_registers_def resuming_def sent_into_def coroutine_frame_def)
qed

lemma set_running_effect:
  assumes "coroutine_of m co"
  shows "x \<noteq> co \<Longrightarrow> body_of (set_running m co) x = body_of m x" "m_slots (set_running m co) = m_slots m"
    "m_open (set_running m co) = m_open m" "m_frames (set_running m co) = m_frames m"
  using assms
  by (auto simp: coroutine_of_def set_running_def set_body_def put_def body_of_def deref_def)

lemma yield_effect:
  fixes into cleanups :: nat
  assumes "run_ok m" "may_yield m co" "base = fr_base (last (m_frames m))"
  defines "m' \<equiv> yield_frame m co base into cleanups"
  shows "m_slots m' = m_slots m" "captures_of m' co = rev (taken m base) @ captures_of m co"
    "saved_registers m' co = map (\<lambda>i. slots_get (m_slots m) (base + i)) [0..<register_count m co]"
    "closure_of m' co = closure_of m co"
    "u \<in> set (taken m base) \<Longrightarrow>
      \<exists>cell. body_of m' u = OBJECT_UPVALUE (PLACE_SAVED co (open_slot m u - base)) cell (Some co)"
    "x \<notin> set (taken m base) \<Longrightarrow> x \<noteq> co \<Longrightarrow> body_of m' x = body_of m x"
    "m_open m' = dropWhile (\<lambda>u. base \<le> open_slot m u) (m_open m)"
    "deref m' x = None \<longleftrightarrow> deref m x = None" "co \<notin> set (m_open m)" "coroutine_of m' co"
    "resuming m' co" "sent_into m' co = into"
proof -
  let ?f = "last (m_frames m)"
  have y: "held_object m co" "coroutine_of m co" "m_frames m \<noteq> []" "register_count m co \<le> frame_width m ?f"
    using assms(2) by (simp_all add: may_yield_def)
  have g: "gc_ok m" using assms(1) by (simp add: run_ok_def)
  have o: "owned m co" by (rule held_owned [OF y(1) g])
  then have e: "deref m co \<noteq> None" using live_exists by (simp add: owned_def)
  have rooted: "slot_rooted m (base + i)" if "i < register_count m co" for i
    using that y(3,4) assms(3) unfolding slot_rooted_def by (intro bexI [of _ ?f]) auto
  have no: "w \<noteq> co" if w: "w \<in> set (m_open m)" for w
  proof -
    obtain i cell su where "body_of m w = OBJECT_UPVALUE (PLACE_SLOT i) cell su" by (rule open_body [OF assms(1) w])
    then show ?thesis using y(2) by (auto simp: coroutine_of_def)
  qed
  then show "co \<notin> set (m_open m)" by blast
  let ?s = "save_registers m co base"
  note f1 = save_registers_effect [OF e y(2), of base]
  have r1: "run_ok ?s" "owned ?s co"
    unfolding save_registers_def by (rule save_registers_run [OF assms(1) o rooted], assumption)+
  have f1': "m_slots ?s = m_slots m" "m_open ?s = m_open m" "\<And>x. deref ?s x = None \<longleftrightarrow> deref m x = None"
    "\<And>x. x \<noteq> co \<Longrightarrow> body_of ?s x = body_of m x"
    using f1(1) by (simp_all add: only_coroutine_def)
  have so: "open_slot ?s w = open_slot m w" if "w \<in> set (m_open m)" for w
    using f1'(4) [OF no [OF that]] by (simp only: open_slot_def)
  have t: "taken ?s base = taken m base"
    "dropWhile (\<lambda>u. base \<le> open_slot ?s u) (m_open m) = dropWhile (\<lambda>u. base \<le> open_slot m u) (m_open m)"
    unfolding taken_def f1'(2) by (rule takeWhile_cong dropWhile_cong, simp, simp add: so)+
  let ?t = "retarget ?s co base"
  note f2 = retarget_effect [OF r1 f1(2), of _ base, unfolded t]
  have c2: "coroutine_of ?t co" using retarget_run [OF r1 f1(2)] by blast
  have e2: "deref ?t co \<noteq> None" using f2 [of co] f1'(3) e by simp
  note f3 = set_suspended_effect [OF e2 c2, of into cleanups]
  let ?z = "set_suspended ?t co into cleanups"
  have b: "body_of m' = body_of ?z" "deref m' = deref ?z" "m_slots m' = m_slots ?z" "m_open m' = m_open ?z"
    unfolding m'_def yield_frame_def Let_def
    by (cases "0 < cleanups"; simp only: if_True if_False frames_body carriers_run; simp)+
  have in_open: "w \<in> set (m_open m)" if "w \<in> set (taken m base)" for w
    using that by (auto simp: taken_def dest: set_takeWhileD)
  show "m_slots m' = m_slots m" "m_open m' = dropWhile (\<lambda>u. base \<le> open_slot m u) (m_open m)"
    "deref m' x = None \<longleftrightarrow> deref m x = None"
    using f3(1) f2 [of x] f1' t(2) by (simp_all add: b only_coroutine_def)
  show "captures_of m' co = rev (taken m base) @ captures_of m co" "closure_of m' co = closure_of m co"
    "saved_registers m' co = map (\<lambda>i. slots_get (m_slots m) (base + i)) [0..<register_count m co]"
    using f3 f2 f1 by (simp_all add: captures_of_def closure_of_def saved_registers_def b)
  show "\<exists>cell. body_of m' u = OBJECT_UPVALUE (PLACE_SAVED co (open_slot m u - base)) cell (Some co)"
    if "u \<in> set (taken m base)"
    using f2 [of u] that no [OF in_open [OF that]] f3(1) so [OF in_open [OF that]]
    by (simp add: b only_coroutine_def)
  show "body_of m' x = body_of m x" if "x \<notin> set (taken m base)" "x \<noteq> co"
    using f2 [of x] that f3(1) f1'(4) [OF that(2)] by (simp add: b only_coroutine_def)
  show "coroutine_of m' co" using c2 by (auto simp: b coroutine_of_def set_suspended_def body_set_body [OF e2])
  show "resuming m' co" "sent_into m' co = into"
    using f3(5,6) by (simp_all add: resuming_def sent_into_def coroutine_frame_def b)
qed

lemma taken_parts:
  assumes "run_ok m"
  shows "taken m base @ dropWhile (\<lambda>u. base \<le> open_slot m u) (m_open m) = m_open m"
    "set (taken m base) = {u \<in> set (m_open m). base \<le> open_slot m u}" "distinct (taken m base)"
proof -
  have o: "open_ok m" using assms by (simp add: run_ok_def)
  show "taken m base @ dropWhile (\<lambda>u. base \<le> open_slot m u) (m_open m) = m_open m"
    by (simp only: taken_def takeWhile_dropWhile_id)
  show "set (taken m base) = {u \<in> set (m_open m). base \<le> open_slot m u}" "distinct (taken m base)"
    using drop_open_filter(2) [OF o, of base] open_ok_distinct [OF o] by (simp_all add: taken_def distinct_takeWhile)
qed

lemma other_set_body: "x \<noteq> a \<Longrightarrow> body_of (set_body m a b) x = body_of m x"
  by (simp add: set_body_def put_def body_of_def deref_def)

lemma started_view:
  "x \<noteq> co \<Longrightarrow> body_of (set_running (take_carrier m co) co) x = body_of m x"
  "m_slots (set_running (take_carrier m co) co) = m_slots m"
  "m_open (set_running (take_carrier m co) co) = m_open m"
proof -
  have t: "body_of (take_carrier m co) = body_of m" "m_slots (take_carrier m co) = m_slots m"
    "m_open (take_carrier m co) = m_open m"
    by (simp_all add: take_carrier_def carriers_run split: option.split)
  show "x \<noteq> co \<Longrightarrow> body_of (set_running (take_carrier m co) co) x = body_of m x"
    by (simp add: set_running_def other_set_body t(1) split: LhatBody.splits)
  show "m_slots (set_running (take_carrier m co) co) = m_slots m"
    "m_open (set_running (take_carrier m co) co) = m_open m"
    by (simp_all add: set_running_def t split: LhatBody.splits)
qed

lemma yield_resume:
  fixes into cleanups base' :: nat
  assumes "run_ok m" "may_yield m co" "base = fr_base (last (m_frames m))" "captures_of m co = []"
    "closure_of m co \<noteq> None" "base' + register_count m co \<le> length (m_slots m)"
    "\<And>u. u \<in> set (m_open m) \<Longrightarrow> open_slot m u < base + register_count m co"
    "into + length (sent_slots sent words) \<le> register_count m co"
  shows "\<exists>m'. vm_enter_resume_frame (yield_frame m co base into cleanups) co base' sent words = Some m' \<and>
     m_open m' = m_open m \<and>
     (\<forall>i < register_count m co. slots_get (m_slots m') (base' + i) =
        laid_over into (sent_slots sent words) (slots_get (m_slots m) (base + i)) i) \<and>
     (\<forall>i < base'. slots_get (m_slots m') i = slots_get (m_slots m) i) \<and>
     (\<forall>u \<in> set (m_open m). base \<le> open_slot m u \<longrightarrow>
        open_slot m' u = base' + (open_slot m u - base) \<and>
        bc_getupval m' u = laid_over into (sent_slots sent words) (bc_getupval m u) (open_slot m u - base)) \<and>
     (\<forall>u \<in> set (m_open m). open_slot m u < base \<longrightarrow> open_slot m' u = open_slot m u)"
proof -
  let ?y = "yield_frame m co base into cleanups"
  let ?n = "register_count m co"
  note y = yield_effect(1-8,10-12) [OF assms(1-3), where cleanups = cleanups and into = into]
  note yo = yield_effect(9) [OF assms(1-3)]
  note tp = taken_parts [OF assms(1), of base]
  have cap: "captures_of ?y co = rev (taken m base)" using y(2) by (simp add: assms(4))
  have n: "register_count ?y co = ?n" by (simp add: register_count_saved [of ?y] y(3))
  let ?r = "restore_registers ?y co base'"
  have r: "?r = set_registers ?y base' (\<lambda>i. ref_get ?y (PLACE_SAVED co i) VALUE_NIL) ?n"
    by (simp add: restore_is n)
  have rb: "body_of ?r = body_of ?y" "m_open ?r = m_open ?y" by (simp_all add: r set_registers_reads)
  have rd: "deref ?r u = None \<longleftrightarrow> deref ?y u = None" for u
  proof -
    have "deref (set_registers ?y base' g k) = deref ?y" for g k
      by (induction k) (simp_all add: set_registers_Suc same_objects_reads(1) [OF register_same])
    then show ?thesis by (simp add: r)
  qed
  have val: "slots_get (m_slots ?r) (base' + i) = slots_get (m_slots m) (base + i)" if i: "i < ?n" for i
  proof -
    have "slots_get (m_slots ?r) (base' + i) = ref_get ?y (PLACE_SAVED co i) VALUE_NIL"
      unfolding r by (rule set_registers_slots(1) [OF _ i]) (simp add: y(1) assms(6))
    also have "\<dots> = slots_get (saved_registers ?y co) i"
      using y(9) by (auto simp: coroutine_of_def ref_get_def saved_registers_def)
    also have "\<dots> = slots_get (m_slots m) (base + i)" using i by (simp add: y(3) slots_get_def)
    finally show ?thesis .
  qed
  have so: "saved_offset ?r u = open_slot m u - base" if "u \<in> set (taken m base)" for u
    using y(5) [OF that] by (auto simp: saved_offset_def rb)
  have cr: "captures_of ?r co = rev (taken m base)" using cap by (simp add: captures_of_def rb)
  have "saved_in ?r co u" if u: "u \<in> set (captures_of ?r co)" for u
  proof -
    have t: "u \<in> set (taken m base)" using u by (simp add: cr)
    then have "u \<in> set (m_open m)" by (simp add: tp(2))
    then have "deref m u \<noteq> None" using live_exists [OF open_live] assms(1) by (simp add: run_ok_def)
    then show ?thesis using y(5) [OF t] y(8) [of u] by (auto simp: saved_in_def rb rd)
  qed
  moreover have "distinct (captures_of ?r co)" using tp(3) by (simp add: cr)
  ultimately obtain m1 where m1: "reattach_upvalues ?r co base' = Some m1"
    "\<forall>u \<in> set (taken m base). \<exists>cell. body_of m1 u = OBJECT_UPVALUE (PLACE_SLOT (base' + saved_offset ?r u)) cell None"
    "\<forall>x. x \<notin> set (taken m base) \<longrightarrow> x \<noteq> co \<longrightarrow> body_of m1 x = body_of ?r x"
    "m_open m1 = taken m base @ m_open ?r" "m_slots m1 = m_slots ?r"
    using reattach_effect [of ?r co base'] by (auto simp: cr)
  obtain cl where cl: "closure_of ?y co = Some cl" using assms(5) y(4) by auto
  let ?f = "\<lparr>fr_closure = cl, fr_coroutine = Some co, fr_base = base', fr_answer = VALUE_NIL, fr_answer_run = []\<rparr>"
  let ?m2 = "m1\<lparr>m_frames := m_frames m1 @ [?f]\<rparr>"
  let ?m3 = "set_running (take_carrier ?m2 co) co"
  let ?laid = "sent_slots sent words"
  let ?m' = "fill_slots ?m3 (base' + into) ?laid"
  have m': "?m' = set_registers ?m3 (base' + into) (\<lambda>i. ?laid ! i) (length ?laid)" by (rule fill_slots_is)
  note m3 = started_view [where m = ?m2 and co = co]
  have b': "body_of ?m' x = body_of m1 x" if "x \<noteq> co" for x
    using that by (simp add: m' set_registers_reads m3 frames_body)
  have op: "m_open ?m' = m_open m1" by (simp add: m' set_registers_reads m3)
  have len: "length (m_slots ?m3) = length (m_slots m)"
    by (simp add: m3 m1(5) r y(1) set_registers_reads)
  have low: "slots_get (m_slots ?m') i = slots_get (m_slots m) i" if "i < base'" for i
  proof -
    have "slots_get (m_slots ?m') i = slots_get (m_slots ?m3) i"
      unfolding m' using that by (intro set_registers_slots(2)) simp
    then show ?thesis using that by (simp add: m3 m1(5) r y(1) set_registers_slots(2))
  qed
  have at: "slots_get (m_slots ?m') (base' + i) = laid_over into ?laid (slots_get (m_slots m) (base + i)) i"
    if i: "i < ?n" for i
  proof -
    have m3i: "slots_get (m_slots ?m3) (base' + i) = slots_get (m_slots m) (base + i)"
      using val [OF i] by (simp add: m3 m1(5))
    consider "i < into" | "into \<le> i" "i < into + length ?laid" | "into + length ?laid \<le> i" by linarith
    then show ?thesis
    proof cases
      case 1
      then have "slots_get (m_slots ?m') (base' + i) = slots_get (m_slots ?m3) (base' + i)"
        unfolding m' by (intro set_registers_slots(2)) simp
      then show ?thesis using 1 m3i by (simp add: laid_over_def)
    next
      case 2
      have "slots_get (m_slots ?m') (base' + into + (i - into)) = ?laid ! (i - into)"
        unfolding m' using 2 assms(6,8) by (intro set_registers_slots(1)) (simp_all add: len)
      then show ?thesis using 2 by (simp add: laid_over_def)
    next
      case 3
      then have "slots_get (m_slots ?m') (base' + i) = slots_get (m_slots ?m3) (base' + i)"
        unfolding m' by (intro set_registers_slots(3)) simp
      then show ?thesis using 3 m3i by (simp add: laid_over_def)
    qed
  qed
  have no: "u \<noteq> co" if "u \<in> set (m_open m)" for u using yo that by auto
  have opened: "open_slot ?m' u = base' + (open_slot m u - base) \<and>
      bc_getupval ?m' u = laid_over into ?laid (bc_getupval m u) (open_slot m u - base)"
    if u: "u \<in> set (m_open m)" "base \<le> open_slot m u" for u
  proof -
    have t: "u \<in> set (taken m base)" using u by (simp add: tp(2))
    obtain cell where b: "body_of ?m' u = OBJECT_UPVALUE (PLACE_SLOT (base' + (open_slot m u - base))) cell None"
      using m1(2) t so [OF t] b' [OF no [OF u(1)]] by auto
    obtain i c s where bm: "body_of m u = OBJECT_UPVALUE (PLACE_SLOT i) c s" by (rule open_body [OF assms(1) u(1)])
    have i: "open_slot m u = i" by (rule open_slot_upvalue [OF bm])
    have "i - base < ?n" "base + (i - base) = i" using assms(7) [OF u(1)] u(2) i by auto
    with at [of "i - base"] show ?thesis
      by (simp add: open_slot_upvalue [OF b] i) (simp add: bc_getupval_def b bm ref_get_def i)
  qed
  have below: "open_slot ?m' u = open_slot m u" if u: "u \<in> set (m_open m)" "open_slot m u < base" for u
  proof -
    have "u \<notin> set (taken m base)" using u by (simp add: tp(2))
    then have "body_of ?m' u = body_of m u"
      using m1(3) y(6) [of u] b' [OF no [OF u(1)]] no [OF u(1)] by (simp add: rb)
    then show ?thesis by (simp only: open_slot_def)
  qed
  have "vm_enter_resume_frame ?y co base' sent words = Some ?m'"
    by (simp add: vm_enter_resume_frame_def cl m1(1) y(10,11) Let_def)
  moreover have "m_open ?m' = m_open m" using tp(1) by (simp add: op m1(4) rb y(7))
  ultimately show ?thesis using at low opened below by blast
qed

end
