(* ===== verification/Lhat_Hazards.thy ===== *)
theory Lhat_Hazards
  imports Lhat_Captures
begin

text \<open>
  Where an operation of the program goes past the collector: a write to a captured place of a
  suspended coroutine, whose barrier asks about the upvalue and not about the coroutine, and the
  list of captures of a coroutine, which the collector does not follow.
\<close>

subsection \<open>A write into a suspended coroutine\<close>

lemma value_white_some: "value_white m v \<Longrightarrow> \<exists>c. value_ref v = Some c \<and> white_at m c"
  by (auto simp: value_white_ref split: option.splits)

lemma unguarded_store:
  assumes "m_gcstate m = LHAT_GC_PROPAGATE" "has_color m co LHAT_GC_BLACK" "value_white m v"
    "\<not> has_color m u LHAT_GC_BLACK" "body_of m u = OBJECT_UPVALUE (PLACE_SAVED co i) cell su"
    "i < register_count m co"
  shows "\<not> tricolor (bc_setupval m u v)" "m_gcstate (bc_setupval m u v) = LHAT_GC_PROPAGATE"
proof -
  obtain source frame walking held captures where
    c: "body_of m co = OBJECT_COROUTINE source frame walking held captures" and i: "i < length (cf_registers frame)"
    using assms(6) by (auto simp: register_count_def split: LhatBody.splits)
  obtain w where w: "value_ref v = Some w" "white_at m w" using value_white_some [OF assms(3)] by blast
  let ?m = "set_saved m co i v"
  have eq: "bc_setupval m u v = ?m"
    using assms(4,5) by (simp add: bc_setupval_def upvalue_set_def lhat_gc_barrier_def saved_color)
  have e: "deref m co \<noteq> None" using assms(2) color_exists by blast
  have b: "body_of ?m co = OBJECT_COROUTINE source (frame\<lparr>cf_registers := (cf_registers frame)[i := v]\<rparr>)
      walking held captures"
    by (simp add: set_saved_def c body_set_body [OF e])
  have "v \<in> set ((cf_registers frame)[i := v])" using i by (simp add: set_update_memI)
  then have "Some w \<in> set (own_refs ?m (body_of ?m co))"
    by (auto simp: b own_refs_def object_refs_def w(1) [symmetric])
  then show "\<not> tricolor (bc_setupval m u v)"
    using assms(2) w(2) unfolding eq tricolor_def by (auto simp: saved_color)
  show "m_gcstate (bc_setupval m u v) = LHAT_GC_PROPAGATE" using assms(1) by (simp add: eq saved_color)
qed

lemma setupval_exactly:
  assumes "run_ok m" "live m u" "value_live m v"
    "\<And>co i cell su. body_of m u = OBJECT_UPVALUE (PLACE_SAVED co i) cell su \<Longrightarrow>
       owned m co \<and> i < register_count m co"
  shows "run_ok (bc_setupval m u v) \<longleftrightarrow> setupval_guarded m u v"
proof
  assume r: "run_ok (bc_setupval m u v)"
  show "setupval_guarded m u v"
  proof (rule ccontr)
    assume "\<not> setupval_guarded m u v"
    then obtain co i cell su where b: "body_of m u = OBJECT_UPVALUE (PLACE_SAVED co i) cell su"
      and g: "\<not> (owned m co \<and> (m_gcstate m = LHAT_GC_PROPAGATE \<and> has_color m co LHAT_GC_BLACK \<and>
          value_white m v \<longrightarrow> has_color m u LHAT_GC_BLACK))"
      by (auto simp: setupval_guarded_def split: LhatBody.splits LhatPlace.splits)
    note o = assms(4) [OF b]
    have "\<not> tricolor (bc_setupval m u v)" "m_gcstate (bc_setupval m u v) = LHAT_GC_PROPAGATE"
      using unguarded_store [OF _ _ _ _ b] g o by blast+
    then show False using r by (simp add: run_ok_def gc_ok_def phase_ok_def)
  qed
next
  assume "setupval_guarded m u v"
  then show "run_ok (bc_setupval m u v)" by (rule setupval_run [OF assms(1-3)])
qed

subsection \<open>A capture that is gone\<close>

lemma reattach_one_exists:
  "reattach_one m co base = Some m' \<Longrightarrow> deref m' x = None \<longleftrightarrow> deref m x = None"
proof -
  have s: "deref (set_captures n co us) x = None \<longleftrightarrow> deref n x = None" for n us
    by (simp add: set_captures_def split: LhatBody.splits)
  have p: "deref (set_upvalue_place n u q w) x = None \<longleftrightarrow> deref n x = None" for n u q w
    by (simp add: set_upvalue_place_def split: LhatBody.splits)
  show "reattach_one m co base = Some m' \<Longrightarrow> deref m' x = None \<longleftrightarrow> deref m x = None"
    by (auto simp: reattach_one_def Let_def open_reads(2) p s simp del: not_None_eq
        split: if_splits LhatBody.splits LhatPlace.splits)
qed

lemma reattach_stops:
  "u \<in> set (captures_of m co) \<Longrightarrow> deref m u = None \<Longrightarrow> reattach_upvalues m co base = None"
proof (induction m co base rule: reattach_upvalues.induct)
  case (1 m co base)
  have ne: "captures_of m co \<noteq> []" using 1(2) by auto
  show ?case
  proof (cases "reattach_one m co base")
    case None
    then show ?thesis using ne by (subst reattach_upvalues.simps) simp
  next
    case (Some m1)
    then have "deref m (hd (captures_of m co)) \<noteq> None" by (auto simp: reattach_one_def Let_def split: if_splits)
    then have "u \<noteq> hd (captures_of m co)" using 1(3) by auto
    then have "u \<in> set (captures_of m1 co)"
      using 1(2) ne reattach_captures [OF ne Some] by (cases "captures_of m co") auto
    moreover have "deref m1 u = None" using 1(3) reattach_one_exists [OF Some] by simp
    ultimately show ?thesis using 1(1) [OF ne Some] ne Some by (subst reattach_upvalues.simps) simp
  qed
qed

lemma registers_exist: "deref (set_registers m base g n) = deref m"
  by (induction n) (simp_all add: set_registers_Suc same_objects_reads(1) [OF register_same])

lemma resume_stops:
  assumes "u \<in> set (captures_of m co)" "deref m u = None"
  shows "vm_enter_resume_frame m co base sent words = None"
proof -
  let ?r = "restore_registers m co base"
  have "u \<in> set (captures_of ?r co)" "deref ?r u = None"
    using assms by (simp_all add: restore_is captures_of_def set_registers_reads registers_exist)
  then have "reattach_upvalues ?r co base = None" by (rule reattach_stops)
  then show ?thesis by (simp add: vm_enter_resume_frame_def split: option.split)
qed

end
