(* ===== verification/Lhat_GcProps.thy ===== *)
theory Lhat_GcProps
  imports Lhat_Hazards
begin

text \<open>
  The properties of the collector and of the program beside it, with their instances on a small
  machine: an environment that holds a closure, an open upvalue, and a string that only the weak
  cache knows.
\<close>

subsection \<open>A small machine\<close>

definition idle_machine :: Machine where
  "idle_machine = \<lparr>m_memory = [], m_objects = [], m_count = 0, m_white = LHAT_GC_WHITE0, m_gray = [],
     m_gcstate = LHAT_GC_PAUSE, m_sweep = 0, m_collected = 0, m_released = [], m_threshold = 64,
     m_gc_growth = 200, m_gc_stepmul = 100, m_gc_stepsize = 4, m_gc_paused = False, m_gc_cycles = 0,
     m_slots = [], m_frames = [], m_open = [], m_pending_dispose = [], m_cleanup_carriers = 0, m_traps = False,
     m_hook_live = False, m_environment = None, m_self_key = None, m_modules = None,
     m_host_root = None, m_hostvalue_members = [], m_spare_coroutines = [], m_fault_value = VALUE_NIL,
     m_native_hold = [], m_tuple_scratch = [], m_weak = [], m_weak_count = 0, m_unbound_natives = [],
     m_member_caches = []\<rparr>"

definition made :: "GcColor \<Rightarrow> LhatBody \<Rightarrow> LhatObject option" where
  "made color body = Some \<lparr>ob_color = color, ob_body = body\<rparr>"

definition plain_frame :: "addr \<Rightarrow> nat \<Rightarrow> Frame" where
  "plain_frame closure base = \<lparr>fr_closure = closure, fr_coroutine = None, fr_base = base,
     fr_answer = VALUE_NIL, fr_answer_run = []\<rparr>"

definition sample_machine :: Machine where
  "sample_machine = idle_machine\<lparr>
     m_memory := map (made LHAT_GC_WHITE0)
       [OBJECT_TABLE [] [(VALUE_OBJECT (Some 1), VALUE_OBJECT (Some 2))] None VALUE_NIL,
        OBJECT_STRING, OBJECT_SUBROUTINE [Some 3] (Some 2) None,
        OBJECT_UPVALUE (PLACE_SLOT 1) VALUE_NIL None, OBJECT_STRING],
     m_objects := [4, 3, 2, 1, 0], m_count := 5, m_environment := Some 0,
     m_slots := [VALUE_NIL, VALUE_OBJECT (Some 1), VALUE_NIL, VALUE_NIL],
     m_frames := [plain_frame 2 0], m_open := [3],
     m_weak := [(WEAK_KEY 7, VALUE_OBJECT (Some 4))], m_weak_count := 1\<rparr>"

lemma sample_ok: "run_ok sample_machine"
  by (rule run_check) code_simp

lemma sample_gc: "gc_ok sample_machine"
  using sample_ok by (simp add: run_ok_def)

text \<open>Reachability on a concrete machine.\<close>

definition closed_set :: "Machine \<Rightarrow> addr list \<Rightarrow> bool" where
  "closed_set m S \<longleftrightarrow>
     list_all (\<lambda>a. a \<in> set S) (pointers (root_refs m)) \<and>
     list_all (\<lambda>a. list_all (\<lambda>c. c \<in> set S) (pointers (object_refs m (body_of m a)))) S"

lemma closed_set: "closed_set m S \<Longrightarrow> a \<in> reachable m \<Longrightarrow> a \<in> set S"
  by (rotate_tac, induction rule: reachable.induct)
     (auto simp: closed_set_def list_all_iff pointers_iff roots_def refs_def)

lemma root_reachable: "a \<in> set (pointers (root_refs m)) \<Longrightarrow> a \<in> reachable m"
  by (rule reachable_root) (simp add: roots_def pointers_iff)

lemma ref_reachable:
  "b \<in> reachable m \<Longrightarrow> a \<in> set (pointers (object_refs m (body_of m b))) \<Longrightarrow> a \<in> reachable m"
  by (rule reachable_ref) (simp_all add: refs_def pointers_iff)

definition settled_check :: "Machine \<Rightarrow> bool" where
  "settled_check m \<longleftrightarrow> list_all (\<lambda>a. \<not> owes_cleanups (body_of m a)) (places m)"

lemma settled_check: "settled_check m \<Longrightarrow> settled m"
  by (auto simp: settled_check_def settled_def list_all_iff places_iff)

lemma sample_facts:
  "settled sample_machine" "0 \<in> reachable sample_machine" "4 \<notin> reachable sample_machine"
  "4 \<in> set (m_objects sample_machine)"
proof -
  show "settled sample_machine" by (rule settled_check) code_simp
  show "0 \<in> reachable sample_machine" by (rule root_reachable) code_simp
  have "closed_set sample_machine [0, 1, 2, 3]" by code_simp
  then show "4 \<notin> reachable sample_machine" by (auto dest: closed_set)
  show "4 \<in> set (m_objects sample_machine)" by code_simp
qed

subsection \<open>What is kept\<close>

lemma kept_reachable:
  assumes "gc_ok m" "m' \<in> {lhat_gc_step m, fst (lhat_gc_advance m budget), lhat_gc_collect m}"
    "a \<in> reachable m"
  shows "a \<in> reachable m' \<and> deref m' a \<noteq> None \<and> body_of m' a = body_of m a \<and>
     m_slots m' = m_slots m \<and> m_frames m' = m_frames m \<and> m_open m' = m_open m"
proof -
  have k: "keeps m m'" using assms(2) collector_keeps [OF assms(1)] by blast
  have p: "same_program m m'" using assms(2) collector_program by blast
  have "gc_ok m'" using assms(2) collector_ok [OF assms(1)] by blast
  moreover have r: "a \<in> reachable m'" using keepsD(1) [OF k] assms(3) by blast
  ultimately have d: "deref m' a \<noteq> None" using live_exists reachable_live by (simp add: gc_ok_def)
  with r p keepsD(4) [OF k d] show ?thesis by (simp add: same_program_def del: not_None_eq)
qed

lemma frees_exactly:
  assumes "gc_ok m" "settled m" "a \<in> set (m_objects m)"
  shows "deref (lhat_gc_collect m) a \<noteq> None \<longleftrightarrow> a \<in> reachable m"
proof
  assume "deref (lhat_gc_collect m) a \<noteq> None"
  then show "a \<in> reachable m"
    using collect_survivors [OF assms(1,3)] keepsD(2) [OF keeps_collect [OF assms(1)] assms(2)] by simp
next
  assume "a \<in> reachable m"
  then have "a \<in> reachable (lhat_gc_collect m)" using keepsD(1) [OF keeps_collect [OF assms(1)]] by blast
  then show "deref (lhat_gc_collect m) a \<noteq> None"
    using collector_ok(3) [OF assms(1)] live_exists reachable_live by (simp add: gc_ok_def)
qed

subsection \<open>No use after free\<close>

text \<open>C1: in a run of the program in which the collector steps in anywhere and in any phase, nothing
  that the program can reach has been freed and no weak entry names something freed, as long as each
  step of the run is covered: a write to a captured place of a suspended coroutine does not go behind
  the collector, a coroutine is resumed with its captures still there and in ascending order, at a
  base above every open capture, into a frame as wide as its registers, and a session's top level
  returns without an open capture of a register that outlives it.  These are conditions on the run;
  the code checks none of them.\<close>

theorem run_safety:
  assumes "run_ok m" "machine_run m trace m'" "list_all step_covered trace"
  shows "(\<forall>a \<in> reachable m'. deref m' a \<noteq> None) \<and> (\<forall>a \<in> weak_refs m'. deref m' a \<noteq> None)"
proof -
  have c: "heap_closed m'" using machine_run_ok [OF assms(2,1,3)] by (simp add: run_ok_def gc_ok_def)
  have "deref m' a \<noteq> None" if "a \<in> reachable m'" for a by (rule live_exists [OF reachable_live [OF that c]])
  moreover have "deref m' a \<noteq> None" if "a \<in> weak_refs m'" for a
    using that c live_exists unfolding heap_closed_def by blast
  ultimately show ?thesis by blast
qed

lemma run_safety_witness:
  "reachable (lhat_gc_collect (lhat_gc_step (bc_setupval sample_machine 3 (VALUE_OBJECT (Some 1))))) \<subseteq>
     {a. deref (lhat_gc_collect (lhat_gc_step (bc_setupval sample_machine 3 (VALUE_OBJECT (Some 1))))) a \<noteq> None}"
proof -
  let ?v = "VALUE_OBJECT (Some 1)"
  have "3 \<in> reachable sample_machine" by (rule root_reachable) code_simp
  moreover have "1 \<in> reachable sample_machine" by (rule root_reachable) code_simp
  then have "value_held sample_machine ?v" by (simp add: value_held_def value_ref_def)
  ultimately have "machine_step sample_machine (STEP_SETUPVAL 3 ?v) (bc_setupval sample_machine 3 ?v)"
    by (rule step_setupval)
  note t = run_trans [OF run_one [OF this] run_trans [OF run_one [OF step_gc] run_one [OF step_gc_collect]]]
  have "setupval_guarded sample_machine 3 ?v"
    by (simp add: setupval_guarded_def body_of_def deref_def sample_machine_def idle_machine_def made_def)
  then show ?thesis using run_safety [OF sample_ok t] by (simp add: step_covered_def subset_iff)
qed

text \<open>C29: a step, an advance and a whole collection keep the invariant of the collector: the
  colours of the phase, the gray list and the white that is handed out.\<close>

theorem collector_invariant:
  assumes "gc_ok m"
  shows "gc_ok (lhat_gc_step m) \<and> gc_ok (fst (lhat_gc_advance m budget)) \<and> gc_ok (lhat_gc_collect m)"
  using collector_ok [OF assms] by blast

lemma collector_invariant_witness: "gc_ok (lhat_gc_collect (lhat_gc_step sample_machine))"
proof -
  have "gc_ok (lhat_gc_step sample_machine)" using collector_invariant [OF sample_gc] by blast
  from collector_invariant [OF this] show ?thesis by blast
qed

text \<open>the collector loses nothing that can be reached and changes nothing of it: after a step, an
  advance or a collection it can still be reached, is there and has the contents it had, and the
  program's registers, frames and open captures are as they were.\<close>

theorem collector_keeps_reachable:
  assumes "gc_ok m" "m' \<in> {lhat_gc_step m, fst (lhat_gc_advance m budget), lhat_gc_collect m}"
    "a \<in> reachable m"
  shows "a \<in> reachable m' \<and> deref m' a \<noteq> None \<and> body_of m' a = body_of m a \<and>
     m_slots m' = m_slots m \<and> m_frames m' = m_frames m \<and> m_open m' = m_open m"
  using assms by (rule kept_reachable)

lemma collector_keeps_reachable_witness:
  "body_of (lhat_gc_collect sample_machine) 0 = body_of sample_machine 0 \<and>
   deref (lhat_gc_collect sample_machine) 0 \<noteq> None"
  using collector_keeps_reachable [OF sample_gc, of "lhat_gc_collect sample_machine" 0 0] sample_facts(2)
  by simp

text \<open>C2: a collection frees exactly what cannot be reached, where no coroutine is left with cleanups
  to run.\<close>

theorem collect_exact:
  assumes "gc_ok m" "settled m" "a \<in> set (m_objects m)"
  shows "deref (lhat_gc_collect m) a \<noteq> None \<longleftrightarrow> a \<in> reachable m"
  using assms by (rule frees_exactly)

lemma collect_exact_witness: "deref (lhat_gc_collect sample_machine) 4 = None"
  using collect_exact [OF sample_gc sample_facts(1,4)] sample_facts(3) by simp

text \<open>after a collection the weak cache, the shared natives and the member caches name, of the
  machine's objects, only what the program can reach.\<close>

theorem weak_entries_reachable:
  assumes "gc_ok m" "a \<in> weak_refs (lhat_gc_collect m)" "a \<in> set (m_objects m)"
  shows "a \<in> reachable (lhat_gc_collect m)"
proof (rule collect_survivors [OF assms(1,3)])
  show "deref (lhat_gc_collect m) a \<noteq> None"
    using collector_ok(3) [OF assms(1)] assms(2) live_exists unfolding gc_ok_def heap_closed_def by blast
qed

lemma weak_entries_reachable_witness: "4 \<notin> weak_refs (lhat_gc_collect sample_machine)"
proof
  assume "4 \<in> weak_refs (lhat_gc_collect sample_machine)"
  from weak_entries_reachable [OF sample_gc this sample_facts(4)]
  have "4 \<in> reachable sample_machine"
    using keepsD(2) [OF keeps_collect [OF sample_gc] sample_facts(1)] by simp
  then show False using sample_facts(3) by simp
qed

text \<open>C30: a suspended coroutine that owes cleanups is never freed by a collection that begins at rest:
  either the program could reach it or it stands on the machine's list of pending disposals.\<close>

theorem cleanups_not_lost:
  assumes "gc_ok m" "m_gcstate m = LHAT_GC_PAUSE" "a \<in> set (m_objects m)" "owes_cleanups (body_of m a)"
  shows "deref (lhat_gc_collect m) a \<noteq> None \<and> body_of (lhat_gc_collect m) a = body_of m a \<and>
     (a \<in> reachable m \<or> a \<in> set (m_pending_dispose (lhat_gc_collect m)))"
proof -
  note h = collect_holds [OF assms]
  have d: "deref (lhat_gc_collect m) a \<noteq> None"
    using collector_ok(3) [OF assms(1)] h live_exists reachable_live by (simp add: gc_ok_def)
  with h keepsD(4) [OF keeps_collect [OF assms(1)] d] show ?thesis by (simp del: not_None_eq)
qed

definition owing_coroutine :: LhatBody where
  "owing_coroutine = OBJECT_COROUTINE LHAT_COROUTINE_BODY
     \<lparr>cf_registers = [VALUE_NIL], cf_closure = None, cf_state = LHAT_COROUTINE_SUSPENDED, cf_sent_into = 0,
       cf_cleanup_count = 1\<rparr>
     None VALUE_NIL []"

definition owing_machine :: Machine where
  "owing_machine = idle_machine\<lparr>m_memory := [made LHAT_GC_WHITE0 owing_coroutine], m_objects := [0], m_count := 1\<rparr>"

lemma cleanups_not_lost_witness: "0 \<in> set (m_pending_dispose (lhat_gc_collect owing_machine))"
proof -
  have g: "gc_ok owing_machine" by (rule gc_check) code_simp
  have "m_gcstate owing_machine = LHAT_GC_PAUSE" "0 \<in> set (m_objects owing_machine)"
    "owes_cleanups (body_of owing_machine 0)" by code_simp+
  note c = cleanups_not_lost [OF g this]
  have "closed_set owing_machine []" by code_simp
  then have "0 \<notin> reachable owing_machine" using closed_set by fastforce
  with c show ?thesis by blast
qed

subsection \<open>The pace\<close>

text \<open>a collection always ends, at rest, and has counted one cycle, or two where one was under way;
  no setting of the pace and no paused machine can keep it from that.\<close>

theorem collection_ends:
  assumes "gc_ok m"
  shows "m_gcstate (lhat_gc_collect m) = LHAT_GC_PAUSE \<and>
     m_gc_cycles (lhat_gc_collect m) =
       (if m_gcstate m = LHAT_GC_PAUSE then m_gc_cycles m + 1 else m_gc_cycles m + 2)"
  using collect_pause [OF assms] collect_cycles by blast

lemma collection_ends_witness: "m_gc_cycles (lhat_gc_collect sample_machine) = 1"
  using collection_ends [OF sample_gc] by (simp add: sample_machine_def idle_machine_def)

text \<open>an advance answers true exactly if a cycle ended in it; then the collector is at rest.  It
  never ends more than one.\<close>

theorem advance_answer:
  "m_gc_cycles (fst (lhat_gc_advance m budget)) =
     (if snd (lhat_gc_advance m budget) then m_gc_cycles m + 1 else m_gc_cycles m) \<and>
   \<not> (snd (lhat_gc_advance m budget) \<and> m_gcstate (fst (lhat_gc_advance m budget)) \<noteq> LHAT_GC_PAUSE)"
proof -
  obtain m1 finished where a: "advance_loop m budget 0 = (m1, finished)" by fastforce
  then show ?thesis using advance_loop_cycles [OF a] by (simp add: lhat_gc_advance_def)
qed

text \<open>C32: a machine whose step has any work to do comes to the end of its cycle after finitely many
  steps.\<close>

theorem steps_finish_cycle:
  assumes "100 \<le> unat (m_gc_stepsize m) * unat (m_gc_stepmul m)"
  shows "\<exists>n. m_gcstate ((lhat_gc_step ^^ n) m) = LHAT_GC_PAUSE"
proof (rule steps_reach_pause)
  show "0 < step_budget m" using assms unfolding step_budget_def by linarith
qed

lemma steps_finish_cycle_witness:
  "\<exists>n. m_gcstate ((lhat_gc_step ^^ n) (start_cycle sample_machine)) = LHAT_GC_PAUSE"
proof (rule steps_finish_cycle)
  show "100 \<le> unat (m_gc_stepsize (start_cycle sample_machine)) * unat (m_gc_stepmul (start_cycle sample_machine))"
    using recolored_program [OF recolored_mark_roots, of sample_machine]
    by (simp add: start_cycle_def same_program_def sample_machine_def idle_machine_def)
qed

text \<open>the check of the paranoid build never fires: when the marking is over no black object on the
  list refers to a white one.\<close>

theorem paranoid_check_passes:
  assumes "run_ok m" "m_gcstate m = LHAT_GC_PROPAGATE"
  shows "check_invariant (atomic_marked m)"
proof -
  have "marking_ok m" using assms by (simp add: run_ok_def gc_ok_def phase_ok_def marking_ok_def)
  from marked_check [OF atomic_marked_ok [OF this]] show ?thesis .
qed

definition marking_sample :: Machine where
  "marking_sample = (mark_roots sample_machine)\<lparr>m_gcstate := LHAT_GC_PROPAGATE\<rparr>"

lemma paranoid_check_passes_witness: "check_invariant (atomic_marked marking_sample)"
proof (rule paranoid_check_passes)
  show "run_ok marking_sample" by (rule run_check) code_simp
  show "m_gcstate marking_sample = LHAT_GC_PROPAGATE" by (simp add: marking_sample_def)
qed

subsection \<open>Captured places\<close>

text \<open>closing the captures from a slot on changes no value that a captured place reads: the places
  at or above the slot have their value in their own cell, the others are still open in their order,
  and the stack is as it was.\<close>

theorem closing_keeps_captures:
  assumes "run_ok m"
  shows "bc_getupval (vm_close_upvalues m lowest) u = bc_getupval m u \<and>
     m_slots (vm_close_upvalues m lowest) = m_slots m \<and>
     m_open (vm_close_upvalues m lowest) = filter (\<lambda>w. open_slot m w < lowest) (m_open m) \<and>
     (u \<in> set (m_open m) \<and> lowest \<le> open_slot m u \<longrightarrow>
        (\<exists>v su. body_of (vm_close_upvalues m lowest) u = OBJECT_UPVALUE PLACE_CELL v su))"
  using close_upvalues_effect [OF assms, of lowest u] drop_open_filter [of m lowest] assms
  by (simp add: run_ok_def)

lemma closing_keeps_captures_witness:
  "bc_getupval (vm_close_upvalues sample_machine 1) 3 = VALUE_OBJECT (Some 1) \<and>
   m_open (vm_close_upvalues sample_machine 1) = []"
proof -
  have "bc_getupval sample_machine 3 = VALUE_OBJECT (Some 1)" "filter (\<lambda>w. open_slot sample_machine w < 1) (m_open sample_machine) = []"
    by code_simp+
  then show ?thesis using closing_keeps_captures [OF sample_ok, of 1 3] by simp
qed

text \<open>a slot is captured once: the place that a capture answers is open, aims at the slot and reads
  it, and to capture the slot again answers the same place and changes nothing.\<close>

theorem capture_shares_place:
  assumes "run_ok m" "slot_rooted m slot" "vm_capture m slot = (u, m')"
  shows "u \<in> set (m_open m') \<and> open_slot m' u = slot \<and> bc_getupval m' u = slots_get (m_slots m) slot \<and>
     vm_capture m' slot = (u, m')"
  using capture_effect [OF assms(3,1,2)] capture_hit by blast

lemma capture_shares_place_witness: "fst (vm_capture (snd (vm_capture sample_machine 0)) 0) = 5"
proof -
  have r: "slot_rooted sample_machine 0" by code_simp
  have u: "fst (vm_capture sample_machine 0) = 5" by code_simp
  show ?thesis
    using capture_shares_place [OF sample_ok r surjective_pairing] u by simp
qed

text \<open>C31: a coroutine that yields into register \<open>into\<close> and is resumed at any base finds its registers
  as it left them, but for what the resume sends, which stands from \<open>into\<close> on: several values as a
  run behind its head, one as itself, none as nil.  Every captured place of its frame is in the place
  the frame has now and reads that register; the stack below the frame and the places captured there
  are left alone.\<close>

theorem yield_resume_round_trip:
  assumes "run_ok m" "may_yield m co" "base = fr_base (last (m_frames m))" "captures_of m co = []"
    "closure_of m co \<noteq> None" "base' + register_count m co \<le> length (m_slots m)"
    "\<And>u. u \<in> set (m_open m) \<Longrightarrow> open_slot m u < base + register_count m co"
    "into + length (sent_slots sent words) \<le> register_count m co"
  shows "\<exists>m'. vm_enter_resume_frame (yield_frame m co base into cleanups) co base' sent words = Some m' \<and>
     m_open m' = m_open m \<and>
     (\<forall>i < register_count m co. slots_get (m_slots m') (base' + i) =
        laid_over into (sent_slots sent words) (slots_get (m_slots m) (base + i)) i) \<and>
     (\<forall>i < base'. slots_get (m_slots m') i = slots_get (m_slots m) i) \<and>
     (\<forall>u \<in> set (m_open m). base \<le> open_slot m u \<longrightarrow>
        open_slot m' u = base' + (open_slot m u - base) \<and>
        bc_getupval m' u = laid_over into (sent_slots sent words) (bc_getupval m u) (open_slot m u - base)) \<and>
     (\<forall>u \<in> set (m_open m). open_slot m u < base \<longrightarrow> open_slot m' u = open_slot m u)"
  by (rule yield_resume [OF assms])

definition coroutine_machine :: Machine where
  "coroutine_machine = idle_machine\<lparr>
     m_memory := map (made LHAT_GC_WHITE0)
       [OBJECT_TABLE [VALUE_OBJECT (Some 1)] [] None VALUE_NIL,
        OBJECT_COROUTINE LHAT_COROUTINE_BODY \<lparr>cf_registers = [VALUE_NIL, VALUE_NIL], cf_closure = Some 3,
          cf_state = LHAT_COROUTINE_RUNNING, cf_sent_into = 0, cf_cleanup_count = 0\<rparr> None VALUE_NIL [],
        OBJECT_UPVALUE (PLACE_SLOT 2) VALUE_NIL None, OBJECT_SUBROUTINE [] (Some 2) None, OBJECT_STRING],
     m_objects := [4, 3, 2, 1, 0], m_count := 5, m_environment := Some 0,
     m_slots := [VALUE_NIL, VALUE_BOOL True, VALUE_OBJECT (Some 4), VALUE_NIL, VALUE_NIL],
     m_frames := [(plain_frame 3 1)\<lparr>fr_coroutine := Some 1\<rparr>], m_open := [2]\<rparr>"

lemma yield_resume_round_trip_witness:
  "\<exists>m'. vm_enter_resume_frame (yield_frame coroutine_machine 1 1 0 0) 1 3 [VALUE_INTEGER 7] [] = Some m' \<and>
     slots_get (m_slots m') 3 = VALUE_INTEGER 7 \<and> slots_get (m_slots m') 4 = VALUE_OBJECT (Some 4) \<and>
     open_slot m' 2 = 4"
proof -
  have ok: "run_ok coroutine_machine" by (rule run_check) code_simp
  have r0: "0 \<in> reachable coroutine_machine" by (rule root_reachable) code_simp
  have "1 \<in> reachable coroutine_machine" by (rule ref_reachable [OF r0]) code_simp
  moreover have "1 \<in> set (m_objects coroutine_machine)" "m_frames coroutine_machine \<noteq> []"
    "register_count coroutine_machine 1 = 2" "frame_width coroutine_machine (last (m_frames coroutine_machine)) = 2"
    by code_simp+
  moreover have "coroutine_of coroutine_machine 1"
    by (simp add: coroutine_of_def coroutine_machine_def idle_machine_def body_of_def deref_def made_def)
  ultimately have y: "may_yield coroutine_machine 1" by (simp add: may_yield_def held_object_def)
  have f: "1 = fr_base (last (m_frames coroutine_machine))" "captures_of coroutine_machine 1 = []"
    "closure_of coroutine_machine 1 \<noteq> None"
    "3 + register_count coroutine_machine 1 \<le> length (m_slots coroutine_machine)"
    "m_open coroutine_machine = [2]" "open_slot coroutine_machine 2 = 2" "register_count coroutine_machine 1 = 2"
    "slots_get (m_slots coroutine_machine) 2 = VALUE_OBJECT (Some 4)"
    by code_simp+
  have l: "sent_slots [VALUE_INTEGER 7] [] = [VALUE_INTEGER 7]" by (simp add: sent_slots_def)
  obtain m' where m': "vm_enter_resume_frame (yield_frame coroutine_machine 1 1 0 0) 1 3 [VALUE_INTEGER 7] [] = Some m'"
    "\<forall>i < register_count coroutine_machine 1.
       slots_get (m_slots m') (3 + i) =
         laid_over 0 [VALUE_INTEGER 7] (slots_get (m_slots coroutine_machine) (1 + i)) i"
    "\<forall>u \<in> set (m_open coroutine_machine). 1 \<le> open_slot coroutine_machine u \<longrightarrow>
       open_slot m' u = 3 + (open_slot coroutine_machine u - 1)"
    using yield_resume_round_trip [OF ok y f(1-4), of 0 "[VALUE_INTEGER 7]" "[]" 0] f(5-7) l by auto
  have "slots_get (m_slots m') 3 = VALUE_INTEGER 7" "slots_get (m_slots m') 4 = VALUE_OBJECT (Some 4)"
    using m'(2) [rule_format, of 0] m'(2) [rule_format, of 1]
    by (simp_all add: f(7,8) laid_over_def del: One_nat_def)
  moreover have "open_slot m' 2 = 4" using m'(3) by (simp add: f(5,6))
  ultimately show ?thesis using m'(1) by blast
qed

subsection \<open>Two ways past the collector\<close>

text \<open>The environment holds a coroutine that the marking has looked into; its frame's register is
  captured by an upvalue that the marking has not come to.\<close>

definition suspended_with :: "pointer \<Rightarrow> addr list \<Rightarrow> LhatBody" where
  "suspended_with closure captures = OBJECT_COROUTINE LHAT_COROUTINE_BODY
     \<lparr>cf_registers = [VALUE_NIL], cf_closure = closure, cf_state = LHAT_COROUTINE_SUSPENDED,
       cf_sent_into = 0, cf_cleanup_count = 0\<rparr>
     None VALUE_NIL captures"

definition passed_machine :: Machine where
  "passed_machine = idle_machine\<lparr>
     m_memory := [made LHAT_GC_BLACK (OBJECT_TABLE [VALUE_OBJECT (Some 1)] [] None VALUE_NIL),
       made LHAT_GC_BLACK (suspended_with None [2]),
       made LHAT_GC_WHITE0 (OBJECT_UPVALUE (PLACE_SAVED 1 0) VALUE_NIL (Some 1)),
       made LHAT_GC_WHITE0 (OBJECT_SUBROUTINE [Some 2] (Some 1) None), made LHAT_GC_WHITE0 OBJECT_STRING],
     m_objects := [4, 3, 2, 1, 0], m_count := 5, m_environment := Some 0, m_gcstate := LHAT_GC_PROPAGATE,
     m_slots := [VALUE_OBJECT (Some 4)], m_frames := [plain_frame 3 0]\<rparr>"

text \<open>C33: where a captured place aims at a register of a coroutine, or at no coroutine at all, \<open>SETUPVAL\<close>
  keeps the invariant exactly if the place is not that of a suspended coroutine the marking has
  passed, with the upvalue not passed yet and a value the marking has not come to: the barrier asks
  about the upvalue, but the write goes into the coroutine.\<close>

theorem setupval_needs_guard:
  assumes "run_ok m" "u \<in> reachable m" "value_held m v"
    "\<And>co i cell su. body_of m u = OBJECT_UPVALUE (PLACE_SAVED co i) cell su \<Longrightarrow>
       owned m co \<and> i < register_count m co"
  shows "run_ok (bc_setupval m u v) \<longleftrightarrow> setupval_guarded m u v"
proof (rule setupval_exactly [OF assms(1) _ _ assms(4)])
  have g: "gc_ok m" using assms(1) by (simp add: run_ok_def)
  then show "live m u" using reachable_live [OF assms(2)] by (simp add: gc_ok_def)
  show "value_live m v" by (rule held_live [OF assms(3) g])
qed

lemma passed_facts:
  "run_ok passed_machine" "2 \<in> reachable passed_machine" "value_held passed_machine (VALUE_OBJECT (Some 4))"
proof -
  show "run_ok passed_machine" by (rule run_check) code_simp
  have 3: "3 \<in> reachable passed_machine" "4 \<in> reachable passed_machine" by (rule root_reachable, code_simp)+
  show "2 \<in> reachable passed_machine" by (rule ref_reachable [OF 3(1)]) code_simp
  show "value_held passed_machine (VALUE_OBJECT (Some 4))" using 3(2) by (simp add: value_held_def value_ref_def)
qed

lemma setupval_needs_guard_witness: "\<not> run_ok (bc_setupval passed_machine 2 (VALUE_OBJECT (Some 4)))"
proof -
  have r0: "0 \<in> reachable passed_machine" by (rule root_reachable) code_simp
  have "1 \<in> reachable passed_machine" by (rule ref_reachable [OF r0]) code_simp
  then have "live passed_machine 1" using reachable_live passed_facts(1) by (simp add: run_ok_def gc_ok_def)
  moreover have "1 \<in> set (m_objects passed_machine)" "0 < register_count passed_machine 1" by code_simp+
  moreover have b: "body_of passed_machine 2 = OBJECT_UPVALUE (PLACE_SAVED 1 0) VALUE_NIL (Some 1)"
    by (simp add: body_of_def deref_def passed_machine_def idle_machine_def made_def)
  moreover have "\<not> setupval_guarded passed_machine 2 (VALUE_OBJECT (Some 4))"
  proof -
    have "m_gcstate passed_machine = LHAT_GC_PROPAGATE" "has_color passed_machine 1 LHAT_GC_BLACK"
      "value_white passed_machine (VALUE_OBJECT (Some 4))" "\<not> has_color passed_machine 2 LHAT_GC_BLACK"
      by code_simp+
    then show ?thesis by (simp add: setupval_guarded_def b)
  qed
  ultimately show ?thesis
    using setupval_needs_guard [OF passed_facts] by (simp add: owned_def)
qed

text \<open>What it comes to there: \<open>SETUPVAL\<close> writes the register, the frame returns, and the end of the
  cycle frees what the coroutine refers to.\<close>

definition passed_later :: Machine where
  "passed_later = fst (lhat_gc_advance (fst (lhat_gc_advance
     (leave_frame (bc_setupval passed_machine 2 (VALUE_OBJECT (Some 4))) 0 True VALUE_NIL) 20)) 20)"

lemma saved_place_missed: "4 \<in> reachable passed_later \<and> deref passed_later 4 = None"
proof
  have 0: "0 \<in> reachable passed_later" by (rule root_reachable) code_simp
  have "1 \<in> reachable passed_later" by (rule ref_reachable [OF 0]) code_simp
  then show "4 \<in> reachable passed_later" by (rule ref_reachable) code_simp
  show "deref passed_later 4 = None" by code_simp
qed

text \<open>A suspended coroutine whose captured place no closure holds any more.\<close>

definition orphan_machine :: Machine where
  "orphan_machine = idle_machine\<lparr>
     m_memory := map (made LHAT_GC_WHITE0)
       [OBJECT_TABLE [VALUE_OBJECT (Some 1)] [] None VALUE_NIL, suspended_with (Some 3) [2],
        OBJECT_UPVALUE (PLACE_SAVED 1 0) VALUE_NIL (Some 1), OBJECT_SUBROUTINE [] (Some 1) None],
     m_objects := [3, 2, 1, 0], m_count := 4, m_environment := Some 0, m_slots := [VALUE_NIL]\<rparr>"



text \<open>Before the collection the resume can be made.\<close>

lemma orphan_resumes: "vm_enter_resume_frame orphan_machine 1 0 [] [] \<noteq> None"
  by code_simp

end
