(* ===== verification/Lhat_Real.thy ===== *)
theory Lhat_Real
  imports Lhat_Number
begin

text \<open>
  The doubles of C (\<open>LhatReal\<close>) as values come and go in \<open>include/lhat/value.h\<close>, \<open>src/value.c\<close>,
  \<open>src/vm_native.c\<close> and \<open>src/object.c\<close>: the IEEE 754 binary64 reading of the 64 bits, the
  comparisons, the conversions from and to an integer, and the three operations the comparison
  within an error term uses.  A finite double is an integer number of units of
  \<open>2 ^ -1074\<close>, the smallest one there is, so that every result before rounding is exact; rounding is
  to the nearest with 53 bits, ties to even.
\<close>

subsection \<open>The bits of a double\<close>

definition real_negative :: "LhatReal \<Rightarrow> bool" where
  "real_negative r \<longleftrightarrow> 2 ^ 63 \<le> unat r"

definition real_exponent :: "LhatReal \<Rightarrow> nat" where
  "real_exponent r = unat r div 2 ^ 52 mod 2 ^ 11"

definition real_fraction :: "LhatReal \<Rightarrow> nat" where
  "real_fraction r = unat r mod 2 ^ 52"

datatype LhatFloat =
    FLOAT_NAN
  | FLOAT_INF bool \<comment> \<open>negative\<close>
  | FLOAT int \<comment> \<open>units\<close>

definition real_units :: "LhatReal \<Rightarrow> nat" where
  "real_units r =
     (if real_exponent r = 0 then real_fraction r
      else (real_fraction r + 2 ^ 52) * 2 ^ (real_exponent r - 1))"

definition real_value :: "LhatReal \<Rightarrow> LhatFloat" where
  "real_value r =
     (if real_exponent r = 2047 then
        if real_fraction r = 0 then FLOAT_INF (real_negative r) else FLOAT_NAN
      else FLOAT (if real_negative r then - int (real_units r) else int (real_units r)))"

definition REAL_ONE :: int where
  "REAL_ONE = 2 ^ 1074"

subsection \<open>Rounding\<close>

text \<open>\<open>bit_count\<close> and \<open>round_half_even\<close> are those that read a literal.\<close>

definition round_53 :: "nat \<Rightarrow> nat" where
  "round_53 n = (let s = bit_count n - 53 in round_half_even n (2 ^ s) * 2 ^ s)"

text \<open>The double nearest to an exact number of units, an infinity past the largest one.\<close>

definition float_signed :: "bool \<Rightarrow> nat \<Rightarrow> LhatFloat" where
  "float_signed negative n =
     (if 2 ^ 2098 \<le> n then FLOAT_INF negative
      else FLOAT (if negative then - int n else int n))"

definition float_of_units :: "int \<Rightarrow> LhatFloat" where
  "float_of_units u = float_signed (u < 0) (round_53 (nat \<bar>u\<bar>))"

subsection \<open>Comparisons and arithmetic\<close>

fun float_less :: "LhatFloat \<Rightarrow> LhatFloat \<Rightarrow> bool" where
  "float_less (FLOAT a) (FLOAT b) = (a < b)"
| "float_less (FLOAT a) (FLOAT_INF n) = (\<not> n)"
| "float_less (FLOAT_INF n) (FLOAT b) = n"
| "float_less (FLOAT_INF n) (FLOAT_INF k) = (n \<and> \<not> k)"
| "float_less a b = False"

definition float_equal :: "LhatFloat \<Rightarrow> LhatFloat \<Rightarrow> bool" where
  "float_equal a b \<longleftrightarrow> a = b \<and> a \<noteq> FLOAT_NAN"

definition float_less_eq :: "LhatFloat \<Rightarrow> LhatFloat \<Rightarrow> bool" where
  "float_less_eq a b \<longleftrightarrow> float_less a b \<or> float_equal a b"

fun float_negate :: "LhatFloat \<Rightarrow> LhatFloat" where
  "float_negate (FLOAT a) = FLOAT (- a)"
| "float_negate (FLOAT_INF n) = FLOAT_INF (\<not> n)"
| "float_negate FLOAT_NAN = FLOAT_NAN"

fun float_add :: "LhatFloat \<Rightarrow> LhatFloat \<Rightarrow> LhatFloat" where
  "float_add (FLOAT a) (FLOAT b) = float_of_units (a + b)"
| "float_add (FLOAT a) (FLOAT_INF n) = FLOAT_INF n"
| "float_add (FLOAT_INF n) (FLOAT b) = FLOAT_INF n"
| "float_add (FLOAT_INF n) (FLOAT_INF k) = (if n = k then FLOAT_INF n else FLOAT_NAN)"
| "float_add a b = FLOAT_NAN"

definition float_minus :: "LhatFloat \<Rightarrow> LhatFloat \<Rightarrow> LhatFloat" where
  "float_minus a b = float_add a (float_negate b)"

text \<open>The product of two numbers of units is a number of units of \<open>2 ^ -2148\<close>: 1074 bits of it are
dropped, or as many as leave 53.\<close>

fun float_times :: "LhatFloat \<Rightarrow> LhatFloat \<Rightarrow> LhatFloat" where
  "float_times (FLOAT a) (FLOAT b) =
     (let n = nat \<bar>a * b\<bar>; s = max 1074 (bit_count n - 53)
      in float_signed (a * b < 0) (round_half_even n (2 ^ s) * 2 ^ (s - 1074)))"
| "float_times (FLOAT a) (FLOAT_INF n) = (if a = 0 then FLOAT_NAN else FLOAT_INF ((a < 0) \<noteq> n))"
| "float_times (FLOAT_INF n) (FLOAT b) = (if b = 0 then FLOAT_NAN else FLOAT_INF ((b < 0) \<noteq> n))"
| "float_times (FLOAT_INF n) (FLOAT_INF k) = FLOAT_INF (n \<noteq> k)"
| "float_times a b = FLOAT_NAN"

subsection \<open>Integers and doubles\<close>

text \<open>\<open>(LhatReal)i\<close> and the truncation that \<open>(LhatInteger)d\<close> makes; the latter is undefined in C
where the integer does not fit, which the callers that can come to it model.\<close>

definition integer_rounded :: "int \<Rightarrow> int" where
  "integer_rounded i = (if i < 0 then - int (round_53 (nat (- i))) else int (round_53 (nat i)))"

definition float_of_integer :: "LhatInteger \<Rightarrow> LhatFloat" where
  "float_of_integer i = FLOAT (integer_rounded (sint i) * REAL_ONE)"

definition units_trunc :: "int \<Rightarrow> int" where
  "units_trunc u = (if u < 0 then - (- u div REAL_ONE) else u div REAL_ONE)"

definition float_floor :: "int \<Rightarrow> int" where
  "float_floor u = u div REAL_ONE"

definition fits_int64 :: "int \<Rightarrow> bool" where
  "fits_int64 t \<longleftrightarrow> - (2 ^ 63) \<le> t \<and> t < 2 ^ 63"

subsection \<open>Facts\<close>

lemma bit_count_le: "bit_count n \<le> k \<longleftrightarrow> n < 2 ^ k"
proof (induction k arbitrary: n)
  case 0
  show ?case by (subst bit_count.simps) simp
next
  case (Suc k)
  show ?case
    by (subst bit_count.simps) (use Suc [of "n div 2"] in \<open>simp add: div_less_iff_less_mult mult.commute\<close>)
qed

lemma round_53_exact:
  assumes "n = m * 2 ^ e" "m < 2 ^ 53"
  shows "round_53 n = n"
proof -
  define s where "s = bit_count n - 53"
  have "n < 2 ^ (53 + e)"
    using assms by (simp add: power_add)
  then have "s \<le> e"
    using bit_count_le [of n "53 + e"] by (simp add: s_def)
  then have d: "(2::nat) ^ s dvd n"
    unfolding assms(1) by (simp add: le_imp_power_dvd)
  then have "round_half_even n (2 ^ s) * 2 ^ s = n"
    by (simp add: round_half_even_def dvd_imp_mod_0)
  then show ?thesis
    by (simp add: round_53_def Let_def flip: s_def)
qed

lemma fields_bound: "real_fraction r < 2 ^ 52" "real_exponent r < 2048"
  by (simp_all add: real_fraction_def real_exponent_def)

lemma fields_unique:
  assumes "real_negative a = real_negative b" "real_exponent a = real_exponent b"
    "real_fraction a = real_fraction b"
  shows "a = b"
proof -
  have split: "unat r = unat r div 2 ^ 63 * 2 ^ 63 + real_exponent r * 2 ^ 52 + real_fraction r" for r
  proof -
    have glue: "n = t * 2 ^ 63 + e * 2 ^ 52 + f" if "n = d * 2 ^ 52 + f" "d = t * 2 ^ 11 + e"
      for n d t e f :: nat
      using that by simp
    have "unat r div 2 ^ 63 = unat r div 2 ^ 52 div 2 ^ 11"
      by (simp add: div_mult2_eq [symmetric])
    then show ?thesis
      unfolding real_exponent_def real_fraction_def
      by (intro glue [of _ "unat r div 2 ^ 52"]) (simp_all only: div_mult_mod_eq)
  qed
  have top: "unat r div 2 ^ 63 = (if real_negative r then 1 else 0)" for r :: LhatReal
    using unsigned_less [of r] by (auto simp: real_negative_def intro!: div_nat_eqI)
  have "unat a = unat b"
    using split [of a] split [of b] unfolding top assms by simp
  then show ?thesis
    by (simp only: word_unat_eq_iff)
qed

lemma real_units_form: "\<exists>m e. real_units r = m * 2 ^ e \<and> m < 2 ^ 53"
proof (cases "real_exponent r = 0")
  case True
  then have "real_units r = real_fraction r * 2 ^ 0" "real_fraction r < 2 ^ 53"
    using fields_bound(1) [of r] by (simp_all add: real_units_def)
  then show ?thesis by blast
next
  case False
  then have "real_units r = (real_fraction r + 2 ^ 52) * 2 ^ (real_exponent r - 1)"
    "real_fraction r + 2 ^ 52 < 2 ^ 53"
    using fields_bound(1) [of r] by (simp_all add: real_units_def)
  then show ?thesis by blast
qed

lemma power_window:
  fixes x y :: nat
  assumes "(x + 2 ^ 52) * 2 ^ i = (y + 2 ^ 52) * 2 ^ j" "x < 2 ^ 52"
  shows "j \<le> i"
proof (rule ccontr)
  assume "\<not> j \<le> i"
  then obtain k where k: "j = Suc i + k"
    using less_iff_Suc_add [of i j] by auto
  have "(x + 2 ^ 52) * 2 ^ i = (y + 2 ^ 52) * (2 * 2 ^ k) * 2 ^ i"
    using assms(1) by (simp add: k power_add mult.assoc)
  then have "x + 2 ^ 52 = (y + 2 ^ 52) * (2 * 2 ^ k)"
    by simp
  moreover have "(2::nat) ^ 53 \<le> (y + 2 ^ 52) * (2 * 2 ^ k)"
    using mult_le_mono [of "2 ^ 52" "y + 2 ^ 52" 2 "2 * 2 ^ k"] by simp
  ultimately have "2 ^ 53 \<le> x + 2 ^ 52"
    by (simp only:)
  then show False
    using assms(2) by simp
qed

lemma real_units_unique:
  assumes "real_units a = real_units b"
  shows "real_exponent a = real_exponent b \<and> real_fraction a = real_fraction b"
proof -
  have low: "2 ^ 52 \<le> real_units r" if "real_exponent r \<noteq> 0" for r
  proof -
    have "(2::nat) ^ 52 * 1 \<le> (real_fraction r + 2 ^ 52) * 2 ^ (real_exponent r - 1)"
      by (intro mult_le_mono) simp_all
    then show ?thesis using that by (simp add: real_units_def)
  qed
  have zero: "real_exponent a = 0 \<longleftrightarrow> real_exponent b = 0"
    using low [of a] low [of b] fields_bound(1) [of a] fields_bound(1) [of b] assms
    by (metis linorder_not_less real_units_def)
  show ?thesis
  proof (cases "real_exponent a = 0")
    case True
    then show ?thesis using zero assms by (simp add: real_units_def)
  next
    case False
    then have eq: "(real_fraction a + 2 ^ 52) * 2 ^ (real_exponent a - 1) =
        (real_fraction b + 2 ^ 52) * 2 ^ (real_exponent b - 1)"
      using zero assms by (simp add: real_units_def)
    have "real_exponent a - 1 = real_exponent b - 1"
      using power_window [OF eq fields_bound(1)] power_window [OF eq [symmetric] fields_bound(1)]
      by (rule order_antisym [rotated])
    then show ?thesis
      using False zero eq by simp
  qed
qed

text \<open>Two doubles that compare equal are the same bits, the two zeros apart.\<close>

lemma real_value_unique:
  assumes "real_value a = real_value b" "real_value a \<noteq> FLOAT_NAN" "real_value a \<noteq> FLOAT 0"
  shows "a = b"
proof (cases "real_exponent a = 2047")
  case True
  then have a: "real_fraction a = 0" "real_value a = FLOAT_INF (real_negative a)"
    using assms(2) by (simp_all add: real_value_def split: if_split_asm)
  then have "real_exponent b = 2047" "real_fraction b = 0" "real_negative a = real_negative b"
    using assms(1) by (simp_all add: real_value_def split: if_split_asm)
  then show ?thesis using True a(1) by (intro fields_unique) simp_all
next
  case False
  then have a: "real_value a = FLOAT (if real_negative a then - int (real_units a) else int (real_units a))"
    by (simp only: real_value_def if_False)
  then have b: "real_value b = FLOAT (if real_negative b then - int (real_units b) else int (real_units b))"
    using assms(1) unfolding real_value_def [of b] by (metis LhatFloat.distinct(3,5))
  have "real_units a = real_units b \<and> real_negative a = real_negative b"
    using assms(1,3) unfolding a b
    by (cases "real_negative a"; cases "real_negative b") simp_all
  then show ?thesis
    using real_units_unique [of a b] fields_unique [of a b] by blast
qed

text \<open>An integer that a double names exactly is not rounded.\<close>

lemma REAL_ONE_pos: "0 < REAL_ONE"
  by (simp add: REAL_ONE_def)

lemma exact_rounded:
  assumes "real_value r = FLOAT (i * REAL_ONE)"
  shows "integer_rounded i = i"
proof -
  obtain m e where u: "real_units r = m * 2 ^ e" "m < 2 ^ 53"
    using real_units_form by blast
  have "real_units r = nat \<bar>i\<bar> * 2 ^ 1074"
  proof -
    have "int (real_units r) = \<bar>i\<bar> * REAL_ONE"
      using assms REAL_ONE_pos mult_less_0_iff [of i REAL_ONE]
      by (cases "i < 0") (auto simp: real_value_def split: if_splits)
    then have "int (real_units r) = int (nat \<bar>i\<bar> * 2 ^ 1074)"
      by (simp add: REAL_ONE_def)
    then show ?thesis by (simp only: of_nat_eq_iff)
  qed
  then have eq: "m * 2 ^ e = nat \<bar>i\<bar> * 2 ^ 1074"
    using u(1) by simp
  have "round_53 (nat \<bar>i\<bar>) = nat \<bar>i\<bar>"
  proof (cases "1074 \<le> e")
    case True
    then obtain k where "e = 1074 + k" using le_iff_add by blast
    then have "nat \<bar>i\<bar> = m * 2 ^ k" using eq by (simp add: power_add mult.assoc mult.left_commute)
    then show ?thesis using u(2) by (rule round_53_exact)
  next
    case False
    then obtain k where k: "1074 = e + k" by (metis le_iff_add linorder_le_cases)
    have "m * 2 ^ e = (nat \<bar>i\<bar> * 2 ^ k) * 2 ^ e"
      using eq unfolding k power_add by (simp only: mult.assoc mult.commute [of "2 ^ k"])
    then have "m = nat \<bar>i\<bar> * 2 ^ k" by simp
    then have "nat \<bar>i\<bar> \<le> m" by simp
    then show ?thesis using u(2) by (intro round_53_exact [of _ "nat \<bar>i\<bar>" 0]) simp_all
  qed
  then show ?thesis by (cases "i < 0") (simp_all add: integer_rounded_def)
qed

lemma units_trunc_exact: "units_trunc (i * REAL_ONE) = i"
  using REAL_ONE_pos by (auto simp: units_trunc_def mult_less_0_iff simp flip: mult_minus_left)

lemma float_less_facts:
  "float_less a b \<Longrightarrow> \<not> float_less b a"
  "float_less a b \<Longrightarrow> \<not> float_equal a b"
  by (cases a; cases b; simp add: float_equal_def)+

lemma float_less_total:
  "a \<noteq> FLOAT_NAN \<Longrightarrow> b \<noteq> FLOAT_NAN \<Longrightarrow> float_less a b \<or> float_equal a b \<or> float_less b a"
  by (cases a; cases b; auto simp: float_equal_def)

end
