(* ===== verification/Lhat_RtType.thy ===== *)
theory Lhat_RtType
  imports Lhat_Heap
begin

text \<open>
  The runtime types (\<open>LhatRuntimeType\<close> of \<open>include/lhat/object.h\<close>) as trees with their contents,
  where \<open>Lhat_Heap\<close> keeps only what the collector follows, and their structural comparison
  (\<open>lhat_runtime_type_equal\<close> of \<open>src/object.c\<close>).  A table type that holds itself is written
  with a Self node that counts levels outwards; a signature that holds itself is the one descriptor that
  is no tree (\<open>build_rt\<close> of \<open>src/rttype.c\<close>), and is not modelled here.  A NULL part is \<open>None\<close>.

  The declarations and host tags a type is identified by are addresses; \<open>None\<close> is NULL.
\<close>

datatype LhatRuntimeTypeKind =
    LHAT_TYPE_RT_ANY | LHAT_TYPE_RT_NIL | LHAT_TYPE_RT_BOOL | LHAT_TYPE_RT_NUMBER
  | LHAT_TYPE_RT_STRING | LHAT_TYPE_RT_TABLE | LHAT_TYPE_RT_SUBROUTINE | LHAT_TYPE_RT_COROUTINE
  | LHAT_TYPE_RT_COSTATE | LHAT_TYPE_RT_ERROR | LHAT_TYPE_RT_ERROR_KIND | LHAT_TYPE_RT_ENUM
  | LHAT_TYPE_RT_ENUM_MEMBER | LHAT_TYPE_RT_HOSTDATA | LHAT_TYPE_RT_HOSTVALUE
  | LHAT_TYPE_RT_HOSTVALUE_BOX | LHAT_TYPE_RT_UNION | LHAT_TYPE_RT_INTERSECT | LHAT_TYPE_RT_SELF
  | LHAT_TYPE_RT_TUPLE | LHAT_TYPE_RT_UNKNOWN | LHAT_TYPE_RT_TYPEINFO | LHAT_TYPE_RT_APPLIED

record RtHead =
  rt_kind :: LhatRuntimeTypeKind
  rt_error_kind :: pointer
  rt_enum_decl :: pointer
  rt_enum_member_index :: nat
  rt_error_local :: bool
  rt_hostdata_tag :: pointer
  rt_hostvalue_tag :: pointer
  rt_is_function :: bool
  rt_takes_self :: bool
  rt_self_last :: bool
  rt_mutable_self :: bool
  rt_answers_fresh :: bool
  rt_endless :: bool
  rt_coroutine_top :: bool
  rt_receive_any :: bool
  rt_produce_any :: bool
  rt_result_any :: bool
  rt_kind_any :: bool
  rt_levels :: nat

text \<open>The order of the parts: \<open>parts\<close>, \<open>result\<close>, \<open>receive\<close>, \<open>produce\<close>, \<open>variadic\<close>, \<open>index_key\<close>,
\<open>index_value\<close>, \<open>members\<close> with their names, \<open>instance\<close>.\<close>

datatype RtType =
  RtType (rt_head: RtHead) (rt_type_parts: "RtType option list")
    (rt_type_result: "RtType option") (rt_type_receive: "RtType option")
    (rt_type_produce: "RtType option") (rt_type_variadic: "RtType option")
    (rt_type_index_key: "RtType option") (rt_type_index_value: "RtType option")
    (rt_type_members: "(byte list \<times> RtType option) list") (rt_type_instance: "RtType option")

text \<open>The descriptor that \<open>memset\<close> leaves, of the kind given.\<close>

definition rt_blank_head :: "LhatRuntimeTypeKind \<Rightarrow> RtHead" where
  "rt_blank_head kind =
     \<lparr>rt_kind = kind, rt_error_kind = None, rt_enum_decl = None, rt_enum_member_index = 0,
      rt_error_local = False, rt_hostdata_tag = None, rt_hostvalue_tag = None,
      rt_is_function = False, rt_takes_self = False, rt_self_last = False,
      rt_mutable_self = False, rt_answers_fresh = False, rt_endless = False,
      rt_coroutine_top = False, rt_receive_any = False, rt_produce_any = False,
      rt_result_any = False, rt_kind_any = False, rt_levels = 0\<rparr>"

definition rt_blank :: "LhatRuntimeTypeKind \<Rightarrow> RtType" where
  "rt_blank kind = RtType (rt_blank_head kind) [] None None None None None None [] None"

subsection \<open>Comparing two runtime types\<close>

text \<open>The scalars of a coroutine or subroutine type that have to agree.\<close>

definition rt_coroutine_alike :: "RtHead \<Rightarrow> RtHead \<Rightarrow> bool" where
  "rt_coroutine_alike a b \<longleftrightarrow>
     rt_receive_any a = rt_receive_any b \<and> rt_produce_any a = rt_produce_any b \<and>
     rt_result_any a = rt_result_any b \<and> rt_kind_any a = rt_kind_any b \<and>
     rt_endless a = rt_endless b \<and> rt_is_function a = rt_is_function b"

definition rt_subroutine_alike :: "RtHead \<Rightarrow> RtHead \<Rightarrow> bool" where
  "rt_subroutine_alike a b \<longleftrightarrow>
     rt_is_function a = rt_is_function b \<and> rt_takes_self a = rt_takes_self b \<and>
     rt_self_last a = rt_self_last b \<and> rt_mutable_self a = rt_mutable_self b \<and>
     rt_answers_fresh a = rt_answers_fresh b"

text \<open>
  NULL against a type is the blank \<open>any\<close> type against it, which only looks at its kind.  That the
  code answers at once for one and the same object is no difference on trees: the comparison is
  reflexive.  Of a union each arm takes the first arm of the other side it equals that is not
  \<open>matched\<close> yet.
\<close>

fun rt_equal :: "RtType option \<Rightarrow> RtType option \<Rightarrow> bool"
and rt_list_equal :: "RtType option list \<Rightarrow> RtType option list \<Rightarrow> bool"
and rt_members_equal ::
  "(byte list \<times> RtType option) list \<Rightarrow> (byte list \<times> RtType option) list \<Rightarrow> bool"
and rt_match :: "RtType option list \<Rightarrow> RtType option list \<Rightarrow> bool list \<Rightarrow> bool"
and rt_take :: "RtType option \<Rightarrow> RtType option list \<Rightarrow> bool list \<Rightarrow> bool list option" where
  "rt_equal None None = True"
| "rt_equal None (Some b) = (rt_kind (rt_head b) = LHAT_TYPE_RT_ANY)"
| "rt_equal (Some a) None = (rt_kind (rt_head a) = LHAT_TYPE_RT_ANY)"
| "rt_equal (Some (RtType ha pa ra ca da va ka ia ma na))
     (Some (RtType hb pb rb cb db vb kb ib mb nb)) =
     (rt_kind ha = rt_kind hb \<and>
      (case rt_kind ha of
         LHAT_TYPE_RT_APPLIED \<Rightarrow> rt_equal ra rb \<and> rt_list_equal pa pb
       | LHAT_TYPE_RT_ERROR \<Rightarrow> rt_error_local ha = rt_error_local hb
       | LHAT_TYPE_RT_COROUTINE \<Rightarrow>
           if rt_coroutine_top ha \<or> rt_coroutine_top hb then
             rt_coroutine_top ha = rt_coroutine_top hb
           else rt_coroutine_alike ha hb \<and> (ca = None) = (cb = None) \<and> (ra = None) = (rb = None) \<and>
             rt_equal ca cb \<and> rt_equal da db \<and> rt_equal ra rb
       | LHAT_TYPE_RT_ERROR_KIND \<Rightarrow> rt_error_kind ha = rt_error_kind hb
       | LHAT_TYPE_RT_HOSTDATA \<Rightarrow> rt_hostdata_tag ha = rt_hostdata_tag hb
       | LHAT_TYPE_RT_HOSTVALUE \<Rightarrow> rt_hostvalue_tag ha = rt_hostvalue_tag hb
       | LHAT_TYPE_RT_HOSTVALUE_BOX \<Rightarrow> rt_hostvalue_tag ha = rt_hostvalue_tag hb
       | LHAT_TYPE_RT_UNION \<Rightarrow> length pa = length pb \<and> rt_match pa pb (replicate (length pb) False)
       | LHAT_TYPE_RT_INTERSECT \<Rightarrow>
           length pa = length pb \<and> rt_match pa pb (replicate (length pb) False)
       | LHAT_TYPE_RT_TUPLE \<Rightarrow> rt_list_equal pa pb
       | LHAT_TYPE_RT_SUBROUTINE \<Rightarrow>
           rt_subroutine_alike ha hb \<and> rt_list_equal pa pb \<and> (va = None) = (vb = None) \<and>
           rt_equal va vb \<and> (ra = None) = (rb = None) \<and> rt_equal ra rb
       | LHAT_TYPE_RT_TABLE \<Rightarrow>
           rt_hostdata_tag ha = rt_hostdata_tag hb \<and> (va = None) = (vb = None) \<and>
           rt_equal va vb \<and> (ka = None) = (kb = None) \<and> rt_equal ka kb \<and> rt_equal ia ib \<and>
           rt_list_equal pa pb \<and> rt_members_equal ma mb \<and> rt_equal na nb
       | LHAT_TYPE_RT_SELF \<Rightarrow> rt_levels ha = rt_levels hb
       | LHAT_TYPE_RT_ENUM \<Rightarrow> rt_enum_decl ha = rt_enum_decl hb
       | LHAT_TYPE_RT_ENUM_MEMBER \<Rightarrow>
           rt_enum_decl ha = rt_enum_decl hb \<and>
           rt_enum_member_index ha = rt_enum_member_index hb
       | _ \<Rightarrow> True))"
| "rt_list_equal [] [] = True"
| "rt_list_equal (a # as) (b # bs) = (rt_equal a b \<and> rt_list_equal as bs)"
| "rt_list_equal _ _ = False"
| "rt_members_equal [] [] = True"
| "rt_members_equal ((x, a) # as) ((y, b) # bs) = (x = y \<and> rt_equal a b \<and> rt_members_equal as bs)"
| "rt_members_equal _ _ = False"
| "rt_match [] bs matched = True"
| "rt_match (a # as) bs matched =
     (case rt_take a bs matched of None \<Rightarrow> False | Some matched' \<Rightarrow> rt_match as bs matched')"
| "rt_take a (b # bs) (m # ms) =
     (if m then map_option ((#) m) (rt_take a bs ms)
      else if rt_equal a b then Some (True # ms)
      else map_option ((#) m) (rt_take a bs ms))"
| "rt_take a bs ms = None"

definition lhat_runtime_type_equal :: "RtType \<Rightarrow> RtType \<Rightarrow> bool" where
  "lhat_runtime_type_equal a b = rt_equal (Some a) (Some b)"

text \<open>NULL stands for the blank descriptor of the kind \<open>any\<close>.\<close>

lemma rt_equal_blank:
  "rt_equal None (Some b) = rt_equal (Some (rt_blank LHAT_TYPE_RT_ANY)) (Some b)"
  "rt_equal (Some a) None = rt_equal (Some a) (Some (rt_blank LHAT_TYPE_RT_ANY))"
  by (cases b; cases a; auto simp: rt_blank_def rt_blank_head_def)+

end
