(* ===== verification/Lhat_Value.thy ===== *)
theory Lhat_Value
  imports Lhat_Heap Lhat_Real Lhat_RtType
begin

text \<open>
  What the comparisons and the hash of \<open>src/value.c\<close>, \<open>src/object.c\<close> and \<open>src/vm.c\<close> read of a value: the
  contents of the objects, where \<open>Lhat_Heap\<close> keeps the references.  A store answers for an address
  what is there (\<open>LhatContent\<close>), the address as the hash sees it, and two things of the platform: what
  a conversion to an integer gives that C leaves undefined, and whether the allocator has room for
  that many entries.
\<close>

subsection \<open>Tables and contents\<close>

text \<open>
  \<open>LhatTable\<close>.  \<open>tb_array\<close> holds the \<open>array_count\<close> slots in use of the dense half, \<open>tb_entries\<close> all
  \<open>entry_capacity\<close> entries of the hash half.
\<close>

record LhatTable =
  tb_array :: "LhatValue list"
  tb_array_capacity :: nat
  tb_entries :: "(LhatValue \<times> LhatValue) list" \<comment> \<open>key and value\<close>
  tb_entry_count :: nat
  tb_entry_tombs :: nat
  tb_version :: u32
  tb_definition :: pointer
  tb_delegate_key :: LhatValue
  tb_delegate_from_self :: bool
  tb_is_definition :: bool
  tb_sealed :: bool
  tb_shared :: bool
  tb_inline_entries :: bool

datatype LhatContent =
    CONTENT_STRING "byte list" u32 \<comment> \<open>text and hash\<close>
  | CONTENT_TYPE RtType
  | CONTENT_BOX u64 "byte list" bool \<comment> \<open>tag (0: none), the bytes after the head slot, sealed\<close>
  | CONTENT_HOSTDATA u64 u64 bool pointer \<comment> \<open>tag (0: none), pointer, released, members\<close>
  | CONTENT_TABLE LhatTable
  | CONTENT_SUBROUTINE "bool option" \<comment> \<open>\<open>takes_self\<close> of its proto, where it has one\<close>
  | CONTENT_HOST bool \<comment> \<open>\<open>takes_self\<close>\<close>
  | CONTENT_OVERLOAD "LhatValue list" \<comment> \<open>candidates\<close>
  | CONTENT_ERROR pointer \<comment> \<open>fields\<close>
  | CONTENT_ENUM pointer \<comment> \<open>members\<close>
  | CONTENT_ERROR_KIND
  | CONTENT_ENUMERATOR
  | CONTENT_NATIVE
  | CONTENT_OTHER \<comment> \<open>a coroutine or its saved state, an upvalue, a script\<close>

record LhatStore =
  st_content :: "addr \<Rightarrow> LhatContent"
  st_address :: "addr \<Rightarrow> u64"
  st_cast :: "LhatFloat \<Rightarrow> LhatInteger"
  st_room :: "nat \<Rightarrow> bool"

subsection \<open>Questions\<close>

fun lhat_is_nil :: "LhatValue \<Rightarrow> bool" where
  "lhat_is_nil VALUE_NIL = True"
| "lhat_is_nil v = False"

fun lhat_is_number :: "LhatValue \<Rightarrow> bool" where
  "lhat_is_number (VALUE_INTEGER i) = True"
| "lhat_is_number (VALUE_REAL r) = True"
| "lhat_is_number v = False"

fun lhat_is_integer :: "LhatValue \<Rightarrow> bool" where
  "lhat_is_integer (VALUE_INTEGER i) = True"
| "lhat_is_integer v = False"

lemma lhat_is_nil_iff [simp]: "lhat_is_nil v \<longleftrightarrow> v = VALUE_NIL"
  by (cases v) auto

text \<open>The contents of the object a value is, where it is one.\<close>

fun content_of :: "LhatStore \<Rightarrow> LhatValue \<Rightarrow> LhatContent option" where
  "content_of st (VALUE_OBJECT (Some a)) = Some (st_content st a)"
| "content_of st v = None"

fun lhat_number_as_real :: "LhatValue \<Rightarrow> LhatFloat" where
  "lhat_number_as_real (VALUE_INTEGER i) = float_of_integer i"
| "lhat_number_as_real (VALUE_REAL r) = real_value r"
| "lhat_number_as_real v = FLOAT_NAN"

text \<open>\<open>(LhatInteger)d\<close>.\<close>

fun float_to_integer :: "LhatStore \<Rightarrow> LhatFloat \<Rightarrow> LhatInteger" where
  "float_to_integer st (FLOAT u) =
     (if fits_int64 (units_trunc u) then word_of_int (units_trunc u) else st_cast st (FLOAT u))"
| "float_to_integer st f = st_cast st f"

text \<open>The limits are \<open>-9223372036854775808.0\<close> and \<open>9223372036854775808.0\<close>.\<close>

fun lhat_number_as_whole :: "LhatStore \<Rightarrow> LhatValue \<Rightarrow> LhatInteger option" where
  "lhat_number_as_whole st (VALUE_INTEGER i) = Some i"
| "lhat_number_as_whole st (VALUE_REAL r) =
     (let d = real_value r
      in if float_less_eq (FLOAT (- (2 ^ 63) * REAL_ONE)) d \<and> float_less d (FLOAT (2 ^ 63 * REAL_ONE)) \<and>
            float_equal d (float_of_integer (float_to_integer st d))
         then Some (float_to_integer st d) else None)"
| "lhat_number_as_whole st v = None"

subsection \<open>Comparison\<close>

definition lhat_string_equal :: "byte list \<Rightarrow> u32 \<Rightarrow> byte list \<Rightarrow> u32 \<Rightarrow> bool" where
  "lhat_string_equal text hash text' hash' \<longleftrightarrow>
     length text = length text' \<and> hash = hash' \<and> text = text'"

definition object_equal :: "LhatStore \<Rightarrow> addr \<Rightarrow> addr \<Rightarrow> bool" where
  "object_equal st a b =
     (case (st_content st a, st_content st b) of
        (CONTENT_STRING s h, CONTENT_STRING s' h') \<Rightarrow> a = b \<or> lhat_string_equal s h s' h'
      | (CONTENT_TYPE t, CONTENT_TYPE t') \<Rightarrow> a = b \<or> lhat_runtime_type_equal t t'
      | (CONTENT_BOX tag data sealed, CONTENT_BOX tag' data' sealed') \<Rightarrow>
          a = b \<or> tag \<noteq> 0 \<and> tag = tag' \<and> data = data'
      | (CONTENT_HOSTDATA tag p released ms, CONTENT_HOSTDATA tag' p' released' ms') \<Rightarrow>
          a = b \<or> tag \<noteq> 0 \<and> tag = tag' \<and> \<not> released \<and> \<not> released' \<and> p = p'
      | _ \<Rightarrow> a = b)"

fun lhat_value_equal :: "LhatStore \<Rightarrow> LhatValue \<Rightarrow> LhatValue \<Rightarrow> bool" where
  "lhat_value_equal st (VALUE_INTEGER x) (VALUE_INTEGER y) = (x = y)"
| "lhat_value_equal st (VALUE_INTEGER x) (VALUE_REAL r) =
     (float_equal (float_of_integer x) (real_value r) \<and> float_to_integer st (real_value r) = x)"
| "lhat_value_equal st (VALUE_REAL r) (VALUE_INTEGER y) =
     (float_equal (float_of_integer y) (real_value r) \<and> float_to_integer st (real_value r) = y)"
| "lhat_value_equal st (VALUE_REAL r) (VALUE_REAL r') = float_equal (real_value r) (real_value r')"
| "lhat_value_equal st VALUE_NIL VALUE_NIL = True"
| "lhat_value_equal st (VALUE_BOOL x) (VALUE_BOOL y) = (x = y)"
| "lhat_value_equal st (VALUE_OBJECT (Some a)) (VALUE_OBJECT (Some b)) = object_equal st a b"
| "lhat_value_equal st (VALUE_OBJECT a) (VALUE_OBJECT b) = (a = b)"
| "lhat_value_equal st a b = False"

text \<open>\<open>LHAT_NUMBER_TOLERANCE\<close>, \<open>8.0 * 2.220446049250313e-16\<close>: the literal is the double \<open>2 ^ -52\<close>.\<close>

definition LHAT_NUMBER_TOLERANCE :: LhatFloat where
  "LHAT_NUMBER_TOLERANCE = FLOAT (2 ^ 1025)"

definition float_zero :: LhatFloat where "float_zero = FLOAT 0"
definition float_one :: LhatFloat where "float_one = FLOAT REAL_ONE"

definition lhat_value_close :: "LhatStore \<Rightarrow> LhatValue \<Rightarrow> LhatValue \<Rightarrow> LhatFloat \<Rightarrow> bool" where
  "lhat_value_close st a b tolerance =
     (if \<not> lhat_is_number a \<or> \<not> lhat_is_number b \<or> (lhat_is_integer a \<and> lhat_is_integer b) then
        lhat_value_equal st a b
      else
        let x = lhat_number_as_real a; y = lhat_number_as_real b
        in if float_equal x y then True
           else
             let apart = (if float_less y x then float_minus x y else float_minus y x);
                 size0 = (if float_less x float_zero then float_negate x else x);
                 other = (if float_less y float_zero then float_negate y else y);
                 size = (if float_less size0 other then other else size0)
             in if \<not> float_equal (float_minus size size) float_zero then False
                else float_less_eq apart
                       (float_times tolerance (if float_less size float_one then float_one else size)))"

fun lhat_value_same :: "LhatValue \<Rightarrow> LhatValue \<Rightarrow> bool option" where
  "lhat_value_same VALUE_NIL b = Some (b = VALUE_NIL)"
| "lhat_value_same a VALUE_NIL = Some (a = VALUE_NIL)"
| "lhat_value_same (VALUE_OBJECT a) (VALUE_OBJECT b) = Some (a = b)"
| "lhat_value_same a b = None"

text \<open>The sign of \<open>memcmp\<close> over the shorter length, then of the lengths.\<close>

fun bytes_memcmp :: "byte list \<Rightarrow> byte list \<Rightarrow> int" where
  "bytes_memcmp (x # xs) (y # ys) = (if x < y then - 1 else if y < x then 1 else bytes_memcmp xs ys)"
| "bytes_memcmp xs ys = 0"

definition bytes_order :: "byte list \<Rightarrow> byte list \<Rightarrow> int" where
  "bytes_order s t =
     (let shorter = min (length s) (length t);
          by_bytes = (if 0 < shorter then bytes_memcmp (take shorter s) (take shorter t) else 0)
      in if by_bytes \<noteq> 0 then (if by_bytes < 0 then - 1 else 1)
         else if length s = length t then 0
         else if length s < length t then - 1 else 1)"

definition vm_three_way :: "LhatStore \<Rightarrow> LhatValue \<Rightarrow> LhatValue \<Rightarrow> int option" where
  "vm_three_way st left right =
     (case (left, right) of
        (VALUE_INTEGER x, VALUE_INTEGER y) \<Rightarrow>
          Some ((if sint y < sint x then 1 else 0) - (if sint x < sint y then 1 else 0))
      | _ \<Rightarrow>
          if lhat_is_number left \<and> lhat_is_number right then
            if lhat_value_close st left right LHAT_NUMBER_TOLERANCE then Some 0
            else Some (if float_less (lhat_number_as_real left) (lhat_number_as_real right) then - 1 else 1)
          else
            case (content_of st left, content_of st right) of
              (Some (CONTENT_STRING s h), Some (CONTENT_STRING t k)) \<Rightarrow> Some (bytes_order s t)
            | _ \<Rightarrow> None)"

subsection \<open>Hashing\<close>

definition lhat_string_hash :: "byte list \<Rightarrow> u32" where
  "lhat_string_hash text = foldl (\<lambda>hash c. (hash XOR ucast c) * 16777619) 2166136261 text"

text \<open>The two halves of 64 bits over one another.\<close>

definition fold_bits :: "u64 \<Rightarrow> u32" where
  "fold_bits bits = ucast (bits XOR drop_bit 32 bits)"

definition content_key_hash :: "u64 \<Rightarrow> byte list \<Rightarrow> u32" where
  "content_key_hash tag data = lhat_string_hash data XOR ucast (drop_bit 4 tag)"

fun hash_key :: "LhatStore \<Rightarrow> LhatValue \<Rightarrow> u32" where
  "hash_key st (VALUE_BOOL b) = (if b then 1 else 0)"
| "hash_key st (VALUE_INTEGER i) = fold_bits i"
| "hash_key st (VALUE_REAL r) = fold_bits r"
| "hash_key st (VALUE_OBJECT None) = fold_bits 0"
| "hash_key st (VALUE_OBJECT (Some a)) =
     (case st_content st a of
        CONTENT_STRING text hash \<Rightarrow> hash
      | CONTENT_BOX tag data sealed \<Rightarrow>
          if tag \<noteq> 0 then content_key_hash tag data else fold_bits (st_address st a)
      | CONTENT_HOSTDATA tag p released ms \<Rightarrow> fold_bits (p XOR push_bit 16 tag)
      | _ \<Rightarrow> fold_bits (st_address st a))"
| "hash_key st v = 0"

definition normalise_key :: "LhatStore \<Rightarrow> LhatValue \<Rightarrow> LhatValue" where
  "normalise_key st key =
     (case key of
        VALUE_REAL r \<Rightarrow>
          (case lhat_number_as_whole st key of Some whole \<Rightarrow> VALUE_INTEGER whole | None \<Rightarrow> key)
      | _ \<Rightarrow> key)"

fun usable_key :: "LhatValue \<Rightarrow> bool" where
  "usable_key VALUE_NIL = False"
| "usable_key (VALUE_REAL r) = float_equal (real_value r) (real_value r)"
| "usable_key VALUE_HOSTVALUE = False"
| "usable_key key = True"

subsection \<open>Ordinals\<close>

definition ordinal_limit :: LhatFloat where
  "ordinal_limit = FLOAT (9 * 10 ^ 15 * REAL_ONE)"

text \<open>\<open>floor(d + 0.5)\<close> of a double within the limit.\<close>

definition rounded_position :: "LhatReal \<Rightarrow> LhatInteger option" where
  "rounded_position r =
     (let d = real_value r
      in if float_less (float_negate ordinal_limit) d \<and> float_less d ordinal_limit then
           (case float_add d (FLOAT (REAL_ONE div 2)) of
              FLOAT u \<Rightarrow> Some (word_of_int (float_floor u))
            | _ \<Rightarrow> None)
         else None)"

fun vm_ordinal_of :: "LhatValue \<Rightarrow> LhatInteger option" where
  "vm_ordinal_of (VALUE_INTEGER i) = Some i"
| "vm_ordinal_of (VALUE_REAL r) = rounded_position r"
| "vm_ordinal_of v = None"

definition vm_resolve_ordinal :: "LhatInteger \<Rightarrow> nat \<Rightarrow> LhatInteger" where
  "vm_resolve_ordinal written count = (if sint written < 0 then word_of_nat count + written else written)"

end
