(* ===== verification/Lhat_Table.thy ===== *)
theory Lhat_Table
  imports Lhat_Value "HOL-Library.Monad_Syntax"
begin

text \<open>
  The tables of \<open>src/object.c\<close>: a dense half for the keys 0, 1, 2 and so on, and an open-addressed hash
  half with linear probing for the rest.  A probe that meets neither its key nor a free entry never
  returns, so the operations that probe are in the option monad, \<open>None\<close> being the call that does not
  come back; \<open>Lhat_TableInv\<close> shows that it does not happen.  An operation that can run out of
  memory answers as the code does, \<open>False\<close> with the table as it was left.
\<close>

subsection \<open>Entries\<close>

type_synonym LhatTableEntry = "LhatValue \<times> LhatValue"

fun entry_is_free :: "LhatTableEntry \<Rightarrow> bool" where
  "entry_is_free (k, v) = (lhat_is_nil k \<and> lhat_is_nil v)"

fun entry_is_tombstone :: "LhatTableEntry \<Rightarrow> bool" where
  "entry_is_tombstone (k, v) = (lhat_is_nil k \<and> \<not> lhat_is_nil v)"

definition nil_entry :: LhatTableEntry where
  "nil_entry = (VALUE_NIL, VALUE_NIL)"

definition tombstone :: LhatTableEntry where
  "tombstone = (VALUE_NIL, VALUE_BOOL True)"

abbreviation entry_capacity :: "LhatTable \<Rightarrow> nat" where
  "entry_capacity t \<equiv> length (tb_entries t)"

abbreviation array_count :: "LhatTable \<Rightarrow> nat" where
  "array_count t \<equiv> length (tb_array t)"

definition new_table :: LhatTable where
  "new_table =
     \<lparr>tb_array = [], tb_array_capacity = 0, tb_entries = [], tb_entry_count = 0,
      tb_entry_tombs = 0, tb_version = 0, tb_definition = None, tb_delegate_key = VALUE_NIL,
      tb_delegate_from_self = False, tb_is_definition = False, tb_sealed = False,
      tb_shared = False, tb_inline_entries = False\<rparr>"

text \<open>The power of two from \<open>capacity\<close> on of which three quarters hold \<open>needed\<close> entries.  A capacity
of zero, which neither caller starts from, would double for ever.\<close>

function fit_capacity :: "nat \<Rightarrow> nat \<Rightarrow> nat" where
  "fit_capacity capacity needed =
     (if capacity - capacity div 4 < needed \<and> 0 < capacity then fit_capacity (capacity * 2) needed
      else capacity)"
  by pat_completeness auto
termination
  by (relation "measure (\<lambda>(capacity, needed). 2 * needed - capacity)") auto

declare fit_capacity.simps [simp del]

definition max_table_entries :: nat where
  "max_table_entries = (2 ^ 64 - 1 - 136) div 32"

text \<open>\<open>lhat_table_new_reserved\<close>, the sizes of the two structs being those of a 64 bit platform; past
the bound the code answers NULL before it asks the allocator.\<close>

definition lhat_table_new_reserved :: "LhatStore \<Rightarrow> nat \<Rightarrow> LhatTable option" where
  "lhat_table_new_reserved st hash_entries =
     (if hash_entries = 0 then Some new_table
      else
        let capacity = fit_capacity 4 hash_entries
        in if max_table_entries < capacity \<or> \<not> st_room st capacity then None
           else Some (new_table\<lparr>tb_entries := replicate capacity nil_entry, tb_inline_entries := True\<rparr>))"

subsection \<open>Probing\<close>

definition spells :: "LhatStore \<Rightarrow> LhatValue \<Rightarrow> byte list \<Rightarrow> bool" where
  "spells st key text =
     (case content_of st key of Some (CONTENT_STRING held hash) \<Rightarrow> held = text | _ \<Rightarrow> False)"

text \<open>The place asked for is given by the test that the code makes against a live key: equality with
the key, or that it is the string with those bytes.\<close>

partial_function (option) probe_loop ::
  "(LhatValue \<Rightarrow> bool) \<Rightarrow> LhatTableEntry list \<Rightarrow> nat \<Rightarrow> nat option \<Rightarrow> nat option" where
  "probe_loop matches entries index tomb =
     (let entry = entries ! index; further = (index + 1) AND (length entries - 1)
      in if entry_is_free entry then Some (case tomb of Some t \<Rightarrow> t | None \<Rightarrow> index)
         else if entry_is_tombstone entry then
           probe_loop matches entries further (if tomb = None then Some index else tomb)
         else if matches (fst entry) then Some index
         else probe_loop matches entries further tomb)"

declare probe_loop.simps [code]

definition probe_spelt :: "LhatTableEntry list \<Rightarrow> (LhatValue \<Rightarrow> bool) \<Rightarrow> u32 \<Rightarrow> nat option" where
  "probe_spelt entries matches hash =
     probe_loop matches entries (unat hash AND (length entries - 1)) None"

definition probe :: "LhatStore \<Rightarrow> LhatTableEntry list \<Rightarrow> LhatValue \<Rightarrow> u32 \<Rightarrow> nat option" where
  "probe st entries key hash = probe_spelt entries (\<lambda>held. lhat_value_equal st held key) hash"

fun rehash_entries ::
  "LhatStore \<Rightarrow> LhatTableEntry list \<Rightarrow> LhatTableEntry list \<Rightarrow> nat \<Rightarrow> (LhatTableEntry list \<times> nat) option" where
  "rehash_entries st [] entries moved = Some (entries, moved)"
| "rehash_entries st ((k, v) # olds) entries moved =
     (if lhat_is_nil k then rehash_entries st olds entries moved
      else do {
        at \<leftarrow> probe st entries k (hash_key st k);
        rehash_entries st olds (entries[at := (k, v)]) (moved + 1)
      })"

definition grow_entries :: "LhatStore \<Rightarrow> LhatTable \<Rightarrow> (bool \<times> LhatTable) option" where
  "grow_entries st t =
     (let capacity = fit_capacity 8 (tb_entry_count t + 1)
      in if \<not> st_room st capacity then Some (False, t)
         else do {
           (entries, moved) \<leftarrow> rehash_entries st (tb_entries t) (replicate capacity nil_entry) 0;
           Some (True, t\<lparr>tb_entries := entries, tb_inline_entries := False, tb_entry_count := moved,
                         tb_entry_tombs := 0, tb_version := tb_version t + 1\<rparr>)
         })"

subsection \<open>The dense half\<close>

definition position_in :: "LhatTable \<Rightarrow> LhatInteger \<Rightarrow> nat option" where
  "position_in t i = (if sint i < 0 \<or> array_count t \<le> unat i then None else Some (unat i))"

fun array_index :: "LhatTable \<Rightarrow> LhatValue \<Rightarrow> nat option" where
  "array_index t (VALUE_INTEGER i) = position_in t i"
| "array_index t (VALUE_REAL r) =
     (case rounded_position r of Some i \<Rightarrow> position_in t i | None \<Rightarrow> None)"
| "array_index t key = None"

definition grow_array :: "LhatStore \<Rightarrow> LhatTable \<Rightarrow> bool \<times> LhatTable" where
  "grow_array st t =
     (let capacity = (if tb_array_capacity t \<noteq> 0 then tb_array_capacity t * 2 else 8)
      in if st_room st capacity then (True, t\<lparr>tb_array_capacity := capacity\<rparr>) else (False, t))"

text \<open>Room for one more slot, if the run is full.\<close>

definition array_room :: "LhatStore \<Rightarrow> LhatTable \<Rightarrow> bool \<times> LhatTable" where
  "array_room st t = (if array_count t = tb_array_capacity t then grow_array st t else (True, t))"

definition array_push :: "LhatTable \<Rightarrow> LhatValue \<Rightarrow> LhatTable" where
  "array_push t v = t\<lparr>tb_array := tb_array t @ [v]\<rparr>"

definition find_entry :: "LhatStore \<Rightarrow> LhatTable \<Rightarrow> nat \<Rightarrow> nat option option" where
  "find_entry st t index =
     (if tb_entry_count t = 0 then Some None
      else
        let key = VALUE_INTEGER (word_of_nat index)
        in do {
          at \<leftarrow> probe st (tb_entries t) key (hash_key st key);
          Some (if lhat_is_nil (fst (tb_entries t ! at)) then None else Some at)
        })"

definition bury :: "LhatTable \<Rightarrow> nat \<Rightarrow> LhatTable" where
  "bury t at =
     t\<lparr>tb_entries := (tb_entries t)[at := tombstone], tb_entry_count := tb_entry_count t - 1,
       tb_entry_tombs := tb_entry_tombs t + 1\<rparr>"

definition take_entry :: "LhatTable \<Rightarrow> nat \<Rightarrow> LhatValue \<times> LhatTable" where
  "take_entry t at = (snd (tb_entries t ! at), (bury t at)\<lparr>tb_version := tb_version t + 1\<rparr>)"

partial_function (option) drain_into_array :: "LhatStore \<Rightarrow> LhatTable \<Rightarrow> LhatTable option" where
  "drain_into_array st t = do {
     found \<leftarrow> find_entry st t (array_count t);
     case found of
       None \<Rightarrow> Some t
     | Some at \<Rightarrow>
         let room = array_room st t; taken = take_entry (snd room) at in
         if fst room then drain_into_array st (array_push (snd taken) (fst taken)) else Some (snd room)
   }"

declare drain_into_array.simps [code]

fun shorten_array :: "LhatValue list \<Rightarrow> nat \<Rightarrow> LhatValue list" where
  "shorten_array array len =
     (if len < length array then shorten_array (butlast array) len else array)"

declare shorten_array.simps [simp del]

text \<open>The second loop of \<open>lhat_table_resize\<close>, for as many positions as are missing.\<close>

fun lengthen_array :: "LhatStore \<Rightarrow> nat \<Rightarrow> LhatValue \<Rightarrow> LhatTable \<Rightarrow> (bool \<times> LhatTable) option" where
  "lengthen_array st 0 fill t = Some (True, t)"
| "lengthen_array st (Suc missing) fill t =
     (case array_room st t of
        (False, t) \<Rightarrow> Some (False, t)
      | (True, t) \<Rightarrow> do {
          found \<leftarrow> find_entry st t (array_count t);
          (case found of
             Some at \<Rightarrow>
               let (value, t) = take_entry t at in lengthen_array st missing fill (array_push t value)
           | None \<Rightarrow> lengthen_array st missing fill (array_push t fill))
        })"

definition lhat_table_resize :: "LhatStore \<Rightarrow> LhatTable \<Rightarrow> nat \<Rightarrow> LhatValue \<Rightarrow> (bool \<times> LhatTable) option" where
  "lhat_table_resize st t len fill =
     (let t = t\<lparr>tb_array := shorten_array (tb_array t) len\<rparr>
      in do {
        (grown, t) \<leftarrow> lengthen_array st (len - array_count t) fill t;
        if grown then do { t \<leftarrow> drain_into_array st t; Some (True, t) } else Some (False, t)
      })"

subsection \<open>Writing\<close>

text \<open>Room for one more entry under the load factor, tombstones counted.\<close>

definition entry_room :: "LhatStore \<Rightarrow> LhatTable \<Rightarrow> (bool \<times> LhatTable) option" where
  "entry_room st t =
     (if entry_capacity t - entry_capacity t div 4 < tb_entry_count t + tb_entry_tombs t + 1
      then grow_entries st t else Some (True, t))"

text \<open>An entry that held no key now holds one.\<close>

definition claim_entry :: "LhatTable \<Rightarrow> nat \<Rightarrow> LhatTable" where
  "claim_entry t at =
     t\<lparr>tb_entry_tombs :=
         (if lhat_is_nil (snd (tb_entries t ! at)) then tb_entry_tombs t else tb_entry_tombs t - 1),
       tb_entry_count := tb_entry_count t + 1, tb_version := tb_version t + 1\<rparr>"

definition put_entry :: "LhatTable \<Rightarrow> nat \<Rightarrow> LhatValue \<Rightarrow> LhatValue \<Rightarrow> LhatTable" where
  "put_entry t at k v = t\<lparr>tb_entries := (tb_entries t)[at := (k, v)]\<rparr>"

definition lhat_table_reserve :: "LhatStore \<Rightarrow> LhatTable \<Rightarrow> LhatValue \<Rightarrow> (bool \<times> LhatTable) option" where
  "lhat_table_reserve st t key0 =
     (if \<not> usable_key key0 then Some (True, t)
      else
        let key = normalise_key st key0; hash = hash_key st key
        in if array_index t key \<noteq> None then Some (True, t)
           else do {
             there \<leftarrow> (if entry_capacity t = 0 then Some False
                      else do {
                        at \<leftarrow> probe st (tb_entries t) key hash;
                        Some (\<not> lhat_is_nil (fst (tb_entries t ! at)))
                      });
             if there then Some (True, t)
             else do {
               (room, t) \<leftarrow> entry_room st t;
               if \<not> room then Some (False, t)
               else do {
                 at \<leftarrow> probe st (tb_entries t) key hash;
                 Some (True, put_entry (claim_entry t at) at key VALUE_NIL)
               }
             }
           })"

text \<open>\<open>lhat_table_vacate\<close>, \<open>lhat_table_holds\<close> and \<open>lhat_table_reserved\<close> find the entry alike.\<close>

definition own_entry :: "LhatStore \<Rightarrow> LhatTable \<Rightarrow> LhatValue \<Rightarrow> nat option option" where
  "own_entry st t key0 =
     (if \<not> usable_key key0 \<or> entry_capacity t = 0 then Some None
      else
        let key = normalise_key st key0
        in do {
          at \<leftarrow> probe st (tb_entries t) key (hash_key st key);
          Some (if lhat_is_nil (fst (tb_entries t ! at)) then None else Some at)
        })"

definition lhat_table_vacate :: "LhatStore \<Rightarrow> LhatTable \<Rightarrow> LhatValue \<Rightarrow> LhatTable option" where
  "lhat_table_vacate st t key = do {
     found \<leftarrow> own_entry st t key;
     Some (case found of
       None \<Rightarrow> t | Some at \<Rightarrow> put_entry t at (fst (tb_entries t ! at)) VALUE_NIL)
   }"

definition lhat_table_holds :: "LhatStore \<Rightarrow> LhatTable \<Rightarrow> LhatValue \<Rightarrow> bool option" where
  "lhat_table_holds st t key = do { found \<leftarrow> own_entry st t key; Some (found \<noteq> None) }"

definition lhat_table_reserved :: "LhatStore \<Rightarrow> LhatTable \<Rightarrow> LhatValue \<Rightarrow> bool option" where
  "lhat_table_reserved st t key = do {
     found \<leftarrow> own_entry st t key;
     Some (case found of None \<Rightarrow> False | Some at \<Rightarrow> lhat_is_nil (snd (tb_entries t ! at)))
   }"

text \<open>The loop of \<open>lhat_table_prune_seats\<close> over the entries from \<open>i\<close> on.\<close>

fun prune_loop :: "LhatStore \<Rightarrow> LhatTable \<Rightarrow> nat list \<Rightarrow> LhatTable \<Rightarrow> LhatTable option" where
  "prune_loop st definition [] proto = Some proto"
| "prune_loop st definition (i # rest) proto =
     (let (key, value) = tb_entries proto ! i
      in if lhat_is_nil key \<or> \<not> lhat_is_nil value then prune_loop st definition rest proto
         else do {
           at \<leftarrow> probe st (tb_entries definition) key (hash_key st key);
           let (member, held) = tb_entries definition ! at in
           prune_loop st definition rest
             (if \<not> lhat_is_nil member \<and> \<not> lhat_is_nil held then bury proto i else proto)
         })"

definition lhat_table_prune_seats :: "LhatStore \<Rightarrow> LhatTable \<Rightarrow> LhatTable \<Rightarrow> LhatTable option" where
  "lhat_table_prune_seats st proto definition =
     (if entry_capacity definition = 0 then Some proto
      else prune_loop st definition [0..<entry_capacity proto] proto)"

datatype LhatSetAnswer = SET_ANSWER (set_done: bool) (set_refused: bool) (set_table: LhatTable)

definition key_refused :: "LhatStore \<Rightarrow> LhatValue \<Rightarrow> bool" where
  "key_refused st key \<longleftrightarrow>
     \<not> usable_key key \<or>
     (case content_of st key of Some (CONTENT_BOX tag data sealed) \<Rightarrow> \<not> sealed | _ \<Rightarrow> False)"

definition set_append :: "LhatStore \<Rightarrow> LhatTable \<Rightarrow> LhatValue \<Rightarrow> LhatSetAnswer option" where
  "set_append st t value =
     (case array_room st t of
        (False, t) \<Rightarrow> Some (SET_ANSWER False False t)
      | (True, t) \<Rightarrow> do {
          t \<leftarrow> drain_into_array st (array_push t value);
          Some (SET_ANSWER True False t)
        })"

definition set_remove :: "LhatStore \<Rightarrow> LhatTable \<Rightarrow> LhatValue \<Rightarrow> LhatSetAnswer option" where
  "set_remove st t key =
     (if entry_capacity t = 0 then Some (SET_ANSWER True False t)
      else do {
        at \<leftarrow> probe st (tb_entries t) key (hash_key st key);
        Some (SET_ANSWER True False
          (if lhat_is_nil (fst (tb_entries t ! at)) then t
           else (bury t at)\<lparr>tb_version := tb_version t + 1\<rparr>))
      })"

definition set_entry :: "LhatStore \<Rightarrow> LhatTable \<Rightarrow> LhatValue \<Rightarrow> LhatValue \<Rightarrow> LhatSetAnswer option" where
  "set_entry st t key value = do {
     (room, t) \<leftarrow> entry_room st t;
     if \<not> room then Some (SET_ANSWER False False t)
     else do {
       at \<leftarrow> probe st (tb_entries t) key (hash_key st key);
       let t = (if lhat_is_nil (fst (tb_entries t ! at)) then claim_entry t at else t) in
       Some (SET_ANSWER True False (put_entry t at key value))
     }
   }"

definition lhat_table_set :: "LhatStore \<Rightarrow> LhatTable \<Rightarrow> LhatValue \<Rightarrow> LhatValue \<Rightarrow> LhatSetAnswer option" where
  "lhat_table_set st t key0 value =
     (if key_refused st key0 then Some (SET_ANSWER True True t)
      else
        let key = normalise_key st key0
        in case array_index t key of
             Some index \<Rightarrow> Some (SET_ANSWER True False (t\<lparr>tb_array := (tb_array t)[index := value]\<rparr>))
           | None \<Rightarrow>
               if key = VALUE_INTEGER (word_of_nat (array_count t)) then set_append st t value
               else if lhat_is_nil value then set_remove st t key
               else set_entry st t key value)"

definition lhat_table_length :: "LhatTable \<Rightarrow> nat" where
  "lhat_table_length t = array_count t"

definition lhat_table_count :: "LhatTable \<Rightarrow> nat" where
  "lhat_table_count t = array_count t + tb_entry_count t"

subsection \<open>Reading what the table itself holds\<close>

text \<open>The body of the inner loop of \<open>table_get_in\<close>: the value, with the place in the hash half where it
was found there; a seat answers nothing.\<close>

definition own_hashed :: "LhatTable \<Rightarrow> (LhatValue \<Rightarrow> bool) \<Rightarrow> u32 \<Rightarrow> (LhatValue \<times> nat option) option option" where
  "own_hashed t matches hash =
     (if entry_capacity t = 0 then Some None
      else do {
        at \<leftarrow> probe_spelt (tb_entries t) matches hash;
        let (key, value) = tb_entries t ! at in
        Some (if lhat_is_nil key \<or> lhat_is_nil value then None else Some (value, Some at))
      })"

definition own_get :: "LhatStore \<Rightarrow> LhatTable \<Rightarrow> LhatValue \<Rightarrow> (LhatValue \<times> nat option) option option" where
  "own_get st t key =
     (case array_index t key of
        Some index \<Rightarrow> Some (Some (tb_array t ! index, None))
      | None \<Rightarrow> own_hashed t (\<lambda>held. lhat_value_equal st held key) (hash_key st key))"

definition own_get_bytes :: "LhatStore \<Rightarrow> LhatTable \<Rightarrow> byte list \<Rightarrow> (LhatValue \<times> nat option) option option" where
  "own_get_bytes st t text = own_hashed t (\<lambda>held. spells st held text) (lhat_string_hash text)"

subsection \<open>Walking\<close>

datatype LhatWalkPart =
  LHAT_WALK_PAIR | LHAT_WALK_KEYS | LHAT_WALK_VALUES | LHAT_WALK_RANGE | LHAT_WALK_REVERSE

record LhatWalkCursor =
  wk_part :: LhatWalkPart
  wk_at_array :: nat
  wk_at_entry :: nat

definition walk_position :: "LhatTable \<Rightarrow> nat \<Rightarrow> LhatValue \<times> LhatValue" where
  "walk_position t position = (VALUE_INTEGER (word_of_nat position), tb_array t ! position)"

text \<open>The loop over the entries, for those that are left.\<close>

fun walk_entries :: "LhatTableEntry list \<Rightarrow> nat \<Rightarrow> nat \<times> (LhatValue \<times> LhatValue) option" where
  "walk_entries [] at = (at, None)"
| "walk_entries ((k, v) # rest) at =
     (if lhat_is_nil k then walk_entries rest (at + 1) else (at + 1, Some (k, v)))"

definition lhat_table_walk ::
  "LhatTable \<Rightarrow> LhatWalkCursor \<Rightarrow> LhatWalkCursor \<times> (LhatValue \<times> LhatValue) option" where
  "lhat_table_walk t w =
     (case wk_part w of
        LHAT_WALK_REVERSE \<Rightarrow>
          let w = (if array_count t < wk_at_array w then w\<lparr>wk_at_array := array_count t\<rparr> else w)
          in if wk_at_array w \<le> wk_at_entry w then (w, None)
             else (w\<lparr>wk_at_array := wk_at_array w - 1\<rparr>, Some (walk_position t (wk_at_array w - 1)))
      | LHAT_WALK_RANGE \<Rightarrow>
          if wk_at_entry w \<le> wk_at_array w \<or> array_count t \<le> wk_at_array w then (w, None)
          else (w\<lparr>wk_at_array := wk_at_array w + 1\<rparr>, Some (walk_position t (wk_at_array w)))
      | _ \<Rightarrow>
          if wk_at_array w < array_count t then
            (w\<lparr>wk_at_array := wk_at_array w + 1\<rparr>, Some (walk_position t (wk_at_array w)))
          else
            let (at, found) = walk_entries (drop (wk_at_entry w) (tb_entries t)) (wk_at_entry w)
            in (w\<lparr>wk_at_entry := at\<rparr>, found))"

end
