(* ===== verification/Lhat_Probe.thy ===== *)
theory Lhat_Probe
  imports Lhat_Table
begin

text \<open>
  Linear probing over the entries of a hash half: where a probe ends, that it ends, and what putting,
  overwriting and burying an entry leaves of the invariant.  Equality, hash and the keys that may be
  stored are parameters of the locale; \<open>Lhat_TableInv\<close> interprets it on those of the values.
\<close>

subsection \<open>The order in which slots are looked at\<close>

definition probe_slot :: "nat \<Rightarrow> u32 \<Rightarrow> nat \<Rightarrow> nat" where
  "probe_slot capacity hash d = (unat hash + d) mod capacity"

lemma and_capacity:
  fixes x n :: nat
  shows "x AND (2 ^ n - 1) = x mod 2 ^ n"
  by (simp add: take_bit_eq_mod [symmetric] take_bit_eq_mask mask_eq_exp_minus_1)

lemma probe_slot_less [simp]: "0 < capacity \<Longrightarrow> probe_slot capacity hash d < capacity"
  by (simp add: probe_slot_def)

lemma probe_slot_onto:
  assumes "i < capacity"
  obtains d where "d < capacity" "probe_slot capacity hash d = i"
proof
  define r where "r = unat hash mod capacity"
  have r: "r < capacity" using assms by (simp add: r_def)
  let ?d = "(i + (capacity - r)) mod capacity"
  show "?d < capacity" using assms by simp
  have "probe_slot capacity hash ?d = (r + (i + (capacity - r))) mod capacity"
    by (simp add: probe_slot_def r_def mod_simps)
  also have "r + (i + (capacity - r)) = i + capacity" using r by simp
  finally show "probe_slot capacity hash ?d = i" using assms by simp
qed

definition live_entry :: "LhatTableEntry \<Rightarrow> bool" where
  "live_entry e \<longleftrightarrow> fst e \<noteq> VALUE_NIL"

lemma entry_cases:
  "live_entry e \<Longrightarrow> \<not> entry_is_free e \<and> \<not> entry_is_tombstone e"
  "\<not> entry_is_free e \<Longrightarrow> \<not> entry_is_tombstone e \<Longrightarrow> live_entry e"
  "entry_is_free e \<Longrightarrow> \<not> entry_is_tombstone e"
  by (cases e; auto simp: live_entry_def)+

subsection \<open>Where a probe ends\<close>

text \<open>The slots before the end of the probe: taken, and not what is asked for.\<close>

definition passes :: "(LhatValue \<Rightarrow> bool) \<Rightarrow> LhatTableEntry \<Rightarrow> bool" where
  "passes matches e \<longleftrightarrow> \<not> entry_is_free e \<and> \<not> (live_entry e \<and> matches (fst e))"

lemma probe_step:
  assumes "length es = 2 ^ n"
  shows "(probe_slot (length es) hash d + 1) AND (length es - 1) = probe_slot (length es) hash (Suc d)"
  by (simp only: assms and_capacity probe_slot_def mod_simps Suc_eq_plus1 add.assoc)

lemma probe_loop_passes:
  assumes n: "length es = 2 ^ n"
    and pass: "\<And>e. d \<le> e \<Longrightarrow> e < d + k \<Longrightarrow> passes matches (es ! probe_slot (length es) hash e)"
  shows "\<exists>tomb'. probe_loop matches es (probe_slot (length es) hash d) tomb =
      probe_loop matches es (probe_slot (length es) hash (d + k)) tomb' \<and>
    (tomb' = tomb \<or> (\<exists>e. d \<le> e \<and> e < d + k \<and> tomb' = Some (probe_slot (length es) hash e) \<and>
       \<not> live_entry (es ! probe_slot (length es) hash e)))"
  using pass
proof (induction k arbitrary: d tomb)
  case 0
  then show ?case by auto
next
  case (Suc k)
  let ?s = "probe_slot (length es) hash"
  have here: "passes matches (es ! ?s d)"
    using Suc.prems [of d] by simp
  define tomb1 where
    "tomb1 = (if entry_is_tombstone (es ! ?s d) \<and> tomb = None then Some (?s d) else tomb)"
  have step: "probe_loop matches es (?s d) tomb = probe_loop matches es (?s (Suc d)) tomb1"
    using here probe_step [OF n, of hash d] entry_cases(2) [of "es ! ?s d"]
    by (subst probe_loop.simps) (auto simp: passes_def tomb1_def Let_def)
  have dead: "tomb1 = tomb \<or> tomb1 = Some (?s d) \<and> \<not> live_entry (es ! ?s d)"
    using entry_cases(1) [of "es ! ?s d"] by (auto simp: tomb1_def)
  have "\<exists>tomb'. probe_loop matches es (?s (Suc d)) tomb1 =
      probe_loop matches es (?s (Suc d + k)) tomb' \<and>
    (tomb' = tomb1 \<or> (\<exists>e. Suc d \<le> e \<and> e < Suc d + k \<and> tomb' = Some (?s e) \<and> \<not> live_entry (es ! ?s e)))"
    by (rule Suc.IH) (use Suc.prems in simp)
  then obtain tomb' where
    run: "probe_loop matches es (?s (Suc d)) tomb1 = probe_loop matches es (?s (d + Suc k)) tomb'"
    and which: "tomb' = tomb1 \<or>
      (\<exists>e. Suc d \<le> e \<and> e < Suc d + k \<and> tomb' = Some (?s e) \<and> \<not> live_entry (es ! ?s e))"
    by auto
  have "tomb' = tomb \<or> (\<exists>e. d \<le> e \<and> e < d + Suc k \<and> tomb' = Some (?s e) \<and> \<not> live_entry (es ! ?s e))"
    using which dead by (auto intro: exI [of _ d] dest: Suc_leD)
  then show ?case
    unfolding step run by blast
qed

lemma probe_start:
  assumes "length es = 2 ^ n"
  shows "probe_spelt es matches hash = probe_loop matches es (probe_slot (length es) hash 0) None"
  by (simp only: probe_spelt_def assms and_capacity probe_slot_def add_0_right)

text \<open>A live entry that matches is answered; a free one sends the probe back to the first tombstone.\<close>

lemma probe_hit:
  assumes n: "length es = 2 ^ n"
    and pass: "\<And>e. e < d \<Longrightarrow> passes matches (es ! probe_slot (length es) hash e)"
    and hit: "live_entry (es ! probe_slot (length es) hash d)" "matches (fst (es ! probe_slot (length es) hash d))"
  shows "probe_spelt es matches hash = Some (probe_slot (length es) hash d)"
proof -
  obtain tomb where "probe_spelt es matches hash = probe_loop matches es (probe_slot (length es) hash d) tomb"
    using probe_loop_passes [OF n, of 0 d matches hash None] pass probe_start [OF n] by auto
  also have "\<dots> = Some (probe_slot (length es) hash d)"
    using hit entry_cases(1) [OF hit(1)] by (subst probe_loop.simps) (simp add: Let_def)
  finally show ?thesis .
qed

lemma probe_miss:
  assumes n: "length es = 2 ^ n"
    and pass: "\<And>e. e < d \<Longrightarrow> passes matches (es ! probe_slot (length es) hash e)"
    and free: "entry_is_free (es ! probe_slot (length es) hash d)"
  obtains e where "e \<le> d" "probe_spelt es matches hash = Some (probe_slot (length es) hash e)"
    "\<not> live_entry (es ! probe_slot (length es) hash e)"
proof -
  let ?s = "probe_slot (length es) hash"
  obtain tomb where run: "probe_spelt es matches hash = probe_loop matches es (?s d) tomb"
    and which: "tomb = None \<or> (\<exists>e<d. tomb = Some (?s e) \<and> \<not> live_entry (es ! ?s e))"
    using probe_loop_passes [OF n, of 0 d matches hash None] pass probe_start [OF n] by auto
  have end_at: "probe_loop matches es (?s d) tomb = Some (case tomb of Some t \<Rightarrow> t | None \<Rightarrow> ?s d)"
    using free by (subst probe_loop.simps) (simp add: Let_def)
  have dead: "\<not> live_entry (es ! ?s d)"
    using free entry_cases(1) by blast
  show ?thesis
    using which
  proof
    assume "tomb = None"
    then show ?thesis using that [of d] run end_at dead by simp
  next
    assume "\<exists>e<d. tomb = Some (?s e) \<and> \<not> live_entry (es ! ?s e)"
    then obtain e where "e < d" "tomb = Some (?s e)" "\<not> live_entry (es ! ?s e)" by blast
    then show ?thesis using that [of e] run end_at by simp
  qed
qed

subsection \<open>The entries of a hash half\<close>

text \<open>Every slot before the one a key is found in is taken.\<close>

definition reached :: "LhatTableEntry list \<Rightarrow> u32 \<Rightarrow> nat \<Rightarrow> bool" where
  "reached es hash i \<longleftrightarrow>
     (\<exists>d. probe_slot (length es) hash d = i \<and>
        (\<forall>e<d. \<not> entry_is_free (es ! probe_slot (length es) hash e)))"

definition entries_ok ::
  "(LhatValue \<Rightarrow> LhatValue \<Rightarrow> bool) \<Rightarrow> (LhatValue \<Rightarrow> u32) \<Rightarrow> (LhatValue \<Rightarrow> bool) \<Rightarrow>
   LhatTableEntry list \<Rightarrow> bool" where
  "entries_ok eq hash good es \<longleftrightarrow>
     (\<exists>n. length es = 2 ^ n) \<and>
     (\<forall>i<length es. live_entry (es ! i) \<longrightarrow>
        good (fst (es ! i)) \<and> reached es (hash (fst (es ! i))) i) \<and>
     (\<forall>i<length es. \<forall>j<length es. live_entry (es ! i) \<and> live_entry (es ! j) \<and>
        eq (fst (es ! i)) (fst (es ! j)) \<longrightarrow> i = j)"

definition some_free :: "LhatTableEntry list \<Rightarrow> bool" where
  "some_free es \<longleftrightarrow> (\<exists>e\<in>set es. entry_is_free e)"

text \<open>What the entries hold under a key: \<open>Some VALUE_NIL\<close> is a seat.\<close>

definition held_at ::
  "(LhatValue \<Rightarrow> LhatValue \<Rightarrow> bool) \<Rightarrow> LhatTableEntry list \<Rightarrow> LhatValue \<Rightarrow> LhatValue option" where
  "held_at eq es k = map_option snd (find (\<lambda>e. live_entry e \<and> eq (fst e) k) es)"

locale hash_keys =
  fixes eq :: "LhatValue \<Rightarrow> LhatValue \<Rightarrow> bool"
    and hash :: "LhatValue \<Rightarrow> u32"
    and good :: "LhatValue \<Rightarrow> bool"
  assumes eq_refl: "good j \<Longrightarrow> eq j j"
    and eq_sym: "good j \<Longrightarrow> good k \<Longrightarrow> eq j k \<Longrightarrow> eq k j"
    and eq_trans: "good j \<Longrightarrow> good k \<Longrightarrow> good l \<Longrightarrow> eq j k \<Longrightarrow> eq k l \<Longrightarrow> eq j l"
    and eq_hash: "good j \<Longrightarrow> good k \<Longrightarrow> eq j k \<Longrightarrow> hash j = hash k"
    and good_key: "good j \<Longrightarrow> j \<noteq> VALUE_NIL"
begin

lemma entries_okD:
  assumes "entries_ok eq hash good es"
  shows "\<exists>n. length es = 2 ^ n" "0 < length es"
    "i < length es \<Longrightarrow> live_entry (es ! i) \<Longrightarrow> good (fst (es ! i))"
    "i < length es \<Longrightarrow> live_entry (es ! i) \<Longrightarrow> reached es (hash (fst (es ! i))) i"
    "i < length es \<Longrightarrow> j < length es \<Longrightarrow> live_entry (es ! i) \<Longrightarrow> live_entry (es ! j) \<Longrightarrow>
       eq (fst (es ! i)) (fst (es ! j)) \<Longrightarrow> i = j"
  using assms unfolding entries_ok_def by (blast, fastforce, blast+)

lemma held_at_live:
  assumes ok: "entries_ok eq hash good es" and k: "good k"
    and i: "i < length es" "live_entry (es ! i)" "eq (fst (es ! i)) k"
  shows "held_at eq es k = Some (snd (es ! i))"
proof -
  let ?P = "\<lambda>e. live_entry e \<and> eq (fst e) k"
  have "find ?P es \<noteq> None"
    using i nth_mem [OF i(1)] unfolding find_None_iff by blast
  then obtain e where e: "find ?P es = Some e" by blast
  then obtain j where j: "j < length es" "?P (es ! j)" "e = es ! j"
    by (auto simp: find_Some_iff)
  have "good (fst (es ! i))" "good (fst (es ! j))"
    using entries_okD(3) [OF ok] i j by blast+
  then have "eq (fst (es ! j)) (fst (es ! i))"
    using eq_trans eq_sym k i(3) j(2) by blast
  then have "j = i" using entries_okD(5) [OF ok j(1) i(1)] i(2) j(2) by blast
  then show ?thesis using e j(3) by (simp add: held_at_def)
qed

lemma held_at_none:
  "held_at eq es k = None \<longleftrightarrow> (\<forall>i<length es. \<not> (live_entry (es ! i) \<and> eq (fst (es ! i)) k))"
  unfolding held_at_def option.map_disc_iff find_None_iff by (metis in_set_conv_nth)

lemma held_at_none_put:
  assumes "held_at eq es j = None" "\<not> eq k j"
  shows "held_at eq (es[i := (k, v)]) j = None"
  unfolding held_at_none
proof (intro allI impI)
  fix x assume "x < length (es[i := (k, v)])"
  then show "\<not> (live_entry (es[i := (k, v)] ! x) \<and> eq (fst (es[i := (k, v)] ! x)) j)"
    using assms by (cases "x = i") (auto simp: held_at_none)
qed

lemma held_at_some:
  assumes "held_at eq es k = Some v"
  obtains i where "i < length es" "live_entry (es ! i)" "eq (fst (es ! i)) k" "v = snd (es ! i)"
proof -
  obtain e where e: "find (\<lambda>e. live_entry e \<and> eq (fst e) k) es = Some e" "v = snd e"
    using assms by (auto simp: held_at_def)
  then obtain i where "i < length es" "live_entry (es ! i) \<and> eq (fst (es ! i)) k" "e = es ! i"
    unfolding find_Some_iff by blast
  then show ?thesis using that e(2) by blast
qed

lemma held_at_cong:
  assumes ok: "entries_ok eq hash good es" and j: "good j" and k: "good k" and e: "eq j k"
  shows "held_at eq es j = held_at eq es k"
proof -
  have "(live_entry x \<and> eq (fst x) j) = (live_entry x \<and> eq (fst x) k)" if "x \<in> set es" for x
  proof -
    have "good (fst x)" if "live_entry x"
      using entries_okD(3) [OF ok] that \<open>x \<in> set es\<close> by (metis in_set_conv_nth)
    then show ?thesis
      using eq_trans [OF _ j k _ e] eq_trans [OF _ k j] eq_sym [OF j k e] by blast
  qed
  then show ?thesis unfolding held_at_def by (metis (mono_tags, lifting) find_cong)
qed

text \<open>A probe returns: the entry of the key where there is one, else a place where it may be put.\<close>

lemma probe_there:
  assumes ok: "entries_ok eq hash good es" and k: "good k"
    and agree: "\<And>e. e \<in> set es \<Longrightarrow> live_entry e \<Longrightarrow> matches (fst e) = eq (fst e) k"
    and i: "i < length es" "live_entry (es ! i)" "eq (fst (es ! i)) k"
  shows "probe_spelt es matches (hash k) = Some i"
proof -
  have g: "good (fst (es ! i))" using entries_okD(3) [OF ok i(1,2)] .
  have h: "hash (fst (es ! i)) = hash k" by (rule eq_hash [OF g k i(3)])
  obtain n where n: "length es = 2 ^ n" using entries_okD(1) [OF ok] by blast
  let ?s = "probe_slot (length es) (hash k)"
  have mem: "es ! ?s e \<in> set es" for e
    using entries_okD(2) [OF ok] by simp
  define d where "d = (LEAST d. ?s d = i \<and> (\<forall>e<d. \<not> entry_is_free (es ! ?s e)))"
  have "\<exists>d. ?s d = i \<and> (\<forall>e<d. \<not> entry_is_free (es ! ?s e))"
    using entries_okD(4) [OF ok i(1,2)] unfolding reached_def h .
  then have "?s d = i \<and> (\<forall>e<d. \<not> entry_is_free (es ! ?s e))"
    unfolding d_def by (rule LeastI_ex)
  then have d: "?s d = i" "\<And>e. e < d \<Longrightarrow> \<not> entry_is_free (es ! ?s e)"
    by blast+
  have least: "?s e \<noteq> i" if "e < d" for e
    using not_less_Least [OF that [unfolded d_def]] d(2) that order.strict_trans by blast
  have "passes matches (es ! ?s e)" if "e < d" for e
  proof -
    have "\<not> eq (fst (es ! ?s e)) k" if l: "live_entry (es ! ?s e)"
    proof
      assume "eq (fst (es ! ?s e)) k"
      moreover have s: "?s e < length es" using entries_okD(2) [OF ok] by simp
      ultimately have "eq (fst (es ! ?s e)) (fst (es ! i))"
        using eq_trans [OF entries_okD(3) [OF ok s l] k g] eq_sym [OF g k i(3)] by blast
      then have "?s e = i" by (rule entries_okD(5) [OF ok s i(1) l i(2)])
      then show False using least \<open>e < d\<close> by blast
    qed
    then show ?thesis
      using d(2) [OF that] agree [OF mem] by (auto simp: passes_def)
  qed
  then have "probe_spelt es matches (hash k) = Some (?s d)"
    using i agree [OF mem] d(1) by (intro probe_hit [OF n]) auto
  then show ?thesis using d(1) by simp
qed

lemma probe_absent:
  assumes ok: "entries_ok eq hash good es" and k: "good k"
    and agree: "\<And>e. e \<in> set es \<Longrightarrow> live_entry e \<Longrightarrow> matches (fst e) = eq (fst e) k"
    and none: "held_at eq es k = None" and free: "some_free es"
  obtains i where "probe_spelt es matches (hash k) = Some i" "i < length es"
    "\<not> live_entry (es ! i)" "reached es (hash k) i"
proof -
  obtain n where n: "length es = 2 ^ n" using entries_okD(1) [OF ok] by blast
  let ?s = "probe_slot (length es) (hash k)"
  have less: "?s e < length es" for e
    using entries_okD(2) [OF ok] by simp
  obtain f where "f < length es" "entry_is_free (es ! f)"
    using free by (auto simp: some_free_def in_set_conv_nth)
  then have ex: "\<exists>d. entry_is_free (es ! ?s d)"
    using probe_slot_onto by metis
  define d where "d = (LEAST d. entry_is_free (es ! ?s d))"
  have d: "entry_is_free (es ! ?s d)" unfolding d_def using ex by (rule LeastI_ex)
  have taken: "\<not> entry_is_free (es ! ?s e)" if "e < d" for e
    using that unfolding d_def by (rule not_less_Least)
  have "passes matches (es ! ?s e)" if "e < d" for e
    using taken [OF that] agree [OF nth_mem [OF less]] none less
    by (auto simp: passes_def held_at_none)
  then obtain e where e: "e \<le> d" "probe_spelt es matches (hash k) = Some (?s e)" "\<not> live_entry (es ! ?s e)"
    using probe_miss [OF n _ d, of matches] by metis
  have "reached es (hash k) (?s e)"
    unfolding reached_def using taken e(1) by (intro exI [of _ e]) auto
  then show ?thesis using that e less by blast
qed

text \<open>What an entry put where the probe says leaves of the invariant.\<close>

lemma reached_mono:
  assumes "reached es h i" "length es' = length es"
    and "\<And>j. j < length es \<Longrightarrow> entry_is_free (es' ! j) \<Longrightarrow> entry_is_free (es ! j)" "0 < length es"
  shows "reached es' h i"
proof -
  obtain d where d: "probe_slot (length es) h d = i"
    "\<forall>e<d. \<not> entry_is_free (es ! probe_slot (length es) h e)"
    using assms(1) unfolding reached_def by blast
  have "\<not> entry_is_free (es' ! probe_slot (length es') h e)" if "e < d" for e
    using d(2) that assms(3) [of "probe_slot (length es) h e"] assms(2,4) by auto
  then show ?thesis
    unfolding reached_def using d(1) assms(2) by auto
qed

lemma reached_put:
  assumes "reached es h x" "\<not> entry_is_free e" "0 < length es"
  shows "reached (es[i := e]) h x"
  using assms(1)
proof (rule reached_mono)
  fix j assume "j < length es" "entry_is_free (es[i := e] ! j)"
  then show "entry_is_free (es ! j)" using assms(2) by (cases "j = i") auto
qed (use assms in auto)

lemma put_new:
  assumes ok: "entries_ok eq hash good es" and k: "good k"
    and none: "held_at eq es k = None"
    and i: "i < length es" "\<not> live_entry (es ! i)" "reached es (hash k) i"
  shows "entries_ok eq hash good (es[i := (k, v)])"
    "good j \<Longrightarrow> held_at eq (es[i := (k, v)]) j = (if eq k j then Some v else held_at eq es j)"
proof -
  let ?es = "es[i := (k, v)]"
  have live: "live_entry (k, v)" using good_key [OF k] by (simp add: live_entry_def)
  have mono: "reached es h x \<Longrightarrow> reached ?es h x" for h x
    using reached_put [OF _ _ entries_okD(2) [OF ok]] entry_cases(1) [OF live] by blast
  have other: "\<not> eq (fst (es ! x)) k" if "x < length es" "live_entry (es ! x)" for x
    using none that by (auto simp: held_at_none)
  have other': "\<not> eq k (fst (es ! x))" if "x < length es" "live_entry (es ! x)" for x
    using other [OF that] eq_sym k entries_okD(3) [OF ok that] by blast
  show new: "entries_ok eq hash good ?es"
    unfolding entries_ok_def
  proof (intro conjI allI impI)
    show "\<exists>n. length ?es = 2 ^ n" using entries_okD(1) [OF ok] by simp
    fix x assume x: "x < length ?es" "live_entry (?es ! x)"
    show "good (fst (?es ! x))" "reached ?es (hash (fst (?es ! x))) x"
      using x entries_okD(3,4) [OF ok, of x] mono i k by (auto simp: nth_list_update)
  next
    fix x y
    assume "x < length ?es" "y < length ?es"
      "live_entry (?es ! x) \<and> live_entry (?es ! y) \<and> eq (fst (?es ! x)) (fst (?es ! y))"
    then show "x = y"
      using entries_okD(5) [OF ok, of x y] other [of x] other' [of y]
      by (cases "x = i"; cases "y = i") auto
  qed
  assume j: "good j"
  show "held_at eq ?es j = (if eq k j then Some v else held_at eq es j)"
  proof (cases "eq k j")
    case True
    then show ?thesis
      using held_at_live [OF new j, of i] i live by simp
  next
    case False
    show ?thesis
    proof (cases "held_at eq es j")
      case None
      then have "held_at eq ?es j = None"
        using False by (rule held_at_none_put)
      then show ?thesis using None False by simp
    next
      case (Some w)
      then obtain x where x: "x < length es" "live_entry (es ! x)" "eq (fst (es ! x)) j" "w = snd (es ! x)"
        by (rule held_at_some)
      then have "x \<noteq> i" using i by blast
      then show ?thesis using held_at_live [OF new j, of x] x Some False by simp
    qed
  qed
qed

lemma put_over:
  assumes ok: "entries_ok eq hash good es" and k: "good k"
    and i: "i < length es" "live_entry (es ! i)" "eq (fst (es ! i)) k"
  shows "entries_ok eq hash good (es[i := (k, v)])"
    "good j \<Longrightarrow> held_at eq (es[i := (k, v)]) j = (if eq k j then Some v else held_at eq es j)"
proof -
  let ?es = "es[i := (k, v)]"
  have live: "live_entry (k, v)" using good_key [OF k] by (simp add: live_entry_def)
  have g: "good (fst (es ! i))" using entries_okD(3) [OF ok i(1,2)] .
  have h: "hash (fst (es ! i)) = hash k" by (rule eq_hash [OF g k i(3)])
  have mono: "reached es h x \<Longrightarrow> reached ?es h x" for h x
    using reached_put [OF _ _ entries_okD(2) [OF ok]] entry_cases(1) [OF live] by blast
  have same: "eq (fst (es ! x)) k \<longleftrightarrow> x = i" "eq k (fst (es ! x)) \<longleftrightarrow> x = i"
    if "x < length es" "live_entry (es ! x)" for x
  proof -
    have gx: "good (fst (es ! x))" using entries_okD(3) [OF ok that] .
    have "eq (fst (es ! x)) k \<Longrightarrow> x = i"
      using entries_okD(5) [OF ok that(1) i(1) that(2) i(2)] eq_trans [OF gx k g] eq_sym [OF g k i(3)] by blast
    then show "eq (fst (es ! x)) k \<longleftrightarrow> x = i" "eq k (fst (es ! x)) \<longleftrightarrow> x = i"
      using i(3) eq_sym k gx g by blast+
  qed
  show new: "entries_ok eq hash good ?es"
    unfolding entries_ok_def
  proof (intro conjI allI impI)
    show "\<exists>n. length ?es = 2 ^ n" using entries_okD(1) [OF ok] by simp
    fix x assume x: "x < length ?es" "live_entry (?es ! x)"
    show "good (fst (?es ! x))" "reached ?es (hash (fst (?es ! x))) x"
      using x entries_okD(3,4) [OF ok, of x] entries_okD(4) [OF ok i(1,2)] mono i k h
      by (auto simp: nth_list_update)
  next
    fix x y
    assume "x < length ?es" "y < length ?es"
      "live_entry (?es ! x) \<and> live_entry (?es ! y) \<and> eq (fst (?es ! x)) (fst (?es ! y))"
    then show "x = y"
      using entries_okD(5) [OF ok, of x y] same [of x] same [of y]
      by (cases "x = i"; cases "y = i") auto
  qed
  assume j: "good j"
  show "held_at eq ?es j = (if eq k j then Some v else held_at eq es j)"
  proof (cases "eq k j")
    case True
    then show ?thesis
      using held_at_live [OF new j, of i] i live by simp
  next
    case False
    then have nj: "\<not> eq (fst (es ! i)) j"
      using eq_trans eq_sym k g j i(3) by blast
    show ?thesis
    proof (cases "held_at eq es j")
      case None
      then have "held_at eq ?es j = None"
        using False by (rule held_at_none_put)
      then show ?thesis using None False by simp
    next
      case (Some w)
      then obtain x where x: "x < length es" "live_entry (es ! x)" "eq (fst (es ! x)) j" "w = snd (es ! x)"
        by (rule held_at_some)
      then have "x \<noteq> i" using nj by blast
      then show ?thesis using held_at_live [OF new j, of x] x Some False by simp
    qed
  qed
qed

lemma bury_entry:
  assumes ok: "entries_ok eq hash good es"
    and i: "i < length es" "live_entry (es ! i)"
  shows "entries_ok eq hash good (es[i := tombstone])"
    "good j \<Longrightarrow> held_at eq (es[i := tombstone]) j =
       (if eq (fst (es ! i)) j then None else held_at eq es j)"
proof -
  let ?es = "es[i := tombstone]"
  have dead: "\<not> live_entry tombstone" "\<not> entry_is_free tombstone"
    by (simp_all add: live_entry_def tombstone_def)
  have mono: "reached es h x \<Longrightarrow> reached ?es h x" for h x
    using reached_put [OF _ dead(2) entries_okD(2) [OF ok]] by blast
  show new: "entries_ok eq hash good ?es"
    unfolding entries_ok_def
  proof (intro conjI allI impI)
    show "\<exists>n. length ?es = 2 ^ n" using entries_okD(1) [OF ok] by simp
    fix x assume x: "x < length ?es" "live_entry (?es ! x)"
    show "good (fst (?es ! x))" "reached ?es (hash (fst (?es ! x))) x"
      using x entries_okD(3,4) [OF ok, of x] mono i dead
      by (auto simp: nth_list_update split: if_splits)
  next
    fix x y
    assume "x < length ?es" "y < length ?es"
      "live_entry (?es ! x) \<and> live_entry (?es ! y) \<and> eq (fst (?es ! x)) (fst (?es ! y))"
    then show "x = y"
      using entries_okD(5) [OF ok, of x y] dead by (cases "x = i"; cases "y = i") auto
  qed
  assume j: "good j"
  show "held_at eq ?es j = (if eq (fst (es ! i)) j then None else held_at eq es j)"
  proof (cases "held_at eq ?es j")
    case None
    show ?thesis
    proof (cases "held_at eq es j")
      case (Some w)
      then obtain x where x: "x < length es" "live_entry (es ! x)" "eq (fst (es ! x)) j" by (rule held_at_some)
      then have "x = i"
        using None i(1) by (auto simp: held_at_none nth_list_update split: if_splits)
      then show ?thesis using None x by simp
    qed (use None in simp)
  next
    case (Some w)
    then obtain x where x: "x < length ?es" "live_entry (?es ! x)" "eq (fst (?es ! x)) j" "w = snd (?es ! x)"
      by (rule held_at_some)
    then have xi: "x \<noteq> i" using dead i by auto
    then have e: "x < length es" "live_entry (es ! x)" "eq (fst (es ! x)) j" "w = snd (es ! x)"
      using x by simp_all
    have "\<not> eq (fst (es ! i)) j"
    proof
      assume "eq (fst (es ! i)) j"
      then have "eq (fst (es ! x)) (fst (es ! i))"
        using eq_trans eq_sym e(3) j entries_okD(3) [OF ok] i e(1,2) by blast
      then show False using entries_okD(5) [OF ok e(1) i(1) e(2) i(2)] xi by blast
    qed
    then show ?thesis using held_at_live [OF ok j e(1,2,3)] Some e(4) by simp
  qed
qed

lemma set_value:
  assumes ok: "entries_ok eq hash good es"
    and i: "i < length es" "live_entry (es ! i)"
  shows "entries_ok eq hash good (es[i := (fst (es ! i), v)])"
    "good j \<Longrightarrow> held_at eq (es[i := (fst (es ! i), v)]) j =
       (if eq (fst (es ! i)) j then Some v else held_at eq es j)"
proof -
  have g: "good (fst (es ! i))" using entries_okD(3) [OF ok i] .
  show "entries_ok eq hash good (es[i := (fst (es ! i), v)])"
    "good j \<Longrightarrow> held_at eq (es[i := (fst (es ! i), v)]) j =
       (if eq (fst (es ! i)) j then Some v else held_at eq es j)"
    using put_over [OF ok g i eq_refl [OF g]] by blast+
qed

lemma entries_ok_fresh: "entries_ok eq hash good (replicate (2 ^ n) nil_entry)"
  by (auto simp: entries_ok_def live_entry_def nil_entry_def)

lemma held_at_fresh: "held_at eq (replicate n nil_entry) k = None"
  by (auto simp: held_at_none live_entry_def nil_entry_def)

end

end
