(* ===== verification/Lhat_Keys.thy ===== *)
theory Lhat_Keys
  imports Lhat_Probe
begin

text \<open>
  The laws that the hash half needs of equality and hash, proved of \<open>lhat_value_equal\<close> and
  \<open>hash_key\<close> for the keys a table stores: \<open>storable_key\<close> leaves out the objects that are runtime types,
  which the code compares by structure and hashes by address.  The comparison of an integer with a
  double is exact but for one double, \<open>2 ^ 63\<close>, whose conversion to an integer is undefined in C: on a
  machine that converts it to an integer that rounds to \<open>2 ^ 63\<close> (as one that saturates does) the
  two are equal, and \<open>storable_key\<close> leaves that double out there.
\<close>

definition cast_distinct :: "LhatStore \<Rightarrow> bool" where
  "cast_distinct st \<longleftrightarrow> integer_rounded (sint (st_cast st (FLOAT (2 ^ 63 * REAL_ONE)))) \<noteq> 2 ^ 63"

subsection \<open>Numbers\<close>

fun exact_value :: "LhatValue \<Rightarrow> LhatFloat" where
  "exact_value (VALUE_INTEGER i) = FLOAT (sint i * REAL_ONE)"
| "exact_value (VALUE_REAL r) = real_value r"
| "exact_value v = FLOAT_NAN"

lemma round_53_bound:
  assumes "n \<le> 2 ^ k" "53 \<le> k"
  shows "round_53 n \<le> 2 ^ k"
proof (cases "n = 2 ^ k")
  case True
  then show ?thesis using round_53_exact [of n 1 k] by simp
next
  case False
  define s where "s = bit_count n - 53"
  have "bit_count n \<le> k" using assms(1) False by (simp add: bit_count_le)
  then have s: "s \<le> k" using assms(2) by (simp add: s_def)
  have "n < 2 ^ (k - s) * 2 ^ s" using assms(1) False s by (simp flip: power_add)
  then have "n div 2 ^ s < 2 ^ (k - s)" by (simp add: div_less_iff_less_mult)
  then have "round_half_even n (2 ^ s) \<le> 2 ^ (k - s)" by (auto simp: round_half_even_def Let_def)
  then have "round_half_even n (2 ^ s) * 2 ^ s \<le> 2 ^ (k - s) * 2 ^ s" by (rule mult_le_mono1)
  then show ?thesis using s by (simp add: round_53_def Let_def flip: s_def power_add)
qed

lemma sint_range: "- (2 ^ 63) \<le> sint (i :: LhatInteger)" "sint (i :: LhatInteger) < 2 ^ 63"
  using sint_ge [of i] sint_lt [of i] by simp_all

lemma integer_rounded_bound: "- (2 ^ 63) \<le> integer_rounded (sint i) \<and> integer_rounded (sint i) \<le> 2 ^ 63"
  for i :: LhatInteger
proof -
  have "nat \<bar>sint i\<bar> \<le> 2 ^ 63" using sint_range [of i] by (simp add: nat_le_iff)
  then have "int (round_53 (nat \<bar>sint i\<bar>)) \<le> int (2 ^ 63)"
    unfolding of_nat_le_iff by (rule round_53_bound) simp
  then show ?thesis by (cases "sint i < 0") (simp_all add: integer_rounded_def)
qed

lemma sint_of_fits: "fits_int64 t \<Longrightarrow> sint (word_of_int t :: LhatInteger) = t"
  unfolding fits_int64_def sint_sbintrunc' by (rule signed_take_bit_int_eq_self) simp_all

text \<open>The one conversion that the comparison of two numbers asks for and C does not define.\<close>

fun cast_undefined :: "LhatValue \<Rightarrow> LhatValue \<Rightarrow> bool" where
  "cast_undefined (VALUE_INTEGER i) (VALUE_REAL r) =
     (integer_rounded (sint i) = 2 ^ 63 \<and> real_value r = FLOAT (2 ^ 63 * REAL_ONE))"
| "cast_undefined (VALUE_REAL r) (VALUE_INTEGER i) =
     (integer_rounded (sint i) = 2 ^ 63 \<and> real_value r = FLOAT (2 ^ 63 * REAL_ONE))"
| "cast_undefined a b = False"

lemma integer_real_equal:
  assumes "integer_rounded (sint i) = 2 ^ 63 \<and> real_value r = FLOAT (2 ^ 63 * REAL_ONE) \<Longrightarrow> cast_distinct st"
  shows "float_equal (float_of_integer i) (real_value r) \<and> float_to_integer st (real_value r) = i \<longleftrightarrow>
    float_equal (exact_value (VALUE_INTEGER i)) (real_value r)"
proof
  assume l: "float_equal (float_of_integer i) (real_value r) \<and> float_to_integer st (real_value r) = i"
  let ?t = "integer_rounded (sint i)"
  have v: "real_value r = FLOAT (?t * REAL_ONE)"
    using l by (simp add: float_equal_def float_of_integer_def)
  have "sint i = ?t"
  proof (cases "fits_int64 ?t")
    case True
    then have "i = word_of_int ?t" using l v by (simp add: units_trunc_exact)
    then show ?thesis using sint_of_fits [OF True] by simp
  next
    case False
    then have t: "?t = 2 ^ 63"
      using integer_rounded_bound [of i] by (simp add: fits_int64_def)
    then have "st_cast st (FLOAT (2 ^ 63 * REAL_ONE)) = i"
      using l v False by (simp add: units_trunc_exact)
    moreover have "real_value r = FLOAT (2 ^ 63 * REAL_ONE)" using v t by simp
    ultimately show ?thesis using assms t by (simp add: cast_distinct_def)
  qed
  then show "float_equal (exact_value (VALUE_INTEGER i)) (real_value r)"
    using v by (simp add: float_equal_def)
next
  assume "float_equal (exact_value (VALUE_INTEGER i)) (real_value r)"
  then have v: "real_value r = FLOAT (sint i * REAL_ONE)" by (simp add: float_equal_def)
  have "fits_int64 (sint i)" using sint_range [of i] by (simp add: fits_int64_def)
  then show "float_equal (float_of_integer i) (real_value r) \<and> float_to_integer st (real_value r) = i"
    using v exact_rounded [OF v] by (simp add: float_equal_def float_of_integer_def units_trunc_exact)
qed

lemma number_equal:
  assumes "\<not> cast_undefined a b" "lhat_is_number a" "lhat_is_number b"
  shows "lhat_value_equal st a b = float_equal (exact_value a) (exact_value b)"
proof -
  have i: "FLOAT (sint x * REAL_ONE) = FLOAT (sint y * REAL_ONE) \<longleftrightarrow> x = y" for x y :: LhatInteger
    using REAL_ONE_pos by (auto intro: signed_word_eqI)
  have mixed: "float_equal (float_of_integer x) (real_value r) \<and> float_to_integer st (real_value r) = x \<longleftrightarrow>
      float_equal (exact_value (VALUE_INTEGER x)) (real_value r)"
    if "\<not> cast_undefined (VALUE_INTEGER x) (VALUE_REAL r)" for x r
    using that by (intro integer_real_equal) simp
  have sym: "float_equal f g = float_equal g f" for f g by (auto simp: float_equal_def)
  show ?thesis
  proof (cases a)
    case a: (VALUE_INTEGER x)
    show ?thesis
    proof (cases b)
      case (VALUE_REAL r)
      then show ?thesis using mixed [of x r] assms(1) a by simp
    qed (use assms a i in \<open>auto simp: float_equal_def\<close>)
  next
    case a: (VALUE_REAL r)
    show ?thesis
    proof (cases b)
      case (VALUE_INTEGER x)
      then show ?thesis
        using mixed [of x r] assms(1) a sym [of "exact_value (VALUE_INTEGER x)" "real_value r"] by simp
    qed (use assms a in simp_all)
  qed (use assms in simp_all)
qed

text \<open>A double that is a whole number of 64 bits is folded into the integer.\<close>

lemma whole_of_exact:
  assumes "real_value r = FLOAT (sint i * REAL_ONE)"
  shows "lhat_number_as_whole st (VALUE_REAL r) = Some i"
proof -
  have f: "fits_int64 (sint i)" using sint_range [of i] by (simp add: fits_int64_def)
  have c: "float_to_integer st (real_value r) = i"
    unfolding assms using f by (simp add: units_trunc_exact)
  have e: "float_of_integer i = real_value r"
    using exact_rounded [OF assms] assms by (simp add: float_of_integer_def)
  have "- (2 ^ 63) * REAL_ONE \<le> sint i * REAL_ONE" "sint i * REAL_ONE < 2 ^ 63 * REAL_ONE"
    using sint_range [of i] REAL_ONE_pos by (intro mult_right_mono mult_strict_right_mono; simp)+
  then show ?thesis
    unfolding lhat_number_as_whole.simps Let_def c e
    unfolding assms by (auto simp: float_less_eq_def float_equal_def order_le_less)
qed

lemma whole_exact:
  assumes "lhat_number_as_whole st (VALUE_REAL r) = Some i"
  shows "real_value r = float_of_integer i"
  using assms by (auto simp: Let_def float_equal_def split: if_splits)

lemma normalise_idem: "normalise_key st (normalise_key st k) = normalise_key st k"
  by (cases k) (auto simp: normalise_key_def split: option.splits)

subsection \<open>The keys a table stores\<close>

fun key_kind_ok :: "LhatStore \<Rightarrow> LhatValue \<Rightarrow> bool" where
  "key_kind_ok st (VALUE_OBJECT (Some a)) = (case st_content st a of CONTENT_TYPE t \<Rightarrow> False | _ \<Rightarrow> True)"
| "key_kind_ok st (VALUE_CONT x) = False"
| "key_kind_ok st (VALUE_RUN n) = False"
| "key_kind_ok st (VALUE_REAL r) = (real_value r = FLOAT (2 ^ 63 * REAL_ONE) \<longrightarrow> cast_distinct st)"
| "key_kind_ok st k = True"

definition storable_key :: "LhatStore \<Rightarrow> LhatValue \<Rightarrow> bool" where
  "storable_key st k \<longleftrightarrow>
     usable_key k \<and> normalise_key st k = k \<and> key_kind_ok st k"

lemma storable_normal:
  assumes "usable_key k" "key_kind_ok st k"
  shows "storable_key st (normalise_key st k)"
proof -
  have "usable_key (normalise_key st k)" "key_kind_ok st (normalise_key st k)"
    using assms by (cases k; auto simp: normalise_key_def split: option.splits)+
  then show ?thesis
    unfolding storable_key_def using normalise_idem by blast
qed

lemma storable_real:
  assumes "storable_key st (VALUE_REAL r)"
  shows "real_value r \<noteq> FLOAT_NAN" "\<And>i. real_value r \<noteq> FLOAT (sint (i :: LhatInteger) * REAL_ONE)"
proof -
  show "real_value r \<noteq> FLOAT_NAN"
    using assms by (auto simp: storable_key_def float_equal_def)
  fix i :: LhatInteger
  show "real_value r \<noteq> FLOAT (sint i * REAL_ONE)"
    using assms whole_of_exact [of r i st] by (auto simp: storable_key_def normalise_key_def)
qed

lemma storable_reals_equal:
  assumes "storable_key st (VALUE_REAL r)"
  shows "float_equal (real_value r) (real_value r') \<longleftrightarrow> r = r'"
proof -
  have "real_value r \<noteq> FLOAT 0"
    using storable_real(2) [OF assms, of 0] by simp
  then show ?thesis
    using real_value_unique [of r r'] storable_real(1) [OF assms] by (auto simp: float_equal_def)
qed

text \<open>Keys of different kinds are different, numbers that are stored are equal as bits.\<close>

lemma storable_equal:
  assumes "storable_key st j" "storable_key st k"
  shows "lhat_value_equal st j k \<longleftrightarrow>
    (case (j, k) of
       (VALUE_OBJECT (Some a), VALUE_OBJECT (Some b)) \<Rightarrow> object_equal st a b
     | _ \<Rightarrow> j = k)"
proof -
  have mixed: "\<not> (float_equal (float_of_integer i) (real_value r) \<and> float_to_integer st (real_value r) = i)"
    if r: "storable_key st (VALUE_REAL r)" for i r
  proof -
    have "real_value r = FLOAT (2 ^ 63 * REAL_ONE) \<longrightarrow> cast_distinct st"
      using r by (simp add: storable_key_def)
    then have "float_equal (float_of_integer i) (real_value r) \<and> float_to_integer st (real_value r) = i \<longleftrightarrow>
        float_equal (exact_value (VALUE_INTEGER i)) (real_value r)"
      by (intro integer_real_equal) blast
    then show ?thesis using storable_real(2) [OF r, of i] by (auto simp: float_equal_def)
  qed
  have usable: "usable_key j" "key_kind_ok st j"
    using assms by (simp_all add: storable_key_def)
  show ?thesis
    using usable assms storable_reals_equal mixed
    by (cases j; cases k; auto split: option.splits)
qed

lemma object_equal_laws:
  assumes "key_kind_ok st (VALUE_OBJECT (Some a))"
  shows "object_equal st a a" "object_equal st a b \<Longrightarrow> object_equal st b a"
    "object_equal st a b \<Longrightarrow> object_equal st b c \<Longrightarrow> object_equal st a c"
    "object_equal st a b \<Longrightarrow> hash_key st (VALUE_OBJECT (Some a)) = hash_key st (VALUE_OBJECT (Some b))"
  using assms
  by (auto simp: object_equal_def lhat_string_equal_def split: LhatContent.splits)

lemma storable_equal_cases:
  assumes "storable_key st j" "storable_key st k" "lhat_value_equal st j k"
  obtains "j = k" | a b where "j = VALUE_OBJECT (Some a)" "k = VALUE_OBJECT (Some b)" "object_equal st a b"
  using assms(3) unfolding storable_equal [OF assms(1,2)]
  by (cases j; cases k) (auto split: option.splits)

lemma storable_objects:
  assumes "storable_key st (VALUE_OBJECT (Some a))"
  shows "key_kind_ok st (VALUE_OBJECT (Some a))"
  using assms by (simp only: storable_key_def)

interpretation value_keys: hash_keys "lhat_value_equal st" "hash_key st" "storable_key st" for st
proof
  fix j assume j: "storable_key st j"
  show "lhat_value_equal st j j"
    unfolding storable_equal [OF j j]
    using object_equal_laws(1) [OF storable_objects] j by (cases j) (auto split: option.splits)
next
  fix j k assume j: "storable_key st j" and k: "storable_key st k" and e: "lhat_value_equal st j k"
  from j k e show "lhat_value_equal st k j"
  proof (cases rule: storable_equal_cases)
    case (2 a b)
    then have "object_equal st b a" using j object_equal_laws(2) [OF storable_objects] by blast
    then show ?thesis unfolding storable_equal [OF k j] using 2 by simp
  qed (use e in simp)
next
  fix j k l
  assume j: "storable_key st j" and k: "storable_key st k" and l: "storable_key st l"
    and e: "lhat_value_equal st j k" and f: "lhat_value_equal st k l"
  from j k e show "lhat_value_equal st j l"
  proof (cases rule: storable_equal_cases)
    case (2 a b)
    from k l f show ?thesis
    proof (cases rule: storable_equal_cases)
      case (2 b' c)
      then have "object_equal st a c"
        using j \<open>j = VALUE_OBJECT (Some a)\<close> \<open>k = VALUE_OBJECT (Some b)\<close> \<open>object_equal st a b\<close>
          object_equal_laws(3) [OF storable_objects] by auto
      then show ?thesis
        unfolding storable_equal [OF j l] using 2 \<open>j = VALUE_OBJECT (Some a)\<close> by simp
    qed (use e in simp)
  qed (use f in simp)
next
  fix j k assume j: "storable_key st j" and k: "storable_key st k" and e: "lhat_value_equal st j k"
  from j k e show "hash_key st j = hash_key st k"
  proof (cases rule: storable_equal_cases)
    case (2 a b)
    then show ?thesis using j object_equal_laws(4) [OF storable_objects] by blast
  qed simp
next
  fix j assume "storable_key st j"
  then show "j \<noteq> VALUE_NIL" by (auto simp: storable_key_def)
qed

end
