(* ===== verification/Lhat_TableInv.thy ===== *)
theory Lhat_TableInv
  imports Lhat_Keys
begin

text \<open>
  The invariant of a table, and that every operation that writes keeps it and returns.  \<open>table_value\<close> is
  what a table is a store of: the value under each key, \<open>VALUE_NIL\<close> where there is none.
\<close>

subsection \<open>Counting entries\<close>

definition live_count :: "LhatTableEntry list \<Rightarrow> nat" where
  "live_count es = length (filter live_entry es)"

definition tomb_count :: "LhatTableEntry list \<Rightarrow> nat" where
  "tomb_count es = length (filter entry_is_tombstone es)"

lemma filter_update:
  "i < length es \<Longrightarrow>
   length (filter P (es[i := e])) + (if P (es ! i) then 1 else 0) =
   length (filter P es) + (if P e then 1 else 0)"
proof (induction es arbitrary: i)
  case (Cons x xs)
  then show ?case by (cases i) auto
qed simp

lemma entries_partition: "live_count es + tomb_count es + length (filter entry_is_free es) = length es"
proof (induction es)
  case (Cons e es)
  have "live_entry e \<and> \<not> entry_is_tombstone e \<and> \<not> entry_is_free e \<or>
    \<not> live_entry e \<and> entry_is_tombstone e \<and> \<not> entry_is_free e \<or>
    \<not> live_entry e \<and> \<not> entry_is_tombstone e \<and> entry_is_free e"
    using entry_cases [of e] by blast
  then show ?case using Cons by (auto simp: live_count_def tomb_count_def)
qed (simp add: live_count_def tomb_count_def)

lemma free_left: "live_count es + tomb_count es < length es \<Longrightarrow> some_free es"
  using entries_partition [of es] by (auto simp: some_free_def filter_empty_conv dest: sym)

lemma live_count_0: "live_count es = 0 \<longleftrightarrow> (\<forall>e\<in>set es. \<not> live_entry e)"
  by (simp add: live_count_def filter_empty_conv)

lemma count_put:
  assumes "i < length es" "\<not> live_entry (es ! i)" "k \<noteq> VALUE_NIL"
  shows "live_count (es[i := (k, v)]) = Suc (live_count es)"
    "tomb_count (es[i := (k, v)]) = tomb_count es - (if snd (es ! i) = VALUE_NIL then 0 else 1)"
    "snd (es ! i) \<noteq> VALUE_NIL \<Longrightarrow> 0 < tomb_count es"
proof -
  have e: "live_entry (k, v)" "\<not> entry_is_tombstone (k, v)"
    using assms(3) by (simp_all add: live_entry_def)
  have t: "entry_is_tombstone (es ! i) \<longleftrightarrow> snd (es ! i) \<noteq> VALUE_NIL"
    using assms(2) by (cases "es ! i") (auto simp: live_entry_def)
  show "live_count (es[i := (k, v)]) = Suc (live_count es)"
    using filter_update [OF assms(1), of live_entry "(k, v)"] assms(2) e
    by (simp add: live_count_def)
  show "tomb_count (es[i := (k, v)]) = tomb_count es - (if snd (es ! i) = VALUE_NIL then 0 else 1)"
    using filter_update [OF assms(1), of entry_is_tombstone "(k, v)"] t e
    by (auto simp: tomb_count_def split: if_splits)
  show "0 < tomb_count es" if "snd (es ! i) \<noteq> VALUE_NIL"
    using that t nth_mem [OF assms(1)] by (auto simp: tomb_count_def filter_empty_conv)
qed

lemma count_over:
  assumes "i < length es" "live_entry (es ! i)" "k \<noteq> VALUE_NIL"
  shows "live_count (es[i := (k, v)]) = live_count es" "tomb_count (es[i := (k, v)]) = tomb_count es"
proof -
  have e: "live_entry (k, v)" "\<not> entry_is_tombstone (k, v)"
    using assms(3) by (simp_all add: live_entry_def)
  show "live_count (es[i := (k, v)]) = live_count es" "tomb_count (es[i := (k, v)]) = tomb_count es"
    using filter_update [OF assms(1), of live_entry "(k, v)"] assms(2) e entry_cases(1) [OF assms(2)]
      filter_update [OF assms(1), of entry_is_tombstone "(k, v)"]
    by (simp_all add: live_count_def tomb_count_def)
qed

lemma count_bury:
  assumes "i < length es" "live_entry (es ! i)"
  shows "Suc (live_count (es[i := tombstone])) = live_count es"
    "tomb_count (es[i := tombstone]) = Suc (tomb_count es)"
proof -
  have e: "\<not> live_entry tombstone" "entry_is_tombstone tombstone"
    by (simp_all add: live_entry_def tombstone_def)
  show "Suc (live_count (es[i := tombstone])) = live_count es"
    "tomb_count (es[i := tombstone]) = Suc (tomb_count es)"
    using filter_update [OF assms(1), of live_entry tombstone] assms(2) e entry_cases(1) [OF assms(2)]
      filter_update [OF assms(1), of entry_is_tombstone tombstone]
    by (simp_all add: live_count_def tomb_count_def)
qed

subsection \<open>The invariant\<close>

abbreviation hash_ok :: "LhatStore \<Rightarrow> LhatTableEntry list \<Rightarrow> bool" where
  "hash_ok st \<equiv> entries_ok (lhat_value_equal st) (hash_key st) (storable_key st)"

abbreviation held :: "LhatStore \<Rightarrow> LhatTableEntry list \<Rightarrow> LhatValue \<Rightarrow> LhatValue option" where
  "held st \<equiv> held_at (lhat_value_equal st)"

text \<open>\<open>entry_tombs\<close> may count tombstones that are gone: clearing a table does not reset it.\<close>

definition load_ok :: "nat \<Rightarrow> nat \<Rightarrow> bool" where
  "load_ok capacity n \<longleftrightarrow> n \<le> capacity - capacity div 4"

definition table_shape :: "LhatStore \<Rightarrow> LhatTable \<Rightarrow> bool" where
  "table_shape st t \<longleftrightarrow>
     (if entry_capacity t = 0 then tb_entry_count t = 0
      else hash_ok st (tb_entries t) \<and> 4 \<le> entry_capacity t \<and>
        tb_entry_count t = live_count (tb_entries t) \<and> tomb_count (tb_entries t) \<le> tb_entry_tombs t \<and>
        load_ok (entry_capacity t) (tb_entry_count t + tb_entry_tombs t))"

text \<open>Which integers may be keys of the hash half.\<close>

definition keys_from :: "nat \<Rightarrow> LhatTable \<Rightarrow> bool" where
  "keys_from n t \<longleftrightarrow> (\<forall>e\<in>set (tb_entries t). \<forall>i. fst e = VALUE_INTEGER i \<longrightarrow> sint i < 0 \<or> n \<le> unat i)"

definition table_ok :: "LhatStore \<Rightarrow> LhatTable \<Rightarrow> bool" where
  "table_ok st t \<longleftrightarrow> table_shape st t \<and> keys_from (Suc (array_count t)) t"

text \<open>As many positions as a machine can hold.\<close>

definition table_fits :: "LhatTable \<Rightarrow> bool" where
  "table_fits t \<longleftrightarrow> array_count t + tb_entry_count t + 1 < 2 ^ 63 - 1"

definition ample :: "LhatStore \<Rightarrow> bool" where
  "ample st \<longleftrightarrow> (\<forall>n. st_room st n)"

text \<open>The position an integer names, the run being as long as the machine allows; and the element of the
run that it names.\<close>

fun key_position :: "LhatValue \<Rightarrow> nat option" where
  "key_position (VALUE_INTEGER i) = (if sint i < 0 then None else Some (unat i))"
| "key_position k = None"

fun int_index :: "LhatTable \<Rightarrow> LhatValue \<Rightarrow> nat option" where
  "int_index t (VALUE_INTEGER i) = position_in t i"
| "int_index t k = None"

text \<open>What a table holds of a key; and the key that a key names: a fractional number which rounds to a
position inside the run names that position, every other key itself.\<close>

definition table_value :: "LhatStore \<Rightarrow> LhatTable \<Rightarrow> LhatValue \<Rightarrow> LhatValue" where
  "table_value st t k =
     (case int_index t k of
        Some i \<Rightarrow> tb_array t ! i
      | None \<Rightarrow> (case held st (tb_entries t) k of Some v \<Rightarrow> v | None \<Rightarrow> VALUE_NIL))"

fun named_key :: "LhatTable \<Rightarrow> LhatValue \<Rightarrow> LhatValue" where
  "named_key t (VALUE_REAL r) =
     (case rounded_position r of
        Some i \<Rightarrow> if position_in t i = None then VALUE_REAL r else VALUE_INTEGER i
      | None \<Rightarrow> VALUE_REAL r)"
| "named_key t k = k"

lemma index_named: "int_index t (named_key t k) = array_index t k"
  by (cases k) (auto split: option.splits)

lemma named_none: "array_index t k = None \<Longrightarrow> named_key t k = k"
  by (cases k) (auto split: option.splits)

lemma named_storable: "storable_key st k \<Longrightarrow> storable_key st (named_key t k)"
  by (cases k) (auto simp: storable_key_def normalise_key_def split: option.splits)

lemma shapeD:
  assumes "table_shape st t" "entry_capacity t \<noteq> 0"
  shows "hash_ok st (tb_entries t)" "tb_entry_count t = live_count (tb_entries t)"
    "4 \<le> entry_capacity t" "tomb_count (tb_entries t) \<le> tb_entry_tombs t"
    "load_ok (entry_capacity t) (tb_entry_count t + tb_entry_tombs t)"
  using assms unfolding table_shape_def if_not_P [OF assms(2)] by blast+

lemma shapeI:
  assumes "hash_ok st (tb_entries t)" "4 \<le> entry_capacity t"
    "tb_entry_count t = live_count (tb_entries t)" "tomb_count (tb_entries t) \<le> tb_entry_tombs t"
    "load_ok (entry_capacity t) (tb_entry_count t + tb_entry_tombs t)"
  shows "table_shape st t"
proof -
  have "entry_capacity t \<noteq> 0" using assms(2) by linarith
  then show ?thesis using assms unfolding table_shape_def by (simp only: if_False refl)
qed

lemma shape_free:
  assumes "table_shape st t" "entry_capacity t \<noteq> 0"
  shows "some_free (tb_entries t)"
proof (rule free_left)
  have "live_count (tb_entries t) + tomb_count (tb_entries t) \<le> tb_entry_count t + tb_entry_tombs t"
    "tb_entry_count t + tb_entry_tombs t \<le> entry_capacity t - entry_capacity t div 4"
    "4 \<le> entry_capacity t"
    using shapeD [OF assms] by (simp_all add: load_ok_def)
  then show "live_count (tb_entries t) + tomb_count (tb_entries t) < entry_capacity t" by linarith
qed

subsection \<open>Probing a table\<close>

lemma probe_held:
  assumes s: "table_shape st t" and k: "storable_key st k" and v: "held st (tb_entries t) k = Some v"
  obtains i where "probe st (tb_entries t) k (hash_key st k) = Some i" "i < entry_capacity t"
    "live_entry (tb_entries t ! i)" "lhat_value_equal st (fst (tb_entries t ! i)) k"
    "v = snd (tb_entries t ! i)"
proof -
  obtain i where i: "i < entry_capacity t" "live_entry (tb_entries t ! i)"
    "lhat_value_equal st (fst (tb_entries t ! i)) k" "v = snd (tb_entries t ! i)"
    using v by (rule value_keys.held_at_some)
  have "entry_capacity t \<noteq> 0" using i(1) by linarith
  then have "hash_ok st (tb_entries t)" by (rule shapeD(1) [OF s])
  then have "probe st (tb_entries t) k (hash_key st k) = Some i"
    unfolding probe_def by (rule value_keys.probe_there [OF _ k refl i(1,2,3)])
  then show ?thesis using that i by blast
qed

lemma probe_not_held:
  assumes s: "table_shape st t" and k: "storable_key st k" and v: "held st (tb_entries t) k = None"
    and c: "entry_capacity t \<noteq> 0"
  obtains i where "probe st (tb_entries t) k (hash_key st k) = Some i" "i < entry_capacity t"
    "\<not> live_entry (tb_entries t ! i)" "reached (tb_entries t) (hash_key st k) i"
  using value_keys.probe_absent [OF shapeD(1) [OF s c] k refl v shape_free [OF s c]] that
  unfolding probe_def by metis

lemma held_empty: "live_count es = 0 \<Longrightarrow> held st es k = None"
  unfolding value_keys.held_at_none live_count_0 by (metis nth_mem)

lemma int_storable [simp]: "storable_key st (VALUE_INTEGER i)"
  by (simp add: storable_key_def normalise_key_def)

lemma int_equal:
  assumes "storable_key st k" "storable_key st (VALUE_INTEGER i)"
  shows "lhat_value_equal st k (VALUE_INTEGER i) \<longleftrightarrow> k = VALUE_INTEGER i"
    "lhat_value_equal st (VALUE_INTEGER i) k \<longleftrightarrow> k = VALUE_INTEGER i"
  using storable_equal [OF assms] storable_equal [OF assms(2,1)]
  by (auto split: LhatValue.splits option.splits)

lemma find_entry_held:
  assumes s: "table_shape st t"
    and v: "held st (tb_entries t) (VALUE_INTEGER (word_of_nat n)) = Some v"
  obtains i where "find_entry st t n = Some (Some i)" "i < entry_capacity t"
    "live_entry (tb_entries t ! i)" "fst (tb_entries t ! i) = VALUE_INTEGER (word_of_nat n)"
    "v = snd (tb_entries t ! i)"
proof -
  let ?k = "VALUE_INTEGER (word_of_nat n)"
  have k: "storable_key st ?k" by (rule int_storable)
  obtain i where i: "probe st (tb_entries t) ?k (hash_key st ?k) = Some i" "i < entry_capacity t"
    "live_entry (tb_entries t ! i)" "lhat_value_equal st (fst (tb_entries t ! i)) ?k"
    "v = snd (tb_entries t ! i)"
    by (rule probe_held [OF s k v])
  have cap: "entry_capacity t \<noteq> 0" using i(2) by auto
  have g: "storable_key st (fst (tb_entries t ! i))"
    by (rule value_keys.entries_okD(3) [OF shapeD(1) [OF s cap] i(2,3)])
  have "tb_entry_count t \<noteq> 0"
    using shapeD(2) [OF s cap] live_count_0 [of "tb_entries t"] i(2,3) nth_mem by auto
  then have "find_entry st t n = Some (Some i)"
    using i(1,3) by (simp add: find_entry_def Let_def live_entry_def)
  then show ?thesis using that i int_equal(1) [OF g k] by blast
qed

lemma find_entry_none:
  assumes s: "table_shape st t"
    and v: "held st (tb_entries t) (VALUE_INTEGER (word_of_nat n)) = None"
  shows "find_entry st t n = Some None"
proof (cases "tb_entry_count t = 0")
  case False
  then have cap: "entry_capacity t \<noteq> 0" using s by (auto simp: table_shape_def)
  obtain i where "probe st (tb_entries t) (VALUE_INTEGER (word_of_nat n))
      (hash_key st (VALUE_INTEGER (word_of_nat n))) = Some i" "\<not> live_entry (tb_entries t ! i)"
    by (rule probe_not_held [OF s int_storable v cap])
  then show ?thesis
    using False by (simp add: find_entry_def Let_def live_entry_def)
qed (simp add: find_entry_def)

lemma held_cong:
  assumes "table_shape st t" "storable_key st j" "storable_key st k" "lhat_value_equal st j k"
  shows "held st (tb_entries t) j = held st (tb_entries t) k"
proof (cases "entry_capacity t = 0")
  case False
  show ?thesis by (rule value_keys.held_at_cong [OF shapeD(1) [OF assms(1) False] assms(2-4)])
qed (simp add: held_at_def)

subsection \<open>Burying an entry\<close>

lemma bury_shape:
  assumes s: "table_shape st t" and i: "i < entry_capacity t" "live_entry (tb_entries t ! i)"
  shows "table_shape st (bury t i)"
    "storable_key st k \<Longrightarrow> held st (tb_entries (bury t i)) k =
       (if lhat_value_equal st (fst (tb_entries t ! i)) k then None else held st (tb_entries t) k)"
    "Suc (tb_entry_count (bury t i)) = tb_entry_count t"
proof -
  have cap: "entry_capacity t \<noteq> 0" using i(1) by auto
  note b = value_keys.bury_entry [OF shapeD(1) [OF s cap] i]
  note c = count_bury [OF i]
  show n: "Suc (tb_entry_count (bury t i)) = tb_entry_count t"
    using c shapeD(2) [OF s cap] by (simp add: bury_def)
  have sum: "tb_entry_count (bury t i) + tb_entry_tombs (bury t i) = tb_entry_count t + tb_entry_tombs t"
    using n by (simp add: bury_def)
  show "table_shape st (bury t i)"
  proof (rule shapeI)
    show "hash_ok st (tb_entries (bury t i))" "4 \<le> entry_capacity (bury t i)"
      using b(1) shapeD(3) [OF s cap] by (simp_all add: bury_def)
    show "tb_entry_count (bury t i) = live_count (tb_entries (bury t i))"
      using n c(1) shapeD(2) [OF s cap] by (simp add: bury_def)
    show "tomb_count (tb_entries (bury t i)) \<le> tb_entry_tombs (bury t i)"
      using c(2) shapeD(4) [OF s cap] by (simp add: bury_def)
    show "load_ok (entry_capacity (bury t i)) (tb_entry_count (bury t i) + tb_entry_tombs (bury t i))"
      unfolding sum using shapeD(5) [OF s cap] by (simp add: bury_def)
  qed
  show "storable_key st k \<Longrightarrow> held st (tb_entries (bury t i)) k =
       (if lhat_value_equal st (fst (tb_entries t ! i)) k then None else held st (tb_entries t) k)"
    using b(2) by (simp add: bury_def)
qed

lemma bury_keys: "keys_from n t \<Longrightarrow> keys_from n (bury t i)"
  by (auto simp: keys_from_def bury_def tombstone_def dest!: set_update_subset_insert [THEN subsetD])

lemma keys_from_mono: "keys_from n t \<Longrightarrow> m \<le> n \<Longrightarrow> keys_from m t"
  by (auto simp: keys_from_def)

lemma shape_cong:
  "tb_entries t' = tb_entries t \<Longrightarrow> tb_entry_count t' = tb_entry_count t \<Longrightarrow>
   tb_entry_tombs t' = tb_entry_tombs t \<Longrightarrow> table_shape st t' = table_shape st t"
  "tb_entries t' = tb_entries t \<Longrightarrow> keys_from n t' = keys_from n t"
  by (simp_all add: table_shape_def keys_from_def)

end
