(* ===== verification/Lhat_TableDrain.thy ===== *)
theory Lhat_TableDrain
  imports Lhat_TableInv
begin

text \<open>
  Growing and draining: the rehash moves every key to a new run of entries, and what stands in the hash
  half under the next position moves to the dense half.  Neither changes what the table is a store of.
\<close>

subsection \<open>Positions\<close>

text \<open>What an instance owes to its definition, which no write touches.\<close>

definition table_link :: "LhatTable \<Rightarrow> pointer \<times> LhatValue \<times> bool \<times> bool \<times> bool \<times> bool" where
  "table_link t = (tb_definition t, tb_delegate_key t, tb_delegate_from_self t, tb_is_definition t,
     tb_sealed t, tb_shared t)"

lemma position_word:
  fixes j :: LhatInteger
  assumes "n < 2 ^ 63"
  shows "\<not> sint j < 0 \<and> unat j = n \<longleftrightarrow> j = word_of_nat n"
proof
  assume "\<not> sint j < 0 \<and> unat j = n"
  then show "j = word_of_nat n" by auto
next
  assume j: "j = word_of_nat n"
  have "unat j = n" using assms unfolding j by (simp add: unat_of_nat take_bit_nat_eq_self)
  moreover have "sint j = int n"
    using assms unfolding j by (simp add: signed_of_nat signed_take_bit_int_eq_self)
  ultimately show "\<not> sint j < 0 \<and> unat j = n" by simp
qed

lemma int_index_push:
  assumes "array_count t < 2 ^ 63"
  shows "int_index (array_push t v) (VALUE_INTEGER j) =
    (if j = word_of_nat (array_count t) then Some (array_count t) else int_index t (VALUE_INTEGER j))"
  using position_word [OF assms, of j] by (auto simp: position_in_def array_push_def)

lemma int_index_next:
  assumes "array_count t < 2 ^ 63"
  shows "int_index t (VALUE_INTEGER (word_of_nat (array_count t))) = None"
  using position_word [OF assms, of "word_of_nat (array_count t)"] by (auto simp: position_in_def)

lemma int_index_less: "int_index t k = Some i \<Longrightarrow> i < array_count t"
  by (cases k) (auto simp: position_in_def split: if_splits)

lemma int_index_cong:
  "array_count t' = array_count t \<Longrightarrow> int_index t' k = int_index t k"
  by (cases k) (auto simp: position_in_def)

lemma key_cases:
  assumes "storable_key st k"
  obtains i where "k = VALUE_INTEGER i" | "\<And>t. int_index t k = None" "\<And>i. k \<noteq> VALUE_INTEGER i"
  using that by (cases k) auto

lemma keys_from_not_held:
  assumes "keys_from n t" "n \<le> 2 ^ 63" "m < n" "hash_ok st (tb_entries t) \<or> entry_capacity t = 0"
  shows "held st (tb_entries t) (VALUE_INTEGER (word_of_nat m)) = None"
proof (rule ccontr)
  let ?k = "VALUE_INTEGER (word_of_nat m)"
  assume "held st (tb_entries t) ?k \<noteq> None"
  then obtain v where "held st (tb_entries t) ?k = Some v" by blast
  then obtain i where i: "i < entry_capacity t" "live_entry (tb_entries t ! i)"
    "lhat_value_equal st (fst (tb_entries t ! i)) ?k"
    by (rule value_keys.held_at_some)
  then have "hash_ok st (tb_entries t)" using assms(4) by linarith
  then have "fst (tb_entries t ! i) = ?k"
    using int_equal(1) value_keys.entries_okD(3) i int_storable by blast
  then have "sint (word_of_nat m :: LhatInteger) < 0 \<or> n \<le> unat (word_of_nat m :: LhatInteger)"
    using assms(1) nth_mem [OF i(1)] unfolding keys_from_def by blast
  then show False
    using position_word [of m "word_of_nat m"] assms(2,3) by auto
qed

subsection \<open>Moving an entry to the dense half\<close>

lemma take_push:
  fixes c' :: nat
  assumes s: "table_shape st t" and n: "array_count t < 2 ^ 63 - 1"
    and keys: "keys_from (array_count t) t"
    and i: "i < entry_capacity t" "live_entry (tb_entries t ! i)"
      "fst (tb_entries t ! i) = VALUE_INTEGER (word_of_nat (array_count t))"
  defines "t' \<equiv> array_push (snd (take_entry (t\<lparr>tb_array_capacity := c'\<rparr>) i))
    (fst (take_entry (t\<lparr>tb_array_capacity := c'\<rparr>) i))"
  shows "table_shape st t'" "keys_from (array_count t') t'"
    "array_count t' = Suc (array_count t)" "Suc (tb_entry_count t') = tb_entry_count t"
    "storable_key st k \<Longrightarrow> table_value st t' k = table_value st t k" "table_link t' = table_link t"
proof -
  let ?n = "VALUE_INTEGER (word_of_nat (array_count t))"
  note pushed = array_push_def bury_def take_entry_def
  have cap: "entry_capacity t \<noteq> 0" using i(1) by linarith
  have ok: "hash_ok st (tb_entries t)" by (rule shapeD(1) [OF s cap])
  have sn: "storable_key st ?n" by (rule int_storable)
  have es: "tb_entries t' = tb_entries (bury t i)" "tb_entry_count t' = tb_entry_count (bury t i)"
    "tb_entry_tombs t' = tb_entry_tombs (bury t i)"
    by (simp_all add: t'_def pushed)
  show "table_shape st t'"
    using bury_shape(1) [OF s i(1,2)] shape_cong(1) [OF es] by blast
  show count: "array_count t' = Suc (array_count t)" by (simp add: t'_def pushed)
  show "Suc (tb_entry_count t') = tb_entry_count t"
    using bury_shape(3) [OF s i(1,2)] es by simp
  show "table_link t' = table_link t" by (simp add: t'_def pushed table_link_def)
  show "keys_from (array_count t') t'"
    unfolding keys_from_def count es
  proof (intro ballI allI impI)
    fix e j assume e: "e \<in> set (tb_entries (bury t i))" "fst e = VALUE_INTEGER j"
    then obtain x where x: "x < entry_capacity t" "x \<noteq> i" "e = tb_entries t ! x"
      unfolding bury_def by (auto simp: in_set_conv_nth) (metis LhatValue.distinct(3) fst_conv nth_list_update_eq nth_list_update_neq tombstone_def)
    have "sint j < 0 \<or> array_count t \<le> unat j"
      using keys x e(2) nth_mem unfolding keys_from_def by blast
    moreover have "j \<noteq> word_of_nat (array_count t)"
    proof
      assume "j = word_of_nat (array_count t)"
      then have "lhat_value_equal st (fst (tb_entries t ! x)) (fst (tb_entries t ! i))"
        using e(2) x(3) i(3) by simp
      moreover have "live_entry (tb_entries t ! x)" using e(2) x(3) by (simp add: live_entry_def)
      ultimately show False using value_keys.entries_okD(5) [OF ok x(1) i(1) _ i(2)] x(2) by blast
    qed
    ultimately show "sint j < 0 \<or> Suc (array_count t) \<le> unat j"
      using position_word [of "array_count t" j] n by (auto simp: order_le_less)
  qed
  assume sk: "storable_key st k"
  have h: "held st (tb_entries t') k = (if k = ?n then None else held st (tb_entries t) k)"
    using bury_shape(2) [OF s i(1,2) sk] i(3) int_equal(2) [OF sk sn] es(1) by simp
  have v: "held st (tb_entries t) ?n = Some (snd (tb_entries t ! i))"
    using value_keys.held_at_live [OF ok sn i(1,2)] value_keys.eq_refl [OF sn] i(3) by simp
  from sk show "table_value st t' k = table_value st t k"
  proof (cases rule: key_cases)
    case (1 j)
    have idx: "int_index t' k = (if k = ?n then Some (array_count t) else int_index t k)"
      using int_index_push [of t _ j] n 1 int_index_cong [of t' "array_push t v" k for v]
      by (auto simp: t'_def pushed position_in_def)
    show ?thesis
    proof (cases "k = ?n")
      case True
      then show ?thesis
        using idx v int_index_next [of t] n
        by (simp add: table_value_def t'_def pushed)
    next
      case False
      then show ?thesis
        using idx h int_index_less [of t k]
        by (auto simp: table_value_def t'_def pushed nth_append split: option.splits)
    qed
  next
    case 2
    then show ?thesis using h by (simp add: table_value_def)
  qed
qed

definition same_store :: "LhatStore \<Rightarrow> LhatTable \<Rightarrow> LhatTable \<Rightarrow> bool" where
  "same_store st t t' \<longleftrightarrow> (\<forall>k. storable_key st k \<longrightarrow> table_value st t' k = table_value st t k) \<and>
     lhat_table_count t' = lhat_table_count t \<and> table_link t' = table_link t"

lemma same_store_refl [simp]: "same_store st t t"
  by (simp add: same_store_def)

lemma same_store_trans: "same_store st a b \<Longrightarrow> same_store st b c \<Longrightarrow> same_store st a c"
  by (simp add: same_store_def)

lemma room_ample:
  assumes "ample st"
  obtains c' where "array_room st t = (True, t\<lparr>tb_array_capacity := c'\<rparr>)"
proof (cases "array_count t = tb_array_capacity t")
  case True
  then show ?thesis using that assms by (simp add: array_room_def grow_array_def ample_def Let_def)
next
  case False
  then show ?thesis using that [of "tb_array_capacity t"] by (simp add: array_room_def)
qed

lemma keys_from_Suc:
  assumes k: "keys_from n t" and none: "held st (tb_entries t) (VALUE_INTEGER (word_of_nat n)) = None"
    and n: "n < 2 ^ 63"
  shows "keys_from (Suc n) t"
  unfolding keys_from_def
proof (intro ballI allI impI)
  let ?n = "VALUE_INTEGER (word_of_nat n)"
  fix e j assume e: "e \<in> set (tb_entries t)" "fst e = VALUE_INTEGER j"
  have "j \<noteq> word_of_nat n"
  proof
    assume "j = word_of_nat n"
    then have "live_entry e \<and> lhat_value_equal st (fst e) ?n"
      using e(2) by (simp add: live_entry_def)
    then show False
      using none e(1) by (simp add: value_keys.held_at_none) (metis in_set_conv_nth)
  qed
  moreover have "sint j < 0 \<or> n \<le> unat j"
    using k e unfolding keys_from_def by blast
  ultimately show "sint j < 0 \<or> Suc n \<le> unat j"
    using position_word [OF n, of j] by (auto simp: order_le_less)
qed

theorem drain_ok:
  assumes "table_shape st t" "array_count t + tb_entry_count t < 2 ^ 63 - 1" "keys_from (array_count t) t" "ample st"
  shows "\<exists>t'. drain_into_array st t = Some t' \<and> table_ok st t' \<and> same_store st t t' \<and>
    array_count t \<le> array_count t'"
  using assms
proof (induction "tb_entry_count t" arbitrary: t rule: less_induct)
  case less
  let ?n = "VALUE_INTEGER (word_of_nat (array_count t))"
  note s = less.prems(1)
  have n: "array_count t < 2 ^ 63 - 1" using less.prems(2) by simp
  show ?case
  proof (cases "held st (tb_entries t) ?n")
    case None
    then have f: "find_entry st t (array_count t) = Some None" by (rule find_entry_none [OF s])
    have "keys_from (Suc (array_count t)) t"
      using n by (intro keys_from_Suc [OF less.prems(3) None]) simp
    then have "table_ok st t" using s by (simp add: table_ok_def)
    then show ?thesis using f by (subst drain_into_array.simps) simp
  next
    case (Some v)
    then obtain i where f: "find_entry st t (array_count t) = Some (Some i)"
      and i: "i < entry_capacity t" "live_entry (tb_entries t ! i)" "fst (tb_entries t ! i) = ?n"
      by (rule find_entry_held [OF s])
    obtain c' where room: "array_room st t = (True, t\<lparr>tb_array_capacity := c'\<rparr>)"
      by (rule room_ample [OF less.prems(4)])
    define t1 where "t1 = array_push (snd (take_entry (t\<lparr>tb_array_capacity := c'\<rparr>) i))
      (fst (take_entry (t\<lparr>tb_array_capacity := c'\<rparr>) i))"
    note p = take_push [OF s n less.prems(3) i, where c' = c', folded t1_def]
    have step: "drain_into_array st t = drain_into_array st t1"
      using f room by (subst drain_into_array.simps) (simp add: t1_def Let_def)
    have st1: "same_store st t t1"
      using p(3,4,5,6) by (simp add: same_store_def lhat_table_count_def)
    have "\<exists>t'. drain_into_array st t1 = Some t' \<and> table_ok st t' \<and> same_store st t1 t' \<and>
      array_count t1 \<le> array_count t'"
      using less.hyps [of t1] p(1-4) less.prems(2,4) by simp
    then show ?thesis
      unfolding step using same_store_trans [OF st1] p(3) by (metis Suc_leD)
  qed
qed

end
