(* ===== verification/Lhat_TableSet.thy ===== *)
theory Lhat_TableSet
  imports Lhat_TableDrain
begin

text \<open>
  Writing: the rehash, and that \<open>lhat_table_set\<close> returns, keeps the invariant and writes the one key
  and no other.
\<close>

subsection \<open>The rehash\<close>

definition distinct_keys :: "LhatStore \<Rightarrow> LhatTableEntry list \<Rightarrow> bool" where
  "distinct_keys st es \<longleftrightarrow>
     sorted_wrt (\<lambda>e f. live_entry e \<and> live_entry f \<longrightarrow> \<not> lhat_value_equal st (fst e) (fst f)) es \<and>
     (\<forall>e\<in>set es. live_entry e \<longrightarrow> storable_key st (fst e))"

lemma hash_ok_distinct: "hash_ok st es \<Longrightarrow> distinct_keys st es"
  unfolding distinct_keys_def sorted_wrt_iff_nth_less
proof (intro conjI ballI allI impI)
  fix i j assume ok: "hash_ok st es" and "i < j" "j < length es" "live_entry (es ! i) \<and> live_entry (es ! j)"
  then show "\<not> lhat_value_equal st (fst (es ! i)) (fst (es ! j))"
    using value_keys.entries_okD(5) [OF ok, of i j] by auto
next
  fix e assume ok: "hash_ok st es" and "e \<in> set es" "live_entry e"
  then show "storable_key st (fst e)"
    using value_keys.entries_okD(3) [OF ok] by (metis in_set_conv_nth)
qed

lemma live_count_Cons: "live_count (e # es) = (if live_entry e then 1 else 0) + live_count es"
  by (simp add: live_count_def)

lemma held_Cons:
  "held st (e # es) k =
     (if live_entry e \<and> lhat_value_equal st (fst e) k then Some (snd e) else held st es k)"
  by (simp add: held_at_def)

lemma rehash_ok:
  assumes "hash_ok st es" "tomb_count es = 0" "live_count es + live_count olds < length es"
    "distinct_keys st olds" "\<And>e. e \<in> set olds \<Longrightarrow> live_entry e \<Longrightarrow> held st es (fst e) = None"
  shows "\<exists>es'. rehash_entries st olds es moved = Some (es', moved + live_count olds) \<and>
    hash_ok st es' \<and> tomb_count es' = 0 \<and> length es' = length es \<and>
    live_count es' = live_count es + live_count olds \<and>
    set (map fst es') \<subseteq> set (map fst es) \<union> set (map fst olds) \<and>
    (\<forall>k. storable_key st k \<longrightarrow>
      held st es' k = (case held st olds k of Some v \<Rightarrow> Some v | None \<Rightarrow> held st es k))"
  using assms
proof (induction olds arbitrary: es moved)
  case Nil
  then show ?case by (simp add: live_count_def held_at_def)
next
  case (Cons e olds)
  obtain k v where e: "e = (k, v)" by fastforce
  show ?case
  proof (cases "live_entry e")
    case False
    then have "lhat_is_nil k" by (simp add: live_entry_def e)
    moreover have "distinct_keys st olds" "live_count es + live_count olds < length es"
      using Cons.prems(3,4) False by (simp_all add: distinct_keys_def live_count_Cons)
    moreover have "\<And>f. f \<in> set olds \<Longrightarrow> live_entry f \<Longrightarrow> held st es (fst f) = None"
      using Cons.prems(5) by simp
    ultimately obtain es' where es': "rehash_entries st (e # olds) es moved = Some (es', moved + live_count olds)"
      "hash_ok st es'" "tomb_count es' = 0" "length es' = length es"
      "live_count es' = live_count es + live_count olds"
      "set (map fst es') \<subseteq> set (map fst es) \<union> set (map fst olds)"
      "\<forall>j. storable_key st j \<longrightarrow>
        held st es' j = (case held st olds j of Some v \<Rightarrow> Some v | None \<Rightarrow> held st es j)"
      using Cons.IH [OF Cons.prems(1,2), of moved] by (auto simp: e)
    moreover have "set (map fst es') \<subseteq> set (map fst es) \<union> set (map fst (e # olds))"
      using es'(6) by auto
    ultimately show ?thesis
      using False by (simp add: live_count_Cons held_Cons)
  next
    case True
    have k: "storable_key st k" "k \<noteq> VALUE_NIL"
      using Cons.prems(4) True by (auto simp: distinct_keys_def e live_entry_def)
    have none: "held st es k = None" using Cons.prems(5) [of e] True by (simp add: e)
    have free: "some_free es"
      using Cons.prems(2,3) by (intro free_left) simp
    obtain i where i: "probe st es k (hash_key st k) = Some i" "i < length es"
      "\<not> live_entry (es ! i)" "reached es (hash_key st k) i"
      using value_keys.probe_absent [OF Cons.prems(1) k(1) refl none free] unfolding probe_def by metis
    note put = value_keys.put_new [OF Cons.prems(1) k(1) none i(2,3,4), where v = v]
    let ?es = "es[i := (k, v)]"
    have counts: "live_count ?es = Suc (live_count es)" "tomb_count ?es = 0"
      using count_put(1,2) [OF i(2,3) k(2), where v = v] Cons.prems(2) by simp_all
    have new: "held st ?es (fst f) = None" if f: "f \<in> set olds" "live_entry f" for f
    proof -
      have "storable_key st (fst f)" "\<not> lhat_value_equal st k (fst f)"
        using Cons.prems(4) True f by (auto simp: distinct_keys_def e)
      then show ?thesis using put(2) [of "fst f"] Cons.prems(5) [of f] f by simp
    qed
    have d: "distinct_keys st olds" using Cons.prems(4) by (simp add: distinct_keys_def)
    have "live_count ?es + live_count olds < length ?es"
      using counts(1) Cons.prems(3) True by (simp add: live_count_Cons)
    from Cons.IH [OF put(1) counts(2) this d new, of "moved + 1"]
    obtain es' where es': "rehash_entries st olds ?es (moved + 1) = Some (es', moved + 1 + live_count olds)"
      "hash_ok st es'" "tomb_count es' = 0" "length es' = length es"
      "live_count es' = live_count ?es + live_count olds"
      "set (map fst es') \<subseteq> set (map fst ?es) \<union> set (map fst olds)"
      "\<And>j. storable_key st j \<Longrightarrow>
        held st es' j = (case held st olds j of Some v \<Rightarrow> Some v | None \<Rightarrow> held st ?es j)"
      by auto
    have run: "rehash_entries st (e # olds) es moved = Some (es', moved + live_count (e # olds))"
      using i(1) es'(1) k(2) True by (simp add: e live_count_Cons)
    have keys: "set (map fst es') \<subseteq> set (map fst es) \<union> set (map fst (e # olds))"
    proof -
      have "set (map fst ?es) \<subseteq> insert k (set (map fst es))"
        unfolding map_update fst_conv by (rule set_update_subset_insert)
      moreover have "set (map fst (e # olds)) = insert k (set (map fst olds))" by (simp add: e)
      ultimately show ?thesis using es'(6) by blast
    qed
    have val: "held st es' j = (case held st (e # olds) j of Some v \<Rightarrow> Some v | None \<Rightarrow> held st es j)"
      if j: "storable_key st j" for j
    proof (cases "lhat_value_equal st k j")
      case True
      have "held st olds j = None"
      proof (rule ccontr)
        assume "held st olds j \<noteq> None"
        then obtain w where "held st olds j = Some w" by blast
        then obtain x where "x < length olds" "live_entry (olds ! x)"
          "lhat_value_equal st (fst (olds ! x)) j" by (rule value_keys.held_at_some)
        then have f: "olds ! x \<in> set olds" "live_entry (olds ! x)"
          "lhat_value_equal st (fst (olds ! x)) j" by simp_all
        then have "storable_key st (fst (olds ! x))" "\<not> lhat_value_equal st k (fst (olds ! x))"
          using Cons.prems(4) \<open>live_entry e\<close> by (auto simp: distinct_keys_def e)
        then show False
          using value_keys.eq_trans [OF k(1) j] value_keys.eq_sym [OF _ j] True f(3) by blast
      qed
      then show ?thesis
        using es'(7) [OF j] put(2) [OF j] True \<open>live_entry e\<close> by (simp add: held_Cons e)
    next
      case False
      then have same: "held st ?es j = held st es j" "held st (e # olds) j = held st olds j"
        using put(2) [OF j] by (simp_all add: held_Cons e)
      show ?thesis using es'(7) [OF j] unfolding same .
    qed
    show ?thesis
      using run es'(2-5) keys val counts(1) True by (auto simp: live_count_Cons)
  qed
qed

lemma fit_capacity_ok:
  assumes "0 < c"
  shows "\<exists>m. fit_capacity c n = c * 2 ^ m" "n \<le> fit_capacity c n - fit_capacity c n div 4"
proof -
  have "(\<exists>m. fit_capacity c n = c * 2 ^ m) \<and> n \<le> fit_capacity c n - fit_capacity c n div 4"
    using assms
  proof (induction c n rule: fit_capacity.induct)
    case (1 c n)
    show ?case
    proof (cases "c - c div 4 < n")
      case True
      then have "fit_capacity c n = fit_capacity (c * 2) n"
        using 1(2) by (subst fit_capacity.simps) simp
      moreover obtain m where "fit_capacity (c * 2) n = c * 2 * 2 ^ m"
        "n \<le> fit_capacity (c * 2) n - fit_capacity (c * 2) n div 4"
        using 1(1) [of] 1(2) True by auto
      ultimately show ?thesis by (metis mult.assoc power_Suc)
    next
      case False
      then have "fit_capacity c n = c" by (subst fit_capacity.simps) simp
      then show ?thesis using False by (auto intro: exI [of _ 0])
    qed
  qed
  then show "\<exists>m. fit_capacity c n = c * 2 ^ m" "n \<le> fit_capacity c n - fit_capacity c n div 4"
    by blast+
qed

lemma keys_fromI:
  assumes "set (map fst es) \<subseteq> insert VALUE_NIL (set (map fst (tb_entries t)))" "keys_from n t"
    "tb_entries t' = es"
  shows "keys_from n t'"
  unfolding keys_from_def
proof (intro ballI allI impI)
  fix e i assume "e \<in> set (tb_entries t')" "fst e = VALUE_INTEGER i"
  then have "VALUE_INTEGER i \<in> set (map fst (tb_entries t))"
    using assms(1,3) by force
  then obtain f where "f \<in> set (tb_entries t)" "fst f = VALUE_INTEGER i" by auto
  then show "sint i < 0 \<or> n \<le> unat i" using assms(2) unfolding keys_from_def by blast
qed

definition same_hash :: "LhatStore \<Rightarrow> LhatTable \<Rightarrow> LhatTable \<Rightarrow> bool" where
  "same_hash st t t' \<longleftrightarrow>
     (\<forall>k. storable_key st k \<longrightarrow> held st (tb_entries t') k = held st (tb_entries t) k) \<and>
     tb_array t' = tb_array t \<and> tb_entry_count t' = tb_entry_count t \<and> table_link t' = table_link t"

lemma grow_ok:
  assumes s: "table_shape st t" and a: "ample st"
  shows "\<exists>t'. grow_entries st t = Some (True, t') \<and> table_shape st t' \<and> same_hash st t t' \<and>
    entry_capacity t' \<noteq> 0 \<and> load_ok (entry_capacity t') (tb_entry_count t' + tb_entry_tombs t' + 1) \<and>
    (\<forall>n. keys_from n t \<longrightarrow> keys_from n t')"
proof -
  define c where "c = fit_capacity 8 (tb_entry_count t + 1)"
  obtain m where m: "c = 2 ^ (m + 3)"
    using fit_capacity_ok(1) [of 8 "tb_entry_count t + 1"] by (auto simp: c_def power_add)
  have load: "load_ok c (tb_entry_count t + 1)"
    using fit_capacity_ok(2) [of 8 "tb_entry_count t + 1"] by (simp add: load_ok_def c_def)
  have eight: "8 \<le> c" unfolding m by (simp add: power_add)
  let ?new = "replicate c nil_entry"
  have count: "live_count (tb_entries t) = tb_entry_count t"
    using s by (auto simp: table_shape_def live_count_def split: if_splits)
  have new: "hash_ok st ?new" unfolding m by (rule value_keys.entries_ok_fresh)
  have none: "live_count ?new = 0" "tomb_count ?new = 0"
    by (auto simp: live_count_def tomb_count_def filter_empty_conv nil_entry_def live_entry_def)
  have d: "distinct_keys st (tb_entries t)"
  proof (cases "entry_capacity t = 0")
    case False
    then show ?thesis using hash_ok_distinct shapeD(1) [OF s] by blast
  qed (simp add: distinct_keys_def)
  have "tb_entry_count t + 1 \<le> c - c div 4" using load by (simp add: load_ok_def)
  then have less: "live_count ?new + live_count (tb_entries t) < length ?new"
    using count none(1) eight by simp
  obtain es' where es': "rehash_entries st (tb_entries t) ?new 0 = Some (es', tb_entry_count t)"
    "hash_ok st es'" "tomb_count es' = 0" "length es' = c" "live_count es' = tb_entry_count t"
    "set (map fst es') \<subseteq> set (map fst ?new) \<union> set (map fst (tb_entries t))"
    and held': "\<forall>k. storable_key st k \<longrightarrow>
      held st es' k = (case held st (tb_entries t) k of Some v \<Rightarrow> Some v | None \<Rightarrow> held st ?new k)"
    using rehash_ok [OF new none(2) less d value_keys.held_at_fresh, of 0] none(1) count
    by (simp only: add_0 length_replicate) blast
  have es'_held: "held st es' k = held st (tb_entries t) k" if "storable_key st k" for k
    using held' that by (simp add: value_keys.held_at_fresh split: option.splits)
  define t' where "t' = t\<lparr>tb_entries := es', tb_inline_entries := False, tb_entry_count := tb_entry_count t,
    tb_entry_tombs := 0, tb_version := tb_version t + 1\<rparr>"
  have run: "grow_entries st t = Some (True, t')"
    using a es'(1) unfolding grow_entries_def ample_def t'_def c_def [symmetric] Let_def by simp
  have fields: "tb_entries t' = es'" "tb_entry_count t' = tb_entry_count t" "tb_entry_tombs t' = 0"
    "tb_array t' = tb_array t" "table_link t' = table_link t"
    by (simp_all add: t'_def table_link_def)
  have shape: "table_shape st t'"
    using es'(2-5) eight load by (intro shapeI) (simp_all add: fields load_ok_def)
  have same: "same_hash st t t'" using es'_held fields by (simp add: same_hash_def)
  have room: "entry_capacity t' \<noteq> 0" "load_ok (entry_capacity t') (tb_entry_count t' + tb_entry_tombs t' + 1)"
    using es'(4) eight load by (auto simp: fields)
  have "keys_from n t'" if "keys_from n t" for n
  proof (rule keys_fromI [OF _ that fields(1)])
    show "set (map fst es') \<subseteq> insert VALUE_NIL (set (map fst (tb_entries t)))"
      using es'(6) by (auto simp: nil_entry_def)
  qed
  then show ?thesis using run shape same room by blast
qed

lemma entry_room_ok:
  assumes s: "table_shape st t" and a: "ample st"
  shows "\<exists>t'. entry_room st t = Some (True, t') \<and> table_shape st t' \<and> same_hash st t t' \<and>
    entry_capacity t' \<noteq> 0 \<and> load_ok (entry_capacity t') (tb_entry_count t' + tb_entry_tombs t' + 1) \<and>
    (\<forall>n. keys_from n t \<longrightarrow> keys_from n t')"
proof (cases "load_ok (entry_capacity t) (tb_entry_count t + tb_entry_tombs t + 1)")
  case True
  then have "entry_room st t = Some (True, t)" "entry_capacity t \<noteq> 0"
    by (auto simp: entry_room_def load_ok_def)
  then show ?thesis using True s by (auto simp: same_hash_def)
next
  case False
  then show ?thesis using grow_ok [OF s a] by (simp add: entry_room_def load_ok_def)
qed

subsection \<open>Putting an entry\<close>

lemma put_claim:
  fixes v :: LhatValue
  assumes s: "table_shape st t" and k: "storable_key st k" and none: "held st (tb_entries t) k = None"
    and room: "load_ok (entry_capacity t) (tb_entry_count t + tb_entry_tombs t + 1)"
    and i: "i < entry_capacity t" "\<not> live_entry (tb_entries t ! i)" "reached (tb_entries t) (hash_key st k) i"
  defines "t' \<equiv> put_entry (claim_entry t i) i k v"
  shows "table_shape st t'" "tb_entry_count t' = Suc (tb_entry_count t)"
    "storable_key st j \<Longrightarrow>
      held st (tb_entries t') j = (if lhat_value_equal st k j then Some v else held st (tb_entries t) j)"
proof -
  have cap: "entry_capacity t \<noteq> 0" using i(1) by linarith
  have nil: "k \<noteq> VALUE_NIL" using value_keys.good_key [OF k] .
  note put = value_keys.put_new [OF shapeD(1) [OF s cap] k none i, where v = v]
  note c = count_put(1,2) [OF i(1,2) nil, where v = v]
  have es: "tb_entries t' = (tb_entries t)[i := (k, v)]" by (simp add: t'_def put_entry_def claim_entry_def)
  show n: "tb_entry_count t' = Suc (tb_entry_count t)" by (simp add: t'_def put_entry_def claim_entry_def)
  have tombs: "tb_entry_tombs t' = tb_entry_tombs t - (if snd (tb_entries t ! i) = VALUE_NIL then 0 else 1)"
    by (simp add: t'_def put_entry_def claim_entry_def)
  show "table_shape st t'"
  proof (rule shapeI)
    show "hash_ok st (tb_entries t')" "4 \<le> entry_capacity t'" "tb_entry_count t' = live_count (tb_entries t')"
      using put(1) shapeD(2,3) [OF s cap] c(1) n es by simp_all
    show "tomb_count (tb_entries t') \<le> tb_entry_tombs t'"
      using c(2) shapeD(4) [OF s cap] es tombs by simp
    show "load_ok (entry_capacity t') (tb_entry_count t' + tb_entry_tombs t')"
      using room n tombs es by (simp add: load_ok_def)
  qed
  show "storable_key st j \<Longrightarrow>
      held st (tb_entries t') j = (if lhat_value_equal st k j then Some v else held st (tb_entries t) j)"
    using put(2) es by simp
qed

lemma put_again:
  fixes v :: LhatValue
  assumes s: "table_shape st t" and k: "storable_key st k"
    and i: "i < entry_capacity t" "live_entry (tb_entries t ! i)" "lhat_value_equal st (fst (tb_entries t ! i)) k"
  defines "t' \<equiv> put_entry t i k v"
  shows "table_shape st t'" "tb_entry_count t' = tb_entry_count t"
    "storable_key st j \<Longrightarrow>
      held st (tb_entries t') j = (if lhat_value_equal st k j then Some v else held st (tb_entries t) j)"
proof -
  have cap: "entry_capacity t \<noteq> 0" using i(1) by linarith
  have nil: "k \<noteq> VALUE_NIL" using value_keys.good_key [OF k] .
  note put = value_keys.put_over [OF shapeD(1) [OF s cap] k i, where v = v]
  have fields: "tb_entries t' = (tb_entries t)[i := (k, v)]" "tb_entry_count t' = tb_entry_count t"
    "tb_entry_tombs t' = tb_entry_tombs t"
    by (simp_all add: t'_def put_entry_def)
  show "tb_entry_count t' = tb_entry_count t" by (rule fields)
  show "table_shape st t'"
    using put(1) shapeD(2-5) [OF s cap] count_over [OF i(1,2) nil, of v]
    by (intro shapeI) (simp_all add: fields)
  show "storable_key st j \<Longrightarrow>
      held st (tb_entries t') j = (if lhat_value_equal st k j then Some v else held st (tb_entries t) j)"
    using put(2) fields by simp
qed

lemma put_keys:
  assumes "keys_from n t" "\<And>i. k = VALUE_INTEGER i \<Longrightarrow> sint i < 0 \<or> n \<le> unat i"
  shows "keys_from n (put_entry t i k v)" "keys_from n (put_entry (claim_entry t i) i k v)"
proof -
  have "sint j < 0 \<or> n \<le> unat j"
    if "e \<in> set ((tb_entries t)[i := (k, v)])" "fst e = VALUE_INTEGER j" for e j
  proof -
    have "e = (k, v) \<or> e \<in> set (tb_entries t)"
      using that(1) set_update_subset_insert by fast
    then show ?thesis using assms that(2) unfolding keys_from_def by auto
  qed
  then show "keys_from n (put_entry t i k v)" "keys_from n (put_entry (claim_entry t i) i k v)"
    by (simp_all add: keys_from_def put_entry_def claim_entry_def)
qed

subsection \<open>Writing a key\<close>

text \<open>After a write every key but the written one reads as before.\<close>

definition stored ::
  "LhatStore \<Rightarrow> LhatTable \<Rightarrow> LhatTable \<Rightarrow> LhatValue \<Rightarrow> LhatValue \<Rightarrow> bool" where
  "stored st t t' key value \<longleftrightarrow>
     (\<forall>k. storable_key st k \<longrightarrow>
        table_value st t' k = (if lhat_value_equal st key k then value else table_value st t k)) \<and>
     table_link t' = table_link t"

lemma set_index:
  fixes w :: LhatValue
  assumes ok: "table_ok st t" and k: "storable_key st key" and i: "int_index t key = Some i"
  defines "t' \<equiv> t\<lparr>tb_array := (tb_array t)[i := w]\<rparr>"
  shows "table_ok st t'" "stored st t t' key w"
proof -
  show "table_ok st t'"
    using ok shape_cong [of t' t] by (simp add: table_ok_def t'_def)
  obtain j where j: "key = VALUE_INTEGER j"
    using k i by (cases rule: key_cases) auto
  have less: "i < array_count t" using int_index_less [OF i] .
  have idx: "int_index t' x = int_index t x" for x
    by (rule int_index_cong) (simp add: t'_def)
  have "table_value st t' x = (if lhat_value_equal st key x then w else table_value st t x)"
    if x: "storable_key st x" for x
  proof (cases "x = key")
    case True
    have "table_value st t' key = tb_array t' ! i" using idx i by (simp add: table_value_def)
    then show ?thesis using True less j by (simp add: t'_def)
  next
    case False
    then have "\<not> lhat_value_equal st key x"
      using int_equal(2) [of st x j] k x j by (auto simp:)
    moreover have "int_index t x \<noteq> Some i"
    proof
      assume xi: "int_index t x = Some i"
      from x obtain h where "x = VALUE_INTEGER h"
        using xi by (cases rule: key_cases) auto
      then show False
        using xi i j False by (auto simp: position_in_def word_unat_eq_iff split: if_splits)
    qed
    ultimately show ?thesis using idx by (auto simp: table_value_def t'_def split: option.splits)
  qed
  then show "stored st t t' key w" by (simp add: stored_def t'_def table_link_def)
qed

lemma set_append_ok:
  assumes ok: "table_ok st t" and f: "table_fits t" and a: "ample st"
  defines "key \<equiv> VALUE_INTEGER (word_of_nat (array_count t))"
  shows "\<exists>t'. set_append st t w = Some (SET_ANSWER True False t') \<and> table_ok st t' \<and> stored st t t' key w"
proof -
  have s: "table_shape st t" and keys: "keys_from (Suc (array_count t)) t"
    using ok by (simp_all add: table_ok_def)
  have n: "array_count t < 2 ^ 63 - 1" using f by (simp add: table_fits_def)
  obtain c' where room: "array_room st t = (True, t\<lparr>tb_array_capacity := c'\<rparr>)" by (rule room_ample [OF a])
  define t1 where "t1 = array_push (t\<lparr>tb_array_capacity := c'\<rparr>) w"
  have fields: "tb_entries t1 = tb_entries t" "tb_entry_count t1 = tb_entry_count t"
    "tb_entry_tombs t1 = tb_entry_tombs t" "tb_array t1 = tb_array t @ [w]" "table_link t1 = table_link t"
    by (simp_all add: t1_def array_push_def table_link_def)
    have "\<exists>t'. drain_into_array st t1 = Some t' \<and> table_ok st t' \<and> same_store st t1 t' \<and>
        array_count t1 \<le> array_count t'"
      using s keys shape_cong [of t1 t] fields
        f by (intro drain_ok a) (simp_all add: table_fits_def)
    then obtain t' where t': "drain_into_array st t1 = Some t'" "table_ok st t'" "same_store st t1 t'" by blast
    have run: "set_append st t w = Some (SET_ANSWER True False t')"
      using room t'(1) by (simp add: set_append_def t1_def)
    have "table_value st t' k = (if lhat_value_equal st key k then w else table_value st t k)"
      if k: "storable_key st k" for k
    proof -
      have idx: "int_index t1 k = (if k = key then Some (array_count t) else int_index t k)"
        using k
      proof (cases rule: key_cases)
        case (1 j)
        then show ?thesis
          using int_index_push [of "t\<lparr>tb_array_capacity := c'\<rparr>" w j] n
            int_index_cong [of "t\<lparr>tb_array_capacity := c'\<rparr>" t k]
          by (simp add: t1_def key_def)
      next
        case 2
        then show ?thesis by (simp add: key_def)
      qed
      have "lhat_value_equal st key k \<longleftrightarrow> k = key"
        using int_equal(2) [of st k] k int_storable by (simp add: key_def)
      moreover have "table_value st t1 k = (if k = key then w else table_value st t k)"
        using idx int_index_less [of t k] fields
        by (auto simp: table_value_def nth_append split: option.splits)
      moreover have "table_value st t' k = table_value st t1 k"
        using t'(3) k by (simp add: same_store_def)
      ultimately show ?thesis by simp
    qed
    then show ?thesis
      using run t'(2,3) fields(5) by (auto simp: stored_def same_store_def)
qed

text \<open>A key of the hash half that is not the next position stays off the positions.\<close>

lemma beyond_next:
  assumes "int_index t (VALUE_INTEGER j) = None" "j \<noteq> word_of_nat (array_count t)"
    "array_count t < 2 ^ 63"
  shows "sint j < 0 \<or> Suc (array_count t) \<le> unat j"
  using assms position_word [OF assms(3), of j] by (auto simp: position_in_def order_le_less split: if_splits)

lemma stored_hash:
  assumes k: "storable_key st key" "int_index t key = None"
    and h: "\<And>j. storable_key st j \<Longrightarrow> held st (tb_entries t') j =
      (if lhat_value_equal st key j then v else held st (tb_entries t) j)"
    and rest: "tb_array t' = tb_array t" "table_link t' = table_link t"
    and w: "w = (case v of Some x \<Rightarrow> x | None \<Rightarrow> VALUE_NIL)"
  shows "stored st t t' key w"
  unfolding stored_def
proof (intro conjI allI impI)
  fix j assume j: "storable_key st j"
  have idx: "int_index t' j = int_index t j" by (rule int_index_cong) (simp add: rest)
  have no: "int_index t j = None" if e: "lhat_value_equal st key j"
    using j
  proof (cases rule: key_cases)
    case (1 i)
    then show ?thesis
      using int_equal(1) [of st key i] e j k by simp
  qed simp
  show "table_value st t' j = (if lhat_value_equal st key j then w else table_value st t j)"
    using idx no h [OF j] w rest(1) by (auto simp: table_value_def split: option.splits)
qed (rule rest)

lemma set_remove_ok:
  assumes ok: "table_ok st t" and k: "storable_key st key" and none: "int_index t key = None"
  shows "\<exists>t'. set_remove st t key = Some (SET_ANSWER True False t') \<and> table_ok st t' \<and> stored st t t' key VALUE_NIL"
proof -
  have s: "table_shape st t" and keys: "keys_from (Suc (array_count t)) t"
    using ok by (simp_all add: table_ok_def)
  show ?thesis
  proof (cases "held st (tb_entries t) key")
    case None
    have st: "stored st t t key VALUE_NIL"
    proof (rule stored_hash [OF k none, where v = None])
      fix j assume j: "storable_key st j"
      have "held st (tb_entries t) j = None" if "lhat_value_equal st key j"
        using held_cong [OF s k _ that] None j by simp
      then show "held st (tb_entries t) j = (if lhat_value_equal st key j then None else held st (tb_entries t) j)"
        by simp
    qed simp_all
    show ?thesis
    proof (cases "entry_capacity t = 0")
      case True
      then show ?thesis using ok st by (simp add: set_remove_def)
    next
      case False
      obtain i where "probe st (tb_entries t) key (hash_key st key) = Some i" "\<not> live_entry (tb_entries t ! i)"
        by (rule probe_not_held [OF s k None False])
      then show ?thesis using ok st False by (simp add: set_remove_def live_entry_def)
    qed
  next
    case (Some v)
    obtain i where i: "probe st (tb_entries t) key (hash_key st key) = Some i" "i < entry_capacity t"
      "live_entry (tb_entries t ! i)" "lhat_value_equal st (fst (tb_entries t ! i)) key"
      by (rule probe_held [OF s k Some])
    have cap: "entry_capacity t \<noteq> 0" using i(2) by linarith
    have g: "storable_key st (fst (tb_entries t ! i))"
      by (rule value_keys.entries_okD(3) [OF shapeD(1) [OF s cap] i(2,3)])
    define t' where "t' = (bury t i)\<lparr>tb_version := tb_version t + 1\<rparr>"
    have fields: "tb_entries t' = tb_entries (bury t i)" "tb_entry_count t' = tb_entry_count (bury t i)"
      "tb_entry_tombs t' = tb_entry_tombs (bury t i)" "tb_array t' = tb_array t" "table_link t' = table_link t"
      by (simp_all add: t'_def bury_def table_link_def)
    have "set_remove st t key = Some (SET_ANSWER True False t')"
      using i(1,3) cap by (simp add: set_remove_def live_entry_def t'_def)
    moreover have "table_ok st t'"
      using bury_shape(1) [OF s i(2,3)] shape_cong(1) [OF fields(1-3)] shape_cong(2) [OF fields(1)]
        bury_keys [OF keys] fields(4) by (simp add: table_ok_def)
    moreover have "stored st t t' key VALUE_NIL"
    proof (rule stored_hash [OF k none, where v = None])
      fix j assume j: "storable_key st j"
      then have sj: "storable_key st j" by simp
      have "lhat_value_equal st (fst (tb_entries t ! i)) j \<longleftrightarrow> lhat_value_equal st key j"
        using value_keys.eq_trans [OF g k sj i(4)] value_keys.eq_trans [OF k g sj]
          value_keys.eq_sym [OF g k i(4)] by blast
      then show "held st (tb_entries t') j = (if lhat_value_equal st key j then None else held st (tb_entries t) j)"
        using bury_shape(2) [OF s i(2,3) sj] fields(1) by simp
    qed (simp_all add: fields)
    ultimately show ?thesis by blast
  qed
qed

lemma set_entry_ok:
  assumes ok: "table_ok st t" and k: "storable_key st key" and none: "int_index t key = None"
    and n: "array_count t < 2 ^ 63" "key \<noteq> VALUE_INTEGER (word_of_nat (array_count t))" and a: "ample st"
  shows "\<exists>t'. set_entry st t key w = Some (SET_ANSWER True False t') \<and> table_ok st t' \<and> stored st t t' key w"
proof -
  have s: "table_shape st t" and keys: "keys_from (Suc (array_count t)) t"
    using ok by (simp_all add: table_ok_def)
  have off: "key = VALUE_INTEGER j \<Longrightarrow> sint j < 0 \<or> Suc (array_count t) \<le> unat j" for j
    using beyond_next [of t j] none n by simp
  obtain t1 where t1: "entry_room st t = Some (True, t1)" "table_shape st t1" "same_hash st t t1"
    "entry_capacity t1 \<noteq> 0" "load_ok (entry_capacity t1) (tb_entry_count t1 + tb_entry_tombs t1 + 1)"
    "keys_from (Suc (array_count t)) t1"
    using entry_room_ok [OF s a] keys by blast
  have same: "held st (tb_entries t1) j = held st (tb_entries t) j" if "storable_key st j" for j
    using t1(3) that by (simp add: same_hash_def)
  have rest: "tb_array t1 = tb_array t" "table_link t1 = table_link t"
    using t1(3) by (simp_all add: same_hash_def)
  have done': "\<exists>t'. set_entry st t key w = Some (SET_ANSWER True False t') \<and> table_ok st t' \<and> stored st t t' key w"
    if r: "set_entry st t key w = Some (SET_ANSWER True False t')" "table_shape st t'"
      "keys_from (Suc (array_count t)) t'" "tb_array t' = tb_array t" "table_link t' = table_link t"
      "\<And>j. storable_key st j \<Longrightarrow>
        held st (tb_entries t') j = (if lhat_value_equal st key j then Some w else held st (tb_entries t1) j)"
    for t'
  proof -
    have "stored st t t' key w"
      using r(6) same by (intro stored_hash [OF k none, where v = "Some w"]) (simp_all add: r(4,5))
    moreover have "table_ok st t'" using r(2,3,4) by (simp add: table_ok_def)
    ultimately show ?thesis using r(1) by blast
  qed
  show ?thesis
  proof (cases "held st (tb_entries t1) key")
    case None
    obtain i where i: "probe st (tb_entries t1) key (hash_key st key) = Some i" "i < entry_capacity t1"
      "\<not> live_entry (tb_entries t1 ! i)" "reached (tb_entries t1) (hash_key st key) i"
      by (rule probe_not_held [OF t1(2) k None t1(4)])
    note p = put_claim [OF t1(2) k None t1(5) i(2-4), where v = w]
    show ?thesis
    proof (rule done')
      show "set_entry st t key w = Some (SET_ANSWER True False (put_entry (claim_entry t1 i) i key w))"
        using t1(1) i(1,3) by (simp add: set_entry_def live_entry_def)
      show "keys_from (Suc (array_count t)) (put_entry (claim_entry t1 i) i key w)"
        by (rule put_keys(2) [OF t1(6) off])
    qed (use p(1,3) rest in \<open>simp_all add: put_entry_def claim_entry_def table_link_def\<close>)
  next
    case (Some v)
    obtain i where i: "probe st (tb_entries t1) key (hash_key st key) = Some i" "i < entry_capacity t1"
      "live_entry (tb_entries t1 ! i)" "lhat_value_equal st (fst (tb_entries t1 ! i)) key"
      by (rule probe_held [OF t1(2) k Some])
    note p = put_again [OF t1(2) k i(2-4), where v = w]
    show ?thesis
    proof (rule done')
      show "set_entry st t key w = Some (SET_ANSWER True False (put_entry t1 i key w))"
        using t1(1) i(1,3) by (simp add: set_entry_def live_entry_def)
      show "keys_from (Suc (array_count t)) (put_entry t1 i key w)"
        by (rule put_keys(1) [OF t1(6) off])
    qed (use p(1,3) rest in \<open>simp_all add: put_entry_def table_link_def\<close>)
  qed
qed

text \<open>A written key reads back and no other changes, the key being the one that the written one names.\<close>

lemma index_none: "array_index t k = None \<Longrightarrow> int_index t k = None"
  by (cases k) simp_all

theorem set_ok:
  assumes ok: "table_ok st t" and f: "table_fits t" and a: "ample st"
    and k: "\<not> key_refused st key" "storable_key st (normalise_key st key)"
  shows "\<exists>t'. lhat_table_set st t key w = Some (SET_ANSWER True False t') \<and> table_ok st t' \<and>
    stored st t t' (named_key t (normalise_key st key)) w"
proof (cases "array_index t (normalise_key st key)")
  case (Some i)
  then have "int_index t (named_key t (normalise_key st key)) = Some i" by (simp add: index_named)
  from set_index [OF ok named_storable [OF k(2)] this, of w] show ?thesis
    using k(1) Some by (simp add: lhat_table_set_def Let_def)
next
  case None
  let ?k = "normalise_key st key"
  have n: "array_count t < 2 ^ 63" using f by (simp add: table_fits_def)
  note none = index_none [OF None]
  consider "?k = VALUE_INTEGER (word_of_nat (array_count t))"
    | "?k \<noteq> VALUE_INTEGER (word_of_nat (array_count t))" "w = VALUE_NIL"
    | "?k \<noteq> VALUE_INTEGER (word_of_nat (array_count t))" "w \<noteq> VALUE_NIL" by blast
  then show ?thesis
  proof cases
    case 1
    then show ?thesis
      using set_append_ok [OF ok f a, of w] k(1) None by (simp add: lhat_table_set_def Let_def named_none)
  next
    case 2
    then show ?thesis
      using set_remove_ok [OF ok k(2) none] k(1) None by (simp add: lhat_table_set_def Let_def named_none)
  next
    case 3
    then show ?thesis
      using set_entry_ok [OF ok k(2) none n 3(1) a, of w] k(1) None by (simp add: lhat_table_set_def Let_def named_none)
  qed
qed

end
