(* ===== verification/Lhat_TableOps.thy ===== *)
theory Lhat_TableOps
  imports Lhat_TableSet
begin

text \<open>
  Reading, the lookup by bytes, seats, resizing and walking.
\<close>

subsection \<open>Reading\<close>

definition answer_value :: "(LhatValue \<times> nat option) option \<Rightarrow> LhatValue" where
  "answer_value r = (case r of Some (v, at) \<Rightarrow> v | None \<Rightarrow> VALUE_NIL)"

lemma own_hashed_ok:
  assumes s: "table_shape st t" and k: "storable_key st k"
    and agree: "\<And>e. e \<in> set (tb_entries t) \<Longrightarrow> live_entry e \<Longrightarrow> matches (fst e) = lhat_value_equal st (fst e) k"
  shows "\<exists>r. own_hashed t matches (hash_key st k) = Some r \<and>
    answer_value r = (case held st (tb_entries t) k of Some v \<Rightarrow> v | None \<Rightarrow> VALUE_NIL) \<and>
    own_hashed t matches (hash_key st k) =
      own_hashed t (\<lambda>h. lhat_value_equal st h k) (hash_key st k)"
proof (cases "entry_capacity t = 0")
  case True
  then show ?thesis by (simp add: own_hashed_def answer_value_def held_at_def)
next
  case False
  note ok = shapeD(1) [OF s False]
  show ?thesis
  proof (cases "held st (tb_entries t) k")
    case None
    note absent = value_keys.probe_absent [OF ok k _ None shape_free [OF s False]]
    obtain i where i: "probe_spelt (tb_entries t) matches (hash_key st k) = Some i" "\<not> live_entry (tb_entries t ! i)"
      by (rule absent [OF agree]) auto
    obtain j where j: "probe_spelt (tb_entries t) (\<lambda>h. lhat_value_equal st h k) (hash_key st k) = Some j"
      "\<not> live_entry (tb_entries t ! j)"
      by (rule absent [OF refl]) auto
    have "own_hashed t matches (hash_key st k) = Some None"
      "own_hashed t (\<lambda>h. lhat_value_equal st h k) (hash_key st k) = Some None"
      using i j False by (auto simp: own_hashed_def live_entry_def split: prod.splits)
    then show ?thesis using None by (simp add: answer_value_def)
  next
    case (Some v)
    then obtain i where i: "i < entry_capacity t" "live_entry (tb_entries t ! i)"
      "lhat_value_equal st (fst (tb_entries t ! i)) k" "v = snd (tb_entries t ! i)"
      by (rule value_keys.held_at_some)
    have "probe_spelt (tb_entries t) matches (hash_key st k) = Some i"
      "probe_spelt (tb_entries t) (\<lambda>h. lhat_value_equal st h k) (hash_key st k) = Some i"
      by (rule value_keys.probe_there [OF ok k _ i(1-3)]; use agree in auto)+
    then show ?thesis
      using False i Some by (auto simp: own_hashed_def live_entry_def answer_value_def split: prod.splits)
  qed
qed

lemma own_get_ok:
  assumes s: "table_shape st t" and k: "storable_key st k"
  shows "\<exists>r. own_get st t k = Some r \<and> answer_value r = table_value st t (named_key t k)"
proof (cases "array_index t k")
  case None
  then show ?thesis
    using own_hashed_ok [OF s k, of "\<lambda>h. lhat_value_equal st h k"] index_none [OF None]
    by (auto simp: own_get_def table_value_def named_none)
next
  case (Some i)
  then show ?thesis by (simp add: own_get_def table_value_def answer_value_def index_named)
qed

text \<open>A string of the store carries the hash of its bytes (\<open>lhat_string_new\<close>).\<close>

definition strings_hashed :: "LhatStore \<Rightarrow> bool" where
  "strings_hashed st \<longleftrightarrow> (\<forall>a text hash. st_content st a = CONTENT_STRING text hash \<longrightarrow> hash = lhat_string_hash text)"

lemma spells_equal:
  assumes h: "strings_hashed st" and a: "st_content st a = CONTENT_STRING text hash"
  shows "spells st k text \<longleftrightarrow> lhat_value_equal st k (VALUE_OBJECT (Some a))"
proof (cases k)
  case (VALUE_OBJECT p)
  have hashed: "y = lhat_string_hash s" if "st_content st b = CONTENT_STRING s y" for b s y
    using h that by (simp add: strings_hashed_def)
  show ?thesis
  proof (cases p)
    case (Some b)
    then show ?thesis
      using a hashed [of a] hashed [of b] VALUE_OBJECT
      by (cases "st_content st b") (auto simp: spells_def object_equal_def lhat_string_equal_def)
  qed (use VALUE_OBJECT in \<open>simp add: spells_def\<close>)
qed (simp_all add: spells_def)

lemma string_storable:
  "st_content st a = CONTENT_STRING text hash \<Longrightarrow>
   storable_key st (VALUE_OBJECT (Some a))"
  by (simp add: storable_key_def normalise_key_def)

lemma get_bytes_ok:
  assumes ok: "table_ok st t" and h: "strings_hashed st" and a: "st_content st a = CONTENT_STRING text hash"
  shows "own_get_bytes st t text = own_get st t (VALUE_OBJECT (Some a))"
    "own_get_bytes st t text \<noteq> None"
proof -
  let ?k = "VALUE_OBJECT (Some a)"
  have s: "table_shape st t" using ok by (simp_all add: table_ok_def)
  have k: "storable_key st ?k" by (rule string_storable [OF a])
  have hash: "hash_key st ?k = lhat_string_hash text" using h a by (simp add: strings_hashed_def)
  note r = own_hashed_ok [OF s k spells_equal [OF h a]]
  show "own_get_bytes st t text = own_get st t ?k" "own_get_bytes st t text \<noteq> None"
    using r unfolding own_get_bytes_def own_get_def hash by auto
qed

subsection \<open>Seats\<close>

lemma put_seat_value:
  assumes "\<And>j. storable_key st j \<Longrightarrow> held st (tb_entries t') j =
      (if lhat_value_equal st k j then Some VALUE_NIL else held st (tb_entries t) j)"
    "held st (tb_entries t) k = None" "storable_key st k" "int_index t k = None"
    "tb_array t' = tb_array t" "table_link t' = table_link t"
  shows "stored st t t' k VALUE_NIL"
  using assms by (intro stored_hash [where v = "Some VALUE_NIL"]) simp_all

text \<open>Reserving a key lays a seat where nothing is held, and changes no value.  The position after the
run is the one key that a caller must not reserve.\<close>

lemma reserve_ok:
  assumes ok: "table_ok st t" and a: "ample st" and n: "array_count t < 2 ^ 63"
    and k: "usable_key key" "storable_key st (normalise_key st key)"
    and next': "normalise_key st key \<noteq> VALUE_INTEGER (word_of_nat (array_count t))"
  shows "\<exists>t'. lhat_table_reserve st t key = Some (True, t') \<and> table_ok st t' \<and>
    (\<forall>j. storable_key st j \<longrightarrow> table_value st t' j = table_value st t j)"
proof -
  let ?k = "normalise_key st key"
  have s: "table_shape st t" and keys: "keys_from (Suc (array_count t)) t"
    using ok by (simp_all add: table_ok_def)
  note sk = k(2)
  show ?thesis
  proof (cases "array_index t ?k")
    case (Some i)
    then show ?thesis using k ok by (simp add: lhat_table_reserve_def Let_def)
  next
    case whole: None
    note none = index_none [OF whole]
    show ?thesis
    proof (cases "held st (tb_entries t) ?k")
      case (Some v)
      obtain i where i: "probe st (tb_entries t) ?k (hash_key st ?k) = Some i" "i < entry_capacity t"
        "live_entry (tb_entries t ! i)"
        by (rule probe_held [OF s sk Some])
      moreover have "entry_capacity t \<noteq> 0" using i(2) by linarith
      ultimately show ?thesis using k ok whole by (simp add: lhat_table_reserve_def Let_def live_entry_def)
    next
      case None
      have there: "(if entry_capacity t = 0 then Some False
          else do { at \<leftarrow> probe st (tb_entries t) ?k (hash_key st ?k);
                    Some (\<not> lhat_is_nil (fst (tb_entries t ! at))) }) = Some False"
      proof (cases "entry_capacity t = 0")
        case False
        obtain i where "probe st (tb_entries t) ?k (hash_key st ?k) = Some i" "\<not> live_entry (tb_entries t ! i)"
          by (rule probe_not_held [OF s sk None False])
        then show ?thesis using False by (simp add: live_entry_def)
      qed simp
      obtain t1 where t1: "entry_room st t = Some (True, t1)" "table_shape st t1" "same_hash st t t1"
        "entry_capacity t1 \<noteq> 0" "load_ok (entry_capacity t1) (tb_entry_count t1 + tb_entry_tombs t1 + 1)"
        "keys_from (Suc (array_count t)) t1"
        using entry_room_ok [OF s a] keys by blast
      have same: "held st (tb_entries t1) j = held st (tb_entries t) j" if "storable_key st j" for j
        using t1(3) that by (simp add: same_hash_def)
      have rest: "tb_array t1 = tb_array t" "table_link t1 = table_link t"
        using t1(3) by (simp_all add: same_hash_def)
      have none1: "held st (tb_entries t1) ?k = None" using same [OF sk] None by simp
      obtain i where i: "probe st (tb_entries t1) ?k (hash_key st ?k) = Some i" "i < entry_capacity t1"
        "\<not> live_entry (tb_entries t1 ! i)" "reached (tb_entries t1) (hash_key st ?k) i"
        by (rule probe_not_held [OF t1(2) sk none1 t1(4)])
      define t' where "t' = put_entry (claim_entry t1 i) i ?k VALUE_NIL"
      note p = put_claim [OF t1(2) sk none1 t1(5) i(2-4), where v = VALUE_NIL, folded t'_def]
      have fields: "tb_array t' = tb_array t" "table_link t' = table_link t"
        using rest by (simp_all add: t'_def put_entry_def claim_entry_def table_link_def)
      have off: "?k = VALUE_INTEGER j \<Longrightarrow> sint j < 0 \<or> Suc (array_count t) \<le> unat j" for j
        using beyond_next [of t j] none n next' by simp
      have "table_ok st t'"
        using p(1) put_keys(2) [OF t1(6) off, where i = i and v = VALUE_NIL] fields by (simp add: table_ok_def t'_def)
      moreover have "stored st t t' ?k VALUE_NIL"
        using p(3) same None k(2) none fields by (intro put_seat_value) (simp_all add:)
      moreover have "table_value st t ?k = VALUE_NIL" using none None by (simp add: table_value_def)
      moreover have "table_value st t j = VALUE_NIL" if "storable_key st j" "lhat_value_equal st ?k j" for j
      proof -
        have sj: "storable_key st j" using that by simp
        have "held st (tb_entries t) j = None"
          using held_cong [OF s sk sj that(2)] None by simp
        moreover have "int_index t j = None"
          using that(1)
        proof (cases rule: key_cases)
          case (1 h)
          then have "?k = j" using int_equal(1) [of st ?k h] sk sj that(2) by simp
          then show ?thesis using none by simp
        qed simp
        ultimately show ?thesis by (simp add: table_value_def)
      qed
      moreover have "lhat_table_reserve st t key = Some (True, t')"
        using k(1) whole there t1(1) i(1) by (simp add: lhat_table_reserve_def Let_def t'_def)
      ultimately show ?thesis by (auto simp: stored_def)
    qed
  qed
qed

end
