(* ===== verification/Lhat_TableWalk.thy ===== *)
theory Lhat_TableWalk
  imports Lhat_TableOps
begin

text \<open>
  Resizing the dense half, and the walk over a table.
\<close>

subsection \<open>Resizing\<close>

lemma shorten_take: "shorten_array xs n = take n xs"
proof (induction xs n rule: shorten_array.induct)
  case (1 xs n)
  show ?case
  proof (cases "n < length xs")
    case True
    then show ?thesis
      using 1 by (subst shorten_array.simps) (auto simp: butlast_conv_take min_def)
  next
    case False
    then show ?thesis by (subst shorten_array.simps) simp
  qed
qed

lemma int_index_is:
  "int_index t k =
     (case key_position k of Some p \<Rightarrow> if p < array_count t then Some p else None | None \<Rightarrow> None)"
  by (cases k) (auto simp: position_in_def)

lemma position_key:
  assumes "key_position k = Some p"
  shows "k = VALUE_INTEGER (word_of_nat p)"
  using assms by (cases k) (auto split: if_splits)

lemma position_of_nat: "p < 2 ^ 63 \<Longrightarrow> key_position (VALUE_INTEGER (word_of_nat p)) = Some p"
  using position_word [of p "word_of_nat p"] by auto

lemma push_value:
  assumes e: "tb_entries t' = tb_entries t" "tb_array t' = tb_array t @ [v]"
  shows "table_value st t' k = (if key_position k = Some (array_count t) then v else table_value st t k)"
  using int_index_is [of t' k] int_index_is [of t k] e
  by (auto simp: table_value_def nth_append split: option.splits)

lemma lengthen_ok:
  assumes "table_shape st t" "keys_from (array_count t) t" "ample st"
    "array_count t + m + tb_entry_count t < 2 ^ 63 - 1"
  shows "\<exists>t'. lengthen_array st m fill t = Some (True, t') \<and> table_shape st t' \<and>
    keys_from (array_count t') t' \<and> array_count t' = array_count t + m \<and>
    tb_entry_count t' \<le> tb_entry_count t \<and> table_link t' = table_link t \<and>
    (\<forall>k. storable_key st k \<longrightarrow> table_value st t' k =
      (if (\<exists>p. key_position k = Some p \<and> array_count t \<le> p \<and> p < array_count t + m) \<and>
          held st (tb_entries t) k = None then fill else table_value st t k))"
  using assms
proof (induction m arbitrary: t)
  case 0
  then show ?case by auto
next
  case (Suc m)
  note s = Suc.prems(1)
  let ?n = "VALUE_INTEGER (word_of_nat (array_count t))"
  have n: "array_count t < 2 ^ 63 - 1" using Suc.prems(4) by simp
  obtain c' where room: "array_room st t = (True, t\<lparr>tb_array_capacity := c'\<rparr>)" by (rule room_ample [OF Suc.prems(3)])
  let ?t = "t\<lparr>tb_array_capacity := c'\<rparr>"
  have step: "\<exists>t1. lengthen_array st (Suc m) fill t = lengthen_array st m fill t1 \<and> table_shape st t1 \<and>
    keys_from (array_count t1) t1 \<and> array_count t1 = Suc (array_count t) \<and>
    tb_entry_count t1 \<le> tb_entry_count t \<and> table_link t1 = table_link t \<and>
    (\<forall>k. storable_key st k \<longrightarrow> table_value st t1 k =
      (if k = ?n \<and> held st (tb_entries t) ?n = None then fill else table_value st t k)) \<and>
    (\<forall>k. storable_key st k \<longrightarrow> k \<noteq> ?n \<longrightarrow> held st (tb_entries t1) k = held st (tb_entries t) k)"
  proof (cases "held st (tb_entries t) ?n")
    case None
    then have f: "find_entry st ?t (array_count ?t) = Some None"
      using find_entry_none [of st ?t "array_count t"] shape_cong(1) [of ?t t] s by simp
    let ?t1 = "array_push ?t fill"
    have fields: "tb_entries ?t1 = tb_entries t" "tb_entry_count ?t1 = tb_entry_count t"
      "tb_entry_tombs ?t1 = tb_entry_tombs t" "tb_array ?t1 = tb_array t @ [fill]" "table_link ?t1 = table_link t"
      by (simp_all add: array_push_def table_link_def)
    have "lengthen_array st (Suc m) fill t = lengthen_array st m fill ?t1" using room f by simp
    moreover have "keys_from (array_count ?t1) ?t1"
      using keys_from_Suc [OF Suc.prems(2) None] n shape_cong(2) [OF fields(1)] fields(4) by simp
    moreover have "table_value st ?t1 k =
        (if k = ?n \<and> held st (tb_entries t) ?n = None then fill else table_value st t k)"
      if k: "storable_key st k" for k
    proof -
      have "array_count t < 2 ^ 63" using n by simp
      then have "key_position k = Some (array_count t) \<longleftrightarrow> k = ?n"
        using position_key [of k "array_count t"] position_of_nat [of "array_count t"] by blast
      then show ?thesis using push_value [OF fields(1,4)] None by simp
    qed
    ultimately show ?thesis
      using shape_cong(1) [OF fields(1-3)] s fields by (intro exI [of _ ?t1]) simp
  next
    case (Some v)
    have s': "table_shape st ?t" using shape_cong(1) [of ?t t] s by simp
    have "held st (tb_entries ?t) ?n = Some v" using Some by simp
    then obtain i where i: "find_entry st ?t (array_count t) = Some (Some i)" "i < entry_capacity ?t"
      "live_entry (tb_entries ?t ! i)" "fst (tb_entries ?t ! i) = ?n"
      by (rule find_entry_held [OF s'])
    define t1 where "t1 = array_push (snd (take_entry ?t i)) (fst (take_entry ?t i))"
    have i': "i < entry_capacity t" "live_entry (tb_entries t ! i)" "fst (tb_entries t ! i) = ?n"
      using i by simp_all
    note p = take_push [OF s n Suc.prems(2) i', where c' = c', folded t1_def]
    have "lengthen_array st (Suc m) fill t = lengthen_array st m fill t1"
      using room i(1) by (simp add: t1_def split: prod.splits)
    moreover have "held st (tb_entries t1) k = held st (tb_entries t) k" if "storable_key st k" "k \<noteq> ?n" for k
    proof -
      have sk: "storable_key st k" using that by simp
      show ?thesis
        using bury_shape(2) [OF s i'(1,2) sk] int_equal(2) [OF sk int_storable] i'(3) that(2)
        by (simp add: t1_def array_push_def take_entry_def bury_def)
    qed
    ultimately show ?thesis using p Some by (intro exI [of _ t1]) simp
  qed
  then obtain t1 where t1: "lengthen_array st (Suc m) fill t = lengthen_array st m fill t1" "table_shape st t1"
    "keys_from (array_count t1) t1" "array_count t1 = Suc (array_count t)"
    "tb_entry_count t1 \<le> tb_entry_count t" "table_link t1 = table_link t"
    "\<And>k. storable_key st k \<Longrightarrow> table_value st t1 k =
      (if k = ?n \<and> held st (tb_entries t) ?n = None then fill else table_value st t k)"
    "\<And>k. storable_key st k \<Longrightarrow> k \<noteq> ?n \<Longrightarrow> held st (tb_entries t1) k = held st (tb_entries t) k"
    by blast
  have "array_count t1 + m + tb_entry_count t1 < 2 ^ 63 - 1" using t1(4,5) Suc.prems(4) by simp
  from Suc.IH [OF t1(2) t1(3) Suc.prems(3) this]
  obtain t' where t': "lengthen_array st m fill t1 = Some (True, t')" "table_shape st t'"
    "keys_from (array_count t') t'" "array_count t' = array_count t1 + m"
    "tb_entry_count t' \<le> tb_entry_count t1" "table_link t' = table_link t1"
    "\<And>k. storable_key st k \<Longrightarrow> table_value st t' k =
      (if (\<exists>p. key_position k = Some p \<and> array_count t1 \<le> p \<and> p < array_count t1 + m) \<and>
          held st (tb_entries t1) k = None then fill else table_value st t1 k)"
    by blast
  have "table_value st t' k =
      (if (\<exists>p. key_position k = Some p \<and> array_count t \<le> p \<and> p < array_count t + Suc m) \<and>
          held st (tb_entries t) k = None then fill else table_value st t k)" if k: "storable_key st k" for k
  proof (cases "k = ?n")
    case True
    then have p: "key_position k = Some (array_count t)" using position_of_nat n by simp
    then show ?thesis using t'(7) [OF k] t1(7) [OF k] t1(4) True by simp
  next
    case False
    then have "key_position k \<noteq> Some (array_count t)" using position_key by blast
    then have iff: "(\<exists>p. key_position k = Some p \<and> array_count t1 \<le> p \<and> p < array_count t1 + m) \<longleftrightarrow>
      (\<exists>p. key_position k = Some p \<and> array_count t \<le> p \<and> p < array_count t + Suc m)"
      unfolding t1(4) by (auto simp: Suc_le_eq order_le_less)
    have same: "table_value st t1 k = table_value st t k" "held st (tb_entries t1) k = held st (tb_entries t) k"
      using t1(7,8) [OF k] False by simp_all
    show ?thesis using t'(7) [OF k] unfolding iff same .
  qed
  then show ?case using t1 t' by (intro exI [of _ t']) simp
qed

text \<open>A resized run is as long as was asked, or longer by what was waiting behind it.\<close>

theorem resize_ok:
  assumes ok: "table_ok st t" and a: "ample st" and f: "table_fits t" "len + tb_entry_count t < 2 ^ 63 - 1"
  shows "\<exists>t'. lhat_table_resize st t len fill = Some (True, t') \<and> table_ok st t' \<and>
    len \<le> array_count t' \<and> table_link t' = table_link t \<and>
    (\<forall>k. storable_key st k \<longrightarrow> table_value st t' k =
      (case key_position k of
         Some p \<Rightarrow>
           if len \<le> p \<and> p < array_count t then VALUE_NIL
           else if array_count t \<le> p \<and> p < len \<and> held st (tb_entries t) k = None then fill
           else table_value st t k
       | None \<Rightarrow> table_value st t k))"
proof -
  have s: "table_shape st t" and keys: "keys_from (Suc (array_count t)) t"
    using ok by (simp_all add: table_ok_def)
  have n: "array_count t < 2 ^ 63" using f(1) by (simp add: table_fits_def)
  define t0 where "t0 = t\<lparr>tb_array := take len (tb_array t)\<rparr>"
  have fields: "tb_entries t0 = tb_entries t" "tb_entry_count t0 = tb_entry_count t"
    "tb_entry_tombs t0 = tb_entry_tombs t" "table_link t0 = table_link t"
    by (simp_all add: t0_def table_link_def)
  have count: "array_count t0 = min (array_count t) len" by (simp add: t0_def)
  have s0: "table_shape st t0" using s shape_cong(1) [OF fields(1-3)] by blast
  have k0: "keys_from (array_count t0) t0"
    using keys_from_mono [OF keys, of "array_count t0"] shape_cong(2) [OF fields(1)] count by simp
  have room: "array_count t0 + (len - array_count t0) + tb_entry_count t0 < 2 ^ 63 - 1"
    using f count fields(2) by (auto simp: table_fits_def min_def)
  have v0: "table_value st t0 k = (case key_position k of
      Some p \<Rightarrow> if len \<le> p \<and> p < array_count t then VALUE_NIL else table_value st t k
    | None \<Rightarrow> table_value st t k)" if k: "storable_key st k" for k
  proof (cases "key_position k")
    case None
    then show ?thesis
      using int_index_is [of _ k] fields by (simp add: table_value_def)
  next
    case (Some p)
    have "held st (tb_entries t) k = None" if "p < array_count t"
      using keys_from_not_held [OF keys, of p] that n position_key [OF Some] shapeD(1) [OF s] by force
    then show ?thesis
      using int_index_is [of t0 k] int_index_is [of t k] Some fields count
      by (auto simp: table_value_def t0_def)
  qed
  obtain t1 where t1: "lengthen_array st (len - array_count t0) fill t0 = Some (True, t1)" "table_shape st t1"
    "keys_from (array_count t1) t1" "array_count t1 = array_count t0 + (len - array_count t0)"
    "tb_entry_count t1 \<le> tb_entry_count t0" "table_link t1 = table_link t0"
    "\<And>k. storable_key st k \<Longrightarrow> table_value st t1 k =
      (if (\<exists>p. key_position k = Some p \<and> array_count t0 \<le> p \<and> p < array_count t0 + (len - array_count t0)) \<and>
          held st (tb_entries t0) k = None then fill else table_value st t0 k)"
    using lengthen_ok [OF s0 k0 a room] by blast
  have "array_count t1 + tb_entry_count t1 < 2 ^ 63 - 1" using room t1(4,5) by simp
  from drain_ok [OF t1(2) this t1(3) a]
  obtain t' where t': "drain_into_array st t1 = Some t'" "table_ok st t'" "same_store st t1 t'"
    "array_count t1 \<le> array_count t'" by blast
  have "lhat_table_resize st t len fill = Some (True, t')"
    using t1(1) t'(1) by (simp add: lhat_table_resize_def shorten_take t0_def [symmetric])
  moreover have "len \<le> array_count t'" using t1(4) t'(4) count by simp
  moreover have "table_value st t' k = (case key_position k of
         Some p \<Rightarrow>
           if len \<le> p \<and> p < array_count t then VALUE_NIL
           else if array_count t \<le> p \<and> p < len \<and> held st (tb_entries t) k = None then fill
           else table_value st t k
       | None \<Rightarrow> table_value st t k)" if k: "storable_key st k" for k
  proof -
    have "table_value st t' k = table_value st t1 k" using t'(3) k by (simp add: same_store_def)
    then show ?thesis
      using t1(7) [OF k] v0 [OF k] count fields(1) by (cases "key_position k") (auto simp: min_def)
  qed
  ultimately show ?thesis
    using t'(2,3) t1(6) fields(4) by (intro exI [of _ t']) (simp add: same_store_def)
qed

subsection \<open>Walking\<close>

definition walk_start :: "LhatWalkCursor" where
  "walk_start = \<lparr>wk_part = LHAT_WALK_PAIR, wk_at_array = 0, wk_at_entry = 0\<rparr>"

text \<open>What a walk answers until it answers nothing more, with the calls it may take.\<close>

fun walk_all :: "nat \<Rightarrow> LhatTable \<Rightarrow> LhatWalkCursor \<Rightarrow> (LhatValue \<times> LhatValue) list option" where
  "walk_all 0 t w = None"
| "walk_all (Suc calls) t w =
     (case lhat_table_walk t w of
        (w', None) \<Rightarrow> Some []
      | (w', Some pair) \<Rightarrow> map_option ((#) pair) (walk_all calls t w'))"

lemma walk_entries_none:
  "filter live_entry es = [] \<Longrightarrow> walk_entries es at = (at + length es, None)"
  by (induction es at rule: walk_entries.induct) (auto simp: live_entry_def split: if_splits)

lemma walk_entries_some:
  "filter live_entry es = e # rest \<Longrightarrow>
   \<exists>d \<le> length es. walk_entries es at = (at + d, Some e) \<and> filter live_entry (drop d es) = rest"
proof (induction es at rule: walk_entries.induct)
  case (2 k v es at)
  have l: "live_entry (k, v) \<longleftrightarrow> k \<noteq> VALUE_NIL" by (simp add: live_entry_def)
  show ?case
  proof (cases "k = VALUE_NIL")
    case True
    then obtain d where "d \<le> length es" "walk_entries es (at + 1) = (at + 1 + d, Some e)"
      "filter live_entry (drop d es) = rest"
      using 2 l by auto
    then show ?thesis using True by (intro exI [of _ "Suc d"]) simp
  next
    case False
    then show ?thesis using 2(2) l by (intro exI [of _ 1]) auto
  qed
qed simp

lemma walk_all_entries:
  assumes "wk_part w = LHAT_WALK_PAIR" "array_count t \<le> wk_at_array w"
    "length (filter live_entry (drop (wk_at_entry w) (tb_entries t))) < calls"
  shows "walk_all calls t w = Some (filter live_entry (drop (wk_at_entry w) (tb_entries t)))"
  using assms
proof (induction calls arbitrary: w)
  case (Suc calls)
  let ?es = "drop (wk_at_entry w) (tb_entries t)"
  show ?case
  proof (cases "filter live_entry ?es")
    case Nil
    then have "walk_entries ?es (wk_at_entry w) = (wk_at_entry w + length ?es, None)"
      by (rule walk_entries_none)
    then show ?thesis using Suc.prems Nil by (simp add: lhat_table_walk_def)
  next
    case (Cons e rest)
    obtain d where d: "walk_entries ?es (wk_at_entry w) = (wk_at_entry w + d, Some e)"
      "filter live_entry (drop d ?es) = rest"
      using walk_entries_some [OF Cons] by blast
    then have step: "lhat_table_walk t w = (w\<lparr>wk_at_entry := wk_at_entry w + d\<rparr>, Some e)"
      using Suc.prems by (simp add: lhat_table_walk_def)
    have rest: "filter live_entry (drop (wk_at_entry w + d) (tb_entries t)) = rest"
      using d(2) by (simp add: add.commute)
    show ?thesis
      using Suc.IH [of "w\<lparr>wk_at_entry := wk_at_entry w + d\<rparr>"] Suc.prems step rest Cons by simp
  qed
qed simp

lemma walk_all_array:
  assumes "wk_part w = LHAT_WALK_PAIR" "wk_at_array w \<le> array_count t" "wk_at_entry w = 0"
    "array_count t - wk_at_array w + live_count (tb_entries t) < calls"
  shows "walk_all calls t w =
    Some (map (walk_position t) [wk_at_array w..<array_count t] @ filter live_entry (tb_entries t))"
  using assms
proof (induction calls arbitrary: w)
  case (Suc calls)
  show ?case
  proof (cases "wk_at_array w < array_count t")
    case True
    then have "lhat_table_walk t w =
        (w\<lparr>wk_at_array := wk_at_array w + 1\<rparr>, Some (walk_position t (wk_at_array w)))"
      using Suc.prems by (simp add: lhat_table_walk_def)
    then show ?thesis
      using Suc.IH [of "w\<lparr>wk_at_array := wk_at_array w + 1\<rparr>"] Suc.prems True
      by (simp add: upt_conv_Cons)
  next
    case False
    then show ?thesis
      using walk_all_entries [of w t "Suc calls"] Suc.prems by (simp add: live_count_def)
  qed
qed simp

end
