(* ===== verification/Lhat_Chain.thy ===== *)
theory Lhat_Chain
  imports Main "HOL-Library.Monad_Syntax"
begin

text \<open>
  The iterator over a singly linked chain that may run into a ring (\<open>src/chain.h\<close>), over any type of
  nodes: a pointer is a node or \<open>None\<close> (NULL).  The two loops that measure the prefix and the ring
  never end on a chain that has none, and a link may not return, so the step is in the option monad;
  the theorem below is that it returns on every chain of finitely many nodes whose links return, and
  that a walk answers each node once.
\<close>

record 'a LhatChain =
  ch_start :: "'a option"
  ch_current :: "'a option"
  ch_slow :: "'a option"
  ch_fast :: "'a option"
  ch_count :: nat
  ch_limit :: "nat option" \<comment> \<open>\<open>None\<close>: \<open>SIZE_MAX\<close>, no limit found yet\<close>

definition lhat_chain :: "'a option \<Rightarrow> 'a LhatChain" where
  "lhat_chain start =
     \<lparr>ch_start = start, ch_current = start, ch_slow = start, ch_fast = start, ch_count = 0,
      ch_limit = None\<rparr>"

text \<open>\<open>walk->next\<close> of a pointer, \<open>NULL\<close> of \<open>NULL\<close>.  A link may not return.\<close>

type_synonym 'a LhatChainNext = "'a \<Rightarrow> 'a option option"

fun follow :: "'a LhatChainNext \<Rightarrow> 'a option \<Rightarrow> 'a option option" where
  "follow link None = Some None"
| "follow link (Some at) = link at"

partial_function (option) chain_prefix ::
  "'a LhatChainNext \<Rightarrow> 'a option \<Rightarrow> 'a option \<Rightarrow> nat \<Rightarrow> ('a option \<times> nat) option" where
  "chain_prefix link entry meet prefix =
     (if entry = meet then Some (entry, prefix)
      else do {
        entry \<leftarrow> follow link entry;
        meet \<leftarrow> follow link meet;
        chain_prefix link entry meet (prefix + 1)
      })"

partial_function (option) chain_ring ::
  "'a LhatChainNext \<Rightarrow> 'a option \<Rightarrow> 'a option \<Rightarrow> nat \<Rightarrow> nat option" where
  "chain_ring link entry meet ring =
     (if meet = entry then Some ring
      else do {
        meet \<leftarrow> follow link meet;
        chain_ring link entry meet (ring + 1)
      })"

declare chain_prefix.simps [code] chain_ring.simps [code]

definition chain_limit :: "'a LhatChainNext \<Rightarrow> 'a option \<Rightarrow> 'a option \<Rightarrow> nat option" where
  "chain_limit link start slow = do {
     (entry, prefix) \<leftarrow> chain_prefix link start slow 0;
     meet \<leftarrow> follow link entry;
     ring \<leftarrow> chain_ring link entry meet 1;
     Some (prefix + ring)
   }"

definition lhat_chain_next ::
  "'a LhatChainNext \<Rightarrow> 'a LhatChain \<Rightarrow> ('a LhatChain \<times> 'a option) option" where
  "lhat_chain_next link walk =
     (let at = ch_current walk
      in if at = None \<or> Some (ch_count walk) = ch_limit walk then Some (walk, None)
         else do {
           current \<leftarrow> follow link at;
           let walk = walk\<lparr>ch_current := current, ch_count := ch_count walk + 1\<rparr>;
           if ch_fast walk \<noteq> None \<and> ch_limit walk = None then do {
             slow \<leftarrow> follow link (ch_slow walk);
             fast \<leftarrow> follow link (ch_fast walk);
             fast \<leftarrow> follow link fast;
             let walk = walk\<lparr>ch_slow := slow, ch_fast := fast\<rparr>;
             if fast \<noteq> None \<and> slow = fast then do {
               limit \<leftarrow> chain_limit link (ch_start walk) slow;
               Some (walk\<lparr>ch_limit := Some limit\<rparr>, at)
             }
             else Some (walk, at)
           }
           else Some (walk, at)
         })"

text \<open>The nodes a walk answers, with the calls it may take.\<close>

fun chain_all :: "'a LhatChainNext \<Rightarrow> nat \<Rightarrow> 'a LhatChain \<Rightarrow> 'a list option" where
  "chain_all link 0 walk = None"
| "chain_all link (Suc calls) walk = do {
     (walk, found) \<leftarrow> lhat_chain_next link walk;
     case found of
       None \<Rightarrow> Some []
     | Some at \<Rightarrow> map_option ((#) at) (chain_all link calls walk)
   }"

text \<open>A link that returns from every node.\<close>

abbreviation returning :: "('a \<Rightarrow> 'a option) \<Rightarrow> 'a LhatChainNext" where
  "returning link \<equiv> \<lambda>at. Some (link at)"

lemma follow_returning [simp]: "follow (returning link) p = Some (Option.bind p link)"
  by (cases p) simp_all

text \<open>The node that lies \<open>i\<close> links from the start.\<close>

fun chain_at :: "('a \<Rightarrow> 'a option) \<Rightarrow> 'a option \<Rightarrow> nat \<Rightarrow> 'a option" where
  "chain_at link start 0 = start"
| "chain_at link start (Suc i) = Option.bind (chain_at link start i) link"

definition chain_nodes :: "('a \<Rightarrow> 'a option) \<Rightarrow> 'a option \<Rightarrow> 'a set" where
  "chain_nodes link start = {x. \<exists>i. chain_at link start i = Some x}"

subsection \<open>Chains that end\<close>

lemma chain_at_none: "chain_at link start i = None \<Longrightarrow> i \<le> j \<Longrightarrow> chain_at link start j = None"
  by (induction j) (auto simp: le_Suc_eq)

lemma chain_at_shift:
  "chain_at link start i = chain_at link start j \<Longrightarrow> chain_at link start (i + k) = chain_at link start (j + k)"
  by (induction k) auto

text \<open>Where two links are the same node the chain never ends.\<close>

lemma ring_no_end:
  assumes "chain_at link start i = chain_at link start j" "i < j" "chain_at link start j \<noteq> None"
  shows "chain_at link start k \<noteq> None"
proof -
  have "chain_at link start (i + n * (j - i)) \<noteq> None" for n
  proof (induction n)
    case 0
    then show ?case using assms(1,3) by simp
  next
    case (Suc n)
    have "chain_at link start (i + n * (j - i)) = chain_at link start (j + n * (j - i))"
      by (rule chain_at_shift [OF assms(1)])
    moreover have "j + n * (j - i) = i + Suc n * (j - i)" using assms(2) by simp
    ultimately show ?case using Suc by metis
  qed
  then have "chain_at link start (i + k * (j - i)) \<noteq> None" .
  moreover have "k \<le> i + k * (j - i)"
    using mult_le_mono2 [of 1 "j - i" k] assms(2) by linarith
  ultimately show ?thesis using chain_at_none [of link start k "i + k * (j - i)"] by metis
qed

text \<open>The state before the \<open>c\<close>th call, while no ring has been met.\<close>

definition chasing :: "('a \<Rightarrow> 'a option) \<Rightarrow> 'a option \<Rightarrow> nat \<Rightarrow> 'a LhatChain \<Rightarrow> bool" where
  "chasing link start c walk \<longleftrightarrow>
     ch_start walk = start \<and> ch_current walk = chain_at link start c \<and> ch_count walk = c \<and>
     ch_limit walk = None \<and>
     (ch_fast walk = None \<and> chain_at link start (2 * c) = None \<or>
      ch_slow walk = chain_at link start c \<and> ch_fast walk = chain_at link start (2 * c))"

lemma chasing_start: "chasing link start 0 (lhat_chain start)"
  by (simp add: chasing_def lhat_chain_def)

lemma chasing_step:
  assumes w: "chasing link start c walk" and at: "chain_at link start c = Some x"
  shows "if chain_at link start (2 * Suc c) \<noteq> None \<and>
      chain_at link start (Suc c) = chain_at link start (2 * Suc c)
    then lhat_chain_next (returning link) walk = do {
        limit \<leftarrow> chain_limit (returning link) start (chain_at link start (Suc c));
        Some (\<lparr>ch_start = start, ch_current = chain_at link start (Suc c),
          ch_slow = chain_at link start (Suc c), ch_fast = chain_at link start (2 * Suc c),
          ch_count = Suc c, ch_limit = Some limit\<rparr>, Some x)
      }
    else \<exists>walk'. lhat_chain_next (returning link) walk = Some (walk', Some x) \<and> chasing link start (Suc c) walk'"
proof -
  define S where "S = chain_at link start (Suc c)"
  define F where "F = chain_at link start (2 * Suc c)"
  have f: "Option.bind (Option.bind (chain_at link start (2 * c)) link) link = F"
    by (simp add: F_def)
  have s: "link x = S" using at by (simp add: S_def)
  show ?thesis
  proof (cases "ch_fast walk = None")
    case True
    then have n: "chain_at link start (2 * c) = None" using w by (auto simp: chasing_def)
    then have F: "F = None" using f by simp
    let ?w = "walk\<lparr>ch_current := S, ch_count := Suc c\<rparr>"
    have "lhat_chain_next (returning link) walk = Some (?w, Some x)"
      using w at True s by (simp add: chasing_def lhat_chain_next_def Let_def)
    moreover have "chasing link start (Suc c) ?w"
      using w True F unfolding chasing_def F_def S_def by (simp del: chain_at.simps mult_Suc_right)
    ultimately show ?thesis using F unfolding F_def by simp
  next
    case False
    then have walk: "walk = \<lparr>ch_start = start, ch_current = Some x, ch_slow = Some x,
        ch_fast = chain_at link start (2 * c), ch_count = c, ch_limit = None\<rparr>"
      using w at by (cases walk) (auto simp: chasing_def)
    have some: "chain_at link start (2 * c) \<noteq> None" using False walk by simp
    then obtain y where y: "chain_at link start (2 * c) = Some y" by blast
    have f': "Option.bind (link y) link = F" using f y by simp
    let ?w = "\<lparr>ch_start = start, ch_current = S, ch_slow = S, ch_fast = F, ch_count = Suc c, ch_limit = None\<rparr>"
    have step: "lhat_chain_next (returning link) walk =
        (if F \<noteq> None \<and> S = F then do {
           limit \<leftarrow> chain_limit (returning link) start S; Some (?w\<lparr>ch_limit := Some limit\<rparr>, Some x) }
         else Some (?w, Some x))"
      unfolding walk lhat_chain_next_def Let_def using y by (simp add: f' s)
    have chase: "chasing link start (Suc c) ?w"
      unfolding chasing_def F_def S_def by (simp del: chain_at.simps mult_Suc_right)
    show ?thesis
      unfolding F_def [symmetric] S_def [symmetric] step using chase by (cases F) simp_all
  qed
qed

lemma chain_all_ends:
  assumes "chain_at link start n = None" "\<And>i. i < n \<Longrightarrow> chain_at link start i \<noteq> None"
    "chasing link start c walk" "c \<le> n" "n - c < calls"
  shows "chain_all (returning link) calls walk = Some (map (\<lambda>i. the (chain_at link start i)) [c..<n])"
  using assms(3-5)
proof (induction calls arbitrary: c walk)
  case (Suc calls)
  show ?case
  proof (cases "c = n")
    case True
    then show ?thesis
      using Suc.prems(1) assms(1) by (simp add: chasing_def lhat_chain_next_def)
  next
    case False
    then have less: "c < n" using Suc.prems(2) by simp
    then obtain x where x: "chain_at link start c = Some x" using assms(2) by blast
    have "\<not> (chain_at link start (2 * Suc c) \<noteq> None \<and>
        chain_at link start (Suc c) = chain_at link start (2 * Suc c))"
      using ring_no_end [of link start "Suc c" "2 * Suc c" n] assms(1) by auto
    then obtain walk' where "lhat_chain_next (returning link) walk = Some (walk', Some x)" "chasing link start (Suc c) walk'"
      using chasing_step [OF Suc.prems(1) x] by (auto split: if_splits)
    then show ?thesis
      using Suc.IH [of "Suc c" walk'] Suc.prems less x by (simp add: upt_conv_Cons)
  qed
qed simp

subsection \<open>Chains with a ring\<close>

text \<open>The first node that comes again, at \<open>mu\<close>, comes again after \<open>lam\<close> links.\<close>

definition ring_at :: "('a \<Rightarrow> 'a option) \<Rightarrow> 'a option \<Rightarrow> nat \<Rightarrow> nat \<Rightarrow> bool" where
  "ring_at link start mu lam \<longleftrightarrow>
     0 < lam \<and> chain_at link start (mu + lam) = chain_at link start mu \<and>
     inj_on (chain_at link start) {..<mu + lam} \<and> (\<forall>i. chain_at link start i \<noteq> None)"

lemma ring_reduce:
  assumes r: "ring_at link start mu lam" and i: "mu \<le> i"
  shows "chain_at link start i = chain_at link start (mu + (i - mu) mod lam)"
proof -
  have lam: "0 < lam" and again: "chain_at link start (mu + lam) = chain_at link start mu"
    using r by (simp_all add: ring_at_def)
  have "chain_at link start (mu + (d + n * lam)) = chain_at link start (mu + d)" for d n
  proof (induction n)
    case (Suc n)
    have "chain_at link start (mu + lam + (d + n * lam)) = chain_at link start (mu + (d + n * lam))"
      by (rule chain_at_shift [OF again])
    then show ?case using Suc by (simp add: algebra_simps)
  qed simp
  from this [of "(i - mu) mod lam" "(i - mu) div lam"] show ?thesis
    using i by (simp add: mod_div_mult_eq)
qed

lemma ring_same:
  assumes r: "ring_at link start mu lam" and ij: "i < j"
  shows "chain_at link start i = chain_at link start j \<longleftrightarrow> mu \<le> i \<and> lam dvd (j - i)"
proof -
  have lam: "0 < lam" and inj: "inj_on (chain_at link start) {..<mu + lam}"
    using r by (simp_all add: ring_at_def)
  have small: "mu + k mod lam < mu + lam" for k using lam by simp
  show ?thesis
  proof (cases "mu \<le> i")
    case True
    have "chain_at link start i = chain_at link start j \<longleftrightarrow>
        chain_at link start (mu + (i - mu) mod lam) = chain_at link start (mu + (j - mu) mod lam)"
      using ring_reduce [OF r, of i] ring_reduce [OF r, of j] True ij by simp
    also have "\<dots> \<longleftrightarrow> (i - mu) mod lam = (j - mu) mod lam"
      using inj small by (auto dest: inj_onD)
    also have "\<dots> \<longleftrightarrow> lam dvd (j - i)"
      using mod_eq_dvd_iff_nat [of "i - mu" "j - mu" lam] True ij by (simp add: eq_commute)
    finally show ?thesis using True by simp
  next
    case False
    have "chain_at link start i \<noteq> chain_at link start j"
    proof
      assume e: "chain_at link start i = chain_at link start j"
      define j' where "j' = (if j < mu + lam then j else mu + (j - mu) mod lam)"
      have "chain_at link start i = chain_at link start j'" "j' < mu + lam" "i < j'"
        using e ring_reduce [OF r, of j] small False ij by (auto simp: j'_def)
      then show False using inj_onD [OF inj, of i j'] by simp
    qed
    then show ?thesis using False by simp
  qed
qed

lemma prefix_found:
  assumes r: "ring_at link start mu lam" and c: "0 < c" "lam dvd c" and p: "p \<le> mu"
  shows "chain_prefix (returning link) (chain_at link start p) (chain_at link start (c + p)) p =
    Some (chain_at link start mu, mu)"
  using p
proof (induction "mu - p" arbitrary: p)
  case 0
  then have "p = mu" by simp
  then show ?case
    using ring_same [OF r, of mu "c + mu"] c by (subst chain_prefix.simps) simp
next
  case (Suc k)
  then have "chain_at link start p \<noteq> chain_at link start (c + p)"
    using ring_same [OF r, of p "c + p"] c by simp
  then show ?case
    using Suc.hyps(1) [of "Suc p"] Suc.hyps(2) by (subst chain_prefix.simps) simp
qed

lemma ring_found:
  assumes r: "ring_at link start mu lam" and k: "0 < k" "k \<le> lam"
  shows "chain_ring (returning link) (chain_at link start mu) (chain_at link start (mu + k)) k = Some lam"
  using k
proof (induction "lam - k" arbitrary: k)
  case 0
  then have "k = lam" by simp
  then show ?case
    using r by (subst chain_ring.simps) (simp add: ring_at_def)
next
  case (Suc n)
  then have "chain_at link start (mu + k) \<noteq> chain_at link start mu"
    using ring_same [OF r, of mu "mu + k"] by (metis dvd_imp_le add_diff_cancel_left' eq_commute
        less_add_same_cancel1 linorder_not_less zero_less_diff zero_less_Suc)
  then show ?case
    using Suc.hyps(1) [of "Suc k"] Suc.hyps(2) Suc.prems by (subst chain_ring.simps) simp
qed

lemma limit_found:
  assumes r: "ring_at link start mu lam" and c: "0 < c" "chain_at link start c = chain_at link start (2 * c)"
  shows "chain_limit (returning link) start (chain_at link start c) = Some (mu + lam)"
proof -
  have "lam dvd c" using ring_same [OF r, of c "2 * c"] c by simp
  then have "chain_prefix (returning link) start (chain_at link start c) 0 = Some (chain_at link start mu, mu)"
    using prefix_found [OF r c(1), of 0] by simp
  moreover have "chain_ring (returning link) (chain_at link start mu) (Option.bind (chain_at link start mu) link) 1 = Some lam"
    using ring_found [OF r, of 1] r by (simp add: ring_at_def Suc_le_eq)
  ultimately show ?thesis by (simp add: chain_limit_def)
qed

lemma chain_all_limited:
  assumes r: "ring_at link start mu lam"
    and "ch_current walk = chain_at link start c" "ch_count walk = c" "ch_limit walk = Some (mu + lam)"
    "c \<le> mu + lam" "mu + lam - c < calls"
  shows "chain_all (returning link) calls walk = Some (map (\<lambda>i. the (chain_at link start i)) [c..<mu + lam])"
  using assms(2-)
proof (induction calls arbitrary: c walk)
  case (Suc calls)
  obtain x where x: "chain_at link start c = Some x" using r by (auto simp: ring_at_def)
  show ?case
  proof (cases "c = mu + lam")
    case True
    then show ?thesis using Suc.prems x by (simp add: lhat_chain_next_def)
  next
    case False
    let ?w = "walk\<lparr>ch_current := chain_at link start (Suc c), ch_count := Suc c\<rparr>"
    have "lhat_chain_next (returning link) walk = Some (?w, Some x)"
      using Suc.prems x False by (simp add: lhat_chain_next_def Let_def)
    then show ?thesis
      using Suc.IH [of ?w "Suc c"] Suc.prems x False by (simp add: upt_conv_Cons)
  qed
qed simp

text \<open>The two meet before the walk has gone once around.\<close>

lemma meeting:
  assumes r: "ring_at link start mu lam"
  obtains c where "0 < c" "c \<le> mu + lam" "chain_at link start c = chain_at link start (2 * c)"
proof
  have lam: "0 < lam" using r by (simp add: ring_at_def)
  let ?c = "lam * Suc (mu div lam)"
  show "0 < ?c" using lam by simp
  have "mu div lam * lam \<le> mu" by simp
  then show "?c \<le> mu + lam" by (simp add: mult.commute)
  have "mu < ?c"
    using lam dividend_less_div_times [of lam mu] by (simp add: mult.commute)
  then show "chain_at link start ?c = chain_at link start (2 * ?c)"
    using ring_same [OF r, of ?c "2 * ?c"] lam by simp
qed

lemma chain_all_ring:
  assumes r: "ring_at link start mu lam" and "chasing link start c walk" "c < m" "m \<le> mu + lam"
    and m: "0 < m" "chain_at link start m = chain_at link start (2 * m)"
    and least: "\<And>k. 0 < k \<Longrightarrow> k < m \<Longrightarrow> chain_at link start k \<noteq> chain_at link start (2 * k)"
    and "mu + lam - c < calls"
  shows "chain_all (returning link) calls walk = Some (map (\<lambda>i. the (chain_at link start i)) [c..<mu + lam])"
  using assms(2,3,8)
proof (induction calls arbitrary: c walk)
  case (Suc calls)
  obtain x where x: "chain_at link start c = Some x" using r by (auto simp: ring_at_def)
  have some: "chain_at link start (2 * Suc c) \<noteq> None" using r unfolding ring_at_def by blast
  show ?case
  proof (cases "Suc c = m")
    case True
    let ?w = "\<lparr>ch_start = start, ch_current = chain_at link start (Suc c),
        ch_slow = chain_at link start (Suc c), ch_fast = chain_at link start (2 * Suc c),
        ch_count = Suc c, ch_limit = Some (mu + lam)\<rparr>"
    have "lhat_chain_next (returning link) walk = Some (?w, Some x)"
      using chasing_step [OF Suc.prems(1) x] some m True limit_found [OF r m]
      by (simp only: if_True simp_thms) simp
    moreover have "chain_all (returning link) calls ?w = Some (map (\<lambda>i. the (chain_at link start i)) [Suc c..<mu + lam])"
      using Suc.prems True assms(4) by (intro chain_all_limited [OF r]) simp_all
    ultimately show ?thesis using x True assms(4) by (simp add: upt_conv_Cons)
  next
    case False
    then have "chain_at link start (Suc c) \<noteq> chain_at link start (2 * Suc c)"
      using least [of "Suc c"] Suc.prems(2) by simp
    then obtain walk' where "lhat_chain_next (returning link) walk = Some (walk', Some x)" "chasing link start (Suc c) walk'"
      using chasing_step [OF Suc.prems(1) x] by (auto split: if_splits)
    then show ?thesis
      using Suc.IH [of "Suc c" walk'] Suc.prems False x assms(4) by (simp add: upt_conv_Cons)
  qed
qed simp

lemma ring_exists:
  assumes fin: "finite (chain_nodes link start)" and all: "\<And>i. chain_at link start i \<noteq> None"
  obtains mu lam where "ring_at link start mu lam"
proof -
  have "range (chain_at link start) \<subseteq> Some ` chain_nodes link start"
  proof
    fix p assume "p \<in> range (chain_at link start)"
    then obtain i where "p = chain_at link start i" by blast
    then show "p \<in> Some ` chain_nodes link start"
      using all [of i] by (auto simp: chain_nodes_def)
  qed
  then have "finite (range (chain_at link start))"
    by (rule finite_subset [OF _ finite_imageI [OF fin]])
  then have "\<not> inj (chain_at link start)" using finite_imageD [of "chain_at link start" UNIV] by auto
  then obtain i j where ij: "i \<noteq> j" "chain_at link start i = chain_at link start j"
    unfolding inj_on_def by blast
  then have ex: "\<exists>n m. m < n \<and> chain_at link start m = chain_at link start n"
  proof (cases "i < j")
    case False
    then have "j < i" using ij(1) by simp
    then show ?thesis using ij(2) [symmetric] by blast
  qed (use ij(2) in blast)
  define n where "n = (LEAST n. \<exists>m<n. chain_at link start m = chain_at link start n)"
  have "\<exists>m<n. chain_at link start m = chain_at link start n"
    unfolding n_def by (rule LeastI_ex) (rule ex)
  then obtain m where m: "m < n" "chain_at link start m = chain_at link start n" by blast
  have "inj_on (chain_at link start) {..<n}"
  proof (rule linorder_inj_onI)
    fix i j assume "i < j" "j \<in> {..<n}"
    then have "j < n" by simp
    then have "\<not> (\<exists>m<j. chain_at link start m = chain_at link start j)"
      unfolding n_def by (rule not_less_Least)
    then show "chain_at link start i \<noteq> chain_at link start j" using \<open>i < j\<close> by blast
  qed auto
  then have "ring_at link start m (n - m)"
    using m all by (simp add: ring_at_def)
  then show ?thesis using that by blast
qed

theorem chain_all_once:
  assumes fin: "finite (chain_nodes link start)"
  shows "\<exists>xs. chain_all (returning link) (Suc (card (chain_nodes link start))) (lhat_chain start) = Some xs \<and>
    distinct xs \<and> set xs = chain_nodes link start \<and>
    (\<forall>i<length xs. chain_at link start i = Some (xs ! i))"
proof -
  have finish: ?thesis
    if run: "\<And>calls. n < calls \<Longrightarrow>
          chain_all (returning link) calls (lhat_chain start) = Some (map (\<lambda>i. the (chain_at link start i)) [0..<n])"
      and some: "\<And>i. i < n \<Longrightarrow> chain_at link start i \<noteq> None"
      and inj: "inj_on (chain_at link start) {..<n}"
      and all: "\<And>i x. chain_at link start i = Some x \<Longrightarrow> \<exists>j<n. chain_at link start j = Some x" for n
  proof -
    let ?xs = "map (\<lambda>i. the (chain_at link start i)) [0..<n]"
    have nth: "\<forall>i<length ?xs. chain_at link start i = Some (?xs ! i)" using some by simp
    have set: "set ?xs = chain_nodes link start"
    proof
      show "set ?xs \<subseteq> chain_nodes link start"
      proof
        fix x assume "x \<in> set ?xs"
        then obtain i where "i < n" "x = the (chain_at link start i)" by auto
        then show "x \<in> chain_nodes link start" using some [of i] by (auto simp: chain_nodes_def)
      qed
      show "chain_nodes link start \<subseteq> set ?xs"
      proof
        fix x assume "x \<in> chain_nodes link start"
        then obtain j where "j < n" "chain_at link start j = Some x"
          using all by (auto simp: chain_nodes_def)
        then show "x \<in> set ?xs" by force
      qed
    qed
    have "distinct ?xs"
    proof (unfold distinct_map, intro conjI)
      show "inj_on (\<lambda>i. the (chain_at link start i)) (set [0..<n])"
      proof (rule inj_onI)
        fix i j assume "i \<in> set [0..<n]" "j \<in> set [0..<n]"
          "the (chain_at link start i) = the (chain_at link start j)"
        then have "chain_at link start i = chain_at link start j" "i < n" "j < n"
          using some [of i] some [of j] by auto
        then show "i = j" using inj_onD [OF inj] by simp
      qed
    qed simp
    moreover have "card (chain_nodes link start) = n"
      using distinct_card [OF \<open>distinct ?xs\<close>] set by simp
    ultimately show ?thesis using run [of "Suc n"] nth set by (intro exI [of _ ?xs]) simp
  qed
  show ?thesis
  proof (cases "\<exists>n. chain_at link start n = None")
    case True
    define n where "n = (LEAST n. chain_at link start n = None)"
    have n: "chain_at link start n = None" unfolding n_def using True by (rule LeastI_ex)
    have some: "chain_at link start i \<noteq> None" if "i < n" for i
      using not_less_Least that unfolding n_def by blast
    show ?thesis
    proof (rule finish [of n])
      show "inj_on (chain_at link start) {..<n}"
      proof (rule linorder_inj_onI)
        fix i j assume "i < j" "j \<in> {..<n}"
        then show "chain_at link start i \<noteq> chain_at link start j"
          using ring_no_end [of link start i j n] some [of j] n by auto
      qed auto
      show "\<exists>j<n. chain_at link start j = Some x" if "chain_at link start i = Some x" for i x
        using that chain_at_none [OF n, of i] by (metis linorder_not_less option.distinct(1))
    qed (use some chain_all_ends [OF n some chasing_start] in auto)
  next
    case False
    then have "chain_at link start i \<noteq> None" for i by simp
    then obtain mu lam where r: "ring_at link start mu lam"
      by (rule ring_exists [OF fin])
    define m where "m = (LEAST c. 0 < c \<and> c \<le> mu + lam \<and> chain_at link start c = chain_at link start (2 * c))"
    have m: "0 < m \<and> m \<le> mu + lam \<and> chain_at link start m = chain_at link start (2 * m)"
      unfolding m_def
    proof (rule LeastI_ex, rule meeting [OF r])
      fix c assume "0 < c" "c \<le> mu + lam" "chain_at link start c = chain_at link start (2 * c)"
      then show "\<exists>c. 0 < c \<and> c \<le> mu + lam \<and> chain_at link start c = chain_at link start (2 * c)"
        by (intro exI conjI)
    qed
    have least: "chain_at link start k \<noteq> chain_at link start (2 * k)" if "0 < k" "k < m" for k
      using not_less_Least [OF that(2) [unfolded m_def]] that m by (metis less_imp_le_nat order_trans)
    show ?thesis
    proof (rule finish [of "mu + lam"])
      show "chain_all (returning link) calls (lhat_chain start) =
          Some (map (\<lambda>i. the (chain_at link start i)) [0..<mu + lam])" if "mu + lam < calls" for calls
        using m that by (intro chain_all_ring [OF r chasing_start _ _ _ _ least]) auto
      show "inj_on (chain_at link start) {..<mu + lam}" using r by (simp add: ring_at_def)
      show "chain_at link start i \<noteq> None" for i using r by (simp add: ring_at_def)
      show "\<exists>j<mu + lam. chain_at link start j = Some x" if "chain_at link start i = Some x" for i x
      proof (cases "i < mu + lam")
        case False
        have "0 < lam" using r by (simp add: ring_at_def)
        then have "mu + (i - mu) mod lam < mu + lam" by simp
        then show ?thesis using ring_reduce [OF r, of i] that False by (metis add_leD1 linorder_not_less)
      qed (use that in blast)
    qed
  qed
qed

end
