(* ===== verification/Lhat_TableProps.thy ===== *)
theory Lhat_TableProps
  imports Lhat_TableWalk Lhat_Chain
begin

text \<open>
  The properties of the tables, of the equality of their keys and of the chain iterator, each with a
  closed instance.
\<close>

subsection \<open>A small store\<close>

text \<open>The string \<open>a\<close> at address 1, two equal runtime types at 2 and 3; a conversion that C leaves
undefined gives what x86-64 gives.\<close>

definition sample_text :: "byte list" where
  "sample_text = [0x61]"

definition sample_store :: LhatStore where
  "sample_store =
     \<lparr>st_content = (\<lambda>a. if a = 1 then CONTENT_STRING sample_text (lhat_string_hash sample_text)
        else if a = 2 \<or> a = 3 then CONTENT_TYPE (rt_blank LHAT_TYPE_RT_NUMBER)
        else CONTENT_OTHER),
      st_address = word_of_nat, st_cast = (\<lambda>_. - (2 ^ 63)), st_room = (\<lambda>_. True)\<rparr>"

lemma sample_ample: "ample sample_store"
  by (simp add: ample_def sample_store_def)

lemma new_table_ok: "table_ok st new_table"
  by (simp add: table_ok_def table_shape_def keys_from_def new_table_def)

lemma new_table_value: "table_value st new_table k = VALUE_NIL"
proof -
  have "int_index new_table k = None" by (cases k) (auto simp: new_table_def position_in_def)
  moreover have "held st (tb_entries new_table) k = None"
    by (rule held_empty) (simp add: new_table_def live_count_def)
  ultimately show ?thesis by (simp add: table_value_def)
qed

subsection \<open>A table is a finite map\<close>

datatype TableOp = TABLE_SET LhatValue LhatValue | TABLE_RESERVE LhatValue

text \<open>A write of the program, and what it may be: any but under a key that is a runtime type or the
double whose conversion is undefined, and no seat for the position that the run ends in front of, which
would be out of reach.\<close>

fun table_apply :: "LhatStore \<Rightarrow> LhatTable \<Rightarrow> TableOp \<Rightarrow> LhatTable option" where
  "table_apply st t (TABLE_SET key value) = do {
     answer \<leftarrow> lhat_table_set st t key value;
     if set_done answer then Some (set_table answer) else None
   }"
| "table_apply st t (TABLE_RESERVE key) = do {
     (room, t) \<leftarrow> lhat_table_reserve st t key;
     if room then Some t else None
   }"

fun op_allowed :: "LhatStore \<Rightarrow> LhatTable \<Rightarrow> TableOp \<Rightarrow> bool" where
  "op_allowed st t (TABLE_SET key value) \<longleftrightarrow> table_fits t \<and> key_kind_ok st key"
| "op_allowed st t (TABLE_RESERVE key) \<longleftrightarrow>
     table_fits t \<and> key_kind_ok st key \<and> normalise_key st key \<noteq> VALUE_INTEGER (word_of_nat (array_count t))"

fun run_table :: "LhatStore \<Rightarrow> LhatTable \<Rightarrow> TableOp list \<Rightarrow> LhatTable option" where
  "run_table st t [] = Some t"
| "run_table st t (op # ops) = do { t \<leftarrow> table_apply st t op; run_table st t ops }"

fun run_allowed :: "LhatStore \<Rightarrow> LhatTable \<Rightarrow> TableOp list \<Rightarrow> bool" where
  "run_allowed st t [] = True"
| "run_allowed st t (op # ops) =
     (op_allowed st t op \<and>
      (case table_apply st t op of Some t' \<Rightarrow> run_allowed st t' ops | None \<Rightarrow> True))"

text \<open>The specification: a map from keys to values, \<open>nil\<close> where there is none.  The key of a write, or of a
read, is the whole number where it is one, and the position where it is a fraction that rounds to one
inside the run as it is then.\<close>

definition key_in :: "LhatStore \<Rightarrow> LhatTable \<Rightarrow> LhatValue \<Rightarrow> LhatValue" where
  "key_in st t key = named_key t (normalise_key st key)"

fun map_apply :: "LhatStore \<Rightarrow> LhatTable \<Rightarrow> (LhatValue \<Rightarrow> LhatValue) \<Rightarrow> TableOp \<Rightarrow> (LhatValue \<Rightarrow> LhatValue)" where
  "map_apply st t m (TABLE_SET key value) =
     (if key_refused st key then m else (\<lambda>k. if lhat_value_equal st (key_in st t key) k then value else m k))"
| "map_apply st t m (TABLE_RESERVE key) = m"

fun map_run :: "LhatStore \<Rightarrow> LhatTable \<Rightarrow> (LhatValue \<Rightarrow> LhatValue) \<Rightarrow> TableOp list \<Rightarrow> (LhatValue \<Rightarrow> LhatValue)" where
  "map_run st t m [] = m"
| "map_run st t m (op # ops) =
     (case table_apply st t op of
        Some t' \<Rightarrow> map_run st t' (map_apply st t m op) ops
      | None \<Rightarrow> m)"

lemma apply_ok:
  assumes "table_ok st t" "ample st" "op_allowed st t op"
  shows "\<exists>t'. table_apply st t op = Some t' \<and> table_ok st t' \<and>
    (\<forall>k. storable_key st k \<longrightarrow> table_value st t' k = map_apply st t (table_value st t) op k)"
proof (cases op)
  case (TABLE_SET key w)
  show ?thesis
  proof (cases "key_refused st key")
    case True
    then show ?thesis using TABLE_SET assms(1) by (simp add: lhat_table_set_def)
  next
    case False
    then have "storable_key st (normalise_key st key)"
      using assms(3) TABLE_SET by (intro storable_normal) (simp_all add: key_refused_def)
    then obtain t' where "lhat_table_set st t key w = Some (SET_ANSWER True False t')" "table_ok st t'"
      "stored st t t' (key_in st t key) w"
      using set_ok [OF assms(1) _ assms(2) False, of w] assms(3) TABLE_SET by (auto simp: key_in_def)
    then show ?thesis using TABLE_SET False by (simp add: stored_def)
  qed
next
  case (TABLE_RESERVE key)
  show ?thesis
  proof (cases "usable_key key")
    case False
    then show ?thesis using TABLE_RESERVE assms(1) by (simp add: lhat_table_reserve_def)
  next
    case True
    then have "storable_key st (normalise_key st key)"
      using assms(3) TABLE_RESERVE by (intro storable_normal) simp_all
    moreover have "array_count t < 2 ^ 63" using assms(3) TABLE_RESERVE by (simp add: table_fits_def)
    ultimately obtain t' where "lhat_table_reserve st t key = Some (True, t')" "table_ok st t'"
      "\<forall>j. storable_key st j \<longrightarrow> table_value st t' j = table_value st t j"
      using reserve_ok [OF assms(1,2), of key] assms(3) TABLE_RESERVE True by auto
    then show ?thesis using TABLE_RESERVE by simp
  qed
qed

lemma map_apply_cong: "m k = m' k \<Longrightarrow> map_apply st t m op k = map_apply st t m' op k"
  by (cases op) simp_all

lemma map_run_cong: "m k = m' k \<Longrightarrow> map_run st t m ops k = map_run st t m' ops k"
proof (induction ops arbitrary: t m m')
  case (Cons op ops)
  have "map_apply st t m op k = map_apply st t m' op k" by (rule map_apply_cong) (rule Cons.prems)
  from Cons.IH [where m = "map_apply st t m op" and m' = "map_apply st t m' op", OF this]
  show ?case using Cons.prems by (simp split: option.split)
qed simp

lemma run_table_ok:
  assumes "table_ok st t" "ample st" "run_allowed st t ops"
  shows "\<exists>t'. run_table st t ops = Some t' \<and> table_ok st t' \<and>
    (\<forall>k. storable_key st k \<longrightarrow> table_value st t' k = map_run st t (table_value st t) ops k)"
  using assms(1,3)
proof (induction ops arbitrary: t)
  case (Cons op ops)
  have "op_allowed st t op" using Cons.prems(2) by simp
  then obtain t1 where t1: "table_apply st t op = Some t1" "table_ok st t1"
    "\<forall>k. storable_key st k \<longrightarrow> table_value st t1 k = map_apply st t (table_value st t) op k"
    using apply_ok [OF Cons.prems(1) assms(2)] by blast
  then obtain t' where "run_table st t1 ops = Some t'" "table_ok st t'"
    "\<forall>k. storable_key st k \<longrightarrow> table_value st t' k = map_run st t1 (table_value st t1) ops k"
    using Cons.IH [of t1] Cons.prems(2) by auto
  moreover have "map_run st t1 (table_value st t1) ops k =
      map_run st t1 (map_apply st t (table_value st t) op) ops k" if "storable_key st k" for k
    using t1(3) that by (intro map_run_cong) blast
  ultimately show ?case using t1(1) by simp
qed simp

text \<open>C3: A table is a finite map.  Start with a table that keeps the invariant, in a store with memory to
  give, and let the program make any writes and seats but under a runtime type or under the double
  \<open>2 ^ 63\<close> where the machine's undefined conversion equates it with an integer: every call returns and
  succeeds, the invariant is kept, and a read answers what the same writes leave in a plain map, a
  refused key writing nothing.  A fractional key inside the run stands for the position that it rounds
  to, for a write as the run is then and for a read as it is at the end; past the run it is a key of
  its own.\<close>

theorem table_refines_map:
  assumes "table_ok st t" "ample st" "run_allowed st t ops"
  shows "\<exists>t'. run_table st t ops = Some t' \<and> table_ok st t' \<and>
    (\<forall>key. usable_key key \<and> key_kind_ok st key \<longrightarrow>
      (\<exists>found. own_get st t' (normalise_key st key) = Some found \<and>
        answer_value found = map_run st t (table_value st t) ops (key_in st t' key)))"
proof -
  obtain t' where t': "run_table st t ops = Some t'" "table_ok st t'"
    "\<forall>k. storable_key st k \<longrightarrow> table_value st t' k = map_run st t (table_value st t) ops k"
    using run_table_ok [OF assms] by blast
  have s: "table_shape st t'" using t'(2) by (simp add: table_ok_def)
  have "\<exists>found. own_get st t' (normalise_key st key) = Some found \<and>
      answer_value found = map_run st t (table_value st t) ops (key_in st t' key)"
    if "usable_key key \<and> key_kind_ok st key" for key
  proof -
    have k: "storable_key st (normalise_key st key)" using that by (intro storable_normal) simp_all
    show ?thesis
      using own_get_ok [OF s k] t'(3) named_storable [OF k] by (auto simp: key_in_def)
  qed
  then show ?thesis using t'(1,2) by blast
qed

definition sample_ops :: "TableOp list" where
  "sample_ops =
     [TABLE_SET (VALUE_INTEGER 7) (VALUE_BOOL True), TABLE_SET (VALUE_INTEGER 0) (VALUE_INTEGER 5),
      TABLE_SET (VALUE_OBJECT (Some 1)) (VALUE_INTEGER 6)]"


lemma replicate_8: "replicate 8 x = [x, x, x, x, x, x, x, x]"
  by (simp add: numeral_eq_Suc)

lemmas table_eval = lhat_table_set_def key_refused_def normalise_key_def new_table_def position_in_def
  set_entry_def set_append_def set_remove_def entry_room_def grow_entries_def
  probe_spelt_def probe_def Let_def fold_bits_def nil_entry_def array_room_def grow_array_def array_push_def
  claim_entry_def put_entry_def find_entry_def

lemma fit_8: "fit_capacity 8 (Suc 0) = 8" "fit_capacity 8 1 = 8" by (simp_all add: fit_capacity.simps)

lemma mask_8: "n AND Suc (Suc (Suc (Suc (Suc (Suc (Suc 0)))))) = n mod 8" for n :: nat
proof -
  have "Suc (Suc (Suc (Suc (Suc (Suc (Suc 0)))))) = mask 3" by (simp add: mask_eq_exp_minus_1)
  then show ?thesis by (simp add: take_bit_eq_mask [symmetric] take_bit_eq_mod)
qed

lemma probe_eval:
  "entry_is_free (es ! i) \<Longrightarrow> probe_loop m es i tomb = Some (case tomb of Some t \<Rightarrow> t | None \<Rightarrow> i)"
  "\<not> entry_is_free (es ! i) \<Longrightarrow> \<not> entry_is_tombstone (es ! i) \<Longrightarrow> m (fst (es ! i)) \<Longrightarrow>
   probe_loop m es i tomb = Some i"
  "\<not> entry_is_free (es ! i) \<Longrightarrow> \<not> entry_is_tombstone (es ! i) \<Longrightarrow> \<not> m (fst (es ! i)) \<Longrightarrow>
   probe_loop m es i tomb = probe_loop m es ((i + 1) AND (length es - 1)) tomb"
  by (subst probe_loop.simps, simp add: Let_def)+

lemma drain_nothing: "find_entry st t (array_count t) = Some None \<Longrightarrow> drain_into_array st t = Some t"
  by (subst drain_into_array.simps) simp

lemma sample_room [simp]: "st_room sample_store n"
  by (simp add: sample_store_def)

lemma sample_string [simp]: "st_content sample_store (Suc 0) = CONTENT_STRING sample_text 0xE40C292C"
  by (simp add: sample_store_def sample_text_def lhat_string_hash_def)

lemma sample_string_key: "storable_key sample_store (VALUE_OBJECT (Some 1))"
  using string_storable [of sample_store 1] by simp

definition sample_table :: LhatTable where
  "sample_table = new_table\<lparr>tb_array := [VALUE_INTEGER 5], tb_array_capacity := 8,
     tb_entries := [nil_entry, nil_entry, nil_entry, nil_entry, nil_entry, nil_entry, nil_entry,
       (VALUE_INTEGER 7, VALUE_BOOL True)], tb_entry_count := 1, tb_version := 2\<rparr>"

lemma sample_first: "table_apply sample_store new_table (TABLE_SET (VALUE_INTEGER 7) (VALUE_BOOL True)) =
    Some (sample_table\<lparr>tb_array := [], tb_array_capacity := 0\<rparr>)"
  by (simp add: sample_table_def table_eval replicate_8 fit_8 mask_8 probe_eval)

lemma sample_second: "table_apply sample_store (sample_table\<lparr>tb_array := [], tb_array_capacity := 0\<rparr>) 
    (TABLE_SET (VALUE_INTEGER 0) (VALUE_INTEGER 5)) =
    Some sample_table"
  by (simp add: sample_table_def table_eval mask_8 probe_eval drain_nothing)

lemma sample_third: "table_apply sample_store sample_table
    (TABLE_SET (VALUE_OBJECT (Some 1)) (VALUE_INTEGER 6)) \<noteq> None"
  by (simp add: sample_table_def table_eval mask_8 probe_eval)

lemma sample_ops_allowed: "run_allowed sample_store new_table sample_ops"
proof -
  have "table_fits new_table" "table_fits sample_table" "table_fits (sample_table\<lparr>tb_array := [], tb_array_capacity := 0\<rparr>)"
    by (simp_all add: table_fits_def sample_table_def new_table_def)
  then show ?thesis
    using sample_third
    by (simp add: sample_ops_def sample_first sample_second key_refused_def normalise_key_def
        split: option.splits del: table_apply.simps)
qed

theorem table_refines_map_witness:
  "\<exists>t. run_table sample_store new_table sample_ops = Some t \<and> table_ok sample_store t \<and>
    (\<exists>found. own_get sample_store t (VALUE_OBJECT (Some 1)) = Some found \<and> answer_value found = VALUE_INTEGER 6)"
proof -
  let ?k = "VALUE_OBJECT (Some 1)"
  have k: "normalise_key sample_store ?k = ?k" "key_in sample_store t ?k = ?k" for t
    by (simp_all add: normalise_key_def key_in_def)
  from table_refines_map [OF new_table_ok sample_ample sample_ops_allowed]
  obtain t where t: "run_table sample_store new_table sample_ops = Some t" "table_ok sample_store t"
    "\<exists>found. own_get sample_store t ?k = Some found \<and>
      answer_value found = map_run sample_store new_table (table_value sample_store new_table) sample_ops ?k"
    using k by (metis sample_string_key storable_key_def)
  obtain t3 where t3: "table_apply sample_store sample_table (TABLE_SET ?k (VALUE_INTEGER 6)) = Some t3"
    using sample_third by blast
  have e: "lhat_value_equal sample_store ?k ?k" "\<not> key_refused sample_store ?k"
    by (simp_all add: object_equal_def key_refused_def)
  have "map_run sample_store new_table (table_value sample_store new_table) sample_ops ?k = VALUE_INTEGER 6"
    by (simp only: sample_ops_def map_run.simps sample_first sample_second t3 option.simps map_apply.simps k e if_True if_False)
  then show ?thesis using t by auto
qed


subsection \<open>Walking\<close>

definition table_pairs :: "LhatTable \<Rightarrow> (LhatValue \<times> LhatValue) list" where
  "table_pairs t = map (walk_position t) [0..<array_count t] @ filter live_entry (tb_entries t)"

lemma pairs_storable:
  assumes "table_ok st t" "e \<in> set (table_pairs t)"
  shows "storable_key st (fst e)"
proof -
  have s: "table_shape st t" using assms(1) by (simp add: table_ok_def)
  from assms(2) consider i where "e = walk_position t i" | "e \<in> set (tb_entries t)" "live_entry e"
    by (auto simp: table_pairs_def)
  then show ?thesis
  proof cases
    case 2
    then have "entry_capacity t \<noteq> 0" by auto
    note ok = shapeD(1) [OF s this]
    from 2 obtain i where "i < entry_capacity t" "e = tb_entries t ! i" by (metis in_set_conv_nth)
    then show ?thesis using value_keys.entries_okD(3) [OF ok] 2(2) by blast
  qed (simp add: walk_position_def int_storable)
qed

lemma position_word_eq:
  assumes "i < 2 ^ 63" "j < 2 ^ 63" "(word_of_nat i :: LhatInteger) = word_of_nat j"
  shows "i = j"
  using assms position_of_nat [OF assms(1)] position_of_nat [OF assms(2)] by simp

lemma pairs_distinct:
  assumes ok: "table_ok st t" and f: "table_fits t"
  shows "sorted_wrt (\<lambda>e g. \<not> lhat_value_equal st (fst e) (fst g)) (table_pairs t)"
proof -
  have s: "table_shape st t" and keys: "keys_from (Suc (array_count t)) t"
    using ok by (simp_all add: table_ok_def)
  have n: "array_count t < 2 ^ 63" using f by (simp add: table_fits_def)
  have int: "lhat_value_equal st (VALUE_INTEGER i) k \<longleftrightarrow> k = VALUE_INTEGER i" if "storable_key st k" for i k
    by (rule int_equal(2) [OF that int_storable])
  have d: "distinct_keys st (tb_entries t)"
  proof (cases "entry_capacity t = 0")
    case False
    show ?thesis by (rule hash_ok_distinct [OF shapeD(1) [OF s False]])
  qed (simp add: distinct_keys_def)
  have hash: "sorted_wrt (\<lambda>e g. \<not> lhat_value_equal st (fst e) (fst g)) (filter live_entry (tb_entries t))"
    using d unfolding distinct_keys_def
    by (intro sorted_wrt_mono_rel [OF _ sorted_wrt_filter [of
          "\<lambda>e f. live_entry e \<and> live_entry f \<longrightarrow> \<not> lhat_value_equal st (fst e) (fst f)"]]) auto
  have run: "sorted_wrt (\<lambda>e g. \<not> lhat_value_equal st (fst e) (fst g)) (map (walk_position t) [0..<array_count t])"
    unfolding sorted_wrt_map
  proof (rule sorted_wrt_mono_rel [OF _ sorted_wrt_upt])
    fix i j assume "i \<in> set [0..<array_count t]" "j \<in> set [0..<array_count t]" "i < j"
    then show "\<not> lhat_value_equal st (fst (walk_position t i)) (fst (walk_position t j))"
      using position_word_eq [of i j] n by (auto simp: walk_position_def)
  qed
  have across: "\<not> lhat_value_equal st (fst (walk_position t i)) (fst g)"
    if i: "i < array_count t" and g: "g \<in> set (tb_entries t)" "live_entry g" for i g
  proof
    assume "lhat_value_equal st (fst (walk_position t i)) (fst g)"
    then have "fst g = VALUE_INTEGER (word_of_nat i)"
      using int [of "fst g"] pairs_storable [OF ok, of g] g by (simp add: walk_position_def table_pairs_def)
    then show False
      using keys g(1) position_word [of i "word_of_nat i"] i n by (fastforce simp: keys_from_def)
  qed
  show ?thesis
    unfolding table_pairs_def sorted_wrt_append using hash run across by auto
qed


lemma pairs_value:
  assumes ok: "table_ok st t" and f: "table_fits t" and sk: "storable_key st k" and w: "w \<noteq> VALUE_NIL"
  shows "table_value st t k = w \<longleftrightarrow> (\<exists>h. (h, w) \<in> set (table_pairs t) \<and> lhat_value_equal st h k)"
proof -
  have s: "table_shape st t" and keys: "keys_from (Suc (array_count t)) t"
    using ok by (simp_all add: table_ok_def)
  have n: "array_count t < 2 ^ 63" using f by (simp add: table_fits_def)
  have stored: "storable_key st h" if "(h, v) \<in> set (table_pairs t)" for h v
    using pairs_storable [OF ok that] by simp
  show ?thesis
  proof (cases "int_index t k")
    case (Some i)
    then have i: "i < array_count t" "key_position k = Some i"
      by (auto simp: int_index_is split: option.splits if_splits)
    then have key: "k = VALUE_INTEGER (word_of_nat i)" using position_key by blast
    have same: "lhat_value_equal st h k \<longleftrightarrow> h = k" if "(h, v) \<in> set (table_pairs t)" for h v
      unfolding key by (rule int_equal(1) [OF stored [OF that] int_storable])
    have hash: "(k, v) \<notin> set (filter live_entry (tb_entries t))" for v
      using keys position_word [of i "word_of_nat i"] i n unfolding key keys_from_def by fastforce
    have at: "(word_of_nat i :: LhatInteger) = word_of_nat x \<longleftrightarrow> x = i" if "x < array_count t" for x
      using position_word_eq [of i x] that i(1) n by auto
    have "(k, v) \<in> set (table_pairs t) \<longleftrightarrow> v = tb_array t ! i" for v
      using hash [of v] i(1) at by (auto simp: table_pairs_def walk_position_def key image_iff)
    then show ?thesis using Some same by (auto simp: table_value_def)
  next
    case None
    have run: "\<not> lhat_value_equal st h k" if m: "(h, v) \<in> walk_position t ` {0..<array_count t}" for h v
    proof
      assume e: "lhat_value_equal st h k"
      obtain j where j: "j < array_count t" "h = VALUE_INTEGER (word_of_nat j)"
        using m by (auto simp: walk_position_def)
      then have "k = VALUE_INTEGER (word_of_nat j)"
        using int_equal(2) [OF sk int_storable] e by simp
      then show False
        using None [unfolded int_index_is] j(1) n position_of_nat [of j] by (simp split: if_splits)
    qed
    have hash: "held st (tb_entries t) k = Some w \<longleftrightarrow>
        (\<exists>h. (h, w) \<in> set (tb_entries t) \<and> live_entry (h, w) \<and> lhat_value_equal st h k)"
    proof
      assume "held st (tb_entries t) k = Some w"
      then show "\<exists>h. (h, w) \<in> set (tb_entries t) \<and> live_entry (h, w) \<and> lhat_value_equal st h k"
        by (rule value_keys.held_at_some) (metis nth_mem prod.collapse)
    next
      assume "\<exists>h. (h, w) \<in> set (tb_entries t) \<and> live_entry (h, w) \<and> lhat_value_equal st h k"
      then obtain h i where i: "i < entry_capacity t" "tb_entries t ! i = (h, w)" "live_entry (h, w)"
        "lhat_value_equal st h k"
        by (metis in_set_conv_nth)
      then have "entry_capacity t \<noteq> 0" by linarith
      then show "held st (tb_entries t) k = Some w"
        using value_keys.held_at_live [OF shapeD(1) [OF s] sk i(1)] i by simp
    qed
    show ?thesis
      using None run hash w by (auto simp: table_value_def table_pairs_def split: option.splits)
  qed
qed

text \<open>C4: A walk over a table returns, answers as many pairs as the table counts, no key twice, and the
  value of every key that can be read: a key reads as a value if and only if the walk answers it with
  that value, a fractional key inside the run standing for the position that it rounds to.  Only runtime
  types, and the double \<open>2 ^ 63\<close> where the machine's undefined conversion equates it with an integer,
  are left out of the keys.\<close>

theorem walk_answers_pairs:
  assumes "table_ok st t" "table_fits t"
  shows "\<exists>pairs. walk_all (Suc (lhat_table_count t)) t walk_start = Some pairs \<and>
    length pairs = lhat_table_count t \<and>
    sorted_wrt (\<lambda>e g. \<not> lhat_value_equal st (fst e) (fst g)) pairs \<and>
    (\<forall>key w. usable_key key \<and> key_kind_ok st key \<and> w \<noteq> VALUE_NIL \<longrightarrow>
      (\<exists>found. own_get st t (normalise_key st key) = Some found \<and>
        (answer_value found = w \<longleftrightarrow> (\<exists>h. (h, w) \<in> set pairs \<and> lhat_value_equal st h (key_in st t key)))))"
proof (intro exI [of _ "table_pairs t"] conjI allI impI)
  have s: "table_shape st t" using assms by (simp add: table_ok_def)
  then have count: "tb_entry_count t = live_count (tb_entries t)"
    using shapeD(2) [OF s] by (cases "entry_capacity t = 0") (auto simp: table_shape_def live_count_def)
  then show "walk_all (Suc (lhat_table_count t)) t walk_start = Some (table_pairs t)"
    using walk_all_array [of walk_start t "Suc (lhat_table_count t)"]
    by (simp add: walk_start_def table_pairs_def lhat_table_count_def)
  show "length (table_pairs t) = lhat_table_count t"
    using count by (simp add: table_pairs_def lhat_table_count_def live_count_def)
  fix key w assume k: "usable_key key \<and> key_kind_ok st key \<and> w \<noteq> VALUE_NIL"
  then have sk: "storable_key st (normalise_key st key)" by (intro storable_normal) simp_all
  show "\<exists>found. own_get st t (normalise_key st key) = Some found \<and>
      (answer_value found = w \<longleftrightarrow> (\<exists>h. (h, w) \<in> set (table_pairs t) \<and> lhat_value_equal st h (key_in st t key)))"
    using own_get_ok [OF s sk] pairs_value [OF assms named_storable [OF sk, of t], of w] k
    unfolding key_in_def by auto
qed (rule pairs_distinct [OF assms])


lemma sample_table_ok: "table_ok sample_store sample_table"
proof -
  have "table_fits new_table" "table_fits (sample_table\<lparr>tb_array := [], tb_array_capacity := 0\<rparr>)"
    by (simp_all add: table_fits_def sample_table_def new_table_def)
  then have "run_allowed sample_store new_table
      [TABLE_SET (VALUE_INTEGER 7) (VALUE_BOOL True), TABLE_SET (VALUE_INTEGER 0) (VALUE_INTEGER 5)]"
    by (simp add: sample_first key_refused_def normalise_key_def split: option.splits del: table_apply.simps)
  from run_table_ok [OF new_table_ok sample_ample this] show ?thesis
    by (simp add: sample_first sample_second del: table_apply.simps)
qed

lemma sample_fits: "table_fits sample_table"
  by (simp add: table_fits_def sample_table_def new_table_def)

theorem walk_answers_pairs_witness:
  "\<exists>pairs. walk_all 3 sample_table walk_start = Some pairs \<and> length pairs = 2 \<and>
    (\<exists>h. (h, VALUE_BOOL True) \<in> set pairs \<and> lhat_value_equal sample_store h (VALUE_INTEGER 7))"
proof -
  have count: "lhat_table_count sample_table = 2"
    by (simp add: lhat_table_count_def sample_table_def)
  let ?k = "VALUE_INTEGER 7"
  have k: "normalise_key sample_store ?k = ?k" "key_in sample_store sample_table ?k = ?k"
    by (simp_all add: normalise_key_def key_in_def)
  have "own_get sample_store sample_table ?k = Some (Some (VALUE_BOOL True, Some 7))"
    by (simp add: own_get_def own_hashed_def sample_table_def table_eval mask_8 probe_eval)
  then have "\<exists>h. (h, VALUE_BOOL True) \<in> set pairs \<and> lhat_value_equal sample_store h ?k"
    if "\<forall>key w. usable_key key \<and> key_kind_ok sample_store key \<and> w \<noteq> VALUE_NIL \<longrightarrow>
      (\<exists>found. own_get sample_store sample_table (normalise_key sample_store key) = Some found \<and>
        (answer_value found = w \<longleftrightarrow>
          (\<exists>h. (h, w) \<in> set pairs \<and> lhat_value_equal sample_store h (key_in sample_store sample_table key))))" for pairs
    using that [rule_format, of ?k "VALUE_BOOL True"] by (simp add: answer_value_def k)
  then show ?thesis
    using walk_answers_pairs [OF sample_table_ok sample_fits] unfolding count by (metis eval_nat_numeral(3) numeral_2_eq_2)
qed

subsection \<open>Resizing\<close>

text \<open>What a key holds after the run was given a length, where it held \<open>before\<close> under \<open>t\<close>.\<close>

definition resized_value :: "LhatStore \<Rightarrow> LhatTable \<Rightarrow> nat \<Rightarrow> LhatValue \<Rightarrow> LhatValue \<Rightarrow> LhatValue" where
  "resized_value st t len fill k =
     (case key_position k of
        Some p \<Rightarrow>
          if len \<le> p \<and> p < array_count t then VALUE_NIL
          else if array_count t \<le> p \<and> p < len \<and> held st (tb_entries t) k = None then fill
          else table_value st t k
      | None \<Rightarrow> table_value st t k)"

text \<open>Resizing the run returns and keeps the invariant; the run is then at least as long as was asked,
  the positions cut off read as \<open>nil\<close>, a new position reads as what the hash half held under it or
  as the filling, and every other key reads as before.\<close>

theorem resize_reads:
  assumes "table_ok st t" "ample st" "table_fits t" "len + tb_entry_count t < 2 ^ 63 - 1"
  shows "\<exists>t'. lhat_table_resize st t len fill = Some (True, t') \<and> table_ok st t' \<and> len \<le> lhat_table_length t' \<and>
    (\<forall>k. storable_key st k \<longrightarrow> (\<exists>found. own_get st t' k = Some found \<and>
      answer_value found = resized_value st t len fill (named_key t' k)))"
proof -
  obtain t' where t': "lhat_table_resize st t len fill = Some (True, t')" "table_ok st t'" "len \<le> array_count t'"
    "\<forall>k. storable_key st k \<longrightarrow> table_value st t' k = resized_value st t len fill k"
    using resize_ok [OF assms, of fill] unfolding resized_value_def by blast
  have s: "table_shape st t'" using t'(2) by (simp add: table_ok_def)
  have "\<exists>found. own_get st t' k = Some found \<and> answer_value found = resized_value st t len fill (named_key t' k)"
    if "storable_key st k" for k
    using own_get_ok [OF s that] t'(4) named_storable [OF that] by auto
  then show ?thesis using t'(1-3) by (auto simp: lhat_table_length_def)
qed

theorem resize_reads_witness:
  "\<exists>t'. lhat_table_resize sample_store sample_table 8 (VALUE_BOOL False) = Some (True, t') \<and>
    (\<exists>found. own_get sample_store t' (VALUE_INTEGER 7) = Some found \<and> answer_value found = VALUE_BOOL True)"
proof -
  have "8 + tb_entry_count sample_table < 2 ^ 63 - 1" by (simp add: sample_table_def)
  from resize_reads [OF sample_table_ok sample_ample sample_fits this, of "VALUE_BOOL False"]
  obtain t' where t': "lhat_table_resize sample_store sample_table 8 (VALUE_BOOL False) = Some (True, t')"
    "\<forall>k. storable_key sample_store k \<longrightarrow> (\<exists>found. own_get sample_store t' k = Some found \<and>
      answer_value found = resized_value sample_store sample_table 8 (VALUE_BOOL False) (named_key t' k))" by blast
  have "held sample_store (tb_entries sample_table) (VALUE_INTEGER 7) = Some (VALUE_BOOL True)"
    by (simp add: held_at_def sample_table_def nil_entry_def live_entry_def)
  then have "resized_value sample_store sample_table 8 (VALUE_BOOL False) (VALUE_INTEGER 7) = VALUE_BOOL True"
    by (auto simp: resized_value_def sample_table_def table_value_def position_in_def)
  then show ?thesis using t'(1) t'(2) [rule_format, of "VALUE_INTEGER 7"] by simp
qed


subsection \<open>Keys\<close>

lemma whole_is_exact:
  assumes "lhat_number_as_whole st (VALUE_REAL r) = Some i"
  shows "real_value r = FLOAT (sint i * REAL_ONE)"
proof -
  define t where "t = integer_rounded (sint i)"
  have v: "real_value r = FLOAT (t * REAL_ONE)"
    using whole_exact [OF assms] by (simp add: float_of_integer_def t_def)
  have i: "i = float_to_integer st (real_value r)"
    "float_less_eq (FLOAT (- (2 ^ 63) * REAL_ONE)) (real_value r)" "float_less (real_value r) (FLOAT (2 ^ 63 * REAL_ONE))"
    using assms by (auto simp: Let_def split: if_splits)
  have "- (2 ^ 63) * REAL_ONE \<le> t * REAL_ONE" "t * REAL_ONE < 2 ^ 63 * REAL_ONE"
    using i(2,3) unfolding v by (auto simp: float_less_eq_def float_equal_def)
  then have "- (2 ^ 63) \<le> t" "t < 2 ^ 63"
    using REAL_ONE_pos mult_right_le_imp_le [of "- (2 ^ 63)" REAL_ONE t] by simp_all
  then have f: "fits_int64 t" by (simp add: fits_int64_def)
  have "i = word_of_int t" using i(1) f unfolding v by (simp add: units_trunc_exact)
  then show ?thesis using sint_of_fits [OF f] v by simp
qed

lemma normal_exact: "lhat_is_number a \<Longrightarrow> exact_value (normalise_key st a) = exact_value a"
proof (cases a)
  case (VALUE_REAL r)
  then show ?thesis
  proof (cases "lhat_number_as_whole st (VALUE_REAL r)")
    case (Some i)
    then show ?thesis using VALUE_REAL whole_is_exact [OF Some] by (simp add: normalise_key_def del: lhat_number_as_whole.simps)
  qed (simp add: normalise_key_def VALUE_REAL del: lhat_number_as_whole.simps)
qed (simp_all add: normalise_key_def)

lemma normal_unique:
  assumes "lhat_is_number a" "lhat_is_number b" "exact_value a = exact_value b" "usable_key a"
  shows "normalise_key st a = normalise_key st b"
proof (cases "\<exists>i. exact_value a = FLOAT (sint (i :: LhatInteger) * REAL_ONE)")
  case True
  then obtain i :: LhatInteger where i: "exact_value a = FLOAT (sint i * REAL_ONE)" by blast
  have "normalise_key st c = VALUE_INTEGER i" if "lhat_is_number c" "exact_value c = FLOAT (sint i * REAL_ONE)" for c
    using that whole_of_exact [of _ i st] REAL_ONE_pos by (cases c) (auto simp: normalise_key_def intro: signed_word_eqI)
  then show ?thesis using assms i by simp
next
  case False
  then obtain r q where r: "a = VALUE_REAL r" "b = VALUE_REAL q"
    using assms(1-3) by (cases a; cases b) auto
  have n: "real_value r \<noteq> FLOAT_NAN" "real_value r \<noteq> FLOAT 0"
    using assms(4) False [unfolded not_ex, rule_format, of 0] r by (auto simp: float_equal_def)
  then have "r = q" using real_value_unique [of r q] assms(3) r by auto
  then show ?thesis using r by simp
qed

lemma exact_normal:
  assumes "lhat_is_number a" "lhat_is_number b" "usable_key a"
  shows "float_equal (exact_value a) (exact_value b) \<longleftrightarrow> normalise_key st a = normalise_key st b"
proof
  show "normalise_key st a = normalise_key st b" if "float_equal (exact_value a) (exact_value b)"
    using that assms by (intro normal_unique) (simp_all add: float_equal_def)
  assume "normalise_key st a = normalise_key st b"
  then have "exact_value a = exact_value b" using normal_exact assms by metis
  moreover have "exact_value a \<noteq> FLOAT_NAN"
    using assms(1,3) by (cases a) (auto simp: float_equal_def)
  ultimately show "float_equal (exact_value a) (exact_value b)" by (simp add: float_equal_def)
qed

text \<open>C5: Equality of numbers is exact: an integer and a real are equal if and only if they are the same
  number, rounded by nothing, and two numbers that are not \<open>NaN\<close> are equal if and only if they are
  stored as one key.  The one exception is the double \<open>2 ^ 63\<close> against an integer that rounds to it:
  they are not the same number and not one key, and what equality answers is decided by a conversion that
  C does not define.\<close>

theorem number_keys_exact:
  assumes "lhat_is_number a" "lhat_is_number b"
  shows "(\<not> cast_undefined a b \<longrightarrow>
      (lhat_value_equal st a b \<longleftrightarrow> float_equal (exact_value a) (exact_value b)) \<and>
      (usable_key a \<longrightarrow> (lhat_value_equal st a b \<longleftrightarrow> normalise_key st a = normalise_key st b))) \<and>
    (\<forall>i r. a = VALUE_INTEGER i \<and> b = VALUE_REAL r \<and> cast_undefined a b \<longrightarrow>
      \<not> float_equal (exact_value a) (exact_value b) \<and> normalise_key st a \<noteq> normalise_key st b \<and>
      (lhat_value_equal st a b \<longleftrightarrow> st_cast st (FLOAT (2 ^ 63 * REAL_ONE)) = i))"
proof (intro conjI allI impI; (elim conjE)?)
  assume c: "\<not> cast_undefined a b"
  show e: "lhat_value_equal st a b \<longleftrightarrow> float_equal (exact_value a) (exact_value b)"
    by (rule number_equal [OF c assms])
  assume u: "usable_key a"
  show "lhat_value_equal st a b \<longleftrightarrow> normalise_key st a = normalise_key st b"
    unfolding e by (rule exact_normal [OF assms u])
next
  fix i r assume a: "a = VALUE_INTEGER i" "b = VALUE_REAL r" and c: "cast_undefined a b"
  then have v: "integer_rounded (sint i) = 2 ^ 63" "real_value r = FLOAT (2 ^ 63 * REAL_ONE)" by simp_all
  show n: "\<not> float_equal (exact_value a) (exact_value b)"
    using v(2) a sint_range [of i] REAL_ONE_pos by (auto simp: float_equal_def)
  show "normalise_key st a \<noteq> normalise_key st b"
    using exact_normal [OF assms, of st] n a by simp
  have "units_trunc (2 ^ 63 * REAL_ONE) = 2 ^ 63" by (rule units_trunc_exact)
  then show "lhat_value_equal st a b \<longleftrightarrow> st_cast st (FLOAT (2 ^ 63 * REAL_ONE)) = i"
    using v a by (simp add: float_equal_def float_of_integer_def fits_int64_def)
qed

text \<open>\<open>2 ^ 53\<close> as a real, and the integer behind it.\<close>

theorem number_keys_exact_witness:
  "\<not> lhat_value_equal sample_store (VALUE_INTEGER (2 ^ 53 + 1)) (VALUE_REAL 0x4340000000000000) \<and>
    lhat_value_equal sample_store (VALUE_INTEGER (2 ^ 53)) (VALUE_REAL 0x4340000000000000)"
proof -
  have r: "real_value 0x4340000000000000 = FLOAT (2 ^ 53 * REAL_ONE)"
    by (simp add: real_value_def real_units_def real_exponent_def real_fraction_def real_negative_def REAL_ONE_def)
  have "lhat_is_number (VALUE_INTEGER i)" "lhat_is_number (VALUE_REAL q)" for i q by simp_all
  from number_keys_exact [OF this, of _ _ sample_store] show ?thesis
    using REAL_ONE_pos by (simp add: r float_equal_def del: lhat_value_equal.simps)
qed

text \<open>Reading by the bytes of a name answers what reading by the string of those bytes answers, and
  it returns.\<close>

theorem get_by_bytes:
  assumes "table_ok st t" "strings_hashed st" "st_content st a = CONTENT_STRING text hash"
  shows "own_get_bytes st t text = own_get st t (VALUE_OBJECT (Some a)) \<and> own_get_bytes st t text \<noteq> None"
  using get_bytes_ok [OF assms] by blast

theorem get_by_bytes_witness:
  "own_get_bytes sample_store sample_table sample_text =
     own_get sample_store sample_table (VALUE_OBJECT (Some 1))"
proof -
  have h: "strings_hashed sample_store" by (simp add: strings_hashed_def sample_store_def)
  have "st_content sample_store 1 = CONTENT_STRING sample_text 0xE40C292C" by simp
  from get_by_bytes [OF sample_table_ok h this] show ?thesis by blast
qed

text \<open>Where the conversion of a real past the range gives the nearest integer, as it does on arm64, the
largest integer equals \<open>2 ^ 63\<close>, which it is not, and they are two keys.\<close>

theorem saturating_cast_equates:
  "\<exists>st. st_cast st (FLOAT (2 ^ 63 * REAL_ONE)) = 2 ^ 63 - 1 \<and>
    lhat_value_equal st (VALUE_INTEGER (2 ^ 63 - 1)) (VALUE_REAL 0x43E0000000000000) \<and>
    \<not> float_equal (exact_value (VALUE_INTEGER (2 ^ 63 - 1))) (exact_value (VALUE_REAL 0x43E0000000000000)) \<and>
    normalise_key st (VALUE_INTEGER (2 ^ 63 - 1)) \<noteq> normalise_key st (VALUE_REAL 0x43E0000000000000)"
proof -
  have r: "real_value 0x43E0000000000000 = FLOAT (2 ^ 63 * REAL_ONE)"
    by (simp add: real_value_def real_units_def real_exponent_def real_fraction_def real_negative_def REAL_ONE_def)
  have b: "bit_count 0x7FFFFFFFFFFFFFFF = 63"
    using bit_count_le [of "0x7FFFFFFFFFFFFFFF" 63] bit_count_le [of "0x7FFFFFFFFFFFFFFF" 62] by simp
  have t: "integer_rounded 0x7FFFFFFFFFFFFFFF = 2 ^ 63"
    by (simp add: integer_rounded_def round_53_def b round_half_even_def)
  have u: "units_trunc (2 ^ 63 * REAL_ONE) = 2 ^ 63" by (rule units_trunc_exact)
  show ?thesis
    using REAL_ONE_pos t u
    by (intro exI [of _ "sample_store\<lparr>st_cast := \<lambda>_. 2 ^ 63 - 1\<rparr>"])
      (simp add: r float_of_integer_def float_equal_def normalise_key_def Let_def fits_int64_def)
qed

subsection \<open>Chains\<close>

text \<open>C28: the walk over a chain of finitely many nodes returns, whether the chain ends or runs into a ring,
  and answers every node once, in the order of the links.\<close>

theorem chain_visits_once:
  assumes "finite (chain_nodes link start)"
  shows "\<exists>xs. chain_all (returning link) (Suc (card (chain_nodes link start))) (lhat_chain start) = Some xs \<and>
    distinct xs \<and> set xs = chain_nodes link start \<and>
    (\<forall>i<length xs. chain_at link start i = Some (xs ! i))"
  by (rule chain_all_once [OF assms])

text \<open>Two nodes that lead into a ring of three.\<close>

definition sample_ring :: "nat \<Rightarrow> nat option" where
  "sample_ring x = Some (if x = 4 then 2 else x + 1)"

theorem chain_visits_once_witness:
  "\<exists>xs. set xs = chain_nodes sample_ring (Some 0) \<and> distinct xs \<and>
    chain_all (returning sample_ring) (Suc (card (chain_nodes sample_ring (Some 0)))) (lhat_chain (Some 0)) = Some xs"
proof -
  have at: "\<exists>y\<le>4. chain_at sample_ring (Some 0) i = Some y" for i
    by (induction i) (auto simp: sample_ring_def)
  have "chain_nodes sample_ring (Some 0) \<subseteq> {..4}"
  proof
    fix x assume "x \<in> chain_nodes sample_ring (Some 0)"
    then obtain i where "chain_at sample_ring (Some 0) i = Some x" by (auto simp: chain_nodes_def)
    then show "x \<in> {..4}" using at [of i] by auto
  qed
  then have "finite (chain_nodes sample_ring (Some 0))" by (rule finite_subset) simp
  from chain_visits_once [OF this] show ?thesis by blast
qed

end
