(* ===== verification/Lhat_Lookup.thy ===== *)
theory Lhat_Lookup
  imports Lhat_TableWalk Lhat_Chain
begin

text \<open>
  Looking a key up (\<open>table_get_in\<close> of \<open>src/object.c\<close>): in the table itself, then in its definition and
  the definitions that one was made from, then in the same way in what the table delegates to, and
  so on along the chain of delegates, each of which is visited once even if the chain is a ring.  A
  name that is inherited by an instance or lent by a delegate is only answered if it takes a receiver.

  A pointer to a table whose target is no table is \<open>None\<close> of the option monad, like a call that never
  returns: \<open>store_ok\<close> excludes both.
\<close>

definition table_at :: "LhatStore \<Rightarrow> addr \<Rightarrow> LhatTable option" where
  "table_at st a = (case st_content st a of CONTENT_TABLE t \<Rightarrow> Some t | _ \<Rightarrow> None)"

fun members_table_of :: "LhatStore \<Rightarrow> LhatValue \<Rightarrow> pointer" where
  "members_table_of st (VALUE_OBJECT (Some a)) =
     (case st_content st a of
        CONTENT_HOSTDATA tag p released ms \<Rightarrow> ms
      | CONTENT_TABLE t \<Rightarrow> Some a
      | _ \<Rightarrow> None)"
| "members_table_of st v = None"

text \<open>\<open>lhat_takes_receiver\<close> of the first of the values, else of one of the rest: an overload is asked for
its candidates, of which one is enough.\<close>

partial_function (option) takes_receiver :: "LhatStore \<Rightarrow> LhatValue list \<Rightarrow> bool option" where
  "takes_receiver st vs =
     (case vs of
        [] \<Rightarrow> Some False
      | v # rest \<Rightarrow>
          (case content_of st v of
             Some (CONTENT_SUBROUTINE takes) \<Rightarrow>
               if takes = Some True then Some True else takes_receiver st rest
           | Some (CONTENT_HOST takes) \<Rightarrow> if takes then Some True else takes_receiver st rest
           | Some (CONTENT_OVERLOAD candidates) \<Rightarrow> takes_receiver st (candidates @ rest)
           | _ \<Rightarrow> takes_receiver st rest))"

declare takes_receiver.simps [code]

definition lhat_takes_receiver :: "LhatStore \<Rightarrow> LhatValue \<Rightarrow> bool option" where
  "lhat_takes_receiver st v = takes_receiver st [v]"

definition delegate_next :: "LhatStore \<Rightarrow> addr \<Rightarrow> pointer option" where
  "delegate_next st a =
     (case st_content st a of
        CONTENT_TABLE receiver \<Rightarrow>
          (case tb_definition receiver of
             None \<Rightarrow> Some None
           | Some d \<Rightarrow>
               if tb_is_definition receiver then Some None
               else do {
                 owner \<leftarrow> table_at st d;
                 let key = tb_delegate_key owner;
                     holder = (if tb_delegate_from_self owner then receiver else owner) in
                 if lhat_is_nil key \<or> entry_capacity holder = 0 then Some None
                 else do {
                   at \<leftarrow> probe st (tb_entries holder) key (hash_key st key);
                   let (held, target) = tb_entries holder ! at in
                   Some (if \<not> lhat_is_nil held \<and> members_table_of st target \<noteq> None
                         then (case target of VALUE_OBJECT p \<Rightarrow> p | _ \<Rightarrow> None) else None)
                 }
               })
      | _ \<Rightarrow> Some None)"

text \<open>What the definitions of one receiver answer: nothing, a name that blocks the ones behind it, or the
value with its table, its place there and whether it is inherited.\<close>

datatype LhatOwnAnswer =
    OWN_NOTHING
  | OWN_BLOCKED
  | OWN_VALUE LhatValue addr "nat option" bool

type_synonym LhatFind = "LhatTable \<Rightarrow> (LhatValue \<times> nat option) option option"

partial_function (option) lookup_own ::
  "LhatFind \<Rightarrow> LhatStore \<Rightarrow> bool \<Rightarrow> bool \<Rightarrow> pointer \<Rightarrow> bool \<Rightarrow> LhatOwnAnswer option" where
  "lookup_own find_in st restricted delegated p inherited =
     (case p of
        None \<Rightarrow> Some OWN_NOTHING
      | Some a \<Rightarrow> do {
          t \<leftarrow> table_at st a;
          found \<leftarrow> find_in t;
          case found of
            None \<Rightarrow> lookup_own find_in st restricted delegated (tb_definition t) True
          | Some (v, at) \<Rightarrow>
              if (restricted \<and> inherited) \<or> delegated then do {
                takes \<leftarrow> lhat_takes_receiver st v;
                Some (if takes then OWN_VALUE v a at inherited else OWN_BLOCKED)
              }
              else Some (OWN_VALUE v a at inherited)
        })"

declare lookup_own.simps [code]

text \<open>What a lookup answers: the value, the place it was found at where it stands in a hash half, and the
delegate it went through.\<close>

record LhatLocated =
  lo_value :: LhatValue
  lo_place :: "(addr \<times> nat \<times> bool) option"
  lo_through :: LhatValue

definition lo_nothing :: LhatLocated where
  "lo_nothing = \<lparr>lo_value = VALUE_NIL, lo_place = None, lo_through = VALUE_NIL\<rparr>"

definition located :: "bool \<Rightarrow> addr \<Rightarrow> LhatValue \<Rightarrow> addr \<Rightarrow> nat option \<Rightarrow> bool \<Rightarrow> LhatLocated" where
  "located delegated receiver v a at inherited =
     \<lparr>lo_value = v, lo_place = map_option (\<lambda>i. (a, i, inherited)) at,
      lo_through = (if delegated then VALUE_OBJECT (Some receiver) else VALUE_NIL)\<rparr>"

text \<open>One receiver of the chain; \<open>None\<close> where the walk goes on.\<close>

definition lookup_receiver ::
  "LhatFind \<Rightarrow> LhatStore \<Rightarrow> addr \<Rightarrow> addr \<Rightarrow> LhatLocated option option" where
  "lookup_receiver find_in st root a =
     (let delegated = (a \<noteq> root); p = members_table_of st (VALUE_OBJECT (Some a))
      in do {
        start \<leftarrow> p;
        t \<leftarrow> table_at st start;
        own \<leftarrow> lookup_own find_in st (\<not> tb_is_definition t) delegated p False;
        Some (case own of
          OWN_NOTHING \<Rightarrow> None
        | OWN_BLOCKED \<Rightarrow> Some lo_nothing
        | OWN_VALUE v b at inherited \<Rightarrow> Some (located delegated a v b at inherited))
      })"

partial_function (option) lookup_chain ::
  "LhatFind \<Rightarrow> LhatStore \<Rightarrow> addr \<Rightarrow> addr LhatChain \<Rightarrow> LhatLocated option" where
  "lookup_chain find_in st root walk = do {
     (walk, at) \<leftarrow> lhat_chain_next (delegate_next st) walk;
     case at of
       None \<Rightarrow> Some lo_nothing
     | Some a \<Rightarrow> do {
         answer \<leftarrow> lookup_receiver find_in st root a;
         case answer of Some found \<Rightarrow> Some found | None \<Rightarrow> lookup_chain find_in st root walk
       }
   }"

declare lookup_chain.simps [code]

text \<open>\<open>table_get_in\<close> with a key or, in its place, the bytes of one.\<close>

definition table_get_in ::
  "LhatStore \<Rightarrow> pointer \<Rightarrow> LhatValue \<Rightarrow> byte list option \<Rightarrow> LhatLocated option" where
  "table_get_in st table key text =
     (case table of
        None \<Rightarrow> Some lo_nothing
      | Some root \<Rightarrow>
          (case text of
             Some bytes \<Rightarrow> lookup_chain (\<lambda>t. own_get_bytes st t bytes) st root (lhat_chain (Some root))
           | None \<Rightarrow>
               if \<not> usable_key key then Some lo_nothing
               else
                 let key = normalise_key st key
                 in lookup_chain (\<lambda>t. own_get st t key) st root (lhat_chain (Some root))))"

definition lhat_table_locate :: "LhatStore \<Rightarrow> pointer \<Rightarrow> LhatValue \<Rightarrow> LhatLocated option" where
  "lhat_table_locate st table key = table_get_in st table key None"

definition lhat_table_locate_bytes :: "LhatStore \<Rightarrow> pointer \<Rightarrow> byte list option \<Rightarrow> LhatLocated option" where
  "lhat_table_locate_bytes st table name =
     (case name of
        None \<Rightarrow> Some lo_nothing
      | Some bytes \<Rightarrow> table_get_in st table VALUE_NIL (Some bytes))"

definition lhat_table_get :: "LhatStore \<Rightarrow> pointer \<Rightarrow> LhatValue \<Rightarrow> LhatValue option" where
  "lhat_table_get st table key = map_option lo_value (table_get_in st table key None)"

definition lhat_table_get_bytes :: "LhatStore \<Rightarrow> pointer \<Rightarrow> byte list option \<Rightarrow> LhatValue option" where
  "lhat_table_get_bytes st table name =
     (case name of
        None \<Rightarrow> Some VALUE_NIL
      | Some bytes \<Rightarrow> map_option lo_value (table_get_in st table VALUE_NIL (Some bytes)))"

definition lhat_table_lent :: "LhatStore \<Rightarrow> addr \<Rightarrow> LhatValue option" where
  "lhat_table_lent st instance =
     map_option (\<lambda>lent. if lent = None then VALUE_NIL else VALUE_OBJECT lent) (delegate_next st instance)"

text \<open>A lookup by the bytes of a host value (tag 0 being no tag): the probe is the same, against the boxes
with that tag and those bytes.\<close>

fun boxes_value :: "LhatStore \<Rightarrow> u64 \<Rightarrow> byte list \<Rightarrow> LhatValue \<Rightarrow> bool" where
  "boxes_value st tag bytes k =
     (case content_of st k of
        Some (CONTENT_BOX tag' bytes' sealed) \<Rightarrow> tag' = tag \<and> bytes' = bytes
      | _ \<Rightarrow> False)"

definition lhat_table_get_by_value ::
  "LhatStore \<Rightarrow> LhatTable \<Rightarrow> u64 \<Rightarrow> byte list \<Rightarrow> LhatValue option" where
  "lhat_table_get_by_value st t tag bytes =
     (if tag = 0 \<or> entry_capacity t = 0 then Some VALUE_NIL
      else map_option answer_value
             (own_hashed t (boxes_value st tag bytes) (content_key_hash tag bytes)))"

end
