(* ===== verification/Lhat_LookupOk.thy ===== *)
theory Lhat_LookupOk
  imports Lhat_Lookup
begin

text \<open>
  Every lookup returns, and what it answers stands where it says.  A store is in order when its tables
  keep their invariant and point at tables, when what a table was made from was made before it, and
  an overload before the group it is in.
\<close>

definition older :: "LhatStore \<Rightarrow> (addr \<Rightarrow> nat) \<Rightarrow> bool" where
  "older st rank \<longleftrightarrow>
     (\<forall>a t d. table_at st a = Some t \<and> tb_definition t = Some d \<longrightarrow> rank d < rank a) \<and>
     (\<forall>a cs b. st_content st a = CONTENT_OVERLOAD cs \<and> VALUE_OBJECT (Some b) \<in> set cs \<longrightarrow> rank b < rank a)"

definition store_ok :: "LhatStore \<Rightarrow> bool" where
  "store_ok st \<longleftrightarrow>
     (\<forall>a t. table_at st a = Some t \<longrightarrow> table_ok st t \<and>
        (\<forall>d. tb_definition t = Some d \<longrightarrow> table_at st d \<noteq> None) \<and>
        (tb_delegate_key t \<noteq> VALUE_NIL \<longrightarrow> storable_key st (tb_delegate_key t))) \<and>
     (\<forall>a tag p released ms. st_content st a = CONTENT_HOSTDATA tag p released (Some ms) \<longrightarrow>
        table_at st ms \<noteq> None) \<and>
     finite {a. st_content st a \<noteq> CONTENT_OTHER} \<and> (\<exists>rank. older st rank)"

lemma store_okD:
  assumes "store_ok st" "table_at st a = Some t"
  shows "table_ok st t" "table_shape st t" "tb_definition t = Some d \<Longrightarrow> table_at st d \<noteq> None"
    "tb_delegate_key t \<noteq> VALUE_NIL \<Longrightarrow> storable_key st (tb_delegate_key t)"
proof -
  show "table_ok st t" using assms unfolding store_ok_def by blast
  then show "table_shape st t" by (simp add: table_ok_def)
  show "table_at st d \<noteq> None" if "tb_definition t = Some d" using assms that unfolding store_ok_def by blast
  show "storable_key st (tb_delegate_key t)" if "tb_delegate_key t \<noteq> VALUE_NIL"
    using assms that unfolding store_ok_def by blast
qed

lemma members_at:
  assumes "store_ok st" "members_table_of st v = Some b"
  shows "table_at st b \<noteq> None"
proof -
  obtain a where "v = VALUE_OBJECT (Some a)"
    using assms(2) by (elim members_table_of.elims) simp_all
  then consider t where "st_content st a = CONTENT_TABLE t" "b = a"
    | tag p released where "st_content st a = CONTENT_HOSTDATA tag p released (Some b)"
    using assms(2) by (cases "st_content st a") simp_all
  then show ?thesis
  proof cases
    case 1
    then show ?thesis by (simp add: table_at_def)
  next
    case 2
    then show ?thesis using assms(1) unfolding store_ok_def by blast
  qed
qed

subsection \<open>Asking for a receiver\<close>

definition asks_alike :: "LhatStore \<Rightarrow> LhatValue list \<Rightarrow> bool \<Rightarrow> bool" where
  "asks_alike st vs takes \<longleftrightarrow>
     (\<forall>rest b. takes_receiver st rest = Some b \<longrightarrow> takes_receiver st (vs @ rest) = Some (takes \<or> b))"

lemma asks_append: "asks_alike st vs t \<Longrightarrow> asks_alike st ws u \<Longrightarrow> asks_alike st (vs @ ws) (t \<or> u)"
  by (simp add: asks_alike_def)

lemma asks_list: "(\<And>v. v \<in> set vs \<Longrightarrow> \<exists>t. asks_alike st [v] t) \<Longrightarrow> \<exists>t. asks_alike st vs t"
proof (induction vs)
  case Nil
  have "asks_alike st [] False" by (simp add: asks_alike_def)
  then show ?case by blast
next
  case (Cons v vs)
  then have "\<exists>u. asks_alike st vs u" by simp
  then obtain t u where "asks_alike st [v] t" "asks_alike st vs u" using Cons.prems [of v] by auto
  from asks_append [OF this] show ?case by auto
qed

lemma asks_one:
  assumes r: "older st rank"
  shows "\<exists>t. asks_alike st [v] t"
proof (induction "case v of VALUE_OBJECT (Some a) \<Rightarrow> Suc (rank a) | _ \<Rightarrow> 0" arbitrary: v rule: less_induct)
  case less
  have step: "takes_receiver st (v # rest) =
      (case content_of st v of
         Some (CONTENT_SUBROUTINE takes) \<Rightarrow> if takes = Some True then Some True else takes_receiver st rest
       | Some (CONTENT_HOST takes) \<Rightarrow> if takes then Some True else takes_receiver st rest
       | Some (CONTENT_OVERLOAD candidates) \<Rightarrow> takes_receiver st (candidates @ rest)
       | _ \<Rightarrow> takes_receiver st rest)" for rest
    by (subst takes_receiver.simps) simp
  show ?case
  proof (cases "\<exists>cs. content_of st v = Some (CONTENT_OVERLOAD cs)")
    case True
    then obtain a cs where a: "v = VALUE_OBJECT (Some a)" "st_content st a = CONTENT_OVERLOAD cs"
      by (cases "(st, v)" rule: content_of.cases) auto
    have "\<exists>t. asks_alike st [w] t" if w: "w \<in> set cs" for w
      using a w r by (intro less) (auto simp: older_def split: LhatValue.split option.split)
    then obtain t where "asks_alike st cs t" using asks_list by blast
    moreover have "takes_receiver st (v # rest) = takes_receiver st (cs @ rest)" for rest
      unfolding step using a by simp
    ultimately have "asks_alike st [v] t" by (simp add: asks_alike_def)
    then show ?thesis by blast
  next
    case False
    have "asks_alike st [v]
        (content_of st v = Some (CONTENT_SUBROUTINE (Some True)) \<or> content_of st v = Some (CONTENT_HOST True))"
      unfolding asks_alike_def using False by (auto simp: step split: option.splits LhatContent.splits)
    then show ?thesis by blast
  qed
qed

lemma takes_returns: "store_ok st \<Longrightarrow> lhat_takes_receiver st v \<noteq> None"
proof -
  assume "store_ok st"
  then obtain rank where "older st rank" by (auto simp: store_ok_def)
  then obtain t where "asks_alike st [v] t" using asks_one by blast
  moreover have "takes_receiver st [] = Some False" by (simp add: takes_receiver.simps)
  ultimately have "takes_receiver st ([v] @ []) = Some (t \<or> False)" unfolding asks_alike_def by blast
  then show ?thesis by (simp add: lhat_takes_receiver_def)
qed


subsection \<open>The definitions of a receiver\<close>

text \<open>What the lookup answers is the first thing the definitions hold, in their order.\<close>

definition own_answer :: "LhatFind \<Rightarrow> LhatStore \<Rightarrow> bool \<Rightarrow> bool \<Rightarrow> LhatOwnAnswer \<Rightarrow> bool" where
  "own_answer find_in st restricted delegated answer \<longleftrightarrow>
     (case answer of
        OWN_VALUE v b at inherited \<Rightarrow>
          (\<exists>t. table_at st b = Some t \<and> find_in t = Some (Some (v, at))) \<and>
          (restricted \<and> inherited \<or> delegated \<longrightarrow> lhat_takes_receiver st v = Some True)
      | _ \<Rightarrow> True)"

lemma lookup_own_returns:
  assumes ok: "store_ok st" and r: "older st rank"
    and find: "\<forall>a t. table_at st a = Some t \<longrightarrow> find_in t \<noteq> None"
    and p: "\<And>a. p = Some a \<Longrightarrow> table_at st a \<noteq> None"
  shows "\<exists>answer. lookup_own find_in st restricted delegated p inherited = Some answer \<and>
    own_answer find_in st restricted delegated answer"
  using p
proof (induction "case p of Some a \<Rightarrow> Suc (rank a) | None \<Rightarrow> 0" arbitrary: p inherited rule: less_induct)
  case less
  show ?case
  proof (cases p)
    case None
    then show ?thesis by (subst lookup_own.simps) (simp add: own_answer_def)
  next
    case (Some a)
    then obtain t found where t: "table_at st a = Some t" "find_in t = Some found"
      using less.prems find by (metis not_None_eq)
    show ?thesis
    proof (cases found)
      case None
      have "\<exists>answer. lookup_own find_in st restricted delegated (tb_definition t) True = Some answer \<and>
          own_answer find_in st restricted delegated answer"
        using r t(1) Some store_okD(3) [OF ok t(1)] less.prems
        by (intro less.hyps) (auto simp: older_def split: option.split)
      then show ?thesis
        using Some t None by (subst lookup_own.simps) simp
    next
      case (Some f)
      obtain v at where f: "f = (v, at)" by (cases f)
      obtain takes where "lhat_takes_receiver st v = Some takes" using takes_returns [OF ok] by blast
      then show ?thesis
        using \<open>p = Some a\<close> t Some f by (subst lookup_own.simps) (auto simp: own_answer_def)
    qed
  qed
qed


subsection \<open>Probes of any key\<close>

text \<open>Whatever is probed for, the probe ends, at an entry that matches or at one that holds no key.\<close>

lemma probe_total:
  assumes n: "length es = 2 ^ n" and free: "some_free es"
  obtains i where "i < length es" "probe_spelt es matches hash = Some i"
    "live_entry (es ! i) \<Longrightarrow> matches (fst (es ! i))"
proof -
  let ?s = "probe_slot (length es) hash"
  have less: "?s d < length es" for d using n by simp
  obtain x where x: "x < length es" "entry_is_free (es ! x)"
    using free unfolding some_free_def by (metis in_set_conv_nth)
  obtain c where "?s c = x" using probe_slot_onto [OF x(1), of hash] by metis
  then have ex: "\<not> passes matches (es ! ?s c)"
    using x(2) entry_cases(1) [of "es ! x"] by (auto simp: passes_def)
  define d where "d = (LEAST d. \<not> passes matches (es ! ?s d))"
  have d: "\<not> passes matches (es ! ?s d)" unfolding d_def using ex by (rule LeastI)
  have pass: "passes matches (es ! ?s e)" if "e < d" for e
    using not_less_Least [OF that [unfolded d_def]] by blast
  show ?thesis
  proof (cases "entry_is_free (es ! ?s d)")
    case True
    from probe_miss [OF n pass this]
    obtain e where "probe_spelt es matches hash = Some (?s e)" "\<not> live_entry (es ! ?s e)" by metis
    then show ?thesis using that less by blast
  next
    case False
    then have live: "live_entry (es ! ?s d)" "matches (fst (es ! ?s d))"
      using d entry_cases [of "es ! ?s d"] by (auto simp: passes_def)
    from probe_hit [OF n pass live] show ?thesis using that less live by blast
  qed
qed

lemma shape_probe:
  assumes "table_shape st t" "entry_capacity t \<noteq> 0"
  obtains i where "i < entry_capacity t" "probe_spelt (tb_entries t) matches hash = Some i"
    "live_entry (tb_entries t ! i) \<Longrightarrow> matches (fst (tb_entries t ! i))"
  using probe_total [OF _ shape_free [OF assms]] value_keys.entries_okD(1) [OF shapeD(1) [OF assms]] by metis

definition stands_at :: "LhatTable \<Rightarrow> (LhatValue \<Rightarrow> bool) \<Rightarrow> LhatValue \<Rightarrow> nat \<Rightarrow> bool" where
  "stands_at t matches v i \<longleftrightarrow>
     i < entry_capacity t \<and> (\<exists>k. tb_entries t ! i = (k, v) \<and> k \<noteq> VALUE_NIL \<and> matches k) \<and> v \<noteq> VALUE_NIL"

lemma own_hashed_total:
  assumes s: "table_shape st t"
  obtains found where "own_hashed t matches hash = Some found"
    "\<And>v at. found = Some (v, at) \<Longrightarrow> \<exists>i. at = Some i \<and> stands_at t matches v i"
proof (cases "entry_capacity t = 0")
  case True
  then show ?thesis using that [of None] by (simp add: own_hashed_def)
next
  case False
  obtain i where i: "i < entry_capacity t" "probe_spelt (tb_entries t) matches hash = Some i"
    "live_entry (tb_entries t ! i) \<Longrightarrow> matches (fst (tb_entries t ! i))"
    using shape_probe [OF s False] by metis
  obtain k v where e: "tb_entries t ! i = (k, v)" by fastforce
  show ?thesis
  proof (rule that)
    show "own_hashed t matches hash =
        Some (if lhat_is_nil k \<or> lhat_is_nil v then None else Some (v, Some i))"
      using False i(2) e by (simp add: own_hashed_def)
    show "\<exists>j. at = Some j \<and> stands_at t matches w j"
      if "(if lhat_is_nil k \<or> lhat_is_nil v then None else Some (v, Some i)) = Some (w, at)" for w at
      using that i(1,3) e by (auto simp: stands_at_def live_entry_def split: if_splits)
  qed
qed


lemma own_get_total:
  assumes "table_shape st t"
  obtains found where "own_get st t k = Some found"
    "\<And>v i. found = Some (v, Some i) \<Longrightarrow> stands_at t (\<lambda>h. lhat_value_equal st h k) v i"
proof (cases "array_index t k")
  case None
  obtain found where f: "own_hashed t (\<lambda>h. lhat_value_equal st h k) (hash_key st k) = Some found"
    "\<And>v at. found = Some (v, at) \<Longrightarrow> \<exists>i. at = Some i \<and> stands_at t (\<lambda>h. lhat_value_equal st h k) v i"
    by (rule own_hashed_total [OF assms]) blast
  show ?thesis
  proof (rule that)
    show "own_get st t k = Some found" using None f(1) by (simp add: own_get_def)
  qed (use f(2) in blast)
next
  case (Some j)
  show ?thesis
  proof (rule that)
    show "own_get st t k = Some (Some (tb_array t ! j, None))" using Some by (simp add: own_get_def)
  qed simp
qed

lemma own_bytes_total:
  assumes "table_shape st t"
  obtains found where "own_get_bytes st t text = Some found"
    "\<And>v i. found = Some (v, Some i) \<Longrightarrow> stands_at t (\<lambda>h. spells st h text) v i"
proof -
  obtain found where f: "own_hashed t (\<lambda>h. spells st h text) (lhat_string_hash text) = Some found"
    "\<And>v at. found = Some (v, at) \<Longrightarrow> \<exists>i. at = Some i \<and> stands_at t (\<lambda>h. spells st h text) v i"
    by (rule own_hashed_total [OF assms]) blast
  show ?thesis
    by (rule that [of found]) (use f in \<open>auto simp: own_get_bytes_def\<close>)
qed

subsection \<open>The chain of delegates\<close>

lemma delegate_returns:
  assumes ok: "store_ok st"
  obtains p where "delegate_next st a = Some p" "\<And>b. p = Some b \<Longrightarrow> members_table_of st (VALUE_OBJECT (Some b)) \<noteq> None"
proof (cases "\<exists>receiver d. st_content st a = CONTENT_TABLE receiver \<and> tb_definition receiver = Some d \<and>
    \<not> tb_is_definition receiver")
  case False
  then have "delegate_next st a = Some None"
    by (auto simp: delegate_next_def split: LhatContent.split option.split)
  then show ?thesis using that by blast
next
  case True
  then obtain receiver d where a: "st_content st a = CONTENT_TABLE receiver" "tb_definition receiver = Some d"
    "\<not> tb_is_definition receiver" by blast
  then have r: "table_at st a = Some receiver" by (simp add: table_at_def)
  then obtain owner where w: "table_at st d = Some owner" using store_okD(3) [OF ok r a(2)] by blast
  define holder where "holder = (if tb_delegate_from_self owner then receiver else owner)"
  have shape: "table_shape st holder" using store_okD(2) [OF ok r] store_okD(2) [OF ok w] by (simp add: holder_def)
  let ?k = "tb_delegate_key owner"
  show ?thesis
  proof (cases "?k = VALUE_NIL \<or> entry_capacity holder = 0")
    case True
    then have "delegate_next st a = Some None"
      using a w by (auto simp: delegate_next_def holder_def Let_def)
    then show ?thesis using that by blast
  next
    case False
    then obtain i where i: "probe st (tb_entries holder) ?k (hash_key st ?k) = Some i"
      using shape_probe [OF shape] unfolding probe_def by metis
    obtain held target where e: "tb_entries holder ! i = (held, target)" by fastforce
    have "delegate_next st a = Some (if \<not> lhat_is_nil held \<and> members_table_of st target \<noteq> None
        then (case target of VALUE_OBJECT p \<Rightarrow> p | _ \<Rightarrow> None) else None)"
      using a w False i e unfolding delegate_next_def holder_def [symmetric] by (simp add: Let_def holder_def [symmetric])
    then show ?thesis
      by (rule that) (auto split: if_splits LhatValue.splits)
  qed
qed

text \<open>So the chain is that of a link that always returns.\<close>

definition delegate_link :: "LhatStore \<Rightarrow> addr \<Rightarrow> pointer" where
  "delegate_link st a = the (delegate_next st a)"

lemma delegate_next_is: "store_ok st \<Longrightarrow> delegate_next st = returning (delegate_link st)"
proof
  fix a assume "store_ok st"
  then obtain p where "delegate_next st a = Some p" by (rule delegate_returns)
  then show "delegate_next st a = Some (delegate_link st a)" by (simp add: delegate_link_def)
qed

lemma delegate_members:
  assumes "store_ok st" "delegate_link st a = Some b"
  shows "members_table_of st (VALUE_OBJECT (Some b)) \<noteq> None"
  using delegate_returns [OF assms(1), of a] assms(2) by (metis delegate_link_def option.sel)

lemma members_content: "members_table_of st (VALUE_OBJECT (Some b)) \<noteq> None \<Longrightarrow> st_content st b \<noteq> CONTENT_OTHER"
  by auto

lemma delegates_finite:
  assumes ok: "store_ok st"
  shows "finite (chain_nodes (delegate_link st) (Some root))"
proof (rule finite_subset)
  show "chain_nodes (delegate_link st) (Some root) \<subseteq> insert root {a. st_content st a \<noteq> CONTENT_OTHER}"
  proof
    fix x assume "x \<in> chain_nodes (delegate_link st) (Some root)"
    then obtain i where i: "chain_at (delegate_link st) (Some root) i = Some x" by (auto simp: chain_nodes_def)
    show "x \<in> insert root {a. st_content st a \<noteq> CONTENT_OTHER}"
    proof (cases i)
      case (Suc j)
      then obtain y where "delegate_link st y = Some x"
        using i by (auto simp: Option.bind_eq_Some_conv)
      then show ?thesis using members_content [OF delegate_members [OF ok]] by blast
    qed (use i in simp)
  qed
  show "finite (insert root {a. st_content st a \<noteq> CONTENT_OTHER})" using ok by (auto simp: store_ok_def)
qed


subsection \<open>The whole lookup\<close>

text \<open>A receiver answers with what one of its definitions holds, and what is not the receiver's own is lent
only where it takes a receiver.\<close>

definition located_ok :: "LhatFind \<Rightarrow> LhatStore \<Rightarrow> addr \<Rightarrow> addr \<Rightarrow> LhatLocated \<Rightarrow> bool" where
  "located_ok find_in st root a found \<longleftrightarrow>
     found = lo_nothing \<or>
     (\<exists>b t v at inherited. table_at st b = Some t \<and> find_in t = Some (Some (v, at)) \<and>
        found = located (a \<noteq> root) a v b at inherited \<and>
        (a \<noteq> root \<or> inherited \<and> (\<exists>r. table_at st a = Some r \<and> \<not> tb_is_definition r) \<longrightarrow>
           lhat_takes_receiver st v = Some True))"

lemma receiver_returns:
  assumes ok: "store_ok st" and find: "\<forall>a t. table_at st a = Some t \<longrightarrow> find_in t \<noteq> None"
    and m: "members_table_of st (VALUE_OBJECT (Some a)) = Some start"
  obtains answer where "lookup_receiver find_in st root a = Some answer"
    "\<And>found. answer = Some found \<Longrightarrow> located_ok find_in st root a found"
proof -
  obtain t where t: "table_at st start = Some t" using members_at [OF ok m] by blast
  obtain rank where r: "older st rank" using ok by (auto simp: store_ok_def)
  obtain own where own: "lookup_own find_in st (\<not> tb_is_definition t) (a \<noteq> root) (Some start) False = Some own"
    "own_answer find_in st (\<not> tb_is_definition t) (a \<noteq> root) own"
    using lookup_own_returns [where find_in = find_in and p = "Some start" and inherited = False, OF ok r find] t
    by auto
  have same: "table_at st a = Some q \<Longrightarrow> q = t" for q
    using m t by (auto simp: table_at_def split: LhatContent.splits)
  let ?answer = "case own of
      OWN_NOTHING \<Rightarrow> None
    | OWN_BLOCKED \<Rightarrow> Some lo_nothing
    | OWN_VALUE v b at inherited \<Rightarrow> Some (located (a \<noteq> root) a v b at inherited)"
  show ?thesis
  proof (rule that)
    show "lookup_receiver find_in st root a = Some ?answer"
      using m t own(1) unfolding lookup_receiver_def Let_def m by simp
    fix found assume found: "?answer = Some found"
    show "located_ok find_in st root a found"
    proof (cases own)
      case (OWN_VALUE v b at inherited)
      then obtain t' where t': "table_at st b = Some t'" "find_in t' = Some (Some (v, at))"
        using own(2) by (auto simp: own_answer_def)
      have "a \<noteq> root \<or> inherited \<and> (\<exists>r. table_at st a = Some r \<and> \<not> tb_is_definition r) \<longrightarrow>
          lhat_takes_receiver st v = Some True"
        using own(2) same OWN_VALUE by (auto simp: own_answer_def)
      moreover have "found = located (a \<noteq> root) a v b at inherited" using found OWN_VALUE by simp
      ultimately show ?thesis unfolding located_ok_def using t' by blast
    qed (use found in \<open>simp_all add: located_ok_def\<close>)
  qed
qed

lemma lookup_chain_runs:
  assumes "chain_all (delegate_next st) n walk = Some xs"
    and "\<And>a. a \<in> set xs \<Longrightarrow> \<exists>answer. lookup_receiver find_in st root a = Some answer \<and>
      (\<forall>found. answer = Some found \<longrightarrow> located_ok find_in st root a found)"
  shows "\<exists>found. lookup_chain find_in st root walk = Some found \<and>
    (found = lo_nothing \<or> (\<exists>a\<in>set xs. located_ok find_in st root a found))"
  using assms
proof (induction n arbitrary: walk xs)
  case (Suc n)
  obtain walk' at where step: "lhat_chain_next (delegate_next st) walk = Some (walk', at)"
    using Suc.prems(1) by (cases "lhat_chain_next (delegate_next st) walk") auto
  show ?case
  proof (cases at)
    case None
    then show ?thesis using step by (subst lookup_chain.simps) simp
  next
    case (Some a)
    then obtain ys where ys: "chain_all (delegate_next st) n walk' = Some ys" "xs = a # ys"
      using Suc.prems(1) step by auto
    obtain answer where answer: "lookup_receiver find_in st root a = Some answer"
      "\<forall>found. answer = Some found \<longrightarrow> located_ok find_in st root a found"
      using Suc.prems(2) [of a] ys(2) by auto
    show ?thesis
    proof (cases answer)
      case none: None
      have "\<exists>found. lookup_chain find_in st root walk' = Some found \<and>
          (found = lo_nothing \<or> (\<exists>a\<in>set ys. located_ok find_in st root a found))"
        using Suc.IH [OF ys(1)] Suc.prems(2) ys(2) by auto
      then show ?thesis using step Some answer(1) none ys(2) by (subst lookup_chain.simps) auto
    next
      case found: (Some found)
      then show ?thesis using step Some answer ys(2) by (subst lookup_chain.simps) auto
    qed
  qed
qed simp

theorem lookup_chain_ok:
  assumes ok: "store_ok st" and find: "\<forall>a t. table_at st a = Some t \<longrightarrow> find_in t \<noteq> None"
    and root: "table_at st root \<noteq> None"
  shows "\<exists>found. lookup_chain find_in st root (lhat_chain (Some root)) = Some found \<and>
    (\<exists>a\<in>chain_nodes (delegate_link st) (Some root). located_ok find_in st root a found)"
proof -
  let ?link = "delegate_link st"
  obtain xs where xs: "chain_all (delegate_next st) (Suc (card (chain_nodes ?link (Some root)))) (lhat_chain (Some root)) = Some xs"
    "set xs = chain_nodes ?link (Some root)" "\<forall>i<length xs. chain_at ?link (Some root) i = Some (xs ! i)"
    using chain_all_once [OF delegates_finite [OF ok], of root] unfolding delegate_next_is [OF ok] by blast
  have r: "root \<in> chain_nodes ?link (Some root)" by (auto simp: chain_nodes_def intro: exI [of _ 0])
  have members: "\<exists>start. members_table_of st (VALUE_OBJECT (Some a)) = Some start" if "a \<in> set xs" for a
  proof -
    obtain i where i: "chain_at ?link (Some root) i = Some a"
      using \<open>a \<in> set xs\<close> xs(2) by (auto simp: chain_nodes_def)
    show ?thesis
    proof (cases i)
      case 0
      then show ?thesis using i root by (auto simp: table_at_def split: LhatContent.splits)
    next
      case (Suc j)
      then obtain y where "?link y = Some a" using i by (auto simp: Option.bind_eq_Some_conv)
      then show ?thesis using delegate_members [OF ok] by blast
    qed
  qed
  have "\<exists>answer. lookup_receiver find_in st root a = Some answer \<and>
      (\<forall>found. answer = Some found \<longrightarrow> located_ok find_in st root a found)" if a: "a \<in> set xs" for a
  proof -
    obtain start where "members_table_of st (VALUE_OBJECT (Some a)) = Some start" using members [OF a] by blast
    from receiver_returns [where find_in = find_in, OF ok find this, of root] obtain answer where
      "lookup_receiver find_in st root a = Some answer"
      "\<And>found. answer = Some found \<Longrightarrow> located_ok find_in st root a found" by blast
    then show ?thesis by blast
  qed
  from lookup_chain_runs [OF xs(1) this] obtain found where
    f: "lookup_chain find_in st root (lhat_chain (Some root)) = Some found"
    "found = lo_nothing \<or> (\<exists>a\<in>set xs. located_ok find_in st root a found)" by blast
  have "located_ok find_in st root root lo_nothing" by (simp add: located_ok_def)
  then show ?thesis using f r xs(2) by blast
qed

end
