(* ===== verification/Lhat_LookupProps.thy ===== *)
theory Lhat_LookupProps
  imports Lhat_TableProps Lhat_LookupOk
begin

text \<open>
  The properties of looking a key up through definitions and delegates, with an instance whose
  delegate is itself.
\<close>

subsection \<open>A small family of tables\<close>

text \<open>A table that holds one value under the key 7.\<close>

definition one_entry :: "LhatValue \<Rightarrow> LhatTable" where
  "one_entry w = new_table\<lparr>tb_entries := [nil_entry, nil_entry, nil_entry, nil_entry, nil_entry,
     nil_entry, nil_entry, (VALUE_INTEGER 7, w)], tb_entry_count := 1\<rparr>"

lemma eight_cases: "i < 8 \<longleftrightarrow> i = 0 \<or> i = 1 \<or> i = 2 \<or> i = 3 \<or> i = 4 \<or> i = 5 \<or> i = 6 \<or> i = (7 :: nat)"
  by auto

lemma one_entry_ok: "table_ok st (one_entry w)"
proof -
  let ?es = "tb_entries (one_entry w)"
  have es: "?es = [nil_entry, nil_entry, nil_entry, nil_entry, nil_entry, nil_entry, nil_entry, (VALUE_INTEGER 7, w)]"
    by (simp add: one_entry_def)
  have len: "length ?es = 8" by (simp add: es)
  have live: "live_entry (?es ! i) \<longleftrightarrow> i = 7" if "i < 8" for i
    using that unfolding es eight_cases by (auto simp: live_entry_def nil_entry_def)
  have at: "?es ! 7 = (VALUE_INTEGER 7, w)" by (simp add: es)
  have "probe_slot 8 (hash_key st (VALUE_INTEGER 7)) 0 = 7" by (simp add: probe_slot_def fold_bits_def)
  then have reached: "reached ?es (hash_key st (VALUE_INTEGER 7)) 7"
    unfolding reached_def len by (intro exI [of _ 0]) simp
  have "hash_ok st ?es"
    unfolding entries_ok_def len
  proof (intro conjI allI impI)
    show "\<exists>n. (8 :: nat) = 2 ^ n" by (intro exI [of _ 3]) simp
    fix i assume "i < 8" "live_entry (?es ! i)"
    then have "i = 7" using live by simp
    then show "storable_key st (fst (?es ! i))" "reached ?es (hash_key st (fst (?es ! i))) i"
      using reached at int_storable by simp_all
  next
    fix i j assume "i < 8" "j < 8" "live_entry (?es ! i) \<and> live_entry (?es ! j) \<and> lhat_value_equal st (fst (?es ! i)) (fst (?es ! j))"
    then show "i = j" using live by metis
  qed
  then have "table_shape st (one_entry w)"
    by (intro shapeI) (simp_all add: one_entry_def new_table_def live_count_def tomb_count_def live_entry_def
        nil_entry_def load_ok_def)
  then show ?thesis
    by (simp add: table_ok_def keys_from_def es nil_entry_def) (simp add: one_entry_def new_table_def)
qed

text \<open>At 1 an instance of the definition at 2, which holds a method under 7 and delegates to what the
instance holds under 7: the instance itself.\<close>

definition family :: LhatStore where
  "family =
     \<lparr>st_content = (\<lambda>a.
        if a = 1 then CONTENT_TABLE ((one_entry (VALUE_OBJECT (Some 1)))\<lparr>tb_definition := Some 2\<rparr>)
        else if a = 2 then CONTENT_TABLE ((one_entry (VALUE_OBJECT (Some 3)))
          \<lparr>tb_is_definition := True, tb_delegate_key := VALUE_INTEGER 7, tb_delegate_from_self := True\<rparr>)
        else if a = 3 then CONTENT_SUBROUTINE (Some True)
        else CONTENT_OTHER),
      st_address = word_of_nat, st_cast = (\<lambda>_. - (2 ^ 63)), st_room = (\<lambda>_. True)\<rparr>"

lemma ok_fields:
  "table_ok st (t\<lparr>tb_definition := d\<rparr>) = table_ok st t"
  "table_ok st (t\<lparr>tb_is_definition := b, tb_delegate_key := k, tb_delegate_from_self := c\<rparr>) = table_ok st t"
  by (simp_all add: table_ok_def table_shape_def keys_from_def)

lemma family_table:
  "table_at family a = Some t \<longleftrightarrow>
    a = 1 \<and> t = (one_entry (VALUE_OBJECT (Some 1)))\<lparr>tb_definition := Some 2\<rparr> \<or>
    a = 2 \<and> t = (one_entry (VALUE_OBJECT (Some 3)))
      \<lparr>tb_is_definition := True, tb_delegate_key := VALUE_INTEGER 7, tb_delegate_from_self := True\<rparr>"
  by (auto simp: table_at_def family_def)

lemma family_ok: "store_ok family"
  unfolding store_ok_def
proof (intro conjI allI impI)
  fix a t assume t: "table_at family a = Some t"
  then show "table_ok family t"
    using one_entry_ok by (auto simp: family_table ok_fields)
  have plain: "tb_definition (one_entry w) = None" "tb_delegate_key (one_entry w) = VALUE_NIL" for w
    by (simp_all add: one_entry_def new_table_def)
  show "tb_delegate_key t \<noteq> VALUE_NIL \<Longrightarrow> storable_key family (tb_delegate_key t)"
    "\<And>d. tb_definition t = Some d \<Longrightarrow> table_at family d \<noteq> None"
    using t int_storable plain by (auto simp: family_table)
next
  show "finite {a. st_content family a \<noteq> CONTENT_OTHER}"
    by (rule finite_subset [of _ "{1, 2, 3}"]) (auto simp: family_def)
  have "st_content family a \<noteq> CONTENT_OVERLOAD cs" "st_content family a \<noteq> CONTENT_HOSTDATA tag p released ms"
    for a cs tag p released ms
    by (simp_all add: family_def)
  then show "\<exists>rank. older family rank"
    "\<And>a tag p released ms. st_content family a = CONTENT_HOSTDATA tag p released (Some ms) \<Longrightarrow>
      table_at family ms \<noteq> None"
    by (auto simp: older_def family_table one_entry_def new_table_def
        intro!: exI [of _ "\<lambda>a. if a = 1 then 1 else 0"])
qed


subsection \<open>Lookups\<close>

lemma finds_all:
  assumes "store_ok st"
  shows "\<forall>a t. table_at st a = Some t \<longrightarrow> own_get st t k \<noteq> None"
    "\<forall>a t. table_at st a = Some t \<longrightarrow> own_get_bytes st t bytes \<noteq> None"
  using own_get_total [OF store_okD(2) [OF assms]] own_bytes_total [OF store_okD(2) [OF assms]]
  by (metis option.distinct(1))+

text \<open>C8: Every lookup returns, through definitions and through delegates, a ring of delegates included,
  whatever is looked for.\<close>

theorem lookup_returns:
  assumes "store_ok st" "table_at st root \<noteq> None"
  shows "lhat_table_get st (Some root) key \<noteq> None \<and> lhat_table_get_bytes st (Some root) name \<noteq> None \<and>
    lhat_table_locate st (Some root) key \<noteq> None \<and> lhat_table_locate_bytes st (Some root) name \<noteq> None"
proof -
  have "lookup_chain (\<lambda>t. own_get st t k) st root (lhat_chain (Some root)) \<noteq> None" for k
    using lookup_chain_ok [OF assms(1) finds_all(1) [OF assms(1)] assms(2)] by blast
  moreover have "lookup_chain (\<lambda>t. own_get_bytes st t bytes) st root (lhat_chain (Some root)) \<noteq> None" for bytes
    using lookup_chain_ok [OF assms(1) finds_all(2) [OF assms(1)] assms(2)] by blast
  ultimately show ?thesis
    by (auto simp: lhat_table_get_def lhat_table_get_bytes_def lhat_table_locate_def
        lhat_table_locate_bytes_def table_get_in_def Let_def split: option.splits)
qed

theorem lookup_returns_witness: "lhat_table_get family (Some 1) (VALUE_INTEGER 9) \<noteq> None"
  using lookup_returns [OF family_ok, of 1 "VALUE_INTEGER 9"] by (simp add: family_table table_at_def family_def)

text \<open>C9: What a lookup answers stands at the place it reports, under a key equal to the one asked for; and
  an inherited name of an instance, or a name lent by a delegate, is a value that takes a receiver.\<close>

theorem located_stands:
  assumes "store_ok st" "lhat_table_locate st (Some root) key = Some found" "table_at st root = Some r"
    and "lo_value found \<noteq> VALUE_NIL"
  shows "(\<forall>b i inherited. lo_place found = Some (b, i, inherited) \<longrightarrow>
      (\<exists>t. table_at st b = Some t \<and>
        stands_at t (\<lambda>h. lhat_value_equal st h (normalise_key st key)) (lo_value found) i \<and>
        (inherited \<and> \<not> tb_is_definition r \<longrightarrow> lhat_takes_receiver st (lo_value found) = Some True))) \<and>
    (lo_through found \<noteq> VALUE_NIL \<longrightarrow> lhat_takes_receiver st (lo_value found) = Some True)"
proof -
  let ?find = "\<lambda>t. own_get st t (normalise_key st key)"
  have "\<exists>a. located_ok ?find st root a found"
    using lookup_chain_ok [OF assms(1) finds_all(1) [OF assms(1)], of root "normalise_key st key"] assms(2,3,4)
    by (auto simp: lhat_table_locate_def table_get_in_def Let_def lo_nothing_def split: if_splits)
  moreover have "found \<noteq> lo_nothing" using assms(4) by (auto simp: lo_nothing_def)
  ultimately obtain a b t v at inherited where f: "table_at st b = Some t" "?find t = Some (Some (v, at))"
    "found = located (a \<noteq> root) a v b at inherited"
    "a \<noteq> root \<or> inherited \<and> (\<exists>r. table_at st a = Some r \<and> \<not> tb_is_definition r) \<longrightarrow>
      lhat_takes_receiver st v = Some True"
    unfolding located_ok_def by blast
  have stands: "stands_at t (\<lambda>h. lhat_value_equal st h (normalise_key st key)) v i" if "at = Some i" for i
    using own_get_total [OF store_okD(2) [OF assms(1) f(1)], where k = "normalise_key st key"] f(2) that
    by (metis option.inject)
  show ?thesis
    using f(1,3,4) stands assms(3) by (auto simp: located_def)
qed

lemma one_entry_get: "own_get st (one_entry w) (VALUE_INTEGER 7) = Some (if w = VALUE_NIL then None else Some (w, Some 7))"
  by (simp add: own_get_def own_hashed_def one_entry_def table_eval mask_8 probe_eval)

theorem located_stands_witness:
  "\<exists>found. lhat_table_locate family (Some 2) (VALUE_INTEGER 7) = Some found \<and> lo_place found = Some (2, 7, False) \<and>
    (\<exists>t. table_at family 2 = Some t \<and>
      stands_at t (\<lambda>h. lhat_value_equal family h (normalise_key family (VALUE_INTEGER 7))) (lo_value found) 7)"
proof -
  let ?t = "(one_entry (VALUE_OBJECT (Some 3)))
      \<lparr>tb_is_definition := True, tb_delegate_key := VALUE_INTEGER 7, tb_delegate_from_self := True\<rparr>"
  have t: "table_at family 2 = Some ?t" by (simp add: family_table)
  have get: "own_get family ?t (VALUE_INTEGER 7) = Some (Some (VALUE_OBJECT (Some 3), Some 7))"
    by (simp add: own_get_def own_hashed_def one_entry_def table_eval mask_8 probe_eval)
  have "lhat_table_locate family (Some 2) (VALUE_INTEGER 7) = Some (located False 2 (VALUE_OBJECT (Some 3)) 2 (Some 7) False)"
  proof -
    have d: "delegate_next family 2 = Some None"
      by (simp add: delegate_next_def family_def one_entry_def new_table_def)
    have m: "members_table_of family (VALUE_OBJECT (Some 2)) = Some 2" by (simp add: family_def)
    have own: "lookup_own (\<lambda>t. own_get family t (VALUE_INTEGER 7)) family False False (Some 2) False =
        Some (OWN_VALUE (VALUE_OBJECT (Some 3)) 2 (Some 7) False)"
      by (subst lookup_own.simps) (simp add: t get)
    have r: "lookup_receiver (\<lambda>t. own_get family t (VALUE_INTEGER 7)) family 2 2 =
        Some (Some (located False 2 (VALUE_OBJECT (Some 3)) 2 (Some 7) False))"
      unfolding lookup_receiver_def m Let_def by (simp add: t own)
    show ?thesis
      unfolding lhat_table_locate_def table_get_in_def
      by (simp add: normalise_key_def) (subst lookup_chain.simps, simp add: lhat_chain_next_def lhat_chain_def Let_def d r)
  qed
  note at = this
  show ?thesis
    using located_stands [OF family_ok at t] at by (auto simp: located_def)
qed

end
