(* ===== verification/Lhat_Sort.thy ===== *)
theory Lhat_Sort
  imports Lhat_Lookup
begin

text \<open>
  The sort of a table (\<open>sort_compare\<close> and \<open>table_sort\<close> of \<open>src/vm_table.c\<close>): a bottom-up merge sort
  between the run of the table and that of an auxiliary table.  A written comparator is a subroutine
  of the program; what calling it answers is a parameter of the model, and it is taken to leave the
  two runs alone.
\<close>

subsection \<open>How a run of the machine ends\<close>

datatype LhatRunStatus =
    LHAT_RUN_OK | LHAT_RUN_TYPE_ERROR | LHAT_RUN_BAD_STEP | LHAT_RUN_NOT_CALLABLE | LHAT_RUN_ARITY
  | LHAT_RUN_STACK_OVERFLOW | LHAT_RUN_OUT_OF_MEMORY | LHAT_RUN_BAD_KEY | LHAT_RUN_BAD_FORMAT
  | LHAT_RUN_DEAD_COROUTINE | LHAT_RUN_YIELD_OUTSIDE | LHAT_RUN_NO_CANDIDATE
  | LHAT_RUN_COROUTINE_NOT_STARTED | LHAT_RUN_COROUTINE_ALREADY_STARTED | LHAT_RUN_COSTATE
  | LHAT_RUN_SEALED | LHAT_RUN_MUTABLE_DEFAULT | LHAT_RUN_NO_SUCH_UNIT | LHAT_RUN_TUPLE_ARITY
  | LHAT_RUN_TUPLE_UNEXPECTED | LHAT_RUN_PANIC | LHAT_RUN_SUSPENDED

text \<open>What \<open>lhat_machine_call\<close> answers for a subroutine and its arguments.\<close>

type_synonym LhatCall = "LhatValue \<Rightarrow> LhatValue list \<Rightarrow> LhatRunStatus \<times> LhatValue"

definition sort_compare ::
  "LhatStore \<Rightarrow> LhatCall \<Rightarrow> LhatValue \<Rightarrow> LhatValue \<Rightarrow> LhatValue \<Rightarrow> LhatRunStatus \<times> int" where
  "sort_compare st call cmp x y =
     (if lhat_is_nil cmp then
        (case vm_three_way st x y of
           Some outcome \<Rightarrow> (LHAT_RUN_OK, outcome)
         | None \<Rightarrow> (LHAT_RUN_TYPE_ERROR, 0))
      else
        let (status, v) = call cmp [x, y]
        in if status \<noteq> LHAT_RUN_OK then (status, 0)
           else if \<not> lhat_is_number v then (LHAT_RUN_TYPE_ERROR, 0)
           else
             let answer = lhat_number_as_real v
             in (LHAT_RUN_OK,
                 if float_less answer float_zero then - 1
                 else if float_less float_zero answer then 1 else 0))"

subsection \<open>The merge\<close>

text \<open>The innermost loop, from \<open>k\<close> on: \<open>into\<close> takes from the two halves of \<open>from\<close> that are left.\<close>

type_synonym LhatCompare = "LhatValue \<Rightarrow> LhatValue \<Rightarrow> LhatRunStatus \<times> int"

function merge_halves ::
  "LhatCompare \<Rightarrow> LhatValue list \<Rightarrow> nat \<Rightarrow> nat \<Rightarrow> nat \<Rightarrow> nat \<Rightarrow> nat \<Rightarrow> LhatValue list \<Rightarrow>
   LhatRunStatus \<times> LhatValue list" where
  "merge_halves compare from mid hi i j k into =
     (if k < hi then
        let (status, take_left) =
              (if mid \<le> i then (LHAT_RUN_OK, False)
               else if hi \<le> j then (LHAT_RUN_OK, True)
               else case compare (from ! i) (from ! j) of (status, outcome) \<Rightarrow> (status, outcome \<le> 0))
        in if status \<noteq> LHAT_RUN_OK then (status, into)
           else if take_left then
             merge_halves compare from mid hi (i + 1) j (k + 1) (into[k := from ! i])
           else merge_halves compare from mid hi i (j + 1) (k + 1) (into[k := from ! j])
      else (LHAT_RUN_OK, into))"
  by pat_completeness auto
termination
  by (relation "measure (\<lambda>(compare, from, mid, hi, i, j, k, into). hi - k)") auto

text \<open>One pass, from \<open>lo\<close> on.  The width is never zero; the guard keeps the recursion well-founded.\<close>

function sort_pass ::
  "LhatCompare \<Rightarrow> LhatValue list \<Rightarrow> nat \<Rightarrow> nat \<Rightarrow> nat \<Rightarrow> LhatValue list \<Rightarrow>
   LhatRunStatus \<times> LhatValue list" where
  "sort_pass compare from count width lo into =
     (if lo < count \<and> 0 < width then
        let mid = (if lo + width < count then lo + width else count);
            hi = (if lo + 2 * width < count then lo + 2 * width else count);
            (status, into) = merge_halves compare from mid hi lo mid lo into
        in if status \<noteq> LHAT_RUN_OK then (status, into)
           else sort_pass compare from count width (lo + 2 * width) into
      else (LHAT_RUN_OK, into))"
  by pat_completeness auto
termination
  by (relation "measure (\<lambda>(compare, from, count, width, lo, into). count - lo)") auto

text \<open>The passes.  The two runs change places after each, the last one included; \<open>from_is_t\<close> says which
of them is the table's.\<close>

record LhatSorting =
  so_status :: LhatRunStatus
  so_from :: "LhatValue list"
  so_into :: "LhatValue list"
  so_from_is_t :: bool

function sort_passes ::
  "LhatCompare \<Rightarrow> nat \<Rightarrow> nat \<Rightarrow> LhatValue list \<Rightarrow> LhatValue list \<Rightarrow> bool \<Rightarrow> LhatSorting" where
  "sort_passes compare count width from into from_is_t =
     (if width < count \<and> 0 < width then
        let (status, into) = sort_pass compare from count width 0 into
        in if status \<noteq> LHAT_RUN_OK then
             \<lparr>so_status = status, so_from = into, so_into = from, so_from_is_t = (\<not> from_is_t)\<rparr>
           else sort_passes compare count (width * 2) into from (\<not> from_is_t)
      else
        \<lparr>so_status = LHAT_RUN_OK, so_from = from, so_into = into, so_from_is_t = from_is_t\<rparr>)"
  by pat_completeness auto
termination
  by (relation "measure (\<lambda>(compare, count, width, from, into, from_is_t). count - width)") auto

declare merge_halves.simps [simp del] sort_pass.simps [simp del] sort_passes.simps [simp del]

text \<open>The auxiliary table is filled as any table is.\<close>

fun fill_aux :: "LhatStore \<Rightarrow> LhatTable \<Rightarrow> nat \<Rightarrow> LhatValue list \<Rightarrow> (bool \<times> LhatTable) option" where
  "fill_aux st aux i [] = Some (True, aux)"
| "fill_aux st aux i (x # xs) = do {
     answer \<leftarrow> lhat_table_set st aux (VALUE_INTEGER (word_of_nat i)) x;
     if set_done answer then fill_aux st (set_table answer) (i + 1) xs
     else Some (False, set_table answer)
   }"

definition table_sort ::
  "LhatStore \<Rightarrow> LhatCall \<Rightarrow> bool \<Rightarrow> LhatTable \<Rightarrow> LhatValue \<Rightarrow> (LhatRunStatus \<times> LhatTable) option" where
  "table_sort st call aux_made t cmp =
     (if array_count t < 2 then Some (LHAT_RUN_OK, t)
      else if \<not> aux_made then Some (LHAT_RUN_OUT_OF_MEMORY, t)
      else do {
        (filled, aux) \<leftarrow> fill_aux st new_table 0 (tb_array t);
        if \<not> filled then Some (LHAT_RUN_OUT_OF_MEMORY, t)
        else
          let s = sort_passes (sort_compare st call cmp) (array_count t) 1 (tb_array aux) (tb_array t) False;
              run = (if so_status s = LHAT_RUN_OK \<or> so_from_is_t s then so_from s else so_into s)
          in Some (so_status s, t\<lparr>tb_array := run\<rparr>)
      })"

end
