(* ===== verification/Lhat_SortOk.thy ===== *)
theory Lhat_SortOk
  imports Lhat_Sort "HOL-Library.Multiset"
begin

text \<open>
  What the merges compute, as functions on lists, and that they sort: \<open>total_compare\<close> is what the merge
  asks of an ordering on the values of one run.
\<close>

subsection \<open>The merges as functions on lists\<close>

fun merge :: "('a \<Rightarrow> 'a \<Rightarrow> bool) \<Rightarrow> 'a list \<Rightarrow> 'a list \<Rightarrow> 'a list" where
  "merge le [] ys = ys"
| "merge le xs [] = xs"
| "merge le (x # xs) (y # ys) =
     (if le x y then x # merge le xs (y # ys) else y # merge le (x # xs) ys)"

lemma merge_induct [case_names left right both]:
  assumes "\<And>ys. P [] ys" "\<And>x xs. P (x # xs) []"
    "\<And>x xs y ys. P xs (y # ys) \<Longrightarrow> P (x # xs) ys \<Longrightarrow> P (x # xs) (y # ys)"
  shows "P xs ys"
proof (induction "length xs + length ys" arbitrary: xs ys rule: less_induct)
  case less
  show ?case
  proof (cases xs)
    case (Cons x us)
    show ?thesis
    proof (cases ys)
      case Nil
      then show ?thesis using assms(2) Cons by simp
    next
      case (Cons y vs)
      then show ?thesis using assms(3) [of us y vs x] less \<open>xs = x # us\<close> by simp
    qed
  qed (simp add: assms(1))
qed

lemma merge_Nil [simp]: "merge le xs [] = xs"
  by (cases xs) simp_all

lemma merge_length [simp]: "length (merge le xs ys) = length xs + length ys"
  by (induction le xs ys rule: merge.induct) auto

lemma merge_mset: "mset (merge le xs ys) = mset xs + mset ys"
  by (induction le xs ys rule: merge.induct) auto

function merge_runs :: "('a \<Rightarrow> 'a \<Rightarrow> bool) \<Rightarrow> nat \<Rightarrow> 'a list \<Rightarrow> 'a list" where
  "merge_runs le w xs =
     (if xs = [] \<or> w = 0 then xs
      else merge le (take w xs) (take w (drop w xs)) @ merge_runs le w (drop (w + w) xs))"
  by pat_completeness auto
termination by (relation "measure (\<lambda>(le, w, xs). length xs)") auto

declare merge_runs.simps [simp del]

text \<open>Every run of \<open>w\<close> values is in order.\<close>

function runs_sorted :: "('a \<Rightarrow> 'a \<Rightarrow> bool) \<Rightarrow> nat \<Rightarrow> 'a list \<Rightarrow> bool" where
  "runs_sorted le w xs \<longleftrightarrow>
     (if xs = [] \<or> w = 0 then True else sorted_wrt le (take w xs) \<and> runs_sorted le w (drop w xs))"
  by pat_completeness auto
termination by (relation "measure (\<lambda>(le, w, xs). length xs)") auto

declare runs_sorted.simps [simp del]

lemma runs_Nil [simp]: "runs_sorted le w []"
  by (simp add: runs_sorted.simps)

lemma runs_step:
  "xs \<noteq> [] \<Longrightarrow> 0 < w \<Longrightarrow> runs_sorted le w xs \<longleftrightarrow> sorted_wrt le (take w xs) \<and> runs_sorted le w (drop w xs)"
  by (subst runs_sorted.simps) simp

lemma runs_two:
  assumes "runs_sorted le w xs" "0 < w"
  shows "sorted_wrt le (take w xs)" "sorted_wrt le (take w (drop w xs))" "runs_sorted le w (drop (w + w) xs)"
proof -
  have one: "sorted_wrt le (take w ys) \<and> runs_sorted le w (drop w ys)" if "runs_sorted le w ys" for ys
    using that runs_step [of ys w le] assms(2) by (cases "ys = []") simp_all
  show "sorted_wrt le (take w xs)" "sorted_wrt le (take w (drop w xs))" "runs_sorted le w (drop (w + w) xs)"
    using one [OF assms(1)] one [of "drop w xs"] by simp_all
qed

lemma take_drop_twice: "take w xs @ take w (drop w xs) @ drop (w + w) xs = xs"
proof -
  have "take w (drop w xs) @ drop (w + w) xs = drop w xs"
    using append_take_drop_id [of w "drop w xs"] by simp
  then show ?thesis by simp
qed

lemma merge_runs_mset: "mset (merge_runs le w xs) = mset xs"
proof (induction le w xs rule: merge_runs.induct)
  case (1 le w xs)
  show ?case
  proof (cases "xs = [] \<or> w = 0")
    case False
    have "mset (merge_runs le w xs) =
        mset (take w xs) + (mset (take w (drop w xs)) + mset (drop (w + w) xs))"
      using 1 [OF False] False by (subst merge_runs.simps) (simp add: merge_mset)
    also have "\<dots> = mset (take w xs @ take w (drop w xs) @ drop (w + w) xs)" by simp
    finally show ?thesis unfolding take_drop_twice .
  qed (simp add: merge_runs.simps)
qed

lemma merge_runs_length [simp]: "length (merge_runs le w xs) = length xs"
  using merge_runs_mset [of le w xs] by (metis size_mset)

text \<open>Two runs that are all there is.\<close>

lemma sorted_one_run: "runs_sorted le w xs \<Longrightarrow> length xs \<le> w \<Longrightarrow> sorted_wrt le xs"
  using runs_step [of xs w le] by (cases "xs = []"; cases "w = 0") simp_all

lemma runs_sorted_1: "runs_sorted le 1 xs"
proof (induction xs)
  case (Cons x xs)
  then show ?case by (subst runs_step) simp_all
qed simp

subsection \<open>Orderings\<close>

locale total_compare =
  fixes le :: "'a \<Rightarrow> 'a \<Rightarrow> bool" and carrier :: "'a set"
  assumes total: "x \<in> carrier \<Longrightarrow> y \<in> carrier \<Longrightarrow> le x y \<or> le y x"
    and trans: "x \<in> carrier \<Longrightarrow> y \<in> carrier \<Longrightarrow> z \<in> carrier \<Longrightarrow> le x y \<Longrightarrow> le y z \<Longrightarrow> le x z"
begin

definition alike :: "'a \<Rightarrow> 'a \<Rightarrow> bool" where
  "alike z y \<longleftrightarrow> le z y \<and> le y z"

lemma merge_sorted:
  assumes "sorted_wrt le xs" "sorted_wrt le ys" "set xs \<subseteq> carrier" "set ys \<subseteq> carrier"
  shows "sorted_wrt le (merge le xs ys)"
  using assms
proof (induction xs ys rule: merge_induct)
  case (both x xs y ys)
  have set: "set (merge le us vs) = set us \<union> set vs" for us vs
    using merge_mset [of le us vs] by (metis set_mset_mset set_mset_union)
  show ?case
  proof (cases "le x y")
    case True
    then have "le x v" if "v \<in> set (y # ys)" for v
      using that both(4,5,6) trans [of x y v] by auto
    then show ?thesis using both True by (auto simp: set)
  next
    case False
    then have "le y x" using total [of x y] both(5,6) by auto
    then have "le y v" if "v \<in> set (x # xs)" for v
      using that both(3,5,6) trans [of y x v] by auto
    then show ?thesis using both False by (auto simp: set)
  qed
qed auto

lemma merge_stable:
  assumes "sorted_wrt le xs" "set xs \<subseteq> carrier" "set ys \<subseteq> carrier" "z \<in> carrier"
  shows "filter (alike z) (merge le xs ys) = filter (alike z) xs @ filter (alike z) ys"
  using assms
proof (induction xs ys rule: merge_induct)
  case (both x xs y ys)
  show ?case
  proof (cases "le x y")
    case False
    have "\<not> alike z v" if y: "alike z y" and v: "v \<in> set (x # xs)" for v
    proof
      assume "alike z v"
      then have "le v y" using y v both(4-6) trans [of v z y] by (auto simp: alike_def)
      moreover have "v = x \<or> le x v" using v both(3) by auto
      ultimately show False using False v both(4-6) trans [of x v y] by auto
    qed
    then have "filter (alike z) (x # xs) = []" if "alike z y"
      using that by (auto simp: filter_empty_conv)
    then show ?thesis using both False by auto
  qed (use both in auto)
qed auto

lemma merge_runs_sorted:
  assumes "runs_sorted le w xs" "set xs \<subseteq> carrier" "0 < w"
  shows "runs_sorted le (2 * w) (merge_runs le w xs)"
  using assms
proof (induction "length xs" arbitrary: xs rule: less_induct)
  case (less xs)
  show ?case
  proof (cases "xs = []")
    case True
    then show ?thesis by (simp add: merge_runs.simps runs_sorted.simps)
  next
    case False
    let ?a = "take w xs" let ?b = "take w (drop w xs)" let ?c = "drop (w + w) xs"
    note runs = runs_two [OF less(2) \<open>0 < w\<close>]
    have sub: "set ?a \<subseteq> carrier" "set ?b \<subseteq> carrier" "set ?c \<subseteq> carrier"
      using less(3) by (auto dest: in_set_takeD in_set_dropD)
    have m: "sorted_wrt le (merge le ?a ?b)" by (rule merge_sorted [OF runs(1,2) sub(1,2)])
    have rest: "runs_sorted le (2 * w) (merge_runs le w ?c)"
      using less(1) [of "drop (w + w) xs"] False \<open>0 < w\<close> runs(3) sub(3) by simp
    have step: "merge_runs le w xs = merge le ?a ?b @ merge_runs le w ?c"
      using False \<open>0 < w\<close> by (subst merge_runs.simps) simp
    show ?thesis
    proof (cases "2 * w \<le> length xs")
      case True
      then have len: "length (merge le ?a ?b) = 2 * w" by simp
      have "merge_runs le w xs \<noteq> []" using \<open>xs \<noteq> []\<close> merge_runs_length [of le w xs] by (metis length_0_conv)
      then show ?thesis
        using m rest len \<open>0 < w\<close> runs_step [of "merge_runs le w xs" "2 * w" le] step by simp
    next
      case False
      then have "?c = []" by simp
      then have e: "merge_runs le w xs = merge le ?a ?b"
        using step by (simp add: merge_runs.simps)
      have "length (merge le ?a ?b) \<le> 2 * w" by simp
      then show ?thesis
        using m \<open>0 < w\<close> runs_step [of "merge le ?a ?b" "2 * w" le]
        unfolding e by (cases "merge le ?a ?b = []") simp_all
    qed
  qed
qed

lemma merge_runs_stable:
  assumes "runs_sorted le w xs" "set xs \<subseteq> carrier" "z \<in> carrier" "0 < w"
  shows "filter (alike z) (merge_runs le w xs) = filter (alike z) xs"
  using assms
proof (induction "length xs" arbitrary: xs rule: less_induct)
  case (less xs)
  show ?case
  proof (cases "xs = []")
    case True
    then show ?thesis by (simp add: merge_runs.simps)
  next
    case False
    let ?a = "take w xs" let ?b = "take w (drop w xs)" let ?c = "drop (w + w) xs"
    note runs = runs_two [OF less(2) \<open>0 < w\<close>]
    have sub: "set ?a \<subseteq> carrier" "set ?b \<subseteq> carrier" "set ?c \<subseteq> carrier"
      using less(3) by (auto dest: in_set_takeD in_set_dropD)
    have "filter (alike z) (merge_runs le w xs) =
        filter (alike z) (?a @ ?b @ ?c)"
      using less(1) [of "drop (w + w) xs"] False \<open>0 < w\<close> runs(3) sub less(4) merge_stable [OF runs(1) sub(1,2) less(4)]
      by (subst merge_runs.simps) simp
    then show ?thesis unfolding take_drop_twice .
  qed
qed

end


subsection \<open>The loops compute the merges\<close>

definition taken_first :: "LhatCompare \<Rightarrow> LhatValue \<Rightarrow> LhatValue \<Rightarrow> bool" where
  "taken_first compare x y \<longleftrightarrow> snd (compare x y) \<le> 0"

definition answers_all :: "LhatCompare \<Rightarrow> LhatValue list \<Rightarrow> bool" where
  "answers_all compare xs \<longleftrightarrow> (\<forall>x\<in>set xs. \<forall>y\<in>set xs. fst (compare x y) = LHAT_RUN_OK)"

lemma slice_first: "i < j \<Longrightarrow> j \<le> length xs \<Longrightarrow> take (j - i) (drop i xs) = xs ! i # take (j - Suc i) (drop (Suc i) xs)"
proof -
  assume "i < j" "j \<le> length xs"
  then have "drop i xs = xs ! i # drop (Suc i) xs" "j - i = Suc (j - Suc i)"
    by (simp_all add: Cons_nth_drop_Suc)
  then show ?thesis by simp
qed

lemma merge_halves_is:
  assumes "answers_all cmp src" "i \<le> mid" "mid \<le> j" "j \<le> hi" "hi \<le> length src"
    "length into = length src" "k + (mid - i) + (hi - j) = hi"
  shows "merge_halves cmp src mid hi i j k into =
    (LHAT_RUN_OK, take k into @
       merge (taken_first cmp) (take (mid - i) (drop i src)) (take (hi - j) (drop j src)) @ drop hi into)"
  using assms
proof (induction "hi - k" arbitrary: i j k into)
  case 0
  then have "\<not> k < hi" "mid - i = 0" "hi - j = 0" "k = hi" by linarith+
  then show ?case by (subst merge_halves.simps) simp
next
  case (Suc n)
  have k: "k < hi" using Suc.hyps(2) by linarith
  have upd: "take (k + 1) (into[k := v]) = take k into @ [v]" "drop hi (into[k := v]) = drop hi into" for v
    using k Suc.prems(5,6) by (simp_all add: take_Suc_conv_app_nth)
  have left: "i < mid \<Longrightarrow> take (mid - i) (drop i src) = src ! i # take (mid - (i + 1)) (drop (i + 1) src)"
    using slice_first [of i mid src] Suc.prems by simp
  have right: "j < hi \<Longrightarrow> take (hi - j) (drop j src) = src ! j # take (hi - (j + 1)) (drop (j + 1) src)"
    using slice_first [of j hi src] Suc.prems by simp
  have go_left: "merge_halves cmp src mid hi (i + 1) j (k + 1) (into[k := src ! i]) =
      (LHAT_RUN_OK, take k into @ src ! i # merge (taken_first cmp)
         (take (mid - (i + 1)) (drop (i + 1) src)) (take (hi - j) (drop j src)) @ drop hi into)" if "i < mid"
    using Suc.hyps(1) [of "k + 1" "i + 1" j "into[k := src ! i]"] Suc.hyps(2) Suc.prems that upd by simp
  have go_right: "merge_halves cmp src mid hi i (j + 1) (k + 1) (into[k := src ! j]) =
      (LHAT_RUN_OK, take k into @ src ! j # merge (taken_first cmp)
         (take (mid - i) (drop i src)) (take (hi - (j + 1)) (drop (j + 1) src)) @ drop hi into)" if "j < hi"
    using Suc.hyps(1) [of "k + 1" i "j + 1" "into[k := src ! j]"] Suc.hyps(2) Suc.prems that upd by simp
  consider "mid \<le> i" "j < hi" | "i < mid" "hi \<le> j" | "i < mid" "j < hi"
    using k Suc.prems(7) by linarith
  then show ?case
  proof cases
    case 1
    then have "merge_halves cmp src mid hi i j k into =
        merge_halves cmp src mid hi i (j + 1) (k + 1) (into[k := src ! j])"
      using k by (subst merge_halves.simps) simp
    then show ?thesis using go_right [OF 1(2)] right [OF 1(2)] 1 by simp
  next
    case 2
    then have "merge_halves cmp src mid hi i j k into =
        merge_halves cmp src mid hi (i + 1) j (k + 1) (into[k := src ! i])"
      using k by (subst merge_halves.simps) simp
    then show ?thesis using go_left [OF 2(1)] left [OF 2(1)] 2 by simp
  next
    case 3
    have ok: "fst (cmp (src ! i) (src ! j)) = LHAT_RUN_OK"
      using Suc.prems(1,3-5) 3 by (simp add: answers_all_def)
    then have "merge_halves cmp src mid hi i j k into =
        (if taken_first cmp (src ! i) (src ! j)
         then merge_halves cmp src mid hi (i + 1) j (k + 1) (into[k := src ! i])
         else merge_halves cmp src mid hi i (j + 1) (k + 1) (into[k := src ! j]))"
      using k 3 by (subst merge_halves.simps) (cases "cmp (src ! i) (src ! j)"; simp add: taken_first_def)
    then show ?thesis
      using go_left [OF 3(1)] go_right [OF 3(2)] left [OF 3(1)] right [OF 3(2)] by simp
  qed
qed

lemma sort_pass_is:
  assumes "answers_all cmp src" "length into = length src" "0 < width" "lo \<le> length src"
  shows "sort_pass cmp src (length src) width lo into =
    (LHAT_RUN_OK, take lo into @ merge_runs (taken_first cmp) width (drop lo src))"
  using assms
proof (induction "length src - lo" arbitrary: lo into rule: less_induct)
  case less
  show ?case
  proof (cases "lo < length src")
    case False
    then show ?thesis using less.prems by (subst sort_pass.simps) (simp add: merge_runs.simps)
  next
    case True
    define mid where "mid = (if lo + width < length src then lo + width else length src)"
    define hi where "hi = (if lo + 2 * width < length src then lo + 2 * width else length src)"
    have b: "lo < mid" "mid \<le> hi" "hi \<le> length src" using True less.prems by (auto simp: mid_def hi_def)
    let ?m = "merge (taken_first cmp) (take (mid - lo) (drop lo src)) (take (hi - mid) (drop mid src))"
    have halves: "merge_halves cmp src mid hi lo mid lo into = (LHAT_RUN_OK, take lo into @ ?m @ drop hi into)"
      using less.prems b by (intro merge_halves_is) auto
    have slices: "take (mid - lo) (drop lo src) = take width (drop lo src)"
      "take (hi - mid) (drop mid src) = take width (drop width (drop lo src))"
      using True less.prems by (auto simp: mid_def hi_def add.commute)
    let ?into = "take lo into @ ?m @ drop hi into"
    have len: "length ?m = hi - lo" "length ?into = length src"
      using less.prems b by auto
    have next_lo: "sort_pass cmp src (length src) width (lo + 2 * width) ?into =
        (LHAT_RUN_OK, take lo into @ ?m @ merge_runs (taken_first cmp) width (drop (lo + 2 * width) src))"
    proof (cases "lo + 2 * width \<le> length src")
      case fits: True
      then have "hi = lo + 2 * width" by (auto simp: hi_def)
      then have "take (lo + 2 * width) ?into = take lo into @ ?m"
        using len less.prems by simp
      then show ?thesis
        using less.hyps [of "lo + 2 * width" ?into] less.prems True fits len by simp
    next
      case False
      then have "hi = length src" by (auto simp: hi_def)
      then show ?thesis using False less.prems by (subst sort_pass.simps) (simp add: merge_runs.simps)
    qed
    have "merge_runs (taken_first cmp) width (drop lo src) =
        ?m @ merge_runs (taken_first cmp) width (drop (lo + 2 * width) src)"
      using True less.prems by (subst merge_runs.simps) (simp add: slices mult_2 add.commute)
    then show ?thesis
      using True less.prems halves next_lo by (subst sort_pass.simps) (simp add: mid_def hi_def Let_def)
  qed
qed


function merge_up :: "('a \<Rightarrow> 'a \<Rightarrow> bool) \<Rightarrow> nat \<Rightarrow> 'a list \<Rightarrow> 'a list" where
  "merge_up le w xs =
     (if w < length xs \<and> 0 < w then merge_up le (w * 2) (merge_runs le w xs) else xs)"
  by pat_completeness auto
termination by (relation "measure (\<lambda>(le, w, xs). length xs - w)") auto

declare merge_up.simps [simp del]

lemma merge_up_mset: "mset (merge_up le w xs) = mset xs"
proof (induction le w xs rule: merge_up.induct)
  case (1 le w xs)
  then show ?case by (subst merge_up.simps) (simp add: merge_runs_mset)
qed

lemma answers_mset: "mset xs = mset ys \<Longrightarrow> answers_all cmp xs = answers_all cmp ys"
  by (simp add: answers_all_def flip: set_mset_mset)

lemma sort_passes_is:
  assumes "answers_all cmp src" "length into = length src" "0 < w"
  shows "so_status (sort_passes cmp (length src) w src into b) = LHAT_RUN_OK \<and>
    so_from (sort_passes cmp (length src) w src into b) = merge_up (taken_first cmp) w src"
  using assms
proof (induction "length src - w" arbitrary: src into w b rule: less_induct)
  case less
  show ?case
  proof (cases "w < length src")
    case False
    then show ?thesis by (subst sort_passes.simps, subst (2) sort_passes.simps) (simp add: merge_up.simps)
  next
    case True
    let ?next = "merge_runs (taken_first cmp) w src"
    have pass: "sort_pass cmp src (length src) w 0 into = (LHAT_RUN_OK, ?next)"
      using sort_pass_is [of cmp src into w 0] less.prems by simp
    have step: "sort_passes cmp (length src) w src into b = sort_passes cmp (length src) (w * 2) ?next src (\<not> b)"
      using True less.prems pass by (subst sort_passes.simps) simp
    have "answers_all cmp ?next"
      using less.prems(1) answers_mset [OF merge_runs_mset] by blast
    then have "so_status (sort_passes cmp (length ?next) (w * 2) ?next src (\<not> b)) = LHAT_RUN_OK \<and>
        so_from (sort_passes cmp (length ?next) (w * 2) ?next src (\<not> b)) =
          merge_up (taken_first cmp) (w * 2) ?next"
      using True less.prems by (intro less.hyps) simp_all
    then show ?thesis
      using True less.prems(3) unfolding step by (subst merge_up.simps) simp
  qed
qed

context total_compare
begin

lemma merge_up_sorts:
  assumes "runs_sorted le w xs" "set xs \<subseteq> carrier" "0 < w"
  shows "sorted_wrt le (merge_up le w xs) \<and>
    (\<forall>z\<in>carrier. filter (alike z) (merge_up le w xs) = filter (alike z) xs)"
  using assms
proof (induction "length xs - w" arbitrary: w xs rule: less_induct)
  case less
  let ?next = "merge_runs le w xs"
  show ?case
  proof (cases "w < length xs")
    case True
    have set: "set ?next \<subseteq> carrier"
      using less.prems(2) merge_runs_mset [of le w xs] by (metis set_mset_mset)
    have sorted: "runs_sorted le (w * 2) ?next"
      using merge_runs_sorted [OF less.prems] by (simp add: mult.commute)
    have "sorted_wrt le (merge_up le (w * 2) ?next) \<and>
        (\<forall>z\<in>carrier. filter (alike z) (merge_up le (w * 2) ?next) = filter (alike z) ?next)"
      using True less.prems(3) sorted set by (intro less.hyps) simp_all
    moreover have "filter (alike z) ?next = filter (alike z) xs" if "z \<in> carrier" for z
      using merge_runs_stable [OF less.prems(1,2) that less.prems(3)] .
    ultimately show ?thesis
      using True less.prems(3) by (subst (1 2) merge_up.simps) simp
  next
    case False
    then show ?thesis
      using sorted_one_run [OF less.prems(1)] by (subst (1 2) merge_up.simps) simp
  qed
qed

end

subsection \<open>The table that is sorted\<close>

lemma append_plain:
  assumes "ample st" "tb_entry_count t = 0" "array_count t < 2 ^ 63"
  obtains c where "lhat_table_set st t (VALUE_INTEGER (word_of_nat (array_count t))) x =
    Some (SET_ANSWER True False (t\<lparr>tb_array := tb_array t @ [x], tb_array_capacity := c\<rparr>))"
proof -
  obtain c where room: "array_room st t = (True, t\<lparr>tb_array_capacity := c\<rparr>)" by (rule room_ample [OF assms(1)])
  let ?t = "t\<lparr>tb_array := tb_array t @ [x], tb_array_capacity := c\<rparr>"
  have "drain_into_array st ?t = Some ?t"
    using assms(2) by (subst drain_into_array.simps) (simp add: find_entry_def)
  moreover have "array_push (t\<lparr>tb_array_capacity := c\<rparr>) x = ?t" by (simp add: array_push_def)
  ultimately have "set_append st t x = Some (SET_ANSWER True False ?t)" by (simp add: set_append_def room)
  moreover have "position_in t (word_of_nat (array_count t)) = None"
    using int_index_next [of t] assms(3) by simp
  ultimately show ?thesis
    using that assms(3) by (simp add: lhat_table_set_def key_refused_def normalise_key_def unat_of_nat Let_def)
qed


lemma fill_aux_is:
  assumes "ample st" "tb_entry_count aux = 0" "array_count aux + length xs < 2 ^ 63"
  shows "\<exists>aux'. fill_aux st aux (array_count aux) xs = Some (True, aux') \<and> tb_array aux' = tb_array aux @ xs"
  using assms
proof (induction xs arbitrary: aux)
  case (Cons x xs)
  have n: "array_count aux < 2 ^ 63" using Cons.prems(3) by simp
  obtain c where c: "lhat_table_set st aux (VALUE_INTEGER (word_of_nat (array_count aux))) x =
      Some (SET_ANSWER True False (aux\<lparr>tb_array := tb_array aux @ [x], tb_array_capacity := c\<rparr>))"
    by (rule append_plain [OF Cons.prems(1,2) n])
  let ?aux = "aux\<lparr>tb_array := tb_array aux @ [x], tb_array_capacity := c\<rparr>"
  have "\<exists>aux'. fill_aux st ?aux (array_count ?aux) xs = Some (True, aux') \<and> tb_array aux' = tb_array ?aux @ xs"
    using Cons.prems by (intro Cons.IH) simp_all
  then show ?case using c by auto
qed simp

lemma table_sort_is:
  fixes cmp :: LhatValue and call :: LhatCall
  assumes "ample st" "array_count t < 2 ^ 63" "\<not> array_count t < 2"
  defines "s \<equiv> sort_passes (sort_compare st call cmp) (array_count t) 1 (tb_array t) (tb_array t) False"
  shows "table_sort st call True t cmp = Some (so_status s,
    t\<lparr>tb_array := (if so_status s = LHAT_RUN_OK \<or> so_from_is_t s then so_from s else so_into s)\<rparr>)"
proof -
  have "array_count new_table + length (tb_array t) < 2 ^ 63" "tb_entry_count new_table = 0"
    using assms(2) by (simp_all add: new_table_def)
  from fill_aux_is [OF assms(1) this(2,1)] obtain aux where
    "fill_aux st new_table 0 (tb_array t) = Some (True, aux)" "tb_array aux = tb_array t"
    by (auto simp: new_table_def)
  then show ?thesis using assms(3) by (simp add: table_sort_def s_def Let_def)
qed

text \<open>A comparator that answers everything, as the one that was asked where it answered.\<close>

definition steady :: "LhatCompare \<Rightarrow> LhatCompare" where
  "steady cmp = (\<lambda>x y. (LHAT_RUN_OK, snd (cmp x y)))"

lemma steady_answers: "answers_all (steady cmp) xs" "taken_first (steady cmp) = taken_first cmp"
  by (auto simp: answers_all_def steady_def taken_first_def fun_eq_iff)

lemma merge_halves_steady:
  "merge_halves cmp src mid hi i j k into = (LHAT_RUN_OK, r) \<Longrightarrow>
   merge_halves (steady cmp) src mid hi i j k into = (LHAT_RUN_OK, r)"
proof (induction "hi - k" arbitrary: i j k into)
  case 0
  then show ?case by (simp add: merge_halves.simps [of _ _ _ hi])
next
  case (Suc n)
  have IH: "merge_halves cmp src mid hi i' j' (k + 1) into' = (LHAT_RUN_OK, r) \<Longrightarrow>
      merge_halves (steady cmp) src mid hi i' j' (k + 1) into' = (LHAT_RUN_OK, r)" for i' j' into'
    using Suc.hyps by (intro Suc.hyps(1)) linarith
  show ?case
    using Suc.prems IH
    by (subst merge_halves.simps, subst (asm) merge_halves.simps)
      (auto simp: steady_def Let_def split: if_splits prod.splits)
qed

lemma sort_pass_steady:
  "sort_pass cmp src n width lo into = (LHAT_RUN_OK, r) \<Longrightarrow>
   sort_pass (steady cmp) src n width lo into = (LHAT_RUN_OK, r)"
proof (induction "n - lo" arbitrary: lo into rule: less_induct)
  case less
  show ?case
  proof (cases "lo < n \<and> 0 < width")
    case True
    let ?mid = "if lo + width < n then lo + width else n"
    let ?hi = "if lo + 2 * width < n then lo + 2 * width else n"
    obtain status into' where h: "merge_halves cmp src ?mid ?hi lo ?mid lo into = (status, into')"
      by fastforce
    have step: "sort_pass c src n width lo into = sort_pass c src n width (lo + 2 * width) into'"
      if "merge_halves c src ?mid ?hi lo ?mid lo into = (LHAT_RUN_OK, into')" for c
      using True that by (subst sort_pass.simps) simp
    have "status = LHAT_RUN_OK"
      using less.prems True h by (subst (asm) sort_pass.simps) (auto split: if_splits)
    moreover have "n - (lo + 2 * width) < n - lo" using True by linarith
    ultimately show ?thesis
      using less.hyps [of "lo + 2 * width" into'] less.prems step h merge_halves_steady by simp
  next
    case False
    then show ?thesis using less.prems by (subst sort_pass.simps, subst (asm) sort_pass.simps) auto
  qed
qed

lemma sort_passes_steady:
  "so_status (sort_passes cmp n w src into b) = LHAT_RUN_OK \<Longrightarrow>
   sort_passes (steady cmp) n w src into b = sort_passes cmp n w src into b"
proof (induction "n - w" arbitrary: src into w b rule: less_induct)
  case less
  show ?case
  proof (cases "w < n \<and> 0 < w")
    case True
    obtain status into' where p: "sort_pass cmp src n w 0 into = (status, into')" by fastforce
    have step: "sort_passes c n w src into b = sort_passes c n (w * 2) into' src (\<not> b)"
      if "sort_pass c src n w 0 into = (LHAT_RUN_OK, into')" for c
      using True that by (subst sort_passes.simps) simp
    have ok: "status = LHAT_RUN_OK"
      using less.prems True p by (subst (asm) sort_passes.simps) (auto split: if_splits)
    moreover have "n - w * 2 < n - w" using True by linarith
    ultimately show ?thesis
      using less.hyps [of "w * 2" into' src "\<not> b"] less.prems step p sort_pass_steady by simp
  next
    case False
    then show ?thesis by (subst sort_passes.simps, subst (2) sort_passes.simps) auto
  qed
qed

lemma sort_passes_mset:
  assumes "so_status (sort_passes cmp (length xs) 1 xs xs b) = LHAT_RUN_OK"
  shows "so_from (sort_passes cmp (length xs) 1 xs xs b) = merge_up (taken_first cmp) 1 xs"
  using sort_passes_is [OF steady_answers(1) refl, of 1 cmp xs b] sort_passes_steady [OF assms]
  by (simp add: steady_answers(2))

text \<open>The built-in ordering of integers is one.\<close>

interpretation integer_compare:
  total_compare "taken_first (sort_compare st call VALUE_NIL)" "range VALUE_INTEGER" for st call
  by standard (auto simp: taken_first_def sort_compare_def vm_three_way_def split: if_splits)

end
