(* ===== verification/Lhat_SortProps.thy ===== *)
theory Lhat_SortProps
  imports Lhat_SortOk Lhat_TableProps
begin

text \<open>
  The properties of the sort of a table, each with a closed instance.
\<close>

subsection \<open>A comparator that orders\<close>

definition compare_orders :: "LhatCompare \<Rightarrow> LhatValue list \<Rightarrow> bool" where
  "compare_orders compare xs \<longleftrightarrow> answers_all compare xs \<and>
     (\<forall>x\<in>set xs. \<forall>y\<in>set xs. taken_first compare x y \<or> taken_first compare y x) \<and>
     (\<forall>x\<in>set xs. \<forall>y\<in>set xs. \<forall>z\<in>set xs.
        taken_first compare x y \<and> taken_first compare y z \<longrightarrow> taken_first compare x z)"

lemma passes_sort:
  assumes "compare_orders cmp xs"
  shows "\<exists>ys. so_status (sort_passes cmp (length xs) 1 xs xs b) = LHAT_RUN_OK \<and>
    so_from (sort_passes cmp (length xs) 1 xs xs b) = ys \<and>
    mset ys = mset xs \<and> sorted_wrt (taken_first cmp) ys \<and>
    (\<forall>z\<in>set xs. filter (\<lambda>y. taken_first cmp z y \<and> taken_first cmp y z) ys =
      filter (\<lambda>y. taken_first cmp z y \<and> taken_first cmp y z) xs)"
proof -
  have order: "total_compare (taken_first cmp) (set xs)"
    using assms by unfold_locales (unfold compare_orders_def, blast+)
  have "answers_all cmp xs" using assms by (simp add: compare_orders_def)
  then show ?thesis
    using sort_passes_is [OF _ refl zero_less_one, of cmp xs b]
      total_compare.merge_up_sorts [OF order runs_sorted_1, of xs] merge_up_mset [of "taken_first cmp" 1 xs]
    by (simp add: total_compare.alike_def [OF order, abs_def])
qed

text \<open>C7: The sort sorts, and it is stable.  Where the comparator answers every pair of elements, and what it
  answers is a total order that allows ties, sorting a table returns, the run is a permutation in
  that order in which elements that tie keep their order, and the rest of the table is untouched.\<close>

theorem sort_orders:
  assumes "ample st" "array_count t < 2 ^ 63" "compare_orders (sort_compare st call cmp) (tb_array t)"
  shows "\<exists>ys. table_sort st call True t cmp = Some (LHAT_RUN_OK, t\<lparr>tb_array := ys\<rparr>) \<and>
    mset ys = mset (tb_array t) \<and> sorted_wrt (taken_first (sort_compare st call cmp)) ys \<and>
    (\<forall>z\<in>set (tb_array t).
      filter (\<lambda>y. taken_first (sort_compare st call cmp) z y \<and> taken_first (sort_compare st call cmp) y z) ys =
      filter (\<lambda>y. taken_first (sort_compare st call cmp) z y \<and> taken_first (sort_compare st call cmp) y z) (tb_array t))"
proof (cases "array_count t < 2")
  case True
  then have "sorted_wrt (taken_first (sort_compare st call cmp)) (tb_array t)"
    by (cases "tb_array t"; cases "tl (tb_array t)") simp_all
  then show ?thesis using True by (intro exI [of _ "tb_array t"]) (simp add: table_sort_def)
next
  case False
  then show ?thesis
    using table_sort_is [OF assms(1,2) False, of call cmp] passes_sort [OF assms(3), of False] by auto
qed

lemma integers_order: "set xs \<subseteq> range VALUE_INTEGER \<Longrightarrow> compare_orders (sort_compare st call VALUE_NIL) xs"
proof -
  assume xs: "set xs \<subseteq> range VALUE_INTEGER"
  have "fst (sort_compare st call VALUE_NIL (VALUE_INTEGER i) (VALUE_INTEGER j)) = LHAT_RUN_OK" for i j
    by (simp add: sort_compare_def vm_three_way_def)
  then have "answers_all (sort_compare st call VALUE_NIL) xs"
    using xs unfolding answers_all_def by (metis (no_types, lifting) imageE subsetD)
  then show ?thesis
    using integer_compare.total integer_compare.trans xs unfolding compare_orders_def by (meson subsetD)
qed

definition unsorted_table :: LhatTable where
  "unsorted_table = new_table\<lparr>tb_array := [VALUE_INTEGER 3, VALUE_INTEGER 1, VALUE_INTEGER (- 2)], tb_array_capacity := 8\<rparr>"

theorem sort_orders_witness:
  "\<exists>ys. table_sort sample_store (\<lambda>_ _. (LHAT_RUN_OK, VALUE_NIL)) True unsorted_table VALUE_NIL =
      Some (LHAT_RUN_OK, unsorted_table\<lparr>tb_array := ys\<rparr>) \<and>
    mset ys = {#VALUE_INTEGER 3, VALUE_INTEGER 1, VALUE_INTEGER (- 2)#} \<and>
    sorted_wrt (taken_first (sort_compare sample_store (\<lambda>_ _. (LHAT_RUN_OK, VALUE_NIL)) VALUE_NIL)) ys"
proof -
  have "array_count unsorted_table < 2 ^ 63" "set (tb_array unsorted_table) \<subseteq> range VALUE_INTEGER"
    "mset (tb_array unsorted_table) = {#VALUE_INTEGER 3, VALUE_INTEGER 1, VALUE_INTEGER (- 2)#}"
    by (simp_all add: unsorted_table_def)
  with sort_orders [OF sample_ample this(1) integers_order [OF this(2)]] show ?thesis by metis
qed

subsection \<open>Any comparator\<close>






subsection \<open>A comparator that faults\<close>

text \<open>It orders two integers, and faults when it is asked about 2 and 5.\<close>

fun faulting_call :: LhatCall where
  "faulting_call f [VALUE_INTEGER x, VALUE_INTEGER y] =
     (if x = 2 \<and> y = 5 then (LHAT_RUN_PANIC, VALUE_NIL)
      else (LHAT_RUN_OK, VALUE_INTEGER (if x < y then - 1 else 1)))"
| "faulting_call f args = (LHAT_RUN_ARITY, VALUE_NIL)"

definition faulting_table :: LhatTable where
  "faulting_table = new_table\<lparr>tb_array := map VALUE_INTEGER [3, 4, 1, 2, 5], tb_array_capacity := 8\<rparr>"

lemma small_floats: "integer_rounded 1 = 1" "integer_rounded (- 1) = - 1" "0 < REAL_ONE" "\<not> REAL_ONE < 0"
  using round_53_exact [of 1 1 0] REAL_ONE_pos by (simp_all add: integer_rounded_def)

lemma faulting_compare:
  "sort_compare st faulting_call (VALUE_OBJECT p) (VALUE_INTEGER x) (VALUE_INTEGER y) =
     (if x = 2 \<and> y = 5 then (LHAT_RUN_PANIC, 0) else (LHAT_RUN_OK, if x < y then - 1 else 1))"
  by (simp add: sort_compare_def float_zero_def float_of_integer_def small_floats)

text \<open>If it ends with a fault the run need not be one, although the comment on the sort promises that every
element is still present: here a comparator faults in the third pass, the second that writes into the
table, and an element is lost and another stands twice.\<close>

theorem sort_fault_loses:
  "table_sort sample_store faulting_call True faulting_table (VALUE_OBJECT (Some 4)) =
     Some (LHAT_RUN_PANIC, faulting_table\<lparr>tb_array := map VALUE_INTEGER [1, 4, 1, 2, 5]\<rparr>)"
proof -
  have n: "array_count faulting_table < 2 ^ 63" "\<not> array_count faulting_table < 2"
    by (simp_all add: faulting_table_def)
  show ?thesis
    unfolding table_sort_is [OF sample_ample n]
    by (simp add: faulting_table_def sort_passes.simps [of _ "Suc (Suc (Suc (Suc (Suc 0))))"] sort_pass.simps [of _ _ "Suc (Suc (Suc (Suc (Suc 0))))"] merge_halves.simps [of "sort_compare st c v" for st c v]
        faulting_compare)
qed

end
