(* ===== verification/Lhat_Utf8proc.thy ===== *)
theory Lhat_Utf8proc
  imports Lhat_Prelude
begin

text \<open>
  What \<open>src/grapheme.c\<close> calls of the utf8proc library (\<open>vendor/utf8proc/utf8proc.c\<close>): the decoder of one
  code point and the grapheme boundary between two, with the state it keeps between calls.

  The generated table of the properties of code points (\<open>utf8proc_data.c\<close>) is a parameter: the boundary
  class and the conjunct break of a code point.  What is relied on of it is \<open>utf8proc_ok\<close>.
\<close>

subsection \<open>Decoding\<close>

text \<open>\<open>ITERATE rest codepoint\<close>: one code point of \<open>1 + rest\<close> bytes.  The decoder answers the number of
bytes read or a negative number; it is never asked without bytes, where it answers 0.\<close>

datatype Utf8Iterate = ITERATE_ERROR | ITERATE nat int

definition utf_cont :: "byte \<Rightarrow> bool" where
  "utf_cont ch \<longleftrightarrow> ch AND 0xC0 = 0x80"

definition cont_bits :: "byte \<Rightarrow> u32" where
  "cont_bits ch = ucast (ch AND 0x3F)"

fun utf8proc_iterate :: "byte list \<Rightarrow> Utf8Iterate" where
  "utf8proc_iterate [] = ITERATE_ERROR"
| "utf8proc_iterate (uc # str) =
     (if uc < 0x80 then ITERATE 0 (uint uc)
      else if uc < 0xC2 \<or> 0xF4 < uc then ITERATE_ERROR
      else if uc < 0xE0 then
        (case str of
           s0 # _ \<Rightarrow>
             if \<not> utf_cont s0 then ITERATE_ERROR
             else ITERATE 1 (uint ((push_bit 6 (ucast (uc AND 0x1F))) OR cont_bits s0))
         | [] \<Rightarrow> ITERATE_ERROR)
      else if uc < 0xF0 then
        (case str of
           s0 # s1 # _ \<Rightarrow>
             if \<not> utf_cont s0 \<or> \<not> utf_cont s1 then ITERATE_ERROR
             else if uc = 0xED \<and> 0x9F < s0 then ITERATE_ERROR
             else
               let point = (push_bit 12 (ucast (uc AND 0xF))) OR (push_bit 6 (cont_bits s0)) OR cont_bits s1
               in if point < 0x800 then ITERATE_ERROR else ITERATE 2 (uint point)
         | _ \<Rightarrow> ITERATE_ERROR)
      else
        (case str of
           s0 # s1 # s2 # _ \<Rightarrow>
             if \<not> utf_cont s0 \<or> \<not> utf_cont s1 \<or> \<not> utf_cont s2 then ITERATE_ERROR
             else if uc = 0xF0 \<and> s0 < 0x90 then ITERATE_ERROR
             else if uc = 0xF4 \<and> 0x8F < s0 then ITERATE_ERROR
             else ITERATE 3 (uint ((push_bit 18 (ucast (uc AND 7))) OR (push_bit 12 (cont_bits s0)) OR
                    (push_bit 6 (cont_bits s1)) OR cont_bits s2))
         | _ \<Rightarrow> ITERATE_ERROR))"

subsection \<open>Boundaries\<close>

abbreviation (input) UTF8PROC_BOUNDCLASS_START :: nat where "UTF8PROC_BOUNDCLASS_START \<equiv> 0"
abbreviation (input) UTF8PROC_BOUNDCLASS_OTHER :: nat where "UTF8PROC_BOUNDCLASS_OTHER \<equiv> 1"
abbreviation (input) UTF8PROC_BOUNDCLASS_CR :: nat where "UTF8PROC_BOUNDCLASS_CR \<equiv> 2"
abbreviation (input) UTF8PROC_BOUNDCLASS_LF :: nat where "UTF8PROC_BOUNDCLASS_LF \<equiv> 3"
abbreviation (input) UTF8PROC_BOUNDCLASS_CONTROL :: nat where "UTF8PROC_BOUNDCLASS_CONTROL \<equiv> 4"
abbreviation (input) UTF8PROC_BOUNDCLASS_EXTEND :: nat where "UTF8PROC_BOUNDCLASS_EXTEND \<equiv> 5"
abbreviation (input) UTF8PROC_BOUNDCLASS_L :: nat where "UTF8PROC_BOUNDCLASS_L \<equiv> 6"
abbreviation (input) UTF8PROC_BOUNDCLASS_V :: nat where "UTF8PROC_BOUNDCLASS_V \<equiv> 7"
abbreviation (input) UTF8PROC_BOUNDCLASS_T :: nat where "UTF8PROC_BOUNDCLASS_T \<equiv> 8"
abbreviation (input) UTF8PROC_BOUNDCLASS_LV :: nat where "UTF8PROC_BOUNDCLASS_LV \<equiv> 9"
abbreviation (input) UTF8PROC_BOUNDCLASS_LVT :: nat where "UTF8PROC_BOUNDCLASS_LVT \<equiv> 10"
abbreviation (input) UTF8PROC_BOUNDCLASS_REGIONAL_INDICATOR :: nat where "UTF8PROC_BOUNDCLASS_REGIONAL_INDICATOR \<equiv> 11"
abbreviation (input) UTF8PROC_BOUNDCLASS_SPACINGMARK :: nat where "UTF8PROC_BOUNDCLASS_SPACINGMARK \<equiv> 12"
abbreviation (input) UTF8PROC_BOUNDCLASS_PREPEND :: nat where "UTF8PROC_BOUNDCLASS_PREPEND \<equiv> 13"
abbreviation (input) UTF8PROC_BOUNDCLASS_ZWJ :: nat where "UTF8PROC_BOUNDCLASS_ZWJ \<equiv> 14"
abbreviation (input) UTF8PROC_BOUNDCLASS_EXTENDED_PICTOGRAPHIC :: nat where "UTF8PROC_BOUNDCLASS_EXTENDED_PICTOGRAPHIC \<equiv> 19"
abbreviation (input) UTF8PROC_BOUNDCLASS_E_ZWG :: nat where "UTF8PROC_BOUNDCLASS_E_ZWG \<equiv> 20"

abbreviation (input) UTF8PROC_INDIC_CONJUNCT_BREAK_NONE :: nat where "UTF8PROC_INDIC_CONJUNCT_BREAK_NONE \<equiv> 0"
abbreviation (input) UTF8PROC_INDIC_CONJUNCT_BREAK_LINKER :: nat where "UTF8PROC_INDIC_CONJUNCT_BREAK_LINKER \<equiv> 1"
abbreviation (input) UTF8PROC_INDIC_CONJUNCT_BREAK_CONSONANT :: nat where "UTF8PROC_INDIC_CONJUNCT_BREAK_CONSONANT \<equiv> 2"
abbreviation (input) UTF8PROC_INDIC_CONJUNCT_BREAK_EXTEND :: nat where "UTF8PROC_INDIC_CONJUNCT_BREAK_EXTEND \<equiv> 3"

text \<open>Rules GB1, GB3 to GB9b, GB11 to GB13 and GB999.\<close>

definition grapheme_break_simple :: "nat \<Rightarrow> nat \<Rightarrow> bool" where
  "grapheme_break_simple lbc tbc =
     (if lbc = UTF8PROC_BOUNDCLASS_START then True
      else if lbc = UTF8PROC_BOUNDCLASS_CR \<and> tbc = UTF8PROC_BOUNDCLASS_LF then False
      else if UTF8PROC_BOUNDCLASS_CR \<le> lbc \<and> lbc \<le> UTF8PROC_BOUNDCLASS_CONTROL then True
      else if UTF8PROC_BOUNDCLASS_CR \<le> tbc \<and> tbc \<le> UTF8PROC_BOUNDCLASS_CONTROL then True
      else if lbc = UTF8PROC_BOUNDCLASS_L \<and>
        tbc \<in> {UTF8PROC_BOUNDCLASS_L, UTF8PROC_BOUNDCLASS_V, UTF8PROC_BOUNDCLASS_LV, UTF8PROC_BOUNDCLASS_LVT}
      then False
      else if lbc \<in> {UTF8PROC_BOUNDCLASS_LV, UTF8PROC_BOUNDCLASS_V} \<and>
        tbc \<in> {UTF8PROC_BOUNDCLASS_V, UTF8PROC_BOUNDCLASS_T} then False
      else if lbc \<in> {UTF8PROC_BOUNDCLASS_LVT, UTF8PROC_BOUNDCLASS_T} \<and> tbc = UTF8PROC_BOUNDCLASS_T then False
      else if tbc \<in> {UTF8PROC_BOUNDCLASS_EXTEND, UTF8PROC_BOUNDCLASS_ZWJ, UTF8PROC_BOUNDCLASS_SPACINGMARK} \<or>
        lbc = UTF8PROC_BOUNDCLASS_PREPEND then False
      else if lbc = UTF8PROC_BOUNDCLASS_E_ZWG \<and> tbc = UTF8PROC_BOUNDCLASS_EXTENDED_PICTOGRAPHIC then False
      else if lbc = UTF8PROC_BOUNDCLASS_REGIONAL_INDICATOR \<and> tbc = UTF8PROC_BOUNDCLASS_REGIONAL_INDICATOR
      then False
      else True)"

text \<open>The boundary and the state after it: a class in the low byte, a conjunct break above it; 0 before the
first call.\<close>

definition grapheme_break_extended :: "nat \<Rightarrow> nat \<Rightarrow> nat \<Rightarrow> nat \<Rightarrow> nat \<Rightarrow> bool \<times> nat" where
  "grapheme_break_extended lbc tbc licb ticb state =
     (let state_bc = (if state = 0 then lbc else state mod 256);
          state_icb =
            (if state = 0 then
               if licb = UTF8PROC_INDIC_CONJUNCT_BREAK_CONSONANT then licb
               else UTF8PROC_INDIC_CONJUNCT_BREAK_NONE
             else state div 256);
          break_permitted =
            (grapheme_break_simple state_bc tbc \<and>
             \<not> (state_icb = UTF8PROC_INDIC_CONJUNCT_BREAK_LINKER \<and>
                ticb = UTF8PROC_INDIC_CONJUNCT_BREAK_CONSONANT));
          state_icb =
            (if ticb = UTF8PROC_INDIC_CONJUNCT_BREAK_CONSONANT \<or>
                state_icb = UTF8PROC_INDIC_CONJUNCT_BREAK_CONSONANT \<or>
                state_icb = UTF8PROC_INDIC_CONJUNCT_BREAK_EXTEND
             then ticb
             else if state_icb = UTF8PROC_INDIC_CONJUNCT_BREAK_LINKER then
               if ticb = UTF8PROC_INDIC_CONJUNCT_BREAK_EXTEND then UTF8PROC_INDIC_CONJUNCT_BREAK_LINKER
               else ticb
             else state_icb);
          state_bc =
            (if state_bc = tbc \<and> tbc = UTF8PROC_BOUNDCLASS_REGIONAL_INDICATOR then UTF8PROC_BOUNDCLASS_OTHER
             else if state_bc = UTF8PROC_BOUNDCLASS_EXTENDED_PICTOGRAPHIC then
               if tbc = UTF8PROC_BOUNDCLASS_EXTEND then UTF8PROC_BOUNDCLASS_EXTENDED_PICTOGRAPHIC
               else if tbc = UTF8PROC_BOUNDCLASS_ZWJ then UTF8PROC_BOUNDCLASS_E_ZWG
               else tbc
             else tbc)
      in (break_permitted, state_bc + state_icb * 256))"

record LhatUtf8proc =
  up_boundclass :: "int \<Rightarrow> nat"
  up_indic_conjunct_break :: "int \<Rightarrow> nat"

definition utf8proc_grapheme_break_stateful :: "LhatUtf8proc \<Rightarrow> int \<Rightarrow> int \<Rightarrow> nat \<Rightarrow> bool \<times> nat" where
  "utf8proc_grapheme_break_stateful up c1 c2 state =
     grapheme_break_extended (up_boundclass up c1) (up_boundclass up c2)
       (up_indic_conjunct_break up c1) (up_indic_conjunct_break up c2) state"

text \<open>What the table says of the line feed.\<close>

definition utf8proc_ok :: "LhatUtf8proc \<Rightarrow> bool" where
  "utf8proc_ok up \<longleftrightarrow> up_boundclass up 10 = UTF8PROC_BOUNDCLASS_LF"

subsection \<open>What the clusters rely on\<close>

text \<open>No more bytes are read than there are.\<close>

lemma iterate_reads: "utf8proc_iterate bytes = ITERATE rest cp \<Longrightarrow> rest < length bytes"
  by (cases bytes) (auto simp: Let_def split: if_splits list.splits)

text \<open>A code point is read from its own bytes: what follows them makes no difference, and what cannot be
read cannot be read with fewer bytes either.\<close>

lemma iterate_prefix:
  assumes "0 < n"
  shows "utf8proc_iterate bytes = ITERATE rest cp \<Longrightarrow> rest < n \<Longrightarrow>
      utf8proc_iterate (take n bytes) = ITERATE rest cp"
    "utf8proc_iterate bytes = ITERATE_ERROR \<Longrightarrow> utf8proc_iterate (take n bytes) = ITERATE_ERROR"
proof -
  obtain k where n: "n = Suc k" using assms by (cases n) auto
  show "utf8proc_iterate bytes = ITERATE rest cp \<Longrightarrow> rest < n \<Longrightarrow>
      utf8proc_iterate (take n bytes) = ITERATE rest cp"
    unfolding n by (cases bytes) (auto simp: Let_def take_Cons split: if_splits list.splits nat.splits)
  show "utf8proc_iterate bytes = ITERATE_ERROR \<Longrightarrow> utf8proc_iterate (take n bytes) = ITERATE_ERROR"
    unfolding n by (cases bytes) (auto simp: Let_def take_Cons split: if_splits list.splits nat.splits)
qed

text \<open>A boundary follows a line feed that a cluster begins with, or that follows a carriage return it begins
with: the state is still 0 there.\<close>

lemma break_after_newline: "utf8proc_ok up \<Longrightarrow> fst (utf8proc_grapheme_break_stateful up 10 cp 0)"
  by (simp add: utf8proc_ok_def utf8proc_grapheme_break_stateful_def grapheme_break_extended_def
      grapheme_break_simple_def Let_def)

end
