(* ===== verification/Lhat_Grapheme.thy ===== *)
theory Lhat_Grapheme
  imports Lhat_Value Lhat_Utf8proc
begin

text \<open>
  The grapheme clusters of a string (\<open>src/grapheme.c\<close>) over the decoder and the boundaries of
  \<open>Lhat_Utf8proc\<close>.
\<close>

subsection \<open>Clusters\<close>

definition decode_at :: "byte list \<Rightarrow> nat \<Rightarrow> Utf8Iterate" where
  "decode_at bytes at =
     (if bytes ! at < 0x80 then ITERATE 0 (uint (bytes ! at)) else utf8proc_iterate (take 4 (drop at bytes)))"

text \<open>The place after the code point and the code point, where there is one.\<close>

definition lhat_codepoint_next :: "byte list \<Rightarrow> nat \<Rightarrow> nat \<times> int option" where
  "lhat_codepoint_next bytes from =
     (if length bytes \<le> from then (length bytes, None)
      else
        case decode_at bytes from of
          ITERATE_ERROR \<Rightarrow> (from + 1, Some 0xFFFD)
        | ITERATE rest cp \<Rightarrow> (from + (1 + rest), Some cp))"

text \<open>The loop of \<open>lhat_grapheme_next\<close>.\<close>

function grapheme_loop :: "LhatUtf8proc \<Rightarrow> byte list \<Rightarrow> nat \<Rightarrow> int \<Rightarrow> nat \<Rightarrow> nat" where
  "grapheme_loop up bytes at previous state =
     (if at < length bytes then
        case decode_at bytes at of
          ITERATE_ERROR \<Rightarrow> at
        | ITERATE rest current \<Rightarrow>
            if previous < 0x80 \<and> current < 0x80 then
              (if previous \<noteq> 13 \<or> current \<noteq> 10 then at
               else grapheme_loop up bytes (at + (1 + rest)) current state)
            else
              (case utf8proc_grapheme_break_stateful up previous current state of
                 (boundary, state) \<Rightarrow>
                   if boundary then at else grapheme_loop up bytes (at + (1 + rest)) current state)
      else at)"
  by pat_completeness auto
termination
  by (relation "measure (\<lambda>(up, bytes, at, previous, state). length bytes - at)") auto

declare grapheme_loop.simps [simp del]

definition lhat_grapheme_next :: "LhatUtf8proc \<Rightarrow> byte list \<Rightarrow> nat \<Rightarrow> nat" where
  "lhat_grapheme_next up bytes from =
     (if length bytes \<le> from then length bytes
      else
        case decode_at bytes from of
          ITERATE_ERROR \<Rightarrow> from + 1
        | ITERATE rest previous \<Rightarrow> grapheme_loop up bytes (from + (1 + rest)) previous 0)"

definition ascii_at :: "byte list \<Rightarrow> nat \<Rightarrow> bool" where
  "ascii_at bytes at \<longleftrightarrow> bytes ! at < 0x80"

lemma grapheme_loop_ge: "at \<le> grapheme_loop up bytes at previous state"
proof (induction "length bytes - at" arbitrary: at previous state rule: less_induct)
  case less
  have "at \<le> grapheme_loop up bytes (at + (1 + rest)) c s" if "at < length bytes" for rest c s
  proof -
    have "length bytes - (at + (1 + rest)) < length bytes - at" using that by linarith
    then show ?thesis using less [of "at + (1 + rest)" c s] by linarith
  qed
  then show ?case
    by (subst grapheme_loop.simps) (auto split: Utf8Iterate.split prod.split)
qed

lemma grapheme_next_progress: "at < length bytes \<Longrightarrow> at < lhat_grapheme_next up bytes at"
proof -
  assume "at < length bytes"
  moreover have "at < grapheme_loop up bytes (at + (1 + rest)) c s" for rest c s
    using grapheme_loop_ge [of "at + (1 + rest)" up bytes c s] by simp
  ultimately show ?thesis by (simp add: lhat_grapheme_next_def split: Utf8Iterate.split)
qed

text \<open>The count takes two bytes of ASCII in a row without asking the library.\<close>

function grapheme_count_from :: "LhatUtf8proc \<Rightarrow> byte list \<Rightarrow> nat \<Rightarrow> nat" where
  "grapheme_count_from up bytes at =
     (if at < length bytes then
        1 + grapheme_count_from up bytes
              (if ascii_at bytes at \<and> (at + 1 = length bytes \<or> ascii_at bytes (at + 1)) then
                 at + (if bytes ! at = 13 \<and> at + 1 < length bytes \<and> bytes ! (at + 1) = 10 then 2 else 1)
               else lhat_grapheme_next up bytes at)
      else 0)"
  by pat_completeness auto
termination
  by (relation "measure (\<lambda>(up, bytes, at). length bytes - at)") (auto dest: grapheme_next_progress intro: diff_less_mono2)

declare grapheme_count_from.simps [simp del]

definition lhat_grapheme_count :: "LhatUtf8proc \<Rightarrow> byte list \<Rightarrow> nat" where
  "lhat_grapheme_count up bytes = grapheme_count_from up bytes 0"

subsection \<open>The clusters of a string\<close>

text \<open>From a boundary on, each as its bytes; and the boundaries themselves.\<close>

function clusters :: "LhatUtf8proc \<Rightarrow> byte list \<Rightarrow> nat \<Rightarrow> byte list list" where
  "clusters up bytes at =
     (if at < length bytes then
        take (lhat_grapheme_next up bytes at - at) (drop at bytes) #
        clusters up bytes (lhat_grapheme_next up bytes at)
      else [])"
  by pat_completeness auto
termination
  by (relation "measure (\<lambda>(up, bytes, at). length bytes - at)") (auto dest: grapheme_next_progress intro: diff_less_mono2)

declare clusters.simps [simp del]

definition characters :: "LhatUtf8proc \<Rightarrow> byte list \<Rightarrow> byte list list" where
  "characters up bytes = clusters up bytes 0"

lemma clusters_end [simp]: "length bytes \<le> at \<Longrightarrow> clusters up bytes at = []"
  by (subst clusters.simps) simp

lemma clusters_step:
  "at < length bytes \<Longrightarrow> clusters up bytes at =
     take (lhat_grapheme_next up bytes at - at) (drop at bytes) # clusters up bytes (lhat_grapheme_next up bytes at)"
  by (subst clusters.simps) simp

lemma clusters_concat: "concat (clusters up bytes at) = drop at bytes"
proof (induction up bytes at rule: clusters.induct)
  case (1 up bytes at)
  show ?case
  proof (cases "at < length bytes")
    case True
    let ?to = "lhat_grapheme_next up bytes at"
    have "drop ?to bytes = drop (?to - at) (drop at bytes)"
      using grapheme_next_progress [OF True, of up] by simp
    then show ?thesis using 1 [OF True] True by (simp only: clusters_step concat.simps append_take_drop_id)
  qed simp
qed

lemma clusters_nonempty: "[] \<notin> set (clusters up bytes at)"
proof (induction up bytes at rule: clusters.induct)
  case (1 up bytes at)
  then show ?case
    using grapheme_next_progress [of at bytes up] by (cases "at < length bytes") (auto simp: clusters_step)
qed

lemma iterate_within:
  "at < length bytes \<Longrightarrow> decode_at bytes at = ITERATE rest cp \<Longrightarrow> at + (1 + rest) \<le> length bytes"
proof -
  assume at: "at < length bytes" and d: "decode_at bytes at = ITERATE rest cp"
  show ?thesis
  proof (cases "bytes ! at < 0x80")
    case False
    then have "utf8proc_iterate (take 4 (drop at bytes)) = ITERATE rest cp" using d by (simp add: decode_at_def)
    then have "rest < length (take 4 (drop at bytes))" by (rule iterate_reads)
    then show ?thesis using at by simp linarith
  qed (use at d in \<open>simp add: decode_at_def\<close>)
qed

lemma grapheme_loop_le:
  "at \<le> length bytes \<Longrightarrow> grapheme_loop up bytes at previous state \<le> length bytes"
proof (induction "length bytes - at" arbitrary: at previous state rule: less_induct)
  case less
  have "grapheme_loop up bytes (at + (1 + rest)) c s \<le> length bytes"
    if "at < length bytes" "decode_at bytes at = ITERATE rest c'" for rest c c' s
    using less.hyps [of "at + (1 + rest)" c s] iterate_within [OF that] that(1)
    by (simp add: diff_less_mono2)
  then show ?case
    using less.prems by (subst grapheme_loop.simps) (auto split: Utf8Iterate.split prod.split)
qed

lemma grapheme_next_le: "lhat_grapheme_next up bytes at \<le> length bytes"
  using iterate_within [of at bytes] grapheme_loop_le [of _ bytes]
  by (auto simp: lhat_grapheme_next_def not_le less_eq_Suc_le split: Utf8Iterate.split)

subsection \<open>The count\<close>

lemma ascii_decode: "ascii_at bytes at \<Longrightarrow> decode_at bytes at = ITERATE 0 (uint (bytes ! at))"
  by (simp add: decode_at_def ascii_at_def)

lemma ascii_value: "ascii_at bytes at \<Longrightarrow> uint (bytes ! at) < 0x80"
  by (simp add: ascii_at_def word_less_def)

text \<open>What the count takes without asking is what the walk over the clusters takes.\<close>

lemma fast_next:
  assumes "utf8proc_ok up" "at < length bytes" "ascii_at bytes at"
    "at + 1 = length bytes \<or> ascii_at bytes (at + 1)"
  shows "lhat_grapheme_next up bytes at =
    at + (if bytes ! at = 13 \<and> at + 1 < length bytes \<and> bytes ! (at + 1) = 10 then 2 else 1)"
proof -
  have start: "lhat_grapheme_next up bytes at = grapheme_loop up bytes (at + 1) (uint (bytes ! at)) 0"
    using assms(2) ascii_decode [OF assms(3)] by (simp add: lhat_grapheme_next_def)
  have after: "grapheme_loop up bytes (at + 2) 10 0 = at + 2"
    using break_after_newline [OF assms(1)] by (subst grapheme_loop.simps)
      (auto split: Utf8Iterate.split prod.split if_split, metis fst_conv)
  show ?thesis
  proof (cases "at + 1 < length bytes")
    case True
    then have next': "ascii_at bytes (at + 1)" using assms(4) by simp
    have "uint (bytes ! at) = 13 \<longleftrightarrow> bytes ! at = 13" "uint (bytes ! (at + 1)) = 10 \<longleftrightarrow> bytes ! (at + 1) = 10"
      by (simp_all add: word_uint_eq_iff)
    then show ?thesis
      unfolding start using True ascii_decode [OF next'] ascii_value [OF next'] ascii_value [OF assms(3)] after
      by (subst grapheme_loop.simps) (auto simp: numeral_2_eq_2)
  next
    case False
    then show ?thesis unfolding start by (subst grapheme_loop.simps) simp
  qed
qed

lemma count_is_clusters:
  assumes "utf8proc_ok up"
  shows "grapheme_count_from up bytes at = length (clusters up bytes at)"
proof (induction "length bytes - at" arbitrary: at rule: less_induct)
  case less
  show ?case
  proof (cases "at < length bytes")
    case True
    have "grapheme_count_from up bytes at = 1 + grapheme_count_from up bytes (lhat_grapheme_next up bytes at)"
      using True fast_next [OF assms True] by (subst grapheme_count_from.simps) auto
    moreover have "length bytes - lhat_grapheme_next up bytes at < length bytes - at"
      using grapheme_next_progress [OF True, of up] True by linarith
    ultimately show ?thesis using less clusters_step [OF True, of up] by simp
  next
    case False
    then show ?thesis by (subst grapheme_count_from.simps) simp
  qed
qed

lemma grapheme_count_is: "utf8proc_ok up \<Longrightarrow> lhat_grapheme_count up bytes = length (characters up bytes)"
  by (simp add: lhat_grapheme_count_def characters_def count_is_clusters)

end
