(* ===== verification/Lhat_TableNative.thy ===== *)
theory Lhat_TableNative
  imports Lhat_Sort
begin

text \<open>
  The operations a program calls on a table (\<open>src/vm_table.c\<close>): the one door for a write
  (\<open>vm_set_key\<close>), the copies, and the natives themselves (\<open>vm_table_native\<close>).  A memory is the store
  with the addresses the allocator will answer next: an empty list is an allocator that fails.  The
  barriers that go with the writes are in \<open>Lhat_Mutator\<close>.
\<close>

record LhatMemory =
  me_store :: LhatStore
  me_fresh :: "addr list"

definition put_content :: "LhatStore \<Rightarrow> addr \<Rightarrow> LhatContent \<Rightarrow> LhatStore" where
  "put_content st a c = st\<lparr>st_content := (st_content st)(a := c)\<rparr>"

definition put_table :: "LhatMemory \<Rightarrow> addr \<Rightarrow> LhatTable \<Rightarrow> LhatMemory" where
  "put_table m a t = m\<lparr>me_store := put_content (me_store m) a (CONTENT_TABLE t)\<rparr>"

definition table_in :: "LhatMemory \<Rightarrow> addr \<Rightarrow> LhatTable option" where
  "table_in m a = table_at (me_store m) a"

text \<open>A new object with these contents.\<close>

definition object_new :: "LhatMemory \<Rightarrow> LhatContent \<Rightarrow> (addr \<times> LhatMemory) option" where
  "object_new m c =
     (case me_fresh m of
        [] \<Rightarrow> None
      | a # rest \<Rightarrow> Some (a, \<lparr>me_store = put_content (me_store m) a c, me_fresh = rest\<rparr>))"

subsection \<open>Writing a key\<close>

fun vm_table_of :: "LhatStore \<Rightarrow> LhatValue \<Rightarrow> pointer" where
  "vm_table_of st (VALUE_OBJECT (Some a)) =
     (case st_content st a of
        CONTENT_TABLE t \<Rightarrow> Some a
      | CONTENT_ERROR p \<Rightarrow> p
      | CONTENT_ENUM p \<Rightarrow> p
      | _ \<Rightarrow> None)"
| "vm_table_of st v = None"

text \<open>Whether a definition's prototype has a seat for the key that stands empty there.\<close>

definition declared_seat :: "LhatStore \<Rightarrow> LhatValue \<Rightarrow> LhatTable \<Rightarrow> LhatValue \<Rightarrow> bool option" where
  "declared_seat st self t key =
     (case tb_definition t of
        None \<Rightarrow> Some False
      | Some d \<Rightarrow> do {
          held \<leftarrow> lhat_table_get st (Some d) self;
          case vm_table_of st held of
            None \<Rightarrow> Some False
          | Some p \<Rightarrow> do {
              proto \<leftarrow> table_at st p;
              lhat_table_reserved st proto key
            }
        })"

datatype LhatWrite = WRITE (write_done: bool) (write_refused: bool) (write_memory: LhatMemory)

text \<open>\<open>self\<close> is the machine's string \<open>self\<close>.\<close>

definition vm_set_key ::
  "LhatValue \<Rightarrow> LhatMemory \<Rightarrow> addr \<Rightarrow> LhatValue \<Rightarrow> LhatValue \<Rightarrow> LhatWrite option" where
  "vm_set_key self m a key value = do {
     t \<leftarrow> table_in m a;
     if tb_shared t then Some (WRITE True True m)
     else do {
       seat \<leftarrow> (if lhat_is_nil value then declared_seat (me_store m) self t key else Some False);
       if seat then do {
         t \<leftarrow> lhat_table_vacate (me_store m) t key;
         Some (WRITE True False (put_table m a t))
       }
       else do {
         answer \<leftarrow> lhat_table_set (me_store m) t key value;
         Some (WRITE (set_done answer) (set_refused answer) (put_table m a (set_table answer)))
       }
     }
   }"

text \<open>A run of writes; it ends at the first that runs out of memory.\<close>

fun set_each ::
  "LhatValue \<Rightarrow> LhatMemory \<Rightarrow> addr \<Rightarrow> (LhatValue \<times> LhatValue) list \<Rightarrow> (bool \<times> LhatMemory) option" where
  "set_each self m a [] = Some (True, m)"
| "set_each self m a ((k, v) # rest) = do {
     written \<leftarrow> vm_set_key self m a k v;
     if write_done written then set_each self (write_memory written) a rest
     else Some (False, write_memory written)
   }"

text \<open>The pairs of a run in its order, numbered from \<open>i\<close> on, and those of a hash half.\<close>

definition run_pairs :: "nat \<Rightarrow> LhatValue list \<Rightarrow> (LhatValue \<times> LhatValue) list" where
  "run_pairs i xs = zip (map (\<lambda>k. VALUE_INTEGER (word_of_nat k)) [i..<i + length xs]) xs"

definition entry_pairs :: "LhatTable \<Rightarrow> (LhatValue \<times> LhatValue) list" where
  "entry_pairs t = filter (\<lambda>e. \<not> lhat_is_nil (fst e)) (tb_entries t)"

subsection \<open>Loops over a run\<close>

text \<open>The loop of \<open>insert\<close>: each position, from the last down, is written one further up.\<close>

fun shift_up :: "LhatValue \<Rightarrow> LhatMemory \<Rightarrow> addr \<Rightarrow> nat list \<Rightarrow> (bool \<times> LhatMemory) option" where
  "shift_up self m a [] = Some (True, m)"
| "shift_up self m a (k # ks) = do {
     t \<leftarrow> table_in m a;
     written \<leftarrow> vm_set_key self m a (VALUE_INTEGER (word_of_nat (k + 1))) (tb_array t ! k);
     if write_done written then shift_up self (write_memory written) a ks
     else Some (False, write_memory written)
   }"

text \<open>The loop of \<open>extend\<close>: \<open>b\<close> may be the table that grows.\<close>

fun append_each ::
  "LhatValue \<Rightarrow> LhatMemory \<Rightarrow> addr \<Rightarrow> addr \<Rightarrow> nat \<Rightarrow> nat list \<Rightarrow> (bool \<times> LhatMemory) option" where
  "append_each self m a b n [] = Some (True, m)"
| "append_each self m a b n (i # is) = do {
     extra \<leftarrow> table_in m b;
     written \<leftarrow> vm_set_key self m a (VALUE_INTEGER (word_of_nat (n + i))) (tb_array extra ! i);
     if write_done written then append_each self (write_memory written) a b n is
     else Some (False, write_memory written)
   }"

text \<open>Positions that take what stands one further up, or one further down.\<close>

fun take_above :: "LhatValue list \<Rightarrow> nat list \<Rightarrow> LhatValue list" where
  "take_above xs [] = xs"
| "take_above xs (k # ks) = take_above (xs[k := xs ! (k + 1)]) ks"

fun take_below :: "LhatValue list \<Rightarrow> nat list \<Rightarrow> LhatValue list" where
  "take_below xs [] = xs"
| "take_below xs (k # ks) = take_below (xs[k := xs ! (k - 1)]) ks"

fun swap_ends :: "LhatValue list \<Rightarrow> nat \<Rightarrow> nat list \<Rightarrow> LhatValue list" where
  "swap_ends xs n [] = xs"
| "swap_ends xs n (i # is) =
     (let held = xs ! i in swap_ends (xs[i := xs ! (n - 1 - i), n - 1 - i := held]) n is)"

text \<open>The first position that holds a value equal to the one asked for.\<close>

fun index_of :: "LhatStore \<Rightarrow> LhatValue \<Rightarrow> nat \<Rightarrow> LhatValue list \<Rightarrow> nat option" where
  "index_of st v i [] = None"
| "index_of st v i (x # xs) = (if lhat_value_equal st v x then Some i else index_of st v (i + 1) xs)"


subsection \<open>Copies\<close>

text \<open>\<open>clone_policy\<close> and \<open>table_clone\<close>: the values of a copy, each sent through the policy if there is one.
The copy is not in any table while the policy runs, so the writes are made as the values come.\<close>

fun clone_each ::
  "LhatCall \<Rightarrow> LhatValue \<Rightarrow> LhatValue \<Rightarrow> LhatMemory \<Rightarrow> addr \<Rightarrow> (LhatValue \<times> LhatValue) list \<Rightarrow>
   (LhatRunStatus \<times> LhatMemory) option" where
  "clone_each call policy self m a [] = Some (LHAT_RUN_OK, m)"
| "clone_each call policy self m a ((k, v) # rest) =
     (let (status, held) = (if lhat_is_nil policy then (LHAT_RUN_OK, v) else call policy [v])
      in if status \<noteq> LHAT_RUN_OK then Some (status, m)
         else do {
           written \<leftarrow> vm_set_key self m a k held;
           if write_done written then clone_each call policy self (write_memory written) a rest
           else Some (LHAT_RUN_OUT_OF_MEMORY, write_memory written)
         })"

definition table_clone ::
  "LhatCall \<Rightarrow> LhatValue \<Rightarrow> LhatMemory \<Rightarrow> LhatTable \<Rightarrow> LhatValue \<Rightarrow>
   (LhatRunStatus \<times> pointer \<times> LhatMemory) option" where
  "table_clone call self m t policy =
     (case object_new m (CONTENT_TABLE new_table) of
        None \<Rightarrow> Some (LHAT_RUN_OUT_OF_MEMORY, None, m)
      | Some (copy, m) \<Rightarrow> do {
          (status, m) \<leftarrow> clone_each call policy self m copy (run_pairs 0 (tb_array t) @ entry_pairs t);
          Some (status, if status = LHAT_RUN_OK then Some copy else None, m)
        })"

text \<open>\<open>vm_concat_tables\<close>: the runs after one another, then the keyed halves; a key that both carry is refused.
The answer is the joined table and whether there was a collision.\<close>

fun join_entries ::
  "LhatValue \<Rightarrow> LhatMemory \<Rightarrow> addr \<Rightarrow> (LhatValue \<times> LhatValue) list \<Rightarrow> (bool \<times> bool \<times> LhatMemory) option" where
  "join_entries self m a [] = Some (True, False, m)"
| "join_entries self m a ((k, v) # rest) = do {
     there \<leftarrow> lhat_table_get (me_store m) (Some a) k;
     if \<not> lhat_is_nil there then Some (False, True, m)
     else do {
       written \<leftarrow> vm_set_key self m a k v;
       if write_done written then join_entries self (write_memory written) a rest
       else Some (False, False, write_memory written)
     }
   }"

definition vm_concat_tables ::
  "LhatValue \<Rightarrow> LhatMemory \<Rightarrow> LhatTable \<Rightarrow> LhatTable \<Rightarrow> (pointer \<times> bool \<times> LhatMemory) option" where
  "vm_concat_tables self m left right =
     (case object_new m (CONTENT_TABLE new_table) of
        None \<Rightarrow> Some (None, False, m)
      | Some (joined, m) \<Rightarrow> do {
          (done, m) \<leftarrow> set_each self m joined
            (run_pairs 0 (tb_array left) @ run_pairs (array_count left) (tb_array right));
          if \<not> done then Some (None, False, m)
          else do {
            (done, collided, m) \<leftarrow> join_entries self m joined (entry_pairs left @ entry_pairs right);
            Some (if done then Some joined else None, collided, m)
          }
        })"

text \<open>\<open>table_blockmove\<close>: the offsets in the order the code takes them.  A place past the 64 bit integers is a
signed overflow, which C leaves undefined: \<open>None\<close>.\<close>

fun move_each ::
  "LhatValue \<Rightarrow> LhatMemory \<Rightarrow> addr \<Rightarrow> addr \<Rightarrow> LhatInteger \<Rightarrow> LhatInteger \<Rightarrow> nat list \<Rightarrow>
   (LhatRunStatus \<times> LhatMemory) option" where
  "move_each self m dst src from to [] = Some (LHAT_RUN_OK, m)"
| "move_each self m dst src from to (k # ks) = do {
     _ \<leftarrow> (if sint to + int k < 2 ^ 63 then Some () else None);
     v \<leftarrow> lhat_table_get (me_store m) (Some src) (VALUE_INTEGER (from + word_of_nat k));
     written \<leftarrow> vm_set_key self m dst (VALUE_INTEGER (to + word_of_nat k)) v;
     if write_done written then move_each self (write_memory written) dst src from to ks
     else Some (LHAT_RUN_OUT_OF_MEMORY, write_memory written)
   }"

definition table_blockmove ::
  "LhatValue \<Rightarrow> LhatMemory \<Rightarrow> addr \<Rightarrow> addr \<Rightarrow> LhatInteger \<Rightarrow> LhatInteger \<Rightarrow> LhatInteger \<Rightarrow>
   (LhatRunStatus \<times> LhatMemory) option" where
  "table_blockmove self m dst src from until to =
     (if sint until < sint from then Some (LHAT_RUN_OK, m)
      else
        let offsets = [0..<Suc (nat (sint until - sint from))]
        in move_each self m dst src from to
             (if dst = src \<and> sint from < sint to then rev offsets else offsets))"

text \<open>\<open>table_assign\<close>.  Two keys are alike there if they are one key, a string by its bytes.  Where the first
is a string the code reads the second, if it is an object, as a string without asking what it is: \<open>None\<close>
where it is none.\<close>

definition key_alike :: "LhatStore \<Rightarrow> LhatValue \<Rightarrow> LhatValue \<Rightarrow> bool option" where
  "key_alike st a b =
     (case content_of st a of
        Some (CONTENT_STRING s h) \<Rightarrow>
          (case b of
             VALUE_OBJECT p \<Rightarrow>
               (case content_of st b of
                  Some (CONTENT_STRING s' h') \<Rightarrow> Some (lhat_string_equal s h s' h')
                | _ \<Rightarrow> None)
           | _ \<Rightarrow> Some False)
      | _ \<Rightarrow> Some (a = b))"

fun keys_alike :: "LhatStore \<Rightarrow> LhatTableEntry list \<Rightarrow> LhatTableEntry list \<Rightarrow> bool option" where
  "keys_alike st (e # es) (f # fs) = do {
     alike \<leftarrow> key_alike st (fst e) (fst f);
     if alike then keys_alike st es fs else Some False
   }"
| "keys_alike st es fs = Some True"

definition entries_alike :: "LhatStore \<Rightarrow> LhatTable \<Rightarrow> LhatTable \<Rightarrow> bool option" where
  "entries_alike st to from =
     (if entry_capacity to = entry_capacity from \<and> array_count to = array_count from \<and> \<not> tb_shared to
      then keys_alike st (tb_entries to) (tb_entries from) else Some False)"

definition overwritten :: "LhatTable \<Rightarrow> LhatTable \<Rightarrow> LhatTable" where
  "overwritten to from =
     to\<lparr>tb_entries := map2 (\<lambda>e f. if lhat_is_nil (fst e) then e else (fst e, snd f)) (tb_entries to) (tb_entries from),
        tb_array := tb_array from\<rparr>"

text \<open>The keys of the hash half, by their places, that \<open>from\<close> does not read.\<close>

fun drop_missing ::
  "LhatValue \<Rightarrow> LhatMemory \<Rightarrow> addr \<Rightarrow> addr \<Rightarrow> nat list \<Rightarrow> (bool \<times> LhatMemory) option" where
  "drop_missing self m to from [] = Some (True, m)"
| "drop_missing self m to from (i # is) = do {
     t \<leftarrow> table_in m to;
     let (key, value) = tb_entries t ! i in
     if lhat_is_nil key \<or> lhat_is_nil value then drop_missing self m to from is
     else do {
       there \<leftarrow> lhat_table_get (me_store m) (Some from) key;
       if \<not> lhat_is_nil there then drop_missing self m to from is
       else do {
         written \<leftarrow> vm_set_key self m to key VALUE_NIL;
         if write_done written then drop_missing self (write_memory written) to from is
         else Some (False, write_memory written)
       }
     }
   }"

definition table_assign :: "LhatValue \<Rightarrow> LhatMemory \<Rightarrow> addr \<Rightarrow> addr \<Rightarrow> (LhatRunStatus \<times> LhatMemory) option" where
  "table_assign self m to from =
     (if to = from then Some (LHAT_RUN_OK, m)
      else do {
        t \<leftarrow> table_in m to;
        f \<leftarrow> table_in m from;
        alike \<leftarrow> entries_alike (me_store m) t f;
        if alike then Some (LHAT_RUN_OK, put_table m to (overwritten t f))
        else do {
          (done, m) \<leftarrow> drop_missing self m to from [0..<entry_capacity t];
          if \<not> done then Some (LHAT_RUN_OUT_OF_MEMORY, m)
          else do {
            t \<leftarrow> table_in m to;
            (done, m) \<leftarrow> (if array_count f < array_count t then do {
                (done, t) \<leftarrow> lhat_table_resize (me_store m) t (array_count f) VALUE_NIL;
                Some (done, put_table m to t)
              } else Some (True, m));
            if \<not> done then Some (LHAT_RUN_OUT_OF_MEMORY, m)
            else do {
              (done, m) \<leftarrow> set_each self m to (run_pairs 0 (tb_array f) @ entry_pairs f);
              Some (if done then LHAT_RUN_OK else LHAT_RUN_OUT_OF_MEMORY, m)
            }
          }
        }
      })"


subsection \<open>The natives\<close>

datatype LhatTableNative =
    LHAT_NATIVE_JOIN | LHAT_NATIVE_INDEXOF | LHAT_NATIVE_CONTAINS | LHAT_NATIVE_SLICE | LHAT_NATIVE_RANGE
  | LHAT_NATIVE_REVERSE_RANGE | LHAT_NATIVE_RANGE_DOWNTO | LHAT_NATIVE_REVERSE_ITERATE
  | LHAT_NATIVE_CLONE | LHAT_NATIVE_INSERT | LHAT_NATIVE_PUSH | LHAT_NATIVE_EXTEND
  | LHAT_NATIVE_REMOVE | LHAT_NATIVE_POP | LHAT_NATIVE_SORT | LHAT_NATIVE_STABLESORT
  | LHAT_NATIVE_MOVE | LHAT_NATIVE_REVERSE | LHAT_NATIVE_RESIZE | LHAT_NATIVE_CLEAR
  | LHAT_NATIVE_ASSIGN

definition mutates :: "LhatTableNative \<Rightarrow> bool" where
  "mutates kind \<longleftrightarrow>
     kind \<in> {LHAT_NATIVE_INSERT, LHAT_NATIVE_PUSH, LHAT_NATIVE_EXTEND, LHAT_NATIVE_REMOVE,
       LHAT_NATIVE_POP, LHAT_NATIVE_SORT, LHAT_NATIVE_STABLESORT, LHAT_NATIVE_MOVE,
       LHAT_NATIVE_REVERSE, LHAT_NATIVE_RESIZE, LHAT_NATIVE_CLEAR, LHAT_NATIVE_ASSIGN}"

text \<open>What lands over the call: a value, or the walk over the table that a range is.\<close>

datatype LhatNativeAnswer = ANSWER_VALUE LhatValue | ANSWER_WALK LhatWalkCursor

record LhatNativeCall =
  nc_status :: LhatRunStatus
  nc_answer :: LhatNativeAnswer
  nc_memory :: LhatMemory

definition ended :: "LhatRunStatus \<Rightarrow> LhatValue \<Rightarrow> LhatMemory \<Rightarrow> LhatNativeCall option" where
  "ended status answer m = Some \<lparr>nc_status = status, nc_answer = ANSWER_VALUE answer, nc_memory = m\<rparr>"

text \<open>A run of writes that answers the receiver, or runs out of memory.\<close>

definition written_all :: "LhatValue \<Rightarrow> (bool \<times> LhatMemory) option \<Rightarrow> LhatNativeCall option" where
  "written_all answer written = do {
     (done, m) \<leftarrow> written;
     ended (if done then LHAT_RUN_OK else LHAT_RUN_OUT_OF_MEMORY) answer m
   }"

definition native_range ::
  "LhatTableNative \<Rightarrow> LhatMemory \<Rightarrow> LhatValue \<Rightarrow> nat \<Rightarrow> LhatValue list \<Rightarrow> LhatNativeCall option" where
  "native_range kind m bound n args =
     (let whole = (kind = LHAT_NATIVE_REVERSE_ITERATE)
      in if whole \<and> args \<noteq> [] \<or> \<not> whole \<and> (length args < 1 \<or> 2 < length args) then
           ended LHAT_RUN_ARITY bound m
         else
           let reverse = (kind \<noteq> LHAT_NATIVE_RANGE); downto = (kind = LHAT_NATIVE_RANGE_DOWNTO);
               from = (if whole then Some 0 else vm_ordinal_of (args ! 0));
               to = (if length args = 2 then vm_ordinal_of (args ! 1)
                     else Some (if downto then 0 else - 1))
           in case (from, to) of
                (Some from, Some to) \<Rightarrow>
                  let start0 = vm_resolve_ordinal from n; end0 = vm_resolve_ordinal to n;
                      start = (if downto then end0 else start0); finish = (if downto then start0 else end0);
                      cursor = (if 0 \<le> sint start \<and> sint start \<le> sint finish \<and> sint finish < int n then
                          \<lparr>wk_part = (if reverse then LHAT_WALK_REVERSE else LHAT_WALK_RANGE),
                           wk_at_array = (if reverse then unat finish + 1 else unat start),
                           wk_at_entry = (if reverse then unat start else unat finish + 1)\<rparr>
                        else
                          \<lparr>wk_part = (if reverse then LHAT_WALK_REVERSE else LHAT_WALK_RANGE),
                           wk_at_array = 0, wk_at_entry = 0\<rparr>)
                  in (case object_new m CONTENT_OTHER of
                        None \<Rightarrow> ended LHAT_RUN_OUT_OF_MEMORY bound m
                      | Some (walk, m) \<Rightarrow>
                          Some \<lparr>nc_status = LHAT_RUN_OK, nc_answer = ANSWER_WALK cursor, nc_memory = m\<rparr>)
              | _ \<Rightarrow> ended LHAT_RUN_TYPE_ERROR bound m)"

definition native_slice ::
  "LhatValue \<Rightarrow> LhatMemory \<Rightarrow> LhatValue \<Rightarrow> LhatTable \<Rightarrow> LhatValue list \<Rightarrow> LhatNativeCall option" where
  "native_slice self m bound t args =
     (if length args < 1 \<or> 2 < length args then ended LHAT_RUN_ARITY bound m
      else
        case (vm_ordinal_of (args ! 0), if length args = 2 then vm_ordinal_of (args ! 1) else Some (- 1)) of
          (Some from, Some to) \<Rightarrow>
            let n = array_count t; start = vm_resolve_ordinal from n; finish = vm_resolve_ordinal to n
            in (case object_new m (CONTENT_TABLE new_table) of
                  None \<Rightarrow> ended LHAT_RUN_OUT_OF_MEMORY bound m
                | Some (piece, m) \<Rightarrow> do {
                    (done, m) \<leftarrow>
                      (if 0 \<le> sint start \<and> sint start \<le> sint finish \<and> sint finish < int n then
                         set_each self m piece
                           (run_pairs 0 (take (unat finish + 1 - unat start) (drop (unat start) (tb_array t))))
                       else Some (True, m));
                    if done then ended LHAT_RUN_OK (VALUE_OBJECT (Some piece)) m
                    else ended LHAT_RUN_OUT_OF_MEMORY bound m
                  })
        | _ \<Rightarrow> ended LHAT_RUN_TYPE_ERROR bound m)"

definition native_insert ::
  "LhatValue \<Rightarrow> LhatMemory \<Rightarrow> LhatValue \<Rightarrow> addr \<Rightarrow> nat \<Rightarrow> LhatValue list \<Rightarrow> LhatNativeCall option" where
  "native_insert self m bound a n args =
     (if length args \<noteq> 2 then ended LHAT_RUN_ARITY bound m
      else
        case vm_ordinal_of (args ! 0) of
          None \<Rightarrow> ended LHAT_RUN_TYPE_ERROR bound m
        | Some written \<Rightarrow>
            let at = vm_resolve_ordinal written (n + 1)
            in if sint at < 0 \<or> int n < sint at then ended LHAT_RUN_BAD_KEY bound m
               else do {
                 (done, m) \<leftarrow> shift_up self m a (rev [unat at..<n]);
                 if \<not> done then ended LHAT_RUN_OUT_OF_MEMORY bound m
                 else written_all bound (set_each self m a [(VALUE_INTEGER at, args ! 1)])
               })"

definition native_remove ::
  "LhatTableNative \<Rightarrow> LhatMemory \<Rightarrow> LhatValue \<Rightarrow> addr \<Rightarrow> LhatTable \<Rightarrow> LhatValue list \<Rightarrow> LhatNativeCall option" where
  "native_remove kind m bound a t args =
     (let n = array_count t
      in if length args \<noteq> (if kind = LHAT_NATIVE_REMOVE then 1 else 0) then ended LHAT_RUN_ARITY bound m
         else
           case (if kind = LHAT_NATIVE_REMOVE then vm_ordinal_of (args ! 0) else Some (word_of_nat n - 1)) of
             None \<Rightarrow> ended LHAT_RUN_TYPE_ERROR bound m
           | Some written \<Rightarrow>
               let at = (if kind = LHAT_NATIVE_REMOVE then vm_resolve_ordinal written n else written)
               in if sint at < 0 \<or> int n \<le> sint at then ended LHAT_RUN_OK VALUE_NIL m
                  else do {
                    (done, t') \<leftarrow> lhat_table_resize (me_store m)
                      (t\<lparr>tb_array := take_above (tb_array t) [unat at..<n - 1]\<rparr>) (n - 1) VALUE_NIL;
                    ended LHAT_RUN_OK (tb_array t ! unat at) (put_table m a t')
                  })"

definition native_move ::
  "LhatValue \<Rightarrow> LhatMemory \<Rightarrow> LhatValue \<Rightarrow> addr \<Rightarrow> LhatTable \<Rightarrow> LhatValue list \<Rightarrow> LhatNativeCall option" where
  "native_move self m bound a t args =
     (let n = array_count t;
          source = (case args of VALUE_OBJECT (Some b) # rest \<Rightarrow> if table_in m b \<noteq> None then Some b else None
                    | _ \<Rightarrow> None);
          plain = (if source = None then args else tl args)
      in if length plain < 2 \<or> 3 < length plain then ended LHAT_RUN_ARITY bound m
         else
           let block = (length plain = 3)
           in case (vm_ordinal_of (plain ! 0), vm_ordinal_of (if block then plain ! 1 else plain ! 0),
                    vm_ordinal_of (last plain)) of
                (Some from, Some until, Some to) \<Rightarrow>
                  if source = None \<and> \<not> block then
                    if sint from < 0 \<or> int n \<le> sint from \<or> sint to < 0 \<or> int n \<le> sint to then
                      ended LHAT_RUN_BAD_KEY bound m
                    else
                      let f = unat from; g = unat to; xs = tb_array t;
                          ys = (if f < g then take_above xs [f..<g] else take_below xs (rev [g + 1..<f + 1]))
                      in ended LHAT_RUN_OK bound (put_table m a (t\<lparr>tb_array := ys[g := xs ! f]\<rparr>))
                  else do {
                    let b = (case source of Some b \<Rightarrow> b | None \<Rightarrow> a);
                    src \<leftarrow> table_in m b;
                    if sint from \<le> sint until \<and>
                       (sint from < 0 \<or> int (array_count src) \<le> sint until \<or> sint to < 0) then
                      ended LHAT_RUN_BAD_KEY bound m
                    else do {
                      (status, m) \<leftarrow> table_blockmove self m a b from until to;
                      ended status bound m
                    }
                  }
              | _ \<Rightarrow> ended LHAT_RUN_TYPE_ERROR bound m)"


text \<open>What a string or number adds to a join: \<open>number_text\<close> is the text of a number
(\<open>lhat_value_text\<close>, of which the spelling of a real is the C library's).\<close>

definition join_piece :: "(LhatValue \<Rightarrow> byte list) \<Rightarrow> LhatStore \<Rightarrow> LhatValue \<Rightarrow> byte list option" where
  "join_piece number_text st v =
     (case content_of st v of
        Some (CONTENT_STRING text hash) \<Rightarrow> Some text
      | _ \<Rightarrow> if lhat_is_number v then Some (number_text v) else None)"

fun join_text :: "byte list \<Rightarrow> byte list list \<Rightarrow> byte list" where
  "join_text sep [] = []"
| "join_text sep [piece] = piece"
| "join_text sep (piece # rest) = piece @ sep @ join_text sep rest"

definition table_join ::
  "(LhatValue \<Rightarrow> byte list) \<Rightarrow> LhatMemory \<Rightarrow> LhatValue \<Rightarrow> LhatTable \<Rightarrow> byte list \<Rightarrow> LhatNativeCall option" where
  "table_join number_text m bound t sep =
     (let pieces = map (join_piece number_text (me_store m)) (tb_array t)
      in if None \<in> set pieces then ended LHAT_RUN_TYPE_ERROR bound m
         else
           let text = join_text sep (map the pieces)
           in case object_new m (CONTENT_STRING text (lhat_string_hash text)) of
                None \<Rightarrow> ended LHAT_RUN_OUT_OF_MEMORY bound m
              | Some (joined, m) \<Rightarrow> ended LHAT_RUN_OK (VALUE_OBJECT (Some joined)) m)"

definition native_join ::
  "(LhatValue \<Rightarrow> byte list) \<Rightarrow> LhatMemory \<Rightarrow> LhatValue \<Rightarrow> LhatTable \<Rightarrow> LhatValue list \<Rightarrow> LhatNativeCall option" where
  "native_join number_text m bound t args =
     (case args of
        [] \<Rightarrow> table_join number_text m bound t []
      | [written] \<Rightarrow>
          (case content_of (me_store m) written of
             Some (CONTENT_STRING sep hash) \<Rightarrow> table_join number_text m bound t sep
           | _ \<Rightarrow> ended LHAT_RUN_TYPE_ERROR bound m)
      | _ \<Rightarrow> ended LHAT_RUN_ARITY bound m)"

definition native_resize ::
  "LhatMemory \<Rightarrow> LhatValue \<Rightarrow> addr \<Rightarrow> LhatTable \<Rightarrow> LhatValue list \<Rightarrow> LhatNativeCall option" where
  "native_resize m bound a t args =
     (if length args < 1 \<or> 2 < length args then ended LHAT_RUN_ARITY bound m
      else
        case vm_ordinal_of (args ! 0) of
          None \<Rightarrow> ended LHAT_RUN_TYPE_ERROR bound m
        | Some len \<Rightarrow>
            if sint len < 0 then ended LHAT_RUN_BAD_KEY bound m
            else do {
              (done, t) \<leftarrow> lhat_table_resize (me_store m) t (unat len)
                (if length args = 2 then args ! 1 else VALUE_NIL);
              ended (if done then LHAT_RUN_OK else LHAT_RUN_OUT_OF_MEMORY) bound (put_table m a t)
            })"

text \<open>Clearing a table leaves its capacity, its count of tombstones and its version as they were.\<close>

definition cleared :: "LhatTable \<Rightarrow> LhatTable" where
  "cleared t = t\<lparr>tb_array := [], tb_entries := map (\<lambda>e. nil_entry) (tb_entries t), tb_entry_count := 0\<rparr>"

definition vm_table_native ::
  "(LhatValue \<Rightarrow> byte list) \<Rightarrow> LhatCall \<Rightarrow> LhatValue \<Rightarrow> LhatTableNative \<Rightarrow> LhatMemory \<Rightarrow> addr \<Rightarrow>
   LhatValue list \<Rightarrow> LhatNativeCall option" where
  "vm_table_native number_text call self kind m a args = do {
     t \<leftarrow> table_in m a;
     let n = array_count t; bound = VALUE_OBJECT (Some a); st = me_store m in
     if mutates kind \<and> tb_sealed t then ended LHAT_RUN_SEALED bound m
     else
       case kind of
         LHAT_NATIVE_JOIN \<Rightarrow> native_join number_text m bound t args
       | LHAT_NATIVE_INDEXOF \<Rightarrow>
           if length args \<noteq> 1 then ended LHAT_RUN_ARITY bound m
           else ended LHAT_RUN_OK
             (case index_of st (args ! 0) 0 (tb_array t) of
                Some i \<Rightarrow> VALUE_INTEGER (word_of_nat i) | None \<Rightarrow> VALUE_NIL) m
       | LHAT_NATIVE_CONTAINS \<Rightarrow>
           if length args \<noteq> 1 then ended LHAT_RUN_ARITY bound m
           else ended LHAT_RUN_OK (VALUE_BOOL (index_of st (args ! 0) 0 (tb_array t) \<noteq> None)) m
       | LHAT_NATIVE_RANGE \<Rightarrow> native_range kind m bound n args
       | LHAT_NATIVE_REVERSE_RANGE \<Rightarrow> native_range kind m bound n args
       | LHAT_NATIVE_RANGE_DOWNTO \<Rightarrow> native_range kind m bound n args
       | LHAT_NATIVE_REVERSE_ITERATE \<Rightarrow> native_range kind m bound n args
       | LHAT_NATIVE_SLICE \<Rightarrow> native_slice self m bound t args
       | LHAT_NATIVE_INSERT \<Rightarrow> native_insert self m bound a n args
       | LHAT_NATIVE_PUSH \<Rightarrow>
           if length args \<noteq> 1 then ended LHAT_RUN_ARITY bound m
           else written_all bound (set_each self m a [(VALUE_INTEGER (word_of_nat n), args ! 0)])
       | LHAT_NATIVE_EXTEND \<Rightarrow>
           if length args \<noteq> 1 then ended LHAT_RUN_ARITY bound m
           else
             (case args ! 0 of
                VALUE_OBJECT (Some b) \<Rightarrow>
                  (case table_in m b of
                     Some extra \<Rightarrow> written_all bound (append_each self m a b n [0..<array_count extra])
                   | None \<Rightarrow> ended LHAT_RUN_TYPE_ERROR bound m)
              | _ \<Rightarrow> ended LHAT_RUN_TYPE_ERROR bound m)
       | LHAT_NATIVE_REMOVE \<Rightarrow> native_remove kind m bound a t args
       | LHAT_NATIVE_POP \<Rightarrow> native_remove kind m bound a t args
       | LHAT_NATIVE_CLONE \<Rightarrow>
           if 1 < length args then ended LHAT_RUN_ARITY bound m
           else do {
             (status, copy, m) \<leftarrow> table_clone call self m t (if args = [] then VALUE_NIL else args ! 0);
             ended status (if copy = None then bound else VALUE_OBJECT copy) m
           }
       | LHAT_NATIVE_SORT \<Rightarrow>
           if 1 < length args then ended LHAT_RUN_ARITY bound m
           else do {
             (status, t) \<leftarrow> table_sort st call (me_fresh m \<noteq> []) t (if args = [] then VALUE_NIL else args ! 0);
             ended status bound (put_table m a t)
           }
       | LHAT_NATIVE_STABLESORT \<Rightarrow>
           if 1 < length args then ended LHAT_RUN_ARITY bound m
           else do {
             (status, t) \<leftarrow> table_sort st call (me_fresh m \<noteq> []) t (if args = [] then VALUE_NIL else args ! 0);
             ended status bound (put_table m a t)
           }
       | LHAT_NATIVE_MOVE \<Rightarrow> native_move self m bound a t args
       | LHAT_NATIVE_REVERSE \<Rightarrow>
           if args \<noteq> [] then ended LHAT_RUN_ARITY bound m
           else ended LHAT_RUN_OK bound
             (put_table m a (t\<lparr>tb_array := swap_ends (tb_array t) n [0..<n div 2]\<rparr>))
       | LHAT_NATIVE_RESIZE \<Rightarrow> native_resize m bound a t args
       | LHAT_NATIVE_CLEAR \<Rightarrow>
           if args \<noteq> [] then ended LHAT_RUN_ARITY bound m
           else ended LHAT_RUN_OK bound (put_table m a (cleared t))
       | LHAT_NATIVE_ASSIGN \<Rightarrow>
           if length args \<noteq> 1 then ended LHAT_RUN_ARITY bound m
           else
             (case args ! 0 of
                VALUE_OBJECT (Some b) \<Rightarrow>
                  if table_in m b = None then ended LHAT_RUN_TYPE_ERROR bound m
                  else do { (status, m) \<leftarrow> table_assign self m a b; ended status bound m }
              | _ \<Rightarrow> ended LHAT_RUN_TYPE_ERROR bound m)
   }"

end
