(* ===== verification/Lhat_StringNative.thy ===== *)
theory Lhat_StringNative
  imports Lhat_Grapheme Lhat_TableNative
begin

text \<open>
  The operations a program calls on a string (\<open>src/vm_native.c\<close>, with \<open>lhat_string_byte_at\<close> of
  \<open>src/object.c\<close>).  A place in a string is a byte offset; an ordinal counts grapheme clusters.  What
  utf8proc knows is the parameter \<open>up\<close> of \<open>Lhat_Grapheme\<close>.
\<close>

subsection \<open>Places\<close>

text \<open>\<open>characters\<close> of a string is kept in 32 bits.\<close>

definition string_characters :: "LhatUtf8proc \<Rightarrow> byte list \<Rightarrow> nat" where
  "string_characters up bytes = unat (word_of_nat (lhat_grapheme_count up bytes) :: u32)"

definition lhat_string_byte_at :: "LhatUtf8proc \<Rightarrow> byte list \<Rightarrow> nat \<Rightarrow> nat" where
  "lhat_string_byte_at up bytes character =
     (if string_characters up bytes \<le> character then length bytes
      else (lhat_grapheme_next up bytes ^^ character) 0)"

definition characters_before :: "LhatUtf8proc \<Rightarrow> byte list \<Rightarrow> nat" where
  "characters_before up span = lhat_grapheme_count up span"

definition byte_span :: "byte list \<Rightarrow> nat \<Rightarrow> nat \<Rightarrow> byte list" where
  "byte_span bytes begin end = take (end - begin) (drop begin bytes)"

text \<open>The inner loop of \<open>find_bytes\<close>, which is entered with \<open>past\<close> within the string.\<close>

function span_end :: "LhatUtf8proc \<Rightarrow> byte list \<Rightarrow> nat \<Rightarrow> nat \<Rightarrow> nat" where
  "span_end up bytes past end =
     (if end < past \<and> end < length bytes then span_end up bytes past (lhat_grapheme_next up bytes end) else end)"
  by pat_completeness auto
termination
  by (relation "measure (\<lambda>(up, bytes, past, end). length bytes - end)")
    (auto dest: grapheme_next_progress intro: diff_less_mono2)

declare span_end.simps [simp del]

text \<open>The loop of \<open>find_bytes\<close> for a needle that is not empty.\<close>

function find_from :: "LhatUtf8proc \<Rightarrow> byte list \<Rightarrow> byte list \<Rightarrow> nat \<Rightarrow> nat option" where
  "find_from up bytes needle i =
     (if needle \<noteq> [] \<and> i + length needle \<le> length bytes then
        if bytes ! i = needle ! 0 \<and> take (length needle) (drop i bytes) = needle \<and>
           span_end up bytes (i + length needle) i = i + length needle
        then Some i
        else find_from up bytes needle (lhat_grapheme_next up bytes i)
      else None)"
  by pat_completeness auto
termination
proof (relation "measure (\<lambda>(up, bytes, needle, i). length bytes - i)")
  fix up :: LhatUtf8proc and bytes needle :: "byte list" and i :: nat
  assume "needle \<noteq> [] \<and> i + length needle \<le> length bytes"
  then have "i < length bytes" by (cases needle) simp_all
  then show "((up, bytes, needle, lhat_grapheme_next up bytes i), up, bytes, needle, i) \<in>
      measure (\<lambda>(up, bytes, needle, i). length bytes - i)"
    using grapheme_next_progress [of i bytes up] by auto
qed simp

declare find_from.simps [simp del]

definition find_bytes :: "LhatUtf8proc \<Rightarrow> byte list \<Rightarrow> nat \<Rightarrow> byte list \<Rightarrow> nat option" where
  "find_bytes up bytes from needle =
     (if needle = [] then (if from \<le> length bytes then Some from else None)
      else find_from up bytes needle from)"

subsection \<open>Walks\<close>

record FindWalk =
  fw_subject :: "byte list"
  fw_next_byte :: nat
  fw_chars_before :: nat
  fw_needle :: "byte list"

definition findall_step :: "LhatUtf8proc \<Rightarrow> FindWalk \<Rightarrow> (LhatInteger \<times> FindWalk) option" where
  "findall_step up w =
     (if fw_needle w = [] then None
      else
        case find_bytes up (fw_subject w) (fw_next_byte w) (fw_needle w) of
          None \<Rightarrow> None
        | Some at \<Rightarrow>
            let ordinal = fw_chars_before w + characters_before up (byte_span (fw_subject w) (fw_next_byte w) at);
                past = at + length (fw_needle w)
            in Some (word_of_nat ordinal,
                 w\<lparr>fw_chars_before := ordinal + characters_before up (byte_span (fw_subject w) at past),
                   fw_next_byte := past\<rparr>))"

record StringWalk =
  sw_subject :: "byte list"
  sw_next_byte :: nat
  sw_codepoints :: bool

text \<open>The item is a code point or the bytes of a cluster.\<close>

definition string_walk_step :: "LhatUtf8proc \<Rightarrow> StringWalk \<Rightarrow> ((int + byte list) \<times> StringWalk) option" where
  "string_walk_step up w =
     (let from = sw_next_byte w
      in if from = length (sw_subject w) then None
         else if sw_codepoints w then
           (case lhat_codepoint_next (sw_subject w) from of
              (to, cp) \<Rightarrow> Some (Inl (case cp of Some c \<Rightarrow> c | None \<Rightarrow> 0), w\<lparr>sw_next_byte := to\<rparr>))
         else
           let to = lhat_grapheme_next up (sw_subject w) from
           in Some (Inr (byte_span (sw_subject w) from to), w\<lparr>sw_next_byte := to\<rparr>))"

subsection \<open>Offsets\<close>

text \<open>A real is an offset if it is whole, at least zero and below \<open>2^63\<close>.\<close>

fun byte_offset_of :: "LhatValue \<Rightarrow> nat option" where
  "byte_offset_of (VALUE_INTEGER i) = (if sint i < 0 then None else Some (unat i))"
| "byte_offset_of (VALUE_REAL r) =
     (case real_value r of
        FLOAT u \<Rightarrow>
          if 0 \<le> u \<and> u < 2 ^ 63 * REAL_ONE \<and> float_floor u * REAL_ONE = u then Some (nat (units_trunc u)) else None
      | _ \<Rightarrow> None)"
| "byte_offset_of v = None"

subsection \<open>Pieces\<close>

definition space_byte :: "byte \<Rightarrow> bool" where
  "space_byte b \<longleftrightarrow> b \<le> 0x20"

text \<open>The words of a string.\<close>

function split_words :: "byte list \<Rightarrow> byte list list" where
  "split_words bytes =
     (case dropWhile space_byte bytes of
        [] \<Rightarrow> []
      | b # rest \<Rightarrow>
          (b # takeWhile (\<lambda>b. \<not> space_byte b) rest) # split_words (dropWhile (\<lambda>b. \<not> space_byte b) rest))"
  by pat_completeness auto
termination
proof (relation "measure length")
  fix bytes b rest
  assume "dropWhile space_byte bytes = b # rest"
  then have "length (b # rest) \<le> length bytes" by (metis length_dropWhile_le)
  then show "(dropWhile (\<lambda>b. \<not> space_byte b) rest, bytes) \<in> measure length"
    using length_dropWhile_le [of "\<lambda>b. \<not> space_byte b" rest] by simp
qed simp

declare split_words.simps [simp del]

lemma find_from_some:
  "find_from up bytes needle i = Some at \<Longrightarrow>
   needle \<noteq> [] \<and> i \<le> at \<and> at + length needle \<le> length bytes \<and> take (length needle) (drop at bytes) = needle"
proof (induction up bytes needle i rule: find_from.induct)
  case (1 up bytes needle i)
  show ?case
  proof (cases "needle \<noteq> [] \<and> i + length needle \<le> length bytes")
    case True
    then have "i < length bytes" by (cases needle) simp_all
    then have "i < lhat_grapheme_next up bytes i" by (rule grapheme_next_progress)
    then show ?thesis
      using 1 True by (subst (asm) (2) find_from.simps) (fastforce split: if_splits)
  next
    case False
    then show ?thesis using "1.prems" by (subst (asm) find_from.simps) (simp only: if_False option.distinct)
  qed
qed

text \<open>The pieces between the stands of a separator, or the clusters.\<close>

function split_pieces :: "LhatUtf8proc \<Rightarrow> byte list \<Rightarrow> byte list \<Rightarrow> nat \<Rightarrow> byte list list" where
  "split_pieces up bytes sep from =
     (if sep = [] then
        (if length bytes \<le> from then []
         else
           let to = lhat_grapheme_next up bytes from
           in byte_span bytes from to # split_pieces up bytes sep to)
      else
        case find_bytes up bytes from sep of
          None \<Rightarrow> [byte_span bytes from (length bytes)]
        | Some found \<Rightarrow> byte_span bytes from found # split_pieces up bytes sep (found + length sep))"
  by pat_completeness auto
termination
proof (relation "measure (\<lambda>(up, bytes, sep, from). length bytes - from)")
  fix up :: LhatUtf8proc and bytes sep :: "byte list" and start to :: nat
  assume "\<not> length bytes \<le> start" "to = lhat_grapheme_next up bytes start"
  then show "((up, bytes, sep, to), up, bytes, sep, start) \<in> measure (\<lambda>(up, bytes, sep, from). length bytes - from)"
    using grapheme_next_progress [of start bytes up] by auto
next
  fix up :: LhatUtf8proc and bytes sep :: "byte list" and start found :: nat
  assume "sep \<noteq> []" "find_bytes up bytes start sep = Some found"
  then have "start \<le> found" "found + length sep \<le> length bytes" "0 < length sep"
    using find_from_some [of up bytes sep start found] by (auto simp: find_bytes_def)
  then have "length bytes - (found + length sep) < length bytes - start" by linarith
  then show "((up, bytes, sep, found + length sep), up, bytes, sep, start) \<in>
      measure (\<lambda>(up, bytes, sep, from). length bytes - from)" by simp
qed simp

declare split_pieces.simps [simp del]

text \<open>What \<open>replace\<close> writes, from \<open>at\<close> on, for a needle that is not empty.\<close>

function replace_from :: "LhatUtf8proc \<Rightarrow> byte list \<Rightarrow> byte list \<Rightarrow> byte list \<Rightarrow> nat \<Rightarrow> byte list" where
  "replace_from up bytes needle by at =
     (if needle = [] then drop at bytes
      else
        case find_bytes up bytes at needle of
          None \<Rightarrow> drop at bytes
        | Some found \<Rightarrow>
            byte_span bytes at found @ by @ replace_from up bytes needle by (found + length needle))"
  by pat_completeness auto
termination
proof (relation "measure (\<lambda>(up, bytes, needle, by, at). length bytes - at)")
  fix up :: LhatUtf8proc and bytes needle instead :: "byte list" and start found :: nat
  assume "needle \<noteq> []" "find_bytes up bytes start needle = Some found"
  then have "start \<le> found" "found + length needle \<le> length bytes" "0 < length needle"
    using find_from_some [of up bytes needle start found] by (auto simp: find_bytes_def)
  then have "length bytes - (found + length needle) < length bytes - start" by linarith
  then show "((up, bytes, needle, instead, found + length needle), up, bytes, needle, instead, start) \<in>
      measure (\<lambda>(up, bytes, needle, by, at). length bytes - at)" by simp
qed simp

declare replace_from.simps [simp del]

subsection \<open>The natives\<close>

datatype LhatStringNative =
    LHAT_NATIVE_SUBSTRING | LHAT_NATIVE_AT | LHAT_NATIVE_FIND | LHAT_NATIVE_FINDALL | LHAT_NATIVE_REPLACE
  | LHAT_NATIVE_SPLIT | LHAT_NATIVE_TOUPPER | LHAT_NATIVE_TOLOWER | LHAT_NATIVE_CHARS | LHAT_NATIVE_CODEPOINTS
  | LHAT_NATIVE_SLICE_BYTES

text \<open>What lands over the call: a value, or a walk over the string.  Where the call does not end well the
answer is not written.\<close>

datatype LhatStringAnswer = STRING_VALUE LhatValue | STRING_FINDALL FindWalk | STRING_WALK StringWalk

record LhatStringCall =
  sc_status :: LhatRunStatus
  sc_answer :: LhatStringAnswer
  sc_memory :: LhatMemory

definition string_ended :: "LhatRunStatus \<Rightarrow> LhatValue \<Rightarrow> LhatMemory \<Rightarrow> LhatStringCall option" where
  "string_ended status answer m = Some \<lparr>sc_status = status, sc_answer = STRING_VALUE answer, sc_memory = m\<rparr>"

definition string_content :: "byte list \<Rightarrow> LhatContent" where
  "string_content bytes = CONTENT_STRING bytes (lhat_string_hash bytes)"

definition answer_string :: "LhatMemory \<Rightarrow> byte list \<Rightarrow> LhatStringCall option" where
  "answer_string m bytes =
     (case object_new m (string_content bytes) of
        None \<Rightarrow> string_ended LHAT_RUN_OUT_OF_MEMORY VALUE_NIL m
      | Some (made, m) \<Rightarrow> string_ended LHAT_RUN_OK (VALUE_OBJECT (Some made)) m)"

definition answer_walk :: "LhatMemory \<Rightarrow> LhatStringAnswer \<Rightarrow> LhatStringCall option" where
  "answer_walk m walk =
     (case object_new m CONTENT_OTHER of
        None \<Rightarrow> string_ended LHAT_RUN_OUT_OF_MEMORY VALUE_NIL m
      | Some (made, m) \<Rightarrow> Some \<lparr>sc_status = LHAT_RUN_OK, sc_answer = walk, sc_memory = m\<rparr>)"

text \<open>The bytes of a string argument.\<close>

definition string_at :: "LhatMemory \<Rightarrow> LhatValue \<Rightarrow> byte list option" where
  "string_at m v = (case content_of (me_store m) v of Some (CONTENT_STRING bytes hash) \<Rightarrow> Some bytes | _ \<Rightarrow> None)"

definition native_slice_bytes :: "LhatMemory \<Rightarrow> LhatValue \<Rightarrow> byte list \<Rightarrow> LhatValue list \<Rightarrow> LhatStringCall option" where
  "native_slice_bytes m bound subject args =
     (if length args < 1 \<or> 2 < length args then string_ended LHAT_RUN_ARITY VALUE_NIL m
      else
        case (byte_offset_of (args ! 0),
              if length args = 2 then byte_offset_of (args ! 1) else Some (length subject)) of
          (Some start, Some end) \<Rightarrow>
            let (start, end) = (if end < start \<or> length subject < end then (0, 0) else (start, end))
            in if start = 0 \<and> end = length subject then string_ended LHAT_RUN_OK bound m
               else answer_string m (byte_span subject start end)
        | _ \<Rightarrow> string_ended LHAT_RUN_TYPE_ERROR VALUE_NIL m)"

definition native_substring ::
  "LhatUtf8proc \<Rightarrow> LhatStringNative \<Rightarrow> LhatMemory \<Rightarrow> LhatValue \<Rightarrow> byte list \<Rightarrow> LhatValue list \<Rightarrow>
   LhatStringCall option" where
  "native_substring up kind m bound subject args =
     (let single = (kind = LHAT_NATIVE_AT)
      in if length args < 1 \<or> (if single then 1 else 2) < length args then string_ended LHAT_RUN_ARITY VALUE_NIL m
         else
           case (vm_ordinal_of (args ! 0),
                 if length args = 2 then vm_ordinal_of (args ! 1) else Some (- 1)) of
             (Some from, Some to) \<Rightarrow>
               let count = string_characters up subject;
                   until = (if single then from else to);
                   start = vm_resolve_ordinal from count; end = vm_resolve_ordinal until count
               in if sint start < 0 \<or> sint end < sint start \<or> int count \<le> sint end then answer_string m []
                  else if start = 0 \<and> sint end = int count - 1 then string_ended LHAT_RUN_OK bound m
                  else
                    let at_byte = lhat_string_byte_at up subject (unat start);
                        end_byte = (lhat_grapheme_next up subject ^^ (unat end + 1 - unat start)) at_byte
                    in answer_string m (byte_span subject at_byte end_byte)
           | _ \<Rightarrow> string_ended LHAT_RUN_TYPE_ERROR VALUE_NIL m)"

text \<open>The letters of ASCII.\<close>

definition swapped_case :: "bool \<Rightarrow> byte \<Rightarrow> byte" where
  "swapped_case to_upper b =
     (if to_upper \<and> 0x61 \<le> b \<and> b \<le> 0x7A then b - 0x61 + 0x41
      else if \<not> to_upper \<and> 0x41 \<le> b \<and> b \<le> 0x5A then b - 0x41 + 0x61
      else b)"

definition case_changes :: "bool \<Rightarrow> byte \<Rightarrow> bool" where
  "case_changes to_upper b \<longleftrightarrow> (if to_upper then 0x61 \<le> b \<and> b \<le> 0x7A else 0x41 \<le> b \<and> b \<le> 0x5A)"

definition native_case ::
  "LhatStringNative \<Rightarrow> LhatMemory \<Rightarrow> LhatValue \<Rightarrow> byte list \<Rightarrow> LhatValue list \<Rightarrow> LhatStringCall option" where
  "native_case kind m bound subject args =
     (let to_upper = (kind = LHAT_NATIVE_TOUPPER)
      in if args \<noteq> [] then string_ended LHAT_RUN_ARITY VALUE_NIL m
         else if filter (case_changes to_upper) subject = [] then string_ended LHAT_RUN_OK bound m
         else answer_string m (map (swapped_case to_upper) subject))"

text \<open>The pieces go into a table that stands while the strings are made.\<close>

fun put_pieces ::
  "LhatValue \<Rightarrow> LhatMemory \<Rightarrow> addr \<Rightarrow> nat \<Rightarrow> byte list list \<Rightarrow> (bool \<times> LhatMemory) option" where
  "put_pieces self m table position [] = Some (True, m)"
| "put_pieces self m table position (piece # pieces) =
     (case object_new m (string_content piece) of
        None \<Rightarrow> Some (False, m)
      | Some (made, m) \<Rightarrow> do {
          written \<leftarrow> vm_set_key self m table (VALUE_INTEGER (word_of_nat position)) (VALUE_OBJECT (Some made));
          if write_done written then put_pieces self (write_memory written) table (position + 1) pieces
          else Some (False, write_memory written)
        })"

definition native_split ::
  "LhatUtf8proc \<Rightarrow> LhatValue \<Rightarrow> LhatMemory \<Rightarrow> byte list \<Rightarrow> LhatValue list \<Rightarrow> LhatStringCall option" where
  "native_split up self m subject args =
     (if 1 < length args then string_ended LHAT_RUN_ARITY VALUE_NIL m
      else if length args = 1 \<and> string_at m (args ! 0) = None then string_ended LHAT_RUN_TYPE_ERROR VALUE_NIL m
      else
        case object_new m (CONTENT_TABLE new_table) of
          None \<Rightarrow> string_ended LHAT_RUN_OUT_OF_MEMORY VALUE_NIL m
        | Some (pieces, m') \<Rightarrow> do {
            (done, m') \<leftarrow> put_pieces self m' pieces 0
              (case args of
                 [] \<Rightarrow> split_words subject
               | sep # _ \<Rightarrow> split_pieces up subject (the (string_at m sep)) 0);
            if done then string_ended LHAT_RUN_OK (VALUE_OBJECT (Some pieces)) m'
            else string_ended LHAT_RUN_OUT_OF_MEMORY VALUE_NIL m'
          })"

definition native_find ::
  "LhatUtf8proc \<Rightarrow> LhatMemory \<Rightarrow> byte list \<Rightarrow> byte list \<Rightarrow> LhatValue list \<Rightarrow> LhatStringCall option" where
  "native_find up m subject needle args =
     (if 2 < length args then string_ended LHAT_RUN_ARITY VALUE_NIL m
      else
        case (if length args = 2 then vm_ordinal_of (args ! 1) else Some 0) of
          None \<Rightarrow> string_ended LHAT_RUN_TYPE_ERROR VALUE_NIL m
        | Some written \<Rightarrow>
            let resolved = vm_resolve_ordinal written (string_characters up subject);
                from = (if sint resolved < 0 then 0 else unat resolved);
                start_byte = (if from \<le> string_characters up subject then lhat_string_byte_at up subject from
                              else length subject)
            in string_ended LHAT_RUN_OK
                 (case find_bytes up subject start_byte needle of
                    None \<Rightarrow> VALUE_NIL
                  | Some found \<Rightarrow>
                      VALUE_INTEGER (word_of_nat (characters_before up (byte_span subject 0 found)))) m)"

definition native_replace ::
  "LhatUtf8proc \<Rightarrow> LhatMemory \<Rightarrow> LhatValue \<Rightarrow> byte list \<Rightarrow> byte list \<Rightarrow> LhatValue list \<Rightarrow> LhatStringCall option" where
  "native_replace up m bound subject needle args =
     (if length args \<noteq> 2 then string_ended LHAT_RUN_ARITY VALUE_NIL m
      else
        case string_at m (args ! 1) of
          None \<Rightarrow> string_ended LHAT_RUN_TYPE_ERROR VALUE_NIL m
        | Some by \<Rightarrow>
            if needle = [] \<or> find_bytes up subject 0 needle = None then string_ended LHAT_RUN_OK bound m
            else answer_string m (replace_from up subject needle by 0))"

definition vm_string_native ::
  "LhatUtf8proc \<Rightarrow> LhatValue \<Rightarrow> LhatStringNative \<Rightarrow> LhatMemory \<Rightarrow> LhatValue \<Rightarrow> LhatValue list \<Rightarrow>
   LhatStringCall option" where
  "vm_string_native up self kind m bound args = do {
     subject \<leftarrow> string_at m bound;
     case kind of
       LHAT_NATIVE_CHARS \<Rightarrow>
         if args \<noteq> [] then string_ended LHAT_RUN_ARITY VALUE_NIL m
         else answer_walk m (STRING_WALK \<lparr>sw_subject = subject, sw_next_byte = 0, sw_codepoints = False\<rparr>)
     | LHAT_NATIVE_CODEPOINTS \<Rightarrow>
         if args \<noteq> [] then string_ended LHAT_RUN_ARITY VALUE_NIL m
         else answer_walk m (STRING_WALK \<lparr>sw_subject = subject, sw_next_byte = 0, sw_codepoints = True\<rparr>)
     | LHAT_NATIVE_SLICE_BYTES \<Rightarrow> native_slice_bytes m bound subject args
     | LHAT_NATIVE_SUBSTRING \<Rightarrow> native_substring up kind m bound subject args
     | LHAT_NATIVE_AT \<Rightarrow> native_substring up kind m bound subject args
     | LHAT_NATIVE_TOUPPER \<Rightarrow> native_case kind m bound subject args
     | LHAT_NATIVE_TOLOWER \<Rightarrow> native_case kind m bound subject args
     | LHAT_NATIVE_SPLIT \<Rightarrow> native_split up self m subject args
     | _ \<Rightarrow>
         if args = [] then string_ended LHAT_RUN_ARITY VALUE_NIL m
         else
           case string_at m (args ! 0) of
             None \<Rightarrow> string_ended LHAT_RUN_TYPE_ERROR VALUE_NIL m
           | Some needle \<Rightarrow>
               (case kind of
                  LHAT_NATIVE_FIND \<Rightarrow> native_find up m subject needle args
                | LHAT_NATIVE_FINDALL \<Rightarrow>
                    if length args \<noteq> 1 then string_ended LHAT_RUN_ARITY VALUE_NIL m
                    else answer_walk m (STRING_FINDALL
                      \<lparr>fw_subject = subject, fw_next_byte = 0, fw_chars_before = 0, fw_needle = needle\<rparr>)
                | _ \<Rightarrow> native_replace up m bound subject needle args)
   }"

end
