(* ===== verification/Lhat_NativeOk.thy ===== *)
theory Lhat_NativeOk
  imports Lhat_TableNative Lhat_SortOk
begin

text \<open>
  The operations on a table that is a list: one without live entries in its hash half, without a
  definition, neither sealed nor shared.  Each loop of \<open>Lhat_TableNative\<close> is the list function it
  stands for.
\<close>

subsection \<open>Loops over a run\<close>

lemma take_above_append: "take_above xs (ks @ js) = take_above (take_above xs ks) js"
  by (induction ks arbitrary: xs) simp_all

lemma take_below_append: "take_below xs (ks @ js) = take_below (take_below xs ks) js"
  by (induction ks arbitrary: xs) simp_all

lemma take_above_length [simp]: "length (take_above xs ks) = length xs"
  by (induction ks arbitrary: xs) simp_all

lemma take_below_length [simp]: "length (take_below xs ks) = length xs"
  by (induction ks arbitrary: xs) simp_all

lemma take_above_nth:
  "j < length xs \<Longrightarrow> k < length xs \<Longrightarrow>
   take_above xs [i..<j] ! k = (if i \<le> k \<and> k < j then xs ! (k + 1) else xs ! k)"
proof (induction j arbitrary: k)
  case (Suc j)
  then show ?case by (cases "i \<le> j") (auto simp: take_above_append nth_list_update)
qed simp

lemma take_below_nth:
  "j \<le> length xs \<Longrightarrow> 0 < i \<Longrightarrow> k < length xs \<Longrightarrow>
   take_below xs (rev [i..<j]) ! k = (if i \<le> k \<and> k < j then xs ! (k - 1) else xs ! k)"
proof (induction "j - i" arbitrary: i k)
  case (Suc d)
  have "take_below xs (rev [i..<j]) = take_below (take_below xs (rev [Suc i..<j])) [i]"
    using Suc.hyps(2) by (simp add: take_below_append upt_conv_Cons)
  then show ?case
    using Suc.hyps(1) [of "Suc i"] Suc.hyps(2) Suc.prems by (auto simp: nth_list_update)
qed auto

definition remove_at :: "nat \<Rightarrow> 'a list \<Rightarrow> 'a list" where
  "remove_at i xs = take i xs @ drop (Suc i) xs"

definition insert_at :: "nat \<Rightarrow> 'a \<Rightarrow> 'a list \<Rightarrow> 'a list" where
  "insert_at i x xs = take i xs @ x # drop i xs"

lemma remove_at_length [simp]: "i < length xs \<Longrightarrow> length (remove_at i xs) = length xs - 1"
  by (simp add: remove_at_def)

lemma insert_at_length [simp]: "i \<le> length xs \<Longrightarrow> length (insert_at i x xs) = Suc (length xs)"
  by (simp add: insert_at_def)

lemma remove_at_nth: "i < length xs \<Longrightarrow> k < length xs - 1 \<Longrightarrow> remove_at i xs ! k = xs ! (if k < i then k else k + 1)"
  by (auto simp: remove_at_def nth_append min_def)

lemma insert_at_nth:
  "i \<le> length xs \<Longrightarrow> k \<le> length xs \<Longrightarrow>
   insert_at i x xs ! k = (if k < i then xs ! k else if k = i then x else xs ! (k - 1))"
  by (auto simp: insert_at_def nth_append min_def nth_Cons')

lemma remove_insert: "i \<le> length xs \<Longrightarrow> remove_at i (insert_at i x xs) = xs"
  by (simp add: remove_at_def insert_at_def)

lemma insert_at_hd: "i \<le> length xs \<Longrightarrow> insert_at i x xs ! i = x"
  by (simp add: insert_at_nth)

lemma removed_run: "i < length xs \<Longrightarrow> take (length xs - 1) (take_above xs [i..<length xs - 1]) = remove_at i xs"
  by (rule nth_equalityI) (auto simp: take_above_nth remove_at_nth)

lemma moved_up:
  "i < j \<Longrightarrow> j < length xs \<Longrightarrow> (take_above xs [i..<j])[j := xs ! i] = insert_at j (xs ! i) (remove_at i xs)"
  by (rule nth_equalityI) (auto simp: take_above_nth remove_at_nth insert_at_nth nth_list_update)

lemma moved_down:
  "j \<le> i \<Longrightarrow> i < length xs \<Longrightarrow>
   (take_below xs (rev [j + 1..<i + 1]))[j := xs ! i] = insert_at j (xs ! i) (remove_at i xs)"
  by (rule nth_equalityI) (auto simp: take_below_nth remove_at_nth insert_at_nth nth_list_update)

lemma swap_ends_append: "swap_ends xs n (ks @ js) = swap_ends (swap_ends xs n ks) n js"
  by (induction ks arbitrary: xs) (simp_all add: Let_def)

lemma swap_ends_length [simp]: "length (swap_ends xs n ks) = length xs"
  by (induction ks arbitrary: xs) (simp_all add: Let_def)

lemma swap_ends_nth:
  "2 * j \<le> length xs \<Longrightarrow> k < length xs \<Longrightarrow>
   swap_ends xs (length xs) [0..<j] ! k =
     (if k < j \<or> length xs - 1 - k < j then xs ! (length xs - 1 - k) else xs ! k)"
proof (induction j arbitrary: k)
  case (Suc j)
  let ?n = "length xs" and ?ys = "swap_ends xs (length xs) [0..<j]"
  have j: "j < ?n" "?n - 1 - j < ?n" "\<not> ?n - 1 - j < j" "?n - 1 - (?n - 1 - j) = j" "2 * j \<le> ?n"
    using Suc.prems(1) by (auto simp: diff_less)
  have ends: "?ys ! j = xs ! j" "?ys ! (?n - 1 - j) = xs ! (?n - 1 - j)"
    using Suc.IH [of j] Suc.IH [of "?n - 1 - j"] j by auto
  have step: "swap_ends xs ?n [0..<Suc j] = ?ys[j := xs ! (?n - 1 - j), ?n - 1 - j := xs ! j]"
    by (simp only: upt_Suc le0 if_True swap_ends_append swap_ends.simps Let_def ends)
  have old: "?ys ! k = (if k < j \<or> ?n - 1 - k < j then xs ! (?n - 1 - k) else xs ! k)"
    using Suc.IH [OF j(5) Suc.prems(2)] .
  consider "k = ?n - 1 - j" | "k = j" "k \<noteq> ?n - 1 - j" | "k \<noteq> j" "k \<noteq> ?n - 1 - j" by blast
  then show ?case
  proof cases
    case 1
    then show ?thesis using j(1,2,4) unfolding step by (simp only: nth_list_update length_list_update
          swap_ends_length if_True) (simp add: j(4) [unfolded One_nat_def])
  next
    case 2
    then show ?thesis using j unfolding step by (simp add: nth_list_update)
  next
    case 3
    moreover have "k < Suc j \<or> ?n - 1 - k < Suc j \<longleftrightarrow> k < j \<or> ?n - 1 - k < j"
      using 3 Suc.prems(2) by linarith
    ultimately show ?thesis unfolding step old [symmetric] by (simp add: old)
  qed
qed simp

lemma swap_ends_rev: "swap_ends xs (length xs) [0..<length xs div 2] = rev xs"
proof (rule nth_equalityI)
  fix k assume "k < length (swap_ends xs (length xs) [0..<length xs div 2])"
  then have k: "k < length xs" by simp
  show "swap_ends xs (length xs) [0..<length xs div 2] ! k = rev xs ! k"
  proof (cases "k < length xs div 2 \<or> length xs - 1 - k < length xs div 2")
    case False
    then have "length xs - Suc k = k" using k by linarith
    then have "rev xs ! k = xs ! k" using rev_nth [OF k] by argo
    then show ?thesis using False k by (simp add: swap_ends_nth)
  qed (use k in \<open>simp add: swap_ends_nth rev_nth\<close>)
qed simp

subsection \<open>A table that is a list\<close>

definition plain_run :: "LhatTable \<Rightarrow> bool" where
  "plain_run t \<longleftrightarrow>
     tb_entry_count t = 0 \<and> entry_pairs t = [] \<and> \<not> tb_shared t \<and> \<not> tb_sealed t \<and> tb_definition t = None"

definition list_at :: "LhatMemory \<Rightarrow> addr \<Rightarrow> LhatValue list \<Rightarrow> bool" where
  "list_at m a xs \<longleftrightarrow> (\<exists>t. table_in m a = Some t \<and> plain_run t \<and> tb_array t = xs)"

text \<open>Nothing but the contents at one address has changed.\<close>

definition only_at :: "addr \<Rightarrow> LhatMemory \<Rightarrow> LhatMemory \<Rightarrow> bool" where
  "only_at a m m' \<longleftrightarrow> (\<exists>c. m' = m\<lparr>me_store := put_content (me_store m) a c\<rparr>)"

lemma put_twice [simp]: "put_content (put_content st a c) a d = put_content st a d"
  by (simp add: put_content_def)

lemma put_same [simp]: "put_content st a (st_content st a) = st"
  by (simp add: put_content_def)

lemma put_elsewhere: "b \<noteq> a \<Longrightarrow> st_content (put_content st a c) b = st_content st b"
  by (simp add: put_content_def)

lemma put_ample [simp]: "ample (put_content st a c) = ample st"
  by (simp add: ample_def put_content_def)

lemma only_refl [simp]: "only_at a m m"
  unfolding only_at_def by (rule exI [of _ "st_content (me_store m) a"]) simp

lemma only_trans [trans]: "only_at a m m' \<Longrightarrow> only_at a m' m'' \<Longrightarrow> only_at a m m''"
  by (auto simp: only_at_def)

lemma only_put [simp]: "only_at a m (put_table m a t)"
  by (auto simp: only_at_def put_table_def)

lemma only_ample: "only_at a m m' \<Longrightarrow> ample (me_store m') = ample (me_store m)"
  by (auto simp: only_at_def)

lemma only_elsewhere: "only_at a m m' \<Longrightarrow> b \<noteq> a \<Longrightarrow> table_in m' b = table_in m b"
  by (auto simp: only_at_def table_in_def table_at_def put_elsewhere)

lemma table_in_put [simp]: "table_in (put_table m a t) a = Some t"
  by (simp add: table_in_def table_at_def put_table_def put_content_def)

lemma list_put: "plain_run t \<Longrightarrow> list_at (put_table m a t) a (tb_array t)"
  by (simp add: list_at_def)

lemma entry_pairs_run [simp]:
  "entry_pairs (t\<lparr>tb_array := xs\<rparr>) = entry_pairs t" "entry_pairs (t\<lparr>tb_array_capacity := c\<rparr>) = entry_pairs t"
  by (simp_all add: entry_pairs_def)

subsection \<open>Writing a position\<close>

definition put_at :: "nat \<Rightarrow> LhatValue \<Rightarrow> LhatValue list \<Rightarrow> LhatValue list" where
  "put_at k v xs = (if k < length xs then xs[k := v] else xs @ [v])"

lemma set_key_list:
  assumes "list_at m a xs" "ample (me_store m)" "k \<le> length xs" "length xs < 2 ^ 63"
  shows "\<exists>m'. vm_set_key self m a (VALUE_INTEGER (word_of_nat k)) v = Some (WRITE True False m') \<and>
    list_at m' a (put_at k v xs) \<and> only_at a m m'"
proof -
  obtain t where t: "table_in m a = Some t" "plain_run t" "tb_array t = xs"
    using assms(1) by (auto simp: list_at_def)
  obtain t' where t': "lhat_table_set (me_store m) t (VALUE_INTEGER (word_of_nat k)) v = Some (SET_ANSWER True False t')"
    "plain_run t'" "tb_array t' = put_at k v xs"
  proof (cases "k < length xs")
    case True
    then have "position_in t (word_of_nat k) = Some k"
      using position_word [of k "word_of_nat k"] assms(4) t(3) by (simp add: position_in_def)
    then have "lhat_table_set (me_store m) t (VALUE_INTEGER (word_of_nat k)) v =
        Some (SET_ANSWER True False (t\<lparr>tb_array := (tb_array t)[k := v]\<rparr>))"
      by (simp add: lhat_table_set_def key_refused_def normalise_key_def Let_def)
    then show ?thesis using that t True by (simp add: put_at_def plain_run_def)
  next
    case False
    then have k: "k = array_count t" using assms(3) t(3) by simp
    have "tb_entry_count t = 0" "array_count t < 2 ^ 63" using t assms(4) by (simp_all add: plain_run_def)
    from append_plain [OF assms(2) this, of v] obtain c where
      "lhat_table_set (me_store m) t (VALUE_INTEGER (word_of_nat k)) v =
        Some (SET_ANSWER True False (t\<lparr>tb_array := tb_array t @ [v], tb_array_capacity := c\<rparr>))"
      unfolding k by blast
    then show ?thesis using that t False by (simp add: put_at_def plain_run_def)
  qed
  have "vm_set_key self m a (VALUE_INTEGER (word_of_nat k)) v = Some (WRITE True False (put_table m a t'))"
    using t t'(1) by (cases "v = VALUE_NIL") (simp_all add: vm_set_key_def plain_run_def declared_seat_def)
  then show ?thesis using list_put [OF t'(2)] t'(3) by auto
qed

lemma set_each_list:
  assumes "list_at m a xs" "ample (me_store m)" "i \<le> length xs" "length xs < 2 ^ 63" "i + length ys < 2 ^ 63"
  shows "\<exists>m'. set_each self m a (run_pairs i ys) = Some (True, m') \<and>
    list_at m' a (take i xs @ ys @ drop (i + length ys) xs) \<and> only_at a m m'"
  using assms
proof (induction ys arbitrary: m xs i)
  case (Cons y ys)
  obtain m1 where m1: "vm_set_key self m a (VALUE_INTEGER (word_of_nat i)) y = Some (WRITE True False m1)"
    "list_at m1 a (put_at i y xs)" "only_at a m m1"
    using set_key_list [OF Cons.prems(1-4)] by blast
  have "ample (me_store m1)" "i + 1 \<le> length (put_at i y xs)" "length (put_at i y xs) < 2 ^ 63"
    using Cons.prems only_ample [OF m1(3)] by (auto simp: put_at_def)
  from Cons.IH [OF m1(2) this] obtain m2 where m2: "set_each self m1 a (run_pairs (i + 1) ys) = Some (True, m2)"
    "list_at m2 a (take (i + 1) (put_at i y xs) @ ys @ drop (i + 1 + length ys) (put_at i y xs))" "only_at a m1 m2"
    using Cons.prems(5) by auto
  have "run_pairs i (y # ys) = (VALUE_INTEGER (word_of_nat i), y) # run_pairs (i + 1) ys"
    by (simp add: run_pairs_def upt_conv_Cons del: upt_Suc)
  moreover have "take (i + 1) (put_at i y xs) = take i xs @ [y]" 
    using Cons.prems(3) by (auto simp: put_at_def take_Suc_conv_app_nth)
  moreover have "drop (i + 1 + length ys) (put_at i y xs) = drop (i + length (y # ys)) xs"
    using Cons.prems(3) by (auto simp: put_at_def)
  ultimately show ?case using m1 m2 only_trans [OF m1(3) m2(3)] by auto
qed (auto simp: run_pairs_def intro: only_refl)

subsection \<open>The loops of the operations\<close>

lemma shift_up_append:
  "shift_up self m a ks = Some (True, m') \<Longrightarrow> shift_up self m a (ks @ js) = shift_up self m' a js"
  by (induction ks arbitrary: m) (auto simp: bind_eq_Some_conv split: if_splits)

lemma shift_up_list:
  assumes "list_at m a xs" "ample (me_store m)" "p \<le> length xs" "length xs < 2 ^ 63 - 1"
  shows "\<exists>m'. shift_up self m a (rev [p..<length xs]) = Some (True, m') \<and>
    list_at m' a (if p = length xs then xs else take (Suc p) xs @ drop p xs) \<and> only_at a m m'"
  using assms(3)
proof (induction "length xs - p" arbitrary: p)
  case 0
  then show ?case using assms(1) by simp
next
  case (Suc d)
  have p: "p < length xs" using Suc.hyps(2) by linarith
  have d: "d = length xs - Suc p" "Suc p \<le> length xs" using p Suc.hyps(2) by simp_all
  obtain m1 where m1: "shift_up self m a (rev [Suc p..<length xs]) = Some (True, m1)"
    "list_at m1 a (if Suc p = length xs then xs else take (Suc (Suc p)) xs @ drop (Suc p) xs)" "only_at a m m1"
    using Suc.hyps(1) [of "Suc p"] Suc.hyps(2) d by blast
  let ?ys = "if Suc p = length xs then xs else take (Suc (Suc p)) xs @ drop (Suc p) xs"
  have ys: "ample (me_store m1)" "p + 1 \<le> length ?ys" "length ?ys < 2 ^ 63" "?ys ! p = xs ! p"
    using p assms(2,4) only_ample [OF m1(3)] by (auto simp: nth_append)
  obtain t where t: "table_in m1 a = Some t" "tb_array t ! p = xs ! p"
    using m1(2) ys(4) by (auto simp: list_at_def)
  obtain m2 where m2: "vm_set_key self m1 a (VALUE_INTEGER (word_of_nat (p + 1))) (xs ! p) = Some (WRITE True False m2)"
    "list_at m2 a (put_at (p + 1) (xs ! p) ?ys)" "only_at a m1 m2"
    using set_key_list [OF m1(2) ys(1-3), of self "xs ! p"] by blast
  have "put_at (p + 1) (xs ! p) ?ys = take (Suc p) xs @ drop p xs"
  proof (cases "Suc p = length xs")
    case True
    then have "drop p xs = [xs ! p]" using p Cons_nth_drop_Suc [of p xs] by simp
    then show ?thesis using True by (simp add: put_at_def)
  next
    case False
    then have "Suc p < length xs" using p by simp
    then show ?thesis
      using p by (simp add: put_at_def list_update_append take_Suc_conv_app_nth Cons_nth_drop_Suc min_def)
  qed
  then have "list_at m2 a (take (Suc p) xs @ drop p xs)" using m2(2) by simp
  moreover have "shift_up self m a (rev [p..<length xs]) = shift_up self m1 a [p]"
    using shift_up_append [OF m1(1), of "[p]"] p by (simp add: upt_conv_Cons)
  moreover have "shift_up self m1 a [p] = Some (True, m2)"
    using t m2(1) by simp
  ultimately show ?case using only_trans [OF m1(3) m2(3)] p by auto
qed

lemma append_each_list:
  assumes "list_at m a xs" "ample (me_store m)" "table_in m b = Some u" "take k (tb_array u) = ys"
    "length ys = k" "length xs = n + i" "n + k < 2 ^ 63"
  shows "\<exists>m'. append_each self m a b n [i..<k] = Some (True, m') \<and>
    list_at m' a (xs @ drop i ys) \<and> only_at a m m'"
  using assms
proof (induction "k - i" arbitrary: i m xs u)
  case 0
  then show ?case by (intro exI [of _ m]) simp
next
  case (Suc d)
  have i: "i < k" using Suc.hyps(2) by linarith
  have y: "tb_array u ! i = ys ! i" using Suc.prems(4) i by auto
  have "n + i \<le> length xs" "length xs < 2 ^ 63" using Suc.prems(6,7) i by simp_all
  from set_key_list [OF Suc.prems(1,2) this, of self "ys ! i"] obtain m1 where
    m1: "vm_set_key self m a (VALUE_INTEGER (word_of_nat (n + i))) (ys ! i) = Some (WRITE True False m1)"
    "list_at m1 a (xs @ [ys ! i])" "only_at a m m1"
    using Suc.prems(6) by (auto simp: put_at_def)
  obtain u1 where u1: "table_in m1 b = Some u1" "take k (tb_array u1) = ys"
  proof (cases "b = a")
    case True
    have "k \<le> length xs" using Suc.prems(1,3,4,5) True by (auto simp: list_at_def)
    moreover have "take k xs = ys" using Suc.prems(1,3,4) True by (auto simp: list_at_def)
    ultimately show ?thesis using m1(2) True that by (auto simp: list_at_def)
  next
    case False
    then show ?thesis using only_elsewhere [OF m1(3)] Suc.prems(3,4) that by auto
  qed
  have d: "d = k - Suc i" using Suc.hyps(2) by linarith
  have more: "ample (me_store m1)" "length (xs @ [ys ! i]) = n + Suc i"
    using Suc.prems(2,6) only_ample [OF m1(3)] by simp_all
  obtain m2 where m2: "append_each self m1 a b n [Suc i..<k] = Some (True, m2)"
    "list_at m2 a ((xs @ [ys ! i]) @ drop (Suc i) ys)" "only_at a m1 m2"
    using Suc.hyps(1) [OF d m1(2) more(1) u1 Suc.prems(5) more(2) Suc.prems(7)] by blast
  have "append_each self m a b n [i..<k] = Some (True, m2)"
    using i Suc.prems(3) y m1(1) m2(1) by (simp add: upt_conv_Cons del: upt_Suc)
  moreover have "(xs @ [ys ! i]) @ drop (Suc i) ys = xs @ drop i ys"
    using i Suc.prems(5) by (simp add: Cons_nth_drop_Suc)
  ultimately show ?case using m2 only_trans [OF m1(3) m2(3)] by auto
qed

lemma lengthen_list:
  assumes "ample st" "plain_run t"
  shows "\<exists>t'. lengthen_array st k fill t = Some (True, t') \<and> plain_run t' \<and>
    tb_array t' = tb_array t @ replicate k fill"
  using assms(2)
proof (induction k arbitrary: t)
  case (Suc k)
  obtain c where c: "array_room st t = (True, t\<lparr>tb_array_capacity := c\<rparr>)" by (rule room_ample [OF assms(1)])
  let ?t = "array_push (t\<lparr>tb_array_capacity := c\<rparr>) fill"
  have t: "plain_run ?t" "tb_array ?t = tb_array t @ [fill]"
    using Suc.prems by (simp_all add: plain_run_def array_push_def)
  have "lengthen_array st (Suc k) fill t = lengthen_array st k fill ?t"
    using Suc.prems c by (simp add: find_entry_def plain_run_def)
  then show ?case using Suc.IH [OF t(1)] t(2) by auto
qed simp

lemma resize_list:
  assumes "ample st" "plain_run t"
  shows "\<exists>t'. lhat_table_resize st t k fill = Some (True, t') \<and> plain_run t' \<and>
    tb_array t' = take k (tb_array t) @ replicate (k - array_count t) fill"
proof -
  let ?t = "t\<lparr>tb_array := take k (tb_array t)\<rparr>"
  have "plain_run ?t" using assms(2) by (simp add: plain_run_def)
  from lengthen_list [OF assms(1) this] obtain t' where
    t': "lengthen_array st (k - array_count ?t) fill ?t = Some (True, t')" "plain_run t'"
      "tb_array t' = take k (tb_array t) @ replicate (k - array_count ?t) fill"
    by fastforce
  have "drain_into_array st t' = Some t'"
    using t'(2) by (subst drain_into_array.simps) (simp add: find_entry_def plain_run_def)
  then have "lhat_table_resize st t k fill = Some (True, t')"
    using t'(1) by (simp add: lhat_table_resize_def shorten_take Let_def)
  moreover have "k - array_count ?t = k - array_count t" by simp
  ultimately show ?thesis using t'(2,3) by auto
qed

lemma resolve_ordinal:
  assumes "n < 2 ^ 63"
  shows "sint (vm_resolve_ordinal i n) = (if sint i < 0 then int n + sint i else sint i)"
proof -
  have i: "- (2 ^ 63) \<le> sint i" using sint_ge [of i] by simp
  have "sint (word_of_nat n + i) = int n + sint i" if "sint i < 0"
  proof -
    have "word_of_nat n + i = (word_of_int (int n + sint i) :: LhatInteger)" by simp
    moreover have "sint (word_of_int (int n + sint i) :: LhatInteger) = int n + sint i"
      using i that assms unfolding sint_sbintrunc' by (intro signed_take_bit_int_eq_self) simp_all
    ultimately show ?thesis by argo
  qed
  then show ?thesis by (simp add: vm_resolve_ordinal_def)
qed

end
