(* ===== verification/Lhat_NativeList.thy ===== *)
theory Lhat_NativeList
  imports Lhat_NativeOk
begin

text \<open>
  The operations of a table as list functions: what each does to the list, what it answers and how it
  ends, and that the natives do that.
\<close>

subsection \<open>The list functions\<close>

datatype ListOp =
    LIST_PUSH LhatValue | LIST_INSERT LhatInteger LhatValue | LIST_REMOVE LhatInteger | LIST_POP
  | LIST_REVERSE | LIST_CLEAR | LIST_RESIZE LhatInteger LhatValue | LIST_MOVE LhatInteger LhatInteger
  | LIST_EXTEND addr

fun list_native :: "ListOp \<Rightarrow> LhatTableNative \<times> LhatValue list" where
  "list_native (LIST_PUSH v) = (LHAT_NATIVE_PUSH, [v])"
| "list_native (LIST_INSERT i v) = (LHAT_NATIVE_INSERT, [VALUE_INTEGER i, v])"
| "list_native (LIST_REMOVE i) = (LHAT_NATIVE_REMOVE, [VALUE_INTEGER i])"
| "list_native LIST_POP = (LHAT_NATIVE_POP, [])"
| "list_native LIST_REVERSE = (LHAT_NATIVE_REVERSE, [])"
| "list_native LIST_CLEAR = (LHAT_NATIVE_CLEAR, [])"
| "list_native (LIST_RESIZE n v) = (LHAT_NATIVE_RESIZE, [VALUE_INTEGER n, v])"
| "list_native (LIST_MOVE i j) = (LHAT_NATIVE_MOVE, [VALUE_INTEGER i, VALUE_INTEGER j])"
| "list_native (LIST_EXTEND b) = (LHAT_NATIVE_EXTEND, [VALUE_OBJECT (Some b)])"

text \<open>The place a written ordinal names among \<open>n\<close>: a negative one counts from the end.\<close>

definition placed :: "LhatInteger \<Rightarrow> nat \<Rightarrow> int" where
  "placed i n = (if sint i < 0 then int n + sint i else sint i)"

text \<open>How the call ends, what it answers where that is not the receiver, and the list after it.\<close>

fun list_step ::
  "addr \<Rightarrow> (addr \<Rightarrow> LhatValue list option) \<Rightarrow> ListOp \<Rightarrow> LhatValue list \<Rightarrow>
   LhatRunStatus \<times> LhatValue option \<times> LhatValue list" where
  "list_step a others (LIST_PUSH v) xs = (LHAT_RUN_OK, None, xs @ [v])"
| "list_step a others (LIST_INSERT i v) xs =
     (let p = placed i (length xs + 1)
      in if p < 0 \<or> int (length xs) < p then (LHAT_RUN_BAD_KEY, None, xs)
         else (LHAT_RUN_OK, None, insert_at (nat p) v xs))"
| "list_step a others (LIST_REMOVE i) xs =
     (let p = placed i (length xs)
      in if p < 0 \<or> int (length xs) \<le> p then (LHAT_RUN_OK, Some VALUE_NIL, xs)
         else (LHAT_RUN_OK, Some (xs ! nat p), remove_at (nat p) xs))"
| "list_step a others LIST_POP xs =
     (if xs = [] then (LHAT_RUN_OK, Some VALUE_NIL, xs) else (LHAT_RUN_OK, Some (last xs), butlast xs))"
| "list_step a others LIST_REVERSE xs = (LHAT_RUN_OK, None, rev xs)"
| "list_step a others LIST_CLEAR xs = (LHAT_RUN_OK, None, [])"
| "list_step a others (LIST_RESIZE n v) xs =
     (if sint n < 0 then (LHAT_RUN_BAD_KEY, None, xs)
      else (LHAT_RUN_OK, None, take (unat n) xs @ replicate (unat n - length xs) v))"
| "list_step a others (LIST_MOVE i j) xs =
     (if sint i < 0 \<or> int (length xs) \<le> sint i \<or> sint j < 0 \<or> int (length xs) \<le> sint j
      then (LHAT_RUN_BAD_KEY, None, xs)
      else (LHAT_RUN_OK, None, insert_at (unat j) (xs ! unat i) (remove_at (unat i) xs)))"
| "list_step a others (LIST_EXTEND b) xs =
     (case (if b = a then Some xs else others b) of
        None \<Rightarrow> (LHAT_RUN_TYPE_ERROR, None, xs)
      | Some ys \<Rightarrow> (LHAT_RUN_OK, None, xs @ ys))"

definition runs_of :: "LhatMemory \<Rightarrow> addr \<Rightarrow> LhatValue list option" where
  "runs_of m b = map_option tb_array (table_in m b)"

text \<open>As long as the lists a machine can number.\<close>

definition step_fits :: "addr \<Rightarrow> (addr \<Rightarrow> LhatValue list option) \<Rightarrow> ListOp \<Rightarrow> LhatValue list \<Rightarrow> bool" where
  "step_fits a others op xs \<longleftrightarrow>
     length xs < 2 ^ 63 - 1 \<and> length (snd (snd (list_step a others op xs))) < 2 ^ 63 - 1"

subsection \<open>Each native is its list function\<close>

definition native_answers ::
  "LhatNativeCall option \<Rightarrow> addr \<Rightarrow> LhatMemory \<Rightarrow> LhatRunStatus \<times> LhatValue option \<times> LhatValue list \<Rightarrow> bool" where
  "native_answers r a m s \<longleftrightarrow>
     (\<exists>m'. r = ended (fst s) (case fst (snd s) of Some v \<Rightarrow> v | None \<Rightarrow> VALUE_OBJECT (Some a)) m' \<and>
       list_at m' a (snd (snd s)) \<and> only_at a m m')"

lemma answersI:
  "list_at m' a ys \<Longrightarrow> only_at a m m' \<Longrightarrow>
   native_answers (ended status (case v of Some v \<Rightarrow> v | None \<Rightarrow> VALUE_OBJECT (Some a)) m') a m (status, v, ys)"
  by (auto simp: native_answers_def)

lemmas answers_receiver = answersI [where v = None, simplified]
lemmas answers_value = answersI [where v = "Some v" for v, simplified]

lemma unat_of_sint:
  fixes i :: LhatInteger
  assumes "0 \<le> sint i"
  shows "int (unat i) = sint i" "unat i = nat (sint i)"
proof -
  have "word_of_nat (nat (sint i)) = (word_of_int (int (nat (sint i))) :: LhatInteger)" by simp
  also have "\<dots> = i" using assms by simp
  finally have "i = word_of_nat (nat (sint i))" by simp
  moreover have "nat (sint i) < 2 ^ 63" using sint_less [of i] assms by (simp add: nat_less_iff)
  ultimately show "unat i = nat (sint i)" using position_word by blast
  then show "int (unat i) = sint i" using assms by simp
qed

lemma list_atE:
  assumes "list_at m a xs"
  obtains t where "table_in m a = Some t" "plain_run t" "tb_array t = xs" "\<not> tb_sealed t"
  using assms by (auto simp: list_at_def plain_run_def)

lemma put_run:
  "plain_run t \<Longrightarrow> list_at (put_table m a (t\<lparr>tb_array := ys\<rparr>)) a ys"
  using list_put [of "t\<lparr>tb_array := ys\<rparr>" m a] by (simp add: plain_run_def)

lemma placed_is:
  "n < 2 ^ 63 \<Longrightarrow> sint (vm_resolve_ordinal i n) = placed i n"
  by (simp add: resolve_ordinal placed_def)

lemma push_answers:
  assumes l: "list_at m a xs" and r: "ample (me_store m)" and n: "length xs < 2 ^ 63 - 1"
  shows "native_answers (vm_table_native txt call self LHAT_NATIVE_PUSH m a [v]) a m (LHAT_RUN_OK, None, xs @ [v])"
proof -
  obtain t where t: "table_in m a = Some t" "plain_run t" "tb_array t = xs" "\<not> tb_sealed t"
    using l by (rule list_atE)
  obtain m' where m': "vm_set_key self m a (VALUE_INTEGER (word_of_nat (length xs))) v = Some (WRITE True False m')"
    "list_at m' a (xs @ [v])" "only_at a m m'"
    using set_key_list [OF l r, of "length xs" self v] n by (auto simp: put_at_def)
  have "vm_table_native txt call self LHAT_NATIVE_PUSH m a [v] = ended LHAT_RUN_OK (VALUE_OBJECT (Some a)) m'"
    using t m'(1) by (simp add: vm_table_native_def mutates_def written_all_def)
  then show ?thesis using answers_receiver [OF m'(2,3)] by simp
qed

lemma insert_answers:
  assumes l: "list_at m a xs" and r: "ample (me_store m)" and n: "length xs < 2 ^ 63 - 1"
  shows "native_answers (vm_table_native txt call self LHAT_NATIVE_INSERT m a [VALUE_INTEGER i, v]) a m
    (list_step a others (LIST_INSERT i v) xs)"
proof -
  obtain t where t: "table_in m a = Some t" "plain_run t" "tb_array t = xs" "\<not> tb_sealed t"
    using l by (rule list_atE)
  let ?at = "vm_resolve_ordinal i (length xs + 1)"
  have p: "sint ?at = placed i (length xs + 1)" using n by (intro placed_is) simp
  show ?thesis
  proof (cases "sint ?at < 0 \<or> int (length xs) < sint ?at")
    case True
    then have "vm_table_native txt call self LHAT_NATIVE_INSERT m a [VALUE_INTEGER i, v] =
        ended LHAT_RUN_BAD_KEY (VALUE_OBJECT (Some a)) m"
      using t by (simp add: vm_table_native_def mutates_def native_insert_def Let_def)
    then show ?thesis using answers_receiver [OF l only_refl] True p by (simp add: Let_def)
  next
    case False
    then have at: "int (unat ?at) = sint ?at" "unat ?at = nat (placed i (length xs + 1))"
      using unat_of_sint [of ?at] p by simp_all
    then have le: "unat ?at \<le> length xs" using False by linarith
    obtain m1 where m1: "shift_up self m a (rev [unat ?at..<length xs]) = Some (True, m1)"
      "list_at m1 a (if unat ?at = length xs then xs else take (Suc (unat ?at)) xs @ drop (unat ?at) xs)" "only_at a m m1"
      using shift_up_list [OF l r le n] by blast
    let ?ys = "if unat ?at = length xs then xs else take (Suc (unat ?at)) xs @ drop (unat ?at) xs"
    have "ample (me_store m1)" "unat ?at \<le> length ?ys" "length ?ys < 2 ^ 63"
      using only_ample [OF m1(3)] r le n by auto
    from set_key_list [OF m1(2) this, of self v] obtain m2 where
      m2: "vm_set_key self m1 a (VALUE_INTEGER ?at) v = Some (WRITE True False m2)"
        "list_at m2 a (put_at (unat ?at) v ?ys)" "only_at a m1 m2" by auto
    have "put_at (unat ?at) v ?ys = insert_at (unat ?at) v xs"
      using le by (auto simp: put_at_def insert_at_def list_update_append take_Suc_conv_app_nth min_def)
    then have "list_at m2 a (insert_at (nat (placed i (length xs + 1))) v xs)" using m2(2) at(2) by simp
    moreover have "vm_table_native txt call self LHAT_NATIVE_INSERT m a [VALUE_INTEGER i, v] =
        ended LHAT_RUN_OK (VALUE_OBJECT (Some a)) m2"
      using t False m1(1) m2(1) by (simp add: vm_table_native_def mutates_def native_insert_def Let_def written_all_def)
    ultimately show ?thesis
      using answers_receiver [OF _ only_trans [OF m1(3) m2(3)]] False p by (simp add: Let_def)
  qed
qed

lemma remove_answers:
  assumes l: "list_at m a xs" and r: "ample (me_store m)" and n: "length xs < 2 ^ 63 - 1"
  shows "native_answers (vm_table_native txt call self LHAT_NATIVE_REMOVE m a [VALUE_INTEGER i]) a m
    (list_step a others (LIST_REMOVE i) xs)"
proof -
  obtain t where t: "table_in m a = Some t" "plain_run t" "tb_array t = xs" "\<not> tb_sealed t"
    using l by (rule list_atE)
  let ?at = "vm_resolve_ordinal i (length xs)"
  have p: "sint ?at = placed i (length xs)" using n by (intro placed_is) simp
  show ?thesis
  proof (cases "sint ?at < 0 \<or> int (length xs) \<le> sint ?at")
    case True
    then have "vm_table_native txt call self LHAT_NATIVE_REMOVE m a [VALUE_INTEGER i] = ended LHAT_RUN_OK VALUE_NIL m"
      using t by (simp add: vm_table_native_def mutates_def native_remove_def Let_def)
    then show ?thesis using answers_value [OF l only_refl] True p by (simp add: Let_def)
  next
    case False
    then have at: "unat ?at = nat (placed i (length xs))" "unat ?at < length xs"
      using unat_of_sint [of ?at] p by linarith+
    let ?t = "t\<lparr>tb_array := take_above xs [unat ?at..<length xs - 1]\<rparr>"
    have "plain_run ?t" using t(2) by (simp add: plain_run_def)
    from resize_list [OF r this, of "length xs - 1" VALUE_NIL] obtain t' where
      t': "lhat_table_resize (me_store m) ?t (length xs - 1) VALUE_NIL = Some (True, t')" "plain_run t'"
        "tb_array t' = remove_at (unat ?at) xs"
      using removed_run [OF at(2)] by auto
    have "vm_table_native txt call self LHAT_NATIVE_REMOVE m a [VALUE_INTEGER i] =
        ended LHAT_RUN_OK (xs ! unat ?at) (put_table m a t')"
      using t False t'(1) by (simp add: vm_table_native_def mutates_def native_remove_def Let_def)
    then show ?thesis
      using answers_value [OF list_put [OF t'(2)] only_put] t'(3) False p at(1) by (simp add: Let_def)
  qed
qed

lemma pop_answers:
  assumes l: "list_at m a xs" and r: "ample (me_store m)" and n: "length xs < 2 ^ 63 - 1"
  shows "native_answers (vm_table_native txt call self LHAT_NATIVE_POP m a []) a m (list_step a others LIST_POP xs)"
proof -
  obtain t where t: "table_in m a = Some t" "plain_run t" "tb_array t = xs" "\<not> tb_sealed t"
    using l by (rule list_atE)
  show ?thesis
  proof (cases "xs = []")
    case True
    then have "vm_table_native txt call self LHAT_NATIVE_POP m a [] = ended LHAT_RUN_OK VALUE_NIL m"
      using t by (simp add: vm_table_native_def mutates_def native_remove_def Let_def)
    then show ?thesis using answers_value [OF l only_refl] True by simp
  next
    case False
    let ?w = "word_of_nat (length xs) - 1 :: LhatInteger"
    have w: "?w = word_of_nat (length xs - 1)" using False by (cases xs) simp_all
    then have at: "unat ?w = length xs - 1" "\<not> sint ?w < 0"
      using position_word [of "length xs - 1" ?w] n by simp_all
    let ?t = "t\<lparr>tb_array := take_above xs [length xs - 1..<length xs - 1]\<rparr>"
    have "plain_run ?t" using t(2) by (simp add: plain_run_def)
    from resize_list [OF r this, of "length xs - 1" VALUE_NIL] obtain t' where
      t': "lhat_table_resize (me_store m) ?t (length xs - 1) VALUE_NIL = Some (True, t')" "plain_run t'"
        "tb_array t' = butlast xs"
      by (auto simp: butlast_conv_take)
    have "sint ?w = int (length xs - 1)" using unat_of_sint(1) [of ?w] at by linarith
    then have "\<not> (sint ?w < 0 \<or> int (length xs) \<le> sint ?w)" using False by (cases xs) auto
    then have "vm_table_native txt call self LHAT_NATIVE_POP m a [] = ended LHAT_RUN_OK (xs ! (length xs - 1)) (put_table m a t')"
      using t t'(1) at(1) by (simp add: vm_table_native_def mutates_def native_remove_def Let_def)
    then show ?thesis
      using answers_value [OF list_put [OF t'(2)] only_put] t'(3) False by (simp add: last_conv_nth)
  qed
qed

lemma move_answers:
  assumes l: "list_at m a xs" and r: "ample (me_store m)" and n: "length xs < 2 ^ 63 - 1"
  shows "native_answers (vm_table_native txt call self LHAT_NATIVE_MOVE m a [VALUE_INTEGER i, VALUE_INTEGER j]) a m
    (list_step a others (LIST_MOVE i j) xs)"
proof -
  obtain t where t: "table_in m a = Some t" "plain_run t" "tb_array t = xs" "\<not> tb_sealed t"
    using l by (rule list_atE)
  show ?thesis
  proof (cases "sint i < 0 \<or> int (length xs) \<le> sint i \<or> sint j < 0 \<or> int (length xs) \<le> sint j")
    case True
    then have "vm_table_native txt call self LHAT_NATIVE_MOVE m a [VALUE_INTEGER i, VALUE_INTEGER j] =
        ended LHAT_RUN_BAD_KEY (VALUE_OBJECT (Some a)) m"
      using t by (simp add: vm_table_native_def mutates_def native_move_def Let_def)
    then show ?thesis using answers_receiver [OF l only_refl] True by simp
  next
    case False
    then have at: "unat i < length xs" "unat j < length xs"
      using unat_of_sint [of i] unat_of_sint [of j] by linarith+
    let ?ys = "(if unat i < unat j then take_above xs [unat i..<unat j]
      else take_below xs (rev [unat j + 1..<unat i + 1]))[unat j := xs ! unat i]"
    have "?ys = insert_at (unat j) (xs ! unat i) (remove_at (unat i) xs)"
      using moved_up [of "unat i" "unat j" xs] moved_down [of "unat j" "unat i" xs] at by simp
    moreover have "vm_table_native txt call self LHAT_NATIVE_MOVE m a [VALUE_INTEGER i, VALUE_INTEGER j] =
        ended LHAT_RUN_OK (VALUE_OBJECT (Some a)) (put_table m a (t\<lparr>tb_array := ?ys\<rparr>))"
      using t False by (simp add: vm_table_native_def mutates_def native_move_def Let_def)
    ultimately show ?thesis
      using answers_receiver [OF put_run [OF t(2)] only_put] False by simp
  qed
qed

lemma reverse_answers:
  assumes l: "list_at m a xs"
  shows "native_answers (vm_table_native txt call self LHAT_NATIVE_REVERSE m a []) a m (LHAT_RUN_OK, None, rev xs)"
proof -
  obtain t where t: "table_in m a = Some t" "plain_run t" "tb_array t = xs" "\<not> tb_sealed t"
    using l by (rule list_atE)
  have "vm_table_native txt call self LHAT_NATIVE_REVERSE m a [] =
      ended LHAT_RUN_OK (VALUE_OBJECT (Some a)) (put_table m a (t\<lparr>tb_array := rev xs\<rparr>))"
    using t by (simp add: vm_table_native_def mutates_def swap_ends_rev)
  then show ?thesis using answers_receiver [OF put_run [OF t(2)] only_put] by simp
qed

lemma clear_answers:
  assumes l: "list_at m a xs"
  shows "native_answers (vm_table_native txt call self LHAT_NATIVE_CLEAR m a []) a m (LHAT_RUN_OK, None, [])"
proof -
  obtain t where t: "table_in m a = Some t" "plain_run t" "tb_array t = xs" "\<not> tb_sealed t"
    using l by (rule list_atE)
  have "plain_run (cleared t)" "tb_array (cleared t) = []"
    using t(2) by (simp_all add: plain_run_def cleared_def entry_pairs_def nil_entry_def)
  from list_put [OF this(1), of m a] this(2) have "list_at (put_table m a (cleared t)) a []" by simp
  moreover have "vm_table_native txt call self LHAT_NATIVE_CLEAR m a [] =
      ended LHAT_RUN_OK (VALUE_OBJECT (Some a)) (put_table m a (cleared t))"
    using t by (simp add: vm_table_native_def mutates_def)
  ultimately show ?thesis using answers_receiver [OF _ only_put] by simp
qed

lemma resize_answers:
  assumes l: "list_at m a xs" and r: "ample (me_store m)"
  shows "native_answers (vm_table_native txt call self LHAT_NATIVE_RESIZE m a [VALUE_INTEGER i, v]) a m
    (list_step a others (LIST_RESIZE i v) xs)"
proof -
  obtain t where t: "table_in m a = Some t" "plain_run t" "tb_array t = xs" "\<not> tb_sealed t"
    using l by (rule list_atE)
  show ?thesis
  proof (cases "sint i < 0")
    case True
    then have "vm_table_native txt call self LHAT_NATIVE_RESIZE m a [VALUE_INTEGER i, v] =
        ended LHAT_RUN_BAD_KEY (VALUE_OBJECT (Some a)) m"
      using t by (simp add: vm_table_native_def mutates_def native_resize_def)
    then show ?thesis using answers_receiver [OF l only_refl] True by simp
  next
    case False
    obtain t' where t': "lhat_table_resize (me_store m) t (unat i) v = Some (True, t')" "plain_run t'"
      "tb_array t' = take (unat i) xs @ replicate (unat i - length xs) v"
      using resize_list [OF r t(2), of "unat i" v] t(3) by blast
    have "vm_table_native txt call self LHAT_NATIVE_RESIZE m a [VALUE_INTEGER i, v] =
        ended LHAT_RUN_OK (VALUE_OBJECT (Some a)) (put_table m a t')"
      using t False t'(1) by (simp add: vm_table_native_def mutates_def native_resize_def)
    then show ?thesis using answers_receiver [OF list_put [OF t'(2)] only_put] t'(3) False by simp
  qed
qed

lemma extend_answers:
  assumes l: "list_at m a xs" and r: "ample (me_store m)" and o: "b \<noteq> a \<Longrightarrow> others b = runs_of m b"
    and n: "length (snd (snd (list_step a others (LIST_EXTEND b) xs))) < 2 ^ 63 - 1"
  shows "native_answers (vm_table_native txt call self LHAT_NATIVE_EXTEND m a [VALUE_OBJECT (Some b)]) a m
    (list_step a others (LIST_EXTEND b) xs)"
proof -
  obtain t where t: "table_in m a = Some t" "plain_run t" "tb_array t = xs" "\<not> tb_sealed t"
    using l by (rule list_atE)
  show ?thesis
  proof (cases "table_in m b")
    case None
    then have "b \<noteq> a" using t(1) by auto
    then have "others b = None" using o None by (simp add: runs_of_def)
    moreover have "vm_table_native txt call self LHAT_NATIVE_EXTEND m a [VALUE_OBJECT (Some b)] =
        ended LHAT_RUN_TYPE_ERROR (VALUE_OBJECT (Some a)) m"
      using t None by (simp add: vm_table_native_def mutates_def)
    ultimately show ?thesis using answers_receiver [OF l only_refl] \<open>b \<noteq> a\<close> by simp
  next
    case (Some u)
    have ys: "(if b = a then Some xs else others b) = Some (tb_array u)"
      using o Some t by (auto simp: runs_of_def)
    then have "length xs + array_count u < 2 ^ 63" using n by simp
    from append_each_list [OF l r Some refl _ _ this, of 0] obtain m' where
      m': "append_each self m a b (length xs) [0..<array_count u] = Some (True, m')"
        "list_at m' a (xs @ tb_array u)" "only_at a m m'"
      by auto
    have "vm_table_native txt call self LHAT_NATIVE_EXTEND m a [VALUE_OBJECT (Some b)] =
        ended LHAT_RUN_OK (VALUE_OBJECT (Some a)) m'"
      using t Some m'(1) by (simp add: vm_table_native_def mutates_def written_all_def)
    then show ?thesis using answers_receiver [OF m'(2,3)] ys by simp
  qed
qed

lemma native_is_list_step:
  assumes l: "list_at m a xs" and r: "ample (me_store m)" and o: "\<forall>b. b \<noteq> a \<longrightarrow> others b = runs_of m b"
    and n: "step_fits a others op xs"
  shows "native_answers (vm_table_native txt call self (fst (list_native op)) m a (snd (list_native op))) a m
    (list_step a others op xs)"
proof -
  have len: "length xs < 2 ^ 63 - 1" "length (snd (snd (list_step a others op xs))) < 2 ^ 63 - 1"
    using n unfolding step_fits_def by blast+
  show ?thesis
  proof (cases op)
    case (LIST_EXTEND b)
    then show ?thesis using extend_answers [OF l r, of b others] o len(2) by simp
  qed (use push_answers [OF l r len(1)] insert_answers [OF l r len(1)] remove_answers [OF l r len(1)]
        pop_answers [OF l r len(1)] reverse_answers [OF l] clear_answers [OF l] resize_answers [OF l r]
        move_answers [OF l r len(1)] in \<open>simp_all del: list_step.simps(2-4,7-9)\<close>)
qed

subsection \<open>Copies\<close>

text \<open>The list at a new address, and nothing else changed.\<close>

definition copied :: "LhatMemory \<Rightarrow> LhatMemory \<Rightarrow> LhatValue list \<Rightarrow> bool" where
  "copied m m' ys \<longleftrightarrow> list_at m' (hd (me_fresh m)) ys \<and> me_fresh m' = tl (me_fresh m) \<and>
     (\<forall>c. c \<noteq> hd (me_fresh m) \<longrightarrow> table_in m' c = table_in m c)"

lemma table_new_list:
  assumes "me_fresh m = b # rest" "ample (me_store m)"
  obtains m1 where "object_new m (CONTENT_TABLE new_table) = Some (b, m1)" "list_at m1 b []" "ample (me_store m1)"
    "\<And>m' ys. list_at m' b ys \<Longrightarrow> only_at b m1 m' \<Longrightarrow> copied m m' ys"
proof -
  define m1 where "m1 = \<lparr>me_store = put_content (me_store m) b (CONTENT_TABLE new_table), me_fresh = rest\<rparr>"
  have "object_new m (CONTENT_TABLE new_table) = Some (b, m1)" using assms(1) by (simp add: object_new_def m1_def)
  moreover have "list_at m1 b []"
    by (simp add: m1_def list_at_def table_in_def table_at_def put_content_def plain_run_def new_table_def entry_pairs_def)
  moreover have "ample (me_store m1)" using assms(2) by (simp add: m1_def)
  moreover have "copied m m' ys" if "list_at m' b ys" "only_at b m1 m'" for m' ys
  proof -
    have "table_in m' c = table_in m c" if "c \<noteq> b" for c
      using only_elsewhere [OF \<open>only_at b m1 m'\<close> that] that
      by (simp add: m1_def table_in_def table_at_def put_elsewhere)
    moreover have "me_fresh m' = rest" using that(2) by (auto simp: only_at_def m1_def)
    ultimately show ?thesis using that(1) assms(1) by (simp add: copied_def)
  qed
  ultimately show ?thesis using that by blast
qed

definition through :: "LhatCall \<Rightarrow> LhatValue \<Rightarrow> LhatValue \<Rightarrow> LhatValue" where
  "through call policy v = (if policy = VALUE_NIL then v else snd (call policy [v]))"

definition policy_ends :: "LhatCall \<Rightarrow> LhatValue \<Rightarrow> LhatValue list \<Rightarrow> bool" where
  "policy_ends call policy xs \<longleftrightarrow> policy = VALUE_NIL \<or> (\<forall>v\<in>set xs. fst (call policy [v]) = LHAT_RUN_OK)"

lemma run_pairs_Cons: "run_pairs i (y # ys) = (VALUE_INTEGER (word_of_nat i), y) # run_pairs (Suc i) ys"
  by (simp add: run_pairs_def upt_conv_Cons del: upt_Suc)

lemma clone_each_list:
  assumes "list_at m b zs" "ample (me_store m)" "length zs + length xs < 2 ^ 63" "policy_ends call policy xs"
  shows "\<exists>m'. clone_each call policy self m b (run_pairs (length zs) xs) = Some (LHAT_RUN_OK, m') \<and>
    list_at m' b (zs @ map (through call policy) xs) \<and> only_at b m m'"
  using assms
proof (induction xs arbitrary: m zs)
  case (Cons x xs)
  let ?v = "through call policy x"
  have len: "length zs \<le> length zs" "length zs < 2 ^ 63" using Cons.prems(3) by simp_all
  obtain m1 where m1: "vm_set_key self m b (VALUE_INTEGER (word_of_nat (length zs))) ?v = Some (WRITE True False m1)"
    "list_at m1 b (zs @ [?v])" "only_at b m m1"
    using set_key_list [OF Cons.prems(1,2) len, of self ?v] by (auto simp: put_at_def)
  have "length (zs @ [?v]) + length xs < 2 ^ 63" "policy_ends call policy xs" "ample (me_store m1)"
    using Cons.prems only_ample [OF m1(3)] by (auto simp: policy_ends_def)
  from Cons.IH [OF m1(2) this(3,1,2)] obtain m2 where
    m2: "clone_each call policy self m1 b (run_pairs (Suc (length zs)) xs) = Some (LHAT_RUN_OK, m2)"
      "list_at m2 b (zs @ map (through call policy) (x # xs))" "only_at b m1 m2" by auto
  have held: "(if lhat_is_nil policy then (LHAT_RUN_OK, x) else call policy [x]) = (LHAT_RUN_OK, ?v)"
    using Cons.prems(4) by (cases "call policy [x]") (auto simp: policy_ends_def through_def)
  have "clone_each call policy self m b (run_pairs (length zs) (x # xs)) = Some (LHAT_RUN_OK, m2)"
    unfolding run_pairs_Cons clone_each.simps held using m1(1) m2(1) by simp
  then show ?case using m2 only_trans [OF m1(3) m2(3)] by auto
qed (auto simp: run_pairs_def)

lemma clone_answers:
  assumes l: "list_at m a xs" and r: "ample (me_store m)" and f: "me_fresh m = b # rest"
    and n: "length xs < 2 ^ 63" and p: "policy_ends call policy xs"
  shows "\<exists>m'. vm_table_native txt call self LHAT_NATIVE_CLONE m a [policy] =
      ended LHAT_RUN_OK (VALUE_OBJECT (Some b)) m' \<and> copied m m' (map (through call policy) xs)"
proof -
  obtain t where t: "table_in m a = Some t" "plain_run t" "tb_array t = xs" "\<not> tb_sealed t"
    using l by (rule list_atE)
  obtain m1 where m1: "object_new m (CONTENT_TABLE new_table) = Some (b, m1)" "list_at m1 b []" "ample (me_store m1)"
    "\<And>m' ys. list_at m' b ys \<Longrightarrow> only_at b m1 m' \<Longrightarrow> copied m m' ys"
    using table_new_list [OF f r] by blast
  obtain m2 where m2: "clone_each call policy self m1 b (run_pairs 0 xs) = Some (LHAT_RUN_OK, m2)"
    "list_at m2 b (map (through call policy) xs)" "only_at b m1 m2"
    using clone_each_list [OF m1(2,3) _ p, of self] n by auto
  have "run_pairs 0 (tb_array t) @ entry_pairs t = run_pairs 0 xs" using t(2,3) by (simp add: plain_run_def)
  then have "table_clone call self m t policy = Some (LHAT_RUN_OK, Some b, m2)"
    using m1(1) m2(1) by (simp add: table_clone_def)
  then have "vm_table_native txt call self LHAT_NATIVE_CLONE m a [policy] = ended LHAT_RUN_OK (VALUE_OBJECT (Some b)) m2"
    using t(1) by (simp add: vm_table_native_def mutates_def)
  then show ?thesis using m1(4) [OF m2(2,3)] by blast
qed

lemma slice_answers:
  assumes l: "list_at m a xs" and r: "ample (me_store m)" and f: "me_fresh m = b # rest"
    and n: "length xs < 2 ^ 63"
  shows "\<exists>m'. vm_table_native txt call self LHAT_NATIVE_SLICE m a [VALUE_INTEGER i, VALUE_INTEGER j] =
      ended LHAT_RUN_OK (VALUE_OBJECT (Some b)) m' \<and>
    copied m m'
      (let p = placed i (length xs); q = placed j (length xs)
       in if 0 \<le> p \<and> p \<le> q \<and> q < int (length xs) then drop (nat p) (take (nat q + 1) xs) else [])"
proof -
  obtain t where t: "table_in m a = Some t" "plain_run t" "tb_array t = xs" "\<not> tb_sealed t"
    using l by (rule list_atE)
  obtain m1 where m1: "object_new m (CONTENT_TABLE new_table) = Some (b, m1)" "list_at m1 b []" "ample (me_store m1)"
    "\<And>m' ys. list_at m' b ys \<Longrightarrow> only_at b m1 m' \<Longrightarrow> copied m m' ys"
    using table_new_list [OF f r] by blast
  let ?p = "vm_resolve_ordinal i (length xs)" and ?q = "vm_resolve_ordinal j (length xs)"
  have pq: "sint ?p = placed i (length xs)" "sint ?q = placed j (length xs)" using n by (simp_all add: placed_is)
  show ?thesis
  proof (cases "0 \<le> sint ?p \<and> sint ?p \<le> sint ?q \<and> sint ?q < int (length xs)")
    case True
    then have at: "unat ?p = nat (placed i (length xs))" "unat ?q = nat (placed j (length xs))"
      using unat_of_sint(2) [of ?p] unat_of_sint(2) [of ?q] pq by auto
    let ?ys = "take (unat ?q + 1 - unat ?p) (drop (unat ?p) xs)"
    have ys: "?ys = drop (nat (placed i (length xs))) (take (nat (placed j (length xs)) + 1) xs)"
      using at by (simp add: drop_take)
    have "length ?ys < 2 ^ 63" using n by (simp add: min_less_iff_disj less_imp_diff_less)
    with set_each_list [OF m1(2,3), of 0 ?ys self] obtain m2 where
      m2: "set_each self m1 b (run_pairs 0 ?ys) = Some (True, m2)" "list_at m2 b ?ys" "only_at b m1 m2" by auto
    have "vm_table_native txt call self LHAT_NATIVE_SLICE m a [VALUE_INTEGER i, VALUE_INTEGER j] =
        ended LHAT_RUN_OK (VALUE_OBJECT (Some b)) m2"
      using t True m1(1) m2(1) by (simp add: vm_table_native_def mutates_def native_slice_def Let_def)
    then show ?thesis using m1(4) [OF m2(2,3)] ys True pq by (auto simp: Let_def)
  next
    case False
    then have "vm_table_native txt call self LHAT_NATIVE_SLICE m a [VALUE_INTEGER i, VALUE_INTEGER j] =
        ended LHAT_RUN_OK (VALUE_OBJECT (Some b)) m1"
      using t m1(1) by (auto simp add: vm_table_native_def mutates_def native_slice_def Let_def)
    moreover have "\<not> (0 \<le> placed i (length xs) \<and> placed i (length xs) \<le> placed j (length xs) \<and>
        placed j (length xs) < int (length xs))" using False pq by simp
    ultimately show ?thesis using m1(4) [OF m1(2) only_refl] by (auto simp: Let_def)
  qed
qed

lemma set_each_append:
  "set_each self m a ps = Some (True, m') \<Longrightarrow> set_each self m a (ps @ qs) = set_each self m' a qs"
  by (induction ps arbitrary: m) (auto simp: bind_eq_Some_conv split: if_splits)

lemma concat_answers:
  assumes t: "plain_run t" "plain_run u" and r: "ample (me_store m)" and f: "me_fresh m = b # rest"
    and n: "array_count t + array_count u < 2 ^ 63"
  shows "\<exists>m'. vm_concat_tables self m t u = Some (Some b, False, m') \<and> copied m m' (tb_array t @ tb_array u)"
proof -
  obtain m1 where m1: "object_new m (CONTENT_TABLE new_table) = Some (b, m1)" "list_at m1 b []" "ample (me_store m1)"
    "\<And>m' ys. list_at m' b ys \<Longrightarrow> only_at b m1 m' \<Longrightarrow> copied m m' ys"
    using table_new_list [OF f r] by blast
  obtain m2 where m2: "set_each self m1 b (run_pairs 0 (tb_array t)) = Some (True, m2)"
    "list_at m2 b (tb_array t)" "only_at b m1 m2"
    using set_each_list [OF m1(2,3), of 0 "tb_array t" self] n by auto
  have "ample (me_store m2)" using only_ample [OF m2(3)] m1(3) by simp
  from set_each_list [OF m2(2) this, of "array_count t" "tb_array u" self] n obtain m3 where
    m3: "set_each self m2 b (run_pairs (array_count t) (tb_array u)) = Some (True, m3)"
      "list_at m3 b (tb_array t @ tb_array u)" "only_at b m2 m3" by auto
  have "vm_concat_tables self m t u = Some (Some b, False, m3)"
    using m1(1) set_each_append [OF m2(1)] m3(1) t by (simp add: vm_concat_tables_def plain_run_def)
  then show ?thesis using m1(4) [OF m3(2) only_trans [OF m2(3) m3(3)]] by blast
qed

end
