(* ===== verification/Lhat_StringOk.thy ===== *)
theory Lhat_StringOk
  imports Lhat_StringNative Lhat_NativeList
begin

text \<open>
  Strings as lists of grapheme clusters: what the clusters of a part of a string are, and that the
  searches, which work on byte offsets, are searches in that list.
\<close>

subsection \<open>Parts of a string\<close>

lemma decode_drop: "k + at < length bytes \<Longrightarrow> decode_at (drop k bytes) at = decode_at bytes (k + at)"
  by (simp add: decode_at_def add.commute)

lemma loop_drop:
  "k + grapheme_loop up (drop k bytes) at previous state = grapheme_loop up bytes (k + at) previous state"
proof (induction "length bytes - (k + at)" arbitrary: at previous state rule: less_induct)
  case less
  show ?case
  proof (cases "k + at < length bytes")
    case True
    then have "length bytes - (k + (at + (1 + rest))) < length bytes - (k + at)" for rest by linarith
    note rec = less [OF this]
    have "at < length (drop k bytes)" using True by simp
    then show ?thesis
      using True by (subst (1 2) grapheme_loop.simps)
        (simp add: decode_drop rec [simplified] add.assoc split: Utf8Iterate.split prod.split)
  next
    case False
    then have "\<not> at < length (drop k bytes)" by simp
    with False show ?thesis by (subst (1 2) grapheme_loop.simps) (simp only: if_False)
  qed
qed

lemma next_drop:
  assumes "k + at \<le> length bytes"
  shows "k + lhat_grapheme_next up (drop k bytes) at = lhat_grapheme_next up bytes (k + at)"
proof (cases "k + at < length bytes")
  case True
  then have "at < length (drop k bytes)" by simp
  then show ?thesis
    using True decode_drop [OF True]
    by (simp add: lhat_grapheme_next_def loop_drop [simplified] add.assoc split: Utf8Iterate.split)
next
  case False
  then show ?thesis using assms by (auto simp: lhat_grapheme_next_def)
qed

lemma clusters_drop:
  "k + at \<le> length bytes \<Longrightarrow> clusters up (drop k bytes) at = clusters up bytes (k + at)"
proof (induction "length bytes - (k + at)" arbitrary: at rule: less_induct)
  case less
  show ?case
  proof (cases "k + at < length bytes")
    case True
    let ?to = "lhat_grapheme_next up (drop k bytes) at"
    have here: "at < length (drop k bytes)" using True by simp
    have to: "k + ?to = lhat_grapheme_next up bytes (k + at)" using next_drop True by simp
    have "k + at < k + ?to" "k + ?to \<le> length bytes"
      using grapheme_next_progress [OF True, of up] grapheme_next_le [of up bytes "k + at"] to by simp_all
    then have "clusters up (drop k bytes) ?to = clusters up bytes (k + ?to)"
      using True by (intro less.hyps) linarith+
    moreover have "lhat_grapheme_next up bytes (k + at) - (k + at) = ?to - at" using to by simp
    ultimately show ?thesis
      unfolding clusters_step [OF here] clusters_step [OF True] using to by (simp add: add.commute [of at k])
  next
    case False
    then show ?thesis by simp
  qed
qed

lemma decode_take:
  assumes "at < n" "n \<le> length bytes"
  shows "decode_at bytes at = ITERATE_ERROR \<Longrightarrow> decode_at (take n bytes) at = ITERATE_ERROR"
    "decode_at bytes at = ITERATE rest cp \<Longrightarrow> at + (1 + rest) \<le> n \<Longrightarrow> decode_at (take n bytes) at = ITERATE rest cp"
proof -
  have part: "take 4 (drop at (take n bytes)) = take (n - at) (take 4 (drop at bytes))"
    by (simp add: drop_take min.commute)
  have same: "take n bytes ! at = bytes ! at" using assms(1) by simp
  have pos: "0 < n - at" using assms(1) by simp
  show "decode_at bytes at = ITERATE_ERROR \<Longrightarrow> decode_at (take n bytes) at = ITERATE_ERROR"
    using iterate_prefix(2) [OF pos, of "take 4 (drop at bytes)"] unfolding decode_at_def part same by (auto split: if_splits)
  show "decode_at bytes at = ITERATE rest cp \<Longrightarrow> at + (1 + rest) \<le> n \<Longrightarrow> decode_at (take n bytes) at = ITERATE rest cp"
    using iterate_prefix(1) [OF pos, of "take 4 (drop at bytes)"] unfolding decode_at_def part same by (auto split: if_splits)
qed

text \<open>A boundary at which the string is cut, or before which the next cluster ends, stays one.\<close>

definition reads_until :: "byte list \<Rightarrow> nat \<Rightarrow> nat \<Rightarrow> bool" where
  "reads_until bytes at n \<longleftrightarrow>
     at = n \<or> at < n \<and> (case decode_at bytes at of ITERATE_ERROR \<Rightarrow> True | ITERATE rest cp \<Rightarrow> at + (1 + rest) \<le> n)"

lemma loop_take:
  assumes "n \<le> length bytes"
  shows "grapheme_loop up bytes at previous state = to \<Longrightarrow> reads_until bytes to n \<Longrightarrow>
    grapheme_loop up (take n bytes) at previous state = to"
proof (induction "length bytes - at" arbitrary: at previous state rule: less_induct)
  case less
  show ?case
  proof (cases "at < n")
    case True
    then have at: "at < length bytes" "at < length (take n bytes)" using assms by simp_all
    show ?thesis
    proof (cases "decode_at bytes at")
      case ITERATE_ERROR
      then have "to = at" using less.prems(1) at by (subst (asm) grapheme_loop.simps) simp
      then show ?thesis
        using decode_take(1) [OF True assms ITERATE_ERROR] by (subst grapheme_loop.simps) simp
    next
      case (ITERATE rest cp)
      have rec: "grapheme_loop up (take n bytes) (at + (1 + rest)) c s = to"
        if "grapheme_loop up bytes (at + (1 + rest)) c s = to" for c s
        using less.hyps [OF _ that less.prems(2)] at(1) by (simp add: diff_less_mono2)
      have "at + (1 + rest) \<le> n"
      proof (cases "to = at")
        case True
        then show ?thesis using less.prems(2) ITERATE \<open>at < n\<close> by (simp add: reads_until_def)
      next
        case False
        then have "\<exists>c s. grapheme_loop up bytes (at + (1 + rest)) c s = to"
          using less.prems(1) at ITERATE
          by (subst (asm) grapheme_loop.simps) (auto split: if_splits prod.splits)
        then have "at + (1 + rest) \<le> to" using grapheme_loop_ge by blast
        then show ?thesis using less.prems(2) by (auto simp: reads_until_def)
      qed
      note same = decode_take(2) [OF True assms ITERATE this]
      show ?thesis
        using less.prems(1) rec at ITERATE same
        by (subst grapheme_loop.simps, subst (asm) grapheme_loop.simps) (auto split: if_splits prod.splits)
    qed
  next
    case False
    then have "to = at"
      using less.prems grapheme_loop_ge [of at up bytes previous state] by (auto simp: reads_until_def)
    then show ?thesis using False by (subst grapheme_loop.simps) simp
  qed
qed

lemma next_take:
  assumes "n \<le> length bytes" "at < n" "reads_until bytes (lhat_grapheme_next up bytes at) n"
  shows "lhat_grapheme_next up (take n bytes) at = lhat_grapheme_next up bytes at"
proof (cases "decode_at bytes at")
  case ITERATE_ERROR
  then show ?thesis
    using decode_take(1) [OF assms(2,1) ITERATE_ERROR] assms(1,2) by (simp add: lhat_grapheme_next_def)
next
  case (ITERATE rest cp)
  have next': "lhat_grapheme_next up bytes at = grapheme_loop up bytes (at + (1 + rest)) cp 0"
    using ITERATE assms(1,2) by (simp add: lhat_grapheme_next_def)
  then have "at + (1 + rest) \<le> lhat_grapheme_next up bytes at" using grapheme_loop_ge by metis
  then have "at + (1 + rest) \<le> n" using assms(3) by (auto simp: reads_until_def)
  note same = decode_take(2) [OF assms(2,1) ITERATE this]
  show ?thesis
    using loop_take [OF assms(1) next' [symmetric] assms(3)] same assms(1,2)
    by (simp add: lhat_grapheme_next_def [of up "take n bytes"])
qed

subsection \<open>Boundaries\<close>

abbreviation boundary :: "LhatUtf8proc \<Rightarrow> byte list \<Rightarrow> nat \<Rightarrow> nat \<Rightarrow> nat" where
  "boundary up bytes at k \<equiv> (lhat_grapheme_next up bytes ^^ k) at"

lemma boundary_Suc: "boundary up bytes at (Suc k) = boundary up bytes (lhat_grapheme_next up bytes at) k"
  by (simp add: funpow_swap1)

lemma next_past: "length bytes \<le> at \<Longrightarrow> lhat_grapheme_next up bytes at = length bytes"
  by (simp add: lhat_grapheme_next_def)

lemma boundary_end: "boundary up bytes (length bytes) k = length bytes"
  by (induction k) (simp_all add: next_past)

lemma boundary_range:
  assumes "at \<le> length bytes"
  shows "at \<le> boundary up bytes at k \<and> boundary up bytes at k \<le> length bytes"
proof (induction k)
  case (Suc k)
  have "boundary up bytes at k \<le> lhat_grapheme_next up bytes (boundary up bytes at k)"
    using Suc grapheme_next_progress [of "boundary up bytes at k" bytes up] next_past [of bytes "boundary up bytes at k" up]
    by (cases "boundary up bytes at k < length bytes") simp_all
  then show ?case using Suc grapheme_next_le [of up bytes "boundary up bytes at k"] by simp
qed (use assms in simp)

lemma boundary_clusters: "clusters up bytes (boundary up bytes at k) = drop k (clusters up bytes at)"
proof (induction k arbitrary: at)
  case (Suc k)
  show ?case
    unfolding boundary_Suc Suc by (cases "at < length bytes") (simp_all add: clusters_step next_past)
qed simp

lemma clusters_bound: "k \<le> length (clusters up bytes at) \<Longrightarrow> 0 < k \<Longrightarrow> at < length bytes"
  by (cases "at < length bytes") simp_all

lemma boundary_span:
  "k \<le> length (clusters up bytes at) \<Longrightarrow>
    byte_span bytes at (boundary up bytes at k) = concat (take k (clusters up bytes at))"
proof (induction k arbitrary: at)
  case 0
  then show ?case by (simp add: byte_span_def)
next
  case (Suc k)
  let ?to = "lhat_grapheme_next up bytes at" and ?stop = "boundary up bytes (lhat_grapheme_next up bytes at) k"
  have at: "at < length bytes" using clusters_bound [OF Suc.prems] by simp
  have le: "at < ?to" "?to \<le> ?stop"
    using grapheme_next_progress [OF at] boundary_range [OF grapheme_next_le] by simp_all
  have "k \<le> length (clusters up bytes ?to)" using Suc.prems by (simp add: clusters_step [OF at])
  from Suc.IH [OF this] have "take (?stop - ?to) (drop ?to bytes) = concat (take k (clusters up bytes ?to))"
    by (simp add: byte_span_def)
  moreover have "take (?stop - at) (drop at bytes) = take (?to - at) (drop at bytes) @ take (?stop - ?to) (drop ?to bytes)"
    using le take_add [of "?to - at" "?stop - ?to" "drop at bytes"] by simp
  ultimately show ?case unfolding boundary_Suc byte_span_def by (simp add: clusters_step [OF at])
qed

lemma reads_until_boundary:
  assumes "k \<le> length (clusters up bytes at)" "at \<le> length bytes"
  shows "reads_until bytes at (boundary up bytes at k)"
proof (cases k)
  case (Suc j)
  have at: "at < length bytes" using clusters_bound [OF assms(1)] Suc by simp
  have "lhat_grapheme_next up bytes at \<le> boundary up bytes at k"
    unfolding Suc boundary_Suc using boundary_range [OF grapheme_next_le] by simp
  moreover have "at < lhat_grapheme_next up bytes at" by (rule grapheme_next_progress [OF at])
  moreover have "at + (1 + rest) \<le> lhat_grapheme_next up bytes at" if "decode_at bytes at = ITERATE rest cp" for rest cp
    using that at grapheme_loop_ge [of "at + (1 + rest)" up bytes cp 0] by (simp add: lhat_grapheme_next_def)
  ultimately show ?thesis
    unfolding reads_until_def by (fastforce split: Utf8Iterate.split)
qed (simp add: reads_until_def)

lemma clusters_take:
  "at \<le> length bytes \<Longrightarrow> k \<le> length (clusters up bytes at) \<Longrightarrow> n = boundary up bytes at k \<Longrightarrow>
    clusters up (take n bytes) at = take k (clusters up bytes at)"
proof (induction k arbitrary: at)
  case (Suc k)
  let ?to = "lhat_grapheme_next up bytes at"
  have at: "at < length bytes" using clusters_bound [OF Suc.prems(2)] by simp
  have to: "at < ?to" "?to \<le> length bytes"
    using grapheme_next_progress [OF at] grapheme_next_le by simp_all
  have k: "k \<le> length (clusters up bytes ?to)" using Suc.prems(2) by (simp add: clusters_step [OF at])
  have n: "n = boundary up bytes ?to k" using Suc.prems(3) by (simp only: boundary_Suc)
  then have le: "?to \<le> n" "n \<le> length bytes" using boundary_range [OF to(2)] by simp_all
  have "reads_until bytes ?to n" unfolding n by (rule reads_until_boundary [OF k to(2)])
  with next_take [OF le(2)] to(1) le(1) have same: "lhat_grapheme_next up (take n bytes) at = ?to" by simp
  have "at < length (take n bytes)" using to(1) le by simp
  then show ?case
    using Suc.IH [OF to(2) k n] le to(1) by (simp add: clusters_step at same drop_take min_def)
qed simp

lemma span_clusters:
  assumes "utf8proc_ok up" "at \<le> length bytes" "k \<le> length (clusters up bytes at)"
  shows "characters up (byte_span bytes at (boundary up bytes at k)) = take k (clusters up bytes at)"
    "characters_before up (byte_span bytes at (boundary up bytes at k)) = k"
proof -
  let ?n = "boundary up bytes at k"
  have n: "at \<le> ?n" "?n \<le> length bytes" using boundary_range [OF assms(2)] by simp_all
  have "byte_span bytes at ?n = drop at (take ?n bytes)" by (simp add: byte_span_def drop_take)
  then have "characters up (byte_span bytes at ?n) = clusters up (take ?n bytes) at"
    using clusters_drop [of at 0 "take ?n bytes" up] n by (simp add: characters_def)
  also have "\<dots> = take k (clusters up bytes at)" using clusters_take [OF assms(2,3)] by simp
  finally show "characters up (byte_span bytes at ?n) = take k (clusters up bytes at)" .
  then show "characters_before up (byte_span bytes at ?n) = k"
    using assms(3) grapheme_count_is [OF assms(1)] by (simp add: characters_before_def)
qed

subsection \<open>Searching\<close>

text \<open>A needle stands in front of a list of clusters if it is the bytes of the first few of them, and it
covers so many.\<close>

fun starts :: "byte list list \<Rightarrow> byte list \<Rightarrow> bool" where
  "starts cs [] = True"
| "starts [] (b # needle) = False"
| "starts (c # cs) (b # needle) =
     (length c \<le> length (b # needle) \<and> take (length c) (b # needle) = c \<and> starts cs (drop (length c) (b # needle)))"

fun covered :: "byte list list \<Rightarrow> byte list \<Rightarrow> nat" where
  "covered (c # cs) (b # needle) = Suc (covered cs (drop (length c) (b # needle)))"
| "covered cs needle = 0"

fun first_stand :: "byte list list \<Rightarrow> byte list \<Rightarrow> nat option" where
  "first_stand [] needle = (if needle = [] then Some 0 else None)"
| "first_stand (c # cs) needle = (if starts (c # cs) needle then Some 0 else map_option Suc (first_stand cs needle))"

lemma starts_Cons:
  "needle \<noteq> [] \<Longrightarrow> starts (c # cs) needle \<longleftrightarrow>
     length c \<le> length needle \<and> take (length c) needle = c \<and> starts cs (drop (length c) needle)"
  by (cases needle) simp_all

lemma covered_Cons: "needle \<noteq> [] \<Longrightarrow> covered (c # cs) needle = Suc (covered cs (drop (length c) needle))"
  by (cases needle) simp_all

lemma starts_covers:
  "starts cs needle \<Longrightarrow> concat (take (covered cs needle) cs) = needle \<and> covered cs needle \<le> length cs"
proof (induction cs needle rule: starts.induct)
  case (3 c cs b needle)
  then have "c = take (length c) (b # needle)"
    "concat (take (covered cs (drop (length c) (b # needle))) cs) = drop (length c) (b # needle)"
    "covered cs (drop (length c) (b # needle)) \<le> length cs" by auto
  then show ?case using append_take_drop_id [of "length c" "b # needle"] by simp
qed simp_all

lemma starts_length: "starts cs needle \<Longrightarrow> length needle \<le> length (concat cs)"
  by (induction cs needle rule: starts.induct) auto

lemma first_stand_length: "first_stand cs needle = Some k \<Longrightarrow> length needle \<le> length (concat cs)"
  by (induction cs arbitrary: k) (auto split: if_splits dest!: starts_length)

lemma first_stand_some:
  "first_stand cs needle = Some k \<Longrightarrow> k \<le> length cs \<and> starts (drop k cs) needle"
  by (induction cs arbitrary: k) (auto split: if_splits)

lemma span_end_step:
  "at < past \<Longrightarrow> at < length bytes \<Longrightarrow> span_end up bytes past at = span_end up bytes past (lhat_grapheme_next up bytes at)"
  by (subst span_end.simps) simp

lemma span_end_ge: "at \<le> span_end up bytes past at"
proof (induction up bytes past at rule: span_end.induct)
  case (1 up bytes past at)
  show ?case
  proof (cases "at < past \<and> at < length bytes")
    case True
    then show ?thesis using 1 grapheme_next_progress [of at bytes up] by (subst span_end.simps) simp
  next
    case False
    then show ?thesis by (subst span_end.simps) auto
  qed
qed

lemma starts_at:
  "at \<le> length bytes \<Longrightarrow> starts (clusters up bytes at) needle \<longleftrightarrow>
    at + length needle \<le> length bytes \<and> take (length needle) (drop at bytes) = needle \<and>
    span_end up bytes (at + length needle) at = at + length needle"
proof (induction "length bytes - at" arbitrary: at needle rule: less_induct)
  case less
  consider "needle = []" | "needle \<noteq> []" "at = length bytes" | "needle \<noteq> []" "at < length bytes"
    using less.prems by linarith
  then show ?case
  proof cases
    case 1
    have "span_end up bytes at at = at" by (subst span_end.simps) simp
    then show ?thesis using 1 less.prems by simp
  next
    case 2
    then show ?thesis by (cases needle) simp_all
  next
    case 3
    let ?to = "lhat_grapheme_next up bytes at"
    let ?c = "take (?to - at) (drop at bytes)" and ?rest = "drop (?to - at) needle"
    have to: "at < ?to" "?to \<le> length bytes"
      using grapheme_next_progress [OF 3(2)] grapheme_next_le by simp_all
    have c: "length ?c = ?to - at" using to by simp
    have iff: "starts (clusters up bytes at) needle \<longleftrightarrow>
        ?to - at \<le> length needle \<and> take (?to - at) needle = ?c \<and> starts (clusters up bytes ?to) ?rest"
      unfolding clusters_step [OF 3(2)] starts_Cons [OF 3(1)] c by blast
    show ?thesis
    proof (cases "?to - at \<le> length needle")
      case False
      then have "span_end up bytes (at + length needle) at \<noteq> at + length needle"
        using span_end_step [of at "at + length needle" bytes up] 3 span_end_ge [of ?to up bytes "at + length needle"]
        by auto
      then show ?thesis using False iff by simp
    next
      case True
      have "length bytes - ?to < length bytes - at" using to 3(2) by linarith
      note rest = less.hyps [OF this to(2), of ?rest]
      have past: "?to + length ?rest = at + length needle" using True to by simp
      have "take (length needle) (drop at bytes) = ?c @ take (length ?rest) (drop ?to bytes)"
        using take_add [of "?to - at" "length ?rest" "drop at bytes"] True to by simp
      moreover have "needle = take (?to - at) needle @ ?rest" by simp
      ultimately have "take (length needle) (drop at bytes) = needle \<longleftrightarrow>
          take (?to - at) needle = ?c \<and> take (length ?rest) (drop ?to bytes) = ?rest"
        by (metis append_eq_append_conv c length_take min.absorb2 True)
      moreover have "span_end up bytes (at + length needle) at = span_end up bytes (at + length needle) ?to"
        using 3 by (intro span_end_step) simp_all
      ultimately show ?thesis using iff rest True unfolding past by auto
    qed
  qed
qed

lemma find_from_clusters:
  assumes "needle \<noteq> []"
  shows "at \<le> length bytes \<Longrightarrow>
    find_from up bytes needle at = map_option (boundary up bytes at) (first_stand (clusters up bytes at) needle)"
proof (induction "length bytes - at" arbitrary: at rule: less_induct)
  case less
  show ?case
  proof (cases "at + length needle \<le> length bytes")
    case False
    then have "first_stand (clusters up bytes at) needle = None"
      using first_stand_length [of "clusters up bytes at" needle] less.prems
      by (cases "first_stand (clusters up bytes at) needle") (auto simp: clusters_concat)
    then show ?thesis using False by (subst find_from.simps) simp
  next
    case True
    then have at: "at < length bytes" using assms by (cases needle) simp_all
    let ?to = "lhat_grapheme_next up bytes at"
    have to: "at < ?to" "?to \<le> length bytes"
      using grapheme_next_progress [OF at] grapheme_next_le by simp_all
    obtain c cs where c: "clusters up bytes at = c # cs" "cs = clusters up bytes ?to" using clusters_step [OF at] by simp
    have first: "take (length needle) (drop at bytes) = needle \<Longrightarrow> bytes ! at = needle ! 0"
      using assms at nth_take [of 0 "length needle" "drop at bytes"] by simp
    have stands: "bytes ! at = needle ! 0 \<and> take (length needle) (drop at bytes) = needle \<and>
        span_end up bytes (at + length needle) at = at + length needle \<longleftrightarrow> starts (c # cs) needle"
      using starts_at [OF less.prems, of up needle] first True c(1) by auto
    have step: "find_from up bytes needle at =
        (if starts (c # cs) needle then Some at else find_from up bytes needle ?to)"
      using True assms stands by (subst find_from.simps) simp
    have "length bytes - ?to < length bytes - at" using to at by linarith
    note rest = less.hyps [OF this to(2), folded c(2)]
    show ?thesis
      unfolding step c(1) using rest
      by (cases "first_stand cs needle") (auto simp: boundary_Suc simp del: funpow.simps)
  qed
qed

text \<open>A needle that stands at a boundary ends at one.\<close>

lemma covered_boundary:
  "at \<le> length bytes \<Longrightarrow> starts (clusters up bytes at) needle \<Longrightarrow>
    boundary up bytes at (covered (clusters up bytes at) needle) = at + length needle"
proof -
  assume at: "at \<le> length bytes" and s: "starts (clusters up bytes at) needle"
  let ?k = "covered (clusters up bytes at) needle"
  have k: "concat (take ?k (clusters up bytes at)) = needle" "?k \<le> length (clusters up bytes at)"
    using starts_covers [OF s] by simp_all
  have "byte_span bytes at (boundary up bytes at ?k) = needle" using boundary_span [OF k(2)] k(1) by simp
  then have "length (byte_span bytes at (boundary up bytes at ?k)) = length needle" by simp
  moreover have "at \<le> boundary up bytes at ?k" "boundary up bytes at ?k \<le> length bytes"
    using boundary_range [OF at] by simp_all
  ultimately show ?thesis by (simp add: byte_span_def)
qed

subsection \<open>Pieces\<close>

lemma join_Cons: "join_text sep (p # ps) = p @ (if ps = [] then [] else sep @ join_text sep ps)"
  by (cases ps) simp_all

lemma split_nonempty: "sep \<noteq> [] \<Longrightarrow> split_pieces up bytes sep at \<noteq> []"
  by (subst split_pieces.simps) (simp split: option.split)

lemma found_at:
  "sep \<noteq> [] \<Longrightarrow> find_bytes up bytes at sep = Some found \<Longrightarrow>
   at \<le> found \<and> drop at bytes = byte_span bytes at found @ sep @ drop (found + length sep) bytes"
proof -
  assume "sep \<noteq> []" "find_bytes up bytes at sep = Some found"
  then have f: "at \<le> found" "take (length sep) (drop found bytes) = sep"
    using find_from_some [of up bytes sep at found] by (simp_all add: find_bytes_def)
  have "drop at bytes = take (found - at) (drop at bytes) @ drop found bytes"
    using append_take_drop_id [of "found - at" "drop at bytes"] f(1) by simp
  moreover have "drop found bytes = sep @ drop (found + length sep) bytes"
    using append_take_drop_id [of "length sep" "drop found bytes"] f(2) by (simp add: add.commute)
  ultimately show ?thesis using f(1) by (simp add: byte_span_def)
qed

text \<open>The pieces with the separator between them are the string.\<close>

lemma split_joins: "join_text sep (split_pieces up bytes sep at) = drop at bytes"
proof (induction up bytes sep at rule: split_pieces.induct)
  case (1 up bytes sep at)
  consider "sep = []" "length bytes \<le> at" | "sep = []" "at < length bytes"
    | "sep \<noteq> []" "find_bytes up bytes at sep = None"
    | found where "sep \<noteq> []" "find_bytes up bytes at sep = Some found"
    by (metis not_le option.exhaust)
  then show ?case
  proof cases
    case 1
    then show ?thesis by (subst split_pieces.simps) simp
  next
    case 2
    let ?to = "lhat_grapheme_next up bytes at"
    have "join_text sep (split_pieces up bytes sep ?to) = drop ?to bytes" using "1.IH"(1) 2 by simp
    moreover have "drop at bytes = take (?to - at) (drop at bytes) @ drop ?to bytes"
      using append_take_drop_id [of "?to - at" "drop at bytes"] grapheme_next_progress [OF 2(2), of up] by simp
    moreover have "split_pieces up bytes sep at = byte_span bytes at ?to # split_pieces up bytes sep ?to"
      using 2 by (subst split_pieces.simps) (simp add: Let_def)
    moreover have "join_text sep (p # ps) = p @ join_text sep ps" for p ps using 2(1) by (simp add: join_Cons)
    ultimately show ?thesis by (simp add: byte_span_def)
  next
    case 3
    then show ?thesis by (subst split_pieces.simps) (simp add: byte_span_def)
  next
    case 4
    have "join_text sep (split_pieces up bytes sep (found + length sep)) = drop (found + length sep) bytes"
      using "1.IH"(2) 4 by simp
    then show ?thesis
      using 4 found_at [OF 4] split_nonempty [OF 4(1)] by (subst split_pieces.simps) (simp add: join_Cons)
  qed
qed

text \<open>To replace a needle is to split at it and to join with something else.\<close>

lemma replace_joins: "needle \<noteq> [] \<Longrightarrow> replace_from up bytes needle by at = join_text by (split_pieces up bytes needle at)"
proof (induction up bytes needle "by" at rule: replace_from.induct)
  case (1 up bytes needle "by" at)
  show ?case
  proof (cases "find_bytes up bytes at needle")
    case None
    then show ?thesis
      using "1.prems" by (subst replace_from.simps, subst split_pieces.simps) (simp add: byte_span_def)
  next
    case (Some found)
    then show ?thesis
      using "1.IH" [OF "1.prems" Some] "1.prems" split_nonempty [OF "1.prems"]
      by (subst replace_from.simps, subst split_pieces.simps) (simp add: join_Cons)
  qed
qed

lemma replace_none: "find_bytes up bytes at needle = None \<Longrightarrow> replace_from up bytes needle by at = drop at bytes"
  by (subst replace_from.simps) simp

end
