(* ===== verification/Lhat_StringList.thy ===== *)
theory Lhat_StringList
  imports Lhat_StringOk
begin

text \<open>
  The natives of a string over its list of grapheme clusters, and what a split leaves in a memory.
\<close>

subsection \<open>The walk over all stands\<close>

text \<open>The ordinals that a walk answers until it ends.\<close>

lemma findall_progress:
  assumes "findall_step up w = Some (ordinal, w')"
  shows "fw_next_byte w < fw_next_byte w' \<and> fw_next_byte w' \<le> length (fw_subject w) \<and>
    fw_subject w' = fw_subject w \<and> fw_needle w' = fw_needle w"
proof -
  have n: "fw_needle w \<noteq> []" using assms by (auto simp: findall_step_def)
  then obtain found where f: "find_bytes up (fw_subject w) (fw_next_byte w) (fw_needle w) = Some found"
    "w' = w\<lparr>fw_chars_before := fw_chars_before w' , fw_next_byte := found + length (fw_needle w)\<rparr>"
    using assms by (auto simp: findall_step_def Let_def split: option.splits)
  have le: "fw_next_byte w \<le> found" "found + length (fw_needle w) \<le> length (fw_subject w)"
    using f(1) n find_from_some [of up "fw_subject w" "fw_needle w" "fw_next_byte w" found] by (simp_all add: find_bytes_def)
  have "0 < length (fw_needle w)" using n by simp
  then have "fw_next_byte w < found + length (fw_needle w)" using le by linarith
  then show ?thesis using le by (subst (1 2 3 4) f(2)) simp
qed

function findall_run :: "LhatUtf8proc \<Rightarrow> FindWalk \<Rightarrow> LhatInteger list" where
  "findall_run up w =
     (case findall_step up w of None \<Rightarrow> [] | Some (ordinal, w') \<Rightarrow> ordinal # findall_run up w')"
  by pat_completeness auto
termination
proof (relation "measure (\<lambda>(up, w). length (fw_subject w) - fw_next_byte w)")
  fix up w a ordinal w'
  assume "findall_step up w = Some a" "(ordinal, w') = a"
  then show "((up, w'), up, w) \<in> measure (\<lambda>(up, w). length (fw_subject w) - fw_next_byte w)"
    using findall_progress [of up w ordinal w'] by auto
qed simp

declare findall_run.simps [simp del]

text \<open>The same in the list of clusters: from the cluster numbered \<open>i\<close> on, the stands that do not overlap.\<close>

function all_stands :: "nat \<Rightarrow> byte list list \<Rightarrow> byte list \<Rightarrow> nat list" where
  "all_stands i cs needle =
     (if needle = [] then []
      else
        case first_stand cs needle of
          None \<Rightarrow> []
        | Some k \<Rightarrow>
            let past = k + covered (drop k cs) needle
            in (i + k) # all_stands (i + past) (drop past cs) needle)"
  by pat_completeness auto
termination
proof (relation "measure (\<lambda>(i, cs, needle). length cs)")
  fix i :: nat and cs :: "byte list list" and needle :: "byte list" and k past :: nat
  assume n: "needle \<noteq> []" and f: "first_stand cs needle = Some k" and p: "past = k + covered (drop k cs) needle"
  have "starts (drop k cs) needle" using first_stand_some [OF f] by blast
  then obtain c cs' where "drop k cs = c # cs'" using n by (cases "drop k cs"; cases needle) auto
  then have "0 < past" "cs \<noteq> []" using n p by (auto simp: covered_Cons)
  then show "((i + past, drop past cs, needle), i, cs, needle) \<in> measure (\<lambda>(i, cs, needle). length cs)" by simp
qed simp

declare all_stands.simps [simp del]

lemma boundary_add: "boundary up bytes at (j + k) = boundary up bytes (boundary up bytes at j) k"
  by (metis add.commute comp_apply funpow_add)

lemma findall_is:
  assumes "utf8proc_ok up" "fw_needle w \<noteq> []"
  shows "fw_next_byte w = boundary up (fw_subject w) 0 (fw_chars_before w) \<Longrightarrow>
    fw_chars_before w \<le> length (characters up (fw_subject w)) \<Longrightarrow>
    findall_run up w = map word_of_nat
      (all_stands (fw_chars_before w) (drop (fw_chars_before w) (characters up (fw_subject w))) (fw_needle w))"
  using assms(2)
proof (induction "length (fw_subject w) - fw_next_byte w" arbitrary: w rule: less_induct)
  case less
  let ?bytes = "fw_subject w" and ?needle = "fw_needle w" and ?o = "fw_chars_before w" and ?at = "fw_next_byte w"
  have at: "?at \<le> length ?bytes" using boundary_range [of 0 ?bytes ?o up] less.prems(1) by simp
  have cs: "clusters up ?bytes ?at = drop ?o (characters up ?bytes)"
    unfolding characters_def less.prems(1) by (rule boundary_clusters)
  have found: "find_bytes up ?bytes ?at ?needle =
      map_option (boundary up ?bytes ?at) (first_stand (clusters up ?bytes ?at) ?needle)"
    using find_from_clusters [OF less.prems(3) at] less.prems(3) by (simp add: find_bytes_def)
  show ?case
  proof (cases "first_stand (clusters up ?bytes ?at) ?needle")
    case None
    then show ?thesis
      using found less.prems(3) cs by (subst findall_run.simps, subst all_stands.simps) (simp add: findall_step_def)
  next
    case (Some k)
    let ?found = "boundary up ?bytes ?at k" and ?k' = "covered (drop k (clusters up ?bytes ?at)) ?needle"
    have k: "k \<le> length (clusters up ?bytes ?at)" "starts (drop k (clusters up ?bytes ?at)) ?needle"
      using first_stand_some [OF Some] by simp_all
    have at': "?found \<le> length ?bytes" "?at \<le> ?found" using boundary_range [OF at, of k up] by simp_all
    have there: "clusters up ?bytes ?found = drop k (clusters up ?bytes ?at)" by (rule boundary_clusters)
    have past: "boundary up ?bytes ?found ?k' = ?found + length ?needle"
      using covered_boundary [OF at'(1), of up] k(2) there by simp
    have k': "?k' \<le> length (clusters up ?bytes ?found)" using starts_covers [OF k(2)] there by simp
    have before: "characters_before up (byte_span ?bytes ?at ?found) = k"
      by (rule span_clusters(2) [OF assms(1) at k(1)])
    have within: "characters_before up (byte_span ?bytes ?found (?found + length ?needle)) = ?k'"
      using span_clusters(2) [OF assms(1) at'(1) k'] past by simp
    let ?w = "w\<lparr>fw_chars_before := ?o + k + ?k', fw_next_byte := ?found + length ?needle\<rparr>"
    have step: "findall_step up w = Some (word_of_nat (?o + k), ?w)"
      using less.prems(3) found Some before within by (simp add: findall_step_def Let_def)
    have "?found + length ?needle = boundary up ?bytes 0 (?o + k + ?k')"
      by (simp only: boundary_add past flip: less.prems(1))
    moreover have "?o + k + ?k' \<le> length (characters up ?bytes)"
      using k(1) k' there cs less.prems(2) by simp
    moreover have "length ?bytes - fw_next_byte ?w < length ?bytes - ?at"
      using findall_progress [OF step] by simp linarith
    ultimately have "findall_run up ?w =
        map word_of_nat (all_stands (?o + k + ?k') (drop (?o + k + ?k') (characters up ?bytes)) ?needle)"
      using less.hyps [of ?w] less.prems(3) by simp
    then show ?thesis
      using step Some less.prems(3) unfolding cs
      by (subst findall_run.simps, subst all_stands.simps) (simp add: Let_def ac_simps)
  qed
qed

subsection \<open>The natives\<close>

lemma characters_count:
  assumes "utf8proc_ok up" "length (characters up bytes) < 2 ^ 32"
  shows "string_characters up bytes = length (characters up bytes)"
  using assms grapheme_count_is [of up bytes]
  by (simp add: string_characters_def unat_of_nat take_bit_nat_eq_self)

lemma byte_at_is:
  assumes "utf8proc_ok up" "length (characters up bytes) < 2 ^ 32"
  shows "lhat_string_byte_at up bytes k = boundary up bytes 0 (min k (length (characters up bytes)))"
proof -
  have "boundary up bytes 0 (length (characters up bytes)) = length bytes"
  proof -
    have "byte_span bytes 0 (boundary up bytes 0 (length (clusters up bytes 0))) = bytes"
      using boundary_span [of "length (clusters up bytes 0)" up bytes 0] by (simp add: clusters_concat)
    moreover have "boundary up bytes 0 (length (clusters up bytes 0)) \<le> length bytes"
      using boundary_range [of 0 bytes _ up] by simp
    ultimately show ?thesis by (simp add: byte_span_def characters_def)
  qed
  then show ?thesis
    using characters_count [OF assms] by (simp add: lhat_string_byte_at_def min_def)
qed

text \<open>Where a run of characters from one ordinal to another stands.\<close>

lemma substring_span:
  assumes "utf8proc_ok up" "length (characters up bytes) < 2 ^ 32" "start \<le> until" "until \<le> length (characters up bytes)"
  shows "byte_span bytes (lhat_string_byte_at up bytes start)
      ((lhat_grapheme_next up bytes ^^ (until - start)) (lhat_string_byte_at up bytes start)) =
    concat (take (until - start) (drop start (characters up bytes)))"
proof -
  have at: "lhat_string_byte_at up bytes start = boundary up bytes 0 start"
    using byte_at_is [OF assms(1,2)] assms(3,4) by (simp add: min_def)
  have "clusters up bytes (boundary up bytes 0 start) = drop start (characters up bytes)"
    unfolding characters_def by (rule boundary_clusters)
  then show ?thesis
    unfolding at using boundary_span [of "until - start" up bytes "boundary up bytes 0 start"] assms(4) by simp
qed

text \<open>A search from an ordinal.\<close>

lemma find_is:
  assumes "utf8proc_ok up" "length (characters up bytes) < 2 ^ 32"
  shows "map_option (\<lambda>found. characters_before up (byte_span bytes 0 found))
      (find_bytes up bytes (lhat_string_byte_at up bytes k) needle) =
    map_option (\<lambda>o'. min k (length (characters up bytes)) + o')
      (first_stand (drop k (characters up bytes)) needle)"
proof -
  let ?cs = "characters up bytes" and ?k = "min k (length (characters up bytes))"
  let ?at = "boundary up bytes 0 ?k"
  have at: "?at \<le> length bytes" using boundary_range [of 0 bytes _ up] by simp
  have there: "clusters up bytes ?at = drop k ?cs"
    unfolding boundary_clusters characters_def by (simp add: min_def)
  have found: "find_bytes up bytes ?at needle = map_option (boundary up bytes ?at) (first_stand (drop k ?cs) needle)"
  proof (cases "needle = []")
    case True
    have "first_stand cs [] = Some 0" for cs by (cases cs) simp_all
    then show ?thesis using True at by (simp add: find_bytes_def)
  next
    case False
    then show ?thesis using find_from_clusters [OF False at] there by (simp add: find_bytes_def)
  qed
  have "characters_before up (byte_span bytes 0 (boundary up bytes ?at j)) = ?k + j"
    if "first_stand (drop k ?cs) needle = Some j" for j
  proof -
    have "?k + j \<le> length (clusters up bytes 0)"
      using first_stand_some [OF that] by (auto simp: characters_def min_def)
    from span_clusters(2) [OF assms(1) _ this] show ?thesis by (simp add: boundary_add)
  qed
  then show ?thesis
    unfolding byte_at_is [OF assms] found by (cases "first_stand (drop k ?cs) needle") simp_all
qed

end
