(* ===== verification/Lhat_NativeProps.thy ===== *)
theory Lhat_NativeProps
  imports Lhat_NativeList Lhat_TableProps
begin

text \<open>
  The properties of the operations a program calls on a table, each with a closed instance.
\<close>

subsection \<open>Sequences of operations\<close>

fun run_natives ::
  "(LhatValue \<Rightarrow> byte list) \<Rightarrow> LhatCall \<Rightarrow> LhatValue \<Rightarrow> LhatMemory \<Rightarrow> addr \<Rightarrow> ListOp list \<Rightarrow>
   ((LhatRunStatus \<times> LhatNativeAnswer) list \<times> LhatMemory) option" where
  "run_natives spelling call self m a [] = Some ([], m)"
| "run_natives spelling call self m a (op # ops) = do {
     called \<leftarrow> vm_table_native spelling call self (fst (list_native op)) m a (snd (list_native op));
     (answers, m) \<leftarrow> run_natives spelling call self (nc_memory called) a ops;
     Some ((nc_status called, nc_answer called) # answers, m)
   }"

fun run_lists ::
  "addr \<Rightarrow> (addr \<Rightarrow> LhatValue list option) \<Rightarrow> LhatValue list \<Rightarrow> ListOp list \<Rightarrow>
   (LhatRunStatus \<times> LhatNativeAnswer) list \<times> LhatValue list" where
  "run_lists a others xs [] = ([], xs)"
| "run_lists a others xs (op # ops) =
     (let (status, answer, ys) = list_step a others op xs;
          (answers, zs) = run_lists a others ys ops
      in ((status, ANSWER_VALUE (case answer of Some v \<Rightarrow> v | None \<Rightarrow> VALUE_OBJECT (Some a))) # answers, zs))"

fun run_fits :: "addr \<Rightarrow> (addr \<Rightarrow> LhatValue list option) \<Rightarrow> LhatValue list \<Rightarrow> ListOp list \<Rightarrow> bool" where
  "run_fits a others xs [] = True"
| "run_fits a others xs (op # ops) =
     (step_fits a others op xs \<and> run_fits a others (snd (snd (list_step a others op xs))) ops)"

lemma run_natives_ok:
  assumes "list_at m a xs" "ample (me_store m)" "\<forall>b. b \<noteq> a \<longrightarrow> others b = runs_of m b" "run_fits a others xs ops"
  shows "\<exists>m'. run_natives spelling call self m a ops = Some (fst (run_lists a others xs ops), m') \<and>
    list_at m' a (snd (run_lists a others xs ops)) \<and> only_at a m m'"
  using assms
proof (induction ops arbitrary: m xs)
  case (Cons op ops)
  obtain status answer ys where s: "list_step a others op xs = (status, answer, ys)" by (metis prod_cases3)
  have "step_fits a others op xs" using Cons.prems(4) by simp
  from native_is_list_step [OF Cons.prems(1-3) this, of spelling call self] s obtain m1 where
    m1: "vm_table_native spelling call self (fst (list_native op)) m a (snd (list_native op)) =
        ended status (case answer of Some v \<Rightarrow> v | None \<Rightarrow> VALUE_OBJECT (Some a)) m1"
      "list_at m1 a ys" "only_at a m m1"
    by (auto simp: native_answers_def)
  have "\<forall>b. b \<noteq> a \<longrightarrow> others b = runs_of m1 b"
    using Cons.prems(3) only_elsewhere [OF m1(3)] by (simp add: runs_of_def)
  moreover have "ample (me_store m1)" "run_fits a others ys ops"
    using Cons.prems(2,4) only_ample [OF m1(3)] s by simp_all
  ultimately obtain m2 where
    m2: "run_natives spelling call self m1 a ops = Some (fst (run_lists a others ys ops), m2)"
      "list_at m2 a (snd (run_lists a others ys ops))" "only_at a m1 m2"
    using Cons.IH [OF m1(2)] by blast
  show ?case
    using m1 m2 s only_trans [OF m1(3) m2(3)] by (auto simp: ended_def Let_def split: prod.splits)
qed auto

text \<open>C6: The operations on a table that is a list are the list functions.  Whatever calls of push, insert,
  remove, pop, reverse, clear, resize, move and extend a program makes, in any order and with any
  ordinals, every call returns, ends and answers as the list function does, leaves the table the
  list that the functions leave, and changes no other object.\<close>

theorem natives_refine_lists:
  assumes "list_at m a xs" "ample (me_store m)" "run_fits a (runs_of m) xs ops"
  shows "\<exists>m'. run_natives spelling call self m a ops = Some (fst (run_lists a (runs_of m) xs ops), m') \<and>
    list_at m' a (snd (run_lists a (runs_of m) xs ops)) \<and> only_at a m m'"
  using run_natives_ok [OF assms(1,2) _ assms(3)] by simp

text \<open>A memory with a list of two at address 5 and room for one more object at 6.\<close>

definition sample_memory :: LhatMemory where
  "sample_memory = \<lparr>me_store = put_content sample_store 5
     (CONTENT_TABLE (new_table\<lparr>tb_array := [VALUE_INTEGER 7, VALUE_BOOL True], tb_array_capacity := 8\<rparr>)),
     me_fresh = [6]\<rparr>"

lemma sample_list: "list_at sample_memory 5 [VALUE_INTEGER 7, VALUE_BOOL True]"
  by (simp add: list_at_def sample_memory_def table_in_def table_at_def put_content_def plain_run_def new_table_def entry_pairs_def)

lemma sample_memory_ample: "ample (me_store sample_memory)"
  using sample_ample by (simp add: sample_memory_def)

definition sample_calls :: "ListOp list" where
  "sample_calls = [LIST_INSERT (- 1) (VALUE_INTEGER 9), LIST_EXTEND 5, LIST_REMOVE 0, LIST_REVERSE, LIST_MOVE 9 0]"

lemma sample_run: "run_lists 5 others [VALUE_INTEGER 7, VALUE_BOOL True] sample_calls =
  ([(LHAT_RUN_OK, ANSWER_VALUE (VALUE_OBJECT (Some 5))), (LHAT_RUN_OK, ANSWER_VALUE (VALUE_OBJECT (Some 5))),
    (LHAT_RUN_OK, ANSWER_VALUE (VALUE_INTEGER 7)), (LHAT_RUN_OK, ANSWER_VALUE (VALUE_OBJECT (Some 5))),
    (LHAT_RUN_BAD_KEY, ANSWER_VALUE (VALUE_OBJECT (Some 5)))],
   [VALUE_INTEGER 9, VALUE_BOOL True, VALUE_INTEGER 7, VALUE_INTEGER 9, VALUE_BOOL True])"
  by (simp add: sample_calls_def placed_def insert_at_def remove_at_def)

theorem natives_refine_lists_witness:
  "\<exists>answers m. run_natives (\<lambda>_. []) (\<lambda>_ _. (LHAT_RUN_OK, VALUE_NIL)) VALUE_NIL sample_memory 5 sample_calls =
      Some (answers, m) \<and>
    list_at m 5 [VALUE_INTEGER 9, VALUE_BOOL True, VALUE_INTEGER 7, VALUE_INTEGER 9, VALUE_BOOL True] \<and>
    answers ! 2 = (LHAT_RUN_OK, ANSWER_VALUE (VALUE_INTEGER 7)) \<and> fst (answers ! 4) = LHAT_RUN_BAD_KEY"
proof -
  have "run_fits 5 (runs_of sample_memory) [VALUE_INTEGER 7, VALUE_BOOL True] sample_calls"
    by (simp add: sample_calls_def step_fits_def placed_def insert_at_def remove_at_def)
  from natives_refine_lists [OF sample_list sample_memory_ample this] show ?thesis
    unfolding sample_run by fastforce
qed

text \<open>The ordinal that an insert was given undoes it.  Whatever the sign of the ordinal, if the insert
  ends well then removing with the same ordinal answers the value and gives back the list.\<close>

theorem insert_remove_round_trip:
  assumes "list_at m a xs" "ample (me_store m)" "length xs < 2 ^ 63 - 2"
    "- (int (length xs) + 1) \<le> sint i" "sint i \<le> int (length xs)"
  shows "\<exists>m'. run_natives spelling call self m a [LIST_INSERT i v, LIST_REMOVE i] =
      Some ([(LHAT_RUN_OK, ANSWER_VALUE (VALUE_OBJECT (Some a))), (LHAT_RUN_OK, ANSWER_VALUE v)], m') \<and>
    list_at m' a xs"
proof -
  let ?p = "placed i (length xs + 1)"
  have p: "\<not> (?p < 0 \<or> int (length xs) < ?p)" "nat ?p \<le> length xs"
    using assms(4,5) by (auto simp: placed_def)
  have one: "list_step a others (LIST_INSERT i v) xs = (LHAT_RUN_OK, None, insert_at (nat ?p) v xs)" for others
    using p by (simp add: Let_def)
  have len: "length (insert_at (nat ?p) v xs) = length xs + 1" using p(2) by simp
  then have two: "list_step a others (LIST_REMOVE i) (insert_at (nat ?p) v xs) = (LHAT_RUN_OK, Some v, xs)" for others
    using p by (simp add: Let_def insert_at_hd remove_insert)
  have "run_fits a (runs_of m) xs [LIST_INSERT i v, LIST_REMOVE i]"
    using one two len assms(3) by (simp add: step_fits_def del: list_step.simps)
  from run_natives_ok [OF assms(1,2) _ this, of spelling call self] one two show ?thesis
    by (auto simp del: list_step.simps)
qed

theorem insert_remove_round_trip_witness:
  "\<exists>m. run_natives (\<lambda>_. []) (\<lambda>_ _. (LHAT_RUN_OK, VALUE_NIL)) VALUE_NIL sample_memory 5
      [LIST_INSERT (- 2) (VALUE_INTEGER 9), LIST_REMOVE (- 2)] =
      Some ([(LHAT_RUN_OK, ANSWER_VALUE (VALUE_OBJECT (Some 5))), (LHAT_RUN_OK, ANSWER_VALUE (VALUE_INTEGER 9))], m) \<and>
    list_at m 5 [VALUE_INTEGER 7, VALUE_BOOL True]"
  by (rule insert_remove_round_trip [OF sample_list sample_memory_ample]) simp_all

text \<open>C10: A slice is the elements between two ordinals, a clone is every element sent through the policy,
  and concatenation is the one list after the other: each stands in a new table, and no other table is
  changed.\<close>

theorem copies_are_lists:
  assumes "list_at m a xs" "list_at m c ys" "ample (me_store m)" "me_fresh m = b # rest"
    "length xs + length ys < 2 ^ 63" "policy_ends call policy xs"
  shows "(\<exists>m'. vm_table_native spelling call self LHAT_NATIVE_SLICE m a [VALUE_INTEGER i, VALUE_INTEGER j] =
        ended LHAT_RUN_OK (VALUE_OBJECT (Some b)) m' \<and>
      copied m m' (let p = placed i (length xs); q = placed j (length xs)
        in if 0 \<le> p \<and> p \<le> q \<and> q < int (length xs) then drop (nat p) (take (nat q + 1) xs) else [])) \<and>
    (\<exists>m'. vm_table_native spelling call self LHAT_NATIVE_CLONE m a [policy] =
        ended LHAT_RUN_OK (VALUE_OBJECT (Some b)) m' \<and> copied m m' (map (through call policy) xs)) \<and>
    (\<exists>m'. vm_concat_tables self m (the (table_in m a)) (the (table_in m c)) = Some (Some b, False, m') \<and>
      copied m m' (xs @ ys))"
proof -
  obtain t u where t: "table_in m a = Some t" "plain_run t" "tb_array t = xs"
    and u: "table_in m c = Some u" "plain_run u" "tb_array u = ys"
    using assms(1,2) by (auto simp: list_at_def)
  have n: "length xs < 2 ^ 63" "array_count t + array_count u < 2 ^ 63" using assms(5) t(3) u(3) by simp_all
  show ?thesis
    using slice_answers [OF assms(1,3,4) n(1)] clone_answers [OF assms(1,3,4) n(1) assms(6)]
      concat_answers [OF t(2) u(2) assms(3,4) n(2)] t u by simp
qed

theorem copies_are_lists_witness:
  "(\<exists>m. vm_table_native (\<lambda>_. []) (\<lambda>f args. (LHAT_RUN_OK, VALUE_OBJECT (Some 5))) VALUE_NIL LHAT_NATIVE_CLONE
      sample_memory 5 [VALUE_OBJECT (Some 4)] = ended LHAT_RUN_OK (VALUE_OBJECT (Some 6)) m \<and>
      copied sample_memory m [VALUE_OBJECT (Some 5), VALUE_OBJECT (Some 5)]) \<and>
   (\<exists>m. vm_table_native (\<lambda>_. []) (\<lambda>f args. (LHAT_RUN_OK, VALUE_OBJECT (Some 5))) VALUE_NIL LHAT_NATIVE_SLICE
      sample_memory 5 [VALUE_INTEGER (- 1), VALUE_INTEGER 1] = ended LHAT_RUN_OK (VALUE_OBJECT (Some 6)) m \<and>
      copied sample_memory m [VALUE_BOOL True])"
proof -
  let ?call = "\<lambda>f args. (LHAT_RUN_OK, VALUE_OBJECT (Some 5))"
  have "policy_ends ?call (VALUE_OBJECT (Some 4)) [VALUE_INTEGER 7, VALUE_BOOL True]" by (simp add: policy_ends_def)
  with copies_are_lists [OF sample_list sample_list sample_memory_ample, of 6 "[]" ?call "VALUE_OBJECT (Some 4)"
      "\<lambda>_. []" VALUE_NIL "- 1" 1]
  show ?thesis by (simp add: sample_memory_def through_def placed_def)
qed

end
