(* ===== verification/Lhat_StringProps.thy ===== *)
theory Lhat_StringProps
  imports Lhat_StringList Lhat_NativeProps
begin

text \<open>
  What the operations on a string compute, over its grapheme clusters.
\<close>

subsection \<open>A part of the table of code points\<close>

text \<open>The carriage return, the line feed and the marks from \<open>U+0300\<close> to \<open>U+036F\<close> have the classes that
\<open>utf8proc_data.c\<close> gives them; the others have none of their own, which is true of the letters used below.\<close>

definition sample_boundclass :: "int \<Rightarrow> nat" where
  "sample_boundclass cp =
     (if cp = 13 then UTF8PROC_BOUNDCLASS_CR
      else if cp = 10 then UTF8PROC_BOUNDCLASS_LF
      else if 0x300 \<le> cp \<and> cp \<le> 0x36F then UTF8PROC_BOUNDCLASS_EXTEND
      else UTF8PROC_BOUNDCLASS_OTHER)"

definition sample_utf8proc :: LhatUtf8proc where
  "sample_utf8proc =
     \<lparr>up_boundclass = sample_boundclass, up_indic_conjunct_break = \<lambda>_. UTF8PROC_INDIC_CONJUNCT_BREAK_NONE\<rparr>"

lemma sample_utf8proc_ok: "utf8proc_ok sample_utf8proc"
  by (simp add: utf8proc_ok_def sample_utf8proc_def sample_boundclass_def)

text \<open>An e with an acute accent, twice, with an a between.\<close>

definition accents :: "byte list" where
  "accents = [0x65, 0xCC, 0x81, 0x61, 0x65, 0xCC, 0x81]"

lemma accents_characters: "characters sample_utf8proc accents = [[0x65, 0xCC, 0x81], [0x61], [0x65, 0xCC, 0x81]]"
  by code_simp

subsection \<open>The pieces of a split\<close>

lemma put_pieces_list:
  assumes "list_at m table xs" "ample (me_store m)" "length pieces \<le> length (me_fresh m)"
    "distinct (table # me_fresh m)" "length xs + length pieces < 2 ^ 63"
  shows "\<exists>m'. put_pieces self m table (length xs) pieces = Some (True, m') \<and>
    list_at m' table (xs @ map (\<lambda>a. VALUE_OBJECT (Some a)) (take (length pieces) (me_fresh m))) \<and>
    me_fresh m' = drop (length pieces) (me_fresh m) \<and>
    (\<forall>i < length pieces. st_content (me_store m') (me_fresh m ! i) = string_content (pieces ! i)) \<and>
    (\<forall>b. b \<noteq> table \<and> b \<notin> set (me_fresh m) \<longrightarrow> st_content (me_store m') b = st_content (me_store m) b)"
  using assms
proof (induction pieces arbitrary: m xs)
  case (Cons piece pieces)
  obtain a fresh where f: "me_fresh m = a # fresh" using Cons.prems(3) by (cases "me_fresh m") auto
  define m1 where "m1 = \<lparr>me_store = put_content (me_store m) a (string_content piece), me_fresh = fresh\<rparr>"
  have a: "a \<noteq> table" "a \<notin> set fresh" "table \<notin> set fresh" using Cons.prems(4) f by auto
  have new: "object_new m (string_content piece) = Some (a, m1)" by (simp add: object_new_def f m1_def)
  have "list_at m1 table xs"
    using Cons.prems(1) a by (simp add: list_at_def table_in_def table_at_def m1_def put_elsewhere)
  moreover have "ample (me_store m1)" using Cons.prems(2) by (simp add: m1_def)
  ultimately obtain m2 where m2:
    "vm_set_key self m1 table (VALUE_INTEGER (word_of_nat (length xs))) (VALUE_OBJECT (Some a)) = Some (WRITE True False m2)"
    "list_at m2 table (put_at (length xs) (VALUE_OBJECT (Some a)) xs)" "only_at table m1 m2"
    using set_key_list [of m1 table xs "length xs"] Cons.prems(5) by fastforce
  let ?xs = "xs @ [VALUE_OBJECT (Some a)]"
  have at: "list_at m2 table ?xs" using m2(2) by (simp add: put_at_def)
  have fresh: "me_fresh m2 = fresh" using m2(3) by (auto simp: only_at_def m1_def)
  have kept: "st_content (me_store m2) b = (if b = a then string_content piece else st_content (me_store m) b)"
    if "b \<noteq> table" for b
    using that m2(3) by (auto simp: only_at_def m1_def put_elsewhere) (simp_all add: put_content_def)
  obtain m' where m': "put_pieces self m2 table (length ?xs) pieces = Some (True, m')"
    "list_at m' table (?xs @ map (\<lambda>a. VALUE_OBJECT (Some a)) (take (length pieces) fresh))"
    "me_fresh m' = drop (length pieces) fresh"
    "\<forall>i < length pieces. st_content (me_store m') (fresh ! i) = string_content (pieces ! i)"
    "\<forall>b. b \<noteq> table \<and> b \<notin> set fresh \<longrightarrow> st_content (me_store m') b = st_content (me_store m2) b"
    using Cons.IH [OF at] Cons.prems a fresh f only_ample [OF m2(3)] m1_def by auto
  have "st_content (me_store m') a = string_content piece" using m'(5) a kept by simp
  then have "\<forall>i < length (piece # pieces). st_content (me_store m') (me_fresh m ! i) = string_content ((piece # pieces) ! i)"
    using m'(4) f by (auto simp: nth_Cons split: nat.split)
  then show ?case
    using new m2(1) m' f kept by auto
qed auto

lemma string_at_some:
  "string_at m v = Some bytes \<longleftrightarrow>
     (\<exists>a h. v = VALUE_OBJECT (Some a) \<and> st_content (me_store m) a = CONTENT_STRING bytes h)"
  by (auto simp: string_at_def split: option.splits LhatContent.splits elim!: content_of.elims intro: sym)

lemma answered_string:
  assumes "me_fresh m = b # rest"
  shows "\<exists>m'. answer_string m bytes = string_ended LHAT_RUN_OK (VALUE_OBJECT (Some b)) m' \<and>
    string_at m' (VALUE_OBJECT (Some b)) = Some bytes"
  using assms by (auto simp: answer_string_def object_new_def string_ended_def string_at_some put_content_def string_content_def)

lemma split_answers:
  assumes "string_at m s = Some bytes" "string_at m sep = Some sep_bytes" "ample (me_store m)"
    "length (split_pieces up bytes sep_bytes 0) < length (me_fresh m)" "distinct (me_fresh m)"
    "length (split_pieces up bytes sep_bytes 0) < 2 ^ 63" "\<And>a. sep = VALUE_OBJECT (Some a) \<Longrightarrow> a \<notin> set (me_fresh m)"
  shows "\<exists>m1 ys. vm_string_native up self LHAT_NATIVE_SPLIT m s [sep] =
      string_ended LHAT_RUN_OK (VALUE_OBJECT (Some (hd (me_fresh m)))) m1 \<and>
    list_at m1 (hd (me_fresh m)) ys \<and> map (string_at m1) ys = map Some (split_pieces up bytes sep_bytes 0) \<and>
    string_at m1 sep = Some sep_bytes \<and> me_fresh m1 = drop (length ys + 1) (me_fresh m)"
proof -
  let ?pieces = "split_pieces up bytes sep_bytes 0"
  obtain table rest where f: "me_fresh m = table # rest" using assms(4) by (cases "me_fresh m") auto
  obtain m1 where m1: "object_new m (CONTENT_TABLE new_table) = Some (table, m1)" "list_at m1 table []" "ample (me_store m1)"
    by (rule table_new_list [OF f assms(3)])
  have m1_is: "m1 = \<lparr>me_store = put_content (me_store m) table (CONTENT_TABLE new_table), me_fresh = rest\<rparr>"
    using m1(1) f by (simp add: object_new_def)
  have fresh: "me_fresh m1 = rest" by (simp add: m1_is)
  have "length ?pieces \<le> length (me_fresh m1)" "distinct (table # me_fresh m1)" "length ([] :: LhatValue list) + length ?pieces < 2 ^ 63"
    using assms(4-6) f by (simp_all add: m1_is)
  from put_pieces_list [OF m1(2,3) this, of self, unfolded fresh list.size append_Nil] obtain m2 where m2:
    "put_pieces self m1 table 0 ?pieces = Some (True, m2)"
    "list_at m2 table (map (\<lambda>a. VALUE_OBJECT (Some a)) (take (length ?pieces) rest))"
    "me_fresh m2 = drop (length ?pieces) rest"
    "\<forall>i < length ?pieces. st_content (me_store m2) (rest ! i) = string_content (?pieces ! i)"
    "\<forall>b. b \<noteq> table \<and> b \<notin> set rest \<longrightarrow> st_content (me_store m2) b = st_content (me_store m1) b"
    by blast
  let ?ys = "map (\<lambda>a. VALUE_OBJECT (Some a)) (take (length ?pieces) rest)"
  have "map (string_at m2) ?ys = map Some ?pieces"
    using m2(4) assms(4) f
    by (auto intro!: nth_equalityI simp: string_at_some string_content_def)
  moreover have "string_at m2 sep = Some sep_bytes"
  proof -
    obtain c h where c: "sep = VALUE_OBJECT (Some c)" "st_content (me_store m) c = CONTENT_STRING sep_bytes h"
      using assms(2) by (auto simp: string_at_some)
    then have "c \<noteq> table" "c \<notin> set rest" using assms(7) f by auto
    then show ?thesis using c m2(5) by (simp add: string_at_some m1_is put_elsewhere)
  qed
  moreover have "length ?ys = length ?pieces" using assms(4) f by simp
  ultimately show ?thesis
    using m1(1) m2(1-3) f assms(1,2)
    by (auto simp: vm_string_native_def native_split_def string_ended_def intro!: exI [of _ m2] exI [of _ ?ys])
qed

lemma join_answers:
  assumes "list_at m a ys" "map (string_at m) ys = map Some pieces" "string_at m sep = Some sep_bytes" "me_fresh m = b # rest"
  shows "\<exists>m'. vm_table_native spelling call self LHAT_NATIVE_JOIN m a [sep] = ended LHAT_RUN_OK (VALUE_OBJECT (Some b)) m' \<and>
    string_at m' (VALUE_OBJECT (Some b)) = Some (join_text sep_bytes pieces)"
proof -
  obtain t where t: "table_in m a = Some t" "plain_run t" "tb_array t = ys" using assms(1) by (auto simp: list_at_def)
  obtain c h where c: "sep = VALUE_OBJECT (Some c)" "st_content (me_store m) c = CONTENT_STRING sep_bytes h"
    using assms(3) by (auto simp: string_at_some)
  have piece: "join_piece spelling (me_store m) v = Some p" if "string_at m v = Some p" for v p
    using that by (auto simp: join_piece_def string_at_some)
  have "map (join_piece spelling (me_store m)) ys = map Some pieces"
    using assms(2) piece by (induction ys arbitrary: pieces) auto
  moreover have "map the (map Some pieces) = pieces" by (simp add: o_def)
  ultimately show ?thesis
    using t c assms(4)
    by (auto simp: vm_table_native_def native_join_def table_join_def Let_def object_new_def string_at_some
        put_content_def plain_run_def ended_def)
qed

subsection \<open>Properties\<close>

text \<open>C26: The count of a string is the number of its grapheme clusters.  The count takes runs of ASCII
  without asking the library; what it skips so are the clusters that the walk finds, and these cut the
  string into pieces of at least one byte, none lost and none twice.\<close>

theorem grapheme_count_exact:
  assumes "utf8proc_ok up"
  shows "lhat_grapheme_count up bytes = length (characters up bytes) \<and>
    concat (characters up bytes) = bytes \<and> [] \<notin> set (characters up bytes)"
  using grapheme_count_is [OF assms] clusters_nonempty by (simp add: characters_def clusters_concat)

theorem grapheme_count_exact_witness: "lhat_grapheme_count sample_utf8proc accents = 3"
  using grapheme_count_exact [OF sample_utf8proc_ok, of accents] by (simp add: accents_characters)

text \<open>C23: To split a string and join the pieces with the same separator gives the string back, whatever the
  separator, the empty one included, and whatever the table of code points holds.\<close>

theorem split_join_round_trip:
  assumes "string_at m s = Some bytes" "string_at m sep = Some sep_bytes" "ample (me_store m)" "distinct (me_fresh m)"
    "length (split_pieces up bytes sep_bytes 0) + 1 < length (me_fresh m)"
    "length (split_pieces up bytes sep_bytes 0) < 2 ^ 63" "\<And>a. sep = VALUE_OBJECT (Some a) \<Longrightarrow> a \<notin> set (me_fresh m)"
  shows "\<exists>pieces m1 joined m2.
    vm_string_native up self LHAT_NATIVE_SPLIT m s [sep] = string_ended LHAT_RUN_OK (VALUE_OBJECT (Some pieces)) m1 \<and>
    vm_table_native spelling call self LHAT_NATIVE_JOIN m1 pieces [sep] = ended LHAT_RUN_OK joined m2 \<and>
    string_at m2 joined = Some bytes"
proof -
  have room: "length (split_pieces up bytes sep_bytes 0) < length (me_fresh m)" using assms(5) by simp
  obtain m1 ys where m1: "vm_string_native up self LHAT_NATIVE_SPLIT m s [sep] =
      string_ended LHAT_RUN_OK (VALUE_OBJECT (Some (hd (me_fresh m)))) m1"
    "list_at m1 (hd (me_fresh m)) ys" "map (string_at m1) ys = map Some (split_pieces up bytes sep_bytes 0)"
    "string_at m1 sep = Some sep_bytes" "me_fresh m1 = drop (length ys + 1) (me_fresh m)"
    using split_answers [OF assms(1-3) room assms(4,6,7), of self] by blast
  have "length ys = length (split_pieces up bytes sep_bytes 0)" using arg_cong [OF m1(3), of length] by simp
  then obtain b rest where "me_fresh m1 = b # rest" using assms(5) m1(5) by (cases "me_fresh m1") (auto dest: sym)
  from join_answers [OF m1(2-4) this, of spelling call self] split_joins [of sep_bytes up bytes 0] m1(1)
  show ?thesis by fastforce
qed

text \<open>The accents at 10 and an a at 11, with eight addresses to give.\<close>

definition sample_strings :: LhatMemory where
  "sample_strings = \<lparr>me_store = put_content (put_content sample_store 10 (string_content accents)) 11 (string_content [0x61]),
     me_fresh = [20, 21, 22, 23, 24, 25, 26, 27]\<rparr>"

lemma sample_strings_at:
  "string_at sample_strings (VALUE_OBJECT (Some 10)) = Some accents"
  "string_at sample_strings (VALUE_OBJECT (Some 11)) = Some [0x61]"
  "ample (me_store sample_strings)"
  using sample_ample by (simp_all add: string_at_some sample_strings_def string_content_def put_content_def ample_def)

lemma accents_split: "split_pieces sample_utf8proc accents [0x61] 0 = [[0x65, 0xCC, 0x81], [0x65, 0xCC, 0x81]]"
  by code_simp

theorem split_join_round_trip_witness:
  "\<exists>pieces m1 joined m2.
    vm_string_native sample_utf8proc VALUE_NIL LHAT_NATIVE_SPLIT sample_strings (VALUE_OBJECT (Some 10)) [VALUE_OBJECT (Some 11)] =
      string_ended LHAT_RUN_OK (VALUE_OBJECT (Some pieces)) m1 \<and>
    vm_table_native (\<lambda>_. []) (\<lambda>_ _. (LHAT_RUN_OK, VALUE_NIL)) VALUE_NIL LHAT_NATIVE_JOIN m1 pieces [VALUE_OBJECT (Some 11)] =
      ended LHAT_RUN_OK joined m2 \<and>
    string_at m2 joined = Some accents"
  by (rule split_join_round_trip [OF sample_strings_at])
    (simp_all add: accents_split, simp_all add: sample_strings_def)

text \<open>C24: Replacing a needle that is not empty is splitting at it and joining with what is put instead.  A
  string without the needle is answered itself.\<close>

theorem replace_is_split_join:
  assumes "string_at m s = Some bytes" "string_at m needle = Some needle_bytes" "needle_bytes \<noteq> []"
    "string_at m instead = Some by_bytes" "me_fresh m = b # rest"
  shows "\<exists>answer m'. vm_string_native up self LHAT_NATIVE_REPLACE m s [needle, instead] =
      string_ended LHAT_RUN_OK answer m' \<and>
    string_at m' answer = Some (join_text by_bytes (split_pieces up bytes needle_bytes 0)) \<and>
    (find_bytes up bytes 0 needle_bytes = None \<longrightarrow> answer = s \<and> m' = m)"
proof (cases "find_bytes up bytes 0 needle_bytes")
  case None
  then have "join_text by_bytes (split_pieces up bytes needle_bytes 0) = bytes"
    using replace_joins [OF assms(3), of up bytes by_bytes 0] replace_none [of up bytes 0 needle_bytes by_bytes] by simp
  then show ?thesis
    using assms None by (simp add: vm_string_native_def native_replace_def string_ended_def)
next
  case (Some found)
  then show ?thesis
    using assms(1-4) answered_string [OF assms(5), of "replace_from up bytes needle_bytes by_bytes 0"]
      replace_joins [OF assms(3), of up bytes by_bytes 0]
    by (auto simp: vm_string_native_def native_replace_def)
qed

theorem replace_is_split_join_witness:
  "\<exists>answer m. vm_string_native sample_utf8proc VALUE_NIL LHAT_NATIVE_REPLACE sample_strings (VALUE_OBJECT (Some 10))
      [VALUE_OBJECT (Some 11), VALUE_OBJECT (Some 10)] = string_ended LHAT_RUN_OK answer m \<and>
    string_at m answer = Some ([0x65, 0xCC, 0x81] @ accents @ [0x65, 0xCC, 0x81])"
  using replace_is_split_join [OF sample_strings_at(1,2) _ sample_strings_at(1), of 20 _ sample_utf8proc VALUE_NIL]
  by (simp add: accents_split sample_strings_def) blast

text \<open>C21: A search answers the ordinal of the first character, at or after the ordinal it starts from, at
  which the needle stands as whole characters, and nil where there is none.\<close>

theorem find_is_first_stand:
  assumes "utf8proc_ok up" "string_at m s = Some bytes" "string_at m needle = Some needle_bytes"
    "length (characters up bytes) < 2 ^ 32"
  shows "vm_string_native up self LHAT_NATIVE_FIND m s [needle, VALUE_INTEGER i] =
    string_ended LHAT_RUN_OK
      (let cs = characters up bytes; k = min (nat (placed i (length cs))) (length cs)
       in case first_stand (drop k cs) needle_bytes of
            None \<Rightarrow> VALUE_NIL
          | Some j \<Rightarrow> VALUE_INTEGER (word_of_nat (k + j))) m"
proof -
  let ?n = "length (characters up bytes)"
  let ?from = "if sint (vm_resolve_ordinal i ?n) < 0 then 0 else unat (vm_resolve_ordinal i ?n)"
  have n: "string_characters up bytes = ?n" by (rule characters_count [OF assms(1,4)])
  have p: "sint (vm_resolve_ordinal i ?n) = placed i ?n" using assms(4) by (intro placed_is) simp
  have from': "?from = nat (placed i ?n)"
    using p unat_of_sint(2) [of "vm_resolve_ordinal i ?n"] by simp
  let ?byte = "lhat_string_byte_at up bytes (nat (placed i ?n))"
  have at: "\<not> nat (placed i ?n) \<le> ?n \<Longrightarrow> ?byte = length bytes"
    using n by (simp add: lhat_string_byte_at_def)
  have "native_find up m bytes needle_bytes [needle, VALUE_INTEGER i] = string_ended LHAT_RUN_OK
      (case find_bytes up bytes ?byte needle_bytes of
         None \<Rightarrow> VALUE_NIL
       | Some found \<Rightarrow> VALUE_INTEGER (word_of_nat (characters_before up (byte_span bytes 0 found)))) m"
    unfolding native_find_def by (simp add: n Let_def from' at)
  moreover have "drop (nat (placed i ?n)) (characters up bytes) =
      drop (min (nat (placed i ?n)) ?n) (characters up bytes)"
    by (simp add: min_def)
  ultimately show ?thesis
    using find_is [OF assms(1,4), of "nat (placed i ?n)" needle_bytes] assms(2,3)
    by (auto simp: vm_string_native_def Let_def split: option.splits)
qed

text \<open>An e of its own does not stand in the accents, and an a stands second, counted from either end.\<close>

theorem find_is_first_stand_witness:
  "vm_string_native sample_utf8proc VALUE_NIL LHAT_NATIVE_FIND sample_strings (VALUE_OBJECT (Some 10))
     [VALUE_OBJECT (Some 11), VALUE_INTEGER (- 2)] = string_ended LHAT_RUN_OK (VALUE_INTEGER 1) sample_strings \<and>
   first_stand (characters sample_utf8proc accents) [0x65] = None"
  using find_is_first_stand [OF sample_utf8proc_ok sample_strings_at(1,2), of VALUE_NIL "- 2"]
  by (simp add: accents_characters placed_def Let_def)

text \<open>C22: The walk that a search for all stands answers gives the ordinals of the stands one after the other,
  those that overlap an earlier one left out, and it ends.\<close>

theorem findall_is_all_stands:
  assumes "utf8proc_ok up" "string_at m s = Some bytes" "string_at m needle = Some needle_bytes" "needle_bytes \<noteq> []"
    "me_fresh m = b # rest"
  shows "\<exists>walk m'. vm_string_native up self LHAT_NATIVE_FINDALL m s [needle] =
      Some \<lparr>sc_status = LHAT_RUN_OK, sc_answer = STRING_FINDALL walk, sc_memory = m'\<rparr> \<and>
    findall_run up walk = map word_of_nat (all_stands 0 (characters up bytes) needle_bytes)"
  using findall_is [OF assms(1), of "\<lparr>fw_subject = bytes, fw_next_byte = 0, fw_chars_before = 0, fw_needle = needle_bytes\<rparr>"] assms
  by (simp add: vm_string_native_def answer_walk_def object_new_def)

theorem findall_is_all_stands_witness:
  "\<exists>walk m. vm_string_native sample_utf8proc VALUE_NIL LHAT_NATIVE_FINDALL sample_strings (VALUE_OBJECT (Some 10))
      [VALUE_OBJECT (Some 11)] = Some \<lparr>sc_status = LHAT_RUN_OK, sc_answer = STRING_FINDALL walk, sc_memory = m\<rparr> \<and>
    findall_run sample_utf8proc walk = [1]"
proof -
  have "all_stands 0 (characters sample_utf8proc accents) [0x61] = [1]"
    unfolding accents_characters by code_simp
  then show ?thesis
    using findall_is_all_stands [OF sample_utf8proc_ok sample_strings_at(1,2), of 20 _ VALUE_NIL]
    by (simp add: sample_strings_def)
qed

text \<open>C25: A substring is the characters from one ordinal to another, both counted from the end where they are
  negative, and the empty string where they name no run.\<close>

theorem substring_is_characters:
  assumes "utf8proc_ok up" "string_at m s = Some bytes" "length (characters up bytes) < 2 ^ 32" "me_fresh m = b # rest"
  shows "\<exists>answer m'. vm_string_native up self LHAT_NATIVE_SUBSTRING m s [VALUE_INTEGER i, VALUE_INTEGER j] =
      string_ended LHAT_RUN_OK answer m' \<and>
    string_at m' answer = Some
      (let cs = characters up bytes; p = placed i (length cs); q = placed j (length cs)
       in if 0 \<le> p \<and> p \<le> q \<and> q < int (length cs) then concat (drop (nat p) (take (nat q + 1) cs)) else [])"
proof -
  let ?cs = "characters up bytes" and ?n = "length (characters up bytes)"
  let ?p = "placed i ?n" and ?q = "placed j ?n"
  have n: "string_characters up bytes = ?n" by (rule characters_count [OF assms(1,3)])
  have r: "sint (vm_resolve_ordinal i ?n) = ?p" "sint (vm_resolve_ordinal j ?n) = ?q"
    using assms(3) by (auto intro!: placed_is)
  show ?thesis
  proof (cases "?p < 0 \<or> ?q < ?p \<or> int ?n \<le> ?q")
    case True
    then show ?thesis
      using answered_string [OF assms(4), of "[]"] assms(2) n r
      by (auto simp: vm_string_native_def native_substring_def Let_def)
  next
    case False
    have u: "unat (vm_resolve_ordinal i ?n) = nat ?p" "unat (vm_resolve_ordinal j ?n) = nat ?q"
      using False r by (simp_all add: unat_of_sint(2))
    have zero: "vm_resolve_ordinal i ?n = 0 \<longleftrightarrow> ?p = 0" using r(1) by (metis signed_0 signed_eq_0_iff)
    let ?run = "concat (drop (nat ?p) (take (nat ?q + 1) ?cs))"
    have run: "byte_span bytes (lhat_string_byte_at up bytes (nat ?p))
        (boundary up bytes (lhat_string_byte_at up bytes (nat ?p)) (nat ?q + 1 - nat ?p)) = ?run"
      using substring_span [OF assms(1,3), of "nat ?p" "nat ?q + 1"] False by (simp add: take_drop) linarith
    show ?thesis
    proof (cases "?p = 0 \<and> ?q = int ?n - 1")
      case True
      then have "?run = bytes" by (simp add: characters_def clusters_concat)
      then show ?thesis
        using True False assms(2) n r zero
        by (auto simp: vm_string_native_def native_substring_def string_ended_def Let_def)
    next
      case ends: False
      then show ?thesis
        using False answered_string [OF assms(4), of ?run] assms(2) n r u zero run
        by (auto simp: vm_string_native_def native_substring_def Let_def)
    qed
  qed
qed

theorem substring_is_characters_witness:
  "\<exists>answer m. vm_string_native sample_utf8proc VALUE_NIL LHAT_NATIVE_SUBSTRING sample_strings (VALUE_OBJECT (Some 10))
      [VALUE_INTEGER 0, VALUE_INTEGER (- 2)] = string_ended LHAT_RUN_OK answer m \<and>
    string_at m answer = Some [0x65, 0xCC, 0x81, 0x61]"
proof -
  have "me_fresh sample_strings = 20 # [21, 22, 23, 24, 25, 26, 27]" by (simp add: sample_strings_def)
  from substring_is_characters [OF sample_utf8proc_ok sample_strings_at(1) _ this, of VALUE_NIL 0 "- 2"]
  show ?thesis by (simp add: accents_characters placed_def Let_def)
qed

end
