(* ===== verification/Lhat_Arith.thy ===== *)
theory Lhat_Arith
  imports Lhat_TableNative "HOL-Library.Signed_Division"
begin

text \<open>
  The instructions on numbers (\<open>src/vm.c\<close>): arithmetic that stays in the integers while it can and
  widens to reals where it cannot, the bits of whole numbers, the orderings and equalities, and the
  numeric loop.  A double is computed on its bits; of the C library's \<open>pow\<close> nothing is known, it is
  the parameter \<open>libm_pow\<close>.  What C leaves undefined is an outcome of its own.
\<close>

subsection \<open>Doubles\<close>

text \<open>The bits of a number of units that a double can hold; of a NaN, one of those there are.\<close>

definition real_bits :: "bool \<Rightarrow> nat \<Rightarrow> nat \<Rightarrow> LhatReal" where
  "real_bits negative exponent fraction =
     word_of_nat ((if negative then 2 ^ 63 else 0) + exponent * 2 ^ 52 + fraction)"

definition real_of_float :: "bool \<Rightarrow> LhatFloat \<Rightarrow> LhatReal" where
  "real_of_float minus_zero f =
     (case f of
        FLOAT_NAN \<Rightarrow> real_bits False 2047 (2 ^ 51)
      | FLOAT_INF negative \<Rightarrow> real_bits negative 2047 0
      | FLOAT u \<Rightarrow>
          let n = nat \<bar>u\<bar>; negative = (u < 0 \<or> u = 0 \<and> minus_zero); k = bit_count n
          in if k \<le> 52 then real_bits negative 0 n
             else real_bits negative (k - 52) (n div 2 ^ (k - 53) - 2 ^ 52))"

text \<open>A sum that is zero is \<open>-0.0\<close> only where both are.\<close>

definition real_add :: "LhatReal \<Rightarrow> LhatReal \<Rightarrow> LhatReal" where
  "real_add a b = real_of_float (real_negative a \<and> real_negative b) (float_add (real_value a) (real_value b))"

definition real_minus :: "LhatReal \<Rightarrow> LhatReal \<Rightarrow> LhatReal" where
  "real_minus a b =
     real_of_float (real_negative a \<and> \<not> real_negative b) (float_minus (real_value a) (real_value b))"

definition real_times :: "LhatReal \<Rightarrow> LhatReal \<Rightarrow> LhatReal" where
  "real_times a b =
     real_of_float (real_negative a \<noteq> real_negative b) (float_times (real_value a) (real_value b))"

text \<open>A quotient of two finite doubles is rounded as a literal is.\<close>

definition real_divide :: "LhatReal \<Rightarrow> LhatReal \<Rightarrow> LhatReal" where
  "real_divide a b =
     (let negative = (real_negative a \<noteq> real_negative b)
      in case (real_value a, real_value b) of
           (FLOAT x, FLOAT y) \<Rightarrow>
             if y = 0 then real_of_float False (if x = 0 then FLOAT_NAN else FLOAT_INF negative)
             else real_bits negative 0 0 OR nearest_double (nat \<bar>x\<bar>) (nat \<bar>y\<bar>)
         | (FLOAT x, FLOAT_INF _) \<Rightarrow> real_bits negative 0 0
         | (FLOAT_INF _, FLOAT y) \<Rightarrow> real_bits negative 2047 0
         | _ \<Rightarrow> real_of_float False FLOAT_NAN)"

text \<open>The whole doubles: \<open>floor\<close>, \<open>ceil\<close> and \<open>nearbyint\<close> in its default mode.  A result of zero keeps the
sign of the argument.\<close>

definition whole_double :: "(int \<Rightarrow> int) \<Rightarrow> LhatReal \<Rightarrow> LhatReal" where
  "whole_double toward r =
     (case real_value r of
        FLOAT u \<Rightarrow> real_of_float (real_negative r) (FLOAT (toward u * REAL_ONE))
      | f \<Rightarrow> r)"

definition float_ceil :: "int \<Rightarrow> int" where
  "float_ceil u = - (- u div REAL_ONE)"

definition float_nearby :: "int \<Rightarrow> int" where
  "float_nearby u =
     (let n = int (round_half_even (nat \<bar>u\<bar>) (2 ^ 1074)) in if u < 0 then - n else n)"

definition real_floor :: "LhatReal \<Rightarrow> LhatReal" where
  "real_floor = whole_double float_floor"

definition real_of_integer :: "LhatInteger \<Rightarrow> LhatReal" where
  "real_of_integer i = real_of_float False (float_of_integer i)"

text \<open>\<open>lhat_number_as_real\<close>, to the bit.\<close>

fun number_as_real :: "LhatValue \<Rightarrow> LhatReal" where
  "number_as_real (VALUE_INTEGER i) = real_of_integer i"
| "number_as_real (VALUE_REAL r) = r"
| "number_as_real v = 0"

subsection \<open>Arithmetic\<close>

definition add_exact :: "LhatInteger \<Rightarrow> LhatInteger \<Rightarrow> LhatInteger option" where
  "add_exact x y =
     (let total = x + y in if sint ((x XOR total) AND (y XOR total)) < 0 then None else Some total)"

definition subtract_exact :: "LhatInteger \<Rightarrow> LhatInteger \<Rightarrow> LhatInteger option" where
  "subtract_exact x y =
     (let difference = x - y
      in if sint ((x XOR y) AND (x XOR difference)) < 0 then None else Some difference)"

definition INT64_MIN :: LhatInteger where
  "INT64_MIN = 0x8000000000000000"

definition multiply_exact :: "LhatInteger \<Rightarrow> LhatInteger \<Rightarrow> LhatInteger option" where
  "multiply_exact x y =
     (if x = 0 \<or> y = 0 then Some 0
      else
        let product = x * y
        in if x = - 1 \<and> y = INT64_MIN then None
           else if sint product sdiv sint x \<noteq> sint y then None
           else Some product)"

datatype LhatOpcode =
    LHAT_BC_ADD | LHAT_BC_SUB | LHAT_BC_MUL | LHAT_BC_DIV | LHAT_BC_IDIV | LHAT_BC_MOD | LHAT_BC_POW
  | LHAT_BC_NEG | LHAT_BC_NOT | LHAT_BC_BNOT | LHAT_BC_BAND | LHAT_BC_BOR | LHAT_BC_BXOR | LHAT_BC_BSHIFT
  | LHAT_BC_EQ | LHAT_BC_SAME | LHAT_BC_NE | LHAT_BC_LT | LHAT_BC_LE | LHAT_BC_GT | LHAT_BC_GE
  | LHAT_BC_SPACESHIP

text \<open>A value, a fault, or undefined: a signed overflow in C, and a division that traps.\<close>

datatype LhatOutcome = OUTCOME LhatValue | FAULT LhatRunStatus | UNDEFINED

text \<open>\<open>r *= base\<close>, so many count, of two integers and of two doubles.\<close>

fun integer_power :: "nat \<Rightarrow> LhatInteger \<Rightarrow> LhatInteger \<Rightarrow> LhatInteger option" where
  "integer_power 0 base r = Some r"
| "integer_power (Suc count) base r =
     (if fits_int64 (sint r * sint base) then integer_power count base (r * base) else None)"

fun double_power :: "nat \<Rightarrow> LhatReal \<Rightarrow> LhatReal \<Rightarrow> LhatReal" where
  "double_power 0 base r = r"
| "double_power (Suc count) base r = double_power count base (real_times r base)"

definition real_one :: LhatReal where
  "real_one = real_bits False 1023 0"

text \<open>\<open>fabs(a) > 0.00000001\<close>.\<close>

definition power_base :: "LhatReal \<Rightarrow> bool" where
  "power_base a \<longleftrightarrow>
     float_less (real_value (nearest_double 1 (10 ^ 8)))
       (case real_value a of FLOAT u \<Rightarrow> FLOAT \<bar>u\<bar> | FLOAT_INF _ \<Rightarrow> FLOAT_INF False | f \<Rightarrow> f)"

definition arithmetic_pow :: "(LhatReal \<Rightarrow> LhatReal \<Rightarrow> LhatReal) \<Rightarrow> LhatValue \<Rightarrow> LhatValue \<Rightarrow> LhatOutcome" where
  "arithmetic_pow libm_pow left right =
     (let a = number_as_real left; b = number_as_real right
      in case right of
           VALUE_INTEGER count \<Rightarrow>
             if count = 0 then OUTCOME (VALUE_INTEGER 1)
             else
               (case left of
                  VALUE_INTEGER base \<Rightarrow>
                    if 0 < sint count \<and> sint count \<le> 100 then
                      (if base = 0 then OUTCOME (VALUE_INTEGER 0)
                       else
                         case integer_power (nat (sint count)) base 1 of
                           Some r \<Rightarrow> OUTCOME (VALUE_INTEGER r)
                         | None \<Rightarrow> UNDEFINED)
                    else if power_base a \<and> sint count \<le> 100 \<and> - 100 \<le> sint count then
                      OUTCOME (VALUE_REAL (real_divide real_one (double_power (nat (- sint count)) a real_one)))
                    else OUTCOME (VALUE_REAL (libm_pow a b))
                | _ \<Rightarrow>
                    if power_base a \<and> sint count \<le> 100 \<and> - 100 \<le> sint count then
                      let r = double_power (nat \<bar>sint count\<bar>) a real_one
                      in OUTCOME (VALUE_REAL (if sint count < 0 then real_divide real_one r else r))
                    else OUTCOME (VALUE_REAL (libm_pow a b)))
         | _ \<Rightarrow> OUTCOME (VALUE_REAL (libm_pow a b)))"

definition arithmetic ::
  "(LhatReal \<Rightarrow> LhatReal \<Rightarrow> LhatReal) \<Rightarrow> LhatOpcode \<Rightarrow> LhatValue \<Rightarrow> LhatValue \<Rightarrow> LhatOutcome" where
  "arithmetic libm_pow op left right =
     (if \<not> lhat_is_number left \<or> \<not> lhat_is_number right then FAULT LHAT_RUN_TYPE_ERROR
      else
        let a = number_as_real left; b = number_as_real right;
            widen = (\<lambda>exact operation.
              case (left, right) of
                (VALUE_INTEGER x, VALUE_INTEGER y) \<Rightarrow>
                  (case exact x y of
                     Some whole \<Rightarrow> OUTCOME (VALUE_INTEGER whole)
                   | None \<Rightarrow> OUTCOME (VALUE_REAL (operation a b)))
              | _ \<Rightarrow> OUTCOME (VALUE_REAL (operation a b)));
            floored = real_floor (real_divide a b);
            in_reals = OUTCOME (VALUE_REAL
              (if op = LHAT_BC_IDIV then floored else real_minus a (real_times floored b)))
        in case op of
             LHAT_BC_ADD \<Rightarrow> widen add_exact real_add
           | LHAT_BC_SUB \<Rightarrow> widen subtract_exact real_minus
           | LHAT_BC_MUL \<Rightarrow> widen multiply_exact real_times
           | LHAT_BC_DIV \<Rightarrow> OUTCOME (VALUE_REAL (real_divide a b))
           | LHAT_BC_POW \<Rightarrow> arithmetic_pow libm_pow left right
           | _ \<Rightarrow>
               if op = LHAT_BC_IDIV \<or> op = LHAT_BC_MOD then
                 (case (left, right) of
                    (VALUE_INTEGER x, VALUE_INTEGER y) \<Rightarrow>
                      if float_equal (real_value b) float_zero then in_reals
                      else if x = INT64_MIN \<and> y = - 1 then UNDEFINED
                      else
                        let quotient = sint x sdiv sint y; remainder = sint x smod sint y;
                            adjust = (remainder \<noteq> 0 \<and> (remainder < 0) \<noteq> (sint y < 0))
                        in OUTCOME (VALUE_INTEGER (word_of_int
                             (if op = LHAT_BC_IDIV then (if adjust then quotient - 1 else quotient)
                              else (if adjust then remainder + sint y else remainder))))
                  | _ \<Rightarrow> in_reals)
               else FAULT LHAT_RUN_TYPE_ERROR)"

subsection \<open>Orderings\<close>

definition ordering :: "LhatStore \<Rightarrow> LhatOpcode \<Rightarrow> LhatValue \<Rightarrow> LhatValue \<Rightarrow> bool option" where
  "ordering st op left right =
     (case vm_three_way st left right of
        None \<Rightarrow> None
      | Some outcome \<Rightarrow>
          (case op of
             LHAT_BC_LT \<Rightarrow> Some (outcome < 0)
           | LHAT_BC_LE \<Rightarrow> Some (outcome \<le> 0)
           | LHAT_BC_GT \<Rightarrow> Some (outcome > 0)
           | LHAT_BC_GE \<Rightarrow> Some (outcome \<ge> 0)
           | _ \<Rightarrow> None))"

subsection \<open>The instructions\<close>

text \<open>What an instruction comes to: a value in its register, the operator that an operand carries, which
is a call, or what \<open>LhatOutcome\<close> says.\<close>

datatype LhatStep = STEP_VALUE LhatValue | STEP_OPERATOR | STEP_FAULT LhatRunStatus | STEP_UNDEFINED

fun is_hostvalue :: "LhatValue \<Rightarrow> bool" where
  "is_hostvalue VALUE_HOSTVALUE = True"
| "is_hostvalue v = False"

definition carries_operators :: "LhatStore \<Rightarrow> LhatValue \<Rightarrow> bool" where
  "carries_operators st v \<longleftrightarrow> vm_table_of st v \<noteq> None \<or> is_hostvalue v"

text \<open>\<open>VM_ARITH_FAST\<close>: a pair of one representation.\<close>

fun arith_fast ::
  "(LhatInteger \<Rightarrow> LhatInteger \<Rightarrow> LhatInteger option) \<Rightarrow> (LhatReal \<Rightarrow> LhatReal \<Rightarrow> LhatReal) \<Rightarrow>
   LhatValue \<Rightarrow> LhatValue \<Rightarrow> LhatValue option" where
  "arith_fast exact oper (VALUE_INTEGER x) (VALUE_INTEGER y) = map_option VALUE_INTEGER (exact x y)"
| "arith_fast exact oper (VALUE_REAL r) (VALUE_REAL s) = Some (VALUE_REAL (oper r s))"
| "arith_fast exact oper v w = None"

definition arith_fast_of :: "LhatOpcode \<Rightarrow> LhatValue \<Rightarrow> LhatValue \<Rightarrow> LhatValue option" where
  "arith_fast_of op left right =
     (case op of
        LHAT_BC_ADD \<Rightarrow> arith_fast add_exact real_add left right
      | LHAT_BC_SUB \<Rightarrow> arith_fast subtract_exact real_minus left right
      | LHAT_BC_MUL \<Rightarrow> arith_fast multiply_exact real_times left right
      | _ \<Rightarrow> None)"

text \<open>The right operand is a register or, with \<open>k_right\<close>, a constant, which carries no operators.\<close>

definition step_arithmetic ::
  "(LhatReal \<Rightarrow> LhatReal \<Rightarrow> LhatReal) \<Rightarrow> LhatStore \<Rightarrow> bool \<Rightarrow> LhatOpcode \<Rightarrow> LhatValue \<Rightarrow> LhatValue \<Rightarrow> LhatStep" where
  "step_arithmetic libm_pow st k_right op left right =
     (case arith_fast_of op left right of
        Some v \<Rightarrow> STEP_VALUE v
      | None \<Rightarrow>
          (case arithmetic libm_pow op left right of
             OUTCOME v \<Rightarrow> STEP_VALUE v
           | UNDEFINED \<Rightarrow> STEP_UNDEFINED
           | FAULT status \<Rightarrow>
               if status \<noteq> LHAT_RUN_TYPE_ERROR \<or>
                  \<not> (carries_operators st left \<or> \<not> k_right \<and> carries_operators st right)
               then STEP_FAULT status else STEP_OPERATOR))"

definition step_negate :: "LhatValue \<Rightarrow> LhatStep" where
  "step_negate v =
     (case v of
        VALUE_INTEGER i \<Rightarrow>
          (case subtract_exact 0 i of
             Some negated \<Rightarrow> STEP_VALUE (VALUE_INTEGER negated)
           | None \<Rightarrow> STEP_VALUE (VALUE_REAL (real_negate (number_as_real v))))
      | VALUE_REAL r \<Rightarrow> STEP_VALUE (VALUE_REAL (real_negate r))
      | _ \<Rightarrow> STEP_OPERATOR)"

definition step_not :: "LhatValue \<Rightarrow> LhatStep" where
  "step_not v = (case v of VALUE_BOOL x \<Rightarrow> STEP_VALUE (VALUE_BOOL (\<not> x)) | _ \<Rightarrow> STEP_FAULT LHAT_RUN_TYPE_ERROR)"

definition step_bits_not :: "LhatStore \<Rightarrow> LhatValue \<Rightarrow> LhatStep" where
  "step_bits_not st v =
     (case lhat_number_as_whole st v of
        Some x \<Rightarrow> STEP_VALUE (VALUE_INTEGER (NOT x))
      | None \<Rightarrow> STEP_FAULT LHAT_RUN_TYPE_ERROR)"

definition bits_of_op :: "LhatOpcode \<Rightarrow> LhatInteger \<Rightarrow> LhatInteger \<Rightarrow> LhatInteger" where
  "bits_of_op op u v =
     (if op = LHAT_BC_BAND then u AND v
      else if op = LHAT_BC_BOR then u OR v
      else if op = LHAT_BC_BXOR then u XOR v
      else if 64 \<le> sint v \<or> sint v \<le> - 64 then 0
      else if 0 \<le> sint v then push_bit (nat (sint v)) u
      else drop_bit (nat (- sint v)) u)"

definition step_bits :: "LhatStore \<Rightarrow> LhatOpcode \<Rightarrow> LhatValue \<Rightarrow> LhatValue \<Rightarrow> LhatStep" where
  "step_bits st op left right =
     (case (lhat_number_as_whole st left, lhat_number_as_whole st right) of
        (Some x, Some y) \<Rightarrow> STEP_VALUE (VALUE_INTEGER (bits_of_op op x y))
      | _ \<Rightarrow> STEP_FAULT LHAT_RUN_TYPE_ERROR)"

definition step_equal :: "LhatStore \<Rightarrow> bool \<Rightarrow> LhatOpcode \<Rightarrow> LhatValue \<Rightarrow> LhatValue \<Rightarrow> LhatStep" where
  "step_equal st k_right op left right =
     (if carries_operators st left \<or> \<not> k_right \<and> carries_operators st right then STEP_OPERATOR
      else STEP_VALUE (VALUE_BOOL
        (lhat_value_close st left right LHAT_NUMBER_TOLERANCE = (op = LHAT_BC_EQ))))"

definition step_same :: "LhatValue \<Rightarrow> LhatValue \<Rightarrow> LhatStep" where
  "step_same left right =
     (case lhat_value_same left right of
        Some same \<Rightarrow> STEP_VALUE (VALUE_BOOL same)
      | None \<Rightarrow> STEP_FAULT LHAT_RUN_TYPE_ERROR)"

text \<open>\<open>VM_ORDER_FAST\<close>.\<close>

fun order_fast :: "LhatOpcode \<Rightarrow> LhatValue \<Rightarrow> LhatValue \<Rightarrow> bool option" where
  "order_fast op (VALUE_INTEGER x) (VALUE_INTEGER y) =
     (case op of
        LHAT_BC_LT \<Rightarrow> Some (sint x < sint y)
      | LHAT_BC_LE \<Rightarrow> Some (sint x \<le> sint y)
      | LHAT_BC_GT \<Rightarrow> Some (sint y < sint x)
      | LHAT_BC_GE \<Rightarrow> Some (sint y \<le> sint x)
      | _ \<Rightarrow> None)"
| "order_fast op v w = None"

definition step_order :: "LhatStore \<Rightarrow> LhatOpcode \<Rightarrow> LhatValue \<Rightarrow> LhatValue \<Rightarrow> LhatStep" where
  "step_order st op left right =
     (case order_fast op left right of
        Some answer \<Rightarrow> STEP_VALUE (VALUE_BOOL answer)
      | None \<Rightarrow>
          (case ordering st op left right of
             Some answer \<Rightarrow> STEP_VALUE (VALUE_BOOL answer)
           | None \<Rightarrow> STEP_OPERATOR))"

definition step_spaceship :: "LhatStore \<Rightarrow> LhatValue \<Rightarrow> LhatValue \<Rightarrow> LhatStep" where
  "step_spaceship st left right =
     (case vm_three_way st left right of
        Some outcome \<Rightarrow> STEP_VALUE (VALUE_INTEGER (word_of_int outcome))
      | None \<Rightarrow> STEP_OPERATOR)"

text \<open>The one dispatch over them.  For \<open>NEG\<close>, \<open>NOT\<close> and \<open>BNOT\<close> there is no right operand.\<close>

definition vm_step ::
  "(LhatReal \<Rightarrow> LhatReal \<Rightarrow> LhatReal) \<Rightarrow> LhatStore \<Rightarrow> bool \<Rightarrow> LhatOpcode \<Rightarrow> LhatValue \<Rightarrow> LhatValue \<Rightarrow> LhatStep" where
  "vm_step libm_pow st k_right op left right =
     (case op of
        LHAT_BC_NEG \<Rightarrow> step_negate left
      | LHAT_BC_NOT \<Rightarrow> step_not left
      | LHAT_BC_BNOT \<Rightarrow> step_bits_not st left
      | LHAT_BC_BAND \<Rightarrow> step_bits st op left right
      | LHAT_BC_BOR \<Rightarrow> step_bits st op left right
      | LHAT_BC_BXOR \<Rightarrow> step_bits st op left right
      | LHAT_BC_BSHIFT \<Rightarrow> step_bits st op left right
      | LHAT_BC_EQ \<Rightarrow> step_equal st k_right op left right
      | LHAT_BC_NE \<Rightarrow> step_equal st k_right op left right
      | LHAT_BC_SAME \<Rightarrow> step_same left right
      | LHAT_BC_LT \<Rightarrow> step_order st op left right
      | LHAT_BC_LE \<Rightarrow> step_order st op left right
      | LHAT_BC_GT \<Rightarrow> step_order st op left right
      | LHAT_BC_GE \<Rightarrow> step_order st op left right
      | LHAT_BC_SPACESHIP \<Rightarrow> step_spaceship st left right
      | _ \<Rightarrow> step_arithmetic libm_pow st k_right op left right)"

subsection \<open>The numeric loop\<close>

definition check_step :: "LhatValue \<Rightarrow> LhatRunStatus" where
  "check_step step =
     (case step of
        VALUE_INTEGER i \<Rightarrow> if 0 < sint i then LHAT_RUN_OK else LHAT_RUN_BAD_STEP
      | VALUE_REAL r \<Rightarrow> if float_less float_zero (real_value r) then LHAT_RUN_OK else LHAT_RUN_BAD_STEP
      | _ \<Rightarrow> LHAT_RUN_BAD_STEP)"

text \<open>Whether the loop is entered, where its three registers are numbers.\<close>

definition for_prep :: "LhatStore \<Rightarrow> bool \<Rightarrow> LhatValue \<Rightarrow> LhatValue \<Rightarrow> LhatValue \<Rightarrow> bool option" where
  "for_prep st down focus bound step =
     (if \<not> lhat_is_number focus \<or> \<not> lhat_is_number bound \<or> \<not> lhat_is_number step then None
      else ordering st (if down then LHAT_BC_GE else LHAT_BC_LE) focus bound)"

text \<open>The focus after a turn and whether there is another one.  Three integers count in integers
(\<open>VM_FORLOOP_FAST\<close>), where an overflow leaves the focus as it was.\<close>

definition for_loop ::
  "(LhatReal \<Rightarrow> LhatReal \<Rightarrow> LhatReal) \<Rightarrow> LhatStore \<Rightarrow> bool \<Rightarrow> LhatValue \<Rightarrow> LhatValue \<Rightarrow> LhatValue \<Rightarrow>
   (LhatValue \<times> bool) option" where
  "for_loop libm_pow st down focus bound step =
     (let generic =
        (case arithmetic libm_pow (if down then LHAT_BC_SUB else LHAT_BC_ADD) focus step of
           OUTCOME moved \<Rightarrow>
             Some (moved, ordering st (if down then LHAT_BC_GE else LHAT_BC_LE) moved bound = Some True)
         | _ \<Rightarrow> None)
      in case (focus, bound, step) of
           (VALUE_INTEGER i, VALUE_INTEGER b, VALUE_INTEGER s) \<Rightarrow>
             (case (if down then subtract_exact i s else add_exact i s) of
                Some moved \<Rightarrow>
                  Some (VALUE_INTEGER moved, if down then sint b \<le> sint moved else sint moved \<le> sint b)
              | None \<Rightarrow> Some (focus, False))
         | _ \<Rightarrow> generic)"

end
