(* ===== verification/Lhat_ArithOk.thy ===== *)
theory Lhat_ArithOk
  imports Lhat_Arith
begin

text \<open>
  What the instructions on numbers compute: the bits of a double against its value, the exact
  operations on integers against those of \<open>int\<close>, the floor division, the orderings and the loop.
\<close>

subsection \<open>The bits of a double\<close>

lemma real_bits_fields:
  assumes "e < 2048" "f < 2 ^ 52"
  shows "real_negative (real_bits negative e f) = negative" "real_exponent (real_bits negative e f) = e"
    "real_fraction (real_bits negative e f) = f"
proof -
  let ?t = "if negative then 1 else 0 :: nat"
  have n: "(if negative then 2 ^ 63 else 0) + e * 2 ^ 52 + f = (?t * 2 ^ 11 + e) * 2 ^ 52 + f" by simp
  have "(?t * 2 ^ 11 + e) * 2 ^ 52 + f < 2 ^ 64" using assms by (simp split: if_split)
  then have u: "unat (real_bits negative e f) = (?t * 2 ^ 11 + e) * 2 ^ 52 + f"
    unfolding real_bits_def n by (simp only: unat_of_nat take_bit_nat_eq_self_iff) simp
  have d: "unat (real_bits negative e f) div 2 ^ 52 = ?t * 2 ^ 11 + e" using assms(2) unfolding u by simp
  show "real_exponent (real_bits negative e f) = e"
    using assms(1) unfolding real_exponent_def d by simp
  show "real_fraction (real_bits negative e f) = f"
    using assms(2) unfolding real_fraction_def u by (simp only: mod_mult_self3 mod_less)
  show "real_negative (real_bits negative e f) = negative"
    using assms unfolding real_negative_def u by (simp split: if_split)
qed

lemma value_of_fields:
  assumes "real_exponent r = e" "real_fraction r = f" "real_negative r = negative" "e < 2047"
  shows "real_value r =
    (let n = int (if e = 0 then f else (f + 2 ^ 52) * 2 ^ (e - 1)) in FLOAT (if negative then - n else n))"
  using assms by (simp add: real_value_def real_units_def Let_def)

lemma real_bits_value:
  assumes "e < 2047" "f < 2 ^ 52"
  shows "real_value (real_bits negative e f) =
    (let n = int (if e = 0 then f else (f + 2 ^ 52) * 2 ^ (e - 1)) in FLOAT (if negative then - n else n))"
  using assms real_bits_fields [of e f negative] by (intro value_of_fields) simp_all

text \<open>The numbers of units that a double holds.\<close>

definition double_holds :: "int \<Rightarrow> bool" where
  "double_holds u \<longleftrightarrow> (\<exists>m e. nat \<bar>u\<bar> = m * 2 ^ e \<and> m < 2 ^ 53) \<and> nat \<bar>u\<bar> < 2 ^ 2098"

lemma value_of_bits:
  assumes "double_holds u"
  shows "real_value (real_of_float z (FLOAT u)) = FLOAT u"
proof -
  define n where "n = nat \<bar>u\<bar>"
  define k where "k = bit_count n"
  let ?s = "u < 0 \<or> u = 0 \<and> z"
  obtain m e where m: "n = m * 2 ^ e" "m < 2 ^ 53" and n: "n < 2 ^ 2098"
    using assms by (auto simp: double_holds_def n_def)
  have units: "FLOAT (if ?s then - int n else int n) = FLOAT u" by (auto simp: n_def)
  show ?thesis
  proof (cases "k \<le> 52")
    case True
    then have "n < 2 ^ 52" using bit_count_le [of n 52] by (simp add: k_def)
    then show ?thesis
      using True units real_bits_value [of 0 n ?s]
      by (simp only: real_of_float_def LhatFloat.case Let_def if_True simp_thms flip: n_def k_def)
  next
    case False
    define s where "s = k - 53"
    have k: "k = s + 53" using False by (simp add: s_def)
    have up: "n < 2 ^ (s + 53)" using bit_count_le [of n k] by (simp add: k_def k [symmetric])
    have low: "2 ^ (s + 52) \<le> n" using bit_count_le [of n "s + 52"] k by (simp add: k_def not_le [symmetric])
    have "n < 2 ^ (53 + e)" using m by (simp add: power_add)
    then have "s \<le> e" using bit_count_le [of n "53 + e"] k by (simp add: k_def)
    then have d: "(2::nat) ^ s dvd n" unfolding m(1) by (simp add: le_imp_power_dvd)
    define q where "q = n div 2 ^ s"
    have q: "n = q * 2 ^ s" using d by (simp add: q_def)
    have "q < 2 ^ 53" "2 ^ 52 \<le> q" using up low unfolding q power_add by simp_all
    then have f: "q - 2 ^ 52 < 2 ^ 52" "q - 2 ^ 52 + 2 ^ 52 = q" by simp_all
    have "s + 52 < 2098" using low n by (metis le_less_trans nat_power_less_imp_less zero_less_numeral)
    then have e': "s + 1 < 2047" by simp
    have "real_of_float z (FLOAT u) = real_bits ?s (s + 1) (q - 2 ^ 52)"
      using False k by (simp add: real_of_float_def Let_def q_def flip: n_def k_def)
    moreover have "(if s + 1 = 0 then q - 2 ^ 52 else (q - 2 ^ 52 + 2 ^ 52) * 2 ^ (s + 1 - 1)) = n"
      unfolding f(2) q by simp
    ultimately show ?thesis
      using real_bits_value [OF e' f(1), of ?s] units by (simp only: Let_def)
  qed
qed

lemma value_of_others [simp]:
  "real_value (real_of_float z FLOAT_NAN) = FLOAT_NAN"
  "real_value (real_of_float z (FLOAT_INF n)) = FLOAT_INF n"
  using real_bits_fields [of 2047 "2 ^ 51"] real_bits_fields [of 2047 0]
  by (simp_all add: real_of_float_def real_value_def)

lemma half_even_bound: "n < k * d \<Longrightarrow> round_half_even n d \<le> k"
proof -
  assume "n < k * d"
  then have "n div d < k" by (simp add: less_mult_imp_div_less)
  then show ?thesis by (simp add: round_half_even_def Let_def)
qed

lemma holds_scaled:
  assumes "nat \<bar>u\<bar> = q * 2 ^ e" "q \<le> 2 ^ 53" "nat \<bar>u\<bar> < 2 ^ 2098"
  shows "double_holds u"
proof (cases "q = 2 ^ 53")
  case True
  then have "nat \<bar>u\<bar> = 1 * 2 ^ (53 + e)" using assms(1) by (simp add: power_add)
  then show ?thesis using assms(3) unfolding double_holds_def by (intro conjI exI [of _ 1] exI [of _ "53 + e"]) simp_all
next
  case False
  then show ?thesis using assms unfolding double_holds_def by (intro conjI exI [of _ q] exI [of _ e]) simp_all
qed

lemma float_signed_value:
  assumes "q \<le> 2 ^ 53"
  shows "real_value (real_of_float z (float_signed negative (q * 2 ^ e))) = float_signed negative (q * 2 ^ e)"
proof (cases "2 ^ 2098 \<le> q * 2 ^ e")
  case False
  let ?u = "if negative then - int (q * 2 ^ e) else int (q * 2 ^ e)"
  have "nat \<bar>if negative then - int n else int n\<bar> = n" for n by simp
  then have "nat \<bar>?u\<bar> = q * 2 ^ e" .
  then have "double_holds ?u" using assms False by (intro holds_scaled [of _ q e]) simp_all
  then show ?thesis using False unfolding float_signed_def by (simp only: if_False value_of_bits)
qed (simp add: float_signed_def)

lemma bit_count_covers: "n < 2 ^ 53 * 2 ^ (bit_count n - 53)"
proof -
  have "n < 2 ^ bit_count n" using bit_count_le [of n "bit_count n"] by simp
  also have "(2::nat) ^ bit_count n \<le> 2 ^ (53 + (bit_count n - 53))" by (rule power_increasing) simp_all
  finally show ?thesis by (simp add: power_add)
qed

lemma units_value: "real_value (real_of_float z (float_of_units u)) = float_of_units u"
  unfolding float_of_units_def round_53_def Let_def
  by (rule float_signed_value [OF half_even_bound [OF bit_count_covers]])

lemma add_value: "real_value (real_add a b) = float_add (real_value a) (real_value b)"
  unfolding real_add_def by (cases "real_value a"; cases "real_value b") (simp_all add: units_value)

lemma minus_value: "real_value (real_minus a b) = float_minus (real_value a) (real_value b)"
  unfolding real_minus_def float_minus_def
  by (cases "real_value a"; cases "real_value b") (simp_all add: units_value)

lemma times_value: "real_value (real_times a b) = float_times (real_value a) (real_value b)"
proof -
  have "real_value (real_of_float z (float_times (FLOAT x) (FLOAT y))) = float_times (FLOAT x) (FLOAT y)" for z x y
  proof -
    let ?n = "nat \<bar>x * y\<bar>"
    let ?s = "max 1074 (bit_count ?n - 53)"
    have "(2::nat) ^ (bit_count ?n - 53) \<le> 2 ^ ?s" by (rule power_increasing) simp_all
    then have "(2::nat) ^ 53 * 2 ^ (bit_count ?n - 53) \<le> 2 ^ 53 * 2 ^ ?s" by (rule mult_le_mono2)
    then have "?n < 2 ^ 53 * 2 ^ ?s" using bit_count_covers [of ?n] by linarith
    from float_signed_value [OF half_even_bound [OF this]] show ?thesis by (simp only: float_times.simps Let_def)
  qed
  then show ?thesis
    unfolding real_times_def by (cases "real_value a"; cases "real_value b") simp_all
qed

text \<open>An integer as a double.\<close>

lemma integer_holds:
  fixes i :: LhatInteger
  shows "double_holds (integer_rounded (sint i) * REAL_ONE)"
proof -
  let ?n = "nat \<bar>sint i\<bar>"
  let ?q = "round_half_even ?n (2 ^ (bit_count ?n - 53))"
  have r: "\<bar>integer_rounded (sint i)\<bar> = int (round_53 ?n)" by (simp add: integer_rounded_def)
  have u: "nat \<bar>integer_rounded (sint i) * REAL_ONE\<bar> = ?q * 2 ^ (bit_count ?n - 53 + 1074)"
    by (simp add: abs_mult r REAL_ONE_def nat_mult_distrib nat_power_eq round_53_def Let_def power_add)
  have "?n < 2 ^ 64" using sint_less [of i] sint_ge [of i] by (simp add: nat_less_iff)
  then have "bit_count ?n - 53 + 1074 \<le> 1085" using bit_count_le [of ?n 64] by simp
  then have "(2::nat) ^ (bit_count ?n - 53 + 1074) \<le> 2 ^ 1085" by (rule power_increasing) simp
  moreover have q: "?q \<le> 2 ^ 53" by (rule half_even_bound [OF bit_count_covers])
  ultimately have "?q * 2 ^ (bit_count ?n - 53 + 1074) \<le> 2 ^ 53 * 2 ^ 1085" by (intro mult_le_mono)
  also have "(2::nat) ^ 53 * 2 ^ 1085 < 2 ^ 2098" unfolding power_add [symmetric] by (intro power_strict_increasing) simp_all
  finally show ?thesis using u q by (intro holds_scaled [OF u]) simp_all
qed

lemma integer_value: "real_value (real_of_integer i) = float_of_integer i"
  unfolding real_of_integer_def float_of_integer_def by (rule value_of_bits [OF integer_holds])

lemma number_value: "lhat_is_number v \<Longrightarrow> real_value (number_as_real v) = lhat_number_as_real v"
  by (cases v) (simp_all add: integer_value)

subsection \<open>Exact operations\<close>

lemma wrap_int:
  assumes "- (2 ^ 64) \<le> e" "e < 2 ^ 64"
  shows "sint (word_of_int e :: LhatInteger) =
    (if e < - (2 ^ 63) then e + 2 ^ 64 else if 2 ^ 63 \<le> e then e - 2 ^ 64 else e)"
proof -
  have s: "sint (word_of_int e :: LhatInteger) = signed_take_bit 63 e" by (simp add: signed_of_int)
  have fits: "signed_take_bit 63 x = x" if "- (2 ^ 63) \<le> x" "x < 2 ^ 63" for x :: int
    using that by (intro signed_take_bit_int_eq_self) simp_all
  have same: "signed_take_bit 63 e = signed_take_bit 63 (e + k * 2 ^ 64)" for k :: int
    by (simp add: signed_take_bit_eq_iff_take_bit_eq take_bit_eq_mod)
  consider "e < - (2 ^ 63)" | "2 ^ 63 \<le> e" | "- (2 ^ 63) \<le> e" "e < 2 ^ 63" by linarith
  then show ?thesis
  proof cases
    case 1 then show ?thesis using s same [of 1] fits [of "e + 2 ^ 64"] assms by simp
  next
    case 2 then show ?thesis using s same [of "- 1"] fits [of "e - 2 ^ 64"] assms by simp
  next
    case 3 then show ?thesis using s fits by simp
  qed
qed

lemma fits_sint: "fits_int64 (sint (i :: LhatInteger))"
  using sint_ge [of i] sint_less [of i] by (simp add: fits_int64_def)

lemma negative_bit: "sint (w :: LhatInteger) < 0 \<longleftrightarrow> bit w 63"
  using bit_last_iff [of w] by simp

definition exactly :: "int \<Rightarrow> LhatInteger option" where
  "exactly e = (if fits_int64 e then Some (word_of_int e) else None)"

lemma add_exact_is: "add_exact x y = exactly (sint x + sint y)"
proof -
  let ?e = "sint x + sint y"
  have w: "x + y = word_of_int ?e" by simp
  have r: "- (2 ^ 64) \<le> ?e" "?e < 2 ^ 64"
    using fits_sint [of x] fits_sint [of y] by (simp_all add: fits_int64_def)
  have "sint ((x XOR (x + y)) AND (y XOR (x + y))) < 0 \<longleftrightarrow>
      (sint x < 0) \<noteq> (sint (x + y) < 0) \<and> (sint y < 0) \<noteq> (sint (x + y) < 0)"
    unfolding negative_bit by (simp add: bit_and_iff bit_xor_iff)
  also have "\<dots> \<longleftrightarrow> \<not> fits_int64 ?e"
    using fits_sint [of x] fits_sint [of y] unfolding w wrap_int [OF r] fits_int64_def by (auto split: if_splits)
  finally show ?thesis by (simp add: add_exact_def exactly_def Let_def)
qed

lemma subtract_exact_is: "subtract_exact x y = exactly (sint x - sint y)"
proof -
  let ?e = "sint x - sint y"
  have w: "x - y = word_of_int ?e" by simp
  have r: "- (2 ^ 64) \<le> ?e" "?e < 2 ^ 64"
    using fits_sint [of x] fits_sint [of y] by (simp_all add: fits_int64_def)
  have "sint ((x XOR y) AND (x XOR (x - y))) < 0 \<longleftrightarrow>
      (sint x < 0) \<noteq> (sint y < 0) \<and> (sint x < 0) \<noteq> (sint (x - y) < 0)"
    unfolding negative_bit by (simp add: bit_and_iff bit_xor_iff)
  also have "\<dots> \<longleftrightarrow> \<not> fits_int64 ?e"
    using fits_sint [of x] fits_sint [of y] unfolding w wrap_int [OF r] fits_int64_def by (auto split: if_splits)
  finally show ?thesis by (simp add: subtract_exact_def exactly_def Let_def)
qed

text \<open>Dividing back finds every product that does not fit: the remainder of the division would be a
multiple of \<open>2^64\<close> that is smaller than the divisor.\<close>

lemma divides_back:
  fixes x y :: LhatInteger
  assumes "sint x \<noteq> 0" "sint (word_of_int (sint x * sint y) :: LhatInteger) sdiv sint x = sint y"
  shows "fits_int64 (sint x * sint y)"
proof -
  let ?e = "sint x * sint y"
  let ?p = "sint (word_of_int ?e :: LhatInteger)"
  have p: "?p = sint y * sint x + ?p smod sint x" using sdiv_mult_smod_eq [of ?p "sint x"] assms(2) by simp
  have "\<bar>?p smod sint x\<bar> < \<bar>sint x\<bar>"
    using assms(1) by (simp add: signed_modulo_int_def abs_mult sgn_if)
  then have r: "\<bar>?p - ?e\<bar> < \<bar>sint x\<bar>" using p by (simp add: mult.commute)
  have "\<bar>sint x\<bar> \<le> 2 ^ 63" using fits_sint [of x] by (auto simp: fits_int64_def)
  with r have "\<bar>?p - ?e\<bar> < 2 ^ 63" by (rule less_le_trans)
  then have r': "\<bar>?p - ?e\<bar> < 2 ^ 64" by (rule less_trans) simp
  have "take_bit 64 (sint (word_of_int e :: LhatInteger)) = take_bit 64 e" for e
    by (simp add: signed_of_int take_bit_signed_take_bit)
  then have "take_bit 64 ?p = take_bit 64 ?e" .
  then have "(?p - ?e) mod 2 ^ 64 = 0" by (simp add: take_bit_eq_mod mod_eq_dvd_iff)
  then have "?p = ?e" using r' by (metis dvd_imp_le_int eq_iff_diff_eq_0 mod_0_imp_dvd abs_numeral linorder_not_less power_abs)
  then show ?thesis using fits_sint [of "word_of_int ?e :: LhatInteger"] by simp
qed

lemma multiply_exact_is: "multiply_exact x y = exactly (sint x * sint y)"
proof -
  have w: "x * y = word_of_int (sint x * sint y)" by simp
  have z: "sint i = 0 \<longleftrightarrow> i = 0" for i :: LhatInteger by (simp add: signed_eq_0_iff)
  consider "x = 0 \<or> y = 0" | "x \<noteq> 0" "y \<noteq> 0" "fits_int64 (sint x * sint y)"
    | "x \<noteq> 0" "y \<noteq> 0" "\<not> fits_int64 (sint x * sint y)" by blast
  then show ?thesis
  proof cases
    case 1
    then show ?thesis by (auto simp: multiply_exact_def exactly_def fits_int64_def)
  next
    case 2
    then have "sint (x * y) sdiv sint x = sint y"
      unfolding w sint_of_fits [OF 2(3)] using z [of x] by (simp add: signed_divide_int_eq_divide_int)
    moreover have "\<not> (x = - 1 \<and> y = INT64_MIN)" using 2(3) by (auto simp: INT64_MIN_def fits_int64_def)
    ultimately show ?thesis using 2 by (simp add: multiply_exact_def exactly_def Let_def)
  next
    case 3
    then show ?thesis
      using divides_back [of x y] z [of x] by (auto simp: multiply_exact_def exactly_def Let_def)
  qed
qed

text \<open>The quotient and the remainder after the adjustment are those of \<open>div\<close> and \<open>mod\<close>.\<close>

lemma floored_division:
  fixes a b :: int
  assumes "b \<noteq> 0"
  defines "adjust \<equiv> a smod b \<noteq> 0 \<and> (a smod b < 0) \<noteq> (b < 0)"
  shows "(if adjust then a sdiv b - 1 else a sdiv b) = a div b"
    "(if adjust then a smod b + b else a smod b) = a mod b"
proof -
  have z: "a smod b = 0 \<longleftrightarrow> b dvd a"
    by (auto simp: signed_modulo_int_def sgn_0_0 simp flip: dvd_eq_mod_eq_0)
  have "0 < \<bar>b\<bar>" using assms(1) by simp
  then have "0 \<le> \<bar>a\<bar> mod \<bar>b\<bar>" by simp
  then have "a smod b < 0 \<longleftrightarrow> a < 0 \<and> a smod b \<noteq> 0"
    by (auto simp: signed_modulo_int_def sgn_if)
  then have adj: "adjust \<longleftrightarrow> sgn a \<noteq> sgn b \<and> \<not> b dvd a"
    unfolding adjust_def z using assms(1) by (cases "a = 0") (auto simp: sgn_if)
  show "(if adjust then a sdiv b - 1 else a sdiv b) = a div b"
    using assms(1) unfolding adj divide_int_eq_signed_divide_int [of a b] by simp
  show "(if adjust then a smod b + b else a smod b) = a mod b"
    unfolding adj modulo_int_eq_signed_modulo_int [of a b] by simp
qed

subsection \<open>Powers\<close>

lemma power_of_big:
  assumes "2 \<le> \<bar>sint base\<bar>"
  shows "sint r \<noteq> 0 \<Longrightarrow> integer_power n base r = exactly (sint r * sint base ^ n)"
proof (induction n arbitrary: r)
  case 0
  then show ?case using fits_sint [of r] by (simp add: exactly_def)
next
  case (Suc n)
  let ?e = "sint r * sint base"
  show ?case
  proof (cases "fits_int64 ?e")
    case True
    have "sint (r * base) = ?e"
      using sint_of_fits [OF True] by simp
    then show ?thesis using Suc.IH [of "r * base"] Suc.prems assms True by (auto simp: mult.assoc)
  next
    case False
    have "\<not> fits_int64 (?e * sint base ^ n)"
    proof (cases n)
      case (Suc k)
      have "2 ^ 63 \<le> \<bar>?e\<bar>" using False by (auto simp: fits_int64_def)
      moreover have "2 \<le> \<bar>sint base\<bar> ^ n"
        using assms Suc power_increasing [of 1 n "\<bar>sint base\<bar>"] by simp
      ultimately have "2 ^ 63 * 2 \<le> \<bar>?e\<bar> * \<bar>sint base\<bar> ^ n" by (intro mult_mono) simp_all
      then have "2 ^ 64 \<le> \<bar>?e * sint base ^ n\<bar>" by (simp add: abs_mult power_abs)
      then show ?thesis by (auto simp: fits_int64_def)
    qed (use False in simp)
    then show ?thesis using False by (simp add: exactly_def mult.assoc)
  qed
qed

lemma power_of_unit:
  "\<bar>sint base\<bar> = 1 \<Longrightarrow> \<bar>sint r\<bar> = 1 \<Longrightarrow> integer_power n base r = exactly (sint r * sint base ^ n)"
proof (induction n arbitrary: r)
  case 0
  then show ?case using fits_sint [of r] by (simp add: exactly_def)
next
  case (Suc n)
  have one: "\<bar>sint r * sint base\<bar> = 1" using Suc.prems by (simp add: abs_mult)
  then have f: "fits_int64 (sint r * sint base)" by (auto simp: fits_int64_def)
  have "sint (r * base) = sint r * sint base" using sint_of_fits [OF f] by simp
  then show ?case using Suc.IH [of "r * base"] Suc.prems one f by (simp add: mult.assoc)
qed

lemma integer_power_is: "base \<noteq> 0 \<Longrightarrow> integer_power n base 1 = exactly (sint base ^ n)"
proof -
  assume "base \<noteq> 0"
  then have "sint base \<noteq> 0" by (simp add: signed_eq_0_iff)
  then consider "2 \<le> \<bar>sint base\<bar>" | "\<bar>sint base\<bar> = 1" by linarith
  then show ?thesis using power_of_big [of base 1 n] power_of_unit [of base 1 n] by cases simp_all
qed

subsection \<open>Closeness\<close>

lemma close_symmetric:
  assumes "lhat_is_number a" "lhat_is_number b"
  shows "lhat_value_close st a b tolerance = lhat_value_close st b a tolerance"
proof (cases "lhat_is_integer a \<and> lhat_is_integer b")
  case True
  then show ?thesis by (cases a; cases b) (auto simp: lhat_value_close_def)
next
  case False
  let ?x = "lhat_number_as_real a" and ?y = "lhat_number_as_real b"
  note unfolded = lhat_value_close_def Let_def float_equal_def float_minus_def float_zero_def
  show ?thesis
  proof (cases "\<exists>u v. ?x = FLOAT u \<and> ?y = FLOAT v")
    case True
    then obtain u v where uv: "?x = FLOAT u" "?y = FLOAT v" by blast
    have close: "lhat_value_close st a b tolerance \<longleftrightarrow> u = v \<or>
        (let size = FLOAT (max \<bar>u\<bar> \<bar>v\<bar>)
         in float_equal (float_minus size size) float_zero \<and>
           float_less_eq (float_minus (FLOAT (max u v)) (FLOAT (min u v)))
             (float_times tolerance (if float_less size float_one then float_one else size)))"
      if "lhat_number_as_real a = FLOAT u" "lhat_number_as_real b = FLOAT v"
        "lhat_is_number a" "lhat_is_number b" "\<not> (lhat_is_integer a \<and> lhat_is_integer b)" for a b u v
      using that by (auto simp: unfolded max_def min_def)
    show ?thesis
      using close [OF uv assms False] close [OF uv(2,1) assms(2,1)] False
      by (simp only: max.commute [of "\<bar>v\<bar>"] max.commute [of v] min.commute [of v] eq_commute [of v] conj_commute simp_thms)
  next
    case other: False
    have "\<not> float_less_eq FLOAT_NAN f" for f by (simp add: float_less_eq_def float_equal_def)
    then show ?thesis
      using False other assms by (cases ?x; cases ?y) (auto simp: unfolded)
  qed
qed

end
