(* ===== verification/Lhat_NumberNative.thy ===== *)
theory Lhat_NumberNative
  imports Lhat_Arith
begin

text \<open>
  The operations a program calls on a number (\<open>src/vm_native.c\<close>): rounding, magnitude and sign, bounds,
  the questions about bits, and equality within a width that the caller writes.
\<close>

text \<open>The whole number that \<open>toward\<close> picks, an integer while it is one of 64 bits.\<close>

definition whole_of :: "LhatStore \<Rightarrow> (int \<Rightarrow> int) \<Rightarrow> LhatValue \<Rightarrow> LhatValue" where
  "whole_of st toward v =
     (case v of
        VALUE_REAL r \<Rightarrow>
          let whole = whole_double toward r; d = real_value whole
          in if float_less_eq (FLOAT (- (2 ^ 63) * REAL_ONE)) d \<and> float_less d (FLOAT (2 ^ 63 * REAL_ONE))
             then VALUE_INTEGER (float_to_integer st d)
             else VALUE_REAL whole
      | _ \<Rightarrow> v)"

datatype LhatNumberNative =
    LHAT_NATIVE_EQ | LHAT_NATIVE_FLOOR | LHAT_NATIVE_CEIL | LHAT_NATIVE_ROUND | LHAT_NATIVE_ABS | LHAT_NATIVE_SIGN
  | LHAT_NATIVE_CLAMP | LHAT_NATIVE_ISINTEGER | LHAT_NATIVE_BITANY | LHAT_NATIVE_BITALL | LHAT_NATIVE_BITAT

text \<open>\<open>fabs\<close> clears the sign.\<close>

definition real_abs :: "LhatReal \<Rightarrow> LhatReal" where
  "real_abs r = r AND 0x7FFFFFFFFFFFFFFF"

definition native_abs :: "LhatValue \<Rightarrow> LhatValue" where
  "native_abs v =
     (case v of
        VALUE_INTEGER i \<Rightarrow>
          if i = INT64_MIN then VALUE_REAL (real_negate (real_of_integer i))
          else VALUE_INTEGER (if sint i < 0 then - i else i)
      | VALUE_REAL r \<Rightarrow> VALUE_REAL (real_abs r)
      | _ \<Rightarrow> v)"

definition native_sign :: "LhatValue \<Rightarrow> LhatValue" where
  "native_sign v =
     (let d = lhat_number_as_real v
      in VALUE_INTEGER (if float_less float_zero d then 1 else if float_less d float_zero then - 1 else 0))"

definition native_clamp :: "LhatValue \<Rightarrow> LhatValue \<Rightarrow> LhatValue \<Rightarrow> LhatValue" where
  "native_clamp v low high =
     (let d = lhat_number_as_real v
      in if float_less d (lhat_number_as_real low) then low
         else if float_less (lhat_number_as_real high) d then high
         else v)"

definition native_bits :: "LhatNumberNative \<Rightarrow> LhatInteger \<Rightarrow> LhatInteger \<Rightarrow> bool" where
  "native_bits kind bits arg =
     (if kind = LHAT_NATIVE_BITANY then bits AND arg \<noteq> 0
      else if kind = LHAT_NATIVE_BITALL then bits AND arg = arg
      else 0 \<le> sint arg \<and> sint arg < 64 \<and> drop_bit (nat (sint arg)) bits AND 1 \<noteq> 0)"

text \<open>How the call ends, and the answer where it ends well.\<close>

definition vm_number_native ::
  "LhatStore \<Rightarrow> LhatNumberNative \<Rightarrow> LhatValue \<Rightarrow> LhatValue list \<Rightarrow> LhatRunStatus \<times> LhatValue" where
  "vm_number_native st kind bound args =
     (let arity = (\<lambda>n answer. if length args = n then answer else (LHAT_RUN_ARITY, VALUE_NIL))
      in case kind of
           LHAT_NATIVE_EQ \<Rightarrow>
             arity 2
               (if \<not> lhat_is_number (args ! 0) \<or> \<not> lhat_is_number (args ! 1) then (LHAT_RUN_TYPE_ERROR, VALUE_NIL)
                else (LHAT_RUN_OK, VALUE_BOOL
                  (lhat_value_close st bound (args ! 0) (lhat_number_as_real (args ! 1)))))
         | LHAT_NATIVE_FLOOR \<Rightarrow> arity 0 (LHAT_RUN_OK, whole_of st float_floor bound)
         | LHAT_NATIVE_CEIL \<Rightarrow> arity 0 (LHAT_RUN_OK, whole_of st float_ceil bound)
         | LHAT_NATIVE_ROUND \<Rightarrow> arity 0 (LHAT_RUN_OK, whole_of st float_nearby bound)
         | LHAT_NATIVE_ABS \<Rightarrow> arity 0 (LHAT_RUN_OK, native_abs bound)
         | LHAT_NATIVE_SIGN \<Rightarrow> arity 0 (LHAT_RUN_OK, native_sign bound)
         | LHAT_NATIVE_CLAMP \<Rightarrow>
             arity 2
               (if \<not> lhat_is_number (args ! 0) \<or> \<not> lhat_is_number (args ! 1) then (LHAT_RUN_TYPE_ERROR, VALUE_NIL)
                else (LHAT_RUN_OK, native_clamp bound (args ! 0) (args ! 1)))
         | LHAT_NATIVE_ISINTEGER \<Rightarrow> arity 0 (LHAT_RUN_OK, VALUE_BOOL (lhat_number_as_whole st bound \<noteq> None))
         | _ \<Rightarrow>
             arity 1
               (case (lhat_number_as_whole st bound, lhat_number_as_whole st (args ! 0)) of
                  (Some bits, Some arg) \<Rightarrow> (LHAT_RUN_OK, VALUE_BOOL (native_bits kind bits arg))
                | _ \<Rightarrow> (LHAT_RUN_TYPE_ERROR, VALUE_NIL)))"

end
