(* ===== verification/Lhat_Rounding.thy ===== *)
theory Lhat_Rounding
  imports Lhat_ArithOk Lhat_NumberNative
begin

text \<open>
  The whole number next to a double, and what the rounding operations pick.
\<close>

subsection \<open>Whole doubles\<close>

lemma REAL_ONE_dvd:
  assumes "double_holds u" "2 ^ 53 * REAL_ONE \<le> \<bar>u\<bar>"
  shows "REAL_ONE dvd u"
proof -
  obtain m e where m: "nat \<bar>u\<bar> = m * 2 ^ e" "m < 2 ^ 53" using assms(1) by (auto simp: double_holds_def)
  have "(2::nat) ^ 53 * 2 ^ 1074 \<le> nat \<bar>u\<bar>" using assms(2) by (simp add: le_nat_iff REAL_ONE_def)
  also have "\<dots> < 2 ^ 53 * 2 ^ e" unfolding m(1) using m(2) by simp
  finally have "(2::nat) ^ 1074 < 2 ^ e" by simp
  then have "1074 \<le> e" by (metis less_imp_le nat_power_less_imp_less zero_less_numeral)
  then have "(2::nat) ^ 1074 dvd nat \<bar>u\<bar>" unfolding m(1) by (intro dvd_mult le_imp_power_dvd)
  then have "int (2 ^ 1074) dvd \<bar>u\<bar>" by (metis abs_ge_zero int_dvd_int_iff int_nat_eq)
  then show ?thesis by (simp add: REAL_ONE_def)
qed

lemma double_value_holds: "real_value r = FLOAT u \<Longrightarrow> double_holds u"
proof -
  assume r: "real_value r = FLOAT u"
  then have e: "real_exponent r \<noteq> 2047" and u: "u = (if real_negative r then - int (real_units r) else int (real_units r))"
    by (auto simp: real_value_def split: if_splits)
  have n: "nat \<bar>u\<bar> = real_units r" unfolding u by simp
  have "real_exponent r < 2047" using e fields_bound(2) [of r] by simp
  then have "(2::nat) ^ (real_exponent r - 1) \<le> 2 ^ 2045" by (intro power_increasing) simp_all
  moreover have "real_fraction r + 2 ^ 52 < 2 ^ 53" using fields_bound(1) [of r] by simp
  ultimately have "(real_fraction r + 2 ^ 52) * 2 ^ (real_exponent r - 1) < 2 ^ 53 * 2 ^ 2045"
    by (intro mult_less_le_imp_less) simp_all
  then have "real_units r < 2 ^ 2098"
    using fields_bound(1) [of r] unfolding real_units_def power_add [symmetric] by (simp split: if_split)
  then show ?thesis using real_units_form [of r] n by (simp add: double_holds_def)
qed

text \<open>A rounding of a double to a whole number next to it is a double.\<close>

lemma whole_holds:
  assumes "double_holds u" "\<bar>t\<bar> \<le> \<bar>u\<bar> div REAL_ONE + 1" "REAL_ONE dvd u \<Longrightarrow> t * REAL_ONE = u"
  shows "double_holds (t * REAL_ONE)"
proof (cases "2 ^ 53 * REAL_ONE \<le> \<bar>u\<bar>")
  case True
  then show ?thesis using REAL_ONE_dvd [OF assms(1)] assms(1,3) by simp
next
  case False
  have "\<bar>u\<bar> div REAL_ONE < 2 ^ 53"
  proof (rule ccontr)
    assume "\<not> \<bar>u\<bar> div REAL_ONE < 2 ^ 53"
    then have "2 ^ 53 * REAL_ONE \<le> \<bar>u\<bar> div REAL_ONE * REAL_ONE"
      using REAL_ONE_pos by (intro mult_right_mono) simp_all
    moreover have "\<bar>u\<bar> div REAL_ONE * REAL_ONE + \<bar>u\<bar> mod REAL_ONE = \<bar>u\<bar>" by (rule div_mult_mod_eq)
    ultimately show False using False REAL_ONE_pos pos_mod_sign [of REAL_ONE "\<bar>u\<bar>"] by linarith
  qed
  then have t: "nat \<bar>t\<bar> \<le> 2 ^ 53" using assms(2) by simp
  have n: "nat \<bar>t * REAL_ONE\<bar> = nat \<bar>t\<bar> * 2 ^ 1074"
    by (simp add: abs_mult REAL_ONE_def nat_mult_distrib nat_power_eq)
  have "nat \<bar>t\<bar> * 2 ^ 1074 \<le> 2 ^ 53 * 2 ^ 1074" using t by simp
  also have "(2::nat) ^ 53 * 2 ^ 1074 < 2 ^ 2098" unfolding power_add [symmetric] by (intro power_strict_increasing) simp_all
  finally have "nat \<bar>t\<bar> * 2 ^ 1074 < 2 ^ 2098" .
  then show ?thesis by (intro holds_scaled [OF n t]) (simp only: n)
qed

lemma floor_near:
  "float_floor u * REAL_ONE \<le> u \<and> u < (float_floor u + 1) * REAL_ONE \<and>
   \<bar>float_floor u\<bar> \<le> \<bar>u\<bar> div REAL_ONE + 1 \<and> (REAL_ONE dvd u \<longrightarrow> float_floor u * REAL_ONE = u)"
proof -
  have m: "u = float_floor u * REAL_ONE + u mod REAL_ONE" by (simp add: float_floor_def)
  have b: "0 \<le> u mod REAL_ONE" "u mod REAL_ONE < REAL_ONE" using REAL_ONE_pos by simp_all
  have "\<bar>float_floor u\<bar> \<le> \<bar>u\<bar> div REAL_ONE + 1"
  proof (cases "0 \<le> u")
    case True
    then show ?thesis using REAL_ONE_pos by (simp add: float_floor_def pos_imp_zdiv_nonneg_iff)
  next
    case False
    then have "- (u div REAL_ONE) \<le> (- u) div REAL_ONE + 1"
      using REAL_ONE_pos zdiv_zminus1_eq_if [of REAL_ONE u] by simp
    moreover have "u div REAL_ONE \<le> 0" using False REAL_ONE_pos by (simp add: div_nonpos_pos_le0)
    ultimately show ?thesis using False by (simp add: float_floor_def)
  qed
  moreover have "REAL_ONE dvd u \<Longrightarrow> u mod REAL_ONE = 0" by (rule dvd_imp_mod_0)
  moreover have "(float_floor u + 1) * REAL_ONE = float_floor u * REAL_ONE + REAL_ONE" by (simp add: algebra_simps)
  ultimately show ?thesis using m b by linarith
qed

lemma ceil_floor: "float_ceil u = - float_floor (- u)"
  by (simp add: float_ceil_def float_floor_def)

lemma ceil_near:
  "u \<le> float_ceil u * REAL_ONE \<and> (float_ceil u - 1) * REAL_ONE < u \<and>
   \<bar>float_ceil u\<bar> \<le> \<bar>u\<bar> div REAL_ONE + 1 \<and> (REAL_ONE dvd u \<longrightarrow> float_ceil u * REAL_ONE = u)"
proof -
  let ?f = "float_floor (- u)"
  have "(- ?f - 1) * REAL_ONE = - ((?f + 1) * REAL_ONE)" by (simp add: algebra_simps)
  then show ?thesis using floor_near [of "- u"] unfolding ceil_floor by simp
qed

lemma half_even_near:
  fixes n d :: nat
  assumes "0 < d"
  shows "2 * \<bar>int n - int (round_half_even n d * d)\<bar> \<le> int d" "round_half_even n d \<le> n div d + 1"
    "d dvd n \<Longrightarrow> round_half_even n d * d = n"
    "2 * \<bar>int n - int (round_half_even n d * d)\<bar> = int d \<Longrightarrow> even (round_half_even n d)"
proof -
  define q r where qr: "q = n div d" "r = n mod d"
  have n: "n = q * d + r" by (simp add: qr)
  have r: "r < d" using assms by (simp add: qr)
  have up: "int n - int ((q + 1) * d) = int r - int d" by (simp add: n algebra_simps)
  have down: "int n - int (q * d) = int r" by (simp add: n)
  have h: "round_half_even n d = (if 2 * r < d \<or> 2 * r = d \<and> even q then q else q + 1)"
    by (simp add: round_half_even_def Let_def flip: qr)
  show "2 * \<bar>int n - int (round_half_even n d * d)\<bar> \<le> int d"
    using up down r unfolding h by (auto simp del: of_nat_mult)
  show "round_half_even n d \<le> n div d + 1" unfolding h qr(1) by simp
  show "round_half_even n d * d = n" if "d dvd n"
  proof -
    have "r = 0" using that by (simp add: qr dvd_imp_mod_0)
    then show ?thesis using assms n unfolding h by simp
  qed
  show "even (round_half_even n d)" if "2 * \<bar>int n - int (round_half_even n d * d)\<bar> = int d"
  proof (cases "2 * r < d \<or> 2 * r = d \<and> even q")
    case True
    then have "2 * int r = int d" using that down unfolding h by (simp del: of_nat_mult)
    then show ?thesis using True unfolding h by simp
  next
    case False
    then have "2 * \<bar>int r - int d\<bar> = int d" using that up unfolding h by (simp only: if_False)
    then have "2 * r = d" using r by simp
    then show ?thesis using False unfolding h by simp
  qed
qed

lemma nearby_near:
  "2 * \<bar>u - float_nearby u * REAL_ONE\<bar> \<le> REAL_ONE \<and> (2 * \<bar>u - float_nearby u * REAL_ONE\<bar> = REAL_ONE \<longrightarrow> even (float_nearby u)) \<and>
   \<bar>float_nearby u\<bar> \<le> \<bar>u\<bar> div REAL_ONE + 1 \<and> (REAL_ONE dvd u \<longrightarrow> float_nearby u * REAL_ONE = u)"
proof -
  let ?n = "nat \<bar>u\<bar>"
  define d :: nat where "d = 2 ^ 1074"
  let ?k = "round_half_even ?n d"
  have one: "REAL_ONE = int d" by (simp add: REAL_ONE_def d_def)
  have d: "0 < d" by (simp add: d_def)
  have u: "u = (if u < 0 then - int ?n else int ?n)" by simp
  have k: "float_nearby u = (if u < 0 then - int ?k else int ?k)" by (simp add: float_nearby_def Let_def d_def)
  have "u - float_nearby u * REAL_ONE = (if u < 0 then - (int ?n - int (?k * d)) else int ?n - int (?k * d))"
    unfolding k one by simp
  then have apart: "\<bar>u - float_nearby u * REAL_ONE\<bar> = \<bar>int ?n - int (?k * d)\<bar>"
    by (simp only: abs_minus_cancel if_distrib [of abs] if_cancel split: if_split)
  have "int ?k \<le> int (?n div d + 1)" using half_even_near(2) [OF d, of ?n] by linarith
  also have "\<dots> = \<bar>u\<bar> div REAL_ONE + 1" by (simp add: one zdiv_int)
  finally have bound: "int ?k \<le> \<bar>u\<bar> div REAL_ONE + 1" .
  have "\<bar>float_nearby u\<bar> = int ?k" unfolding k by (simp only: abs_minus_cancel abs_of_nat simp_thms split: if_split)
  with bound have le: "\<bar>float_nearby u\<bar> \<le> \<bar>u\<bar> div REAL_ONE + 1" by (simp only:)
  have "float_nearby u * REAL_ONE = u" if "REAL_ONE dvd u"
  proof -
    have "d dvd ?n" using that unfolding one by (metis abs_ge_zero dvd_abs_iff int_dvd_int_iff int_nat_eq)
    then have "?k * d = ?n" by (rule half_even_near(3) [OF d])
    then have "\<bar>u - float_nearby u * REAL_ONE\<bar> = 0" unfolding apart by simp
    then show ?thesis by simp
  qed
  moreover have "even (float_nearby u) = even ?k" unfolding k by simp
  moreover have "2 * \<bar>u - float_nearby u * REAL_ONE\<bar> \<le> int d"
    unfolding apart by (rule half_even_near(1) [OF d])
  moreover have "2 * \<bar>u - float_nearby u * REAL_ONE\<bar> = int d \<Longrightarrow> even ?k"
    unfolding apart by (rule half_even_near(4) [OF d])
  ultimately show ?thesis using le by (simp only: one) blast
qed

text \<open>What a rounding operation answers for a double, for each of the three.\<close>

definition rounds_to :: "LhatNumberNative \<Rightarrow> int \<Rightarrow> int \<Rightarrow> bool" where
  "rounds_to kind u t \<longleftrightarrow>
     (case kind of
        LHAT_NATIVE_FLOOR \<Rightarrow> t * REAL_ONE \<le> u \<and> u < (t + 1) * REAL_ONE
      | LHAT_NATIVE_CEIL \<Rightarrow> (t - 1) * REAL_ONE < u \<and> u \<le> t * REAL_ONE
      | _ \<Rightarrow> 2 * \<bar>u - t * REAL_ONE\<bar> \<le> REAL_ONE \<and> (2 * \<bar>u - t * REAL_ONE\<bar> = REAL_ONE \<longrightarrow> even t))"

lemma whole_of_double:
  assumes "real_value r = FLOAT u" "\<bar>toward u\<bar> \<le> \<bar>u\<bar> div REAL_ONE + 1" "REAL_ONE dvd u \<longrightarrow> toward u * REAL_ONE = u"
  shows "if fits_int64 (toward u) then whole_of st toward (VALUE_REAL r) = VALUE_INTEGER (word_of_int (toward u))
    else \<exists>w. whole_of st toward (VALUE_REAL r) = VALUE_REAL w \<and> real_value w = FLOAT (toward u * REAL_ONE)"
proof -
  let ?t = "toward u"
  have "double_holds (?t * REAL_ONE)"
    using double_value_holds [OF assms(1)] assms(2,3) by (intro whole_holds [of u]) simp_all
  then have w: "real_value (whole_double toward r) = FLOAT (?t * REAL_ONE)"
    using assms(1) by (simp add: whole_double_def value_of_bits)
  have below: "- (2 ^ 63) * REAL_ONE \<le> ?t * REAL_ONE \<longleftrightarrow> - (2 ^ 63) \<le> ?t"
    using REAL_ONE_pos by (rule mult_le_cancel_right_pos)
  have above: "?t * REAL_ONE < 2 ^ 63 * REAL_ONE \<longleftrightarrow> ?t < 2 ^ 63"
    using REAL_ONE_pos by (rule mult_less_cancel_right_pos)
  have c: "float_less_eq (FLOAT (- (2 ^ 63) * REAL_ONE)) (FLOAT (?t * REAL_ONE)) \<and>
      float_less (FLOAT (?t * REAL_ONE)) (FLOAT (2 ^ 63 * REAL_ONE)) \<longleftrightarrow> fits_int64 ?t"
    unfolding fits_int64_def float_less_eq_def float_equal_def float_less.simps LhatFloat.inject above
    using below by (auto simp: order_le_less)
  show ?thesis
    using w c by (simp add: whole_of_def Let_def units_trunc_exact)
qed

end
