(* ===== verification/Lhat_ArithProps.thy ===== *)
theory Lhat_ArithProps
  imports Lhat_Rounding Lhat_TableProps
begin

text \<open>
  What the instructions and the operations on numbers answer.
\<close>

subsection \<open>Arithmetic\<close>

text \<open>C11: Two integers are added, subtracted and multiplied exactly.  The answer is the integer where 64 bits
  hold it, and otherwise the double nearest to what the operation gives for the two as doubles; it
  never wraps.  The short way of the instruction and the general one are one.\<close>

theorem integer_arithmetic:
  assumes "(op, e, operation) \<in> {(LHAT_BC_ADD, sint x + sint y, float_add),
    (LHAT_BC_SUB, sint x - sint y, float_minus), (LHAT_BC_MUL, sint x * sint y, float_times)}"
  shows "\<exists>r. vm_step libm_pow st k_right op (VALUE_INTEGER x) (VALUE_INTEGER y) =
      STEP_VALUE (if fits_int64 e then VALUE_INTEGER (word_of_int e) else VALUE_REAL r) \<and>
    arithmetic libm_pow op (VALUE_INTEGER x) (VALUE_INTEGER y) =
      OUTCOME (if fits_int64 e then VALUE_INTEGER (word_of_int e) else VALUE_REAL r) \<and>
    real_value r = operation (float_of_integer x) (float_of_integer y)"
proof -
  have "\<exists>oper. real_value (oper (real_of_integer x) (real_of_integer y)) =
      operation (float_of_integer x) (float_of_integer y) \<and>
    vm_step libm_pow st k_right op (VALUE_INTEGER x) (VALUE_INTEGER y) = STEP_VALUE
      (case exactly e of Some w \<Rightarrow> VALUE_INTEGER w | None \<Rightarrow> VALUE_REAL (oper (real_of_integer x) (real_of_integer y))) \<and>
    arithmetic libm_pow op (VALUE_INTEGER x) (VALUE_INTEGER y) = OUTCOME
      (case exactly e of Some w \<Rightarrow> VALUE_INTEGER w | None \<Rightarrow> VALUE_REAL (oper (real_of_integer x) (real_of_integer y)))"
    using assms add_value [of "real_of_integer x" "real_of_integer y"] minus_value [of "real_of_integer x" "real_of_integer y"]
      times_value [of "real_of_integer x" "real_of_integer y"]
    by (auto simp: vm_step_def step_arithmetic_def arith_fast_of_def arithmetic_def integer_value
        add_exact_is subtract_exact_is multiply_exact_is split: option.split)
  then show ?thesis by (auto simp: exactly_def)
qed

theorem integer_arithmetic_witness:
  "vm_step (\<lambda>_ _. 0) sample_store False LHAT_BC_MUL (VALUE_INTEGER 3037000499) (VALUE_INTEGER (- 3037000499)) =
     STEP_VALUE (VALUE_INTEGER (- 9223372030926249001)) \<and>
   (\<exists>r. vm_step (\<lambda>_ _. 0) sample_store False LHAT_BC_ADD (VALUE_INTEGER 9223372036854775807) (VALUE_INTEGER 1) =
     STEP_VALUE (VALUE_REAL r) \<and>
     real_value r = float_add (float_of_integer 9223372036854775807) (float_of_integer 1))"
proof -
  let ?m = "9223372036854775807 :: LhatInteger"
  have "\<not> fits_int64 (sint ?m + sint (1 :: LhatInteger))" by (simp add: fits_int64_def)
  moreover have "fits_int64 (sint (3037000499 :: LhatInteger) * sint (- 3037000499 :: LhatInteger))"
    by (simp add: fits_int64_def)
  ultimately show ?thesis
    using integer_arithmetic [of LHAT_BC_ADD _ float_add ?m 1] integer_arithmetic [of LHAT_BC_MUL _ float_times 3037000499 "- 3037000499"]
    by simp blast
qed

lemma integer_sign: "integer_rounded i = 0 \<longleftrightarrow> i = 0" "integer_rounded i < 0 \<longleftrightarrow> i < 0"
proof -
  have "0 < round_53 n" if "0 < n" for n
  proof -
    have "2 ^ (bit_count n - 1) \<le> n" if "0 < bit_count n"
      using that bit_count_le [of n "bit_count n - 1"] by (simp add: not_less [symmetric])
    moreover have "0 < bit_count n" using \<open>0 < n\<close> by (subst bit_count.simps) simp
    moreover have "(2::nat) ^ (bit_count n - 53) \<le> 2 ^ (bit_count n - 1)" by (intro power_increasing) simp_all
    ultimately have "(2::nat) ^ (bit_count n - 53) \<le> n" by linarith
    then have "0 < n div 2 ^ (bit_count n - 53)" by (simp add: div_greater_zero_iff)
    then show ?thesis by (simp add: round_53_def round_half_even_def Let_def)
  qed
  moreover have "round_53 0 = 0" by (simp add: round_53_def round_half_even_def)
  ultimately have "0 < round_53 n \<longleftrightarrow> 0 < n" for n by (cases n) auto
  from this [of "nat i"] this [of "nat (- i)"]
  show "integer_rounded i = 0 \<longleftrightarrow> i = 0" "integer_rounded i < 0 \<longleftrightarrow> i < 0"
    by (auto simp: integer_rounded_def)
qed

lemma value_sign:
  "real_value r = FLOAT u \<Longrightarrow> u < 0 \<Longrightarrow> real_negative r"
  "real_value r = FLOAT u \<Longrightarrow> 0 < u \<Longrightarrow> \<not> real_negative r"
  by (auto simp: real_value_def split: if_splits)

lemma integer_bits_sign: "x \<noteq> 0 \<Longrightarrow> real_negative (real_of_integer x) \<longleftrightarrow> sint x < 0"
proof -
  assume "x \<noteq> 0"
  then have n: "sint x \<noteq> 0" by (simp add: signed_eq_0_iff)
  let ?u = "integer_rounded (sint x) * REAL_ONE"
  have v: "real_value (real_of_integer x) = FLOAT ?u" by (simp add: integer_value float_of_integer_def)
  have "?u < 0 \<longleftrightarrow> sint x < 0" "0 < ?u \<longleftrightarrow> 0 < sint x"
    using integer_sign [of "sint x"] REAL_ONE_pos n unfolding mult_less_0_iff zero_less_mult_iff by auto
  then show ?thesis using value_sign [OF v] n by (metis linorder_neqE_linordered_idom order_less_asym)
qed

lemma zero_bits: "real_of_integer 0 = 0"
proof -
  have "bit_count 0 = 0" by (subst bit_count.simps) simp
  then show ?thesis
    by (simp add: real_of_integer_def float_of_integer_def integer_rounded_def round_53_def round_half_even_def
        real_of_float_def real_bits_def Let_def)
qed

lemma zero_value: "real_value (0 :: LhatReal) = FLOAT 0" "\<not> real_negative (0 :: LhatReal)"
  by (simp_all add: real_value_def real_exponent_def real_fraction_def real_negative_def real_units_def)

text \<open>The quotient fits but for the one division that has none.\<close>

lemma quotient_fits:
  fixes x y :: LhatInteger
  assumes "y \<noteq> 0" "\<not> (x = INT64_MIN \<and> y = - 1)"
  shows "fits_int64 (sint x div sint y)"
proof -
  have x: "- (2 ^ 63) \<le> sint x" "sint x < 2 ^ 63" using fits_sint [of x] by (simp_all add: fits_int64_def)
  have y: "sint y \<noteq> 0" using assms(1) by (simp add: signed_eq_0_iff)
  let ?q = "sint x div sint y"
  have m: "sint x = ?q * sint y + sint x mod sint y" by simp
  consider "sint y = 1" | "sint y = - 1" | "2 \<le> \<bar>sint y\<bar>" using y by linarith
  then show ?thesis
  proof cases
    case 1
    then show ?thesis using x by (simp add: fits_int64_def)
  next
    case 2
    then have "y = - 1" by (intro signed_word_eqI) simp
    then have "x \<noteq> INT64_MIN" using assms(2) by simp
    moreover have "x = INT64_MIN" if "sint x = - (2 ^ 63)"
      using that by (intro signed_word_eqI) (simp add: INT64_MIN_def)
    ultimately have "sint x \<noteq> - (2 ^ 63)" by blast
    then show ?thesis using x 2 by (simp add: fits_int64_def)
  next
    case 3
    have "\<bar>sint x mod sint y\<bar> < \<bar>sint y\<bar>" using y by (rule abs_mod_less)
    moreover have "\<bar>?q\<bar> * \<bar>sint y\<bar> \<le> \<bar>sint x\<bar> + \<bar>sint x mod sint y\<bar>"
      using m by (metis abs_mult abs_triangle_ineq4 add_diff_cancel_right')
    ultimately have "(\<bar>?q\<bar> - 1) * \<bar>sint y\<bar> < 2 ^ 63" using x by (simp add: left_diff_distrib)
    moreover have "(\<bar>?q\<bar> - 1) * 2 \<le> (\<bar>?q\<bar> - 1) * \<bar>sint y\<bar>" if "1 \<le> \<bar>?q\<bar>"
      using 3 that by (intro mult_left_mono) simp_all
    ultimately have "\<bar>?q\<bar> < 2 ^ 63" by (cases "1 \<le> \<bar>?q\<bar>") simp_all
    then show ?thesis by (auto simp: fits_int64_def)
  qed
qed

text \<open>C13: The integer division rounds down and the remainder has the sign of the divisor, so that quotient
  and remainder give back the dividend.  Division by zero answers a double: an infinity with the sign
  of the dividend, or a NaN.\<close>

theorem floor_division:
  assumes "\<not> (x = INT64_MIN \<and> y = - 1)"
  shows "(y \<noteq> 0 \<longrightarrow> (\<exists>q r. vm_step libm_pow st k_right LHAT_BC_IDIV (VALUE_INTEGER x) (VALUE_INTEGER y) = STEP_VALUE (VALUE_INTEGER q) \<and>
      vm_step libm_pow st k_right LHAT_BC_MOD (VALUE_INTEGER x) (VALUE_INTEGER y) = STEP_VALUE (VALUE_INTEGER r) \<and>
      sint q = sint x div sint y \<and> sint x = sint q * sint y + sint r \<and>
      (if 0 < sint y then 0 \<le> sint r \<and> sint r < sint y else sint y < sint r \<and> sint r \<le> 0))) \<and>
    (y = 0 \<longrightarrow> (\<exists>q r. vm_step libm_pow st k_right LHAT_BC_IDIV (VALUE_INTEGER x) (VALUE_INTEGER y) = STEP_VALUE (VALUE_REAL q) \<and>
      vm_step libm_pow st k_right LHAT_BC_MOD (VALUE_INTEGER x) (VALUE_INTEGER y) = STEP_VALUE (VALUE_REAL r) \<and>
      real_value q = (if x = 0 then FLOAT_NAN else FLOAT_INF (sint x < 0)) \<and> real_value r = FLOAT_NAN))"
proof (intro conjI impI)
  have steps: "vm_step libm_pow st k_right op (VALUE_INTEGER x) (VALUE_INTEGER y) =
      (case arithmetic libm_pow op (VALUE_INTEGER x) (VALUE_INTEGER y) of
         OUTCOME v \<Rightarrow> STEP_VALUE v | UNDEFINED \<Rightarrow> STEP_UNDEFINED | FAULT f \<Rightarrow> STEP_FAULT f)"
    if "op = LHAT_BC_IDIV \<or> op = LHAT_BC_MOD" for op
    using that by (auto simp: vm_step_def step_arithmetic_def arith_fast_of_def arithmetic_def carries_operators_def
        Let_def split: LhatOutcome.split)
  {
    assume y: "y \<noteq> 0"
    then have n: "sint y \<noteq> 0" by (simp add: signed_eq_0_iff)
    then have "\<not> float_equal (float_of_integer y) float_zero"
      using integer_sign(1) [of "sint y"] REAL_ONE_pos by (simp add: float_equal_def float_of_integer_def float_zero_def)
    then have a: "arithmetic libm_pow LHAT_BC_IDIV (VALUE_INTEGER x) (VALUE_INTEGER y) =
        OUTCOME (VALUE_INTEGER (word_of_int (sint x div sint y)))"
      "arithmetic libm_pow LHAT_BC_MOD (VALUE_INTEGER x) (VALUE_INTEGER y) =
        OUTCOME (VALUE_INTEGER (word_of_int (sint x mod sint y)))"
      using assms floored_division [OF n, of "sint x"] by (auto simp: arithmetic_def integer_value Let_def)
    have q: "sint (word_of_int (sint x div sint y) :: LhatInteger) = sint x div sint y"
      by (rule sint_of_fits [OF quotient_fits [OF y assms]])
    have "\<bar>sint x mod sint y\<bar> < \<bar>sint y\<bar>" using n by (rule abs_mod_less)
    then have "fits_int64 (sint x mod sint y)" using fits_sint [of y] by (auto simp: fits_int64_def)
    then have r: "sint (word_of_int (sint x mod sint y) :: LhatInteger) = sint x mod sint y" by (rule sint_of_fits)
    show "\<exists>q r. vm_step libm_pow st k_right LHAT_BC_IDIV (VALUE_INTEGER x) (VALUE_INTEGER y) = STEP_VALUE (VALUE_INTEGER q) \<and>
      vm_step libm_pow st k_right LHAT_BC_MOD (VALUE_INTEGER x) (VALUE_INTEGER y) = STEP_VALUE (VALUE_INTEGER r) \<and>
      sint q = sint x div sint y \<and> sint x = sint q * sint y + sint r \<and>
      (if 0 < sint y then 0 \<le> sint r \<and> sint r < sint y else sint y < sint r \<and> sint r \<le> 0)"
      using steps [of LHAT_BC_IDIV] steps [of LHAT_BC_MOD] a q r n
      by (intro exI [of _ "word_of_int (sint x div sint y)"] exI [of _ "word_of_int (sint x mod sint y)"]) auto
  next
    assume y: "y = 0"
    let ?q = "real_floor (real_divide (real_of_integer x) 0)"
    have d: "real_value (real_divide (real_of_integer x) 0) = (if x = 0 then FLOAT_NAN else FLOAT_INF (sint x < 0))"
      using integer_sign(1) [of "sint x"] REAL_ONE_pos integer_bits_sign [of x]
      by (auto simp: real_divide_def zero_value integer_value float_of_integer_def signed_eq_0_iff)
    then have q: "real_value ?q = (if x = 0 then FLOAT_NAN else FLOAT_INF (sint x < 0))"
      by (simp add: real_floor_def whole_double_def split: if_splits)
    have r: "real_value (real_minus (real_of_integer x) (real_times ?q 0)) = FLOAT_NAN"
      by (simp add: minus_value times_value q zero_value float_minus_def integer_value float_of_integer_def)
    show "\<exists>q r. vm_step libm_pow st k_right LHAT_BC_IDIV (VALUE_INTEGER x) (VALUE_INTEGER y) = STEP_VALUE (VALUE_REAL q) \<and>
      vm_step libm_pow st k_right LHAT_BC_MOD (VALUE_INTEGER x) (VALUE_INTEGER y) = STEP_VALUE (VALUE_REAL r) \<and>
      real_value q = (if x = 0 then FLOAT_NAN else FLOAT_INF (sint x < 0)) \<and> real_value r = FLOAT_NAN"
      using steps [of LHAT_BC_IDIV] steps [of LHAT_BC_MOD] q r y
      by (auto simp: arithmetic_def zero_bits zero_value float_equal_def float_zero_def Let_def)
  }
qed

theorem floor_division_witness:
  "\<exists>q r. vm_step (\<lambda>_ _. 0) sample_store False LHAT_BC_IDIV (VALUE_INTEGER (- 7)) (VALUE_INTEGER 2) = STEP_VALUE (VALUE_INTEGER q) \<and>
    vm_step (\<lambda>_ _. 0) sample_store False LHAT_BC_MOD (VALUE_INTEGER (- 7)) (VALUE_INTEGER 2) = STEP_VALUE (VALUE_INTEGER r) \<and>
    sint q = - 4 \<and> sint r = 1"
  using floor_division [of "- 7" 2 "\<lambda>_ _. 0" sample_store False] by auto presburger

lemma pow_of_integers:
  assumes "0 < sint y" "sint y \<le> 100"
  shows "arithmetic libm_pow LHAT_BC_POW (VALUE_INTEGER x) (VALUE_INTEGER y) =
    (if fits_int64 (sint x ^ nat (sint y)) then OUTCOME (VALUE_INTEGER (word_of_int (sint x ^ nat (sint y))))
     else UNDEFINED)"
proof (cases "x = 0")
  case True
  then show ?thesis
    using assms by (auto simp: arithmetic_def arithmetic_pow_def fits_int64_def Let_def zero_power)
next
  case False
  then show ?thesis
    using assms integer_power_is [OF False, of "nat (sint y)"]
    by (auto simp: arithmetic_def arithmetic_pow_def Let_def exactly_def)
qed

text \<open>C19: A whole power of an integer, up to the hundredth, is the integer where 64 bits hold it.  Where they
  do not the loop overflows, which C leaves undefined: the answer is not a double, as the other
  operations make it.\<close>

theorem integer_power_overflows:
  assumes "0 < sint y" "sint y \<le> 100"
  shows "vm_step libm_pow st k_right LHAT_BC_POW (VALUE_INTEGER x) (VALUE_INTEGER y) =
    (if fits_int64 (sint x ^ nat (sint y)) then STEP_VALUE (VALUE_INTEGER (word_of_int (sint x ^ nat (sint y))))
     else STEP_UNDEFINED)"
  using pow_of_integers [OF assms, of libm_pow x] by (simp add: vm_step_def step_arithmetic_def arith_fast_of_def)

theorem integer_power_overflows_witness:
  "vm_step (\<lambda>_ _. 0) sample_store False LHAT_BC_POW (VALUE_INTEGER 10) (VALUE_INTEGER 20) = STEP_UNDEFINED \<and>
   vm_step (\<lambda>_ _. 0) sample_store False LHAT_BC_POW (VALUE_INTEGER (- 2)) (VALUE_INTEGER 63) =
     STEP_VALUE (VALUE_INTEGER INT64_MIN)"
  using integer_power_overflows [of 20 "\<lambda>_ _. 0" sample_store False 10]
    integer_power_overflows [of 63 "\<lambda>_ _. 0" sample_store False "- 2"]
  by (simp add: fits_int64_def INT64_MIN_def)

text \<open>C16: Everything else is defined: an instruction on numbers comes to what C leaves undefined exactly where
  the smallest integer is divided by \<open>- 1\<close> or a power overflows.\<close>

theorem arithmetic_undefined:
  "vm_step libm_pow st k_right op left right = STEP_UNDEFINED \<longleftrightarrow>
    (\<exists>x y. left = VALUE_INTEGER x \<and> right = VALUE_INTEGER y \<and>
      ((op = LHAT_BC_IDIV \<or> op = LHAT_BC_MOD) \<and> x = INT64_MIN \<and> y = - 1 \<or>
       op = LHAT_BC_POW \<and> 0 < sint y \<and> sint y \<le> 100 \<and> \<not> fits_int64 (sint x ^ nat (sint y))))"
proof -
  have arith: "vm_step libm_pow st k_right op left right = STEP_UNDEFINED \<longleftrightarrow>
      arith_fast_of op left right = None \<and> arithmetic libm_pow op left right = UNDEFINED"
    by (cases op)
      (auto simp: vm_step_def step_arithmetic_def step_negate_def step_not_def step_bits_not_def step_bits_def step_equal_def
        step_same_def step_order_def step_spaceship_def arithmetic_def split: LhatValue.splits option.splits LhatOutcome.splits)
  have minus_one: "\<not> float_equal (real_value (real_of_integer (- 1))) float_zero"
    using integer_sign(1) [of "- 1"] REAL_ONE_pos
    by (simp add: integer_value float_equal_def float_of_integer_def float_zero_def)
  have division: "arithmetic libm_pow op left right = UNDEFINED \<longleftrightarrow>
      left = VALUE_INTEGER INT64_MIN \<and> right = VALUE_INTEGER (- 1)" if "op = LHAT_BC_IDIV \<or> op = LHAT_BC_MOD"
    using that minus_one by (cases left; cases right) (auto simp: arithmetic_def Let_def split: if_splits)
  have power: "arithmetic libm_pow LHAT_BC_POW left right = UNDEFINED \<longleftrightarrow>
      (\<exists>x y. left = VALUE_INTEGER x \<and> right = VALUE_INTEGER y \<and> 0 < sint y \<and> sint y \<le> 100 \<and>
        \<not> fits_int64 (sint x ^ nat (sint y)))"
  proof (cases "\<exists>x y. left = VALUE_INTEGER x \<and> right = VALUE_INTEGER y \<and> 0 < sint y \<and> sint y \<le> 100")
    case True
    then obtain x y where xy: "left = VALUE_INTEGER x" "right = VALUE_INTEGER y" "0 < sint y" "sint y \<le> 100" by blast
    then show ?thesis using pow_of_integers [OF xy(3,4), of libm_pow x] by auto
  next
    case False
    then show ?thesis
      by (cases left; cases right) (auto simp: arithmetic_def arithmetic_pow_def Let_def split: if_splits)
  qed
  have fast: "arith_fast_of op left right = None" if "op = LHAT_BC_IDIV \<or> op = LHAT_BC_MOD \<or> op = LHAT_BC_POW"
    using that by (auto simp: arith_fast_of_def)
  show ?thesis
  proof (cases "op = LHAT_BC_IDIV \<or> op = LHAT_BC_MOD \<or> op = LHAT_BC_POW")
    case True
    then show ?thesis unfolding arith using fast division power by auto
  next
    case False
    then show ?thesis
      unfolding arith by (cases op; cases left; cases right) (auto simp: arithmetic_def Let_def split: option.splits)
  qed
qed

subsection \<open>Orderings\<close>

text \<open>What the three-way answer is for two numbers that are not NaN.\<close>

lemma three_way:
  assumes "lhat_is_number a" "lhat_is_number b" "lhat_number_as_real a \<noteq> FLOAT_NAN" "lhat_number_as_real b \<noteq> FLOAT_NAN"
  obtains k where "vm_three_way st a b = Some k" "vm_three_way st b a = Some (- k)"
    "k = 0 \<longleftrightarrow> lhat_value_close st a b LHAT_NUMBER_TOLERANCE"
proof (cases "\<exists>x y. a = VALUE_INTEGER x \<and> b = VALUE_INTEGER y")
  case True
  then obtain x y where xy: "a = VALUE_INTEGER x" "b = VALUE_INTEGER y" by blast
  then have "lhat_value_close st a b LHAT_NUMBER_TOLERANCE \<longleftrightarrow> x = y" by (simp add: lhat_value_close_def)
  moreover have "x = y \<longleftrightarrow> sint x = sint y" using signed_word_eqI by auto
  ultimately show ?thesis
    using that [of "(if sint y < sint x then 1 else 0) - (if sint x < sint y then 1 else 0)"] xy
    by (auto simp: vm_three_way_def)
next
  case False
  let ?close = "lhat_value_close st a b LHAT_NUMBER_TOLERANCE"
  have sym: "lhat_value_close st b a LHAT_NUMBER_TOLERANCE = ?close" using close_symmetric [OF assms(1,2)] by simp
  have w: "vm_three_way st c d = (if lhat_value_close st c d LHAT_NUMBER_TOLERANCE then Some 0
      else Some (if float_less (lhat_number_as_real c) (lhat_number_as_real d) then - 1 else 1))"
    if "lhat_is_number c" "lhat_is_number d" "\<not> (\<exists>x y. c = VALUE_INTEGER x \<and> d = VALUE_INTEGER y)" for c d
    using that by (cases c; cases d) (simp_all add: vm_three_way_def)
  have "float_less (lhat_number_as_real a) (lhat_number_as_real b) \<noteq> float_less (lhat_number_as_real b) (lhat_number_as_real a)"
    if "\<not> ?close"
  proof -
    have "\<not> (lhat_is_integer a \<and> lhat_is_integer b)" using False assms(1,2) by (cases a; cases b) auto
    then have "\<not> float_equal (lhat_number_as_real a) (lhat_number_as_real b)"
      using that assms(1,2) by (auto simp: lhat_value_close_def)
    then show ?thesis using float_less_total [OF assms(3,4)] float_less_facts(1) by blast
  qed
  moreover have "vm_three_way st b a = (if ?close then Some 0
      else Some (if float_less (lhat_number_as_real b) (lhat_number_as_real a) then - 1 else 1))"
    using w [OF assms(2,1)] False sym by auto
  ultimately show ?thesis
    using that [of "if ?close then 0 else if float_less (lhat_number_as_real a) (lhat_number_as_real b) then - 1 else 1"]
      w [OF assms(1,2)] False by auto
qed

lemma order_fast_is:
  "op \<in> {LHAT_BC_LT, LHAT_BC_LE, LHAT_BC_GT, LHAT_BC_GE} \<Longrightarrow>
   step_order st op (VALUE_INTEGER x) (VALUE_INTEGER y) =
     STEP_VALUE (VALUE_BOOL (the (ordering st op (VALUE_INTEGER x) (VALUE_INTEGER y))))"
  by (auto simp: step_order_def ordering_def vm_three_way_def)

lemma step_order_is:
  assumes "op \<in> {LHAT_BC_LT, LHAT_BC_LE, LHAT_BC_GT, LHAT_BC_GE}" "ordering st op a b = Some h"
  shows "step_order st op a b = STEP_VALUE (VALUE_BOOL h)"
proof (cases "\<exists>x y. a = VALUE_INTEGER x \<and> b = VALUE_INTEGER y")
  case True
  then show ?thesis using order_fast_is [OF assms(1)] assms(2) by fastforce
next
  case False
  then have "order_fast op a b = None" by (cases a; cases b) simp_all
  then show ?thesis using assms(2) by (simp add: step_order_def)
qed

lemma number_carries_none: "lhat_is_number a \<Longrightarrow> \<not> carries_operators st a"
  by (cases a) (simp_all add: carries_operators_def)

lemma order_step:
  assumes "lhat_is_number a" "lhat_is_number b" "vm_three_way st a b = Some k"
  shows "vm_step libm_pow st k_right LHAT_BC_LT a b = STEP_VALUE (VALUE_BOOL (k < 0))"
    "vm_step libm_pow st k_right LHAT_BC_LE a b = STEP_VALUE (VALUE_BOOL (k \<le> 0))"
    "vm_step libm_pow st k_right LHAT_BC_GT a b = STEP_VALUE (VALUE_BOOL (0 < k))"
    "vm_step libm_pow st k_right LHAT_BC_GE a b = STEP_VALUE (VALUE_BOOL (0 \<le> k))"
    "vm_step libm_pow st k_right LHAT_BC_EQ a b =
      STEP_VALUE (VALUE_BOOL (lhat_value_close st a b LHAT_NUMBER_TOLERANCE))"
    "vm_step libm_pow st k_right LHAT_BC_NE a b =
      STEP_VALUE (VALUE_BOOL (\<not> lhat_value_close st a b LHAT_NUMBER_TOLERANCE))"
  using assms(3) number_carries_none [OF assms(1)] number_carries_none [OF assms(2)]
  by (simp_all add: vm_step_def step_order_is ordering_def step_equal_def)

text \<open>C14: Of two numbers, none a NaN, exactly one comes first or they are equal; the four orderings and the
  two equalities all say the same, from either side, for integers, for doubles and for one of each.\<close>

theorem orderings_agree:
  assumes "lhat_is_number a" "lhat_is_number b" "lhat_number_as_real a \<noteq> FLOAT_NAN" "lhat_number_as_real b \<noteq> FLOAT_NAN"
  shows "\<exists>lt eq gt.
    map (\<lambda>op. vm_step libm_pow st k_right op a b) [LHAT_BC_LT, LHAT_BC_EQ, LHAT_BC_GT, LHAT_BC_LE, LHAT_BC_GE, LHAT_BC_NE] =
      map (\<lambda>x. STEP_VALUE (VALUE_BOOL x)) [lt, eq, gt, lt \<or> eq, gt \<or> eq, \<not> eq] \<and>
    map (\<lambda>op. vm_step libm_pow st k_right op b a) [LHAT_BC_LT, LHAT_BC_EQ, LHAT_BC_GT] =
      map (\<lambda>x. STEP_VALUE (VALUE_BOOL x)) [gt, eq, lt] \<and>
    length (filter (\<lambda>x. x) [lt, eq, gt]) = 1"
proof -
  obtain k where k: "vm_three_way st a b = Some k" "vm_three_way st b a = Some (- k)"
    "k = 0 \<longleftrightarrow> lhat_value_close st a b LHAT_NUMBER_TOLERANCE"
    using three_way [OF assms(1-4)] by blast
  have "lhat_value_close st b a LHAT_NUMBER_TOLERANCE = (k = 0)"
    using close_symmetric [OF assms(1,2)] k(3) by simp
  then show ?thesis
    using order_step [OF assms(1,2) k(1), of libm_pow k_right] order_step [OF assms(2,1) k(2), of libm_pow k_right] k(3)
    by (intro exI [of _ "k < 0"] exI [of _ "k = 0"] exI [of _ "0 < k"]) auto
qed

theorem orderings_agree_witness:
  "\<exists>lt. vm_step (\<lambda>_ _. 0) sample_store False LHAT_BC_LT (VALUE_INTEGER 9007199254740992) (VALUE_INTEGER 9007199254740993) =
     STEP_VALUE (VALUE_BOOL lt) \<and>
   vm_step (\<lambda>_ _. 0) sample_store False LHAT_BC_GT (VALUE_INTEGER 9007199254740993) (VALUE_INTEGER 9007199254740992) =
     STEP_VALUE (VALUE_BOOL lt)"
  using orderings_agree [of "VALUE_INTEGER 9007199254740992" "VALUE_INTEGER 9007199254740993" "\<lambda>_ _. 0" sample_store False]
  by (auto simp: float_of_integer_def)

lemma nan_not_close:
  assumes "lhat_is_number a" "lhat_is_number b" "lhat_number_as_real a = FLOAT_NAN \<or> lhat_number_as_real b = FLOAT_NAN"
  shows "\<not> lhat_value_close st a b tolerance"
proof -
  have nan: "\<not> float_less_eq FLOAT_NAN f" for f by (simp add: float_less_eq_def float_equal_def)
  have "\<not> (lhat_is_integer a \<and> lhat_is_integer b)"
    using assms by (cases a; cases b) (auto simp: float_of_integer_def)
  then show ?thesis
    using assms nan
    by (cases "lhat_number_as_real a"; cases "lhat_number_as_real b")
      (auto simp: lhat_value_close_def Let_def float_equal_def float_minus_def float_zero_def)
qed

text \<open>C20: A NaN comes after every number, itself included, and every number after it: both orders of the
  question are answered with greater, so that neither side of a comparison can be relied on.\<close>

theorem nan_above_all:
  assumes "real_value n = FLOAT_NAN" "lhat_is_number v"
  shows "vm_step libm_pow st k_right LHAT_BC_GT (VALUE_REAL n) v = STEP_VALUE (VALUE_BOOL True) \<and>
    vm_step libm_pow st k_right LHAT_BC_GT v (VALUE_REAL n) = STEP_VALUE (VALUE_BOOL True) \<and>
    vm_step libm_pow st k_right LHAT_BC_EQ (VALUE_REAL n) v = STEP_VALUE (VALUE_BOOL False)"
proof -
  let ?n = "VALUE_REAL n"
  have c: "\<not> lhat_value_close st ?n v t" "\<not> lhat_value_close st v ?n t" for t
    using assms by (intro nan_not_close; simp)+
  have "\<not> float_less FLOAT_NAN f" "\<not> float_less f FLOAT_NAN" for f by (cases f; simp)+
  then have "vm_three_way st ?n v = Some 1" "vm_three_way st v ?n = Some 1"
    using c assms by (cases v; simp add: vm_three_way_def)+
  then show ?thesis using order_step [of ?n v st] order_step [of v ?n st] assms c by simp
qed

theorem nan_above_all_witness:
  "vm_step (\<lambda>_ _. 0) sample_store False LHAT_BC_GT (VALUE_REAL 0x7FF8000000000000) (VALUE_INTEGER 1) =
     STEP_VALUE (VALUE_BOOL True) \<and>
   vm_step (\<lambda>_ _. 0) sample_store False LHAT_BC_GT (VALUE_INTEGER 1) (VALUE_REAL 0x7FF8000000000000) =
     STEP_VALUE (VALUE_BOOL True)"
proof -
  have "real_value 0x7FF8000000000000 = FLOAT_NAN"
    by (simp add: real_value_def real_exponent_def real_fraction_def)
  from nan_above_all [OF this, of "VALUE_INTEGER 1" "\<lambda>_ _. 0" sample_store False] show ?thesis by simp
qed

end
