(* ===== verification/Lhat_ForProps.thy ===== *)
theory Lhat_ForProps
  imports Lhat_ArithProps
begin

text \<open>
  The numeric loop, the bits of integers, the rounding operations and the types of what the
  instructions answer.
\<close>

subsection \<open>The loop\<close>

text \<open>The values of the focus over all turns after the first, and over all turns, up to the end of the loop
or a fault; \<open>None\<close> if it does not end.\<close>

partial_function (option) for_turns ::
  "(LhatReal \<Rightarrow> LhatReal \<Rightarrow> LhatReal) \<Rightarrow> LhatStore \<Rightarrow> bool \<Rightarrow> LhatValue \<Rightarrow> LhatValue \<Rightarrow> LhatValue \<Rightarrow>
   LhatValue list option" where
  "for_turns libm_pow st down focus bound step =
     (case for_loop libm_pow st down focus bound step of
        None \<Rightarrow> Some []
      | Some (moved, again) \<Rightarrow>
          if again then Option.bind (for_turns libm_pow st down moved bound step) (\<lambda>vs. Some (moved # vs)) else Some [])"

definition for_values ::
  "(LhatReal \<Rightarrow> LhatReal \<Rightarrow> LhatReal) \<Rightarrow> LhatStore \<Rightarrow> bool \<Rightarrow> LhatValue \<Rightarrow> LhatValue \<Rightarrow> LhatValue \<Rightarrow>
   LhatValue list option" where
  "for_values libm_pow st down focus bound step =
     (if for_prep st down focus bound step = Some True
      then map_option (\<lambda>vs. focus # vs) (for_turns libm_pow st down focus bound step) else Some [])"

definition counted :: "int \<Rightarrow> int \<Rightarrow> nat \<Rightarrow> LhatValue list" where
  "counted i s n = map (\<lambda>k. VALUE_INTEGER (word_of_int (i + int k * s))) [0..<n]"

lemma counted_Suc: "counted i s (Suc n) = VALUE_INTEGER (word_of_int i) # counted (i + s) s n"
  by (simp add: counted_def upt_conv_Cons map_Suc_upt [symmetric] algebra_simps del: upt_Suc)

text \<open>The signed step of a loop, and how far the bound is away in its direction.\<close>

lemma for_turns_count:
  fixes i b s :: LhatInteger
  assumes "0 < sint s"
  defines "way \<equiv> (\<lambda>down :: bool. \<lambda>x :: int. if down then - x else x)"
  shows "0 \<le> way down (sint b - sint i) \<Longrightarrow>
    for_turns libm_pow st down (VALUE_INTEGER i) (VALUE_INTEGER b) (VALUE_INTEGER s) =
      Some (counted (sint i + way down (sint s)) (way down (sint s)) (nat (way down (sint b - sint i) div sint s)))"
proof (induction "nat (way down (sint b - sint i))" arbitrary: i rule: less_induct)
  case less
  let ?e = "sint i + way down (sint s)"
  have loop: "for_loop libm_pow st down (VALUE_INTEGER i) (VALUE_INTEGER b) (VALUE_INTEGER s) =
      (case exactly ?e of
         Some j \<Rightarrow> Some (VALUE_INTEGER j, if down then sint b \<le> sint j else sint j \<le> sint b)
       | None \<Rightarrow> Some (VALUE_INTEGER i, False))"
    by (cases down) (simp_all add: for_loop_def add_exact_is subtract_exact_is way_def split: option.split)
  let ?gap = "way down (sint b - sint i)"
  show ?case
  proof (cases "sint s \<le> ?gap")
    case True
    have f: "fits_int64 ?e"
      using True assms(1) fits_sint [of i] fits_sint [of b] by (auto simp: way_def fits_int64_def split: if_splits)
    define j :: LhatInteger where "j = word_of_int ?e"
    have j: "sint j = ?e" unfolding j_def by (rule sint_of_fits [OF f])
    have gap: "way down (sint b - sint j) = ?gap - sint s" unfolding j by (simp add: way_def)
    have "exactly ?e = Some j" by (simp only: exactly_def f j_def if_True)
    moreover have "if down then sint b \<le> sint j else sint j \<le> sint b"
      using True assms(1) unfolding j by (simp add: way_def split: if_splits)
    ultimately have turn: "for_loop libm_pow st down (VALUE_INTEGER i) (VALUE_INTEGER b) (VALUE_INTEGER s) =
        Some (VALUE_INTEGER j, True)"
      unfolding loop by simp
    have "for_turns libm_pow st down (VALUE_INTEGER j) (VALUE_INTEGER b) (VALUE_INTEGER s) =
        Some (counted (?e + way down (sint s)) (way down (sint s)) (nat ((?gap - sint s) div sint s)))"
    proof -
      have "for_turns libm_pow st down (VALUE_INTEGER j) (VALUE_INTEGER b) (VALUE_INTEGER s) =
          Some (counted (sint j + way down (sint s)) (way down (sint s)) (nat (way down (sint b - sint j) div sint s)))"
        by (rule less.hyps) (use gap True assms(1) in simp_all)
      then show ?thesis unfolding gap unfolding j .
    qed
    moreover have "nat (?gap div sint s) = Suc (nat ((?gap - sint s) div sint s))"
    proof -
      have "?gap div sint s = (?gap - sint s) div sint s + 1"
        using assms(1) div_add_self2 [of "sint s" "?gap - sint s"] by simp
      moreover have "0 \<le> (?gap - sint s) div sint s" using True assms(1) by (simp add: pos_imp_zdiv_nonneg_iff)
      ultimately show ?thesis by simp
    qed
    ultimately show ?thesis
      using turn by (subst for_turns.simps) (simp add: counted_Suc j_def)
  next
    case False
    have "\<exists>v. for_loop libm_pow st down (VALUE_INTEGER i) (VALUE_INTEGER b) (VALUE_INTEGER s) = Some (v, False)"
    proof (cases "fits_int64 ?e")
      case True
      define j :: LhatInteger where "j = word_of_int ?e"
      have j: "sint j = ?e" unfolding j_def by (rule sint_of_fits [OF True])
      have "exactly ?e = Some j" by (simp only: exactly_def True j_def if_True)
      moreover have "\<not> (if down then sint b \<le> sint j else sint j \<le> sint b)"
        using False unfolding j by (cases down) (simp_all add: way_def)
      ultimately show ?thesis unfolding loop by simp
    qed (simp add: loop exactly_def)
    moreover have "?gap div sint s = 0" using False less.prems by simp
    ultimately show ?thesis by (subst for_turns.simps) (auto simp: counted_def)
  qed
qed

text \<open>C12: A loop over integers ends and visits the values from the start to the bound, one step apart, each
  once and in order, and none past the bound: also where the bound is the largest or the smallest
  integer, at which the next value would overflow.\<close>

theorem for_visits:
  assumes "check_step (VALUE_INTEGER s) = LHAT_RUN_OK"
  shows "for_values libm_pow st False (VALUE_INTEGER i) (VALUE_INTEGER b) (VALUE_INTEGER s) =
      Some (counted (sint i) (sint s) (if sint i \<le> sint b then nat ((sint b - sint i) div sint s) + 1 else 0)) \<and>
    for_values libm_pow st True (VALUE_INTEGER i) (VALUE_INTEGER b) (VALUE_INTEGER s) =
      Some (counted (sint i) (- sint s) (if sint b \<le> sint i then nat ((sint i - sint b) div sint s) + 1 else 0))"
proof -
  have s: "0 < sint s" using assms by (simp add: check_step_def split: if_splits)
  have o: "ordering st LHAT_BC_LE (VALUE_INTEGER i) (VALUE_INTEGER b) = Some (sint i \<le> sint b)"
    "ordering st LHAT_BC_GE (VALUE_INTEGER i) (VALUE_INTEGER b) = Some (sint b \<le> sint i)"
    by (auto simp: ordering_def vm_three_way_def)
  have zero: "counted i s 0 = []" for i s by (simp add: counted_def)
  show ?thesis
    using for_turns_count [OF s, of False b i libm_pow st] for_turns_count [OF s, of True b i libm_pow st]
    by (auto simp: for_values_def for_prep_def o counted_Suc zero intro: signed_word_eqI)
qed

theorem for_visits_witness:
  "for_values (\<lambda>_ _. 0) sample_store False (VALUE_INTEGER 9223372036854775804) (VALUE_INTEGER 9223372036854775807) (VALUE_INTEGER 2) =
     Some [VALUE_INTEGER 9223372036854775804, VALUE_INTEGER 9223372036854775806]"
  using for_visits [of 2 "\<lambda>_ _. 0" sample_store 9223372036854775804 9223372036854775807]
  by (simp add: check_step_def counted_def numeral_2_eq_2)

subsection \<open>Bits\<close>

lemma shift_bit:
  fixes u v :: LhatInteger
  assumes "k < 64"
  shows "bit (bits_of_op LHAT_BC_BSHIFT u v) k \<longleftrightarrow>
    0 \<le> int k - sint v \<and> int k - sint v < 64 \<and> bit u (nat (int k - sint v))"
proof -
  consider "64 \<le> sint v \<or> sint v \<le> - 64" | "0 \<le> sint v" "sint v < 64" | "sint v < 0" "- 64 < sint v" by linarith
  then show ?thesis
  proof cases
    case 1
    then show ?thesis using assms by (auto simp: bits_of_op_def)
  next
    case 2
    then have "nat (int k - sint v) = k - nat (sint v)" "nat (sint v) \<le> k \<longleftrightarrow> sint v \<le> int k" by auto
    then show ?thesis using 2 assms by (auto simp: bits_of_op_def bit_push_bit_iff)
  next
    case 3
    then have n: "nat (int k - sint v) = nat (- sint v) + k" by simp
    have "bit u (nat (- sint v) + k) \<Longrightarrow> nat (- sint v) + k < 64" using bit_imp_le_length [of u] by simp
    then show ?thesis using 3 assms by (auto simp: bits_of_op_def bit_drop_bit_eq n)
  qed
qed

lemma bit_at: "native_bits LHAT_NATIVE_BITAT u v \<longleftrightarrow> 0 \<le> sint v \<and> sint v < 64 \<and> bit u (nat (sint v))"
  by (auto simp: native_bits_def and_one_eq bit_iff_odd_drop_bit odd_iff_mod_2_eq_one)

text \<open>C18: A shift moves every bit by the count, up where it is positive and down where it is negative, fills
  with zeros and drops what leaves the 64, whatever the count; the bit asked for at a place is the one
  that stood that far from it, and no place outside the 64 holds one.\<close>

theorem shift_moves_bits:
  assumes "lhat_number_as_whole st a = Some u" "lhat_number_as_whole st b = Some v"
  shows "\<exists>w. vm_step libm_pow st k_right LHAT_BC_BSHIFT a b = STEP_VALUE (VALUE_INTEGER w) \<and>
    (\<forall>k. vm_number_native st LHAT_NATIVE_BITAT (VALUE_INTEGER w) [VALUE_INTEGER k] = (LHAT_RUN_OK, VALUE_BOOL
      (0 \<le> sint k \<and> sint k < 64 \<and> 0 \<le> sint k - sint v \<and> sint k - sint v < 64 \<and> bit u (nat (sint k - sint v)))))"
proof -
  have "native_bits LHAT_NATIVE_BITAT (bits_of_op LHAT_BC_BSHIFT u v) k \<longleftrightarrow>
      0 \<le> sint k \<and> sint k < 64 \<and> 0 \<le> sint k - sint v \<and> sint k - sint v < 64 \<and> bit u (nat (sint k - sint v))" for k
    using shift_bit [of "nat (sint k)" u v] unfolding bit_at by auto
  then show ?thesis using assms by (simp add: vm_step_def step_bits_def vm_number_native_def)
qed

theorem shift_moves_bits_witness:
  "\<exists>w. vm_step (\<lambda>_ _. 0) sample_store False LHAT_BC_BSHIFT (VALUE_INTEGER 5) (VALUE_INTEGER (- 2)) = STEP_VALUE (VALUE_INTEGER w) \<and>
    vm_number_native sample_store LHAT_NATIVE_BITAT (VALUE_INTEGER w) [VALUE_INTEGER 0] = (LHAT_RUN_OK, VALUE_BOOL True) \<and>
    vm_number_native sample_store LHAT_NATIVE_BITAT (VALUE_INTEGER w) [VALUE_INTEGER 1] = (LHAT_RUN_OK, VALUE_BOOL False)"
  using shift_moves_bits [of sample_store "VALUE_INTEGER 5" 5 "VALUE_INTEGER (- 2)" "- 2" "\<lambda>_ _. 0" False]
  by fastforce

subsection \<open>Rounding\<close>

text \<open>C17: The rounding operations answer the whole number that their name says: the largest that is not above
  the double, the smallest that is not below, or the nearest, of two equally near the even one.  It is
  an integer where 64 bits hold it, and otherwise that number as a double.\<close>

theorem rounding_natives:
  assumes "kind \<in> {LHAT_NATIVE_FLOOR, LHAT_NATIVE_CEIL, LHAT_NATIVE_ROUND}" "real_value r = FLOAT u"
  shows "\<exists>t w. rounds_to kind u t \<and> real_value w = FLOAT (t * REAL_ONE) \<and>
    vm_number_native st kind (VALUE_REAL r) [] =
      (LHAT_RUN_OK, if fits_int64 t then VALUE_INTEGER (word_of_int t) else VALUE_REAL w)"
proof -
  have "\<exists>w. real_value w = FLOAT (toward u * REAL_ONE) \<and>
      whole_of st toward (VALUE_REAL r) = (if fits_int64 (toward u) then VALUE_INTEGER (word_of_int (toward u)) else VALUE_REAL w)"
    if "\<bar>toward u\<bar> \<le> \<bar>u\<bar> div REAL_ONE + 1" "REAL_ONE dvd u \<longrightarrow> toward u * REAL_ONE = u" for toward
    using whole_of_double [OF assms(2), of toward st] that
      value_of_bits [OF whole_holds [OF double_value_holds [OF assms(2)], of "toward u"]] by (auto split: if_splits)
  note answers = this
  have picks: ?thesis
    if "rounds_to kind u (toward u)" "\<bar>toward u\<bar> \<le> \<bar>u\<bar> div REAL_ONE + 1" "REAL_ONE dvd u \<longrightarrow> toward u * REAL_ONE = u"
      "vm_number_native st kind (VALUE_REAL r) [] = (LHAT_RUN_OK, whole_of st toward (VALUE_REAL r))" for toward
  proof -
    from answers [of toward, OF that(2,3)] obtain w where "real_value w = FLOAT (toward u * REAL_ONE)"
      "whole_of st toward (VALUE_REAL r) = (if fits_int64 (toward u) then VALUE_INTEGER (word_of_int (toward u)) else VALUE_REAL w)"
      by blast
    then show ?thesis using that(1,4) by (intro exI [of _ "toward u"] exI [of _ w]) simp
  qed
  consider "kind = LHAT_NATIVE_FLOOR" | "kind = LHAT_NATIVE_CEIL" | "kind = LHAT_NATIVE_ROUND" using assms(1) by blast
  then show ?thesis
  proof cases
    case 1
    then show ?thesis using floor_near [of u] by (intro picks [of float_floor]) (simp_all add: rounds_to_def vm_number_native_def)
  next
    case 2
    then show ?thesis using ceil_near [of u] by (intro picks [of float_ceil]) (simp_all add: rounds_to_def vm_number_native_def)
  next
    case 3
    then show ?thesis using nearby_near [of u] by (intro picks [of float_nearby]) (simp_all add: rounds_to_def vm_number_native_def)
  qed
qed

theorem rounding_natives_witness:
  "\<exists>t. 2 * t \<le> 5 \<and> 5 < 2 * (t + 1) \<and>
    vm_number_native sample_store LHAT_NATIVE_FLOOR (VALUE_REAL 0x4004000000000000) [] =
      (LHAT_RUN_OK, VALUE_INTEGER (word_of_int t))"
proof -
  have "real_value 0x4004000000000000 = FLOAT (5 * 2 ^ 1073)"
    by (simp add: real_value_def real_exponent_def real_fraction_def real_units_def real_negative_def)
  from rounding_natives [OF _ this, of LHAT_NATIVE_FLOOR sample_store] obtain t w where
    t: "rounds_to LHAT_NATIVE_FLOOR (5 * 2 ^ 1073) t"
      "vm_number_native sample_store LHAT_NATIVE_FLOOR (VALUE_REAL 0x4004000000000000) [] =
        (LHAT_RUN_OK, if fits_int64 t then VALUE_INTEGER (word_of_int t) else VALUE_REAL w)" by auto
  define c :: int where "c = 2 ^ 1073"
  have c: "REAL_ONE = 2 * c" "0 < c" by (simp_all add: REAL_ONE_def c_def)
  then have "(2 * t) * c \<le> 5 * c" "5 * c < (2 * (t + 1)) * c"
    using t(1) unfolding c_def [symmetric] rounds_to_def c(1) by (simp_all add: algebra_simps)
  then have "2 * t \<le> 5" "5 < 2 * (t + 1)"
    using c(2) by (simp_all only: mult_le_cancel_right_pos mult_less_cancel_right_pos)
  then show ?thesis using t(2) by (auto simp: fits_int64_def)
qed

text \<open>A value is not held between two integers that one double stands for: it may be answered although it is
below the lower bound.\<close>

theorem clamp_below_bound:
  "vm_number_native sample_store LHAT_NATIVE_CLAMP (VALUE_INTEGER 9007199254740992)
     [VALUE_INTEGER 9007199254740993, VALUE_INTEGER 9007199254740995] = (LHAT_RUN_OK, VALUE_INTEGER 9007199254740992) \<and>
   vm_step (\<lambda>_ _. 0) sample_store False LHAT_BC_LT (VALUE_INTEGER 9007199254740992) (VALUE_INTEGER 9007199254740993) =
     STEP_VALUE (VALUE_BOOL True)"
proof -
  have count: "bit_count n = 54" if "2 ^ 53 \<le> n" "n < 2 ^ 54" for n
    using that bit_count_le [of n 54] bit_count_le [of n 53] by simp
  have "integer_rounded 9007199254740992 = 9007199254740992" "integer_rounded 9007199254740993 = 9007199254740992"
    "integer_rounded 9007199254740995 = 9007199254740996"
    by (simp_all add: integer_rounded_def round_53_def count round_half_even_def)
  then show ?thesis
    using REAL_ONE_pos
    by (simp add: vm_number_native_def native_clamp_def float_of_integer_def vm_step_def step_order_def)
qed

subsection \<open>Types\<close>

fun number_outcome :: "LhatOutcome \<Rightarrow> bool" where
  "number_outcome (OUTCOME v) = lhat_is_number v"
| "number_outcome UNDEFINED = True"
| "number_outcome (FAULT status) = False"

lemma pow_number: "number_outcome (arithmetic_pow libm_pow a b)"
proof (cases b)
  case (VALUE_INTEGER y)
  then show ?thesis
    by (cases a) (simp_all add: arithmetic_pow_def Let_def split: if_split option.split)
qed (simp_all add: arithmetic_pow_def)

lemma arithmetic_number:
  assumes "lhat_is_number a" "lhat_is_number b"
    "op \<in> {LHAT_BC_ADD, LHAT_BC_SUB, LHAT_BC_MUL, LHAT_BC_DIV, LHAT_BC_IDIV, LHAT_BC_MOD, LHAT_BC_POW}"
  shows "number_outcome (arithmetic libm_pow op a b)"
proof -
  have n: "(\<not> lhat_is_number a \<or> \<not> lhat_is_number b) = False" using assms(1,2) by simp
  consider "op = LHAT_BC_POW" | "op \<in> {LHAT_BC_ADD, LHAT_BC_SUB, LHAT_BC_MUL, LHAT_BC_DIV}"
    | "op = LHAT_BC_IDIV \<or> op = LHAT_BC_MOD" using assms(3) by blast
  then show ?thesis
  proof cases
    case 1
    then show ?thesis unfolding arithmetic_def n by (simp add: pow_number Let_def)
  next
    case 2
    then show ?thesis
      unfolding arithmetic_def n Let_def by (auto split: LhatValue.split option.split)
  next
    case 3
    then show ?thesis
      unfolding arithmetic_def n Let_def by (elim disjE) (simp_all split: LhatValue.split)
  qed
qed

lemma fast_number: "arith_fast_of op a b = Some v \<Longrightarrow> lhat_is_number v \<and> lhat_is_number a \<and> lhat_is_number b"
  by (cases op; cases a; cases b) (auto simp: arith_fast_of_def)

text \<open>C15: Numbers come to numbers and truth values.  An instruction of arithmetic on two numbers answers a
  number unless C leaves it undefined, an ordering or an equality answers a truth value, and where an
  operand is no number and none carries operators arithmetic faults with a type error.\<close>

theorem instruction_types:
  assumes "op \<in> {LHAT_BC_ADD, LHAT_BC_SUB, LHAT_BC_MUL, LHAT_BC_DIV, LHAT_BC_IDIV, LHAT_BC_MOD, LHAT_BC_POW}"
    "order \<in> {LHAT_BC_LT, LHAT_BC_LE, LHAT_BC_GT, LHAT_BC_GE, LHAT_BC_EQ, LHAT_BC_NE}"
  shows "(lhat_is_number a \<and> lhat_is_number b \<longrightarrow>
      vm_step libm_pow st k_right op a b = STEP_UNDEFINED \<or>
      (\<exists>v. vm_step libm_pow st k_right op a b = STEP_VALUE v \<and> lhat_is_number v)) \<and>
    (lhat_is_number a \<and> lhat_is_number b \<longrightarrow> (\<exists>x. vm_step libm_pow st k_right order a b = STEP_VALUE (VALUE_BOOL x))) \<and>
    (\<not> (lhat_is_number a \<and> lhat_is_number b) \<and> \<not> carries_operators st a \<and> \<not> carries_operators st b \<longrightarrow>
      vm_step libm_pow st k_right op a b = STEP_FAULT LHAT_RUN_TYPE_ERROR)"
proof (intro conjI impI)
  have s: "vm_step libm_pow st k_right op a b = step_arithmetic libm_pow st k_right op a b"
    using assms(1) by (auto simp: vm_step_def)
  {
    assume n: "lhat_is_number a \<and> lhat_is_number b"
    show "vm_step libm_pow st k_right op a b = STEP_UNDEFINED \<or>
      (\<exists>v. vm_step libm_pow st k_right op a b = STEP_VALUE v \<and> lhat_is_number v)"
      using arithmetic_number [of a b op libm_pow] n assms(1) fast_number [of op a b] unfolding s step_arithmetic_def
      by (cases "arith_fast_of op a b"; cases "arithmetic libm_pow op a b") auto
    have "\<exists>k. vm_three_way st a b = Some k" using n by (cases a; cases b) (auto simp: vm_three_way_def)
    then obtain k where "vm_three_way st a b = Some k" by blast
    from order_step [OF _ _ this, of libm_pow k_right] n assms(2)
    show "\<exists>x. vm_step libm_pow st k_right order a b = STEP_VALUE (VALUE_BOOL x)" by auto
  next
    assume n: "\<not> (lhat_is_number a \<and> lhat_is_number b) \<and> \<not> carries_operators st a \<and> \<not> carries_operators st b"
    then have "arith_fast_of op a b = None" using fast_number [of op a b] by (cases "arith_fast_of op a b") auto
    moreover have "arithmetic libm_pow op a b = FAULT LHAT_RUN_TYPE_ERROR" using n by (simp add: arithmetic_def)
    ultimately show "vm_step libm_pow st k_right op a b = STEP_FAULT LHAT_RUN_TYPE_ERROR"
      using n unfolding s step_arithmetic_def by simp
  }
qed

theorem instruction_types_witness:
  "(\<exists>v. vm_step (\<lambda>_ _. 0) sample_store False LHAT_BC_DIV (VALUE_INTEGER 1) (VALUE_INTEGER 0) = STEP_VALUE v \<and> lhat_is_number v) \<and>
   vm_step (\<lambda>_ _. 0) sample_store False LHAT_BC_DIV (VALUE_BOOL True) (VALUE_INTEGER 2) = STEP_FAULT LHAT_RUN_TYPE_ERROR"
proof -
  have "vm_step (\<lambda>_ _. 0) sample_store False LHAT_BC_DIV (VALUE_INTEGER 1) (VALUE_INTEGER 0) \<noteq> STEP_UNDEFINED"
    by (simp add: vm_step_def step_arithmetic_def arith_fast_of_def arithmetic_def Let_def)
  then show ?thesis
    using instruction_types [of LHAT_BC_DIV LHAT_BC_LT "VALUE_INTEGER 1" "VALUE_INTEGER 0" "\<lambda>_ _. 0" sample_store False]
      instruction_types [of LHAT_BC_DIV LHAT_BC_LT "VALUE_BOOL True" "VALUE_INTEGER 2" "\<lambda>_ _. 0" sample_store False]
    by (simp add: carries_operators_def)
qed

end
