(* ===== verification/Spec2Isabelle.thy ===== *)
theory Spec2Isabelle
  imports Lhat_LexerProps Lhat_GcProps Lhat_LookupProps Lhat_SortProps Lhat_StringProps Lhat_ForProps
begin

text \<open>
  L^ (lhat) is an embeddable language with its implementation in C: a source is normalised and read
  into tokens (\<open>source.c\<close>, \<open>lexer.c\<close>, \<open>number.c\<close>), parsed and checked (\<open>parser.c\<close>, \<open>check.c\<close>),
  compiled (\<open>compile.c\<close>) and run by a register machine (\<open>vm.c\<close> and its parts) over a heap of objects
  (\<open>object.c\<close>, \<open>value.c\<close>) that an incremental collector frees (\<open>gc.c\<close>).  This library models the two
  ends of that line: the reading of a text, and the values of a running program with the collector
  beside it.  Paths are those under \<open>src/\<close> of the repository, with the headers under \<open>include/lhat/\<close>.

  \<^bold>\<open>Reading.\<close>
  \<^item> \<open>Lhat_Prelude\<close>: bytes, widths, and the lemmas on lists, options and words the others share.
  \<^item> \<open>Lhat_Source\<close>: \<open>lhat_source_normalise\<close> of \<open>source.c\<close>, the line endings and the byte order mark.
  \<^item> \<open>Lhat_Utf8\<close>: the decoder and encoder of \<open>lexer.c\<close> and its classes of characters.
  \<^item> \<open>Lhat_Number\<close>: the number grammar of \<open>number.c\<close>, with the doubles that \<open>strtod\<close> answers.
  \<^item> \<open>Lhat_Token\<close>: the tokens, the diagnostics and their names (\<open>token.h\<close>, \<open>token.c\<close>, \<open>lexer.h\<close>).
  \<^item> \<open>Lhat_Lexer\<close>, \<open>Lhat_Scan\<close>: the state of the lexer, its cursor and stores, every scanner, the
    interpolation stack and what the parser calls.  The state is the record \<open>LhatLexer\<close>, one definition
    per function.
  \<^item> \<open>Lhat_LexerInv\<close> keeps the positions of the cursor, of the diagnostics and of the comments those of
    the text before them; \<open>Lhat_LexerNext\<close> says what one call does; \<open>Lhat_TokenStream\<close> has the contract of a
    stream of tokens as a locale, interpreted on the lexer, and the loop of a reader over it;
    \<open>Lhat_LexerTrips\<close> reads back what a writer put down; \<open>Lhat_LexerProps\<close> has the properties.

  \<^bold>\<open>The heap and its collector.\<close>
  \<^item> \<open>Lhat_Heap\<close>: the values, for every kind of object the references it holds, the roots of a machine and
    the allocation (\<open>value.h\<close>, \<open>object.h\<close>, \<open>machine.h\<close>, \<open>object.c\<close>).  An address whose object was freed reads
    as nothing, so that a read of a freed object shows.
  \<^item> \<open>Lhat_Gc\<close>: \<open>gc.c\<close>, one definition per function: the marking, the atomic step with the weak tables and
    the coroutines held back for their cleanups, the sweep, the pacing and the two barriers.
  \<^item> \<open>Lhat_GcMark\<close>, \<open>Lhat_GcInv\<close>, \<open>Lhat_GcCycle\<close>, \<open>Lhat_GcSweep\<close>, \<open>Lhat_GcExact\<close>: the invariant of the
    three colours, that every step keeps it, and what a collection leaves.  \<open>Lhat_Barrier\<close> and
    \<open>Lhat_Alloc\<close>: what a write and an allocation owe, with the contract of a barrier as a locale interpreted
    on both barriers of the code.
  \<^item> \<open>Lhat_Mutator\<close>: what the machine does to the heap (\<open>vm.c\<close>, \<open>vm_call.c\<close>, \<open>vm_table.c\<close>): the writes with
    their barriers, captured places, calls, yield and resume.  \<open>Lhat_MutatorOk\<close>, \<open>Lhat_Stack\<close>,
    \<open>Lhat_Coroutine\<close>: when each keeps the invariant.  \<open>Lhat_Run\<close>: the step relation of a running machine, any
    order of its operations and of steps of the collector.  A step has only the guards of the code and what
    compiled code gives it; three operations keep the invariant only under conditions that the code does not
    check (a write into a suspended coroutine, a resume, the return of a session's top level), and these,
    \<open>step_covered\<close>, are a hypothesis on the run.
  \<^item> \<open>Lhat_GcCheck\<close> asks the invariant of a concrete machine; \<open>Lhat_GcPace\<close> has the pace of the cycles;
    \<open>Lhat_Captures\<close> has what a captured place reads, over a yield and a resume with what the resume sends;
    \<open>Lhat_Hazards\<close> has what comes of the first two conditions where they fail; \<open>Lhat_GcProps\<close> has the
    properties.

  \<^bold>\<open>Values and tables.\<close>
  \<^item> \<open>Lhat_Real\<close>: doubles as whole numbers of \<open>2 ^ -1074\<close>, infinities and NaN, and their order.
  \<^item> \<open>Lhat_RtType\<close>: the runtime types and their comparison.  \<open>Lhat_Value\<close>: the equality, the comparison within
    an error term, the three-way order, the hash of a key and the ordinals (\<open>value.c\<close>, \<open>object.c\<close>, \<open>vm.c\<close>).
  \<^item> \<open>Lhat_Table\<close>: the tables of \<open>object.c\<close>, the dense half and the hash half with linear probing and
    tombstones.  \<open>Lhat_Probe\<close> has probing as a locale over an equality and a hash, which \<open>Lhat_Keys\<close> and
    \<open>Lhat_TableInv\<close> interpret on those of \<open>Lhat_Value\<close>; \<open>Lhat_TableDrain\<close>, \<open>Lhat_TableSet\<close>, \<open>Lhat_TableOps\<close>
    and \<open>Lhat_TableWalk\<close> prove every operation against a map from keys to values; \<open>Lhat_TableProps\<close>.  A
    fractional key is found under itself in the hash half and under the position it rounds to in the run,
    so that the map reads such a key by where it stands; runtime types, whose hash is that of the address
    while their equality is structural, are left out, and so is the double \<open>2 ^ 63\<close> where the conversion
    that C leaves undefined equates it with an integer.
  \<^item> \<open>Lhat_Chain\<close>: the iterator of \<open>chain.h\<close> over a chain or ring.  \<open>Lhat_Lookup\<close>: the lookup through
    definitions and delegates; \<open>Lhat_LookupOk\<close>, \<open>Lhat_LookupProps\<close>: it always returns and what it finds.
    A link that does not return makes the walk over the chain not return.
  \<^item> \<open>Lhat_Sort\<close>, \<open>Lhat_SortOk\<close>, \<open>Lhat_SortProps\<close>: the bottom-up merge sort of \<open>vm_table.c\<close>.
  \<^item> \<open>Lhat_TableNative\<close>: what a program calls on a table (\<open>vm_table.c\<close>); \<open>Lhat_NativeOk\<close>,
    \<open>Lhat_NativeList\<close>, \<open>Lhat_NativeProps\<close>: a refinement of functions on lists.
  \<^item> \<open>Lhat_Utf8proc\<close>: the decoder and the boundary rules of the vendored utf8proc
    (\<open>vendor/utf8proc/utf8proc.c\<close>).  \<open>Lhat_Grapheme\<close>: the clusters of \<open>grapheme.c\<close>.  \<open>Lhat_StringNative\<close>: what a program calls on a string
    (\<open>vm_native.c\<close>); \<open>Lhat_StringOk\<close>, \<open>Lhat_StringList\<close>, \<open>Lhat_StringProps\<close>: the same over the list of clusters.
  \<^item> \<open>Lhat_Arith\<close>: the instructions on numbers and the numeric loop (\<open>vm.c\<close>), with the outcome \<open>UNDEFINED\<close>
    where C leaves the result open.  \<open>Lhat_NumberNative\<close>: what a program calls on a number (\<open>vm_native.c\<close>).
    \<open>Lhat_ArithOk\<close>, \<open>Lhat_Rounding\<close>, \<open>Lhat_ArithProps\<close>, \<open>Lhat_ForProps\<close>: against the integers.

  \<^bold>\<open>How state and failure are modelled.\<close>  State is a record that is passed on; a machine integer is a word
  of its width; a pointer is an address or \<open>None\<close>.  A fault of the program is a constructor of the result
  type, and a loop of the code that need not end is \<open>partial_function (option)\<close>, so that not returning is
  \<open>None\<close>; the properties of kind termination show \<open>Some\<close> on every input that the invariants allow.  A loop
  that ends by what it counts down is a \<open>function\<close> with its measure: the bytes left, the gray objects, the
  list still to sweep.

  \<^bold>\<open>Parameters.\<close>  Code that is not under \<open>src/\<close> is an argument, and so is generated data: the table of properties of
  code points that utf8proc reads (\<open>utf8proc_data.c\<close>), \<open>pow\<close> of the C library, the text of a real as \<open>snprintf\<close> gives it, what a conversion gives that C leaves
  undefined, whether the allocator has room, and the comparator or policy that a program hands to a native.
  Hypotheses on them say what their documentation says; their witnesses use concrete functions.
  Tables and strings are taken to be shorter than \<open>2 ^ 32\<close> or \<open>2 ^ 63\<close> where the code counts them in a word.

  \<^bold>\<open>Not modelled.\<close>  The parser, the checker with its types and the compiler are large single passes over a
  syntax tree that share no state with what is modelled here beyond the tokens; the interpreter is modelled
  as the operations it performs and not as its dispatch over encoded instructions.  Left out as input and
  output, glue or generated tables are the hosts, the tools (command line, language server, debugger), the
  ahead of time stencils, the standard library's bindings to the system, the messages and the rest of the vendored code.
  Writing a value or a type down as text, reading the file of a source, growing a store that runs out of
  memory in the lexer, and the contents of heap objects that hold no reference and are not compared or hashed
  are left out of the parts that are modelled.
\<close>

end
